(* ===== verification/Wm_Prelude.thy ===== *)
theory Wm_Prelude
  imports Main "HOL-Library.Word" "HOL-Library.Monad_Syntax"
begin

text \<open>
  Shared vocabulary of the development: the C integer types as words, the fact collections
  the component theories extend, and the few generic lemmas on words, maps and options that
  several components use.
\<close>

unbundle bit_operations_syntax

type_synonym u8 = "8 word"
type_synonym u16 = "16 word"
type_synonym u32 = "32 word"
type_synonym u64 = "64 word"

named_theorems link_simps "reading the link fields after one pointer write"
named_theorems wheel_simps "field access after the timer wheel operations"
named_theorems sched_simps "field access after the scheduler operations"

section \<open>Words read as natural numbers\<close>

lemma unat_lt32 [simp]: "unat (x :: u32) < 4294967296"
  using unsigned_less [of x] by simp

lemma unat_inc32: "unat ((x :: u32) + 1) = (unat x + 1) mod 4294967296"
  by (simp add: unat_word_ariths)

lemma unat_add32: "unat ((x :: u32) + y) = (unat x + unat y) mod 4294967296"
  by (simp add: unat_word_ariths)

lemma nat_diff_mod:
  assumes "a < m" "b < (m :: nat)"
  shows "(int a - int b) mod int m = int (if b \<le> a then a - b else m + a - b)"
proof (cases "b \<le> a")
  case True
  with assms show ?thesis by (simp add: of_nat_diff)
next
  case False
  have "(int a - int b) mod int m = (int a - int b + int m) mod int m" by simp
  also have "\<dots> = int a - int b + int m"
    using False assms by (intro mod_pos_pos_trivial) linarith+
  finally show ?thesis using False assms by (simp add: of_nat_diff)
qed

lemma unat_diff32:
  "unat ((x :: u32) - y) = (if unat y \<le> unat x then unat x - unat y
                            else 4294967296 + unat x - unat y)"
proof -
  have "int (unat (x - y)) = (int (unat x) - int (unat y)) mod int 4294967296"
    by (simp add: uint_word_ariths)
  then show ?thesis by (simp only: nat_diff_mod unat_lt32 of_nat_eq_iff)
qed

text \<open>The absolute value a word difference stands for: the minuend is the subtrahend plus it.\<close>

lemma unat_from_diff32: "unat (e :: u32) = (unat c + unat (e - c)) mod 4294967296"
  by (metis unat_add32 add.commute diff_add_cancel)

lemma unat_ucast_32_64: "unat (ucast (x :: u32) :: u64) = unat x"
proof -
  have "unat x < 2 ^ 64" using less_trans [OF unat_lt32 [of x], of "2 ^ 64"] by simp
  then show ?thesis by (simp add: unsigned_ucast_eq take_bit_nat_eq_self)
qed

lemma sint_small32: "unat (w :: u32) = n \<Longrightarrow> n < 2 ^ 31 \<Longrightarrow> sint w = int n"
proof -
  assume "unat w = n" "n < 2 ^ 31"
  then have "uint w = int n" "int n < 2 ^ 31" by (auto simp flip: uint_nat)
  then show ?thesis by (simp add: sint_uint signed_take_bit_int_eq_self)
qed

lemma unat_ucast_16_64: "unat (ucast (x :: u16) :: u64) = unat x"
proof -
  have "unat x < 2 ^ 16" using unsigned_less [of x, where ?'a = nat] by simp
  then have "unat x < 2 ^ 64" by (rule less_trans) simp
  then show ?thesis by (simp add: unsigned_ucast_eq take_bit_nat_eq_self)
qed

lemma of_nat_nonzero32: "0 < n \<Longrightarrow> n < 2 ^ 32 \<Longrightarrow> (of_nat n :: u32) \<noteq> 0"
  by (auto simp: word_of_nat_eq_0_iff dest: nat_dvd_not_less)

lemma unat_of_nat32: "n < 4294967296 \<Longrightarrow> unat (of_nat n :: u32) = n"
  by (simp add: unat_of_nat take_bit_nat_eq_self)

lemma unat_word_of_int16: "0 \<le> i \<Longrightarrow> i < 65536 \<Longrightarrow> unat (word_of_int i :: u16) = nat i"
proof -
  assume "0 \<le> i" "i < 65536"
  then have "nat i < 65536" "i = int (nat i)" by auto
  then have "word_of_int i = (of_nat (nat i) :: u16)" by (metis of_int_of_nat_eq)
  then show ?thesis using \<open>nat i < 65536\<close> by (simp add: unat_of_nat take_bit_nat_eq_self)
qed

text \<open>Fields of a number: the digits between two powers.\<close>

lemma mod_mult_div: "x mod (a * b) div a = x div a mod (b :: nat)" if "0 < a"
  using that by (simp add: mod_mult2_eq)

lemma mod_sum_right:
  assumes "(a + m) mod K = m" "m < (K :: nat)"
  shows "a mod K = 0"
proof -
  have "(a + m) mod K = m mod K" using assms by simp
  then have "K dvd (a + m) - m" by (subst mod_eq_dvd_iff_nat [symmetric]) simp_all
  then show ?thesis by simp
qed

section \<open>Options\<close>

lemma bind_Some_iff: "(f \<bind> g = Some y) \<longleftrightarrow> (\<exists>x. f = Some x \<and> g x = Some y)"
  by (cases f) auto

end
