(* ===== verification/Wm_Object.thy ===== *)
theory Wm_Object
  imports Wm_Prelude
begin

text \<open>
  The life of a connection object: the PHP object with its \<open>wmConnection\<close> (\<open>src/php_connection.c\<close>), the references
  to it, and what \<open>src/worker/connection.c\<close> and the accepting loops of \<open>src/worker.c\<close> do with it. The engine
  counts references and calls \<open>wm_connection_free_object\<close> when the last one goes; the C code holds one in
  \<open>_This\<close>, the array \<open>connections\<close> of the worker another; the coroutine that reads holds none: \<open>main_func\<close>
  pushes its frame with the object, but without a reference. \<open>None\<close> is an access to freed memory.
\<close>

section \<open>State\<close>

text \<open>Where the coroutine that reads is: waiting for bytes, running (what it creates runs inside it), over.\<close>

datatype reader = Read_waiting | Read_running | Read_over

text \<open>
  \<open>held\<close> is the number of references in variables and arguments of PHP code; \<open>freed\<close> is about the object and
  its \<open>wmConnection\<close>, which are freed together; \<open>established\<close> is \<open>_status\<close>, and \<open>tcp\<close> tells a connection
  with a coroutine that reads from that of a datagram.
\<close>

record conn_object =
  refcount :: nat
  freed :: bool
  established :: bool
  tcp :: bool
  in_connections :: bool
  held :: nat
  conn_reader :: reader

text \<open>
  What PHP code does with a connection: it copies and drops references, calls methods that only look at it,
  closes, takes a reference out of the array of the worker, removes the entry of the array, and sends.
  \<open>Send full e\<close> is a call of \<open>send\<close> that runs the coroutine of \<open>onBufferFull\<close>, if \<open>full\<close> is one, and ends in one
  of three ways: sent, with an error of the socket and the coroutine of \<open>onError\<close>, or with the peer gone.
  \<open>Send_bad h\<close> is one for which \<open>encode\<close> does not return a string, with the coroutine of \<open>onError\<close>. A send that
  waits is two actions: what it does before it yields, and later, among the other coroutines, its end.
\<close>

datatype php_act = Copy | Drop | Use | Close | Take | Unset_entry | Send "php_act list option" send_end | Send_bad "php_act list option"
  and send_end = Sent | Send_error "php_act list option" | Peer_gone

text \<open>The functions of the user: \<open>onClose\<close>, and the coroutines that are woken when the socket is closed.\<close>

record user_code =
  on_close :: "php_act list option"
  woken :: "php_act list"

section \<open>References\<close>

text \<open>
  \<open>wm_connection_create_object\<close>, with the reference that goes into \<open>_This\<close>.
\<close>

definition wm_connection_create_object :: conn_object where
  "wm_connection_create_object =
    \<lparr>refcount = 1, freed = False, established = True, tcp = True, in_connections = False, held = 0, conn_reader = Read_over\<rparr>"

text \<open>
  \<open>wm_connection_free_object\<close> with \<open>wmConnection_free\<close>: a connection that is still open would be closed
  from within, and the reference of \<open>_This\<close> dropped once more when there is none left.
\<close>

definition wm_connection_free_object :: "conn_object \<Rightarrow> conn_object option" where
  "wm_connection_free_object c = (if established c then None else Some (c\<lparr>freed := True\<rparr>))"

definition zval_ptr_dtor :: "conn_object \<Rightarrow> conn_object option" where
  "zval_ptr_dtor c =
    (if freed c \<or> refcount c = 0 then None
     else
       let c = c\<lparr>refcount := refcount c - 1\<rparr> in
       if refcount c = 0 then wm_connection_free_object c else Some c)"

text \<open>\<open>zend_hash_index_del\<close> on the array of the worker.\<close>

definition index_del :: "conn_object \<Rightarrow> conn_object option" where
  "index_del c = (if in_connections c then zval_ptr_dtor (c\<lparr>in_connections := False\<rparr>) else Some c)"

section \<open>PHP code\<close>

text \<open>
  One action; \<open>d\<close> is what closing does. Code without a reference cannot act. During a call of a method the
  frame of the call has a reference of its own. \<open>send\<close> does nothing to a connection that is closed, or to that
  of a datagram. With the peer gone it destroys the connection. A message that cannot be encoded closes the
  socket, which wakes a reader that waits: the reader destroys the connection and is over; then \<open>onError\<close> runs
  and, as the socket is closed, the connection is destroyed. An argument of a coroutine is one more reference.
\<close>

fun php_step :: "(conn_object \<Rightarrow> conn_object option) \<Rightarrow> php_act \<Rightarrow> conn_object \<Rightarrow> conn_object option"
  and php_run :: "(conn_object \<Rightarrow> conn_object option) \<Rightarrow> php_act list \<Rightarrow> conn_object \<Rightarrow> conn_object option"
  and run_coroutine :: "(conn_object \<Rightarrow> conn_object option) \<Rightarrow> php_act list option \<Rightarrow> conn_object \<Rightarrow> conn_object option"
  and send_result :: "(conn_object \<Rightarrow> conn_object option) \<Rightarrow> send_end \<Rightarrow> conn_object \<Rightarrow> conn_object option" where
  "php_step d Take c = Some (if in_connections c then c\<lparr>refcount := refcount c + 1, held := held c + 1\<rparr> else c)"
| "php_step d Unset_entry c = index_del c"
| "php_step d Copy c = Some (if held c = 0 then c else c\<lparr>refcount := refcount c + 1, held := held c + 1\<rparr>)"
| "php_step d Drop c = (if held c = 0 then Some c else zval_ptr_dtor (c\<lparr>held := held c - 1\<rparr>))"
| "php_step d Use c = (if held c = 0 then Some c else if freed c then None else Some c)"
| "php_step d Close c = (if held c = 0 then Some c else Option.bind (d (c\<lparr>refcount := refcount c + 1\<rparr>)) zval_ptr_dtor)"
| "php_step d (Send full e) c =
    (if held c = 0 then Some c
     else if freed c then None
     else if \<not> tcp c \<or> \<not> established c then Some c
     else
       Option.bind (run_coroutine d full (c\<lparr>refcount := refcount c + 1\<rparr>)) (\<lambda>c.
       Option.bind (if established c then send_result d e c else d c) zval_ptr_dtor))"
| "php_step d (Send_bad h) c =
    (if held c = 0 then Some c
     else if freed c then None
     else if \<not> tcp c \<or> \<not> established c then Some c
     else
       let c = c\<lparr>refcount := refcount c + 1\<rparr> in
       Option.bind
         (if conn_reader c = Read_waiting
          then map_option (\<lambda>c. c\<lparr>conn_reader := Read_over\<rparr>) (d (c\<lparr>conn_reader := Read_running\<rparr>)) else Some c) (\<lambda>c.
       Option.bind (run_coroutine d h c) (\<lambda>c.
       Option.bind (d c) zval_ptr_dtor)))"
| "php_run d [] c = Some c"
| "php_run d (a # as) c = Option.bind (php_step d a c) (php_run d as)"
| "run_coroutine d None c = Some c"
| "run_coroutine d (Some as) c =
    (if freed c then None else php_run d as (c\<lparr>refcount := refcount c + 1, held := held c + 1\<rparr>))"
| "send_result d Sent c = Some c"
| "send_result d Peer_gone c = d c"
| "send_result d (Send_error h) c = Option.bind (run_coroutine d h c) (\<lambda>c. if freed c then None else Some c)"

text \<open>A coroutine with the connection as its argument, up to where it yields or ends: then it has dropped it.\<close>

definition with_conn :: "(conn_object \<Rightarrow> conn_object option) \<Rightarrow> php_act list \<Rightarrow> conn_object \<Rightarrow> conn_object option" where
  "with_conn d as c =
    run_coroutine d (Some as) c"

section \<open>Closing\<close>

text \<open>Closing a connection whose status is closed already: the status is read.\<close>

definition closed_again :: "conn_object \<Rightarrow> conn_object option" where
  "closed_again c = (if freed c then None else Some c)"

text \<open>
  \<open>wmConnection_destroy\<close>. A reader that waits is woken by \<open>wmSocket_close\<close>, finds the connection closed and is
  over before the references are dropped. What the code of the user does inside finds the status closed.
\<close>

definition destroy_object :: "user_code \<Rightarrow> conn_object \<Rightarrow> conn_object option" where
  "destroy_object u c =
    (if freed c then None
     else if \<not> established c then Some c
     else
       let c = c\<lparr>established := False\<rparr>;
           c = (if conn_reader c = Read_waiting then c\<lparr>conn_reader := Read_over\<rparr> else c) in
       Option.bind (php_run closed_again (woken u) c) (\<lambda>c.
       Option.bind (case on_close u of None \<Rightarrow> Some c | Some as \<Rightarrow> with_conn closed_again as c) (\<lambda>c.
       Option.bind (index_del c) zval_ptr_dtor)))"

section \<open>Reading, accepting\<close>

text \<open>\<open>check_read_status\<close> in a running worker: the reader goes on or is over.\<close>

definition look_at_status :: "conn_object \<Rightarrow> conn_object option" where
  "look_at_status c =
    (if freed c then None else Some (c\<lparr>conn_reader := if established c then Read_waiting else Read_over\<rparr>))"

text \<open>
  What happens to a connection: other coroutines run; a message arrives, and its coroutine runs up to where it
  yields or ends; the client closes; reading fails, and the coroutine of \<open>onError\<close> runs if there is one.
\<close>

datatype conn_event = Meanwhile "php_act list" | Message "php_act list" | Hang_up | Read_fails "php_act list option"

text \<open>
  One event, for the turns of \<open>wmConnection_read\<close>. After the coroutine of \<open>onError\<close> the code looks whether the
  socket is closed; it is when the connection has been closed, and closing again does nothing.
\<close>

definition conn_step :: "user_code \<Rightarrow> conn_event \<Rightarrow> conn_object \<Rightarrow> conn_object option" where
  "conn_step u e c =
    (case e of
       Meanwhile as \<Rightarrow> php_run (destroy_object u) as c
     | _ \<Rightarrow>
       if conn_reader c \<noteq> Read_waiting then Some c
       else
         let c = c\<lparr>conn_reader := Read_running\<rparr> in
         (case e of
            Message as \<Rightarrow> Option.bind (with_conn (destroy_object u) as c) look_at_status
          | Hang_up \<Rightarrow> map_option (\<lambda>c. c\<lparr>conn_reader := Read_over\<rparr>) (destroy_object u c)
          | Read_fails h \<Rightarrow>
              Option.bind (case h of None \<Rightarrow> Some c | Some as \<Rightarrow> with_conn (destroy_object u) as c) (\<lambda>c.
              if freed c then None else Some (c\<lparr>conn_reader := Read_over\<rparr>))
          | _ \<Rightarrow> Some c))"

fun conn_life :: "user_code \<Rightarrow> conn_event list \<Rightarrow> conn_object \<Rightarrow> conn_object option" where
  "conn_life u [] c = Some c"
| "conn_life u (e # es) c = Option.bind (conn_step u e c) (conn_life u es)"

text \<open>
  One turn of \<open>acceptConnectionTcp\<close>: the object, its entry in the array with the second reference, the
  coroutine of \<open>onConnect\<close>, and the coroutine that reads, for which the object is looked up again.
\<close>

definition accept_object :: "user_code \<Rightarrow> php_act list option \<Rightarrow> conn_object option" where
  "accept_object u connect =
    (let c = wm_connection_create_object\<lparr>in_connections := True, refcount := 2\<rparr> in
     Option.bind (case connect of None \<Rightarrow> Some c | Some as \<Rightarrow> with_conn (destroy_object u) as c) look_at_status)"

text \<open>
  A datagram: a connection of its own, and the coroutine of the message, run to its end; then
  \<open>onMessage_callback_udp\<close> closes the connection that the object leads to.
\<close>

definition udp_message :: "user_code \<Rightarrow> php_act list \<Rightarrow> conn_object option" where
  "udp_message u as =
    Option.bind (with_conn (destroy_object u) as (wm_connection_create_object\<lparr>tcp := False\<rparr>)) (\<lambda>c.
    if freed c then None else destroy_object u c)"

section \<open>Counting\<close>

text \<open>
  The count is right: references of PHP code, the entry of the array, \<open>_This\<close> as long as the connection is not
  closed, and \<open>k\<close> that the C code holds at the moment. With the last of them the object is freed.
\<close>

definition counted :: "nat \<Rightarrow> conn_object \<Rightarrow> bool" where
  "counted k c \<longleftrightarrow>
    refcount c = held c + of_bool (in_connections c) + of_bool (established c) + k \<and> (freed c \<longleftrightarrow> refcount c = 0)"

text \<open>What running code leaves: the count, a closed connection closed, a reader that runs running.\<close>

definition passes :: "nat \<Rightarrow> conn_object \<Rightarrow> conn_object \<Rightarrow> bool" where
  "passes k c c' \<longleftrightarrow> counted k c' \<and> (established c' \<longrightarrow> established c) \<and>
    (conn_reader c' = conn_reader c \<or> conn_reader c = Read_waiting \<and> conn_reader c' = Read_over) \<and>
    (conn_reader c' = Read_waiting \<longrightarrow> established c \<longrightarrow> established c')"

lemma passes_refl [simp]: "passes k c c \<longleftrightarrow> counted k c"
  by (auto simp: passes_def)

lemma passes_trans: "passes j c d \<Longrightarrow> passes k d e \<Longrightarrow> passes k c e"
  by (auto simp: passes_def)

lemma counted_held: "counted k c \<Longrightarrow> 0 < held c + k \<Longrightarrow> \<not> freed c"
  by (auto simp: counted_def)

lemma drop_ok:
  assumes "counted (Suc k) c"
  shows "\<exists>c'. zval_ptr_dtor c = Some c' \<and> passes k c c' \<and> established c' = established c \<and> conn_reader c' = conn_reader c"
  using assms by (auto simp: counted_def passes_def zval_ptr_dtor_def wm_connection_free_object_def Let_def)

lemma index_del_ok:
  assumes "counted k c"
  shows "\<exists>c'. index_del c = Some c' \<and> passes k c c' \<and> established c' = established c \<and> conn_reader c' = conn_reader c"
proof (cases "in_connections c")
  case True
  then have "counted (Suc k) (c\<lparr>in_connections := False\<rparr>)" using assms by (auto simp: counted_def)
  from drop_ok [OF this] show ?thesis using True by (auto simp: index_del_def passes_def)
qed (use assms in \<open>simp add: index_del_def\<close>)

text \<open>Closing, called with a reference in hand.\<close>

definition closes_well :: "(conn_object \<Rightarrow> conn_object option) \<Rightarrow> bool" where
  "closes_well d \<longleftrightarrow> (\<forall>k c. counted (Suc k) c \<longrightarrow> (\<exists>c'. d c = Some c' \<and> passes (Suc k) c c'))"

lemma closed_again_well: "closes_well closed_again"
  by (auto simp: closes_well_def closed_again_def counted_def)

lemma closes_wellD:
  assumes "closes_well d" "counted (Suc k) c"
  shows "\<exists>c'. d c = Some c' \<and> passes (Suc k) c c'"
  using assms unfolding closes_well_def by blast

text \<open>A call that holds a reference for the frame and ends by dropping it.\<close>

lemma framed:
  assumes "passes (Suc k) (c\<lparr>refcount := refcount c + 1\<rparr>) c1"
  shows "\<exists>c'. zval_ptr_dtor c1 = Some c' \<and> passes k c c'"
proof -
  have "counted (Suc k) c1" using assms by (simp add: passes_def)
  from drop_ok [OF this] obtain c' where c': "zval_ptr_dtor c1 = Some c'" "passes k c1 c'" by blast
  from passes_trans [OF assms this(2)] c'(1) show ?thesis by (auto simp: passes_def)
qed

lemma counted_frame: "counted k c \<Longrightarrow> \<not> freed c \<Longrightarrow> counted (Suc k) (c\<lparr>refcount := refcount c + 1\<rparr>)"
  by (auto simp: counted_def)

text \<open>The reader that finds the socket closed.\<close>

lemma reader_gone:
  assumes "closes_well d" "counted (Suc k) c"
  shows "\<exists>c'. (if conn_reader c = Read_waiting
          then map_option (\<lambda>c. c\<lparr>conn_reader := Read_over\<rparr>) (d (c\<lparr>conn_reader := Read_running\<rparr>)) else Some c) = Some c' \<and> passes (Suc k) c c'"
proof (cases "conn_reader c = Read_waiting")
  case True
  have "counted (Suc k) (c\<lparr>conn_reader := Read_running\<rparr>)" using assms(2) by (simp add: counted_def)
  from closes_wellD [OF assms(1) this] True show ?thesis by (auto simp: passes_def counted_def)
qed (use assms(2) in simp)

lemma php_code_ok:
  shows "closes_well d \<Longrightarrow> counted k c \<Longrightarrow> \<exists>c'. php_step d a c = Some c' \<and> passes k c c'"
    and "closes_well d \<Longrightarrow> counted k c \<Longrightarrow> \<exists>c'. php_run d as c = Some c' \<and> passes k c c'"
    and "closes_well d \<Longrightarrow> counted k c \<Longrightarrow> \<not> freed c \<Longrightarrow> \<exists>c'. run_coroutine d h c = Some c' \<and> passes k c c'"
    and "closes_well d \<Longrightarrow> counted (Suc k) c \<Longrightarrow> \<exists>c'. send_result d e c = Some c' \<and> passes (Suc k) c c'"
proof (induction d a c and d as c and d h c and d e c arbitrary: k and k and k and k
    rule: php_step_php_run_run_coroutine_send_result.induct)
  case (1 d c)
  then show ?case by (auto simp: counted_def passes_def)
next
  case (2 d c)
  then show ?case using index_del_ok [of k c] by auto
next
  case (3 d c)
  then show ?case by (auto simp: counted_def passes_def)
next
  case (4 d c)
  then show ?case
  proof (cases "held c = 0")
    case False
    then have "counted (Suc k) (c\<lparr>held := held c - 1\<rparr>)" using 4 by (auto simp: counted_def)
    from drop_ok [OF this] show ?thesis using False by (auto simp: passes_def)
  qed simp
next
  case (5 d c)
  then show ?case by (auto simp: counted_def)
next
  case (6 d c)
  show ?case
  proof (cases "held c = 0")
    case False
    then have "counted (Suc k) (c\<lparr>refcount := refcount c + 1\<rparr>)" using counted_frame [OF 6(2)] counted_held [OF 6(2)] by auto
    then obtain c1 where c1: "d (c\<lparr>refcount := refcount c + 1\<rparr>) = Some c1" "passes (Suc k) (c\<lparr>refcount := refcount c + 1\<rparr>) c1"
      using closes_wellD [OF 6(1)] by blast
    from framed [OF c1(2)] c1(1) False show ?thesis by auto
  qed (use 6 in simp)
next
  case (7 d full e c)
  show ?case
  proof (cases "held c = 0 \<or> \<not> tcp c \<or> \<not> established c")
    case True
    then show ?thesis using 7(4) counted_held [OF 7(4)] by auto
  next
    case False
    let ?c = "c\<lparr>refcount := refcount c + 1\<rparr>"
    have n: "\<not> freed c" "counted (Suc k) ?c" "\<not> freed ?c" using False 7(4) counted_held [OF 7(4)] counted_frame by auto
    obtain c1 where c1: "run_coroutine d full ?c = Some c1" "passes (Suc k) ?c c1"
      using 7(1) [OF _ _ _ 7(3) n(2,3)] False n(1) by auto
    have k1: "counted (Suc k) c1" using c1(2) by (simp add: passes_def)
    obtain c2 where c2: "(if established c1 then send_result d e c1 else d c1) = Some c2" "passes (Suc k) c1 c2"
      using 7(2) [OF _ _ _ _ _ 7(3) k1] closes_wellD [OF 7(3) k1] False n(1) c1(1) by (cases "established c1") auto
    from framed [OF passes_trans [OF c1(2) c2(2)]] c1(1) c2(1) False n(1) show ?thesis by auto
  qed
next
  case (8 d h c)
  show ?case
  proof (cases "held c = 0 \<or> \<not> tcp c \<or> \<not> established c")
    case True
    then show ?thesis using 8(3) counted_held [OF 8(3)] by auto
  next
    case False
    let ?c = "c\<lparr>refcount := refcount c + 1\<rparr>"
    have n: "\<not> freed c" "counted (Suc k) ?c" using False 8(3) counted_held [OF 8(3)] counted_frame by auto
    obtain c1 where c1: "(if conn_reader ?c = Read_waiting
          then map_option (\<lambda>c. c\<lparr>conn_reader := Read_over\<rparr>) (d (?c\<lparr>conn_reader := Read_running\<rparr>)) else Some ?c) = Some c1" "passes (Suc k) ?c c1"
      using reader_gone [OF 8(2) n(2)] by blast
    have k1: "counted (Suc k) c1" "\<not> freed c1" using c1(2) counted_held [of "Suc k" c1] by (auto simp: passes_def)
    obtain c2 where c2: "run_coroutine d h c1 = Some c2" "passes (Suc k) c1 c2"
      using 8(1) [OF _ _ _ refl c1(1) 8(2) k1] False n(1) by auto
    obtain c3 where c3: "d c2 = Some c3" "passes (Suc k) c2 c3" using closes_wellD [OF 8(2), of k c2] c2(2) by (auto simp: passes_def)
    from framed [OF passes_trans [OF c1(2) passes_trans [OF c2(2) c3(2)]]] c1(1) c2(1) c3(1) False n(1) show ?thesis by (auto simp: Let_def)
  qed
next
  case (10 d a as c)
  obtain c1 where c1: "php_step d a c = Some c1" "passes k c c1" using 10(1) [OF 10(3,4)] by blast
  then obtain c' where "php_run d as c1 = Some c'" "passes k c1 c'" using 10(2) [OF c1(1) 10(3), of k] by (auto simp: passes_def)
  then show ?case using c1 passes_trans by auto
next
  case (12 d as c)
  have "counted k (c\<lparr>refcount := refcount c + 1, held := held c + 1\<rparr>)" using 12(3,4) by (auto simp: counted_def)
  from 12(1) [OF 12(4,2) this] show ?case using 12(4) by (auto simp: passes_def)
next
  case (14 d c)
  then show ?case using closes_wellD by simp
next
  case (15 d h c)
  obtain c1 where c1: "run_coroutine d h c = Some c1" "passes (Suc k) c c1"
    using 15(1) [OF 15(2,3)] counted_held [OF 15(3)] by auto
  then show ?case using counted_held [of "Suc k" c1] by (auto simp: passes_def)
qed simp_all

lemma php_run_ok:
  assumes "closes_well d" "counted k c"
  shows "\<exists>c'. php_run d as c = Some c' \<and> passes k c c'"
  by (rule php_code_ok(2) [OF assms])

lemma with_conn_ok:
  assumes "closes_well d" "counted k c" "\<not> freed c"
  shows "\<exists>c'. with_conn d as c = Some c' \<and> passes k c c'"
  unfolding with_conn_def by (rule php_code_ok(3) [OF assms])

lemma destroy_ok:
  assumes "counted k c" "\<not> freed c"
  shows "\<exists>c'. destroy_object u c = Some c' \<and> passes k c c' \<and> \<not> established c'"
proof (cases "established c")
  case True
  let ?c = "c\<lparr>established := False\<rparr>"
  define c0 where "c0 = (if conn_reader ?c = Read_waiting then ?c\<lparr>conn_reader := Read_over\<rparr> else ?c)"
  have c0: "counted (Suc k) c0" "\<not> established c0"
      "conn_reader c0 = conn_reader c \<or> conn_reader c = Read_waiting \<and> conn_reader c0 = Read_over" "conn_reader c0 \<noteq> Read_waiting"
    using assms(1) True by (auto simp: c0_def counted_def)
  obtain c1 where c1: "php_run closed_again (woken u) c0 = Some c1" "passes (Suc k) c0 c1"
    using php_run_ok [OF closed_again_well c0(1)] by blast
  have n1: "counted (Suc k) c1" "\<not> freed c1" using c1(2) counted_held [of "Suc k" c1] by (auto simp: passes_def)
  obtain c2 where c2: "(case on_close u of None \<Rightarrow> Some c1 | Some as \<Rightarrow> with_conn closed_again as c1) = Some c2" "passes (Suc k) c1 c2"
    using with_conn_ok [OF closed_again_well n1] n1(1) by (cases "on_close u") auto
  obtain c3 where c3: "index_del c2 = Some c3" "passes (Suc k) c2 c3" using index_del_ok [of "Suc k" c2] c2(2) by (auto simp: passes_def)
  obtain c4 where c4: "zval_ptr_dtor c3 = Some c4" "passes k c3 c4" using drop_ok [of k c3] c3(2) by (auto simp: passes_def)
  have "destroy_object u c = Some c4"
    using assms(2) True c1(1) c2(1) c3(1) c4(1) by (simp add: destroy_object_def Let_def c0_def)
  moreover have "passes k c0 c4" using passes_trans [OF c1(2) passes_trans [OF c2(2) passes_trans [OF c3(2) c4(2)]]] .
  ultimately show ?thesis using c0(2-4) True by (auto simp: passes_def)
qed (use assms in \<open>simp add: destroy_object_def\<close>)

lemma destroy_well: "closes_well (destroy_object u)"
  unfolding closes_well_def using destroy_ok counted_held by (metis add_Suc_right zero_less_Suc)

lemmas user_runs = php_run_ok [OF destroy_well] with_conn_ok [OF destroy_well]

section \<open>Safety\<close>

text \<open>Code that does not close the connection: neither by closing it, nor by a send that ends so.\<close>

fun open_act :: "php_act \<Rightarrow> bool" and open_acts :: "php_act list \<Rightarrow> bool" and open_coroutine :: "php_act list option \<Rightarrow> bool"
  and open_end :: "send_end \<Rightarrow> bool" where
  "open_act Close \<longleftrightarrow> False"
| "open_act (Send_bad h) \<longleftrightarrow> False"
| "open_act (Send full e) \<longleftrightarrow> open_coroutine full \<and> open_end e"
| "open_act _ \<longleftrightarrow> True"
| "open_acts [] \<longleftrightarrow> True"
| "open_acts (a # as) \<longleftrightarrow> open_act a \<and> open_acts as"
| "open_coroutine None \<longleftrightarrow> True"
| "open_coroutine (Some as) \<longleftrightarrow> open_acts as"
| "open_end Peer_gone \<longleftrightarrow> False"
| "open_end Sent \<longleftrightarrow> True"
| "open_end (Send_error h) \<longleftrightarrow> open_coroutine h"

lemma dtor_established: "zval_ptr_dtor x = Some y \<Longrightarrow> established y = established x"
  by (auto simp: zval_ptr_dtor_def wm_connection_free_object_def Let_def split: if_splits)

lemma index_del_established: "index_del x = Some y \<Longrightarrow> established y = established x"
  using dtor_established by (fastforce simp: index_del_def split: if_splits)

lemma open_not_freed: "counted k c \<Longrightarrow> established c \<Longrightarrow> \<not> freed c"
  by (auto simp: counted_def)

lemma stays_open:
  shows "open_act a \<Longrightarrow> counted k c \<Longrightarrow> established c \<Longrightarrow> \<exists>c'. php_step d a c = Some c' \<and> counted k c' \<and> established c'"
    and "open_acts as \<Longrightarrow> counted k c \<Longrightarrow> established c \<Longrightarrow> \<exists>c'. php_run d as c = Some c' \<and> counted k c' \<and> established c'"
    and "open_coroutine h \<Longrightarrow> counted k c \<Longrightarrow> established c \<Longrightarrow> \<exists>c'. run_coroutine d h c = Some c' \<and> counted k c' \<and> established c'"
    and "open_end e \<Longrightarrow> counted k c \<Longrightarrow> established c \<Longrightarrow> \<exists>c'. send_result d e c = Some c' \<and> counted k c' \<and> established c'"
proof (induction d a c and d as c and d h c and d e c arbitrary: k and k and k and k
    rule: php_step_php_run_run_coroutine_send_result.induct)
  case (2 d c)
  then show ?case using index_del_ok [of k c] by (auto simp: passes_def)
next
  case (4 d c)
  show ?case
  proof (cases "held c = 0")
    case False
    then have "counted (Suc k) (c\<lparr>held := held c - 1\<rparr>)" using 4 by (auto simp: counted_def)
    from drop_ok [OF this] show ?thesis using False 4(3) by (auto simp: passes_def)
  qed (use 4 in simp)
next
  case (7 d full e c)
  show ?case
  proof (cases "held c = 0 \<or> \<not> tcp c")
    case True
    then show ?thesis using 7(4,5) counted_held [OF 7(4)] by auto
  next
    case False
    let ?c = "c\<lparr>refcount := refcount c + 1\<rparr>"
    have n: "\<not> freed c" "counted (Suc k) ?c" "established ?c" using False 7(4,5) counted_held [OF 7(4)] counted_frame by auto
    obtain c1 where c1: "run_coroutine d full ?c = Some c1" "counted (Suc k) c1" "established c1"
      using 7(1) [OF _ _ _ _ n(2,3)] 7(3,5) False n(1) by auto
    obtain c2 where c2: "send_result d e c1 = Some c2" "counted (Suc k) c2" "established c2"
      using 7(2) [OF _ _ _ _ _ _ c1(2,3)] 7(3,5) c1(1,3) False n(1) by auto
    from drop_ok [OF c2(2)] c1 c2 False n(1) 7(5) show ?thesis by (auto simp: passes_def)
  qed
next
  case (10 d a as c)
  obtain c1 where c1: "php_step d a c = Some c1" "counted k c1" "established c1" using 10(1) [OF _ 10(4,5)] 10(3) by auto
  then show ?case using 10(2) [OF _ _ c1(2,3)] 10(3) c1(1) by auto
next
  case (12 d as c)
  have n: "\<not> freed c" by (rule open_not_freed [OF 12(3,4)])
  have "counted k (c\<lparr>refcount := refcount c + 1, held := held c + 1\<rparr>)" using 12(3) n by (auto simp: counted_def)
  from 12(1) [OF n _ this] 12(2,4) n show ?case by simp
next
  case (15 d h c)
  obtain c1 where c1: "run_coroutine d h c = Some c1" "counted k c1" "established c1" using 15(1) [OF _ 15(3,4)] 15(2) by auto
  then show ?case using open_not_freed [OF c1(2,3)] by auto
qed (auto simp: counted_def)

lemma open_with_conn:
  assumes "counted k c" "established c" "open_acts as"
  shows "\<exists>c'. with_conn d as c = Some c' \<and> counted k c' \<and> established c'"
  unfolding with_conn_def using stays_open(3) [of "Some as" k c d] assms by simp

text \<open>A connection between events, and events whose functions do not close while the reader runs.\<close>

definition well_read :: "conn_object \<Rightarrow> bool" where
  "well_read c \<longleftrightarrow> counted 0 c \<and> (conn_reader c = Read_waiting \<longrightarrow> established c)"

definition quiet_event :: "conn_event \<Rightarrow> bool" where
  "quiet_event e = (case e of Message as \<Rightarrow> open_acts as | Read_fails h \<Rightarrow> open_coroutine h | _ \<Rightarrow> True)"

lemma look_ok:
  assumes "counted 0 c" "\<not> freed c"
  shows "\<exists>c'. look_at_status c = Some c' \<and> well_read c'"
  using assms by (auto simp: look_at_status_def well_read_def counted_def)

lemma conn_step_ok:
  assumes "well_read c" "quiet_event e"
  shows "\<exists>c'. conn_step u e c = Some c' \<and> well_read c'"
proof (cases "(\<exists>as. e = Meanwhile as) \<or> conn_reader c \<noteq> Read_waiting")
  case True
  then consider as where "e = Meanwhile as" | "\<nexists>as. e = Meanwhile as" "conn_reader c \<noteq> Read_waiting" by blast
  then show ?thesis
  proof cases
    case 1
    then show ?thesis
      using user_runs(1) [of 0 c u as] assms(1) by (auto simp: conn_step_def well_read_def passes_def)
  next
    case 2
    then show ?thesis using assms(1) by (cases e) (simp_all add: conn_step_def)
  qed
next
  case False
  let ?c = "c\<lparr>conn_reader := Read_running\<rparr>"
  have w: "counted 0 c" "established c" using assms(1) False by (simp_all add: well_read_def)
  then have c: "counted 0 ?c" "established ?c" "\<not> freed ?c"
    using open_not_freed [OF w] by (simp_all add: counted_def)
  show ?thesis
  proof (cases e)
    case (Message as)
    then obtain c1 where c1: "with_conn (destroy_object u) as ?c = Some c1" "counted 0 c1" "established c1"
      using open_with_conn [OF c(1,2)] assms(2) by (auto simp: quiet_event_def)
    show ?thesis using look_ok [OF c1(2) open_not_freed [OF c1(2,3)]] c1(1) False Message by (simp add: conn_step_def Let_def)
  next
    case Hang_up
    obtain c1 where "destroy_object u ?c = Some c1" "passes 0 ?c c1" using destroy_ok [OF c(1,3)] by blast
    then show ?thesis using False Hang_up by (simp add: conn_step_def Let_def passes_def well_read_def counted_def)
  next
    case (Read_fails h)
    obtain c1 where "(case h of None \<Rightarrow> Some ?c | Some as \<Rightarrow> with_conn (destroy_object u) as ?c) = Some c1" "counted 0 c1" "established c1"
    proof (cases h)
      case None
      then show ?thesis using that [of ?c] c(1,2) by simp
    next
      case (Some as)
      then show ?thesis using that open_with_conn [OF c(1,2), of as "destroy_object u"] assms(2) Read_fails by (auto simp: quiet_event_def)
    qed
    then show ?thesis using False Read_fails open_not_freed [of 0 c1] by (simp add: conn_step_def Let_def well_read_def counted_def)
  qed (use False in simp)
qed

lemma conn_life_ok:
  assumes "well_read c" "\<forall>e \<in> set es. quiet_event e"
  shows "\<exists>c'. conn_life u es c = Some c' \<and> well_read c'"
  using assms
proof (induction es arbitrary: c)
  case (Cons e es)
  obtain c1 where "conn_step u e c = Some c1" "well_read c1" using conn_step_ok [of c e u] Cons.prems by auto
  then show ?case using Cons.IH [of c1] Cons.prems(2) by simp
qed simp

lemma created: "counted 0 wm_connection_create_object" "established wm_connection_create_object"
    "counted 0 (wm_connection_create_object\<lparr>in_connections := True, refcount := 2\<rparr>)"
    "counted 0 (wm_connection_create_object\<lparr>tcp := False\<rparr>)" "established (wm_connection_create_object\<lparr>tcp := False\<rparr>)"
  by (simp_all add: wm_connection_create_object_def counted_def)

lemma accept_ok:
  assumes "open_coroutine connect"
  shows "\<exists>c. accept_object u connect = Some c \<and> well_read c \<and> conn_reader c = Read_waiting"
proof -
  let ?c = "wm_connection_create_object\<lparr>in_connections := True, refcount := 2\<rparr>"
  have e: "established ?c" by (simp add: wm_connection_create_object_def)
  obtain c1 where c1: "(case connect of None \<Rightarrow> Some ?c | Some as \<Rightarrow> with_conn (destroy_object u) as ?c) = Some c1" "counted 0 c1" "established c1"
    using open_with_conn [OF created(3) e, of _ "destroy_object u"] assms that created(3) e by (cases connect) auto
  have "accept_object u connect = look_at_status c1" using c1(1) by (simp add: accept_object_def)
  then show ?thesis using c1(2,3) open_not_freed [OF c1(2,3)] by (simp add: look_at_status_def well_read_def counted_def)
qed



section \<open>Closing from within\<close>

text \<open>The functions of a user who does nothing when a connection is closed.\<close>

definition plain_user :: "user_code \<Rightarrow> bool" where
  "plain_user u \<longleftrightarrow> woken u = [] \<and> (on_close u = None \<or> on_close u = Some [Drop])"

lemma close_drop:
  assumes "counted 0 c" "held c = 0" "established c" "plain_user u"
  shows "\<exists>c'. with_conn (destroy_object u) [Use, Close, Drop] c = Some c' \<and> freed c'"
proof -
  have n: "\<not> freed c" by (rule open_not_freed [OF assms(1,3)])
  obtain c' where c': "with_conn (destroy_object u) [Use, Close, Drop] c = Some c'" "counted 0 c'"
    using user_runs(2) [OF assms(1) n, of u "[Use, Close, Drop]"] by (auto simp: passes_def)
  have "held c' = 0 \<and> \<not> established c' \<and> \<not> in_connections c'"
    using assms n c'(1)
    by (auto simp: plain_user_def counted_def with_conn_def destroy_object_def Let_def index_del_def zval_ptr_dtor_def
        wm_connection_free_object_def split: if_splits)
  then show ?thesis using c' by (auto simp: counted_def)
qed

text \<open>
  C19: closing a connection in its own function. When the coroutine of \<open>onMessage\<close>, \<open>onError\<close> or \<open>onConnect\<close>, or
  that of a datagram, closes the connection and ends, and no other PHP code refers to it, the object is
  freed with its last reference, and the C code that created the coroutine goes on with the freed
  connection. A second reference, kept in a variable, is enough to prevent it.
\<close>

theorem connection_closed_within:
  assumes "well_read c" "conn_reader c = Read_waiting" "held c = 0" "plain_user u"
  shows "conn_step u (Message [Use, Close, Drop]) c = None \<and> conn_step u (Read_fails (Some [Use, Close, Drop])) c = None \<and>
    accept_object u (Some [Use, Close, Drop]) = None \<and> udp_message u [Use, Close, Drop] = None \<and>
    (\<exists>c'. conn_step u (Message [Copy, Close, Drop]) c = Some c' \<and> \<not> freed c' \<and> conn_reader c' = Read_over)"
proof (intro conjI)
  let ?c = "c\<lparr>conn_reader := Read_running\<rparr>"
  have c: "counted 0 ?c" "held ?c = 0" "established ?c" using assms(1-3) by (simp_all add: well_read_def counted_def)
  obtain c1 where c1: "with_conn (destroy_object u) [Use, Close, Drop] ?c = Some c1" "freed c1"
    using close_drop [OF c assms(4)] by blast
  show "conn_step u (Message [Use, Close, Drop]) c = None"
    using c1 assms(2) by (simp add: conn_step_def Let_def look_at_status_def)
  show "conn_step u (Read_fails (Some [Use, Close, Drop])) c = None"
    using c1 assms(2) by (simp add: conn_step_def Let_def)
  have h: "held (wm_connection_create_object\<lparr>in_connections := True, refcount := 2\<rparr>) = 0"
      "established (wm_connection_create_object\<lparr>in_connections := True, refcount := 2\<rparr>)" "held (wm_connection_create_object\<lparr>tcp := False\<rparr>) = 0"
    by (simp_all add: wm_connection_create_object_def)
  show "accept_object u (Some [Use, Close, Drop]) = None"
    using close_drop [OF created(3) h(1,2) assms(4)] by (auto simp: accept_object_def look_at_status_def)
  show "udp_message u [Use, Close, Drop] = None"
    using close_drop [OF created(4) h(3) created(5) assms(4)] by (auto simp: udp_message_def)
  have n: "\<not> freed ?c" by (rule open_not_freed [OF c(1,3)])
  obtain c2 where c2: "with_conn (destroy_object u) [Copy, Close, Drop] ?c = Some c2" "counted 0 c2"
    using user_runs(2) [OF c(1) n, of u "[Copy, Close, Drop]"] by (auto simp: passes_def)
  have "held c2 = 1 \<and> \<not> established c2"
    using c n assms(4) c2(1)
    by (auto simp: plain_user_def counted_def with_conn_def destroy_object_def Let_def index_del_def zval_ptr_dtor_def
        wm_connection_free_object_def split: if_splits)
  then show "\<exists>c'. conn_step u (Message [Copy, Close, Drop]) c = Some c' \<and> \<not> freed c' \<and> conn_reader c' = Read_over"
    using c2 assms(2) counted_held [OF c2(2)] by (simp add: conn_step_def Let_def look_at_status_def)
qed

theorem connection_closed_within_witness:
  "\<exists>c. accept_object \<lparr>on_close = Some [Drop], woken = []\<rparr> None = Some c \<and> conn_step \<lparr>on_close = Some [Drop], woken = []\<rparr> (Message [Use, Close, Drop]) c = None"
proof -
  let ?u = "\<lparr>on_close = Some [Drop], woken = []\<rparr>"
  obtain c where c: "accept_object ?u None = Some c" "well_read c" "conn_reader c = Read_waiting" using accept_ok [of None ?u] by auto
  have "held c = 0" using c(1) by (auto simp: accept_object_def look_at_status_def wm_connection_create_object_def)
  then show ?thesis using connection_closed_within [OF c(2,3), of ?u] c(1) by (auto simp: plain_user_def)
qed

text \<open>
  The same with a send. When \<open>send\<close> in the coroutine of \<open>onMessage\<close> finds the peer gone, or its message cannot
  be encoded, it destroys the connection, and with the end of the function the object is freed while
  the loop that reads goes on with it: a function that only sends is not safe.
\<close>

theorem connection_send_within:
  assumes "well_read c" "conn_reader c = Read_waiting" "held c = 0" "plain_user u" "tcp c"
  shows "conn_step u (Message [Send None Peer_gone, Drop]) c = None \<and> conn_step u (Message [Send_bad None, Drop]) c = None \<and>
    (\<exists>c'. conn_step u (Message [Send None Sent, Drop]) c = Some c' \<and> conn_reader c' = Read_waiting)"
proof -
  let ?c = "c\<lparr>conn_reader := Read_running\<rparr>" and ?d = "destroy_object u"
  have c: "counted 0 ?c" "held ?c = 0" "established ?c" "tcp ?c" using assms(1-3,5) by (simp_all add: well_read_def counted_def)
  have n: "\<not> freed ?c" by (rule open_not_freed [OF c(1,3)])
  have "\<exists>c'. with_conn ?d [a, Drop] ?c = Some c' \<and> freed c'" if a: "a = Send None Peer_gone \<or> a = Send_bad None" for a
  proof -
    obtain c' where c': "with_conn ?d [a, Drop] ?c = Some c'" "counted 0 c'"
      using user_runs(2) [OF c(1) n, of u "[a, Drop]"] by (auto simp: passes_def)
    have "held c' = 0 \<and> \<not> established c' \<and> \<not> in_connections c'"
      using a assms(4) c n c'(1)
      by (auto simp: plain_user_def counted_def with_conn_def destroy_object_def Let_def index_del_def zval_ptr_dtor_def
          wm_connection_free_object_def split: if_splits)
    then show ?thesis using c' by (auto simp: counted_def)
  qed
  then have "conn_step u (Message [Send None Peer_gone, Drop]) c = None" "conn_step u (Message [Send_bad None, Drop]) c = None"
    using assms(2) by (fastforce simp: conn_step_def Let_def look_at_status_def)+
  moreover obtain c1 where "with_conn ?d [Send None Sent, Drop] ?c = Some c1" "counted 0 c1" "established c1"
    using open_with_conn [OF c(1,3), of "[Send None Sent, Drop]" ?d] by auto
  then have "\<exists>c'. conn_step u (Message [Send None Sent, Drop]) c = Some c' \<and> conn_reader c' = Read_waiting"
    using assms(2) open_not_freed [of 0 c1] by (simp add: conn_step_def Let_def look_at_status_def)
  ultimately show ?thesis by blast
qed

theorem connection_send_within_witness:
  "\<exists>c. accept_object \<lparr>on_close = None, woken = []\<rparr> None = Some c \<and> conn_step \<lparr>on_close = None, woken = []\<rparr> (Message [Send None Peer_gone, Drop]) c = None"
proof -
  let ?u = "\<lparr>on_close = None, woken = []\<rparr>"
  obtain c where c: "accept_object ?u None = Some c" "well_read c" "conn_reader c = Read_waiting" using accept_ok [of None ?u] by auto
  have "held c = 0" "tcp c" using c(1) by (auto simp: accept_object_def look_at_status_def wm_connection_create_object_def)
  then show ?thesis using connection_send_within [OF c(2,3), of ?u] c(1) by (auto simp: plain_user_def)
qed

text \<open>A datagram whose function does not close the connection: it is freed with the last reference to it.\<close>

lemma udp_message_ok:
  assumes "open_acts as"
  shows "\<exists>c. udp_message u as = Some c \<and> (freed c \<longleftrightarrow> held c = 0 \<and> \<not> in_connections c)"
proof -
  obtain c where c: "with_conn (destroy_object u) as (wm_connection_create_object\<lparr>tcp := False\<rparr>) = Some c" "counted 0 c" "established c"
    using open_with_conn [OF created(4,5) assms] by blast
  have n: "\<not> freed c" by (rule open_not_freed [OF c(2,3)])
  obtain c' where "destroy_object u c = Some c'" "passes 0 c c'" "\<not> established c'" using destroy_ok [OF c(2) n] by blast
  then show ?thesis using c(1) n by (auto simp: udp_message_def passes_def counted_def)
qed

end
