(* ===== verification/Wm_Hash.thy ===== *)
theory Wm_Hash
  imports Wm_Prelude
begin

text \<open>
  The integer-keyed tables of \<open>include/hash.h\<close>: the macros \<open>WM_HASH_ADD\<close>, \<open>WM_HASH_DEL\<close> and
  \<open>WM_HASH_GET\<close> over a table of 32-bit keys. The table is the list of its entries in iteration
  order; keys of C type \<open>long\<close> are cut to 32 bits by \<open>hash_key\<close>, as the macro's parameter type
  does. The macros return a bucket index or \<open>-1\<close>; the callers only look at the sign, so the model
  returns whether the operation succeeded. The table underneath, with its failing allocations, is
  modelled in \<open>Wm_Khash\<close> and shown to give the same answers in \<open>Wm_Khash_Run\<close>.
\<close>

type_synonym 'v table = "(u32 \<times> 'v) list"

definition hash_key :: "int \<Rightarrow> u32" where
  "hash_key k = word_of_int k"

definition WM_HASH_GET :: "'v table \<Rightarrow> u32 \<Rightarrow> 'v option" where
  "WM_HASH_GET t k = map_of t k"

definition WM_HASH_ADD :: "'v table \<Rightarrow> u32 \<Rightarrow> 'v \<Rightarrow> bool \<times> 'v table" where
  "WM_HASH_ADD t k v =
    (case map_of t k of
       None \<Rightarrow> (True, t @ [(k, v)])
     | Some _ \<Rightarrow> (False, t))"

definition WM_HASH_DEL :: "'v table \<Rightarrow> u32 \<Rightarrow> bool \<times> 'v table" where
  "WM_HASH_DEL t k =
    (case map_of t k of
       None \<Rightarrow> (False, t)
     | Some _ \<Rightarrow> (True, filter (\<lambda>e. fst e \<noteq> k) t))"

definition table_ok :: "'v table \<Rightarrow> bool" where
  "table_ok t \<longleftrightarrow> distinct (map fst t)"

section \<open>The interface\<close>

text \<open>
  What the users of a table rely on: the table denotes a finite map; adding a fresh key extends
  it, adding a present key is refused and leaves it, deleting removes the key.
\<close>

locale int_map =
  fixes get :: "'t \<Rightarrow> 'k \<Rightarrow> 'v option"
    and add :: "'t \<Rightarrow> 'k \<Rightarrow> 'v \<Rightarrow> bool \<times> 't"
    and del :: "'t \<Rightarrow> 'k \<Rightarrow> bool \<times> 't"
    and ok :: "'t \<Rightarrow> bool"
  assumes get_add: "ok t \<Longrightarrow> get (snd (add t k v)) = (if get t k = None then (get t)(k \<mapsto> v) else get t)"
    and add_result: "ok t \<Longrightarrow> fst (add t k v) \<longleftrightarrow> get t k = None"
    and get_del: "ok t \<Longrightarrow> get (snd (del t k)) = (get t)(k := None)"
    and del_result: "ok t \<Longrightarrow> fst (del t k) \<longleftrightarrow> get t k \<noteq> None"
    and add_ok: "ok t \<Longrightarrow> ok (snd (add t k v))"
    and del_ok: "ok t \<Longrightarrow> ok (snd (del t k))"
    and finite_get: "ok t \<Longrightarrow> finite (dom (get t))"
begin

lemma add_fresh: "ok t \<Longrightarrow> get t k = None \<Longrightarrow> fst (add t k v) \<and> get (snd (add t k v)) = (get t)(k \<mapsto> v)"
  using get_add add_result by simp

lemma add_present: "ok t \<Longrightarrow> get t k = Some w \<Longrightarrow> \<not> fst (add t k v) \<and> get (snd (add t k v)) = get t"
  using get_add add_result by simp

lemma del_add:
  assumes "ok t" "get t k = None"
  shows "get (snd (del (snd (add t k v)) k)) = get t"
  using get_del [OF add_ok [OF assms(1)], of k v k] add_fresh [OF assms, of v] assms(2)
  by (simp add: fun_upd_idem)

lemma card_add:
  assumes "ok t" "get t k = None"
  shows "card (dom (get (snd (add t k v)))) = Suc (card (dom (get t)))"
  using add_fresh [OF assms, of v] finite_get [OF assms(1)] assms(2) by (simp add: domIff)

lemma card_del:
  assumes "ok t" "get t k \<noteq> None"
  shows "Suc (card (dom (get (snd (del t k))))) = card (dom (get t))"
proof -
  have "k \<in> dom (get t)" using assms(2) by blast
  then show ?thesis
    using get_del [OF assms(1), of k] finite_get [OF assms(1)]
    using card_Suc_Diff1 [of "dom (get t)" k] by simp
qed

end

lemma map_of_filter_other: "map_of (filter (\<lambda>e. fst e \<noteq> k) t) = (map_of t)(k := None)"
  by (induction t) (auto simp: fun_eq_iff)

interpretation hm: int_map WM_HASH_GET WM_HASH_ADD WM_HASH_DEL table_ok
proof unfold_locales
  fix t :: "'v table" and k v
  show "table_ok t \<Longrightarrow> WM_HASH_GET (snd (WM_HASH_ADD t k v)) =
      (if WM_HASH_GET t k = None then (WM_HASH_GET t)(k \<mapsto> v) else WM_HASH_GET t)"
    by (auto simp: WM_HASH_GET_def WM_HASH_ADD_def fun_eq_iff map_add_def split: option.splits)
  show "table_ok t \<Longrightarrow> fst (WM_HASH_ADD t k v) \<longleftrightarrow> WM_HASH_GET t k = None"
    by (simp add: WM_HASH_GET_def WM_HASH_ADD_def split: option.split)
  show "table_ok t \<Longrightarrow> WM_HASH_GET (snd (WM_HASH_DEL t k)) = (WM_HASH_GET t)(k := None)"
    by (auto simp: WM_HASH_GET_def [abs_def] WM_HASH_DEL_def map_of_filter_other fun_eq_iff split: option.split)
  show "table_ok t \<Longrightarrow> fst (WM_HASH_DEL t k) \<longleftrightarrow> WM_HASH_GET t k \<noteq> None"
    by (simp add: WM_HASH_GET_def WM_HASH_DEL_def split: option.split)
  show "table_ok t \<Longrightarrow> table_ok (snd (WM_HASH_ADD t k v))"
    by (auto simp: table_ok_def WM_HASH_ADD_def map_of_eq_None_iff split: option.split)
  show "table_ok t \<Longrightarrow> table_ok (snd (WM_HASH_DEL t k))"
    by (auto simp: table_ok_def WM_HASH_DEL_def distinct_map_filter split: option.split)
  show "table_ok t \<Longrightarrow> finite (dom (WM_HASH_GET t))"
    by (simp add: WM_HASH_GET_def [abs_def] finite_dom_map_of)
qed

lemma table_ok_Nil [simp]: "table_ok []" "WM_HASH_GET [] k = None"
  by (simp_all add: table_ok_def WM_HASH_GET_def)

text \<open>Keys of C type \<open>long\<close> that fit in 32 bits are not confused.\<close>

lemma hash_key_inj:
  assumes "0 \<le> a" "a < 2 ^ 32" "0 \<le> b" "b < 2 ^ 32" "hash_key a = hash_key b"
  shows "a = b"
proof -
  have "take_bit 32 a = take_bit 32 b" using assms(5) by (simp add: hash_key_def word_of_int_eq_iff)
  then show ?thesis using assms(1-4) by (simp add: take_bit_int_eq_self)
qed

end
