(* ===== verification/Wm_Stack.thy ===== *)
theory Wm_Stack
  imports Wm_Prelude
begin

text \<open>
  The growing stack of \<open>include/stack.h\<close>: an array of data pointers, the number in use, and the
  allocated size, which starts at 10 and grows by 2. The null pointer is \<open>None\<close>. \<open>can n\<close> says
  whether the allocator serves a request of \<open>n\<close> bytes. An access outside the array is undefined
  behaviour, the outer \<open>None\<close> of a result.
\<close>

definition WM_STACK_INIT_LEN :: int where "WM_STACK_INIT_LEN = 10"
definition WM_STACK_CRE :: int where "WM_STACK_CRE = 2"

record 'a wmStack =
  st_node :: "'a option list option"
  st_num :: int
  st_size :: int

definition set_cell :: "'a option list \<Rightarrow> int \<Rightarrow> 'a option \<Rightarrow> 'a option list option" where
  "set_cell ns i x = (if 0 \<le> i \<and> i < int (length ns) then Some (ns[nat i := x]) else None)"

definition get_cell :: "'a option list \<Rightarrow> int \<Rightarrow> 'a option option" where
  "get_cell ns i = (if 0 \<le> i \<and> i < int (length ns) then Some (ns ! nat i) else None)"

definition wmStack_create :: "(nat \<Rightarrow> bool) \<Rightarrow> 'a wmStack option" where
  "wmStack_create can =
    (if \<not> can 16 then None
     else if \<not> can (nat WM_STACK_INIT_LEN * 8) then None
     else Some \<lparr>st_node = Some (replicate (nat WM_STACK_INIT_LEN) None), st_num = 0, st_size = WM_STACK_INIT_LEN\<rparr>)"

text \<open>
  \<open>wmStack_push\<close> stores the result of \<open>realloc\<close> before it tests it: when the allocation fails the
  array is lost.
\<close>

definition wmStack_push :: "(nat \<Rightarrow> bool) \<Rightarrow> 'a wmStack \<Rightarrow> 'a option \<Rightarrow> (int \<times> 'a wmStack) option" where
  "wmStack_push can s x =
    (case st_node s of
       None \<Rightarrow> Some (0, s)
     | Some ns \<Rightarrow>
         if st_num s = st_size s \<and> \<not> can (nat (st_size s + WM_STACK_CRE) * 8)
         then Some (0, s\<lparr>st_node := None\<rparr>)
         else
           let (ns, size) = (if st_num s = st_size s
                             then (ns @ replicate (nat WM_STACK_CRE) None, st_size s + WM_STACK_CRE)
                             else (ns, st_size s)) in
           map_option (\<lambda>ns. (1, s\<lparr>st_node := Some ns, st_size := size, st_num := st_num s + 1\<rparr>))
             (set_cell ns (st_num s) x))"

definition wmStack_pop :: "'a wmStack \<Rightarrow> ('a option \<times> 'a wmStack) option" where
  "wmStack_pop s =
    (case st_node s of
       None \<Rightarrow> Some (None, s)
     | Some ns \<Rightarrow>
         if st_num s = 0 then Some (None, s)
         else Option.bind (get_cell ns (st_num s - 1)) (\<lambda>x.
              map_option (\<lambda>ns. (x, s\<lparr>st_node := Some ns, st_num := st_num s - 1\<rparr>))
                (set_cell ns (st_num s - 1) None)))"

definition wmStack_len :: "'a wmStack \<Rightarrow> int" where
  "wmStack_len s = st_num s"

fun clear_cells :: "'a option list \<Rightarrow> nat \<Rightarrow> 'a option list option" where
  "clear_cells ns 0 = Some ns"
| "clear_cells ns (Suc i) = Option.bind (set_cell ns (int i) None) (\<lambda>ns. clear_cells ns i)"

definition wmStack_clear :: "'a wmStack \<Rightarrow> 'a wmStack option" where
  "wmStack_clear s =
    (case st_node s of
       None \<Rightarrow> Some s
     | Some ns \<Rightarrow> map_option (\<lambda>ns. s\<lparr>st_node := Some ns, st_num := 0\<rparr>) (clear_cells ns (nat (st_num s))))"

section \<open>Refinement to lists, top first\<close>

definition stack_rep :: "'a wmStack \<Rightarrow> 'a option list \<Rightarrow> bool" where
  "stack_rep s xs \<longleftrightarrow>
     (\<exists>k. st_node s = Some (rev xs @ replicate k None) \<and> st_num s = int (length xs) \<and>
          st_size s = int (length xs + k))"

lemma create_rep: "can 16 \<Longrightarrow> can 80 \<Longrightarrow> \<exists>s. wmStack_create can = Some s \<and> stack_rep s []"
  by (simp add: wmStack_create_def WM_STACK_INIT_LEN_def stack_rep_def)

lemma push_rep:
  assumes "stack_rep s xs" "can (nat (st_size s + 2) * 8)"
  shows "\<exists>s'. wmStack_push can s x = Some (1, s') \<and> stack_rep s' (x # xs)"
proof -
  obtain k where k: "st_node s = Some (rev xs @ replicate k None)" "st_num s = int (length xs)"
      "st_size s = int (length xs + k)" using assms(1) by (auto simp: stack_rep_def)
  show ?thesis
  proof (cases k)
    case 0
    then show ?thesis using k assms(2)
      by (simp add: wmStack_push_def WM_STACK_CRE_def set_cell_def stack_rep_def list_update_append numeral_2_eq_2)
  next
    case (Suc m)
    then show ?thesis using k
      by (simp add: wmStack_push_def set_cell_def stack_rep_def list_update_append)
  qed
qed

text \<open>A failed allocation makes the push report 0 and the stack lose its contents.\<close>

lemma push_fail:
  assumes "stack_rep s xs" "st_num s = st_size s" "\<not> can (nat (st_size s + 2) * 8)"
  shows "wmStack_push can s x = Some (0, s\<lparr>st_node := None\<rparr>)"
  using assms by (auto simp: stack_rep_def wmStack_push_def WM_STACK_CRE_def)

lemma pop_rep:
  assumes "stack_rep s xs"
  shows "\<exists>s'. wmStack_pop s = Some (case xs of [] \<Rightarrow> None | x # _ \<Rightarrow> x, s') \<and> stack_rep s' (tl xs)"
proof -
  obtain k where k: "st_node s = Some (rev xs @ replicate k None)" "st_num s = int (length xs)"
      "st_size s = int (length xs + k)" using assms(1) by (auto simp: stack_rep_def)
  show ?thesis
  proof (cases xs)
    case Nil
    then show ?thesis using k by (simp add: wmStack_pop_def stack_rep_def)
  next
    case (Cons x ys)
    then show ?thesis using k
      by (auto simp: wmStack_pop_def get_cell_def set_cell_def stack_rep_def list_update_append nth_append
          intro!: exI [of _ "Suc k"])
  qed
qed

lemma clear_cells_ok:
  "n \<le> length ns \<Longrightarrow> clear_cells ns n = Some (replicate n None @ drop n ns)"
proof (induction n arbitrary: ns)
  case (Suc n)
  then have "clear_cells (ns[n := None]) n = Some (replicate n None @ drop n (ns[n := None]))" by simp
  moreover have "drop n (ns[n := None]) = None # drop (Suc n) ns"
    using Suc.prems by (simp add: upd_conv_take_nth_drop)
  ultimately show ?case using Suc.prems by (simp add: set_cell_def replicate_app_Cons_same)
qed simp

lemma clear_rep:
  assumes "stack_rep s xs"
  shows "\<exists>s'. wmStack_clear s = Some s' \<and> stack_rep s' []"
  using assms by (auto simp: stack_rep_def wmStack_clear_def clear_cells_ok replicate_add [symmetric])

section \<open>The interface\<close>

locale lifo =
  fixes push :: "'s \<Rightarrow> 'a \<Rightarrow> (int \<times> 's) option"
    and pop :: "'s \<Rightarrow> ('a option \<times> 's) option"
    and len :: "'s \<Rightarrow> int"
    and rep :: "'s \<Rightarrow> 'a list \<Rightarrow> bool"
  assumes push_law: "rep s xs \<Longrightarrow> \<exists>s'. push s x = Some (1, s') \<and> rep s' (x # xs)"
    and pop_law: "rep s (x # xs) \<Longrightarrow> \<exists>s'. pop s = Some (Some x, s') \<and> rep s' xs"
    and len_law: "rep s xs \<Longrightarrow> len s = int (length xs)"
begin

lemma push_pop:
  assumes "rep s xs"
  shows "\<exists>s1 s2. push s x = Some (1, s1) \<and> pop s1 = Some (Some x, s2) \<and> rep s2 xs"
proof -
  obtain s1 where s1: "push s x = Some (1, s1)" "rep s1 (x # xs)" using push_law [OF assms] by blast
  then show ?thesis using pop_law [OF s1(2)] by blast
qed

lemma push_all:
  assumes "rep s xs"
  shows "\<exists>s'. fold (\<lambda>x s. Option.bind s (\<lambda>s. map_option snd (push s x))) ys (Some s) = Some s' \<and> rep s' (rev ys @ xs)"
  using assms
proof (induction ys arbitrary: s xs)
  case (Cons y ys)
  obtain s1 where s1: "push s y = Some (1, s1)" "rep s1 (y # xs)" using push_law [OF Cons.prems] by blast
  then show ?case using Cons.IH [OF s1(2)] by simp
qed simp

end

text \<open>The stacks of non-null pointers, with an allocator that always serves.\<close>

definition stack_of :: "'a wmStack \<Rightarrow> 'a list \<Rightarrow> bool" where
  "stack_of s xs \<longleftrightarrow> stack_rep s (map Some xs)"

interpretation ls: lifo "\<lambda>s x. wmStack_push (\<lambda>_. True) s (Some x)" wmStack_pop wmStack_len stack_of
proof unfold_locales
  fix s :: "'a wmStack" and xs x
  assume "stack_of s xs"
  then show "\<exists>s'. wmStack_push (\<lambda>_. True) s (Some x) = Some (1, s') \<and> stack_of s' (x # xs)"
    using push_rep [of s "map Some xs" "\<lambda>_. True" "Some x"] by (simp add: stack_of_def)
next
  fix s :: "'a wmStack" and xs x
  assume "stack_of s (x # xs)"
  then show "\<exists>s'. wmStack_pop s = Some (Some x, s') \<and> stack_of s' xs"
    using pop_rep [of s "map Some (x # xs)"] by (simp add: stack_of_def)
qed (auto simp: stack_of_def stack_rep_def wmStack_len_def)

fun stack_drain :: "'a wmStack \<Rightarrow> nat \<Rightarrow> ('a option list \<times> 'a wmStack) option" where
  "stack_drain s 0 = Some ([], s)"
| "stack_drain s (Suc k) = Option.bind (wmStack_pop s) (\<lambda>(x, s). map_option (\<lambda>(xs, s). (x # xs, s)) (stack_drain s k))"

lemma stack_drain_ok: "stack_rep s xs \<Longrightarrow> \<exists>s'. stack_drain s (length xs) = Some (xs, s') \<and> stack_rep s' []"
proof (induction xs arbitrary: s)
  case (Cons x xs)
  obtain s1 where s1: "wmStack_pop s = Some (x, s1)" "stack_rep s1 xs" using pop_rep [OF Cons.prems] by auto
  then show ?case using Cons.IH [OF s1(2)] by auto
qed simp

text \<open>
  the stack is last in, first out across any number of growths: pushing \<open>ys\<close> and popping
  \<open>length ys\<close> times returns \<open>ys\<close> backwards; a further pop returns the null pointer and changes nothing.
\<close>

theorem stack_lifo:
  assumes "wmStack_create (\<lambda>_. True) = Some s"
  shows "\<exists>s1 s2. fold (\<lambda>y s. Option.bind s (\<lambda>s. map_option snd (wmStack_push (\<lambda>_. True) s (Some y)))) ys (Some s) = Some s1 \<and>
    wmStack_len s1 = int (length ys) \<and> stack_drain s1 (length ys) = Some (map Some (rev ys), s2) \<and>
    wmStack_pop s2 = Some (None, s2)"
proof -
  have "stack_of s []"
    using assms by (auto simp: stack_of_def stack_rep_def wmStack_create_def WM_STACK_INIT_LEN_def)
  then obtain s1 where s1: "fold (\<lambda>y s. Option.bind s (\<lambda>s. map_option snd (wmStack_push (\<lambda>_. True) s (Some y)))) ys (Some s) = Some s1"
      "stack_of s1 (rev ys @ [])"
    using ls.push_all by blast
  then have "stack_rep s1 (map Some (rev ys))" by (simp add: stack_of_def)
  then obtain s2 where s2: "stack_drain s1 (length ys) = Some (map Some (rev ys), s2)" "stack_rep s2 []"
    using stack_drain_ok [of s1 "map Some (rev ys)"] by auto
  have "wmStack_pop s2 = Some (None, s2)" using s2(2) by (auto simp: stack_rep_def wmStack_pop_def)
  then show ?thesis using s1 s2(1) ls.len_law [OF s1(2)] by simp
qed

theorem stack_lifo_witness:
  "\<exists>s s1 s2. wmStack_create (\<lambda>_. True) = Some s \<and>
     fold (\<lambda>y s. Option.bind s (\<lambda>s. map_option snd (wmStack_push (\<lambda>_. True) s (Some y)))) [1 .. 12 :: int] (Some s) = Some s1 \<and>
     stack_drain s1 12 = Some (map Some (rev [1 .. 12]), s2)"
proof -
  obtain s :: "int wmStack" where s: "wmStack_create (\<lambda>_. True) = Some s" using create_rep [of "\<lambda>_. True"] by auto
  from stack_lifo [OF s, of "[1 .. 12]"] show ?thesis using s by auto
qed

end
