(* ===== verification/Wm_Coroutine.thy ===== *)
theory Wm_Coroutine
  imports Wm_Hash Wm_Stack
begin

text \<open>
  The coroutine scheduler of \<open>src/coroutine/coroutine.c\<close> (and the end flag of \<open>context.c\<close>): creating,
  yielding, resuming and ending coroutines, the tables of all and of yielded coroutines, and the
  registers of the PHP virtual machine that are saved and restored at each switch. The code a
  coroutine runs between two calls of the scheduler is arbitrary; a scheduler function that
  switches is one transition, up to the point where the other coroutine runs. \<open>None\<close> is undefined
  behaviour: a null or freed pointer that is followed, or a failed \<open>assert\<close>; or \<open>wmError\<close>, which ends the process.
\<close>

section \<open>State\<close>

datatype task_ref = Main | Task nat

text \<open>The registers of the Zend engine; \<open>vm_stack\<close> stands for a page and the pages linked behind it.\<close>

record vm_regs =
  vm_stack_top :: nat
  vm_stack_end :: nat
  vm_stack :: nat
  vm_stack_page_size :: nat
  execute_data :: "nat option"

record wmCoroutine =
  vm :: vm_regs
  end_flag :: bool
  co_cid :: u64
  origin :: "task_ref option"
  defer_tasks :: "nat wmStack option"
  c_defer :: "(nat \<times> nat) option"

record sched =
  last_cid :: u64
  total_num :: int
  coroutines :: "task_ref table"
  user_yield_coros :: "task_ref table"
  main_task :: wmCoroutine
  current_task :: "task_ref option"
  tasks :: "nat \<rightharpoonup> wmCoroutine"
  next_task :: nat
  EG :: vm_regs
  vpages :: "nat set"
  next_page :: nat
  c_calls :: "(nat \<times> nat) list"

definition cid_key :: "u64 \<Rightarrow> u32" where
  "cid_key c = ucast c"

text \<open>Following a task pointer, for reading and for writing.\<close>

definition task_at :: "'z sched_scheme \<Rightarrow> task_ref \<Rightarrow> wmCoroutine option" where
  "task_at s r = (case r of Main \<Rightarrow> Some (main_task s) | Task t \<Rightarrow> tasks s t)"

definition set_task :: "'z sched_scheme \<Rightarrow> task_ref \<Rightarrow> wmCoroutine \<Rightarrow> 'z sched_scheme" where
  "set_task s r c = (case r of Main \<Rightarrow> s\<lparr>main_task := c\<rparr> | Task t \<Rightarrow> s\<lparr>tasks := (tasks s)(t \<mapsto> c)\<rparr>)"

section \<open>Operations\<close>

definition wmCoroutine_init :: "'z sched_scheme \<Rightarrow> 'z sched_scheme" where
  "wmCoroutine_init s = s\<lparr>coroutines := [], user_yield_coros := []\<rparr>"

definition get_task :: "'z sched_scheme \<Rightarrow> task_ref \<times> 'z sched_scheme" where
  "get_task s =
    (case current_task s of
       None \<Rightarrow> (Main, s\<lparr>current_task := Some Main\<rparr>)
     | Some r \<Rightarrow> (r, s))"

definition save_vm_stack :: "'z sched_scheme \<Rightarrow> task_ref \<Rightarrow> 'z sched_scheme option" where
  "save_vm_stack s r = map_option (\<lambda>c. set_task s r (c\<lparr>vm := EG s\<rparr>)) (task_at s r)"

definition restore_vm_stack :: "'z sched_scheme \<Rightarrow> task_ref \<Rightarrow> 'z sched_scheme option" where
  "restore_vm_stack s r = map_option (\<lambda>c. s\<lparr>EG := vm c\<rparr>) (task_at s r)"

definition DEFAULT_PHP_STACK_PAGE_SIZE :: nat where "DEFAULT_PHP_STACK_PAGE_SIZE = 8192"

definition vm_stack_init :: "'z sched_scheme \<Rightarrow> 'z sched_scheme" where
  "vm_stack_init s =
    (let page = next_page s in
     s\<lparr>next_page := page + 1, vpages := insert page (vpages s),
       EG := (EG s)\<lparr>vm_stack := page, vm_stack_top := 1, vm_stack_end := DEFAULT_PHP_STACK_PAGE_SIZE,
                    vm_stack_page_size := DEFAULT_PHP_STACK_PAGE_SIZE\<rparr>\<rparr>)"

text \<open>Freeing the current stack: the pages linked from \<open>EG(vm_stack)\<close>; freeing them twice is undefined.\<close>

definition vm_stack_destroy :: "'z sched_scheme \<Rightarrow> 'z sched_scheme option" where
  "vm_stack_destroy s =
    (if vm_stack (EG s) \<in> vpages s then Some (s\<lparr>vpages := vpages s - {vm_stack (EG s)}\<rparr>) else None)"

text \<open>
  The start of \<open>main_func\<close>, on the new stack: \<open>push_frame\<close> is the engine's
  \<open>zend_vm_stack_push_call_frame\<close>, which moves the stack top and returns the frame.
\<close>

definition main_func_enter :: "(vm_regs \<Rightarrow> nat \<times> nat) \<Rightarrow> 'z sched_scheme \<Rightarrow> 'z sched_scheme option" where
  "main_func_enter push_frame s =
    (let s = vm_stack_init s;
         (top, call) = push_frame (EG s);
         s = s\<lparr>EG := (EG s)\<lparr>vm_stack_top := top, execute_data := Some call\<rparr>\<rparr> in
     case current_task s of
       None \<Rightarrow> None
     | Some r \<Rightarrow>
         Option.bind (save_vm_stack s r) (\<lambda>s.
         map_option (\<lambda>c. (set_task s r (c\<lparr>defer_tasks := None\<rparr>))\<lparr>EG := (EG s)\<lparr>execute_data := None\<rparr>\<rparr>)
           (task_at s r)))"

text \<open>\<open>run\<close>, up to the switch into the task.\<close>

definition run :: "(vm_regs \<Rightarrow> nat \<times> nat) \<Rightarrow> 'z sched_scheme \<Rightarrow> nat \<Rightarrow> 'z sched_scheme option" where
  "run push_frame s t =
    (case tasks s t of
       None \<Rightarrow> None
     | Some c \<Rightarrow>
         main_func_enter push_frame
           (s\<lparr>tasks := (tasks s)(t \<mapsto> c\<lparr>origin := current_task s\<rparr>), current_task := Some (Task t)\<rparr>))"

definition new_cid :: "u64 \<Rightarrow> u64" where
  "new_cid l = (let c = l + 1 in if sint c < 0 then 100 + 1 else c)"

definition blank_task :: "u64 \<Rightarrow> wmCoroutine" where
  "blank_task c = \<lparr>vm = \<lparr>vm_stack_top = 0, vm_stack_end = 0, vm_stack = 0, vm_stack_page_size = 0, execute_data = None\<rparr>,
     end_flag = False, co_cid = c, origin = None, defer_tasks = None, c_defer = None\<rparr>"

text \<open>
  \<open>wmCoroutine_create\<close>: the result is the id, or \<open>-1\<close> when no coroutine was created. A function of another type
  than that of a user or an internal function is \<open>wmError\<close>.
\<close>

definition wmCoroutine_create ::
    "(vm_regs \<Rightarrow> nat \<times> nat) \<Rightarrow> bool \<Rightarrow> 'z sched_scheme \<Rightarrow> (u64 \<times> 'z sched_scheme) option" where
  "wmCoroutine_create push_frame callable s =
    (if \<not> callable then None
     else
       let t = next_task s;
           c = new_cid (last_cid s);
           s = s\<lparr>next_task := t + 1, last_cid := c\<rparr>;
           (added, tab) = WM_HASH_ADD (coroutines s) (cid_key c) (Task t) in
       if \<not> added then Some (- 1, s)
       else
         let s = s\<lparr>tasks := (tasks s)(t \<mapsto> blank_task c), coroutines := tab, total_num := total_num s + 1\<rparr>;
             (r, s) = get_task s in
         Option.bind (save_vm_stack s r) (\<lambda>s. map_option (\<lambda>s. (c, s)) (run push_frame s t)))"

definition wmCoroutine_yield :: "'z sched_scheme \<Rightarrow> 'z sched_scheme option" where
  "wmCoroutine_yield s =
    (case current_task s of
       None \<Rightarrow> None
     | Some r \<Rightarrow>
         Option.bind (task_at s r) (\<lambda>c.
         case WM_HASH_ADD (user_yield_coros s) (cid_key (co_cid c)) r of (added, tab) \<Rightarrow>
         if \<not> added then Some s
         else
           let s = s\<lparr>user_yield_coros := tab\<rparr> in
           Option.bind (save_vm_stack s r) (\<lambda>s.
           case origin c of
             None \<Rightarrow> None
           | Some q \<Rightarrow> map_option (\<lambda>s. s\<lparr>current_task := Some q\<rparr>) (restore_vm_stack s q))))"

definition wmCoroutine_resume :: "'z sched_scheme \<Rightarrow> task_ref \<Rightarrow> (bool \<times> 'z sched_scheme) option" where
  "wmCoroutine_resume s task =
    (if current_task s = Some task then None
     else
       Option.bind (task_at s task) (\<lambda>c.
       case WM_HASH_GET (user_yield_coros s) (cid_key (co_cid c)) of
         None \<Rightarrow> Some (False, s)
       | Some _ \<Rightarrow>
           let s = s\<lparr>user_yield_coros := snd (WM_HASH_DEL (user_yield_coros s) (cid_key (co_cid c)))\<rparr>;
               (r, s) = get_task s in
           Option.bind (save_vm_stack s r) (\<lambda>s.
           Option.bind (restore_vm_stack s task) (\<lambda>s.
           map_option (\<lambda>c. (True, (set_task s task (c\<lparr>origin := current_task s\<rparr>))\<lparr>current_task := Some task\<rparr>))
             (task_at s task)))))"

definition get_origin_task :: "wmCoroutine \<Rightarrow> task_ref" where
  "get_origin_task c = (case origin c of None \<Rightarrow> Main | Some r \<Rightarrow> r)"

definition close_coro :: "'z sched_scheme \<Rightarrow> nat \<Rightarrow> 'z sched_scheme option" where
  "close_coro s t =
    (case tasks s t of
       None \<Rightarrow> None
     | Some c \<Rightarrow>
         let s = s\<lparr>coroutines := snd (WM_HASH_DEL (coroutines s) (cid_key (co_cid c))), total_num := total_num s - 1\<rparr>;
             s = s\<lparr>user_yield_coros := snd (WM_HASH_DEL (user_yield_coros s) (cid_key (co_cid c)))\<rparr> in
         Option.bind (vm_stack_destroy s) (\<lambda>s.
         map_option (\<lambda>s. s\<lparr>tasks := (tasks s)(t := None)\<rparr>) (restore_vm_stack s (get_origin_task c))))"

text \<open>
  The end of a coroutine. \<open>main_func_defer\<close> is one turn of the loop over the deferred functions: the one that
  runs next, which may do anything, register further functions too; or the loop is over. \<open>callable\<close> says
  whether \<open>zend_call_function\<close> succeeds: when it fails, \<open>main_func\<close> returns at once, without the functions
  that are left and without the C-level callback; \<open>main_func_fail\<close> is the end of the coroutine then.
  \<open>main_func_exit\<close> is what follows the loop: the callback, the end flag, the switch back, and the epilogue of
  \<open>run\<close> or \<open>wmCoroutine_resume\<close>.
\<close>

datatype defer_step = Run_deferred nat | Loop_over | Call_failed nat

definition main_func_fail :: "'z sched_scheme \<Rightarrow> 'z sched_scheme option" where
  "main_func_fail s =
    (case current_task s of
       Some (Task t) \<Rightarrow>
         Option.bind (tasks s t) (\<lambda>c.
         close_coro (s\<lparr>tasks := (tasks s)(t \<mapsto> c\<lparr>end_flag := True\<rparr>), current_task := origin c\<rparr>) t)
     | _ \<Rightarrow> None)"

definition main_func_defer :: "(nat \<Rightarrow> bool) \<Rightarrow> 'z sched_scheme \<Rightarrow> (defer_step \<times> 'z sched_scheme) option" where
  "main_func_defer callable s =
    (case current_task s of
       Some (Task t) \<Rightarrow>
         Option.bind (tasks s t) (\<lambda>c.
         case defer_tasks c of
           None \<Rightarrow> Some (Loop_over, s)
         | Some d \<Rightarrow>
             if 0 < wmStack_len d
             then
               Option.bind (wmStack_pop d) (\<lambda>(x, d).
               let s = s\<lparr>tasks := (tasks s)(t \<mapsto> c\<lparr>defer_tasks := Some d\<rparr>)\<rparr> in
               case x of
                 None \<Rightarrow> None
               | Some x \<Rightarrow> if callable x then Some (Run_deferred x, s) else map_option (Pair (Call_failed x)) (main_func_fail s))
             else Some (Loop_over, s\<lparr>tasks := (tasks s)(t \<mapsto> c\<lparr>defer_tasks := None\<rparr>)\<rparr>))
     | _ \<Rightarrow> None)"

definition main_func_exit :: "'z sched_scheme \<Rightarrow> 'z sched_scheme option" where
  "main_func_exit s =
    (case current_task s of
       Some (Task t) \<Rightarrow>
         Option.bind (tasks s t) (\<lambda>c.
         let s = s\<lparr>c_calls := c_calls s @ (case c_defer c of None \<Rightarrow> [] | Some fd \<Rightarrow> [fd]),
                   tasks := (tasks s)(t \<mapsto> c\<lparr>end_flag := True\<rparr>)\<rparr> in
         close_coro (s\<lparr>current_task := origin c\<rparr>) t)
     | _ \<Rightarrow> None)"

definition wmCoroutine_get_by_cid :: "'z sched_scheme \<Rightarrow> u64 \<Rightarrow> task_ref option" where
  "wmCoroutine_get_by_cid s c = WM_HASH_GET (coroutines s) (cid_key c)"

definition wmCoroutine_get_current :: "'z sched_scheme \<Rightarrow> task_ref option" where
  "wmCoroutine_get_current s = current_task s"

definition wmCoroutine_getTotalNum :: "'z sched_scheme \<Rightarrow> int" where
  "wmCoroutine_getTotalNum s = total_num s"

definition wmCoroutine_set_callback :: "'z sched_scheme \<Rightarrow> u64 \<Rightarrow> nat \<Rightarrow> nat \<Rightarrow> 'z sched_scheme option" where
  "wmCoroutine_set_callback s cid f d =
    (case wmCoroutine_get_by_cid s cid of
       None \<Rightarrow> Some (s\<lparr>c_calls := c_calls s @ [(f, d)]\<rparr>)
     | Some r \<Rightarrow> map_option (\<lambda>c. set_task s r (c\<lparr>c_defer := Some (f, d)\<rparr>)) (task_at s r))"

definition wmCoroutine_defer :: "'z sched_scheme \<Rightarrow> nat \<Rightarrow> 'z sched_scheme option" where
  "wmCoroutine_defer s x =
    (case current_task s of
       None \<Rightarrow> None
     | Some r \<Rightarrow>
         Option.bind (task_at s r) (\<lambda>c.
         Option.bind (case defer_tasks c of None \<Rightarrow> wmStack_create (\<lambda>_. True) | Some d \<Rightarrow> Some d) (\<lambda>d.
         map_option (\<lambda>(_, d). set_task s r (c\<lparr>defer_tasks := Some d\<rparr>)) (wmStack_push (\<lambda>_. True) d (Some x)))))"

text \<open>The PHP methods over them.\<close>

definition php_resume :: "'z sched_scheme \<Rightarrow> u64 \<Rightarrow> (bool \<times> 'z sched_scheme) option" where
  "php_resume s cid =
    (case wmCoroutine_get_by_cid s cid of
       None \<Rightarrow> Some (False, s)
     | Some r \<Rightarrow> wmCoroutine_resume s r)"

definition php_getCid :: "'z sched_scheme \<Rightarrow> u64 option" where
  "php_getCid s =
    (case wmCoroutine_get_current s of
       None \<Rightarrow> Some (- 1)
     | Some r \<Rightarrow> map_option co_cid (task_at s r))"

definition php_isExist :: "'z sched_scheme \<Rightarrow> u64 \<Rightarrow> bool" where
  "php_isExist s cid \<longleftrightarrow> wmCoroutine_get_by_cid s cid \<noteq> None"

section \<open>The invariant\<close>

text \<open>
  \<open>chain s r ch\<close>: from \<open>r\<close>, following the origins, the tasks \<open>ch\<close> and then the main task. A
  coroutine that is allocated is either on the chain from the current task (it runs, or waits for
  the one it has created or resumed) or in the table of yielded coroutines.
\<close>

fun chain :: "'z sched_scheme \<Rightarrow> task_ref option \<Rightarrow> nat list \<Rightarrow> bool" where
  "chain s r [] \<longleftrightarrow> r = Some Main"
| "chain s r (t # ts) \<longleftrightarrow> r = Some (Task t) \<and> (\<exists>c. tasks s t = Some c \<and> chain s (origin c) ts)"

definition active :: "'z sched_scheme \<Rightarrow> nat list \<Rightarrow> bool" where
  "active s ch \<longleftrightarrow> distinct ch \<and> (chain s (current_task s) ch \<or> (current_task s = None \<and> ch = [] \<and> dom (tasks s) = {}))"

text \<open>The keys of the live coroutines, and the two tables over them.\<close>

definition key :: "'z sched_scheme \<Rightarrow> nat \<Rightarrow> u32 option" where
  "key s t = map_option (\<lambda>c. cid_key (co_cid c)) (tasks s t)"

definition tabs :: "task_ref table \<Rightarrow> task_ref table \<Rightarrow> (nat \<Rightarrow> u32 option) \<Rightarrow> nat set \<Rightarrow> bool" where
  "tabs C Y K A \<longleftrightarrow>
     table_ok C \<and> table_ok Y \<and>
     (\<forall>k. WM_HASH_GET C k \<noteq> Some Main \<and> WM_HASH_GET Y k \<noteq> Some Main) \<and>
     (\<forall>k t. WM_HASH_GET C k = Some (Task t) \<longleftrightarrow> K t = Some k) \<and>
     (\<forall>k t. WM_HASH_GET Y k = Some (Task t) \<longleftrightarrow> K t = Some k \<and> t \<notin> A)"

definition tables_ok :: "'z sched_scheme \<Rightarrow> nat list \<Rightarrow> bool" where
  "tables_ok s ch \<longleftrightarrow> tabs (coroutines s) (user_yield_coros s) (key s) (set ch)"

definition page_of :: "'z sched_scheme \<Rightarrow> task_ref \<Rightarrow> nat" where
  "page_of s r =
     (if current_task s = Some r \<or> current_task s = None \<and> r = Main then vm_stack (EG s)
      else case task_at s r of Some c \<Rightarrow> vm_stack (vm c) | None \<Rightarrow> 0)"

definition live :: "'z sched_scheme \<Rightarrow> task_ref set" where
  "live s = insert Main (Task ` dom (tasks s))"

definition pages_ok :: "'z sched_scheme \<Rightarrow> bool" where
  "pages_ok s \<longleftrightarrow> inj_on (page_of s) (live s) \<and> vpages s = page_of s ` live s \<and> (\<forall>p \<in> vpages s. p < next_page s)"

definition sched_inv :: "'z sched_scheme \<Rightarrow> nat list \<Rightarrow> bool" where
  "sched_inv s ch \<longleftrightarrow>
     active s ch \<and> tables_ok s ch \<and> pages_ok s \<and> finite (dom (tasks s)) \<and> total_num s = int (card (dom (tasks s))) \<and>
     (\<forall>t. tasks s t \<noteq> None \<longrightarrow> t < next_task s) \<and> origin (main_task s) = None"

lemma sched_invD:
  assumes "sched_inv s ch"
  shows "active s ch" "tables_ok s ch" "pages_ok s" "finite (dom (tasks s))" "total_num s = int (card (dom (tasks s)))"
    "tasks s t \<noteq> None \<Longrightarrow> t < next_task s" "origin (main_task s) = None"
  using assms unfolding sched_inv_def by blast+

lemma chain_live: "chain s r ch \<Longrightarrow> t \<in> set ch \<Longrightarrow> \<exists>c. tasks s t = Some c"
  by (induction ch arbitrary: r) auto

lemma chain_cong:
  assumes "chain s r ch" "\<And>t c. t \<in> set ch \<Longrightarrow> tasks s t = Some c \<Longrightarrow> \<exists>c'. tasks s' t = Some c' \<and> origin c' = origin c"
  shows "chain s' r ch"
  using assms by (induction ch arbitrary: r) fastforce+

lemma active_cases:
  assumes "sched_inv s ch"
  obtains (start) "current_task s = None" "ch = []" "dom (tasks s) = {}"
    | (main) "current_task s = Some Main" "ch = []"
    | (task) t ts c where "current_task s = Some (Task t)" "ch = t # ts" "tasks s t = Some c" "chain s (origin c) ts"
        "t \<notin> set ts" "distinct ts"
  using sched_invD(1) [OF assms] unfolding active_def by (cases ch) auto

lemma key_Some: "key s t = Some k \<longleftrightarrow> (\<exists>c. tasks s t = Some c \<and> k = cid_key (co_cid c))"
  by (auto simp: key_def)

lemma tabsD:
  assumes "tabs C Y K A"
  shows "table_ok C" "table_ok Y"
    "WM_HASH_GET C k \<noteq> Some Main" "WM_HASH_GET Y k \<noteq> Some Main"
    "WM_HASH_GET C k = Some (Task t) \<longleftrightarrow> K t = Some k"
    "WM_HASH_GET Y k = Some (Task t) \<longleftrightarrow> K t = Some k \<and> t \<notin> A"
  using assms unfolding tabs_def by blast+

text \<open>Two live coroutines never share a key.\<close>

lemma tabs_key: "tabs C Y K A \<Longrightarrow> K t = Some k \<Longrightarrow> K u = Some k \<Longrightarrow> t = u"
  using tabsD(5) [of C Y K A k t] tabsD(5) [of C Y K A k u] by auto

lemma tabs_get: "tabs C Y K A \<Longrightarrow> K t = Some k \<Longrightarrow> WM_HASH_GET C k = Some (Task t)"
  using tabsD(5) by blast

lemma tabs_yielded:
  assumes "tabs C Y K A" "K t = Some k"
  shows "WM_HASH_GET Y k = (if t \<in> A then None else Some (Task t))"
proof (cases "WM_HASH_GET Y k")
  case None
  then show ?thesis using tabsD(6) [OF assms(1), of k t] assms(2) by auto
next
  case (Some r)
  then obtain u where "r = Task u" using tabsD(4) [OF assms(1), of k] by (cases r) auto
  then have "K u = Some k" "u \<notin> A" using tabsD(6) [OF assms(1), of k u] Some by auto
  moreover have "u = t" using tabs_key [OF assms(1) \<open>K u = Some k\<close> assms(2)] .
  ultimately show ?thesis using Some \<open>r = Task u\<close> by simp
qed

text \<open>The four ways the tables change: a coroutine is created, ends, yields, is resumed.\<close>

lemma tabs_create:
  assumes "tabs C Y K A" "K t = None" "WM_HASH_GET C k = None"
  shows "tabs (snd (WM_HASH_ADD C k (Task t))) Y (K(t \<mapsto> k)) (insert t A)"
proof -
  note D = tabsD [OF assms(1)]
  have n: "K u \<noteq> Some k" for u using D(5) [of k u] assms(3) by simp
  have g: "WM_HASH_GET (snd (WM_HASH_ADD C k (Task t))) = (WM_HASH_GET C)(k \<mapsto> Task t)"
    using hm.add_fresh [OF D(1) assms(3)] by blast
  show ?thesis unfolding tabs_def g
  proof (intro conjI allI)
    fix k' u
    show "(((WM_HASH_GET C)(k \<mapsto> Task t)) k' = Some (Task u)) = ((K(t \<mapsto> k)) u = Some k')"
      using D(5) [of k' u] assms(2) n [of u] by auto
    show "(WM_HASH_GET Y k' = Some (Task u)) = ((K(t \<mapsto> k)) u = Some k' \<and> u \<notin> insert t A)"
      using D(6) [of k' u] assms(2) by auto
  qed (use D(1-4) hm.add_ok [OF D(1)] in auto)
qed

lemma tabs_end:
  assumes "tabs C Y K A" "K t = Some k" "t \<in> A"
  shows "tabs (snd (WM_HASH_DEL C k)) (snd (WM_HASH_DEL Y k)) (K(t := None)) (A - {t})"
proof -
  note D = tabsD [OF assms(1)]
  have n: "K u = Some k \<longleftrightarrow> u = t" for u using tabs_key [OF assms(1,2)] assms(2) by blast
  have g: "WM_HASH_GET (snd (WM_HASH_DEL C k)) = (WM_HASH_GET C)(k := None)"
      "WM_HASH_GET (snd (WM_HASH_DEL Y k)) = (WM_HASH_GET Y)(k := None)"
    using hm.get_del D(1,2) by blast+
  show ?thesis unfolding tabs_def g
  proof (intro conjI allI)
    fix k' u
    show "(((WM_HASH_GET C)(k := None)) k' = Some (Task u)) = ((K(t := None)) u = Some k')"
      using D(5) [of k' u] n [of u] assms(2) by auto
    show "(((WM_HASH_GET Y)(k := None)) k' = Some (Task u)) = ((K(t := None)) u = Some k' \<and> u \<notin> A - {t})"
      using D(6) [of k' u] n [of u] assms(2) by auto
  qed (use D(1-4) hm.del_ok [OF D(1)] hm.del_ok [OF D(2)] in auto)
qed

lemma tabs_yield:
  assumes "tabs C Y K A" "K t = Some k" "t \<in> A"
  shows "tabs C (snd (WM_HASH_ADD Y k (Task t))) K (A - {t})"
proof -
  note D = tabsD [OF assms(1)]
  have n: "K u = Some k \<longleftrightarrow> u = t" for u using tabs_key [OF assms(1,2)] assms(2) by blast
  have g: "WM_HASH_GET (snd (WM_HASH_ADD Y k (Task t))) = (WM_HASH_GET Y)(k \<mapsto> Task t)"
    using hm.add_fresh [OF D(2)] tabs_yielded [OF assms(1,2)] assms(3) by simp
  show ?thesis unfolding tabs_def g
  proof (intro conjI allI)
    fix k' u
    show "(((WM_HASH_GET Y)(k \<mapsto> Task t)) k' = Some (Task u)) = (K u = Some k' \<and> u \<notin> A - {t})"
      using D(6) [of k' u] n [of u] assms(2) by auto
  qed (use D(1-5) hm.add_ok [OF D(2)] in auto)
qed

lemma tabs_resume:
  assumes "tabs C Y K A" "K t = Some k"
  shows "tabs C (snd (WM_HASH_DEL Y k)) K (insert t A)"
proof -
  note D = tabsD [OF assms(1)]
  have n: "K u = Some k \<longleftrightarrow> u = t" for u using tabs_key [OF assms(1,2)] assms(2) by blast
  have g: "WM_HASH_GET (snd (WM_HASH_DEL Y k)) = (WM_HASH_GET Y)(k := None)"
    using hm.get_del [OF D(2)] by blast
  show ?thesis unfolding tabs_def g
  proof (intro conjI allI)
    fix k' u
    show "(((WM_HASH_GET Y)(k := None)) k' = Some (Task u)) = (K u = Some k' \<and> u \<notin> insert t A)"
      using D(6) [of k' u] n [of u] assms(2) by auto
  qed (use D(1-5) hm.del_ok [OF D(2)] in auto)
qed

lemma set_task_simps [sched_simps]:
  "current_task (set_task s r c) = current_task s" "EG (set_task s r c) = EG s"
  "coroutines (set_task s r c) = coroutines s" "user_yield_coros (set_task s r c) = user_yield_coros s"
  "total_num (set_task s r c) = total_num s" "next_task (set_task s r c) = next_task s"
  "vpages (set_task s r c) = vpages s" "next_page (set_task s r c) = next_page s" "last_cid (set_task s r c) = last_cid s"
  "c_calls (set_task s r c) = c_calls s"
  "tasks (set_task s r c) = (case r of Main \<Rightarrow> tasks s | Task t \<Rightarrow> (tasks s)(t \<mapsto> c))"
  "main_task (set_task s r c) = (case r of Main \<Rightarrow> c | Task t \<Rightarrow> main_task s)"
  by (simp_all add: set_task_def split: task_ref.split)

lemma task_at_set [sched_simps]: "task_at (set_task s r c) q = (if q = r then Some c else task_at s q)"
  by (auto simp: task_at_def set_task_def split: task_ref.split)

lemma live_task_at: "r \<in> live s \<longleftrightarrow> task_at s r \<noteq> None"
  by (auto simp: live_def task_at_def split: task_ref.split)

lemma pages_ok_cong:
  assumes "pages_ok s" "live s' = live s" "\<And>r. r \<in> live s \<Longrightarrow> page_of s' r = page_of s r"
    "vpages s' = vpages s" "next_page s' = next_page s"
  shows "pages_ok s'"
proof -
  have "inj_on (page_of s') (live s)" using assms(1,3) by (simp add: pages_ok_def inj_on_def)
  moreover have "page_of s' ` live s = page_of s ` live s" using assms(3) by (intro image_cong) auto
  ultimately show ?thesis using assms by (simp add: pages_ok_def)
qed

lemma chain_origin:
  assumes "chain s (origin c) ts"
  shows "\<exists>q d. origin c = Some q \<and> task_at s q = Some d \<and> (q = Main \<and> ts = [] \<or> (\<exists>u us. q = Task u \<and> ts = u # us))"
  using assms by (cases ts) (auto simp: task_at_def)

lemma pages_ok_new:
  assumes "pages_ok s" "live s' = insert q (live s)" "q \<notin> live s" "page_of s' q = next_page s"
    "\<And>r. r \<in> live s \<Longrightarrow> page_of s' r = page_of s r"
    "vpages s' = insert (next_page s) (vpages s)" "next_page s' = next_page s + 1"
  shows "pages_ok s'"
proof -
  have i: "page_of s' ` live s = vpages s" "inj_on (page_of s') (live s)"
    using assms(1,5) by (auto simp: pages_ok_def inj_on_def)
  moreover have "next_page s \<notin> vpages s" using assms(1) by (auto simp: pages_ok_def)
  ultimately have "inj_on (page_of s') (live s')" using assms(2,4) by (auto simp: inj_on_insert)
  moreover have "\<forall>p \<in> vpages s'. p < next_page s'"
    using assms(1,6,7) by (auto simp: pages_ok_def less_Suc_eq)
  ultimately show ?thesis using i(1) assms(2,4,6) by (simp add: pages_ok_def)
qed

lemma pages_ok_less:
  assumes "pages_ok s" "live s' = live s - {q}" "q \<in> live s"
    "\<And>r. r \<in> live s \<Longrightarrow> r \<noteq> q \<Longrightarrow> page_of s' r = page_of s r"
    "vpages s' = vpages s - {page_of s q}" "next_page s' = next_page s"
  shows "pages_ok s'"
proof -
  have "inj_on (page_of s') (live s')" using assms(1,2,4) by (auto simp: pages_ok_def inj_on_def)
  moreover have "page_of s' ` live s' = vpages s'"
  proof -
    have "page_of s' ` live s' = page_of s ` (live s - {q})" using assms(2,4) by (intro image_cong) auto
    also have "\<dots> = page_of s ` live s - {page_of s q}"
      using inj_on_image_set_diff [of "page_of s" "live s" "live s" "{q}"] assms(1,3) by (auto simp: pages_ok_def)
    finally show ?thesis using assms(1,5) by (simp add: pages_ok_def)
  qed
  ultimately show ?thesis using assms(1,5,6) by (simp add: pages_ok_def)
qed

text \<open>Where the current task stands.\<close>

definition cur :: "'z sched_scheme \<Rightarrow> task_ref" where
  "cur s = (case current_task s of None \<Rightarrow> Main | Some r \<Rightarrow> r)"

lemma cur_simps [sched_simps]:
  "cur (s\<lparr>user_yield_coros := x\<rparr>) = cur s" "cur (s\<lparr>tasks := a\<rparr>) = cur s" "cur (s\<lparr>coroutines := x\<rparr>) = cur s"
  "cur (s\<lparr>total_num := n\<rparr>) = cur s" "cur (s\<lparr>next_task := m\<rparr>) = cur s" "cur (s\<lparr>last_cid := l\<rparr>) = cur s"
  "cur (s\<lparr>current_task := Some r\<rparr>) = r"
  by (simp_all add: cur_def)

lemma get_task_eq: "get_task s = (cur s, s\<lparr>current_task := Some (cur s)\<rparr>)"
  by (simp add: get_task_def cur_def split: option.split)

lemma cur_cases:
  assumes "sched_inv s ch"
  obtains d where "task_at s (cur s) = Some d" "chain s (Some (cur s)) ch" "distinct ch"
    "cur s = Main \<and> ch = [] \<or> (\<exists>u us. cur s = Task u \<and> ch = u # us)"
  using assms by (cases rule: active_cases) (auto simp: cur_def task_at_def)

lemma page_of_cur: "page_of s r = (if r = cur s then vm_stack (EG s) else case task_at s r of Some c \<Rightarrow> vm_stack (vm c) | None \<Rightarrow> 0)"
  by (auto simp: page_of_def cur_def split: option.split)

section \<open>Every operation keeps the invariant\<close>

lemma yield_ok:
  assumes inv: "sched_inv s ch" and cur: "current_task s = Some (Task t)" and c: "tasks s t = Some c"
  shows "\<exists>s' q d ts. ch = t # ts \<and> origin c = Some q \<and> task_at s q = Some d \<and> wmCoroutine_yield s = Some s' \<and> sched_inv s' ts \<and>
    current_task s' = Some q \<and> EG s' = vm d \<and> tasks s' = (tasks s)(t \<mapsto> c\<lparr>vm := EG s\<rparr>) \<and> main_task s' = main_task s \<and>
    coroutines s' = coroutines s \<and> total_num s' = total_num s \<and> last_cid s' = last_cid s"
proof -
  obtain ts where ch: "ch = t # ts" "chain s (origin c) ts" "t \<notin> set ts" "distinct ts"
    using inv cur c by (cases rule: active_cases) auto
  obtain q d where q: "origin c = Some q" "task_at s q = Some d" "q = Main \<and> ts = [] \<or> (\<exists>u us. q = Task u \<and> ts = u # us)"
    using chain_origin [OF ch(2)] by blast
  have tab: "tabs (coroutines s) (user_yield_coros s) (key s) (set ch)"
    using sched_invD(2) [OF inv] by (simp add: tables_ok_def)
  have kt: "key s t = Some (cid_key (co_cid c))" using c by (simp add: key_def)
  define tb where "tb = snd (WM_HASH_ADD (user_yield_coros s) (cid_key (co_cid c)) (Task t))"
  have add: "WM_HASH_ADD (user_yield_coros s) (cid_key (co_cid c)) (Task t) = (True, tb)"
    using hm.add_result [OF tabsD(2) [OF tab]] tabs_yielded [OF tab kt] ch(1) by (auto simp: tb_def prod_eq_iff)
  have qt: "q \<noteq> Task t" using q(3) ch(3) by auto
  define s' where "s' = s\<lparr>user_yield_coros := tb, tasks := (tasks s)(t \<mapsto> c\<lparr>vm := EG s\<rparr>), EG := vm d, current_task := Some q\<rparr>"
  have y: "wmCoroutine_yield s = Some s'"
    using cur c add q(1,2) qt
    by (cases q) (simp_all add: wmCoroutine_yield_def Let_def save_vm_stack_def restore_vm_stack_def task_at_def set_task_def s'_def)
  have dm: "dom (tasks s') = dom (tasks s)" using c by (auto simp: s'_def)
  have chn: "chain s' (Some q) ts"
  proof (rule chain_cong [OF ch(2) [unfolded q(1)]])
    fix u e assume "u \<in> set ts" "tasks s u = Some e"
    then show "\<exists>c'. tasks s' u = Some c' \<and> origin c' = origin e" using ch(3) by (auto simp: s'_def)
  qed
  have "tables_ok s' ts"
  proof -
    have "key s' = key s" using c by (auto simp: key_def s'_def fun_eq_iff)
    moreover have "set ch - {t} = set ts" using ch(1,3) by auto
    ultimately show ?thesis using tabs_yield [OF tab kt] ch(1) by (simp add: tables_ok_def s'_def tb_def)
  qed
  moreover have "pages_ok s'"
  proof (rule pages_ok_cong [OF sched_invD(3) [OF inv]])
    show "live s' = live s" using dm by (simp add: live_def)
    fix r assume "r \<in> live s"
    show "page_of s' r = page_of s r"
      using q(2) qt cur c by (cases r) (auto simp: page_of_def s'_def task_at_def split: task_ref.splits)
  qed (simp_all add: s'_def)
  moreover have "active s' ts" using chn ch(4) by (simp add: active_def s'_def)
  ultimately have "sched_inv s' ts"
    using sched_invD(4-7) [OF inv] dm c by (auto simp: sched_inv_def s'_def)
  then show ?thesis using ch(1) q y by (auto simp: s'_def)
qed

lemma resume_ok:
  assumes inv: "sched_inv s ch" and t: "t \<notin> set ch" and c: "tasks s t = Some c"
  shows "\<exists>s' d. task_at s (cur s) = Some d \<and> wmCoroutine_resume s (Task t) = Some (True, s') \<and> sched_inv s' (t # ch) \<and>
    current_task s' = Some (Task t) \<and> EG s' = vm c \<and> tasks s' t = Some (c\<lparr>origin := Some (cur s)\<rparr>) \<and>
    task_at s' (cur s) = Some (d\<lparr>vm := EG s\<rparr>) \<and>
    (\<forall>r. r \<noteq> Task t \<longrightarrow> r \<noteq> cur s \<longrightarrow> task_at s' r = task_at s r) \<and>
    coroutines s' = coroutines s \<and> total_num s' = total_num s \<and> last_cid s' = last_cid s"
proof -
  obtain d where d: "task_at s (cur s) = Some d" and ch: "chain s (Some (cur s)) ch" "distinct ch"
      "cur s = Main \<and> ch = [] \<or> (\<exists>u us. cur s = Task u \<and> ch = u # us)"
    using cur_cases [OF inv] .
  have tab: "tabs (coroutines s) (user_yield_coros s) (key s) (set ch)"
    using sched_invD(2) [OF inv] by (simp add: tables_ok_def)
  have kt: "key s t = Some (cid_key (co_cid c))" using c by (simp add: key_def)
  have ct: "cur s \<noteq> Task t" using ch(3) t by auto
  then have nc: "current_task s \<noteq> Some (Task t)" by (auto simp: cur_def)
  define s' where "s' = (set_task (set_task s (cur s) (d\<lparr>vm := EG s\<rparr>)) (Task t) (c\<lparr>origin := Some (cur s)\<rparr>))
      \<lparr>user_yield_coros := snd (WM_HASH_DEL (user_yield_coros s) (cid_key (co_cid c))), EG := vm c, current_task := Some (Task t)\<rparr>"
  have y: "wmCoroutine_resume s (Task t) = Some (True, s')"
    using c nc ct d tabs_yielded [OF tab kt] t
    by (cases "cur s") (simp_all add: wmCoroutine_resume_def Let_def get_task_eq cur_simps save_vm_stack_def restore_vm_stack_def task_at_def set_task_def s'_def)
  have f: "task_at s' r = (if r = Task t then Some (c\<lparr>origin := Some (cur s)\<rparr>) else if r = cur s then Some (d\<lparr>vm := EG s\<rparr>) else task_at s r)" for r
    by (simp add: s'_def task_at_def set_task_def split: task_ref.split)
  have tk: "tasks s' u = task_at s' (Task u)" "tasks s u = task_at s (Task u)" for u by (simp_all add: task_at_def)
  have dm: "dom (tasks s') = dom (tasks s)"
  proof (rule set_eqI)
    fix u show "u \<in> dom (tasks s') \<longleftrightarrow> u \<in> dom (tasks s)" using c d unfolding domIff tk f by auto
  qed
  have "sched_inv s' (t # ch)"
  proof -
    have "chain s' (Some (cur s)) ch"
    proof (rule chain_cong [OF ch(1)])
      fix u e assume "u \<in> set ch" "tasks s u = Some e"
      then show "\<exists>c'. tasks s' u = Some c' \<and> origin c' = origin e" using t d unfolding tk f by auto
    qed
    then have "active s' (t # ch)" using t ch(2) by (simp add: active_def s'_def set_task_def)
    moreover have "key s' = key s"
    proof
      fix u show "key s' u = key s u" using c d unfolding key_def tk f by auto
    qed
    then have "tables_ok s' (t # ch)"
      using tabs_resume [OF tab kt] by (simp add: tables_ok_def s'_def set_task_simps)
    moreover have "pages_ok s'"
    proof (rule pages_ok_cong [OF sched_invD(3) [OF inv]])
      show "live s' = live s" using dm by (simp add: live_def)
      fix r assume "r \<in> live s"
      have "cur s' = Task t" by (simp add: s'_def cur_def)
      then show "page_of s' r = page_of s r"
        using ct c d f by (auto simp: page_of_cur task_at_def s'_def)
    qed (simp_all add: s'_def set_task_simps)
    moreover have "origin (main_task s') = None"
      using sched_invD(7) [OF inv] f [of Main] d by (auto simp: task_at_def split: if_splits)
    moreover have "next_task s' = next_task s" by (simp add: s'_def set_task_simps)
    then have "\<forall>u. tasks s' u \<noteq> None \<longrightarrow> u < next_task s'"
      using sched_invD(6) [OF inv] dm by (metis domIff)
    moreover have "total_num s' = total_num s" by (simp add: s'_def set_task_simps)
    ultimately show ?thesis
      using sched_invD(4,5) [OF inv] dm by (simp add: sched_inv_def)
  qed
  moreover have "EG s' = vm c" "current_task s' = Some (Task t)" "coroutines s' = coroutines s" "total_num s' = total_num s"
      "last_cid s' = last_cid s"
    by (simp_all add: s'_def set_task_simps)
  moreover have "tasks s' t = Some (c\<lparr>origin := Some (cur s)\<rparr>)" unfolding tk f by simp
  ultimately show ?thesis using d y ct f by auto
qed

lemma create_ok:
  assumes inv: "sched_inv s ch" and fresh: "WM_HASH_GET (coroutines s) (cid_key cid) = None"
    and cid: "cid = new_cid (last_cid s)"
  shows "\<exists>s' d page. task_at s (cur s) = Some d \<and> wmCoroutine_create push_frame True s = Some (cid, s') \<and>
    sched_inv s' (next_task s # ch) \<and> tasks s (next_task s) = None \<and>
    current_task s' = Some (Task (next_task s)) \<and> vm_stack (EG s') = page \<and> page \<notin> vpages s \<and>
    (\<exists>c. tasks s' (next_task s) = Some c \<and> co_cid c = cid \<and> origin c = Some (cur s) \<and> \<not> end_flag c \<and> defer_tasks c = None \<and> c_defer c = None) \<and>
    task_at s' (cur s) = Some (d\<lparr>vm := EG s\<rparr>) \<and>
    (\<forall>r. r \<noteq> Task (next_task s) \<longrightarrow> r \<noteq> cur s \<longrightarrow> task_at s' r = task_at s r) \<and>
    total_num s' = total_num s + 1 \<and> last_cid s' = cid"
proof -
  obtain d where d: "task_at s (cur s) = Some d" and ch: "chain s (Some (cur s)) ch" "distinct ch"
      "cur s = Main \<and> ch = [] \<or> (\<exists>u us. cur s = Task u \<and> ch = u # us)"
    using cur_cases [OF inv] .
  have tab: "tabs (coroutines s) (user_yield_coros s) (key s) (set ch)"
    using sched_invD(2) [OF inv] by (simp add: tables_ok_def)
  define t where "t = next_task s"
  have new: "tasks s t = None" using sched_invD(6) [OF inv, of t] by (cases "tasks s t") (auto simp: t_def)
  then have ct: "cur s \<noteq> Task t" using d by (auto simp: task_at_def)
  have tch: "t \<notin> set ch" using chain_live [OF ch(1), of t] new by auto
  define g where "g = (EG s)\<lparr>vm_stack := next_page s, vm_stack_top := 1, vm_stack_end := DEFAULT_PHP_STACK_PAGE_SIZE,
                    vm_stack_page_size := DEFAULT_PHP_STACK_PAGE_SIZE\<rparr>"
  define g' where "g' = g\<lparr>vm_stack_top := fst (push_frame g), execute_data := Some (snd (push_frame g))\<rparr>"
  define c where "c = (blank_task cid)\<lparr>origin := Some (cur s), vm := g', defer_tasks := None\<rparr>"
  obtain tb where add: "WM_HASH_ADD (coroutines s) (cid_key cid) (Task t) = (True, tb)"
    using hm.add_result [OF tabsD(1) [OF tab]] fresh by (cases "WM_HASH_ADD (coroutines s) (cid_key cid) (Task t)") (metis fst_conv)
  define s1 where "s1 = s\<lparr>next_task := t + 1, last_cid := cid, tasks := (tasks s)(t \<mapsto> blank_task cid),
      coroutines := tb, total_num := total_num s + 1\<rparr>"
  define s' where "s' = (set_task (set_task s (cur s) (d\<lparr>vm := EG s\<rparr>)) (Task t) c)
      \<lparr>next_task := t + 1, last_cid := cid, coroutines := tb,
       total_num := total_num s + 1, next_page := next_page s + 1, vpages := insert (next_page s) (vpages s),
       EG := g'\<lparr>execute_data := None\<rparr>, current_task := Some (Task t)\<rparr>"
  have y: "wmCoroutine_create push_frame True s = Some (cid, s')"
  proof -
    have "wmCoroutine_create push_frame True s =
        Option.bind (save_vm_stack (s1\<lparr>current_task := Some (cur s)\<rparr>) (cur s)) (\<lambda>s. map_option (\<lambda>s. (cid, s)) (run push_frame s t))"
      using add unfolding wmCoroutine_create_def
      by (simp add: Let_def get_task_eq cur_simps s1_def t_def flip: cid)
    also have "save_vm_stack (s1\<lparr>current_task := Some (cur s)\<rparr>) (cur s) =
        Some (set_task (s1\<lparr>current_task := Some (cur s)\<rparr>) (cur s) (d\<lparr>vm := EG s\<rparr>))"
      using d ct by (cases "cur s") (simp_all add: save_vm_stack_def s1_def task_at_def)
    finally have cr: "wmCoroutine_create push_frame True s = Some (set_task (s1\<lparr>current_task := Some (cur s)\<rparr>) (cur s) (d\<lparr>vm := EG s\<rparr>)) \<bind>
        (\<lambda>s. map_option (\<lambda>s. (cid, s)) (run push_frame s t))" .
    have "run push_frame (set_task (s1\<lparr>current_task := Some (cur s)\<rparr>) (cur s) (d\<lparr>vm := EG s\<rparr>)) t = Some s'"
      using ct by (cases "cur s")
        (simp_all add: run_def main_func_enter_def vm_stack_init_def Let_def set_task_def task_at_def save_vm_stack_def
          s1_def s'_def c_def g'_def g_def split_beta fun_upd_twist)
    then show ?thesis using cr by simp
  qed
  have f: "task_at s' r = (if r = Task t then Some c else if r = cur s then Some (d\<lparr>vm := EG s\<rparr>) else task_at s r)" for r
    by (simp add: s'_def task_at_def set_task_def split: task_ref.split)
  have tk: "tasks s' u = task_at s' (Task u)" "tasks s u = task_at s (Task u)" for u by (simp_all add: task_at_def)
  have dm: "dom (tasks s') = insert t (dom (tasks s))"
  proof (rule set_eqI)
    fix u show "u \<in> dom (tasks s') \<longleftrightarrow> u \<in> insert t (dom (tasks s))" using d unfolding insert_iff domIff tk f by auto
  qed
  have cc: "co_cid c = cid" "origin c = Some (cur s)" by (simp_all add: c_def blank_task_def)
  have "sched_inv s' (t # ch)"
  proof -
    have "chain s' (Some (cur s)) ch"
    proof (rule chain_cong [OF ch(1)])
      fix u e assume "u \<in> set ch" "tasks s u = Some e"
      then show "\<exists>c'. tasks s' u = Some c' \<and> origin c' = origin e" using tch d unfolding tk f by auto
    qed
    then have "active s' (t # ch)" using tch ch(2) cc by (simp add: active_def s'_def set_task_def)
    moreover have "key s' = (key s)(t \<mapsto> cid_key cid)"
    proof
      fix u show "key s' u = ((key s)(t \<mapsto> cid_key cid)) u" using cc d unfolding key_def tk f by auto
    qed
    then have "tables_ok s' (t # ch)"
      using tabs_create [OF tab _ fresh, of t] new add by (simp add: tables_ok_def s'_def set_task_simps key_def)
    moreover have "pages_ok s'"
    proof (rule pages_ok_new [OF sched_invD(3) [OF inv]])
      show "live s' = insert (Task t) (live s)" using dm by (auto simp: live_def)
      show "Task t \<notin> live s" using new by (auto simp: live_def)
      have cu: "cur s' = Task t" by (simp add: s'_def cur_def)
      then show "page_of s' (Task t) = next_page s" by (simp add: page_of_cur s'_def g'_def g_def)
      fix r assume "r \<in> live s"
      then show "page_of s' r = page_of s r"
        using ct new d f cu by (auto simp: page_of_cur live_task_at task_at_def)
    qed (simp_all add: s'_def)
    moreover have "origin (main_task s') = None"
      using sched_invD(7) [OF inv] f [of Main] d by (auto simp: task_at_def split: if_splits)
    moreover have "next_task s' = next_task s + 1" by (simp add: s'_def t_def)
    then have "\<forall>u. tasks s' u \<noteq> None \<longrightarrow> u < next_task s'"
      using sched_invD(6) [OF inv] dm t_def by (auto simp: less_Suc_eq)
    moreover have "total_num s' = total_num s + 1" by (simp add: s'_def)
    moreover have "card (dom (tasks s')) = Suc (card (dom (tasks s)))"
      using dm sched_invD(4) [OF inv] new by (simp add: domIff)
    ultimately show ?thesis
      using sched_invD(4,5) [OF inv] dm by (simp add: sched_inv_def)
  qed
  moreover have "current_task s' = Some (Task t)" "total_num s' = total_num s + 1" "last_cid s' = cid"
      "vm_stack (EG s') = next_page s"
    by (simp_all add: s'_def g'_def g_def)
  moreover have "next_page s \<notin> vpages s" using sched_invD(3) [OF inv] by (auto simp: pages_ok_def)
  moreover have "tasks s' t = Some c" "\<not> end_flag c" "defer_tasks c = None" "c_defer c = None"
    unfolding tk f by (simp_all add: c_def blank_task_def)
  ultimately show ?thesis using d y ct cc new f unfolding t_def by auto
qed

text \<open>The end of a coroutine: its origin goes on with the registers it had.\<close>

lemma exit_ok:
  assumes inv: "sched_inv s ch" and cur: "current_task s = Some (Task t)" and c: "tasks s t = Some c"
  shows "\<exists>s' q d ts. ch = t # ts \<and> origin c = Some q \<and> task_at s q = Some d \<and> main_func_exit s = Some s' \<and> sched_inv s' ts \<and>
    current_task s' = Some q \<and> EG s' = vm d \<and> tasks s' = (tasks s)(t := None) \<and> main_task s' = main_task s \<and>
    WM_HASH_GET (coroutines s') (cid_key (co_cid c)) = None \<and> vpages s' = vpages s - {vm_stack (EG s)} \<and>
    total_num s' = total_num s - 1 \<and> last_cid s' = last_cid s \<and>
    c_calls s' = c_calls s @ (case c_defer c of None \<Rightarrow> [] | Some fd \<Rightarrow> [fd])"
proof -
  obtain ts where ch: "ch = t # ts" "chain s (origin c) ts" "t \<notin> set ts" "distinct ts"
    using inv cur c by (cases rule: active_cases) auto
  obtain q d where q: "origin c = Some q" "task_at s q = Some d" "q = Main \<and> ts = [] \<or> (\<exists>u us. q = Task u \<and> ts = u # us)"
    using chain_origin [OF ch(2)] by blast
  have tab: "tabs (coroutines s) (user_yield_coros s) (key s) (set ch)"
    using sched_invD(2) [OF inv] by (simp add: tables_ok_def)
  have kt: "key s t = Some (cid_key (co_cid c))" using c by (simp add: key_def)
  have qt: "q \<noteq> Task t" using q(3) ch(3) by auto
  have tl: "Task t \<in> live s" using c by (auto simp: live_def)
  have pt: "page_of s (Task t) = vm_stack (EG s)" using cur by (simp add: page_of_def)
  then have pg: "vm_stack (EG s) \<in> vpages s" using sched_invD(3) [OF inv] tl by (metis imageI pages_ok_def)
  define s' where "s' = s\<lparr>c_calls := c_calls s @ (case c_defer c of None \<Rightarrow> [] | Some fd \<Rightarrow> [fd]), tasks := (tasks s)(t := None),
      coroutines := snd (WM_HASH_DEL (coroutines s) (cid_key (co_cid c))),
      user_yield_coros := snd (WM_HASH_DEL (user_yield_coros s) (cid_key (co_cid c))),
      vpages := vpages s - {vm_stack (EG s)}, EG := vm d, current_task := Some q, total_num := total_num s - 1\<rparr>"
  have y: "main_func_exit s = Some s'"
    using cur c q(1,2) qt pg
    by (cases q) (simp_all add: main_func_exit_def close_coro_def vm_stack_destroy_def restore_vm_stack_def get_origin_task_def
        Let_def task_at_def s'_def)
  have dm: "dom (tasks s') = dom (tasks s) - {t}" by (auto simp: s'_def)
  have chn: "chain s' (Some q) ts"
  proof (rule chain_cong [OF ch(2) [unfolded q(1)]])
    fix u e assume "u \<in> set ts" "tasks s u = Some e"
    then show "\<exists>c'. tasks s' u = Some c' \<and> origin c' = origin e" using ch(3) by (auto simp: s'_def)
  qed
  have "sched_inv s' ts"
  proof -
    have "key s' = (key s)(t := None)" by (auto simp: key_def s'_def fun_eq_iff)
    moreover have "set ch - {t} = set ts" using ch(1,3) by auto
    ultimately have "tables_ok s' ts" using tabs_end [OF tab kt] ch(1) by (simp add: tables_ok_def s'_def)
    moreover have "pages_ok s'"
    proof (rule pages_ok_less [OF sched_invD(3) [OF inv]])
      show "live s' = live s - {Task t}" using dm by (auto simp: live_def)
      show "Task t \<in> live s" by (rule tl)
      show "vpages s' = vpages s - {page_of s (Task t)}" using pt by (simp add: s'_def)
      fix r assume "r \<in> live s" "r \<noteq> Task t"
      then show "page_of s' r = page_of s r"
        using q(2) qt cur by (cases r) (auto simp: page_of_def s'_def task_at_def split: task_ref.splits)
    qed (simp_all add: s'_def)
    moreover have "active s' ts" using chn ch(4) by (simp add: active_def s'_def)
    moreover have "total_num s' = int (card (dom (tasks s')))"
    proof -
      have "card (dom (tasks s)) = Suc (card (dom (tasks s) - {t}))"
        using c sched_invD(4) [OF inv] by (intro card.remove) auto
      then show ?thesis unfolding dm using sched_invD(5) [OF inv] by (simp add: s'_def)
    qed
    moreover have "finite (dom (tasks s'))" unfolding dm using sched_invD(4) [OF inv] by simp
    moreover have "\<forall>u. tasks s' u \<noteq> None \<longrightarrow> u < next_task s'" "origin (main_task s') = None"
      using sched_invD(6,7) [OF inv] by (auto simp: s'_def)
    ultimately show ?thesis by (simp add: sched_inv_def)
  qed
  moreover have "WM_HASH_GET (coroutines s') (cid_key (co_cid c)) = None"
    using hm.get_del [OF tabsD(1) [OF tab]] by (simp add: s'_def)
  ultimately show ?thesis using ch(1) q y by (auto simp: s'_def)
qed

text \<open>
  Resuming a coroutine that is not in the table of yielded ones changes nothing and returns false;
  these are the ones on the chain of the current task.
\<close>

lemma resume_refused:
  assumes inv: "sched_inv s ch" and t: "t \<in> set ch" "current_task s \<noteq> Some (Task t)"
  shows "wmCoroutine_resume s (Task t) = Some (False, s)"
proof -
  obtain c where c: "tasks s t = Some c"
    using cur_cases [OF inv] chain_live [of s _ ch t] t(1) by metis
  then have "key s t = Some (cid_key (co_cid c))" by (simp add: key_def)
  then have "WM_HASH_GET (user_yield_coros s) (cid_key (co_cid c)) = None"
    using tabs_yielded sched_invD(2) [OF inv] t(1) unfolding tables_ok_def by fastforce
  then show ?thesis using c t(2) by (simp add: wmCoroutine_resume_def task_at_def)
qed

lemma create_refused:
  assumes "WM_HASH_GET (coroutines s) (cid_key (new_cid (last_cid s))) \<noteq> None" "table_ok (coroutines s)"
  shows "wmCoroutine_create push_frame True s =
    Some (- 1, s\<lparr>next_task := next_task s + 1, last_cid := new_cid (last_cid s)\<rparr>)"
  using hm.add_result [OF assms(2), of "cid_key (new_cid (last_cid s))" "Task (next_task s)"] assms(1)
  by (auto simp: wmCoroutine_create_def Let_def split: prod.split)

text \<open>A change of a live task that keeps its id, origin and registers, and of the fields below the switch.\<close>

lemma inv_set_task:
  assumes inv: "sched_inv s ch" and c: "task_at s r = Some c"
    and same: "co_cid c' = co_cid c" "origin c' = origin c" "vm c' = vm c"
  shows "sched_inv (set_task s r c') ch"
proof -
  let ?s = "set_task s r c'"
  have f: "task_at ?s q = (if q = r then Some c' else task_at s q)" for q by (rule task_at_set)
  have tk: "tasks ?s u = task_at ?s (Task u)" "tasks s u = task_at s (Task u)" for u by (simp_all add: task_at_def)
  have dm: "dom (tasks ?s) = dom (tasks s)"
  proof (rule set_eqI)
    fix u show "u \<in> dom (tasks ?s) \<longleftrightarrow> u \<in> dom (tasks s)" using c unfolding domIff tk f by auto
  qed
  have "chain ?s x ch" if "chain s x ch" for x
  proof (rule chain_cong [OF that])
    fix u e assume "u \<in> set ch" "tasks s u = Some e"
    then show "\<exists>c'. tasks ?s u = Some c' \<and> origin c' = origin e" using c same(2) unfolding tk f by auto
  qed
  then have "active ?s ch" using sched_invD(1) [OF inv] dm by (auto simp: active_def set_task_simps)
  moreover have "key ?s = key s"
  proof
    fix u show "key ?s u = key s u" using c same(1) unfolding key_def tk f by auto
  qed
  then have "tables_ok ?s ch" using sched_invD(2) [OF inv] by (simp add: tables_ok_def set_task_simps)
  moreover have "pages_ok ?s"
  proof (rule pages_ok_cong [OF sched_invD(3) [OF inv]])
    show "live ?s = live s" using dm by (simp add: live_def)
    fix q assume "q \<in> live s"
    show "page_of ?s q = page_of s q" using c same(3) by (auto simp: page_of_def f set_task_simps)
  qed (simp_all add: set_task_simps)
  moreover have "origin (main_task ?s) = None"
    using sched_invD(7) [OF inv] f [of Main] c same(2) by (auto simp: task_at_def split: if_splits)
  moreover have "\<forall>u. tasks ?s u \<noteq> None \<longrightarrow> u < next_task ?s"
    using sched_invD(6) [OF inv] dm by (metis domIff set_task_simps(6))
  ultimately show ?thesis
    using sched_invD(4,5) [OF inv] dm by (simp add: sched_inv_def set_task_simps)
qed

lemma inv_frame:
  assumes inv: "sched_inv s ch" and same: "current_task s' = current_task s" "tasks s' = tasks s" "main_task s' = main_task s"
      "coroutines s' = coroutines s" "user_yield_coros s' = user_yield_coros s" "total_num s' = total_num s"
      "vpages s' = vpages s" "next_page s' = next_page s" "vm_stack (EG s') = vm_stack (EG s)" and le: "next_task s \<le> next_task s'"
  shows "sched_inv s' ch"
proof -
  have "chain s' x ch = chain s x ch" for x ch by (induction ch arbitrary: x) (simp_all add: same(2))
  then have "active s' ch" using sched_invD(1) [OF inv] by (simp add: active_def same)
  moreover have "key s' = key s" by (simp add: key_def same(2) fun_eq_iff)
  then have "tables_ok s' ch" using sched_invD(2) [OF inv] by (simp add: tables_ok_def same)
  moreover have at: "task_at s' = task_at s" by (simp add: task_at_def same fun_eq_iff split: task_ref.split)
  moreover have "page_of s' = page_of s" "live s' = live s" by (simp_all add: page_of_def at live_def same fun_eq_iff)
  then have "pages_ok s'" using sched_invD(3) [OF inv] by (simp add: pages_ok_def same)
  moreover have "\<forall>u. tasks s' u \<noteq> None \<longrightarrow> u < next_task s'"
    using sched_invD(6) [OF inv] le same(2) by (metis less_le_trans)
  ultimately show ?thesis using sched_invD(4,5,7) [OF inv] by (simp add: sched_inv_def same)
qed

end
