(* ===== verification/Wm_Helper.thy ===== *)
theory Wm_Helper
  imports Wm_Prelude
begin

text \<open>
  Functions of \<open>include/helper.h\<close>: \<open>wm_itoa\<close> into a buffer, the packing of a descriptor and an id
  into 64 bits, and \<open>parse_ip_address_ex\<close> (the build without IPv6). The other functions are in \<open>Wm_Log\<close>.
  A write outside the buffer is \<open>None\<close>.
\<close>

section \<open>Integer to text\<close>

function digit_loop :: "u8 list \<Rightarrow> nat \<Rightarrow> u64 \<Rightarrow> (u8 list \<times> nat) option" where
  "digit_loop buf i nn =
    (if length buf \<le> i then None
     else let buf = buf[i := ucast (nn mod 10) + 48] in
       if nn div 10 \<noteq> 0 then digit_loop buf (i + 1) (nn div 10) else Some (buf, i + 1))"
  by pat_completeness auto
termination
proof (relation "measure (\<lambda>(b, i, n). unat n)")
  fix nn :: u64 assume "nn div 10 \<noteq> 0"
  then have "0 < unat nn" by (auto simp: word_unat_eq_iff unat_div_distrib)
  then show "((b, i, nn div 10), (c, j, nn)) \<in> measure (\<lambda>(b, i, n). unat n)" for b c :: "u8 list" and i j :: nat
    by (simp add: unat_div_distrib)
qed simp

function swap_loop :: "u8 list \<Rightarrow> nat \<Rightarrow> nat \<Rightarrow> u8 list" where
  "swap_loop buf i j =
    (if i < j then swap_loop (buf[i := buf ! j, j := buf ! i]) (i + 1) (j - 1) else buf)"
  by pat_completeness auto
termination by (relation "measure (\<lambda>(b, i, j). j - i)") auto

definition wm_itoa :: "u8 list \<Rightarrow> u64 \<Rightarrow> (nat \<times> u8 list) option" where
  "wm_itoa buf v =
    (let sign_mask = signed_drop_bit 63 v;
         nn = (v + sign_mask) XOR sign_mask in
     Option.bind (digit_loop buf 0 nn) (\<lambda>(buf, i).
     if length buf \<le> i then None
     else
       let buf = buf[i := 45];
           i = i + unat (sign_mask AND 1) in
       if length buf \<le> i then None
       else
         let buf = buf[i := 0];
             buf = swap_loop buf 0 (i - 1) in
         Some (i, buf[i := 0])))"

text \<open>The reference: decimal digits, most significant first, with a minus sign.\<close>

fun dec_nat :: "nat \<Rightarrow> u8 list" where
  "dec_nat n = (if n < 10 then [of_nat (48 + n)] else dec_nat (n div 10) @ [of_nat (48 + n mod 10)])"

definition dec_int :: "int \<Rightarrow> u8 list" where
  "dec_int i = (if i < 0 then 45 # dec_nat (nat (- i)) else dec_nat (nat i))"

declare dec_nat.simps [simp del] digit_loop.simps [simp del] swap_loop.simps [simp del]

lemma swap_loop_nth:
  assumes "j < length buf"
  shows "length (swap_loop buf i j) = length buf \<and>
    (\<forall>k < length buf. swap_loop buf i j ! k = (if i \<le> k \<and> k \<le> j then buf ! (i + j - k) else buf ! k))"
  using assms
proof (induction buf i j rule: swap_loop.induct)
  case (1 buf i j)
  show ?case
  proof (cases "i < j")
    case False
    then have "swap_loop buf i j = buf" by (simp add: swap_loop.simps [of buf])
    moreover have "i + j - k = k" if "i \<le> k" "k \<le> j" for k using that False by linarith
    ultimately show ?thesis by auto
  next
    case True
    define b where "b = buf[i := buf ! j, j := buf ! i]"
    have IH: "length (swap_loop b (i + 1) (j - 1)) = length buf"
        "\<forall>k < length buf. swap_loop b (i + 1) (j - 1) ! k =
           (if i + 1 \<le> k \<and> k \<le> j - 1 then b ! (i + 1 + (j - 1) - k) else b ! k)"
      using "1.IH" [OF True] "1.prems" True by (simp_all add: b_def)
    have "swap_loop buf i j = swap_loop b (i + 1) (j - 1)" using True by (simp add: swap_loop.simps [of buf] b_def)
    moreover have "(if i + 1 \<le> k \<and> k \<le> j - 1 then b ! (i + 1 + (j - 1) - k) else b ! k) =
        (if i \<le> k \<and> k \<le> j then buf ! (i + j - k) else buf ! k)" if "k < length buf" for k
      using True "1.prems" that by (auto simp: b_def nth_list_update)
    ultimately show ?thesis using IH by simp
  qed
qed

lemma swap_loop_rev:
  assumes "0 < n" "n \<le> length buf"
  shows "swap_loop buf 0 (n - 1) = rev (take n buf) @ drop n buf"
proof (rule nth_equalityI)
  have l: "n - 1 < length buf" using assms by linarith
  note s = swap_loop_nth [OF l, of 0]
  show "length (swap_loop buf 0 (n - 1)) = length (rev (take n buf) @ drop n buf)" using s assms by simp
  fix k assume "k < length (swap_loop buf 0 (n - 1))"
  then show "swap_loop buf 0 (n - 1) ! k = (rev (take n buf) @ drop n buf) ! k"
    using s assms by (auto simp: nth_append rev_nth)
qed

fun rdig :: "nat \<Rightarrow> u8 list" where
  "rdig n = of_nat (48 + n mod 10) # (if n div 10 = 0 then [] else rdig (n div 10))"

declare rdig.simps [simp del]

lemma rdig_dec: "rev (rdig n) = dec_nat n"
proof (induction n rule: rdig.induct)
  case (1 n)
  then show ?case
    by (cases "n < 10") (simp_all add: rdig.simps [of n] dec_nat.simps [of n] div_eq_0_iff)
qed

lemma digit_byte: "ucast (nn mod 10 :: u64) + (48 :: u8) = of_nat (48 + unat nn mod 10)"
proof -
  have "(of_nat (unat (nn mod 10)) :: u8) = ucast (nn mod 10)" by (rule of_nat_unat)
  moreover have "unat (nn mod 10) = unat nn mod 10" by (simp add: unat_mod_distrib)
  ultimately have "ucast (nn mod 10) = (of_nat (unat nn mod 10) :: u8)" by simp
  then show ?thesis by (simp add: add.commute)
qed

lemma digit_loop_ok:
  assumes "i + length (rdig (unat nn)) \<le> length buf"
  shows "digit_loop buf i nn = Some (take i buf @ rdig (unat nn) @ drop (i + length (rdig (unat nn))) buf,
    i + length (rdig (unat nn)))"
  using assms
proof (induction buf i nn rule: digit_loop.induct)
  case (1 buf i nn)
  let ?d = "of_nat (48 + unat nn mod 10) :: u8"
  have z: "nn div 10 = 0 \<longleftrightarrow> unat nn div 10 = 0" by (simp add: word_unat_eq_iff unat_div_distrib)
  have u: "unat (nn div 10) = unat nn div 10" by (simp add: unat_div_distrib)
  have ib: "i < length buf" using "1.prems" by (simp add: rdig.simps [of "unat nn"])
  have tk: "take (Suc i) (buf[i := ?d]) = take i buf @ [?d]" using ib by (simp add: take_Suc_conv_app_nth)
  show ?case
  proof (cases "nn div 10 = 0")
    case True
    then have "rdig (unat nn) = [?d]" using z by (simp add: rdig.simps [of "unat nn"])
    moreover have "buf[i := ?d] = take i buf @ ?d # drop (Suc i) buf" using ib by (rule upd_conv_take_nth_drop)
    ultimately show ?thesis using True ib by (simp add: digit_loop.simps [of buf] digit_byte)
  next
    case False
    then have r: "rdig (unat nn) = ?d # rdig (unat (nn div 10))" using z u by (simp add: rdig.simps [of "unat nn"])
    have "digit_loop buf i nn = digit_loop (buf[i := ?d]) (i + 1) (nn div 10)"
      using False ib by (simp add: digit_loop.simps [of buf] digit_byte)
    also have "\<dots> = Some (take (i + 1) (buf[i := ?d]) @ rdig (unat (nn div 10)) @
        drop (i + 1 + length (rdig (unat (nn div 10)))) (buf[i := ?d]), i + 1 + length (rdig (unat (nn div 10))))"
      by (rule "1.IH") (use False ib "1.prems" r in \<open>simp_all add: digit_byte\<close>)
    finally show ?thesis using r tk by simp
  qed
qed

lemma rdig_nonempty [simp]: "rdig n \<noteq> []"
  by (simp add: rdig.simps [of n])

text \<open>The two's complement trick: the absolute value as an unsigned number.\<close>

lemma itoa_abs:
  fixes v :: u64
  defines "m \<equiv> signed_drop_bit 63 v"
  shows "unat ((v + m) XOR m) = nat \<bar>sint v\<bar>" "m AND 1 = (if sint v < 0 then 1 else 0)"
proof -
  have b: "- (2 ^ 63) \<le> sint v" "sint v < 2 ^ 63" using sint_greater_eq [of v] sint_less [of v] by simp_all
  have sm: "sint m = sint v div 2 ^ 63" by (simp add: m_def sint_signed_drop_bit_eq drop_bit_eq_div)
  have "unat ((v + m) XOR m) = nat \<bar>sint v\<bar> \<and> m AND 1 = (if sint v < 0 then 1 else 0)"
  proof (cases "sint v < 0")
    case True
    have "sint v div 2 ^ 63 = - 1" using b True by (simp add: div_eq_minus1)
    then have "sint m = - 1" using sm by simp
    then have "word_of_int (sint m) = (- 1 :: u64)" by (simp only: of_int_minus of_int_1)
    then have m: "m = - 1" by simp
    have "(v + m) XOR m = NOT (v - 1)" unfolding m by simp
    then have "(v + m) XOR m = - v" by (simp only: minus_eq_not_minus_1 [of v])
    moreover have "uint (- v) = - sint v"
    proof -
      have "- v = word_of_int (- sint v)" by (simp add: of_int_minus)
      then have "uint (- v) = take_bit 64 (- sint v)" by (simp only: uint_word_of_int_eq) simp
      then show ?thesis using True b by (simp add: take_bit_int_eq_self)
    qed
    ultimately show ?thesis using True m by (simp add: unat_eq_nat_uint)
  next
    case False
    have "sint v div 2 ^ 63 = 0" using b False by simp
    then have m: "m = 0" using sm by (simp add: signed_eq_0_iff)
    have "v = word_of_int (sint v)" by simp
    then have "uint v = uint (word_of_int (sint v) :: u64)" by simp
    also have "\<dots> = take_bit 64 (sint v)" by (simp only: uint_word_of_int_eq) simp
    finally have "uint v = take_bit 64 (sint v)" .
    then have "uint v = sint v" using False b by (simp add: take_bit_int_eq_self)
    then show ?thesis using m False by (simp add: unat_eq_nat_uint)
  qed
  then show "unat ((v + m) XOR m) = nat \<bar>sint v\<bar>" "m AND 1 = (if sint v < 0 then 1 else 0)" by blast+
qed

lemma dec_nat_len: "length (dec_nat n) = length (rdig n)"
  by (metis rdig_dec length_rev)

lemma dec_int_len: "length (dec_int i) = length (dec_nat (nat \<bar>i\<bar>)) + (if i < 0 then 1 else 0)"
  by (simp add: dec_int_def)

lemma itoa_fits:
  assumes fits: "length (dec_int (sint v)) < length buf"
  shows "\<exists>b. wm_itoa buf v = Some (length (dec_int (sint v)), b) \<and> length b = length buf \<and>
    take (length (dec_int (sint v))) b = dec_int (sint v) \<and> b ! length (dec_int (sint v)) = 0"
proof -
  define m where "m = signed_drop_bit 63 v"
  define nn where "nn = (v + m) XOR m"
  define ds where "ds = rdig (unat nn)"
  note ab = itoa_abs [of v, folded m_def, folded nn_def]
  have dd: "rev ds = dec_nat (nat \<bar>sint v\<bar>)" by (simp add: ds_def ab(1) rdig_dec)
  have ldec: "length (dec_int (sint v)) = length ds + (if sint v < 0 then 1 else 0)"
    using arg_cong [OF dd, of length] by (simp add: dec_int_def)
  then have len: "length ds < length buf" using fits by (simp split: if_splits)
  have pos: "0 < length ds" by (simp add: ds_def)
  define b1 where "b1 = ds @ drop (length ds) buf"
  have dl: "digit_loop buf 0 nn = Some (b1, length ds)"
    using digit_loop_ok [of 0 nn buf] len by (simp add: ds_def [symmetric] b1_def)
  have l1: "length b1 = length buf" using len by (simp add: b1_def)
  define k where "k = length ds + (if sint v < 0 then 1 else 0)"
  define b2 where "b2 = b1[length ds := 45, k := 0]"
  have kk: "length ds + unat (m AND 1) = k" using ab(2) by (simp add: k_def)
  have kl: "k < length buf" "0 < k" using fits ldec pos by (simp_all add: k_def)
  have tk: "rev (take k b2) = dec_int (sint v)"
  proof (cases "sint v < 0")
    case True
    have "take k b2 = ds @ [45]"
      using True l1 len by (simp add: b2_def k_def b1_def take_Suc_conv_app_nth)
    then show ?thesis using True dd by (simp add: dec_int_def)
  next
    case False
    have "take k b2 = ds" using False l1 len by (simp add: b2_def k_def b1_def)
    then show ?thesis using False dd by (simp add: dec_int_def)
  qed
  have l2: "length b2 = length buf" using l1 by (simp add: b2_def)
  define b where "b = (swap_loop b2 0 (k - 1))[k := 0]"
  have sw: "swap_loop b2 0 (k - 1) = dec_int (sint v) @ drop k b2"
    using swap_loop_rev [of k b2] kl l2 tk by simp
  have ldec: "length (dec_int (sint v)) = k" using ldec by (simp add: k_def)
  have "wm_itoa buf v = Some (k, b)"
    using dl kl l1 len kk
    by (simp add: wm_itoa_def Let_def m_def [symmetric] nn_def [symmetric] b2_def [symmetric] b_def)
  moreover have "length b = length buf" unfolding b_def sw using l2 kl ldec by simp
  moreover have "take k b = dec_int (sint v)" unfolding b_def sw using ldec by simp
  moreover have "b ! k = 0" unfolding b_def sw using ldec kl l2 by simp
  ultimately show ?thesis using ldec by auto
qed

lemma itoa_ok:
  assumes "length (dec_nat (nat \<bar>sint v\<bar>)) + 2 \<le> length buf"
  shows "\<exists>b. wm_itoa buf v = Some (length (dec_int (sint v)), b) \<and> length b = length buf \<and>
    take (length (dec_int (sint v))) b = dec_int (sint v) \<and> b ! length (dec_int (sint v)) = 0"
  by (rule itoa_fits) (use assms dec_int_len [of "sint v"] in \<open>simp split: if_splits\<close>)

text \<open>A buffer without room for the text and the byte after it is overrun.\<close>

lemma digit_loop_len:
  "digit_loop b i n = None \<or> (\<exists>c. digit_loop b i n = Some (c, i + length (rdig (unat n))) \<and> length c = length b)"
proof (induction b i n rule: digit_loop.induct)
  case (1 b i n)
  have "length b \<le> i \<or> i < length b" by linarith
  moreover have z: "n div 10 = 0 \<longleftrightarrow> unat n div 10 = 0" by (simp add: word_unat_eq_iff unat_div_distrib)
  ultimately show ?case
    using "1.IH" by (auto simp: digit_loop.simps [of b] rdig.simps [of "unat n"] unat_div_distrib Let_def)
qed

lemma itoa_overruns:
  assumes "length buf \<le> length (dec_int (sint v))"
  shows "wm_itoa buf v = None"
proof -
  define m where "m = signed_drop_bit 63 v"
  define nn where "nn = (v + m) XOR m"
  note ab = itoa_abs [of v, folded m_def, folded nn_def]
  have "length buf \<le> length (rdig (unat nn)) + unat (m AND 1)"
    using assms ab by (simp add: dec_int_len dec_nat_len split: if_splits)
  then show ?thesis
    using digit_loop_len [of buf 0 nn] by (auto simp: wm_itoa_def Let_def m_def [symmetric] nn_def [symmetric])
qed

text \<open>
  \<open>wm_itoa\<close> stays within its buffer exactly when that has room for the decimal text and a
  terminating byte; then it writes the text of any 64-bit \<open>long\<close>, the smallest one included, with
  the terminating zero, and returns its length.
\<close>

theorem itoa_correct:
  "if length (dec_int (sint v)) < length buf
   then \<exists>b. wm_itoa buf v = Some (length (dec_int (sint v)), b) \<and> length b = length buf \<and>
     take (length (dec_int (sint v))) b = dec_int (sint v) \<and> b ! length (dec_int (sint v)) = 0
   else wm_itoa buf v = None"
  using itoa_fits [of v buf] itoa_overruns [of buf v] by simp

theorem itoa_correct_witness:
  "(\<exists>b. wm_itoa (replicate 4 0) (- 42) = Some (3, b) \<and> take 3 b = [45, 52, 50]) \<and> wm_itoa (replicate 3 0) (- 42) = None"
proof -
  have d: "dec_int (sint (- 42 :: u64)) = [45, 52, 50]" by (simp add: dec_nat.simps dec_int_def)
  obtain b where "wm_itoa (replicate 4 0) (- 42) = Some (length [45, 52, 50 :: u8], b)" "take (length [45, 52, 50 :: u8]) b = [45, 52, 50]"
    using itoa_correct [of "- 42" "replicate 4 0"] unfolding d by auto
  moreover have "wm_itoa (replicate 3 0) (- 42) = None" using itoa_correct [of "- 42" "replicate 3 0"] unfolding d by simp
  ultimately show ?thesis by (simp add: numeral_3_eq_3)
qed

text \<open>The numbers that have at most \<open>k\<close> digits.\<close>

lemma dec_nat_bound: "n < 10 ^ k \<Longrightarrow> 0 < k \<Longrightarrow> length (dec_nat n) \<le> k"
proof (induction k arbitrary: n)
  case (Suc k)
  show ?case
  proof (cases "n < 10")
    case False
    then have "0 < k" using Suc.prems by (cases k) auto
    moreover have "n div 10 < 10 ^ k" using Suc.prems(1) by (simp add: less_mult_imp_div_less)
    ultimately have "length (dec_nat (n div 10)) \<le> k" using Suc.IH by blast
    then show ?thesis using False by (simp add: dec_nat.simps [of n])
  qed (simp add: dec_nat.simps [of n])
qed simp

lemma dec_nat_less: "n < 10 ^ length (dec_nat n)"
proof (induction n rule: dec_nat.induct)
  case (1 n)
  show ?case
  proof (cases "n < 10")
    case False
    have "n div 10 < 10 ^ length (dec_nat (n div 10))" using "1.IH" [OF False] .
    then have "n < 10 ^ length (dec_nat (n div 10)) * 10" by linarith
    then show ?thesis using False by (simp add: dec_nat.simps [of n] mult.commute)
  qed (simp add: dec_nat.simps [of n])
qed

lemma dec_nat_length: "0 < k \<Longrightarrow> length (dec_nat n) \<le> k \<longleftrightarrow> n < 10 ^ k"
proof
  assume "length (dec_nat n) \<le> k"
  then have "(10 :: nat) ^ length (dec_nat n) \<le> 10 ^ k" by (intro power_increasing) simp_all
  then show "n < 10 ^ k" using dec_nat_less [of n] by linarith
qed (use dec_nat_bound in blast)

section \<open>Packing a descriptor and an id\<close>

definition touint64 :: "u32 \<Rightarrow> u32 \<Rightarrow> u64" where
  "touint64 fd n = (0 OR push_bit 32 (scast fd)) OR scast n"

definition fromuint64 :: "u64 \<Rightarrow> u32 \<times> u32" where
  "fromuint64 v = (ucast (drop_bit 32 v), ucast (v AND 0xffffffff))"

text \<open>
  \<open>fromuint64\<close> undoes \<open>touint64\<close> for every descriptor and every id that is not negative; the
  sign extension of a negative id overwrites the descriptor with ones.
\<close>

theorem uint64_roundtrip: "fromuint64 (touint64 fd n) = (if sint n < 0 then - 1 else fd, n)"
proof -
  have lo: "ucast (touint64 fd n AND 0xffffffff) = n"
  proof (rule bit_word_eqI)
    fix i assume "i < LENGTH(32)"
    moreover have "bit (0xffffffff :: u64) i" if "i < 32" for i
    proof -
      have "(0xffffffff :: u64) = mask 32" by (simp add: mask_eq_exp_minus_1)
      moreover have "bit (mask 32 :: u64) i" using that by (simp add: bit_mask_iff)
      ultimately show ?thesis by (simp only:)
    qed
    ultimately show "bit (ucast (touint64 fd n AND 0xffffffff) :: u32) i = bit n i"
      by (simp add: touint64_def bit_simps)
  qed
  have hi: "ucast (drop_bit 32 (touint64 fd n)) = (if bit n 31 then - 1 else fd)"
  proof (rule bit_word_eqI)
    fix i assume "i < LENGTH(32)"
    then show "bit (ucast (drop_bit 32 (touint64 fd n)) :: u32) i = bit (if bit n 31 then - 1 else fd) i"
      by (cases "i = 31") (auto simp: touint64_def bit_simps min_def)
  qed
  have "bit n 31 \<longleftrightarrow> sint n < 0" using bit_last_iff [of n] by simp
  then show ?thesis using lo hi by (simp add: fromuint64_def)
qed

section \<open>Addresses\<close>

text \<open>\<open>atoi\<close> of the C library: blanks, an optional sign, digits; anything after them is ignored.\<close>

definition is_digit :: "u8 \<Rightarrow> bool" where
  "is_digit c \<longleftrightarrow> 48 \<le> c \<and> c \<le> 57"

fun digits_val :: "int \<Rightarrow> u8 list \<Rightarrow> int" where
  "digits_val acc [] = acc"
| "digits_val acc (c # cs) = (if is_digit c then digits_val (acc * 10 + (uint c - 48)) cs else acc)"

definition atoi :: "u8 list \<Rightarrow> int" where
  "atoi s =
    (case dropWhile (\<lambda>c. c \<in> {32, 9, 10, 11, 12, 13}) s of
       [] \<Rightarrow> 0
     | c # cs \<Rightarrow> if c = 45 then - digits_val 0 cs else if c = 43 then digits_val 0 cs else digits_val 0 (c # cs))"

text \<open>The position of the first occurrence of a byte among the first \<open>n\<close>, as \<open>memchr\<close> finds it.\<close>

fun memchr :: "u8 list \<Rightarrow> u8 \<Rightarrow> nat \<Rightarrow> nat option" where
  "memchr (x # xs) c (Suc n) = (if x = c then Some 0 else map_option Suc (memchr xs c n))"
| "memchr _ _ _ = None"

definition parse_ip_address_ex :: "u8 list \<Rightarrow> (u8 list \<times> int) option" where
  "parse_ip_address_ex str =
    (let colon = (if length str \<noteq> 0 then memchr str 58 (length str - 1) else None) in
     case colon of
       Some k \<Rightarrow> Some (take k str, atoi (drop (k + 1) str))
     | None \<Rightarrow> None)"

lemma memchr_first: "c \<notin> set xs \<Longrightarrow> length xs < n \<Longrightarrow> memchr (xs @ c # ys) c n = Some (length xs)"
proof (induction xs arbitrary: n)
  case Nil
  then show ?case by (cases n) auto
next
  case (Cons x xs)
  then show ?case by (cases n) auto
qed

lemma memchr_notin: "c \<notin> set xs \<Longrightarrow> memchr xs c n = None"
  by (induction xs c n rule: memchr.induct) auto

lemma memchr_none: "c \<notin> set xs \<Longrightarrow> memchr (xs @ ys) c (length xs) = None"
  by (induction xs) auto

lemma digit_byte_val: "d < 10 \<Longrightarrow> is_digit (of_nat (48 + d)) \<and> uint (of_nat (48 + d) :: u8) = int (48 + d)"
proof -
  assume d: "d < 10"
  have u: "unat (of_nat (48 + d) :: u8) = 48 + d" using d by (simp add: unat_of_nat take_bit_nat_eq_self del: of_nat_add)
  then show ?thesis using d unfolding is_digit_def word_le_nat_alt by (simp add: uint_nat del: of_nat_add)
qed

lemma digits_val_app: "\<forall>c \<in> set xs. is_digit c \<Longrightarrow> digits_val acc (xs @ ys) = digits_val (digits_val acc xs) ys"
  by (induction xs arbitrary: acc) auto

lemma dec_digits: "c \<in> set (dec_nat n) \<Longrightarrow> is_digit c"
proof (induction n rule: dec_nat.induct)
  case (1 n)
  then show ?case using digit_byte_val [of n] digit_byte_val [of "n mod 10"]
    by (cases "n < 10") (auto simp: dec_nat.simps [of n])
qed

lemma dec_nonempty: "dec_nat n \<noteq> []"
  by (simp add: dec_nat.simps [of n])

lemma digits_val_dec: "digits_val 0 (dec_nat n) = int n"
proof (induction n rule: dec_nat.induct)
  case (1 n)
  show ?case
  proof (cases "n < 10")
    case True
    then show ?thesis using digit_byte_val [of n] by (simp add: dec_nat.simps [of n])
  next
    case False
    have "digits_val 0 (dec_nat n) = digits_val (digits_val 0 (dec_nat (n div 10))) [of_nat (48 + n mod 10)]"
      using False dec_digits digits_val_app [of "dec_nat (n div 10)" 0] by (simp add: dec_nat.simps [of n])
    also have "\<dots> = int (n div 10) * 10 + int (n mod 10)"
      using "1.IH" [OF False] digit_byte_val [of "n mod 10"] by simp
    also have "\<dots> = int n" by (metis div_mult_mod_eq of_nat_add of_nat_mult of_nat_numeral)
    finally show ?thesis .
  qed
qed

lemma atoi_dec_app: "atoi (dec_nat n @ xs) = digits_val (int n) xs"
proof -
  obtain c cs where c: "dec_nat n = c # cs" using dec_nonempty by (cases "dec_nat n") auto
  have "is_digit c" using dec_digits [of c n] c by simp
  then have "48 \<le> unat c" by (simp add: is_digit_def word_le_nat_alt)
  then have "c \<notin> {32, 9, 10, 11, 12, 13}" "c \<noteq> 45" "c \<noteq> 43" by auto
  then have "atoi (dec_nat n @ xs) = digits_val 0 (dec_nat n @ xs)" unfolding atoi_def c by simp
  then show ?thesis using digits_val_app [of "dec_nat n" 0 xs] dec_digits by (simp add: digits_val_dec)
qed

lemma atoi_dec: "atoi (dec_nat n) = int n"
  using atoi_dec_app [of n "[]"] by simp

text \<open>
  \<open>parse_ip_address_ex\<close> splits \<open>host:port\<close> at the first colon and reads the port back, and
  refuses an address without a port: one with no colon, or with the only colon at its end.
\<close>

lemma parse_ip_address_host_port:
  assumes "58 \<notin> set host"
  shows "parse_ip_address_ex (host @ 58 # dec_nat port) = Some (host, int port) \<and>
    parse_ip_address_ex host = None \<and> parse_ip_address_ex (host @ [58]) = None"
proof (intro conjI)
  have "length host < length (host @ 58 # dec_nat port) - 1"
    using dec_nonempty [of port] by (cases "dec_nat port") auto
  then show "parse_ip_address_ex (host @ 58 # dec_nat port) = Some (host, int port)"
    using memchr_first [OF assms] by (simp add: parse_ip_address_ex_def atoi_dec)
  show "parse_ip_address_ex host = None" using memchr_notin [OF assms] by (simp add: parse_ip_address_ex_def)
  show "parse_ip_address_ex (host @ [58]) = None"
    using memchr_none [OF assms, of "[58]"] by (simp add: parse_ip_address_ex_def)
qed

end
