(* ===== verification/Wm_String.thy ===== *)
theory Wm_String
  imports Wm_Helper
begin

text \<open>
  The growing byte strings of \<open>src/core/wm_string.c\<close>: a buffer of \<open>size + 1\<close> bytes, the length in
  use, and an offset. A byte that was never written is \<open>None\<close> in the buffer. \<open>can n\<close> says whether the
  allocator serves a request of \<open>n\<close> bytes; the sizes are natural numbers (the wrap of 64-bit sizes is
  not modelled). The outer \<open>None\<close> of a result is undefined behaviour: an access outside a buffer,
  a null pointer that is followed, or the failed \<open>assert\<close> of \<open>wmString_extend\<close>.
\<close>

section \<open>State and operations\<close>

record wmString =
  slen :: nat
  ssize :: nat
  soff :: int
  sbuf :: "u8 option list"

definition memcpy_to :: "u8 option list \<Rightarrow> nat \<Rightarrow> u8 option list \<Rightarrow> u8 option list option" where
  "memcpy_to buf off bs =
    (if off + length bs \<le> length buf then Some (take off buf @ bs @ drop (off + length bs) buf) else None)"

definition memcpy_from :: "u8 option list \<Rightarrow> nat \<Rightarrow> nat \<Rightarrow> u8 option list option" where
  "memcpy_from buf off n = (if off + n \<le> length buf then Some (take n (drop off buf)) else None)"

definition wmString_new :: "(nat \<Rightarrow> bool) \<Rightarrow> nat \<Rightarrow> wmString option" where
  "wmString_new can sz =
    (if \<not> can 32 then None
     else if \<not> can (sz + 1) then None
     else Some \<lparr>slen = 0, ssize = sz, soff = 0, sbuf = Some 0 # replicate sz None\<rparr>)"

definition wmString_dup2 :: "(nat \<Rightarrow> bool) \<Rightarrow> wmString \<Rightarrow> wmString option option" where
  "wmString_dup2 can src =
    (case wmString_new can (ssize src) of
       None \<Rightarrow> Some None
     | Some dst \<Rightarrow>
         Option.bind (memcpy_from (sbuf src) 0 (slen src + 1)) (\<lambda>bs.
         map_option (\<lambda>buf. Some (dst\<lparr>slen := slen src, soff := soff src, sbuf := buf\<rparr>))
           (memcpy_to (sbuf dst) 0 bs)))"

definition wmString_dup :: "(nat \<Rightarrow> bool) \<Rightarrow> u8 list \<Rightarrow> nat \<Rightarrow> wmString option option" where
  "wmString_dup can src n =
    (case wmString_new can n of
       None \<Rightarrow> Some None
     | Some str \<Rightarrow>
         Option.bind (memcpy_from (map Some src) 0 n) (\<lambda>bs.
         Option.bind (memcpy_to (sbuf str) 0 bs) (\<lambda>buf.
         map_option (\<lambda>buf. Some (str\<lparr>slen := n, sbuf := buf\<rparr>)) (memcpy_to buf n [Some 0]))))"

definition wmString_extend :: "(nat \<Rightarrow> bool) \<Rightarrow> wmString \<Rightarrow> nat \<Rightarrow> (bool \<times> wmString) option" where
  "wmString_extend can s new_size =
    (if \<not> ssize s < new_size then None
     else if \<not> can (new_size + 1) then Some (False, s)
     else Some (True, s\<lparr>sbuf := sbuf s @ replicate (new_size - ssize s) None, ssize := new_size\<rparr>))"

text \<open>Growing to twice the new length when it does not fit, as the append and write functions do.\<close>

definition ensure :: "(nat \<Rightarrow> bool) \<Rightarrow> wmString \<Rightarrow> nat \<Rightarrow> (bool \<times> wmString) option" where
  "ensure can s new_size = (if ssize s < new_size then wmString_extend can s (new_size * 2) else Some (True, s))"

definition wmString_append_ptr :: "(nat \<Rightarrow> bool) \<Rightarrow> wmString \<Rightarrow> u8 option list \<Rightarrow> nat \<Rightarrow> (bool \<times> wmString) option" where
  "wmString_append_ptr can s src n =
    Option.bind (ensure can s (slen s + n)) (\<lambda>(ok, s).
    if \<not> ok then Some (False, s)
    else
      Option.bind (memcpy_from src 0 n) (\<lambda>bs.
      Option.bind (memcpy_to (sbuf s) (slen s) bs) (\<lambda>buf.
      map_option (\<lambda>buf. (True, s\<lparr>slen := slen s + n, sbuf := buf\<rparr>)) (memcpy_to buf (slen s + n) [Some 0]))))"

definition wmString_append :: "(nat \<Rightarrow> bool) \<Rightarrow> wmString \<Rightarrow> wmString \<Rightarrow> (bool \<times> wmString) option" where
  "wmString_append can s a = wmString_append_ptr can s (sbuf a) (slen a)"

definition wmString_append_int :: "(nat \<Rightarrow> bool) \<Rightarrow> wmString \<Rightarrow> u32 \<Rightarrow> (bool \<times> wmString) option" where
  "wmString_append_int can s v =
    Option.bind (wm_itoa (replicate 16 0) (scast v)) (\<lambda>(n, buf). wmString_append_ptr can s (map Some buf) n)"

definition wmString_write_ptr ::
    "(nat \<Rightarrow> bool) \<Rightarrow> wmString \<Rightarrow> nat \<Rightarrow> u8 option list \<Rightarrow> nat \<Rightarrow> (bool \<times> wmString) option" where
  "wmString_write_ptr can s off src n =
    Option.bind (ensure can s (off + n)) (\<lambda>(ok, s).
    if \<not> ok then Some (False, s)
    else
      Option.bind (memcpy_from src 0 n) (\<lambda>bs.
      Option.bind (memcpy_to (sbuf s) off bs) (\<lambda>buf.
      if slen s < off + n
      then map_option (\<lambda>buf. (True, s\<lparr>slen := off + n, sbuf := buf\<rparr>)) (memcpy_to buf (off + n) [Some 0])
      else Some (True, s\<lparr>sbuf := buf\<rparr>))))"

definition wmString_write :: "(nat \<Rightarrow> bool) \<Rightarrow> wmString \<Rightarrow> nat \<Rightarrow> wmString \<Rightarrow> (bool \<times> wmString) option" where
  "wmString_write can s off w = wmString_write_ptr can s off (sbuf w) (slen w)"

text \<open>\<open>wmString_alloc\<close>: the result is the position of the reserved bytes, \<open>None\<close> the null pointer.\<close>

definition wmString_alloc :: "(nat \<Rightarrow> bool) \<Rightarrow> wmString \<Rightarrow> nat \<Rightarrow> (nat option \<times> wmString) option" where
  "wmString_alloc can s n =
    (if ssize s < slen s + n
     then Option.bind (wmString_extend can s (ssize s + n)) (\<lambda>(ok, s).
            if \<not> ok then Some (None, s) else Some (Some (slen s), s\<lparr>slen := slen s + n\<rparr>))
     else Some (Some (slen s), s\<lparr>slen := slen s + n\<rparr>))"

text \<open>
  \<open>wmString_replace\<close>: \<open>d\<close> is the copy, \<open>n\<close> its length; the results of the appends are not looked at.
  With an empty pattern the loop does not advance.
\<close>

partial_function (option) replace_loop ::
    "(nat \<Rightarrow> bool) \<Rightarrow> u8 option list \<Rightarrow> nat \<Rightarrow> u8 list \<Rightarrow> u8 list \<Rightarrow> nat \<Rightarrow> wmString \<Rightarrow> wmString option" where
  "replace_loop can d n pat rep i s =
    (if i < n then
       if take (length pat) (drop i d) = map Some pat
       then Option.bind (wmString_append_ptr can s (map Some rep) (length rep))
              (\<lambda>(ok, s). replace_loop can d n pat rep (i + length pat) s)
       else Option.bind (wmString_append_ptr can s (drop i d) 1)
              (\<lambda>(ok, s). replace_loop can d n pat rep (i + 1) s)
     else Some s)"

definition wmString_replace :: "(nat \<Rightarrow> bool) \<Rightarrow> wmString \<Rightarrow> u8 list \<Rightarrow> u8 list \<Rightarrow> wmString option" where
  "wmString_replace can s pat rep =
    Option.bind (wmString_dup2 can s) (\<lambda>dst.
    case dst of
      None \<Rightarrow> None
    | Some dst \<Rightarrow> replace_loop can (sbuf dst) (slen dst) pat rep 0 (s\<lparr>slen := 0\<rparr>))"

section \<open>UTF-8\<close>

text \<open>
  \<open>wmString_utf8_decode\<close> reads through a plain \<open>char\<close> pointer, signed here, so a byte from 0x80 on
  becomes a number near \<open>2 ^ 32\<close>. The result is the decoded value and what is left to read.
\<close>

fun utf8_tail :: "nat \<Rightarrow> u32 \<Rightarrow> u8 list \<Rightarrow> (u32 option \<times> u8 list) option" where
  "utf8_tail 0 u p = Some (Some u, p)"
| "utf8_tail (Suc k) u [] = None"
| "utf8_tail (Suc k) u (c # p) =
    (let i = scast c :: u32 in
     if i < 0x80 then Some (None, p) else utf8_tail k (push_bit 6 u OR (i AND 0x3f)) p)"

definition wmString_utf8_decode :: "u8 list \<Rightarrow> nat \<Rightarrow> (u32 \<times> u8 list) option" where
  "wmString_utf8_decode p n =
    (case p of
       [] \<Rightarrow> None
     | c # q \<Rightarrow>
        (let u = scast c :: u32;
             start = (if 0xf0 \<le> u then Some (u AND 0x07, 0xffff, 3)
                      else if 0xe0 \<le> u then Some (u AND 0x0f, 0x7ff, 2)
                      else if 0xc2 \<le> u then Some (u AND 0x1f, 0x7f, 1)
                      else None) in
         case start of
           None \<Rightarrow> Some (0xffffffff, q)
         | Some (u, valid, len) \<Rightarrow>
             if 0 < n \<and> n - 1 < len then Some (0xfffffffe, p)
             else Option.bind (utf8_tail len u q) (\<lambda>(r, q).
               case r of
                 None \<Rightarrow> Some (0xffffffff, q)
               | Some u \<Rightarrow> Some (if valid < u then u else 0xffffffff, q))))"

partial_function (option) utf8_count :: "u8 list \<Rightarrow> nat \<Rightarrow> nat \<Rightarrow> nat option" where
  "utf8_count p n len =
    (case p of
       [] \<Rightarrow> Some len
     | c # q \<Rightarrow>
         if sint c < 0x80 then utf8_count q n (len + 1)
         else Option.bind (wmString_utf8_decode p n) (\<lambda>(u, q).
                if 0x10ffff < u then Some n else utf8_count q n (len + 1)))"

definition wmString_utf8_length :: "u8 list \<Rightarrow> nat option" where
  "wmString_utf8_length p = utf8_count p (length p) 0"

text \<open>
  \<open>wmString_utf8_length\<close> counts bytes, not characters, for every input: a signed \<open>char\<close> is
  always below 0x80, so the decoder is never called.
\<close>

theorem utf8_length_bytes: "wmString_utf8_length p = Some (length p)"
proof -
  have "utf8_count p n len = Some (len + length p)" for n len
  proof (induction p arbitrary: len)
    case Nil
    then show ?case by (subst utf8_count.simps) simp
  next
    case (Cons c p)
    have "sint c < 0x80" using sint_less [of c] by simp
    then show ?case using Cons by (subst utf8_count.simps) simp
  qed
  then show ?thesis by (simp add: wmString_utf8_length_def)
qed

section \<open>Well-formed strings and their contents\<close>

definition wf_string :: "wmString \<Rightarrow> bool" where
  "wf_string s \<longleftrightarrow> length (sbuf s) = ssize s + 1 \<and> slen s \<le> ssize s \<and>
     (\<exists>bs rest. sbuf s = map Some bs @ Some 0 # rest \<and> length bs = slen s)"

definition contents :: "wmString \<Rightarrow> u8 list" where
  "contents s = map the (take (slen s) (sbuf s))"

lemma wf_contents:
  assumes "wf_string s"
  shows "\<exists>rest. sbuf s = map Some (contents s) @ Some 0 # rest" "length (contents s) = slen s"
    "length (sbuf s) = ssize s + 1" "slen s \<le> ssize s"
  using assms by (auto simp: wf_string_def contents_def o_def)

lemma wf_stringI:
  assumes "sbuf s = map Some bs @ Some 0 # rest" "length (sbuf s) = ssize s + 1" "slen s = length bs"
  shows "wf_string s" "contents s = bs"
proof -
  have "slen s \<le> ssize s" using arg_cong [OF assms(1), of length] assms(2,3) by simp
  then show "wf_string s" using assms by (auto simp: wf_string_def)
  show "contents s = bs" using assms by (simp add: contents_def o_def)
qed

lemma string_new_ok: "can 32 \<Longrightarrow> can (n + 1) \<Longrightarrow> \<exists>s. wmString_new can n = Some s \<and> wf_string s \<and> contents s = [] \<and> ssize s = n"
  by (auto simp: wmString_new_def intro: wf_stringI [where bs = "[]"])

lemma dup_ok:
  assumes "\<And>k. can k" "n \<le> length src"
  shows "\<exists>s. wmString_dup can src n = Some (Some s) \<and> wf_string s \<and> contents s = take n src \<and> ssize s = n \<and> soff s = 0"
proof -
  define s where "s = \<lparr>slen = n, ssize = n, soff = 0, sbuf = map Some (take n src) @ [Some 0]\<rparr>"
  have "wmString_dup can src n = Some (Some s)"
    using assms by (simp add: wmString_dup_def wmString_new_def memcpy_from_def memcpy_to_def take_map s_def)
  then show ?thesis using wf_stringI [of s "take n src" "[]"] assms(2) by (simp add: s_def)
qed

lemma dup2_ok:
  assumes "\<And>k. can k" "wf_string s"
  shows "\<exists>d rest. wmString_dup2 can s = Some (Some d) \<and> slen d = slen s \<and> ssize d = ssize s \<and> soff d = soff s \<and>
    sbuf d = map Some (contents s) @ Some 0 # rest \<and> length (sbuf d) = ssize s + 1"
proof -
  obtain rest where b: "sbuf s = map Some (contents s) @ Some 0 # rest" "length (contents s) = slen s"
      "length (sbuf s) = ssize s + 1" "slen s \<le> ssize s"
    using wf_contents [OF assms(2)] by blast
  then have "take (slen s + 1) (sbuf s) = map Some (contents s) @ [Some 0]" by simp
  moreover have "length (take (slen s + 1) (sbuf s)) = slen s + 1" using b(3,4) by simp
  ultimately show ?thesis
    using assms(1) b by (simp add: wmString_dup2_def wmString_new_def memcpy_from_def memcpy_to_def)
qed

text \<open>Strings whose terminator may be missing, as between the appends of \<open>wmString_replace\<close>.\<close>

definition wf_bytes :: "wmString \<Rightarrow> bool" where
  "wf_bytes s \<longleftrightarrow> length (sbuf s) = ssize s + 1 \<and> slen s \<le> ssize s \<and>
     (\<exists>rest. sbuf s = map Some (contents s) @ rest) \<and> length (contents s) = slen s"

lemma wf_string_bytes: "wf_string s \<Longrightarrow> wf_bytes s"
  using wf_contents [of s] unfolding wf_bytes_def by blast

text \<open>Making room keeps the contents; when the allocator fails, the string is as before.\<close>

lemma ensure_ok:
  assumes "wf_bytes s" "\<And>k. can k"
  shows "\<exists>s' rest. ensure can s n = Some (True, s') \<and> sbuf s' = map Some (contents s) @ rest \<and> slen s' = slen s \<and>
    soff s' = soff s \<and> length (sbuf s') = ssize s' + 1 \<and> n \<le> ssize s' \<and> ssize s' = (if ssize s < n then n * 2 else ssize s)"
  using assms by (auto simp: wf_bytes_def ensure_def wmString_extend_def)

lemma ensure_fail: "ssize s < n \<Longrightarrow> \<not> can (n * 2 + 1) \<Longrightarrow> ensure can s n = Some (False, s)"
  by (simp add: ensure_def wmString_extend_def)

lemma append_ptr_ok:
  assumes "wf_bytes s" "\<And>k. can k" "src = map Some bs @ rest" "n = length bs"
  shows "\<exists>s'. wmString_append_ptr can s src n = Some (True, s') \<and> wf_string s' \<and> contents s' = contents s @ bs \<and>
    soff s' = soff s \<and> ssize s' = (if ssize s < slen s + n then (slen s + n) * 2 else ssize s)"
proof -
  obtain s1 r where s1: "ensure can s (slen s + n) = Some (True, s1)" "sbuf s1 = map Some (contents s) @ r"
      "slen s1 = slen s" "soff s1 = soff s" "length (sbuf s1) = ssize s1 + 1" "slen s + n \<le> ssize s1"
      "ssize s1 = (if ssize s < slen s + n then (slen s + n) * 2 else ssize s)"
    using ensure_ok [of s can, OF assms(1,2)] by blast
  have lc: "length (contents s) = slen s" using assms(1) by (simp add: wf_bytes_def)
  define tl1 where "tl1 = drop (slen s + n) (sbuf s1)"
  have ne: "tl1 \<noteq> []" using s1(5,6) by (simp add: tl1_def)
  then obtain x t where t: "tl1 = x # t" by (cases tl1) auto
  define s' where "s' = s1\<lparr>slen := slen s + n, sbuf := map Some (contents s @ bs) @ Some 0 # t\<rparr>"
  have m1: "memcpy_from src 0 n = Some (map Some bs)" using assms(3,4) by (simp add: memcpy_from_def)
  have m2: "memcpy_to (sbuf s1) (slen s1) (map Some bs) = Some (map Some (contents s @ bs) @ tl1)"
    using s1(2,3,5,6) lc assms(4) by (simp add: memcpy_to_def tl1_def)
  have m3: "memcpy_to (map Some (contents s @ bs) @ tl1) (slen s1 + n) [Some 0] = Some (map Some (contents s @ bs) @ Some 0 # t)"
    using lc s1(3) assms(4) by (simp add: memcpy_to_def t)
  have "wmString_append_ptr can s src n = Some (True, s')"
    using s1(1,3) m1 m2 m3 by (simp add: wmString_append_ptr_def s'_def)
  moreover have "length (sbuf s') = ssize s' + 1"
  proof -
    have "length tl1 = ssize s1 + 1 - (slen s + n)" using s1(5) by (simp add: tl1_def)
    then show ?thesis using t lc assms(4) s1(6) by (simp add: s'_def)
  qed
  ultimately show ?thesis
    using wf_stringI [of s' "contents s @ bs" t] lc assms(4) s1(4,7) by (simp add: s'_def)
qed

text \<open>
  Appending a string appends its bytes and grows the buffer to twice the new length when it does not
  fit; when the allocation fails the result is false and the string is unchanged.
\<close>

lemma append_string_ok:
  assumes "wf_string s" "wf_string a"
  shows "\<exists>s'. wmString_append (\<lambda>_. True) s a = Some (True, s') \<and> wf_string s' \<and> contents s' = contents s @ contents a \<and>
    ssize s' = (if ssize s < slen s + slen a then (slen s + slen a) * 2 else ssize s)"
proof -
  obtain r where "sbuf a = map Some (contents a) @ Some 0 # r" "slen a = length (contents a)"
    using wf_contents [OF assms(2)] by metis
  then show ?thesis
    unfolding wmString_append_def using append_ptr_ok [OF wf_string_bytes [OF assms(1)], of "\<lambda>_. True"] by blast
qed

lemma append_string_fail:
  "ssize s < slen s + slen a \<Longrightarrow> wmString_append (\<lambda>_. False) s a = Some (False, s)"
  by (simp add: wmString_append_def wmString_append_ptr_def ensure_fail)

text \<open>
  \<open>wmString_append_int\<close> appends the decimal text of any \<open>int\<close>: it has at most ten digits, so it fits
  the 16 bytes.
\<close>

theorem string_append_int:
  assumes "wf_string s"
  shows "\<exists>s'. wmString_append_int (\<lambda>_. True) s v = Some (True, s') \<and> wf_string s' \<and> contents s' = contents s @ dec_int (sint v)"
proof -
  have b: "- (2 ^ 31) \<le> sint v" "sint v < 2 ^ 31" using sint_greater_eq [of v] sint_less [of v] by simp_all
  have sv: "sint (scast v :: u64) = sint v"
    using b by (simp add: signed_scast_eq signed_take_bit_int_eq_self)
  have "nat \<bar>sint v\<bar> < 10 ^ 10" using b by (simp add: nat_less_iff)
  then have l: "length (dec_nat (nat \<bar>sint (scast v :: u64)\<bar>)) + 2 \<le> length (replicate 16 (0 :: u8))"
    using dec_nat_bound [of "nat \<bar>sint v\<bar>" 10] sv by simp
  obtain buf where buf: "wm_itoa (replicate 16 0) (scast v) = Some (length (dec_int (sint v)), buf)"
      "take (length (dec_int (sint v))) buf = dec_int (sint v)"
    using itoa_ok [OF l] sv by auto
  have "map Some buf = map Some (dec_int (sint v)) @ map Some (drop (length (dec_int (sint v))) buf)"
    by (metis append_take_drop_id buf(2) map_append)
  then show ?thesis
    using append_ptr_ok [OF wf_string_bytes [OF assms], of "\<lambda>_. True" "map Some buf" "dec_int (sint v)"] buf(1)
    by (simp add: wmString_append_int_def) blast
qed

section \<open>Replacing\<close>

text \<open>The reference: from left to right, each occurrence that is met.\<close>

function replace_spec :: "u8 list \<Rightarrow> u8 list \<Rightarrow> u8 list \<Rightarrow> u8 list" where
  "replace_spec pat rep [] = []"
| "replace_spec pat rep (x # xs) =
    (if pat \<noteq> [] \<and> take (length pat) (x # xs) = pat
     then rep @ replace_spec pat rep (drop (length pat) (x # xs))
     else x # replace_spec pat rep xs)"
  by pat_completeness auto
termination
  by (relation "measure (\<lambda>(p, r, xs). length xs)") (auto simp: Suc_le_eq)

lemma match_iff:
  assumes "(0 :: u8) \<notin> set pat"
  shows "take (length pat) (map Some ys @ Some 0 # rest) = map Some pat \<longleftrightarrow> take (length pat) ys = pat"
  using assms
proof (induction pat arbitrary: ys)
  case (Cons p pat)
  then show ?case by (cases ys) auto
qed simp

lemma replace_loop_ok:
  assumes "d = map Some xs @ Some 0 # rest" "pat \<noteq> []" "0 \<notin> set pat" "i \<le> length xs" "wf_bytes s"
  shows "\<exists>s'. replace_loop (\<lambda>_. True) d (length xs) pat rep i s = Some s' \<and> (i < length xs \<or> wf_string s \<longrightarrow> wf_string s') \<and>
    contents s' = contents s @ replace_spec pat rep (drop i xs)"
  using assms(4,5)
proof (induction "length xs - i" arbitrary: i s rule: less_induct)
  case less
  show ?case
  proof (cases "i < length xs")
    case False
    then show ?thesis by (subst replace_loop.simps) auto
  next
    case True
    then obtain y ys where y: "drop i xs = y # ys" "drop (Suc i) xs = ys"
      by (metis Cons_nth_drop_Suc)
    have dd: "drop i d = map Some (drop i xs) @ Some 0 # rest" using assms(1) True by (simp add: drop_map)
    have m: "take (length pat) (drop i d) = map Some pat \<longleftrightarrow> take (length pat) (drop i xs) = pat"
      unfolding dd by (rule match_iff [OF assms(3)])
    show ?thesis
    proof (cases "take (length pat) (drop i xs) = pat")
      case hit: True
      obtain s1 where s1: "wmString_append_ptr (\<lambda>_. True) s (map Some rep) (length rep) = Some (True, s1)" "wf_string s1"
          "contents s1 = contents s @ rep"
        using append_ptr_ok [OF less.prems(2), of "\<lambda>_. True" "map Some rep" rep "[]"] by auto
      have "length pat \<le> length (drop i xs)" using hit by (metis length_take min.cobounded1 min.commute)
      then have le: "i + length pat \<le> length xs" using True by simp
      have "length xs - (i + length pat) < length xs - i" using assms(2) True by (cases pat) auto
      then obtain s' where "replace_loop (\<lambda>_. True) d (length xs) pat rep (i + length pat) s1 = Some s'" "wf_string s'"
          "contents s' = contents s1 @ replace_spec pat rep (drop (i + length pat) xs)"
        using less.hyps [OF _ le wf_string_bytes [OF s1(2)]] s1(2) by blast
      moreover have "replace_spec pat rep (drop i xs) = rep @ replace_spec pat rep (drop (i + length pat) xs)"
      proof -
        have "drop (length pat) (drop i xs) = drop (i + length pat) xs" by (simp add: add.commute)
        then show ?thesis using hit assms(2) y(1) by simp
      qed
      ultimately show ?thesis using True m hit s1 by (subst replace_loop.simps) simp
    next
      case miss: False
      obtain s1 where s1: "wmString_append_ptr (\<lambda>_. True) s (drop i d) 1 = Some (True, s1)" "wf_string s1"
          "contents s1 = contents s @ [y]"
        using append_ptr_ok [OF less.prems(2), of "\<lambda>_. True" "drop i d" "[y]" "map Some ys @ Some 0 # rest"] dd y by auto
      have "length xs - (i + 1) < length xs - i" "i + 1 \<le> length xs" using True by auto
      then obtain s' where "replace_loop (\<lambda>_. True) d (length xs) pat rep (i + 1) s1 = Some s'" "wf_string s'"
          "contents s' = contents s1 @ replace_spec pat rep (drop (i + 1) xs)"
        using less.hyps [OF _ _ wf_string_bytes [OF s1(2)]] s1(2) by blast
      moreover have "replace_spec pat rep (drop i xs) = y # replace_spec pat rep (drop (i + 1) xs)"
        using miss y by simp
      ultimately show ?thesis using True m miss s1 by (subst replace_loop.simps) simp
    qed
  qed
qed

lemma replace_ok:
  assumes "wf_string s" "pat \<noteq> []" "0 \<notin> set pat"
  shows "\<exists>s'. wmString_replace (\<lambda>_. True) s pat rep = Some s' \<and> wf_string s' \<and>
    contents s' = replace_spec pat rep (contents s)"
proof -
  obtain d rest where d: "wmString_dup2 (\<lambda>_. True) s = Some (Some d)" "slen d = slen s"
      "sbuf d = map Some (contents s) @ Some 0 # rest"
    using dup2_ok [of "\<lambda>_. True", OF _ assms(1)] by blast
  have w: "length (contents s) = slen s" "length (sbuf s) = ssize s + 1" using wf_contents [OF assms(1)] by auto
  let ?s = "s\<lparr>slen := 0\<rparr>"
  have b: "wf_bytes ?s" "contents ?s = []" using w(2) by (simp_all add: wf_bytes_def contents_def)
  obtain s' where s': "replace_loop (\<lambda>_. True) (sbuf d) (length (contents s)) pat rep 0 ?s = Some s'"
      "0 < length (contents s) \<or> wf_string ?s \<longrightarrow> wf_string s'" "contents s' = replace_spec pat rep (contents s)"
    using replace_loop_ok [OF d(3) assms(2,3) _ b(1), of 0] b(2) by auto
  have "wf_string s'"
  proof (cases "contents s")
    case Nil
    then have "?s = s" using w(1) by simp
    then show ?thesis using s'(2) assms(1) by simp
  next
    case (Cons a as)
    then show ?thesis using s'(2) by simp
  qed
  then show ?thesis using d s' w(1) by (auto simp: wmString_replace_def)
qed

text \<open>
  \<open>wmString_replace\<close> returns for every non-empty pattern, and the contents become those of the
  reference: each occurrence met from left to right is replaced, the other bytes are kept.
\<close>

theorem string_replace:
  assumes "wf_string s" "pat \<noteq> []" "0 \<notin> set pat"
  shows "\<exists>s'. wmString_replace (\<lambda>_. True) s pat rep = Some s' \<and> wf_string s' \<and>
    contents s' = replace_spec pat rep (contents s)"
  by (rule replace_ok [OF assms])

section \<open>Any use of a string\<close>

text \<open>Writing at an offset within the contents.\<close>

lemma write_ptr_ok:
  assumes wf: "wf_string s" and off: "off \<le> slen s" and src: "src = map Some bs @ rest" "n = length bs"
  shows "\<exists>s'. wmString_write_ptr (\<lambda>_. True) s off src n = Some (True, s') \<and> wf_string s' \<and>
    contents s' = take off (contents s) @ bs @ drop (off + n) (contents s)"
proof -
  define c where "c = contents s"
  obtain r0 where r0: "sbuf s = map Some c @ Some 0 # r0" "length c = slen s" "length (sbuf s) = ssize s + 1" "slen s \<le> ssize s"
    using wf_contents [OF wf] unfolding c_def by blast
  obtain s1 r where s1: "ensure (\<lambda>_. True) s (off + n) = Some (True, s1)" "sbuf s1 = map Some c @ Some 0 # r" "slen s1 = slen s"
      "length (sbuf s1) = ssize s1 + 1" "off + n \<le> ssize s1" "ssize s \<le> ssize s1"
  proof (cases "ssize s < off + n")
    case True
    have "ensure (\<lambda>_. True) s (off + n) = Some (True, s\<lparr>sbuf := sbuf s @ replicate ((off + n) * 2 - ssize s) None, ssize := (off + n) * 2\<rparr>)"
      using True by (simp add: ensure_def wmString_extend_def)
    then show ?thesis using that r0 True by simp
  next
    case False
    then show ?thesis using that r0 by (simp add: ensure_def)
  qed
  have m1: "memcpy_from src 0 n = Some (map Some bs)" using src by (simp add: memcpy_from_def)
  define buf where "buf = take off (sbuf s1) @ map Some bs @ drop (off + n) (sbuf s1)"
  have m2: "memcpy_to (sbuf s1) off (map Some bs) = Some buf" using s1(4,5) src(2) by (simp add: memcpy_to_def buf_def)
  have lb: "length buf = ssize s1 + 1" using s1(4,5) src(2) by (simp add: buf_def)
  have tk: "take off (sbuf s1) = map Some (take off c)" using s1(2) off r0(2) by (simp add: take_map)
  show ?thesis
  proof (cases "slen s < off + n")
    case True
    have "off + n < length buf" using lb s1(5) by simp
    then obtain t where t: "buf = map Some (take off c @ bs) @ t" "t \<noteq> []"
      using tk src(2) off r0(2) s1(4,5) by (simp add: buf_def)
    then obtain x u where u: "t = x # u" by (cases t) auto
    define s' where "s' = s1\<lparr>slen := off + n, sbuf := map Some (take off c @ bs) @ Some 0 # u\<rparr>"
    have "memcpy_to buf (off + n) [Some 0] = Some (sbuf s')"
      using t u src(2) off r0(2) by (simp add: memcpy_to_def s'_def)
    then have "wmString_write_ptr (\<lambda>_. True) s off src n = Some (True, s')"
      using s1(1,3) m1 m2 True by (simp add: wmString_write_ptr_def s'_def)
    moreover have "length (sbuf s') = ssize s' + 1" using lb t u by (simp add: s'_def)
    moreover have "drop (off + n) c = []" using True r0(2) by simp
    ultimately show ?thesis
      using wf_stringI [of s' "take off c @ bs" u] src(2) off r0(2) unfolding c_def [symmetric] by (simp add: s'_def)
  next
    case False
    define s' where "s' = s1\<lparr>sbuf := buf\<rparr>"
    have "drop (off + n) (sbuf s1) = map Some (drop (off + n) c) @ Some 0 # r" using s1(2) False r0(2) by (simp add: drop_map)
    then have "buf = map Some (take off c @ bs @ drop (off + n) c) @ Some 0 # r" using tk by (simp add: buf_def)
    moreover have "wmString_write_ptr (\<lambda>_. True) s off src n = Some (True, s')"
      using s1(1,3) m1 m2 False by (simp add: wmString_write_ptr_def s'_def)
    moreover have "slen s1 = length (take off c @ bs @ drop (off + n) c)" using s1(3) False off src(2) r0(2) by simp
    ultimately show ?thesis
      using wf_stringI [of s' "take off c @ bs @ drop (off + n) c" r] lb unfolding c_def [symmetric] by (simp add: s'_def)
  qed
qed

datatype str_op = SAppend wmString | SAppend_int u32 | SWrite nat wmString | SReplace "u8 list" "u8 list"

fun str_do :: "str_op \<Rightarrow> wmString \<Rightarrow> wmString option" where
  "str_do (SAppend a) s = map_option snd (wmString_append (\<lambda>_. True) s a)"
| "str_do (SAppend_int v) s = map_option snd (wmString_append_int (\<lambda>_. True) s v)"
| "str_do (SWrite off a) s = map_option snd (wmString_write (\<lambda>_. True) s off a)"
| "str_do (SReplace pat rep) s = wmString_replace (\<lambda>_. True) s pat rep"

text \<open>The arguments an operation needs, and what it does to the contents.\<close>

fun str_arg_ok :: "str_op \<Rightarrow> u8 list \<Rightarrow> bool" where
  "str_arg_ok (SAppend a) c = wf_string a"
| "str_arg_ok (SAppend_int v) c = True"
| "str_arg_ok (SWrite off a) c = (wf_string a \<and> off \<le> length c)"
| "str_arg_ok (SReplace pat rep) c = (pat \<noteq> [] \<and> 0 \<notin> set pat)"

fun str_spec :: "str_op \<Rightarrow> u8 list \<Rightarrow> u8 list" where
  "str_spec (SAppend a) c = c @ contents a"
| "str_spec (SAppend_int v) c = c @ dec_int (sint v)"
| "str_spec (SWrite off a) c = take off c @ contents a @ drop (off + slen a) c"
| "str_spec (SReplace pat rep) c = replace_spec pat rep c"

fun str_run :: "str_op list \<Rightarrow> wmString \<Rightarrow> wmString option" where
  "str_run [] s = Some s"
| "str_run (x # xs) s = Option.bind (str_do x s) (str_run xs)"

fun str_args_ok :: "str_op list \<Rightarrow> u8 list \<Rightarrow> bool" where
  "str_args_ok [] c = True"
| "str_args_ok (x # xs) c = (str_arg_ok x c \<and> str_args_ok xs (str_spec x c))"

lemma str_step:
  assumes "wf_string s" "str_arg_ok x (contents s)"
  shows "\<exists>s'. str_do x s = Some s' \<and> wf_string s' \<and> contents s' = str_spec x (contents s)"
proof (cases x)
  case (SAppend a)
  then show ?thesis using append_string_ok [OF assms(1)] assms(2) by fastforce
next
  case (SAppend_int v)
  then show ?thesis using string_append_int [OF assms(1), of v] by fastforce
next
  case (SWrite off a)
  then obtain r where "sbuf a = map Some (contents a) @ r" "slen a = length (contents a)" "off \<le> slen s"
    using wf_contents [of a] wf_contents(2) [OF assms(1)] assms(2) by auto
  then show ?thesis using write_ptr_ok [OF assms(1), of off "sbuf a" "contents a" r "slen a"] SWrite
    by (auto simp: wmString_write_def)
next
  case (SReplace pat rep)
  then show ?thesis using replace_ok [OF assms(1)] assms(2) by simp
qed

text \<open>
  C37: every use of a string. Whatever sequence of appends, numbers, writes within the contents and
  replacements, on whatever well-formed string, each call is defined; the buffer stays as long as its
  size says, terminated behind the contents; and the contents are those of the list operations.
\<close>

theorem string_run:
  assumes "wf_string s" "str_args_ok xs (contents s)"
  shows "\<exists>s'. str_run xs s = Some s' \<and> wf_string s' \<and> contents s' = fold str_spec xs (contents s)"
  using assms
proof (induction xs arbitrary: s)
  case (Cons x xs)
  obtain s1 where s1: "str_do x s = Some s1" "wf_string s1" "contents s1 = str_spec x (contents s)"
    using str_step [OF Cons.prems(1)] Cons.prems(2) by auto
  then show ?case using Cons.IH [OF s1(2)] Cons.prems(2) by simp
qed simp

definition hello :: wmString where
  "hello = the (the (wmString_dup (\<lambda>_. True) [104, 105, 60, 110, 62] 5))"

lemma hello_ok: "wf_string hello" "contents hello = [104, 105, 60, 110, 62]" "ssize hello = 5" "slen hello = 5"
proof -
  obtain s where s: "wmString_dup (\<lambda>_. True) [104, 105, 60, 110, 62] 5 = Some (Some s)" "wf_string s"
      "contents s = take 5 [104, 105, 60, 110, 62]" "ssize s = 5"
    using dup_ok [of "\<lambda>_. True" 5 "[104, 105, 60, 110, 62]"] by auto
  then have "hello = s" by (simp add: hello_def)
  then show "wf_string hello" "contents hello = [104, 105, 60, 110, 62]" "ssize hello = 5" "slen hello = 5"
    using s wf_contents(2) [OF s(2)] by simp_all
qed

theorem string_run_witness:
  "\<exists>s'. str_run [SAppend hello, SReplace [60, 110, 62] [33], SWrite 1 hello, SAppend_int (- 7)] hello = Some s' \<and>
     contents s' = [104, 104, 105, 60, 110, 62, 45, 55] \<and> wf_string s'"
  using string_run [OF hello_ok(1), of "[SAppend hello, SReplace [60, 110, 62] [33], SWrite 1 hello, SAppend_int (- 7)]"] hello_ok
  by (auto simp: dec_int_def dec_nat.simps simp del: str_run.simps)

theorem string_append_int_witness:
  "\<exists>s'. wmString_append_int (\<lambda>_. True) hello (- 7) = Some (True, s') \<and>
     contents s' = [104, 105, 60, 110, 62, 45, 55]"
  using string_append_int [OF hello_ok(1), of "- 7"] by (auto simp: hello_ok dec_int_def dec_nat.simps)

theorem string_replace_witness:
  "\<exists>s'. wmString_replace (\<lambda>_. True) hello [60, 110, 62] [33] = Some s' \<and> contents s' = [104, 105, 33]"
  using string_replace [OF hello_ok(1), of "[60, 110, 62]" "[33]"] by (auto simp: hello_ok)

end
