(* ===== verification/Wm_Loop.thy ===== *)
theory Wm_Loop
  imports Wm_Coroutine Wm_String
begin

text \<open>
  The socket structure of \<open>include/wm_socket.h\<close> and the event loop of \<open>src/worker/loop.c\<close> over
  epoll: registering the events a socket waits for, and what the loop does with one ready event.
  The kernel is the environment: every system call is recorded in \<open>calls\<close> and its answer is taken
  from \<open>env\<close> (\<open>Ret (- e)\<close> is the result -1 with the error \<open>e\<close>). The model holds one socket; the
  loop handles the sockets one by one. \<open>None\<close> is undefined behaviour or \<open>exit\<close>, or that the answers of the
  environment do not go on.
\<close>

section \<open>State\<close>

definition WM_EVENT_NULL :: u32 where "WM_EVENT_NULL = 0"
definition WM_EVENT_READ :: u32 where "WM_EVENT_READ = push_bit 9 1"
definition WM_EVENT_WRITE :: u32 where "WM_EVENT_WRITE = push_bit 10 1"
definition WM_EVENT_EPOLLEXCLUSIVE :: u32 where "WM_EVENT_EPOLLEXCLUSIVE = push_bit 11 1"

text \<open>The constants of the Linux kernel interface.\<close>

definition EPOLLIN :: u32 where "EPOLLIN = 1"
definition EPOLLOUT :: u32 where "EPOLLOUT = 4"
definition EPOLLEXCLUSIVE :: u32 where "EPOLLEXCLUSIVE = push_bit 28 1"

datatype transport = WM_SOCK_TCP | WM_SOCK_UDP
datatype loop_type = WM_LOOP_AUTO | WM_LOOP_SEMI_AUTO

record wmSocket =
  write_buffer :: "wmString option"
  maxSendBufferSize :: int
  events :: u32
  closed :: bool
  removed :: bool
  errCode :: int
  read_co :: "task_ref option"
  write_co :: "task_ref option"
  sk_loop :: loop_type
  sk_transport :: transport
  onBufferWillFull :: bool
  shutdown_read :: bool
  shutdown_write :: bool
  read_timer :: "nat option"
  write_timer :: "nat option"

datatype ctl_op = CTL_ADD | CTL_MOD | CTL_DEL

datatype syscall =
    Epoll_create
  | Epoll_ctl ctl_op u32
  | Send "u8 option list"
  | Recv nat
  | Accept
  | Connect
  | Getsockopt
  | Close
  | Socket transport
  | Bind "u8 list" int
  | Listen int
  | Setsockopt string
  | Sendto "u8 list"
  | Getname bool
  | Fstat
  | Fdopen

text \<open>
  The answers: the result of a call, the bytes a \<open>recv\<close> delivers, and the state of the socket when a
  coroutine that had yielded or resumed another one goes on (other coroutines may have changed it).
  \<open>Woke c t\<close> is the case of a wait in which the others have closed the socket (\<open>c\<close>), or the timer of
  the wait has fired (\<open>t\<close>), or neither.
\<close>

datatype answer = Ret int | Bytes "u8 list" | Woke bool bool | Ran wmSocket

record net =
  sk :: wmSocket
  errno :: int
  poll :: bool
  me :: "task_ref option"
  armed :: "nat \<rightharpoonup> u32"
  next_timer :: nat
  calls :: "syscall list"
  env :: "answer list"
  resumed :: "task_ref list"
  full_calls :: nat

text \<open>A system call: its answer, and \<open>errno\<close> when it fails.\<close>

definition sys :: "syscall \<Rightarrow> net \<Rightarrow> (int \<times> net) option" where
  "sys c n =
    (case env n of
       Ret r # as \<Rightarrow>
         Some (if r < 0 then (- 1, n\<lparr>calls := calls n @ [c], env := as, errno := - r\<rparr>)
               else (r, n\<lparr>calls := calls n @ [c], env := as\<rparr>))
     | _ \<Rightarrow> None)"

definition upd_sk :: "(wmSocket \<Rightarrow> wmSocket) \<Rightarrow> net \<Rightarrow> net" where
  "upd_sk f n = n\<lparr>sk := f (sk n)\<rparr>"

section \<open>Registering events\<close>

definition event_decode :: "u32 \<Rightarrow> u32" where
  "event_decode ev =
    (let flag = 0;
         flag = (if ev AND WM_EVENT_READ \<noteq> 0 then flag OR EPOLLIN else flag);
         flag = (if ev AND WM_EVENT_WRITE \<noteq> 0 then flag OR EPOLLOUT else flag) in
     if ev AND WM_EVENT_EPOLLEXCLUSIVE \<noteq> 0 then flag OR EPOLLEXCLUSIVE else flag)"

text \<open>
  \<open>init_wmPoll\<close> and \<open>loop_init\<close> (the table of handlers it fills is \<open>loop_handler\<close> below). The callers
  go on to use the poll structure whatever the result: with none, that is a null pointer.
\<close>

definition init_wmPoll :: "net \<Rightarrow> (int \<times> net) option" where
  "init_wmPoll n =
    (if \<not> poll n
     then map_option (\<lambda>(r, n). if r < 0 then (- 1, n) else (0, n\<lparr>poll := True\<rparr>)) (sys Epoll_create n)
     else Some (0, n))"

definition loop_init :: "net \<Rightarrow> (int \<times> net) option" where
  "loop_init n = (if \<not> poll n then init_wmPoll n else Some (0, n))"

definition wmWorkerLoop_add :: "net \<Rightarrow> u32 \<Rightarrow> (bool \<times> net) option" where
  "wmWorkerLoop_add n ev =
    (if events (sk n) AND ev \<noteq> 0 then Some (True, n)
     else
       let LOOP_TYPE = (if events (sk n) = WM_EVENT_NULL then CTL_ADD else CTL_MOD);
           n = upd_sk (\<lambda>s. s\<lparr>events := events s OR ev\<rparr>) n in
       Option.bind (loop_init n) (\<lambda>(_, n).
       if \<not> poll n then None
       else map_option (\<lambda>(r, n). (0 \<le> r, n)) (sys (Epoll_ctl LOOP_TYPE (event_decode (events (sk n)))) n)))"

definition wmWorkerLoop_del :: "net \<Rightarrow> (bool \<times> net) option" where
  "wmWorkerLoop_del n =
    (if events (sk n) \<noteq> WM_EVENT_NULL then
       let n = upd_sk (\<lambda>s. s\<lparr>events := WM_EVENT_NULL\<rparr>) n in
       if \<not> poll n then None
       else map_option (\<lambda>(r, n). (0 \<le> r, n)) (sys (Epoll_ctl CTL_DEL 0) n)
     else Some (True, n))"

definition wmWorkerLoop_remove :: "net \<Rightarrow> u32 \<Rightarrow> (bool \<times> net) option" where
  "wmWorkerLoop_remove n ev =
    (if events (sk n) = WM_EVENT_NULL then Some (True, n)
     else if events (sk n) AND ev = 0 then Some (True, n)
     else
       let old = events (sk n) AND NOT ev;
           n = upd_sk (\<lambda>s. s\<lparr>events := old\<rparr>) n in
       if old = WM_EVENT_NULL then wmWorkerLoop_del n
       else if \<not> poll n then None
       else map_option (\<lambda>(r, n). (0 \<le> r, n)) (sys (Epoll_ctl CTL_MOD (event_decode old)) n))"

section \<open>Closing a socket\<close>

text \<open>Resuming another coroutine: the environment says what the socket is when control comes back.\<close>

definition resume_other :: "task_ref \<Rightarrow> net \<Rightarrow> net option" where
  "resume_other r n =
    (case env n of
       Ran s # as \<Rightarrow> Some (n\<lparr>resumed := resumed n @ [r], env := as, sk := s\<rparr>)
     | _ \<Rightarrow> None)"

text \<open>
  \<open>wmSocket_close\<close> of \<open>src/coroutine/socket.c\<close>: it clears the events before it calls \<open>wmWorkerLoop_del\<close>,
  which therefore does nothing.
\<close>

definition wmSocket_close :: "net \<Rightarrow> (int \<times> net) option" where
  "wmSocket_close n =
    (let n = upd_sk (\<lambda>s. s\<lparr>closed := True\<rparr>) n in
     Option.bind
       (if events (sk n) \<noteq> WM_EVENT_NULL then
          Option.bind (wmWorkerLoop_del (upd_sk (\<lambda>s. s\<lparr>events := WM_EVENT_NULL\<rparr>) n)) (\<lambda>(_, n).
          Option.bind (case read_co (sk n) of None \<Rightarrow> Some n | Some r \<Rightarrow> resume_other r n) (\<lambda>n.
          case write_co (sk n) of None \<Rightarrow> Some n | Some r \<Rightarrow> resume_other r n))
        else Some n) (\<lambda>n.
     if \<not> removed (sk n) \<and> sk_transport (sk n) = WM_SOCK_TCP then
       map_option (\<lambda>(r, n). (r, upd_sk (\<lambda>s. s\<lparr>removed := True\<rparr>) n)) (sys Close (upd_sk (\<lambda>s. s\<lparr>closed := True\<rparr>) n))
     else Some (0, n)))"

section \<open>The handlers\<close>

datatype handler = Coroutine_resume | Coroutine_resume_and_del

text \<open>\<open>wmWorkerLoop_get_handler\<close>, after \<open>loop_init\<close> has filled the tables.\<close>

definition loop_handler :: "u32 \<Rightarrow> loop_type \<Rightarrow> handler option" where
  "loop_handler ev lt =
    (if ev = EPOLLIN \<or> ev = EPOLLOUT
     then Some (case lt of WM_LOOP_SEMI_AUTO \<Rightarrow> Coroutine_resume | WM_LOOP_AUTO \<Rightarrow> Coroutine_resume_and_del)
     else None)"

definition loop_callback_coroutine_resume :: "net \<Rightarrow> u32 \<Rightarrow> (bool \<times> net) option" where
  "loop_callback_coroutine_resume n ev =
    (case (ev = EPOLLIN, read_co (sk n), ev = EPOLLOUT, write_co (sk n)) of
       (True, Some r, _, _) \<Rightarrow> map_option (Pair True) (resume_other r n)
     | (_, _, True, Some r) \<Rightarrow> map_option (Pair True) (resume_other r n)
     | _ \<Rightarrow> map_option (\<lambda>(_, n). (False, n)) (wmSocket_close n))"

definition loop_callback_coroutine_resume_and_del :: "net \<Rightarrow> u32 \<Rightarrow> (bool \<times> net) option" where
  "loop_callback_coroutine_resume_and_del n ev =
    Option.bind (wmWorkerLoop_del n) (\<lambda>(_, n). loop_callback_coroutine_resume n ev)"

definition run_handler :: "net \<Rightarrow> u32 \<Rightarrow> net option" where
  "run_handler n ev =
    (case loop_handler ev (sk_loop (sk n)) of
       None \<Rightarrow> Some n
     | Some Coroutine_resume \<Rightarrow> map_option snd (loop_callback_coroutine_resume n ev)
     | Some Coroutine_resume_and_del \<Rightarrow> map_option snd (loop_callback_coroutine_resume_and_del n ev))"

text \<open>One ready event of \<open>wmWorkerLoop_loop\<close>: first the read part, then the write part.\<close>

definition loop_event :: "net \<Rightarrow> u32 \<Rightarrow> net option" where
  "loop_event n evs =
    Option.bind (if evs AND EPOLLIN \<noteq> 0 then run_handler n EPOLLIN else Some n) (\<lambda>n.
    if evs AND EPOLLOUT \<noteq> 0 then run_handler n EPOLLOUT else Some n)"

section \<open>What the kernel watches\<close>

text \<open>
  The registration in the kernel after the calls made: \<open>None\<close> when the descriptor is not registered.
  This is the documented effect of \<open>epoll_ctl\<close>, for calls that succeed.
\<close>

fun watch :: "u32 option \<Rightarrow> syscall \<Rightarrow> u32 option" where
  "watch w (Epoll_ctl CTL_ADD ev) = Some ev"
| "watch w (Epoll_ctl CTL_MOD ev) = Some ev"
| "watch w (Epoll_ctl CTL_DEL ev) = None"
| "watch w c = w"

definition watched :: "net \<Rightarrow> u32 option" where
  "watched n = fold (\<lambda>c w. watch w c) (calls n) None"

text \<open>The calls \<open>epoll_ctl\<close> accepts: adding what is not registered, changing what is.\<close>

fun ctl_valid :: "u32 option \<Rightarrow> syscall list \<Rightarrow> bool" where
  "ctl_valid w [] = True"
| "ctl_valid w (c # cs) =
    ((case c of Epoll_ctl CTL_ADD _ \<Rightarrow> w = None | Epoll_ctl _ _ \<Rightarrow> w \<noteq> None | _ \<Rightarrow> True) \<and> ctl_valid (watch w c) cs)"

definition in_sync :: "net \<Rightarrow> bool" where
  "in_sync n \<longleftrightarrow> ctl_valid None (calls n) \<and> (\<not> poll n \<longrightarrow> events (sk n) = 0) \<and>
     watched n = (if events (sk n) = WM_EVENT_NULL then None else Some (event_decode (events (sk n))))"

lemma ctl_valid_app: "ctl_valid w (cs @ ds) \<longleftrightarrow> ctl_valid w cs \<and> ctl_valid (fold (\<lambda>c w. watch w c) cs w) ds"
  by (induction cs arbitrary: w) auto

lemma watched_app: "fold (\<lambda>c w. watch w c) (cs @ [c]) w = watch (fold (\<lambda>c w. watch w c) cs w) c"
  by simp

lemma sys_ok:
  assumes "env n = Ret r # as" "0 \<le> r"
  shows "sys c n = Some (r, n\<lparr>calls := calls n @ [c], env := as\<rparr>)"
  using assms by (simp add: sys_def)

lemma and_not_self: "(e AND NOT v) AND v = (0 :: u32)"
  by (simp add: and.assoc)

lemma or_and_self: "(e OR v) AND v = (v :: u32)"
  by (simp add: bit.conj_disj_distrib2 and.commute)

lemma watched_call: "watched (n\<lparr>calls := calls n @ [c], env := as\<rparr>) = watch (watched n) c"
  by (simp add: watched_def)

lemma valid_call: "ctl_valid None (calls n @ [c]) \<longleftrightarrow> ctl_valid None (calls n) \<and>
    (case c of Epoll_ctl CTL_ADD _ \<Rightarrow> watched n = None | Epoll_ctl _ _ \<Rightarrow> watched n \<noteq> None | _ \<Rightarrow> True)"
  by (simp add: ctl_valid_app watched_def split: syscall.split ctl_op.split)

lemma in_syncD:
  assumes "in_sync n"
  shows "ctl_valid None (calls n)" "\<not> poll n \<Longrightarrow> events (sk n) = 0"
    "watched n = (if events (sk n) = WM_EVENT_NULL then None else Some (event_decode (events (sk n))))"
  using assms by (auto simp: in_sync_def)

lemma in_syncI:
  assumes "ctl_valid None (calls n)" "poll n"
    "watched n = (if events (sk n) = WM_EVENT_NULL then None else Some (event_decode (events (sk n))))"
  shows "in_sync n"
  using assms by (simp add: in_sync_def)

lemma loop_init_ok:
  assumes "in_sync n" "env n = Ret 0 # as"
  shows "\<exists>cs. loop_init n = Some (0, n\<lparr>poll := True, calls := calls n @ cs, env := (if poll n then Ret 0 # as else as)\<rparr>) \<and>
    cs = (if poll n then [] else [Epoll_create])"
proof (cases "poll n")
  case True
  then have "n\<lparr>poll := True, calls := calls n @ [], env := Ret 0 # as\<rparr> = n" using assms(2) by simp
  then show ?thesis using True by (simp add: loop_init_def)
next
  case False
  then show ?thesis using sys_ok [of n 0 as Epoll_create] assms(2) by (simp add: loop_init_def init_wmPoll_def)
qed

lemma add_ok:
  assumes "in_sync n" "env n = Ret 0 # Ret 0 # as" "events (sk n) AND ev = 0" "ev \<noteq> 0"
  shows "\<exists>n'. wmWorkerLoop_add n ev = Some (True, n') \<and> in_sync n' \<and>
    n' = n\<lparr>sk := (sk n)\<lparr>events := events (sk n) OR ev\<rparr>, poll := True, calls := calls n', env := env n'\<rparr>"
proof -
  let ?op = "if events (sk n) = WM_EVENT_NULL then CTL_ADD else CTL_MOD"
  let ?m = "upd_sk (\<lambda>s. s\<lparr>events := events s OR ev\<rparr>) n"
  let ?cs = "if poll n then [] else [Epoll_create]"
  let ?as = "if poll n then Ret 0 # as else as"
  define n' where "n' = ?m\<lparr>poll := True, calls := calls n @ ?cs @ [Epoll_ctl ?op (event_decode (events (sk n) OR ev))],
      env := tl (if poll n then Ret 0 # Ret 0 # as else Ret 0 # as)\<rparr>"
  have i: "loop_init ?m = Some (0, ?m\<lparr>poll := True, calls := calls n @ ?cs, env := (if poll n then Ret 0 # Ret 0 # as else Ret 0 # as)\<rparr>)"
  proof (cases "poll n")
    case True
    then show ?thesis using assms(2) by (simp add: loop_init_def upd_sk_def)
  next
    case False
    then show ?thesis using sys_ok [of ?m 0 "Ret 0 # as" Epoll_create] assms(2) by (simp add: loop_init_def init_wmPoll_def upd_sk_def)
  qed
  have e: "events (sk n) OR ev \<noteq> 0" using assms(4) by (simp add: or_eq_0_iff)
  have a: "wmWorkerLoop_add n ev = Some (True, n')"
    using assms(3) i by (cases "poll n") (simp_all add: wmWorkerLoop_add_def Let_def sys_def upd_sk_def n'_def)
  have w0: "fold (\<lambda>c w. watch w c) (calls n @ ?cs) None = watched n" by (simp add: watched_def)
  have "in_sync n'"
  proof (rule in_syncI)
    have v: "ctl_valid None (calls n @ ?cs)" using in_syncD(1) [OF assms(1)] by (simp add: ctl_valid_app)
    show "ctl_valid None (calls n')"
      using v w0 in_syncD(3) [OF assms(1)] by (simp add: n'_def ctl_valid_app watched_def WM_EVENT_NULL_def)
    show "poll n'" by (simp add: n'_def)
    show "watched n' = (if events (sk n') = WM_EVENT_NULL then None else Some (event_decode (events (sk n'))))"
      using e by (simp add: n'_def watched_def upd_sk_def WM_EVENT_NULL_def)
  qed
  moreover have "n' = n\<lparr>sk := (sk n)\<lparr>events := events (sk n) OR ev\<rparr>, poll := True, calls := calls n', env := env n'\<rparr>"
    by (simp add: n'_def upd_sk_def)
  ultimately show ?thesis using a by blast
qed

lemma del_sync:
  assumes "in_sync n" "env n = Ret 0 # as"
  shows "\<exists>n'. wmWorkerLoop_del n = Some (True, n') \<and> in_sync n' \<and> events (sk n') = 0"
proof (cases "events (sk n) = WM_EVENT_NULL")
  case True
  then show ?thesis using assms(1) by (simp add: wmWorkerLoop_del_def WM_EVENT_NULL_def)
next
  case False
  then have p: "poll n" using in_syncD(2) [OF assms(1)] by (auto simp: WM_EVENT_NULL_def)
  let ?n = "n\<lparr>sk := (sk n)\<lparr>events := WM_EVENT_NULL\<rparr>, calls := calls n @ [Epoll_ctl CTL_DEL 0], env := as\<rparr>"
  have "wmWorkerLoop_del n = Some (True, ?n)"
    using False p assms(2) by (simp add: wmWorkerLoop_del_def Let_def sys_def upd_sk_def)
  moreover have "in_sync ?n"
    using in_syncD(1,3) [OF assms(1)] False p by (intro in_syncI) (simp_all add: valid_call watched_def)
  ultimately show ?thesis by (simp add: WM_EVENT_NULL_def)
qed

text \<open>Removing some of the events modifies the registration; removing the last makes no call.\<close>

lemma remove_ok:
  assumes "in_sync n" "env n = Ret 0 # as"
  shows "\<exists>n'. wmWorkerLoop_remove n ev = Some (True, n') \<and> events (sk n') = events (sk n) AND NOT ev \<and>
    (if events (sk n) AND NOT ev = 0 \<and> events (sk n) \<noteq> 0
     then n' = upd_sk (\<lambda>s. s\<lparr>events := 0\<rparr>) n \<and> watched n' = Some (event_decode (events (sk n))) else in_sync n')"
proof -
  have split: "events (sk n) AND NOT ev = events (sk n)" if "events (sk n) AND ev = 0"
  proof -
    have "events (sk n) = (events (sk n) AND ev) OR (events (sk n) AND NOT ev)"
      by (simp add: bit.conj_disj_distrib [symmetric])
    then show ?thesis using that by simp
  qed
  consider (none) "events (sk n) = 0" | (other) "events (sk n) \<noteq> 0" "events (sk n) AND ev = 0"
    | (last) "events (sk n) \<noteq> 0" "events (sk n) AND ev \<noteq> 0" "events (sk n) AND NOT ev = 0"
    | (some) "events (sk n) AND ev \<noteq> 0" "events (sk n) AND NOT ev \<noteq> 0" by blast
  then show ?thesis
  proof cases
    case none
    then show ?thesis using assms(1) by (simp add: wmWorkerLoop_remove_def WM_EVENT_NULL_def)
  next
    case other
    then show ?thesis using assms(1) split by (simp add: wmWorkerLoop_remove_def WM_EVENT_NULL_def)
  next
    case last
    then show ?thesis using in_syncD(3) [OF assms(1)]
      by (simp add: wmWorkerLoop_remove_def wmWorkerLoop_del_def Let_def upd_sk_def WM_EVENT_NULL_def watched_def)
  next
    case some
    then have ne: "events (sk n) \<noteq> 0" by auto
    then have p: "poll n" using in_syncD(2) [OF assms(1)] by auto
    let ?old = "events (sk n) AND NOT ev"
    let ?n = "n\<lparr>sk := (sk n)\<lparr>events := ?old\<rparr>, calls := calls n @ [Epoll_ctl CTL_MOD (event_decode ?old)], env := as\<rparr>"
    have "wmWorkerLoop_remove n ev = Some (True, ?n)"
      using some ne p assms(2) by (simp add: wmWorkerLoop_remove_def Let_def sys_def upd_sk_def WM_EVENT_NULL_def)
    moreover have "in_sync ?n"
      using in_syncD(1,3) [OF assms(1)] some ne p by (intro in_syncI) (simp_all add: valid_call watched_def WM_EVENT_NULL_def)
    ultimately show ?thesis using some by simp
  qed
qed

text \<open>
  C11: adding, deleting and removing events keeps the interest registered in the kernel equal to the
  events of the socket, with valid epoll calls only, as long as some event is left: the descriptor is
  added with the first event, modified with the next ones and with removals, deleted by
  \<open>wmWorkerLoop_del\<close>. Removing the last event, however, makes no call: the registration stays.
\<close>

theorem loop_registration:
  assumes "in_sync n" "env n = Ret 0 # Ret 0 # rest" "ev \<noteq> 0"
  shows "(\<exists>n'. wmWorkerLoop_add n ev = Some (True, n') \<and> in_sync n' \<and>
      events (sk n') = (if events (sk n) AND ev = 0 then events (sk n) OR ev else events (sk n))) \<and>
    (\<exists>n'. wmWorkerLoop_del n = Some (True, n') \<and> in_sync n' \<and> events (sk n') = 0) \<and>
    (\<exists>n'. wmWorkerLoop_remove n ev = Some (True, n') \<and> events (sk n') = events (sk n) AND NOT ev \<and>
      (if events (sk n) AND NOT ev = 0 \<and> events (sk n) \<noteq> 0
       then calls n' = calls n \<and> watched n' = Some (event_decode (events (sk n))) else in_sync n'))"
proof (intro conjI)
  show "\<exists>n'. wmWorkerLoop_add n ev = Some (True, n') \<and> in_sync n' \<and>
      events (sk n') = (if events (sk n) AND ev = 0 then events (sk n) OR ev else events (sk n))"
  proof (cases "events (sk n) AND ev = 0")
    case True
    obtain n' where n': "wmWorkerLoop_add n ev = Some (True, n')" "in_sync n'"
        "n' = n\<lparr>sk := (sk n)\<lparr>events := events (sk n) OR ev\<rparr>, poll := True, calls := calls n', env := env n'\<rparr>"
      using add_ok [OF assms(1,2) True assms(3)] by blast
    have "events (sk n') = events (sk n) OR ev" by (subst n'(3)) simp
    then show ?thesis using n'(1,2) True by simp
  next
    case False
    then show ?thesis using assms(1) by (simp add: wmWorkerLoop_add_def)
  qed
  show "\<exists>n'. wmWorkerLoop_del n = Some (True, n') \<and> in_sync n' \<and> events (sk n') = 0"
    by (rule del_sync [OF assms(1,2)])
  show "\<exists>n'. wmWorkerLoop_remove n ev = Some (True, n') \<and> events (sk n') = events (sk n) AND NOT ev \<and>
      (if events (sk n) AND NOT ev = 0 \<and> events (sk n) \<noteq> 0
       then calls n' = calls n \<and> watched n' = Some (event_decode (events (sk n))) else in_sync n')"
    using remove_ok [OF assms(1,2), of ev] by (auto simp: upd_sk_def split: if_splits)
qed

text \<open>
  C12: what the missing call leads to. When the last event of a socket is removed, as \<open>wmSocket_send\<close>
  does when it has sent everything, the descriptor stays registered. Waiting for an event again then
  asks the kernel to add it a second time, which is not a valid call; and the next event the stale
  registration reports, with nobody waiting for it, makes the loop close the socket.
\<close>

theorem loop_stale_registration:
  assumes "in_sync n" "events (sk n) = WM_EVENT_WRITE" "write_co (sk n) = None" "env n = Ret r # rest"
  shows "\<exists>n1. wmWorkerLoop_remove n WM_EVENT_WRITE = Some (True, n1) \<and> calls n1 = calls n \<and>
    (\<exists>n2. wmWorkerLoop_add n1 WM_EVENT_WRITE = Some (0 \<le> r, n2) \<and> \<not> ctl_valid None (calls n2)) \<and>
    (\<exists>n3. loop_event n1 EPOLLOUT = Some n3 \<and> closed (sk n3))"
proof -
  let ?n1 = "upd_sk (\<lambda>s. s\<lparr>events := 0\<rparr>) n"
  have w: "WM_EVENT_WRITE \<noteq> (0 :: u32)" by (simp add: WM_EVENT_WRITE_def)
  have p: "poll n" using in_syncD(2) [OF assms(1)] assms(2) w by auto
  have rm: "wmWorkerLoop_remove n WM_EVENT_WRITE = Some (True, ?n1)"
    using assms(2) w by (simp add: wmWorkerLoop_remove_def wmWorkerLoop_del_def Let_def upd_sk_def WM_EVENT_NULL_def)
  obtain e n2 where n2: "sys (Epoll_ctl CTL_ADD (event_decode WM_EVENT_WRITE)) (upd_sk (\<lambda>s. s\<lparr>events := WM_EVENT_WRITE\<rparr>) ?n1) = Some (e, n2)"
      "e = (if r < 0 then - 1 else r)" "calls n2 = calls n @ [Epoll_ctl CTL_ADD (event_decode WM_EVENT_WRITE)]"
    using assms(4) by (cases "r < 0") (auto simp: sys_def upd_sk_def)
  have ad: "wmWorkerLoop_add ?n1 WM_EVENT_WRITE = Some (0 \<le> r, n2)"
    using n2(1,2) p by (auto simp: wmWorkerLoop_add_def loop_init_def Let_def upd_sk_def WM_EVENT_NULL_def)
  have "watched n \<noteq> None" using in_syncD(3) [OF assms(1)] assms(2) w by (simp add: WM_EVENT_NULL_def)
  then have nv: "\<not> ctl_valid None (calls n2)" by (simp add: n2(3) valid_call)
  have "\<exists>r n3. wmSocket_close ?n1 = Some (r, n3) \<and> closed (sk n3)"
    using assms(4) by (auto simp: wmSocket_close_def Let_def upd_sk_def WM_EVENT_NULL_def sys_def)
  then obtain r3 n3 where n3: "wmSocket_close ?n1 = Some (r3, n3)" "closed (sk n3)" by blast
  have cb: "loop_callback_coroutine_resume ?n1 EPOLLOUT = Some (False, n3)"
    using n3(1) assms(3) by (simp add: loop_callback_coroutine_resume_def upd_sk_def EPOLLIN_def EPOLLOUT_def)
  have dl: "wmWorkerLoop_del ?n1 = Some (True, ?n1)" by (simp add: wmWorkerLoop_del_def upd_sk_def WM_EVENT_NULL_def)
  have "loop_event ?n1 EPOLLOUT = Some n3"
    using cb dl
    by (cases "sk_loop (sk ?n1)") (simp_all add: loop_event_def run_handler_def loop_handler_def
        loop_callback_coroutine_resume_and_del_def EPOLLIN_def EPOLLOUT_def)
  then show ?thesis using rm ad nv n3(2) by (auto simp: upd_sk_def)
qed

section \<open>A socket, for the witnesses\<close>

definition wait_socket :: wmSocket where
  "wait_socket = \<lparr>write_buffer = None, maxSendBufferSize = 102400, events = WM_EVENT_WRITE, closed = False, removed = False,
     errCode = 0, read_co = None, write_co = None, sk_loop = WM_LOOP_SEMI_AUTO, sk_transport = WM_SOCK_TCP, onBufferWillFull = True,
     shutdown_read = False, shutdown_write = False, read_timer = None, write_timer = None\<rparr>"

definition wait_net :: net where
  "wait_net = \<lparr>sk = wait_socket, errno = 0, poll = True, me = Some (Task 0), armed = Map.empty, next_timer = 0,
     calls = [Epoll_create, Epoll_ctl CTL_ADD EPOLLOUT], env = [Ret 0, Ret 0], resumed = [], full_calls = 0\<rparr>"

lemma wait_net_sync: "in_sync wait_net"
  by (simp add: in_sync_def wait_net_def wait_socket_def watched_def event_decode_def WM_EVENT_NULL_def WM_EVENT_WRITE_def
      WM_EVENT_READ_def WM_EVENT_EPOLLEXCLUSIVE_def EPOLLOUT_def)

theorem loop_registration_witness:
  "in_sync wait_net \<and> (\<exists>n'. wmWorkerLoop_add wait_net WM_EVENT_READ = Some (True, n') \<and> in_sync n') \<and>
     (\<exists>n'. wmWorkerLoop_del wait_net = Some (True, n') \<and> events (sk n') = 0)"
proof -
  have "env wait_net = Ret 0 # Ret 0 # []" "WM_EVENT_READ \<noteq> 0" by (simp_all add: wait_net_def WM_EVENT_READ_def)
  from loop_registration [OF wait_net_sync this] show ?thesis using wait_net_sync by blast
qed

theorem loop_stale_registration_witness:
  "\<exists>n1 n3. wmWorkerLoop_remove wait_net WM_EVENT_WRITE = Some (True, n1) \<and> loop_event n1 EPOLLOUT = Some n3 \<and> closed (sk n3)"
proof -
  have e: "events (sk wait_net) = WM_EVENT_WRITE" "write_co (sk wait_net) = None" "env wait_net = Ret 0 # [Ret 0]"
    by (simp_all add: wait_net_def wait_socket_def)
  show ?thesis using loop_stale_registration [OF wait_net_sync e] by blast
qed

end
