(* ===== verification/Wm_Socket.thy ===== *)
theory Wm_Socket
  imports Wm_Loop
begin

text \<open>
  The coroutine sockets of \<open>src/coroutine/socket.c\<close>, over the system calls \<open>src/core/socket.c\<close> wraps:
  reading, sending, connecting, accepting with a timeout, in coroutines that yield until the event
  loop resumes them. One socket and its coroutine; what the others do while it waits comes from the
  environment (\<open>Wm_Loop\<close>). The timers are nodes of the timer wheel: \<open>armed\<close> is the set of nodes the
  wheel holds, with their ticks, which is what the operations of the wheel guarantee
  (\<open>add_quick_ok\<close> and \<open>del_ok\<close> of \<open>Wm_Timer_Ops\<close>); deleting a node it does not hold is undefined.
\<close>

section \<open>Constants\<close>

definition EINTR :: int where "EINTR = 4"
definition EBADF :: int where "EBADF = 9"
definition EAGAIN :: int where "EAGAIN = 11"
definition EFAULT :: int where "EFAULT = 14"
definition EPIPE :: int where "EPIPE = 32"
definition ENETDOWN :: int where "ENETDOWN = 100"
definition ENETUNREACH :: int where "ENETUNREACH = 101"
definition ECONNRESET :: int where "ECONNRESET = 104"
definition ENOTCONN :: int where "ENOTCONN = 107"
definition ETIMEDOUT :: int where "ETIMEDOUT = 110"
definition ECONNREFUSED :: int where "ECONNREFUSED = 111"
definition EHOSTDOWN :: int where "EHOSTDOWN = 112"
definition EHOSTUNREACH :: int where "EHOSTUNREACH = 113"
definition EINPROGRESS :: int where "EINPROGRESS = 115"

definition WM_SOCKET_SUCCESS :: int where "WM_SOCKET_SUCCESS = 0"
definition WM_SOCKET_CLOSE :: int where "WM_SOCKET_CLOSE = - 1"
definition WM_SOCKET_ERROR :: int where "WM_SOCKET_ERROR = - 2"
definition WM_ERROR_SESSION_CLOSED_BY_CLIENT :: int where "WM_ERROR_SESSION_CLOSED_BY_CLIENT = 1002"
definition WM_ERROR_SESSION_CLOSED :: int where "WM_ERROR_SESSION_CLOSED = 1003"
definition WM_ERROR_SEND_BUFFER_FULL :: int where "WM_ERROR_SEND_BUFFER_FULL = 1005"
definition WM_BUFFER_SIZE_DEFAULT :: nat where "WM_BUFFER_SIZE_DEFAULT = 512"

lemmas errno_defs = EINTR_def EBADF_def EAGAIN_def EFAULT_def EPIPE_def ENETDOWN_def ENETUNREACH_def ECONNRESET_def
  ENOTCONN_def ETIMEDOUT_def ECONNREFUSED_def EHOSTDOWN_def EHOSTUNREACH_def EINPROGRESS_def

section \<open>Helpers\<close>

definition set_err :: "int \<Rightarrow> net \<Rightarrow> net" where
  "set_err e n = upd_sk (\<lambda>s. s\<lparr>errCode := e\<rparr>) (n\<lparr>errno := e\<rparr>)"

definition get_bound_co :: "wmSocket \<Rightarrow> u32 \<Rightarrow> task_ref option" where
  "get_bound_co s ev =
    (if ev AND WM_EVENT_READ \<noteq> 0 \<and> read_co s \<noteq> None then read_co s
     else if ev AND WM_EVENT_WRITE \<noteq> 0 \<and> write_co s \<noteq> None then write_co s
     else None)"

text \<open>A socket that a coroutine waits for already ends the process.\<close>

definition is_available :: "u32 \<Rightarrow> net \<Rightarrow> (bool \<times> net) option" where
  "is_available ev n =
    (if ev \<noteq> WM_EVENT_NULL \<and> get_bound_co (sk n) ev \<noteq> None then None
     else if closed (sk n) then Some (False, set_err ECONNRESET n)
     else Some (True, n))"

definition check_error :: "int \<Rightarrow> int option" where
  "check_error err =
    (if err = EFAULT then None
     else if err \<in> {EBADF, ECONNRESET, EPIPE, ENOTCONN, ETIMEDOUT, ECONNREFUSED, ENETDOWN, ENETUNREACH, EHOSTDOWN, EHOSTUNREACH}
     then Some WM_SOCKET_CLOSE
     else if err = EAGAIN \<or> err = 0 then Some WM_SOCKET_SUCCESS
     else Some WM_SOCKET_ERROR)"

definition sock_timer_add :: "u32 \<Rightarrow> u32 \<Rightarrow> net \<Rightarrow> net option" where
  "sock_timer_add ev ticks n =
    (let t = next_timer n;
         arm = n\<lparr>next_timer := t + 1, armed := (armed n)(t \<mapsto> ticks)\<rparr> in
     if ev = WM_EVENT_READ then
       Some (if read_timer (sk n) \<noteq> None then n else upd_sk (\<lambda>s. s\<lparr>read_timer := Some t\<rparr>) arm)
     else if ev = WM_EVENT_WRITE then
       Some (if write_timer (sk n) \<noteq> None then n else upd_sk (\<lambda>s. s\<lparr>write_timer := Some t\<rparr>) arm)
     else None)"

definition disarm :: "nat \<Rightarrow> net \<Rightarrow> net option" where
  "disarm t n = (if armed n t = None then None else Some (n\<lparr>armed := (armed n)(t := None)\<rparr>))"

definition sock_timer_del :: "u32 \<Rightarrow> net \<Rightarrow> net option" where
  "sock_timer_del ev n =
    (if ev = WM_EVENT_READ then
       (case read_timer (sk n) of
          None \<Rightarrow> Some n
        | Some t \<Rightarrow> map_option (upd_sk (\<lambda>s. s\<lparr>read_timer := None\<rparr>)) (disarm t n))
     else if ev AND WM_EVENT_WRITE \<noteq> 0 then
       (case write_timer (sk n) of
          None \<Rightarrow> Some n
        | Some t \<Rightarrow> map_option (upd_sk (\<lambda>s. s\<lparr>write_timer := None\<rparr>)) (disarm t n))
     else None)"

definition timer_used :: "u32 \<Rightarrow> net \<Rightarrow> (bool \<times> net) option" where
  "timer_used ev n =
    (if ev = WM_EVENT_READ then
       Some (if read_timer (sk n) = None then (True, n\<lparr>errno := ETIMEDOUT\<rparr>) else (False, n))
     else if ev AND WM_EVENT_WRITE \<noteq> 0 then
       Some (if write_timer (sk n) = None then (True, n\<lparr>errno := ETIMEDOUT\<rparr>) else (False, n))
     else None)"

text \<open>
  The callbacks of the timers, up to the resumption of the coroutine: the wheel has taken the node out
  and freed it.
\<close>

definition timer_read_fired :: "net \<Rightarrow> net" where
  "timer_read_fired n =
    (let n = (case read_timer (sk n) of None \<Rightarrow> n | Some t \<Rightarrow> n\<lparr>armed := (armed n)(t := None)\<rparr>) in
     upd_sk (\<lambda>s. s\<lparr>read_timer := None\<rparr>) (set_err ETIMEDOUT n))"

definition timer_write_fired :: "net \<Rightarrow> net" where
  "timer_write_fired n =
    (let n = (case write_timer (sk n) of None \<Rightarrow> n | Some t \<Rightarrow> n\<lparr>armed := (armed n)(t := None)\<rparr>) in
     upd_sk (\<lambda>s. s\<lparr>write_timer := None\<rparr>) n)"

text \<open>
  How a waiting coroutine comes to go on: another coroutine has closed the socket (\<open>wmSocket_close\<close>
  clears the events and resumes it), or its timer has fired, or the event loop has seen the event. In
  the last two cases the handler of the loop runs first, which for \<open>WM_LOOP_AUTO\<close> deletes the events.
  The model has nobody else using the other direction of the socket in the meantime.
\<close>

definition wake_up :: "u32 \<Rightarrow> bool \<Rightarrow> bool \<Rightarrow> net \<Rightarrow> net option" where
  "wake_up ev c t n =
    (if c then Some (upd_sk (\<lambda>s. s\<lparr>closed := True, events := WM_EVENT_NULL\<rparr>) n)
     else
       let n = (if t then (if ev = WM_EVENT_READ then timer_read_fired n else timer_write_fired n) else n) in
       case sk_loop (sk n) of
         WM_LOOP_SEMI_AUTO \<Rightarrow> Some n
       | WM_LOOP_AUTO \<Rightarrow> map_option snd (wmWorkerLoop_del n))"

definition bind_co :: "u32 \<Rightarrow> task_ref option \<Rightarrow> net \<Rightarrow> net" where
  "bind_co ev co n =
    (let n = (if ev AND WM_EVENT_READ \<noteq> 0 then upd_sk (\<lambda>s. s\<lparr>read_co := co\<rparr>) n else n) in
     if ev AND WM_EVENT_WRITE \<noteq> 0 then upd_sk (\<lambda>s. s\<lparr>write_co := co\<rparr>) n else n)"

text \<open>Waiting for an event: register it, note the coroutine, yield, and forget the coroutine.\<close>

definition event_wait :: "u32 \<Rightarrow> net \<Rightarrow> (bool \<times> net) option" where
  "event_wait ev n =
    Option.bind (if events (sk n) AND ev = 0 then wmWorkerLoop_add n ev else Some (True, n)) (\<lambda>(ok, n).
    if \<not> ok then Some (False, n)
    else
      case (me n, env n) of
        (Some _, Woke c t # as) \<Rightarrow>
          map_option (\<lambda>n. (True, bind_co ev None n)) (wake_up ev c t (bind_co ev (me n) (n\<lparr>env := as\<rparr>)))
      | _ \<Rightarrow> None)"

text \<open>A system call that is repeated while it is interrupted.\<close>

partial_function (option) retry :: "syscall \<Rightarrow> net \<Rightarrow> (int \<times> net) option" where
  "retry c n =
    Option.bind (sys c n) (\<lambda>(r, n). if r < 0 \<and> errno n = EINTR then retry c n else Some (r, n))"

text \<open>\<open>recv\<close>: the bytes it stores are the answer; no more than asked for.\<close>

definition sys_recv :: "nat \<Rightarrow> net \<Rightarrow> ((int \<times> u8 list) \<times> net) option" where
  "sys_recv len n =
    (case env n of
       Bytes bs # as \<Rightarrow> if length bs \<le> len then Some ((int (length bs), bs), n\<lparr>calls := calls n @ [Recv len], env := as\<rparr>) else None
     | _ \<Rightarrow> map_option (\<lambda>(r, n). ((r, []), n)) (sys (Recv len) n))"

partial_function (option) retry_recv :: "nat \<Rightarrow> net \<Rightarrow> ((int \<times> u8 list) \<times> net) option" where
  "retry_recv len n =
    Option.bind (sys_recv len n) (\<lambda>((r, bs), n). if r < 0 \<and> errno n = EINTR then retry_recv len n else Some ((r, bs), n))"

section \<open>Creating\<close>

text \<open>The wrappers of \<open>src/core/socket.c\<close> that do more than pass on a call.\<close>

definition wm_socket_bind :: "u8 list \<Rightarrow> int \<Rightarrow> net \<Rightarrow> (int \<times> net) option" where
  "wm_socket_bind host port n = map_option (\<lambda>(ret, n). (if ret < 0 then - 1 else ret, n)) (sys (Bind host port) n)"

definition wm_socket_listen :: "int \<Rightarrow> net \<Rightarrow> (int \<times> net) option" where
  "wm_socket_listen backlog n = sys (Listen backlog) n"

text \<open>A port out of range is refused without a call; \<open>errno\<close> is then whatever it was.\<close>

definition wm_socket_connect :: "int \<Rightarrow> net \<Rightarrow> (int \<times> net) option" where
  "wm_socket_connect port n =
    (if port \<le> 0 \<or> 65536 \<le> port then Some (- 1, n)
     else map_option (\<lambda>(ret, n). (if ret < 0 then - 1 else ret, n)) (sys Connect n))"

partial_function (option) retry_connect :: "int \<Rightarrow> net \<Rightarrow> (int \<times> net) option" where
  "retry_connect port n =
    Option.bind (wm_socket_connect port n) (\<lambda>(r, n). if r < 0 \<and> errno n = EINTR then retry_connect port n else Some (r, n))"

definition wmSocket_pack :: "transport \<Rightarrow> loop_type \<Rightarrow> wmSocket" where
  "wmSocket_pack tr lt =
    \<lparr>write_buffer = None, maxSendBufferSize = 0, events = WM_EVENT_NULL, closed = False, removed = False, errCode = 0,
     read_co = None, write_co = None, sk_loop = lt, sk_transport = tr, onBufferWillFull = False,
     shutdown_read = False, shutdown_write = False, read_timer = None, write_timer = None\<rparr>"

text \<open>\<open>wmSocket_create\<close>: the kernel gives a descriptor or the result is null.\<close>

definition wmSocket_create :: "transport \<Rightarrow> loop_type \<Rightarrow> net \<Rightarrow> (int option \<times> net) option" where
  "wmSocket_create tr lt n =
    map_option (\<lambda>(fd, n). if fd < 0 then (None, n) else (Some fd, n\<lparr>sk := wmSocket_pack tr lt\<rparr>)) (sys (Socket tr) n)"

section \<open>Reading\<close>

text \<open>The loop of \<open>wmSocket_read\<close>; the result is the code and the bytes in the buffer.\<close>

partial_function (option) read_loop :: "nat \<Rightarrow> u32 \<Rightarrow> net \<Rightarrow> ((int \<times> u8 list) \<times> net) option" where
  "read_loop len timeout n =
    (if closed (sk n) then
       map_option (\<lambda>n. ((WM_SOCKET_CLOSE, []), set_err WM_ERROR_SESSION_CLOSED n)) (sock_timer_del WM_EVENT_READ n)
     else
       Option.bind (retry_recv len n) (\<lambda>((ret, bs), n).
       if 0 < ret then map_option (Pair (ret, bs)) (sock_timer_del WM_EVENT_READ n)
       else if ret = 0 then
         map_option (Pair (WM_SOCKET_CLOSE, []))
           (sock_timer_del WM_EVENT_READ (set_err WM_ERROR_SESSION_CLOSED_BY_CLIENT (upd_sk (\<lambda>s. s\<lparr>closed := True\<rparr>) n)))
       else
         Option.bind (sock_timer_add WM_EVENT_READ timeout n) (\<lambda>n.
         Option.bind (if errno n = EAGAIN then event_wait WM_EVENT_READ n else Some (False, n)) (\<lambda>(w, n).
         Option.bind (if w then timer_used WM_EVENT_READ n else Some (True, n)) (\<lambda>(used, n).
         if \<not> used then read_loop len timeout n
         else map_option (Pair (WM_SOCKET_ERROR, [])) (sock_timer_del WM_EVENT_READ (set_err (errno n) n)))))))"

definition wmSocket_read :: "nat \<Rightarrow> u32 \<Rightarrow> net \<Rightarrow> ((int \<times> u8 list) \<times> net) option" where
  "wmSocket_read len timeout n =
    Option.bind (is_available WM_EVENT_READ n) (\<lambda>(ok, n).
    if \<not> ok then Some ((WM_SOCKET_CLOSE, []), n) else read_loop len timeout n)"

text \<open>The datagram variants: any result that is not negative is returned; a peek does not wait.\<close>

partial_function (option) recvfrom_loop :: "nat \<Rightarrow> u32 \<Rightarrow> net \<Rightarrow> ((int \<times> u8 list) \<times> net) option" where
  "recvfrom_loop len timeout n =
    (if closed (sk n) then
       map_option (Pair (WM_SOCKET_CLOSE, [])) (sock_timer_del WM_EVENT_READ (set_err WM_ERROR_SESSION_CLOSED n))
     else
       Option.bind (retry_recv len n) (\<lambda>((ret, bs), n).
       if 0 \<le> ret then map_option (Pair (ret, bs)) (sock_timer_del WM_EVENT_READ (set_err 0 n))
       else
         Option.bind (sock_timer_add WM_EVENT_READ timeout n) (\<lambda>n.
         Option.bind (if errno n = EAGAIN then event_wait WM_EVENT_READ n else Some (False, n)) (\<lambda>(w, n).
         Option.bind (if w then timer_used WM_EVENT_READ n else Some (True, n)) (\<lambda>(used, n).
         if \<not> used then recvfrom_loop len timeout n
         else map_option (Pair (WM_SOCKET_ERROR, [])) (sock_timer_del WM_EVENT_READ (set_err (errno n) n)))))))"

definition wmSocket_recvfrom :: "nat \<Rightarrow> u32 \<Rightarrow> net \<Rightarrow> ((int \<times> u8 list) \<times> net) option" where
  "wmSocket_recvfrom len timeout n =
    Option.bind (is_available WM_EVENT_READ n) (\<lambda>(ok, n).
    if \<not> ok then Some ((WM_SOCKET_CLOSE, []), n) else recvfrom_loop len timeout n)"

definition wmSocket_peek :: "nat \<Rightarrow> net \<Rightarrow> ((int \<times> u8 list) \<times> net) option" where
  "wmSocket_peek len n =
    map_option (\<lambda>((ret, bs), n). ((ret, bs), set_err (if ret < 0 then errno n else 0) n)) (retry_recv len n)"

section \<open>Sending\<close>

definition pending :: "wmString \<Rightarrow> nat" where
  "pending b = slen b - nat (soff b)"

text \<open>The comparison of \<open>bufferIsFull\<close> and \<open>checkBufferWillFull\<close> is between unsigned 64-bit values.\<close>

definition bufferIsFull :: "wmSocket \<Rightarrow> wmString \<Rightarrow> bool" where
  "bufferIsFull s b \<longleftrightarrow> (word_of_int (maxSendBufferSize s) :: u64) \<le> of_nat (slen b) - word_of_int (soff b)"

definition checkBufferWillFull :: "wmString \<Rightarrow> net \<Rightarrow> net" where
  "checkBufferWillFull b n =
    (if bufferIsFull (sk n) b \<and> onBufferWillFull (sk n) then n\<lparr>full_calls := full_calls n + 1\<rparr> else n)"

text \<open>The loop of \<open>wmSocket_send\<close>: send what is left of the buffer, wait, and go on.\<close>

partial_function (option) send_loop :: "int \<Rightarrow> net \<Rightarrow> (int \<times> net) option" where
  "send_loop ret_num n =
    (if closed (sk n) then
       map_option (\<lambda>(_, n). (WM_SOCKET_CLOSE, set_err WM_ERROR_SESSION_CLOSED n)) (wmWorkerLoop_remove n WM_EVENT_WRITE)
     else
       Option.bind (write_buffer (sk n)) (\<lambda>b.
       Option.bind (memcpy_from (sbuf b) (nat (soff b)) (pending b)) (\<lambda>bs.
       Option.bind (retry (Send bs) n) (\<lambda>(ret, n).
       Option.bind (if ret < 0 then check_error (errno n) else Some WM_SOCKET_SUCCESS) (\<lambda>e.
       if e = WM_SOCKET_CLOSE then Some (WM_SOCKET_CLOSE, upd_sk (\<lambda>s. s\<lparr>closed := True\<rparr>) (set_err (errno n) n))
       else
         let ret = (if ret < 0 then 0 else ret);
             b = b\<lparr>soff := soff b + ret\<rparr>;
             n = upd_sk (\<lambda>s. s\<lparr>write_buffer := Some b\<rparr>) n;
             ret_num = ret_num + ret in
         if soff b = int (slen b) then
           map_option (\<lambda>(_, n). (ret_num, upd_sk (\<lambda>s. s\<lparr>write_buffer := Some (b\<lparr>soff := 0, slen := 0\<rparr>)\<rparr>) n))
             (wmWorkerLoop_remove n WM_EVENT_WRITE)
         else Option.bind (event_wait WM_EVENT_WRITE n) (\<lambda>(_, n). send_loop ret_num n))))))"

definition wmSocket_send :: "(nat \<Rightarrow> bool) \<Rightarrow> u8 list \<Rightarrow> net \<Rightarrow> (int \<times> net) option" where
  "wmSocket_send can buf n =
    Option.bind (is_available WM_EVENT_WRITE n) (\<lambda>(ok, n).
    if \<not> ok then Some (WM_SOCKET_CLOSE, n)
    else
      Option.bind (case write_buffer (sk n) of None \<Rightarrow> wmString_new can WM_BUFFER_SIZE_DEFAULT | Some b \<Rightarrow> Some b) (\<lambda>b.
      let b = (if soff b = int (slen b) then b\<lparr>slen := 0, soff := 0\<rparr> else b);
          n = upd_sk (\<lambda>s. s\<lparr>write_buffer := Some b\<rparr>) n in
      if bufferIsFull (sk n) b then Some (WM_SOCKET_ERROR, set_err WM_ERROR_SEND_BUFFER_FULL n)
      else
        Option.bind (wmString_append_ptr can b (map Some buf) (length buf)) (\<lambda>(_, b).
        send_loop 0 (checkBufferWillFull b (upd_sk (\<lambda>s. s\<lparr>write_buffer := Some b\<rparr>) n)))))"

text \<open>\<open>wmSocket_write\<close>: every call of \<open>send\<close> starts at the beginning of the buffer.\<close>

partial_function (option) write_loop :: "u8 list \<Rightarrow> int \<Rightarrow> net \<Rightarrow> (int \<times> net) option" where
  "write_loop buf ret_num n =
    (if closed (sk n) then Some (WM_SOCKET_CLOSE, set_err WM_ERROR_SESSION_CLOSED n)
     else
       Option.bind (retry (Send (map Some (take (nat (int (length buf) - ret_num)) buf))) n) (\<lambda>(ret, n).
       Option.bind (if ret < 0 then check_error (errno n) else Some WM_SOCKET_SUCCESS) (\<lambda>e.
       if e = WM_SOCKET_CLOSE then Some (WM_SOCKET_CLOSE, upd_sk (\<lambda>s. s\<lparr>closed := True\<rparr>) (set_err (errno n) n))
       else
         let ret_num = ret_num + (if ret < 0 then 0 else ret) in
         if int (length buf) \<le> ret_num then
           map_option (\<lambda>(_, n). (ret_num, n)) (wmWorkerLoop_remove n WM_EVENT_WRITE)
         else Option.bind (event_wait WM_EVENT_WRITE n) (\<lambda>(_, n). write_loop buf ret_num n))))"

definition wmSocket_write :: "u8 list \<Rightarrow> net \<Rightarrow> (int \<times> net) option" where
  "wmSocket_write buf n =
    Option.bind (is_available WM_EVENT_WRITE n) (\<lambda>(ok, n).
    if \<not> ok then Some (WM_SOCKET_CLOSE, n) else write_loop buf 0 n)"

section \<open>Connecting and accepting\<close>

text \<open>
  \<open>wmSocket_connect\<close>. \<open>retval\<close> is what \<open>connect\<close> returned, also on success. The
  answer to \<open>getsockopt\<close> is the pending error.
\<close>

definition wmSocket_connect :: "int \<Rightarrow> u32 \<Rightarrow> net \<Rightarrow> (bool \<times> net) option" where
  "wmSocket_connect port timeout n =
    Option.bind (is_available WM_EVENT_WRITE n) (\<lambda>(ok1, n).
    Option.bind (if ok1 then is_available WM_EVENT_READ n else Some (False, n)) (\<lambda>(ok, n).
    if \<not> ok then Some (False, n)
    else if closed (sk n) then Some (False, set_err WM_ERROR_SESSION_CLOSED n)
    else
      Option.bind (retry_connect port n) (\<lambda>(retval, n).
      let finish = (\<lambda>n. map_option (Pair (retval \<noteq> 0)) (sock_timer_del WM_EVENT_WRITE (set_err 0 n))) in
      if retval < 0 then
        if errno n \<noteq> EINPROGRESS then Some (False, set_err (errno n) n)
        else
          Option.bind (sock_timer_add WM_EVENT_WRITE timeout n) (\<lambda>n.
          Option.bind (event_wait WM_EVENT_WRITE n) (\<lambda>(w, n).
          Option.bind (if w then timer_used WM_EVENT_WRITE n else Some (True, n)) (\<lambda>(used, n).
          if used then Some (False, set_err (errno n) n)
          else
            Option.bind (sys Getsockopt n) (\<lambda>(e, n).
            let n = (if e < 0 then n else upd_sk (\<lambda>s. s\<lparr>errCode := e\<rparr>) n) in
            if e < 0 \<or> errCode (sk n) \<noteq> 0
            then map_option (Pair False) (sock_timer_del WM_EVENT_WRITE (set_err (errCode (sk n)) n))
            else finish n))))
      else finish n)))"

text \<open>The loop of \<open>wmSocket_accept\<close>: the result is the descriptor of the new connection.\<close>

partial_function (option) accept_loop :: "u32 \<Rightarrow> net \<Rightarrow> (int option \<times> net) option" where
  "accept_loop timeout n =
    (if closed (sk n) then map_option (Pair None) (sock_timer_del WM_EVENT_READ (set_err WM_ERROR_SESSION_CLOSED n))
     else
       Option.bind (retry Accept n) (\<lambda>(connfd, n).
       if connfd < 0 then
         Option.bind (sock_timer_add WM_EVENT_READ timeout n) (\<lambda>n.
         Option.bind (if errno n = EAGAIN then event_wait WM_EVENT_READ n else Some (False, n)) (\<lambda>(w, n).
         Option.bind (if w then timer_used WM_EVENT_READ n else Some (True, n)) (\<lambda>(used, n).
         if \<not> used then accept_loop timeout n
         else map_option (Pair None) (sock_timer_del WM_EVENT_READ (set_err (errno n) n)))))
       else map_option (Pair (Some connfd)) (sock_timer_del WM_EVENT_READ (set_err 0 n))))"

definition wmSocket_accept :: "loop_type \<Rightarrow> u32 \<Rightarrow> net \<Rightarrow> ((int \<times> wmSocket) option \<times> net) option" where
  "wmSocket_accept lt timeout n =
    Option.bind (is_available WM_EVENT_READ n) (\<lambda>(ok, n).
    if \<not> ok then Some (None, n)
    else map_option (\<lambda>(fd, n). (map_option (\<lambda>fd. (fd, wmSocket_pack (sk_transport (sk n)) lt)) fd, n)) (accept_loop timeout n))"

section \<open>Shutting down and freeing\<close>

datatype how = SHUT_RD | SHUT_WR | SHUT_RDWR

text \<open>\<open>wmSocket_shutdown\<close>: \<open>set_err(socket, 0)\<close> clears \<open>errno\<close>, so the test of it never holds.\<close>

definition wmSocket_shutdown :: "how \<Rightarrow> net \<Rightarrow> bool \<times> net" where
  "wmSocket_shutdown h n =
    (let n = set_err 0 n; s = sk n in
     if closed s \<and> shutdown_read s \<and> shutdown_write s \<or> h = SHUT_RD \<and> shutdown_read s \<or> h = SHUT_WR \<and> shutdown_write s
     then (False, set_err ENOTCONN n)
     else
       let h = (if errno n = ENOTCONN then SHUT_RDWR else h) in
       (True, upd_sk (\<lambda>s. case h of SHUT_RD \<Rightarrow> s\<lparr>shutdown_read := True\<rparr>
                          | SHUT_WR \<Rightarrow> s\<lparr>shutdown_write := True\<rparr>
                          | SHUT_RDWR \<Rightarrow> s\<lparr>shutdown_read := True, shutdown_write := True\<rparr>) n))"

text \<open>\<open>wmSocket_free\<close>: what is left are the kernel and the wheel; the socket is gone.\<close>

definition wmSocket_free :: "net \<Rightarrow> net option" where
  "wmSocket_free n =
    Option.bind (wmSocket_close n) (\<lambda>(_, n).
    Option.bind (case read_timer (sk n) of None \<Rightarrow> Some n | Some t \<Rightarrow> disarm t n) (\<lambda>n.
    case write_timer (sk n) of None \<Rightarrow> Some n | Some t \<Rightarrow> disarm t n))"

end
