(* ===== verification/Wm_Socket_Run.thy ===== *)
theory Wm_Socket_Run
  imports Wm_Socket
begin

text \<open>
  What the coroutine sockets achieve, for every way the kernel answers: sending delivers all of the
  data in order, reading returns what arrives or the reason it did not, connecting.
\<close>

section \<open>Waiting to write\<close>

lemma event_bits [simp]: "WM_EVENT_WRITE \<noteq> 0" "WM_EVENT_READ \<noteq> 0" "WM_EVENT_READ AND WM_EVENT_WRITE = 0"
    "WM_EVENT_WRITE AND WM_EVENT_READ = 0" "WM_EVENT_WRITE \<noteq> WM_EVENT_READ" "WM_EVENT_READ \<noteq> WM_EVENT_WRITE"
  by (simp_all add: WM_EVENT_WRITE_def WM_EVENT_READ_def)

lemma errno_distinct [simp]: "EINTR \<noteq> EAGAIN" "EAGAIN \<noteq> EINTR" "0 < EINTR" "0 < EAGAIN" "EAGAIN \<noteq> 0" "EINTR \<noteq> 0"
  by (simp_all add: errno_defs)

text \<open>The answers for one wait: the registration, if it is still to be made, and the wake-up.\<close>

definition wait_env :: "bool \<Rightarrow> answer list" where
  "wait_env w = (if w then [] else [Ret 0]) @ [Woke False False]"

definition wait_calls :: "u32 \<Rightarrow> bool \<Rightarrow> syscall list" where
  "wait_calls ev w = (if w then [] else [Epoll_ctl CTL_ADD (event_decode ev)])"

text \<open>A socket nobody waits for, registered for nothing or only for \<open>ev\<close>.\<close>

definition quiet :: "u32 \<Rightarrow> bool \<Rightarrow> net \<Rightarrow> bool" where
  "quiet ev w n \<longleftrightarrow> \<not> closed (sk n) \<and> poll n \<and> me n \<noteq> None \<and> sk_loop (sk n) = WM_LOOP_SEMI_AUTO \<and>
     read_co (sk n) = None \<and> write_co (sk n) = None \<and> events (sk n) = (if w then ev else 0)"

lemma quietD:
  assumes "quiet ev w n"
  shows "\<not> closed (sk n)" "poll n" "\<exists>r. me n = Some r" "sk_loop (sk n) = WM_LOOP_SEMI_AUTO" "read_co (sk n) = None"
    "write_co (sk n) = None" "events (sk n) = (if w then ev else 0)"
  using assms by (auto simp: quiet_def)

lemma add_quiet:
  assumes "poll n" "events (sk n) = 0" "ev \<noteq> 0" "env n = Ret 0 # as"
  shows "wmWorkerLoop_add n ev = Some (True, n\<lparr>sk := (sk n)\<lparr>events := ev\<rparr>, env := as, calls := calls n @ [Epoll_ctl CTL_ADD (event_decode ev)]\<rparr>)"
  using assms by (simp add: wmWorkerLoop_add_def Let_def loop_init_def sys_def upd_sk_def WM_EVENT_NULL_def)

lemma wait_woken:
  assumes "quiet ev w n" "env n = (if w then [] else [Ret 0]) @ Woke c t # as" "ev = WM_EVENT_READ \<or> ev = WM_EVENT_WRITE"
  shows "event_wait ev n = map_option (\<lambda>n. (True, bind_co ev None n))
    (wake_up ev c t (bind_co ev (me n) (n\<lparr>sk := (sk n)\<lparr>events := ev\<rparr>, env := as, calls := calls n @ wait_calls ev w\<rparr>)))"
proof -
  note q = quietD [OF assms(1)]
  have ne: "ev \<noteq> 0" using assms(3) by auto
  let ?n = "n\<lparr>sk := (sk n)\<lparr>events := ev\<rparr>, env := Woke c t # as, calls := calls n @ wait_calls ev w\<rparr>"
  have a: "(if events (sk n) AND ev = 0 then wmWorkerLoop_add n ev else Some (True, n)) = Some (True, ?n)"
  proof (cases w)
    case True
    then have "?n = n" using assms(2) q(7) by (simp add: wait_calls_def)
    then show ?thesis using True q(7) ne by simp
  next
    case False
    then show ?thesis using add_quiet [of n ev "Woke c t # as"] q(2,7) ne assms(2) by (simp add: wait_calls_def)
  qed
  have sw: "?n\<lparr>env := as\<rparr> = n\<lparr>sk := (sk n)\<lparr>events := ev\<rparr>, env := as, calls := calls n @ wait_calls ev w\<rparr>" by simp
  show ?thesis unfolding event_wait_def a using q(3) by (auto simp flip: sw)
qed

lemma event_wait_ok:
  assumes "quiet ev w n" "env n = wait_env w @ as" "ev = WM_EVENT_READ \<or> ev = WM_EVENT_WRITE"
  shows "event_wait ev n = Some (True, n\<lparr>sk := (sk n)\<lparr>events := ev\<rparr>, env := as, calls := calls n @ wait_calls ev w\<rparr>)"
proof -
  have "env n = (if w then [] else [Ret 0]) @ Woke False False # as" using assms(2) by (simp add: wait_env_def)
  from wait_woken [OF assms(1) this assms(3)] show ?thesis
    using quietD(4,5,6) [OF assms(1)] assms(3) by (auto simp: wake_up_def bind_co_def upd_sk_def)
qed

lemma quiet_wait: "quiet ev w n \<Longrightarrow> quiet ev True (n\<lparr>sk := (sk n)\<lparr>events := ev\<rparr>, env := as, calls := cs\<rparr>)"
  by (simp add: quiet_def)

lemma quiet_upd: "quiet ev w n \<Longrightarrow> quiet ev w (n\<lparr>errno := e, env := as, calls := cs\<rparr>)"
  by (simp add: quiet_def)

section \<open>Sending\<close>

text \<open>How the kernel answers a \<open>send\<close>: it takes some bytes, or none now, or the call is interrupted.\<close>

datatype attempt = Sent nat | Again | Interrupted

fun send_env :: "bool \<Rightarrow> nat \<Rightarrow> attempt list \<Rightarrow> answer list" where
  "send_env w m [] = []"
| "send_env w m (Interrupted # as) = Ret (- EINTR) # send_env w m as"
| "send_env w m (Again # as) = Ret (- EAGAIN) # wait_env w @ send_env True m as"
| "send_env w m (Sent k # as) = Ret (int k) # (if m \<le> k then [] else wait_env w @ send_env True (m - k) as)"

text \<open>Attempts that end with the last of \<open>m\<close> bytes taken.\<close>

fun complete :: "nat \<Rightarrow> attempt list \<Rightarrow> bool" where
  "complete m [] = False"
| "complete m (Interrupted # as) = complete m as"
| "complete m (Again # as) = (0 < m \<and> complete m as)"
| "complete m (Sent k # as) = (if k = m then as = [] else k < m \<and> complete (m - k) as)"

text \<open>Whether the call waits at all, and the calls of \<open>epoll_ctl\<close> among others.\<close>

fun waits :: "nat \<Rightarrow> attempt list \<Rightarrow> bool" where
  "waits m [] = False"
| "waits m (Interrupted # as) = waits m as"
| "waits m (Again # as) = True"
| "waits m (Sent k # as) = (k < m)"

definition is_ctl :: "syscall \<Rightarrow> bool" where
  "is_ctl c \<longleftrightarrow> (case c of Epoll_ctl _ _ \<Rightarrow> True | _ \<Rightarrow> False)"

lemma is_ctl_simps [simp]: "is_ctl (Epoll_ctl ctl ev)" "\<not> is_ctl (Send bs)"
  by (simp_all add: is_ctl_def)

lemma ctl_skip: "\<not> is_ctl c \<Longrightarrow> watch r c = r \<and> ctl_valid r (c # ds) = ctl_valid r ds"
  by (cases c) (simp_all add: is_ctl_def)

lemma ctl_only:
  "ctl_valid r (filter is_ctl cs) = ctl_valid r cs \<and> fold (\<lambda>c w. watch w c) (filter is_ctl cs) r = fold (\<lambda>c w. watch w c) cs r"
proof (induction cs arbitrary: r)
  case (Cons c cs)
  show ?case
  proof (cases "is_ctl c")
    case False
    have "ctl_valid r (c # cs) = ctl_valid r cs" "watch r c = r" using ctl_skip [OF False] by blast+
    then show ?thesis using Cons [of r] False by (simp del: ctl_valid.simps)
  qed (use Cons in simp)
qed simp

text \<open>The bytes the kernel has taken: of every \<open>send\<close>, as many as it answered.\<close>

fun received :: "syscall list \<Rightarrow> attempt list \<Rightarrow> u8 option list" where
  "received [] as = []"
| "received (Send bs # cs) as =
    (case as of [] \<Rightarrow> [] | a # as \<Rightarrow> (case a of Sent k \<Rightarrow> take k bs | _ \<Rightarrow> []) @ received cs as)"
| "received (c # cs) as = received cs as"

lemma received_wait: "received (wait_calls ev w @ cs) as = received cs as"
  by (simp add: wait_calls_def)

lemma retry_step: "sys c n = Some (r, n') \<Longrightarrow> retry c n = (if r < 0 \<and> errno n' = EINTR then retry c n' else Some (r, n'))"
  by (subst retry.simps) simp

lemma retry_intr: "env n = Ret (- EINTR) # as \<Longrightarrow> retry c n = retry c (n\<lparr>calls := calls n @ [c], env := as, errno := EINTR\<rparr>)"
  using retry_step [of c n] by (simp add: sys_def)

lemma retry_fail: "env n = Ret (- e) # as \<Longrightarrow> 0 < e \<Longrightarrow> e \<noteq> EINTR \<Longrightarrow>
    retry c n = Some (- 1, n\<lparr>calls := calls n @ [c], env := as, errno := e\<rparr>)"
  using retry_step [of c n] by (simp add: sys_def)

lemma retry_done: "env n = Ret r # as \<Longrightarrow> 0 \<le> r \<Longrightarrow> retry c n = Some (r, n\<lparr>calls := calls n @ [c], env := as\<rparr>)"
  using retry_step [of c n] by (simp add: sys_def)

definition sending :: "net \<Rightarrow> wmString \<Rightarrow> nat \<Rightarrow> u8 list \<Rightarrow> bool" where
  "sending n b p data \<longleftrightarrow> write_buffer (sk n) = Some b \<and> soff b = int p \<and> slen b = p + length data \<and>
     take (length data) (drop p (sbuf b)) = map Some data \<and> p + length data \<le> length (sbuf b)"

lemma sending_from:
  assumes "sending n b p data"
  shows "memcpy_from (sbuf b) (nat (soff b)) (pending b) = Some (map Some data)"
  using assms by (simp add: sending_def memcpy_from_def pending_def)

lemma sending_drop:
  assumes "sending n b p data" "k \<le> length data" "write_buffer (sk n') = Some (b\<lparr>soff := soff b + int k\<rparr>)"
  shows "sending n' (b\<lparr>soff := soff b + int k\<rparr>) (p + k) (drop k data)"
proof -
  have "take (length data - k) (drop (p + k) (sbuf b)) = drop k (take (length data) (drop p (sbuf b)))"
    by (simp add: drop_take add.commute)
  also have "\<dots> = map Some (drop k data)" using assms(1) by (simp add: sending_def drop_map)
  finally show ?thesis using assms by (simp add: sending_def)
qed

definition sent_all :: "net \<Rightarrow> wmString \<Rightarrow> syscall list \<Rightarrow> answer list \<Rightarrow> net \<Rightarrow> bool" where
  "sent_all n b cs rest n' \<longleftrightarrow> calls n' = calls n @ cs \<and> env n' = rest \<and> armed n' = armed n \<and> poll n' = poll n \<and> me n' = me n \<and>
     sk n' = (sk n)\<lparr>write_buffer := Some (b\<lparr>soff := 0, slen := 0\<rparr>), events := 0\<rparr>"

lemma remove_last:
  assumes "quiet ev w n"
  shows "wmWorkerLoop_remove n ev = Some (True, n\<lparr>sk := (sk n)\<lparr>events := 0\<rparr>\<rparr>)"
  using quietD(7) [OF assms]
  by (cases w; cases "ev = 0") (auto simp: wmWorkerLoop_remove_def wmWorkerLoop_del_def upd_sk_def WM_EVENT_NULL_def Let_def)

lemma send_loop_all:
  assumes "complete (length data) as" "quiet WM_EVENT_WRITE w n" "sending n b p data"
    "env n = send_env w (length data) as @ rest"
  shows "\<exists>cs n'. send_loop r n = Some (r + int (length data), n') \<and> sent_all n b cs rest n' \<and> received cs as = map Some data \<and>
    filter is_ctl cs = (if waits (length data) as then wait_calls WM_EVENT_WRITE w else [])"
  using assms
proof (induction as arbitrary: w n b p data r)
  case Nil
  then show ?case by simp
next
  case (Cons a as)
  note q = quietD [OF Cons.prems(2)] and f = sending_from [OF Cons.prems(3)]
  have wb: "write_buffer (sk n) = Some b" using Cons.prems(3) by (simp add: sending_def)
  show ?case
  proof (cases a)
    case Interrupted
    let ?n = "n\<lparr>calls := calls n @ [Send (map Some data)], env := send_env w (length data) as @ rest, errno := EINTR\<rparr>"
    have e: "env n = Ret (- EINTR) # (send_env w (length data) as @ rest)" using Cons.prems(4) Interrupted by simp
    have l: "send_loop r n = send_loop r ?n"
      by (subst (1 2) send_loop.simps) (simp add: q wb f retry_intr [OF e])
    have "quiet WM_EVENT_WRITE w ?n" "sending ?n b p data"
      using Cons.prems(2,3) by (simp_all add: quiet_def sending_def)
    from Cons.IH [OF _ this, of r] obtain cs n' where "send_loop r n = Some (r + int (length data), n')"
        "sent_all ?n b cs rest n'" "received cs as = map Some data"
        "filter is_ctl cs = (if waits (length data) as then wait_calls WM_EVENT_WRITE w else [])"
      using Cons.prems(1) Interrupted l by auto
    then have "send_loop r n = Some (r + int (length data), n') \<and> sent_all n b (Send (map Some data) # cs) rest n' \<and>
        received (Send (map Some data) # cs) (a # as) = map Some data \<and>
        filter is_ctl (Send (map Some data) # cs) = (if waits (length data) (a # as) then wait_calls WM_EVENT_WRITE w else [])"
      using Interrupted by (simp add: sent_all_def)
    then show ?thesis by blast
  next
    case Again
    then have m: "0 < length data" "complete (length data) as" using Cons.prems(1) by auto
    let ?mid = "n\<lparr>calls := calls n @ [Send (map Some data)], env := wait_env w @ send_env True (length data) as @ rest, errno := EAGAIN\<rparr>"
    have e: "env n = Ret (- EAGAIN) # wait_env w @ send_env True (length data) as @ rest" using Cons.prems(4) Again by simp
    have same: "upd_sk (\<lambda>s. s\<lparr>write_buffer := Some b\<rparr>) ?mid = ?mid" using wb by (simp add: upd_sk_def)
    have q0: "quiet WM_EVENT_WRITE w ?mid" using Cons.prems(2) by (simp add: quiet_def)
    let ?n = "?mid\<lparr>sk := (sk n)\<lparr>events := WM_EVENT_WRITE\<rparr>, env := send_env True (length data) as @ rest,
        calls := calls ?mid @ wait_calls WM_EVENT_WRITE w\<rparr>"
    have wt: "event_wait WM_EVENT_WRITE ?mid = Some (True, ?n)"
      using event_wait_ok [OF q0, of "send_env True (length data) as @ rest"] by simp
    have ne: "soff b \<noteq> int (slen b)" using m(1) Cons.prems(3) by (auto simp: sending_def)
    have ce: "check_error EAGAIN = Some WM_SOCKET_SUCCESS" by (simp add: check_error_def errno_defs)
    have l: "send_loop r n = send_loop r ?n"
      by (subst send_loop.simps)
         (use q wb f retry_fail [OF e, of "Send (map Some data)"] same wt ne ce in
           \<open>simp add: Let_def WM_SOCKET_SUCCESS_def WM_SOCKET_CLOSE_def\<close>)
    have "quiet WM_EVENT_WRITE True ?n" "sending ?n b p data"
      using quiet_wait [OF q0] Cons.prems(3) by (simp_all add: sending_def)
    from Cons.IH [OF m(2) this, of r] obtain cs n' where "send_loop r n = Some (r + int (length data), n')"
        "sent_all ?n b cs rest n'" "received cs as = map Some data" "filter is_ctl cs = []"
      using l by (auto simp: wait_calls_def)
    then have "send_loop r n = Some (r + int (length data), n') \<and>
        sent_all n b (Send (map Some data) # wait_calls WM_EVENT_WRITE w @ cs) rest n' \<and>
        received (Send (map Some data) # wait_calls WM_EVENT_WRITE w @ cs) (a # as) = map Some data \<and>
        filter is_ctl (Send (map Some data) # wait_calls WM_EVENT_WRITE w @ cs) = (if waits (length data) (a # as) then wait_calls WM_EVENT_WRITE w else [])"
      using Again by (simp add: sent_all_def received_wait wait_calls_def)
    then show ?thesis by blast
  next
    case (Sent k)
    have k: "k \<le> length data" "k = length data \<Longrightarrow> as = []" using Cons.prems(1) Sent by (auto split: if_splits)
    let ?b = "b\<lparr>soff := soff b + int k\<rparr>"
    define es where "es = (if length data \<le> k then [] else wait_env w @ send_env True (length data - k) as) @ rest"
    have e: "env n = Ret (int k) # es" using Cons.prems(4) Sent by (simp add: es_def)
    let ?mid = "n\<lparr>calls := calls n @ [Send (map Some data)], env := es, sk := (sk n)\<lparr>write_buffer := Some ?b\<rparr>\<rparr>"
    have q0: "quiet WM_EVENT_WRITE w ?mid" using Cons.prems(2) by (simp add: quiet_def)
    have s0: "sending ?mid ?b (p + k) (drop k data)" by (rule sending_drop [OF Cons.prems(3) k(1)]) simp
    have up: "upd_sk (\<lambda>s. s\<lparr>write_buffer := Some ?b\<rparr>) (n\<lparr>calls := calls n @ [Send (map Some data)], env := es\<rparr>) = ?mid"
      by (simp add: upd_sk_def)
    show ?thesis
    proof (cases "k = length data")
      case True
      have "soff b + int k = int (slen b)" using Cons.prems(3) True by (simp add: sending_def)
      then have "send_loop r n = Some (r + int k, ?mid\<lparr>sk := (sk n)\<lparr>write_buffer := Some (b\<lparr>soff := 0, slen := 0\<rparr>), events := 0\<rparr>\<rparr>)"
        by (subst send_loop.simps)
           (use q wb f retry_done [OF e, of "Send (map Some data)"] up remove_last [OF q0] in
             \<open>simp add: Let_def WM_SOCKET_SUCCESS_def WM_SOCKET_CLOSE_def upd_sk_def\<close>)
      moreover have "received [Send (map Some data)] (a # as) = map Some data"
          "filter is_ctl [Send (map Some data)] = (if waits (length data) (a # as) then wait_calls WM_EVENT_WRITE w else [])"
        using Sent True by simp_all
      ultimately show ?thesis using True by (intro exI [of _ "[Send (map Some data)]"] exI) (auto simp: sent_all_def es_def)
    next
      case False
      then have k': "k < length data" "complete (length (drop k data)) as" using k(1) Cons.prems(1) Sent by auto
      have ne: "soff b + int k \<noteq> int (slen b)" using Cons.prems(3) k'(1) by (auto simp: sending_def)
      have es: "env ?mid = wait_env w @ send_env True (length (drop k data)) as @ rest" using k'(1) by (simp add: es_def)
      let ?n = "?mid\<lparr>sk := (sk ?mid)\<lparr>events := WM_EVENT_WRITE\<rparr>, env := send_env True (length (drop k data)) as @ rest,
        calls := calls ?mid @ wait_calls WM_EVENT_WRITE w\<rparr>"
      have wt: "event_wait WM_EVENT_WRITE ?mid = Some (True, ?n)" using event_wait_ok [OF q0 es] by simp
      have l: "send_loop r n = send_loop (r + int k) ?n"
        by (subst send_loop.simps)
           (use q wb f retry_done [OF e, of "Send (map Some data)"] up wt ne in
             \<open>simp add: Let_def WM_SOCKET_SUCCESS_def WM_SOCKET_CLOSE_def\<close>)
      have "quiet WM_EVENT_WRITE True ?n" by (rule quiet_wait [OF q0])
      moreover have "sending ?n ?b (p + k) (drop k data)" using s0 by (simp add: sending_def)
      ultimately obtain cs n' where "send_loop r n = Some (r + int k + int (length (drop k data)), n')"
        "sent_all ?n ?b cs rest n'" "received cs as = map Some (drop k data)" "filter is_ctl cs = []"
        using Cons.IH [OF k'(2), of True ?n ?b "p + k" "r + int k"] l by (auto simp: wait_calls_def)
      moreover have "map Some data = map Some (take k data) @ map Some (drop k data)" by (simp flip: map_append)
      ultimately have "send_loop r n = Some (r + int (length data), n') \<and>
        sent_all n b (Send (map Some data) # wait_calls WM_EVENT_WRITE w @ cs) rest n' \<and>
        received (Send (map Some data) # wait_calls WM_EVENT_WRITE w @ cs) (a # as) = map Some data \<and>
        filter is_ctl (Send (map Some data) # wait_calls WM_EVENT_WRITE w @ cs) = (if waits (length data) (a # as) then wait_calls WM_EVENT_WRITE w else [])"
        using Sent k'(1) by (simp add: sent_all_def received_wait take_map wait_calls_def)
      then show ?thesis by blast
    qed
  qed
qed

text \<open>A buffer with nothing left to send, as \<open>wmSocket_send\<close> leaves it.\<close>

definition drained :: "wmSocket \<Rightarrow> bool" where
  "drained s \<longleftrightarrow> (case write_buffer s of None \<Rightarrow> True | Some b \<Rightarrow> wf_bytes b \<and> soff b = int (slen b))"

lemma wf_bytes_reset: "wf_bytes b \<Longrightarrow> wf_bytes (b\<lparr>slen := 0, soff := 0\<rparr>)"
  by (simp add: wf_bytes_def contents_def)

lemma not_full:
  assumes "0 < maxSendBufferSize s" "maxSendBufferSize s < 2 ^ 63"
  shows "\<not> bufferIsFull s (b\<lparr>slen := 0, soff := 0\<rparr>)"
proof -
  have "(word_of_int (maxSendBufferSize s) :: u64) \<noteq> 0"
    using assms by (simp add: word_of_int_eq_0_iff zdvd_not_zless)
  then show ?thesis by (simp add: bufferIsFull_def)
qed

lemma send_all:
  assumes "complete (length data) as" "quiet WM_EVENT_WRITE False n" "drained (sk n)" "\<And>k. can k"
    "0 < maxSendBufferSize (sk n)" "maxSendBufferSize (sk n) < 2 ^ 63" "env n = send_env False (length data) as @ rest"
  shows "\<exists>cs n'. wmSocket_send can data n = Some (int (length data), n') \<and> calls n' = calls n @ cs \<and>
    received cs as = map Some data \<and> env n' = rest \<and> drained (sk n') \<and> quiet WM_EVENT_WRITE False n' \<and>
    filter is_ctl cs = (if waits (length data) as then [Epoll_ctl CTL_ADD (event_decode WM_EVENT_WRITE)] else [])"
proof -
  note q = quietD [OF assms(2)]
  have av: "is_available WM_EVENT_WRITE n = Some (True, n)" using q by (simp add: is_available_def get_bound_co_def)
  obtain b where b: "(case write_buffer (sk n) of None \<Rightarrow> wmString_new can WM_BUFFER_SIZE_DEFAULT | Some b \<Rightarrow> Some b) = Some b"
      "wf_bytes b" "soff b = int (slen b)"
    using assms(3,4) by (auto simp: drained_def wmString_new_def wf_bytes_def contents_def split: option.splits)
  let ?b0 = "b\<lparr>slen := 0, soff := 0\<rparr>"
  have w0: "wf_bytes ?b0" by (rule wf_bytes_reset [OF b(2)])
  obtain b1 where b1: "wmString_append_ptr can ?b0 (map Some data) (length data) = Some (True, b1)" "wf_string b1"
      "contents b1 = data" "soff b1 = 0"
    using append_ptr_ok [of ?b0 can "map Some data" data "[]" "length data", OF w0] assms(4) by (auto simp: contents_def)
  let ?n1 = "checkBufferWillFull b1 (upd_sk (\<lambda>s. s\<lparr>write_buffer := Some b1\<rparr>) (upd_sk (\<lambda>s. s\<lparr>write_buffer := Some ?b0\<rparr>) n))"
  have l: "wmSocket_send can data n = send_loop 0 ?n1"
    using av b b1(1) not_full [of "(sk n)\<lparr>write_buffer := Some ?b0\<rparr>" b] assms(5,6) by (simp add: wmSocket_send_def Let_def upd_sk_def)
  have n1: "sk ?n1 = (sk n)\<lparr>write_buffer := Some b1\<rparr>" "calls ?n1 = calls n" "env ?n1 = env n" "poll ?n1 = poll n" "me ?n1 = me n"
    by (simp_all add: checkBufferWillFull_def upd_sk_def)
  have q1: "quiet WM_EVENT_WRITE False ?n1" using assms(2) n1 by (simp add: quiet_def)
  obtain r where r: "sbuf b1 = map Some data @ Some 0 # r" "slen b1 = length data"
    using wf_contents [OF b1(2)] b1(3) by metis
  have s1: "sending ?n1 b1 0 data" using b1(4) r n1(1) by (simp add: sending_def)
  obtain cs n' where n': "send_loop 0 ?n1 = Some (int (length data), n')" "sent_all ?n1 b1 cs rest n'" "received cs as = map Some data"
      "filter is_ctl cs = (if waits (length data) as then wait_calls WM_EVENT_WRITE False else [])"
    using send_loop_all [OF assms(1) q1 s1, of rest 0] assms(7) n1(3) by auto
  have sk': "sk n' = (sk n)\<lparr>write_buffer := Some (b1\<lparr>soff := 0, slen := 0\<rparr>), events := 0\<rparr>"
    using n'(2) n1(1) by (simp add: sent_all_def)
  have "drained (sk n')" using wf_contents [OF b1(2)] by (simp add: sk' drained_def wf_bytes_def contents_def)
  moreover have "quiet WM_EVENT_WRITE False n'"
    using n'(2) n1 q by (simp add: sent_all_def quiet_def)
  ultimately show ?thesis using l n' n1(2) by (auto simp: sent_all_def wait_calls_def)
qed


definition idle_net :: "answer list \<Rightarrow> net" where
  "idle_net as = wait_net\<lparr>sk := wait_socket\<lparr>events := 0\<rparr>, calls := [Epoll_create], env := as\<rparr>"

lemma idle_net_simps [simp]: "quiet ev False (idle_net as)" "drained (sk (idle_net as))" "env (idle_net as) = as"
    "calls (idle_net as) = [Epoll_create]" "maxSendBufferSize (sk (idle_net as)) = 102400"
    "read_timer (sk (idle_net as)) = None" "write_timer (sk (idle_net as)) = None" "armed (idle_net as) = Map.empty"
  by (simp_all add: idle_net_def wait_net_def wait_socket_def quiet_def drained_def)

lemma idle_net_sync: "in_sync (idle_net as)"
  by (simp add: in_sync_def watched_def idle_net_def wait_net_def wait_socket_def WM_EVENT_NULL_def)


text \<open>
  a socket as \<open>wmSocket_pack\<close> makes it never sends anything through \<open>wmSocket_send\<close>: with the
  limit 0 its buffer counts as full even when it is empty. (Only connections set a limit; the streams of
  \<open>src/runtime.c\<close> do not.)
\<close>

theorem socket_send_fresh:
  assumes "can 32" "can (WM_BUFFER_SIZE_DEFAULT + 1)"
  shows "\<exists>n'. wmSocket_send can data (n\<lparr>sk := wmSocket_pack tr lt\<rparr>) = Some (WM_SOCKET_ERROR, n') \<and> calls n' = calls n \<and>
    errCode (sk n') = WM_ERROR_SEND_BUFFER_FULL"
  using assms
  by (auto simp: wmSocket_send_def is_available_def get_bound_co_def wmSocket_pack_def wmString_new_def bufferIsFull_def
      set_err_def upd_sk_def Let_def)

theorem socket_send_fresh_witness:
  "\<exists>n'. wmSocket_send (\<lambda>_. True) [1] (wait_net\<lparr>sk := wmSocket_pack WM_SOCK_TCP WM_LOOP_AUTO\<rparr>) = Some (WM_SOCKET_ERROR, n')"
  using socket_send_fresh [of "\<lambda>_. True" "[1]" WM_SOCK_TCP WM_LOOP_AUTO wait_net] by blast

text \<open>
  \<open>wmSocket_write\<close> sends the wrong bytes when the kernel takes only a part: every call of \<open>send\<close>
  starts at the beginning of the buffer, so after \<open>k\<close> bytes the rest of the data is replaced by its
  beginning. The result is the length nevertheless.
\<close>

theorem socket_write_resends:
  assumes "0 < k" "k < length data" "quiet WM_EVENT_WRITE False n"
    "env n = send_env False (length data) [Sent k, Sent (length data - k)] @ rest"
  shows "\<exists>cs n'. wmSocket_write data n = Some (int (length data), n') \<and> calls n' = calls n @ cs \<and> env n' = rest \<and>
    received cs [Sent k, Sent (length data - k)] = map Some (take k data @ take (length data - k) data)"
proof -
  note q = quietD [OF assms(3)]
  let ?as = "send_env True (length data - k) [Sent (length data - k)] @ rest"
  have av: "is_available WM_EVENT_WRITE n = Some (True, n)" using q by (simp add: is_available_def get_bound_co_def)
  let ?s1 = "Send (map Some data)" and ?s2 = "Send (map Some (take (length data - k) data))"
  let ?n1 = "n\<lparr>calls := calls n @ [?s1], env := wait_env False @ ?as\<rparr>"
  have q1: "quiet WM_EVENT_WRITE False ?n1" using assms(3) by (simp add: quiet_def)
  let ?n2 = "?n1\<lparr>sk := (sk ?n1)\<lparr>events := WM_EVENT_WRITE\<rparr>, env := ?as, calls := calls ?n1 @ wait_calls WM_EVENT_WRITE False\<rparr>"
  have wt: "event_wait WM_EVENT_WRITE ?n1 = Some (True, ?n2)" using event_wait_ok [OF q1, of ?as] by simp
  let ?n3 = "?n2\<lparr>calls := calls ?n2 @ [?s2], env := rest\<rparr>"
  have q3: "quiet WM_EVENT_WRITE True ?n3" using q1 by (simp add: quiet_def)
  have r1: "retry ?s1 n = Some (int k, ?n1)" by (rule retry_done) (use assms(2,4) in auto)
  have r2: "retry ?s2 ?n2 = Some (int (length data - k), ?n3)" by (rule retry_done) (use assms(2) in auto)
  have nk: "nat (int (length data) - int k) = length data - k" by simp
  have "wmSocket_write data n = write_loop data (int k) ?n2"
    unfolding wmSocket_write_def using av
    by (simp, subst write_loop.simps) (use q(1) r1 wt assms(2) in \<open>simp add: Let_def WM_SOCKET_SUCCESS_def WM_SOCKET_CLOSE_def\<close>)
  also have "\<dots> = Some (int (length data), ?n3\<lparr>sk := (sk ?n3)\<lparr>events := 0\<rparr>\<rparr>)"
    by (subst write_loop.simps)
       (use q(1) r2 nk remove_last [OF q3] assms(2) in \<open>simp add: Let_def WM_SOCKET_SUCCESS_def WM_SOCKET_CLOSE_def of_nat_diff\<close>)
  finally show ?thesis
    using assms(2)
    by (intro exI [of _ "[?s1] @ wait_calls WM_EVENT_WRITE False @ [?s2]"] exI [of _ "?n3\<lparr>sk := (sk ?n3)\<lparr>events := 0\<rparr>\<rparr>"])
       (simp add: wait_calls_def take_map)
qed

theorem socket_write_resends_witness:
  "\<exists>cs n'. wmSocket_write [1, 2, 3] (idle_net (send_env False 3 [Sent 1, Sent 2])) = Some (3, n') \<and>
     received cs [Sent 1, Sent 2] = [Some 1, Some 1, Some 2]"
  using socket_write_resends [of 1 "[1, 2, 3]" "idle_net (send_env False 3 [Sent 1, Sent 2])" "[]"]
  by (auto simp: numeral_2_eq_2)

section \<open>Reading\<close>

text \<open>How a read ends, after a number of waits and interrupted calls.\<close>

datatype read_end = Data "u8 list" | Eof | Fail int | Timeout | Closed_meanwhile

fun read_env :: "bool \<Rightarrow> bool list \<Rightarrow> read_end \<Rightarrow> answer list" where
  "read_env w (intr # as) e =
     (if intr then Ret (- EINTR) # read_env w as e else Ret (- EAGAIN) # wait_env w @ read_env True as e)"
| "read_env w [] (Data bs) = [Bytes bs]"
| "read_env w [] Eof = [Ret 0]"
| "read_env w [] (Fail e) = [Ret (- e)]"
| "read_env w [] Timeout = Ret (- EAGAIN) # (if w then [] else [Ret 0]) @ [Woke False True]"
| "read_env w [] Closed_meanwhile = Ret (- EAGAIN) # (if w then [] else [Ret 0]) @ [Woke True False]"

fun end_ok :: "nat \<Rightarrow> read_end \<Rightarrow> bool" where
  "end_ok len (Data bs) = (bs \<noteq> [] \<and> length bs \<le> len)"
| "end_ok len (Fail e) = (0 < e \<and> e \<noteq> EINTR \<and> e \<noteq> EAGAIN)"
| "end_ok len e = True"

text \<open>The result of the read, its bytes, and the error left in the socket.\<close>

fun read_result :: "read_end \<Rightarrow> int \<times> u8 list" where
  "read_result (Data bs) = (int (length bs), bs)"
| "read_result Eof = (WM_SOCKET_CLOSE, [])"
| "read_result (Fail e) = (WM_SOCKET_ERROR, [])"
| "read_result Timeout = (WM_SOCKET_ERROR, [])"
| "read_result Closed_meanwhile = (WM_SOCKET_CLOSE, [])"

fun read_error :: "int \<Rightarrow> read_end \<Rightarrow> int" where
  "read_error old (Data bs) = old"
| "read_error old Eof = WM_ERROR_SESSION_CLOSED_BY_CLIENT"
| "read_error old (Fail e) = e"
| "read_error old Timeout = ETIMEDOUT"
| "read_error old Closed_meanwhile = WM_ERROR_SESSION_CLOSED"

text \<open>The wheel holds \<open>A\<close> and, if the socket has a read timer, the node of it.\<close>

definition timer_ready :: "(nat \<rightharpoonup> u32) \<Rightarrow> u32 \<Rightarrow> net \<Rightarrow> bool" where
  "timer_ready A to n \<longleftrightarrow>
    (case read_timer (sk n) of
       None \<Rightarrow> armed n = A \<and> A (next_timer n) = None
     | Some t \<Rightarrow> armed n = A(t \<mapsto> to) \<and> A t = None)"

lemma timer_ready_env [simp]: "timer_ready A to (n\<lparr>calls := cs, env := as\<rparr>) = timer_ready A to n"
    "timer_ready A to (n\<lparr>calls := cs, env := as, errno := e\<rparr>) = timer_ready A to n"
  by (simp_all add: timer_ready_def split: option.split)

lemma ready_del:
  assumes "timer_ready A to n"
  shows "sock_timer_del WM_EVENT_READ n = Some (n\<lparr>sk := (sk n)\<lparr>read_timer := None\<rparr>, armed := A\<rparr>)"
proof (cases "read_timer (sk n)")
  case None
  then have "n\<lparr>sk := (sk n)\<lparr>read_timer := None\<rparr>, armed := A\<rparr> = n" using assms by (simp add: timer_ready_def)
  then show ?thesis using None by (simp add: sock_timer_del_def)
next
  case (Some t)
  then have "armed n = A(t \<mapsto> to)" "A t = None" using assms by (simp_all add: timer_ready_def)
  then show ?thesis using Some by (simp add: sock_timer_del_def disarm_def upd_sk_def fun_upd_idem)
qed

lemma ready_add:
  assumes "timer_ready A to n"
  shows "\<exists>t n'. sock_timer_add WM_EVENT_READ to n = Some n' \<and> A t = None \<and> next_timer n \<le> next_timer n' \<and>
    n' = n\<lparr>next_timer := next_timer n', sk := (sk n)\<lparr>read_timer := Some t\<rparr>, armed := A(t \<mapsto> to)\<rparr>"
proof (cases "read_timer (sk n)")
  case None
  let ?n = "n\<lparr>next_timer := next_timer n + 1, sk := (sk n)\<lparr>read_timer := Some (next_timer n)\<rparr>, armed := A(next_timer n \<mapsto> to)\<rparr>"
  have "sock_timer_add WM_EVENT_READ to n = Some ?n" "A (next_timer n) = None"
    using None assms by (simp_all add: sock_timer_add_def timer_ready_def upd_sk_def Let_def)
  then show ?thesis by (intro exI [of _ "next_timer n"] exI [of _ ?n]) simp
next
  case (Some t)
  then have a: "armed n = A(t \<mapsto> to)" "A t = None" using assms by (simp_all add: timer_ready_def)
  then have "n\<lparr>next_timer := next_timer n, sk := (sk n)\<lparr>read_timer := Some t\<rparr>, armed := A(t \<mapsto> to)\<rparr> = n"
    using Some by simp
  then show ?thesis using a(2) Some by (intro exI [of _ t] exI [of _ n]) (simp add: sock_timer_add_def Let_def)
qed

lemma retry_recv_step: "sys_recv len n = Some ((r, bs), n') \<Longrightarrow>
    retry_recv len n = (if r < 0 \<and> errno n' = EINTR then retry_recv len n' else Some ((r, bs), n'))"
  by (subst retry_recv.simps) simp

lemma recv_data: "env n = Bytes bs # as \<Longrightarrow> length bs \<le> len \<Longrightarrow>
    retry_recv len n = Some ((int (length bs), bs), n\<lparr>calls := calls n @ [Recv len], env := as\<rparr>)"
  using retry_recv_step [of len n] by (simp add: sys_recv_def)

lemma recv_eof: "env n = Ret 0 # as \<Longrightarrow> retry_recv len n = Some ((0, []), n\<lparr>calls := calls n @ [Recv len], env := as\<rparr>)"
  using retry_recv_step [of len n] by (simp add: sys_recv_def sys_def)

lemma recv_fail: "env n = Ret (- e) # as \<Longrightarrow> 0 < e \<Longrightarrow> e \<noteq> EINTR \<Longrightarrow>
    retry_recv len n = Some ((- 1, []), n\<lparr>calls := calls n @ [Recv len], env := as, errno := e\<rparr>)"
  using retry_recv_step [of len n] by (simp add: sys_recv_def sys_def)

lemma recv_intr: "env n = Ret (- EINTR) # as \<Longrightarrow>
    retry_recv len n = retry_recv len (n\<lparr>calls := calls n @ [Recv len], env := as, errno := EINTR\<rparr>)"
  using retry_recv_step [of len n] by (simp add: sys_recv_def sys_def)

definition read_done :: "(nat \<rightharpoonup> u32) \<Rightarrow> read_end \<Rightarrow> wmSocket \<Rightarrow> answer list \<Rightarrow> bool \<Rightarrow> nat \<Rightarrow> net \<Rightarrow> bool" where
  "read_done A e old rest w nt n \<longleftrightarrow> env n = rest \<and> armed n = A \<and> poll n \<and> nt \<le> next_timer n \<and>
     sk n = old\<lparr>read_timer := None, errCode := read_error (errCode old) e,
               closed := (e = Eof \<or> e = Closed_meanwhile), events := events (sk n)\<rparr> \<and>
     (case e of Data _ \<Rightarrow> quiet WM_EVENT_READ w n | Timeout \<Rightarrow> quiet WM_EVENT_READ True n | _ \<Rightarrow> True) \<and>
     (case e of Data _ \<Rightarrow> True | _ \<Rightarrow> errno n = errCode (sk n))"

lemma read_doneD:
  assumes "read_done A e old rest w nt n"
  shows "env n = rest" "armed n = A" "poll n" "nt \<le> next_timer n" "read_timer (sk n) = None" "read_co (sk n) = read_co old"
    "write_co (sk n) = write_co old" "removed (sk n) = removed old" "sk_transport (sk n) = sk_transport old"
    "errCode (sk n) = read_error (errCode old) e" "closed (sk n) = (e = Eof \<or> e = Closed_meanwhile)"
proof -
  obtain ev where s: "sk n = old\<lparr>read_timer := None, errCode := read_error (errCode old) e,
      closed := (e = Eof \<or> e = Closed_meanwhile), events := ev\<rparr>"
    using assms unfolding read_done_def by blast
  show "env n = rest" "armed n = A" "poll n" "nt \<le> next_timer n" using assms by (simp_all add: read_done_def)
  show "read_timer (sk n) = None" "read_co (sk n) = read_co old"
    "write_co (sk n) = write_co old" "removed (sk n) = removed old" "sk_transport (sk n) = sk_transport old"
    "errCode (sk n) = read_error (errCode old) e" "closed (sk n) = (e = Eof \<or> e = Closed_meanwhile)"
    by (simp_all add: s)
qed

lemma read_done_wait: "read_done A e (old\<lparr>read_timer := t, events := ev\<rparr>) rest w nt n = read_done A e old rest w nt n"
  by (simp add: read_done_def)

text \<open>How the loop goes on after a wait.\<close>

definition read_woken :: "nat \<Rightarrow> u32 \<Rightarrow> bool \<Rightarrow> bool \<Rightarrow> net \<Rightarrow> ((int \<times> u8 list) \<times> net) option" where
  "read_woken len to c t m =
    Option.bind (map_option (bind_co WM_EVENT_READ None) (wake_up WM_EVENT_READ c t (bind_co WM_EVENT_READ (me m) m))) (\<lambda>n.
    Option.bind (timer_used WM_EVENT_READ n) (\<lambda>(used, n).
    if \<not> used then read_loop len to n
    else map_option (Pair (WM_SOCKET_ERROR, [])) (sock_timer_del WM_EVENT_READ (set_err (errno n) n))))"

text \<open>A read that finds nothing: the timer is there, and the coroutine waits.\<close>

lemma read_again:
  assumes "quiet WM_EVENT_READ w n" "timer_ready A to n" "env n = Ret (- EAGAIN) # (if w then [] else [Ret 0]) @ Woke c t # as"
  shows "\<exists>m k. quiet WM_EVENT_READ True m \<and> timer_ready A to m \<and> read_timer (sk m) = Some k \<and>
    sk m = (sk n)\<lparr>read_timer := Some k, events := WM_EVENT_READ\<rparr> \<and> next_timer n \<le> next_timer m \<and> env m = as \<and> read_loop len to n = read_woken len to c t m"
proof -
  note q = quietD [OF assms(1)]
  let ?as = "(if w then [] else [Ret 0]) @ Woke c t # as"
  let ?a = "n\<lparr>calls := calls n @ [Recv len], env := ?as, errno := EAGAIN\<rparr>"
  have "timer_ready A to ?a" using assms(2) by simp
  then obtain k b where b: "sock_timer_add WM_EVENT_READ to ?a = Some b" "A k = None" "next_timer ?a \<le> next_timer b"
      "b = ?a\<lparr>next_timer := next_timer b, sk := (sk ?a)\<lparr>read_timer := Some k\<rparr>, armed := A(k \<mapsto> to)\<rparr>"
    using ready_add by blast
  have fb: "sk b = (sk n)\<lparr>read_timer := Some k\<rparr>" "errno b = EAGAIN" "env b = ?as" "me b = me n" "poll b = poll n" "armed b = A(k \<mapsto> to)"
    by (subst b(4), simp)+
  have qb: "quiet WM_EVENT_READ w b" using q fb by (simp add: quiet_def)
  let ?m = "b\<lparr>sk := (sk b)\<lparr>events := WM_EVENT_READ\<rparr>, env := as, calls := calls b @ wait_calls WM_EVENT_READ w\<rparr>"
  have wt: "event_wait WM_EVENT_READ b = map_option (\<lambda>n. (True, bind_co WM_EVENT_READ None n))
      (wake_up WM_EVENT_READ c t (bind_co WM_EVENT_READ (me n) ?m))"
    using wait_woken [OF qb fb(3)] fb(4) by simp
  have "quiet WM_EVENT_READ True ?m" by (rule quiet_wait [OF qb])
  moreover have "timer_ready A to ?m" using fb b(2) by (simp add: timer_ready_def)
  moreover have "read_loop len to n = read_woken len to c t ?m"
    unfolding read_woken_def
    by (subst read_loop.simps, cases "wake_up WM_EVENT_READ c t (bind_co WM_EVENT_READ (me n) ?m)")
       (use q(1) recv_fail [OF assms(3)] b(1) fb(2,4) wt in simp_all)
  ultimately show ?thesis using fb(1) b(3) by (intro exI [of _ ?m] exI [of _ k]) simp
qed

lemma errno_session [simp]: "EAGAIN \<noteq> 0" "- EAGAIN < 0" by (simp_all add: errno_defs)

lemma read_loop_end:
  assumes "end_ok len e" "quiet WM_EVENT_READ w n" "timer_ready A to n" "env n = read_env w [] e @ rest"
  shows "\<exists>n'. read_loop len to n = Some (read_result e, n') \<and> read_done A e (sk n) rest w (next_timer n) n'"
proof (cases e)
  case (Data bs)
  let ?n = "n\<lparr>calls := calls n @ [Recv len], env := rest\<rparr>"
  have "retry_recv len n = Some ((int (length bs), bs), ?n)" using recv_data assms(1,4) Data by simp
  moreover have "timer_ready A to ?n" using assms(3) by simp
  moreover have "0 < int (length bs)" using assms(1) Data by simp
  ultimately show ?thesis using ready_del [of A to ?n] quietD [OF assms(2)] Data
    by (subst read_loop.simps) (auto simp: read_done_def quiet_def intro!: wmSocket.equality)
next
  case Eof
  let ?n = "n\<lparr>calls := calls n @ [Recv len], env := rest\<rparr>"
  let ?m = "set_err WM_ERROR_SESSION_CLOSED_BY_CLIENT (upd_sk (\<lambda>s. s\<lparr>closed := True\<rparr>) ?n)"
  have "retry_recv len n = Some ((0, []), ?n)" using recv_eof assms(4) Eof by simp
  moreover have "timer_ready A to ?m" using assms(3) by (simp add: set_err_def upd_sk_def timer_ready_def split: option.splits)
  ultimately show ?thesis using ready_del [of A to ?m] quietD [OF assms(2)] Eof
    by (subst read_loop.simps) (auto simp: read_done_def set_err_def upd_sk_def intro!: wmSocket.equality)
next
  case (Fail c)
  let ?n = "n\<lparr>calls := calls n @ [Recv len], env := rest, errno := c\<rparr>"
  have r: "retry_recv len n = Some ((- 1, []), ?n)" by (rule recv_fail) (use assms(1,4) Fail in auto)
  have "timer_ready A to ?n" using assms(3) by simp
  then obtain k b where b: "sock_timer_add WM_EVENT_READ to ?n = Some b" "A k = None" "next_timer ?n \<le> next_timer b"
      "b = ?n\<lparr>next_timer := next_timer b, sk := (sk ?n)\<lparr>read_timer := Some k\<rparr>, armed := A(k \<mapsto> to)\<rparr>"
    using ready_add by blast
  have fb: "sk b = (sk n)\<lparr>read_timer := Some k\<rparr>" "errno b = c" "env b = rest" "armed b = A(k \<mapsto> to)" "poll b = poll n"
    by (subst b(4), simp)+
  have "timer_ready A to (set_err c b)" using fb b(2) by (simp add: set_err_def upd_sk_def timer_ready_def)
  then show ?thesis using ready_del [of A to "set_err c b"] quietD [OF assms(2)] r b(1,3) fb assms(1) Fail
    by (subst read_loop.simps) (auto simp: read_done_def set_err_def upd_sk_def intro!: wmSocket.equality)
next
  case Timeout
  have en: "env n = Ret (- EAGAIN) # (if w then [] else [Ret 0]) @ Woke False True # rest"
    using assms(4) Timeout by (cases w) auto
  obtain m k where m: "quiet WM_EVENT_READ True m" "timer_ready A to m" "read_timer (sk m) = Some k"
      "sk m = (sk n)\<lparr>read_timer := Some k, events := WM_EVENT_READ\<rparr>" "next_timer n \<le> next_timer m" "env m = rest" "read_loop len to n = read_woken len to False True m"
    using read_again [OF assms(2,3) en, of len] by blast
  obtain t where t: "read_timer (sk m) = Some t" "armed m = A(t \<mapsto> to)" "A t = None"
    using m(2,3) by (auto simp: timer_ready_def)
  show ?thesis using quietD [OF m(1)] quietD [OF assms(2)] m(4,5,6) t Timeout
    by (auto simp: m(7) read_woken_def wake_up_def bind_co_def upd_sk_def set_err_def timer_read_fired_def timer_used_def sock_timer_del_def
        read_done_def quiet_def Let_def fun_upd_idem intro!: wmSocket.equality)
next
  case Closed_meanwhile
  have en: "env n = Ret (- EAGAIN) # (if w then [] else [Ret 0]) @ Woke True False # rest"
    using assms(4) Closed_meanwhile by (cases w) auto
  obtain m k where m: "quiet WM_EVENT_READ True m" "timer_ready A to m" "read_timer (sk m) = Some k"
      "sk m = (sk n)\<lparr>read_timer := Some k, events := WM_EVENT_READ\<rparr>" "next_timer n \<le> next_timer m" "env m = rest" "read_loop len to n = read_woken len to True False m"
    using read_again [OF assms(2,3) en, of len] by blast
  let ?m = "upd_sk (\<lambda>s. s\<lparr>closed := True, events := WM_EVENT_NULL, read_co := None\<rparr>) m"
  have l: "read_loop len to n = read_loop len to ?m"
    using m(3) quietD [OF m(1)] by (auto simp: m(7) read_woken_def wake_up_def bind_co_def upd_sk_def timer_used_def)
  have "timer_ready A to ?m" using m(2) by (simp add: timer_ready_def upd_sk_def split: option.splits)
  then show ?thesis using ready_del [of A to ?m] quietD [OF m(1)] quietD [OF assms(2)] m(4,5,6) Closed_meanwhile
    unfolding l by (subst read_loop.simps) (auto simp: upd_sk_def read_done_def set_err_def intro!: wmSocket.equality)
qed

lemma read_loop_all:
  assumes "end_ok len e" "quiet WM_EVENT_READ w n" "timer_ready A to n" "env n = read_env w as e @ rest"
  shows "\<exists>n'. read_loop len to n = Some (read_result e, n') \<and> read_done A e (sk n) rest (w \<or> False \<in> set as) (next_timer n) n'"
  using assms
proof (induction as arbitrary: w n)
  case Nil
  then show ?case using read_loop_end by simp
next
  case (Cons i as)
  show ?case
  proof (cases i)
    case True
    let ?n = "n\<lparr>calls := calls n @ [Recv len], env := read_env w as e @ rest, errno := EINTR\<rparr>"
    have e: "env n = Ret (- EINTR) # (read_env w as e @ rest)" using Cons.prems(4) True by simp
    have l: "read_loop len to n = read_loop len to ?n"
      by (subst (1 2) read_loop.simps) (simp add: quietD [OF Cons.prems(2)] recv_intr [OF e])
    have "quiet WM_EVENT_READ w ?n" "timer_ready A to ?n" using Cons.prems(2,3) by (simp_all add: quiet_def)
    from Cons.IH [OF Cons.prems(1) this] show ?thesis using True unfolding l by simp
  next
    case False
    have "env n = Ret (- EAGAIN) # (if w then [] else [Ret 0]) @ Woke False False # (read_env True as e @ rest)"
      using Cons.prems(4) False by (simp add: wait_env_def)
    from read_again [OF Cons.prems(2,3) this] obtain m k where m: "quiet WM_EVENT_READ True m" "timer_ready A to m"
      "read_timer (sk m) = Some k" "sk m = (sk n)\<lparr>read_timer := Some k, events := WM_EVENT_READ\<rparr>" "next_timer n \<le> next_timer m" "env m = read_env True as e @ rest"
      "read_loop len to n = read_woken len to False False m"
      by blast
    have same: "m\<lparr>sk := (sk m)\<lparr>read_co := None\<rparr>\<rparr> = m" using quietD(5) [OF m(1)] by simp
    have "read_loop len to n = read_loop len to m"
      using m(3) quietD [OF m(1)] by (auto simp: m(7) read_woken_def wake_up_def bind_co_def upd_sk_def timer_used_def same)
    moreover obtain n' where "read_loop len to m = Some (read_result e, n')"
        "read_done A e (sk n) rest True (next_timer m) n'"
      using Cons.IH [OF Cons.prems(1) m(1,2,6)] unfolding m(4) read_done_wait by auto
    moreover have "False \<in> set (i # as)" using False by simp
    ultimately show ?thesis using m(5) by (auto simp: read_done_def split: read_end.splits)
  qed
qed

text \<open>A socket ready for a read: nobody waits, no timer, and the wheel has nodes to give.\<close>

definition readable :: "bool \<Rightarrow> net \<Rightarrow> bool" where
  "readable w n \<longleftrightarrow> quiet WM_EVENT_READ w n \<and> read_timer (sk n) = None \<and> (\<forall>t \<ge> next_timer n. armed n t = None)"

lemma socket_read_ends:
  assumes "end_ok len e" "readable w n" "env n = read_env w as e @ rest"
  shows "\<exists>n'. wmSocket_read len timeout n = Some (read_result e, n') \<and>
    read_done (armed n) e (sk n) rest (w \<or> False \<in> set as) (next_timer n) n'"
proof -
  have q: "quiet WM_EVENT_READ w n" and "timer_ready (armed n) timeout n"
    using assms(2) by (simp_all add: readable_def timer_ready_def)
  from read_loop_all [OF assms(1) this assms(3)] show ?thesis
    using quietD [OF q] by (simp add: wmSocket_read_def is_available_def get_bound_co_def)
qed

lemma socket_read_data:
  assumes "bs \<noteq> []" "length bs \<le> len" "readable w n" "env n = read_env w as (Data bs) @ rest"
  shows "\<exists>n'. wmSocket_read len timeout n = Some ((int (length bs), bs), n') \<and> readable (w \<or> False \<in> set as) n' \<and> env n' = rest"
proof -
  have e: "end_ok len (Data bs)" using assms(1,2) by simp
  obtain n' where n': "wmSocket_read len timeout n = Some (read_result (Data bs), n')"
      "read_done (armed n) (Data bs) (sk n) rest (w \<or> False \<in> set as) (next_timer n) n'"
    using socket_read_ends [OF e assms(3,4)] by blast
  have "quiet WM_EVENT_READ (w \<or> False \<in> set as) n'" using n'(2) by (simp add: read_done_def)
  then have "readable (w \<or> False \<in> set as) n'" using assms(3) read_doneD [OF n'(2)] by (auto simp: readable_def)
  then show ?thesis using n'(1) read_doneD(1) [OF n'(2)] by simp
qed

text \<open>
  C14: \<open>wmSocket_read\<close> for every way of waiting: however often the call is interrupted or there is
  nothing yet, it returns the bytes when they come, and otherwise the code and the error for the end of
  the stream, an error of the call, the timeout, or the socket being closed by another coroutine; in
  each case the timer it armed is gone from the wheel, and no coroutine is bound.
\<close>

theorem socket_read:
  assumes "end_ok len e" "quiet WM_EVENT_READ False n" "read_timer (sk n) = None" "armed n (next_timer n) = None"
    "env n = read_env False as e @ rest"
  shows "\<exists>n'. wmSocket_read len timeout n = Some (read_result e, n') \<and> env n' = rest \<and> armed n' = armed n \<and>
    read_timer (sk n') = None \<and> read_co (sk n') = None \<and> errCode (sk n') = read_error (errCode (sk n)) e \<and>
    closed (sk n') = (e = Eof \<or> e = Closed_meanwhile)"
proof -
  have "timer_ready (armed n) timeout n" using assms(3,4) by (simp add: timer_ready_def)
  from read_loop_all [OF assms(1,2) this assms(5)] obtain n' where n': "read_loop len timeout n = Some (read_result e, n')"
      "read_done (armed n) e (sk n) rest (False \<or> False \<in> set as) (next_timer n) n'" by blast
  show ?thesis using quietD [OF assms(2)] n'(1) read_doneD [OF n'(2)]
    by (simp add: wmSocket_read_def is_available_def get_bound_co_def)
qed

theorem socket_read_witness:
  "\<exists>n'. wmSocket_read 8 1000 (idle_net (read_env False [False, True, False] (Data [7, 8]))) = Some ((2, [7, 8]), n') \<and> armed n' = Map.empty"
  using socket_read [of 8 "Data [7, 8]" "idle_net (read_env False [False, True, False] (Data [7, 8]))" "[False, True, False]" "[]" 1000]
  by auto

section \<open>Connecting\<close>

lemma connect_step: "0 < port \<Longrightarrow> port < 65536 \<Longrightarrow> sys Connect n = Some (r, n') \<Longrightarrow>
    retry_connect port n =
      (if r < 0 \<and> errno n' = EINTR then retry_connect port n' else Some (if r < 0 then - 1 else r, n'))"
  by (subst retry_connect.simps) (simp add: wm_socket_connect_def)

lemma connect_fail: "0 < port \<Longrightarrow> port < 65536 \<Longrightarrow> env n = Ret (- e) # as \<Longrightarrow> 0 < e \<Longrightarrow> e \<noteq> EINTR \<Longrightarrow>
    retry_connect port n = Some (- 1, n\<lparr>calls := calls n @ [Connect], env := as, errno := e\<rparr>)"
  using connect_step [of port n] by (simp add: sys_def)

lemma connect_done: "0 < port \<Longrightarrow> port < 65536 \<Longrightarrow> env n = Ret r # as \<Longrightarrow> 0 \<le> r \<Longrightarrow>
    retry_connect port n = Some (r, n\<lparr>calls := calls n @ [Connect], env := as\<rparr>)"
  using connect_step [of port n] by (simp add: sys_def)

text \<open>
  What \<open>wmSocket_connect\<close> answers: it returns the result of \<open>connect\<close> as a truth value. A
  connection that has to be waited for, and comes about, is reported as true, with the timer removed; one
  that comes about at once is reported as false, though the error is 0 and the socket is connected.
\<close>

theorem socket_connect:
  assumes "quiet WM_EVENT_WRITE False n" "write_timer (sk n) = None" "armed n (next_timer n) = None"
    and port: "0 < port" "port < 65536"
  shows "(\<exists>n'. wmSocket_connect port timeout (n\<lparr>env := Ret 0 # rest\<rparr>) = Some (False, n') \<and> errCode (sk n') = 0 \<and> env n' = rest) \<and>
    (\<exists>n'. wmSocket_connect port timeout (n\<lparr>env := Ret (- EINPROGRESS) # wait_env False @ Ret 0 # rest\<rparr>) = Some (True, n') \<and>
      errCode (sk n') = 0 \<and> armed n' = armed n \<and> env n' = rest)"
proof
  note q = quietD [OF assms(1)]
  let ?n = "n\<lparr>env := Ret 0 # rest\<rparr>"
  have "retry_connect port ?n = Some (0, ?n\<lparr>calls := calls ?n @ [Connect], env := rest\<rparr>)" by (rule connect_done) (simp_all add: port)
  then show "\<exists>n'. wmSocket_connect port timeout ?n = Some (False, n') \<and> errCode (sk n') = 0 \<and> env n' = rest"
    using q assms(2)
    by (simp add: wmSocket_connect_def is_available_def get_bound_co_def set_err_def upd_sk_def sock_timer_del_def Let_def)
next
  note q = quietD [OF assms(1)]
  let ?as = "wait_env False @ Ret 0 # rest"
  let ?n = "n\<lparr>env := Ret (- EINPROGRESS) # ?as\<rparr>"
  define a where "a = ?n\<lparr>calls := calls ?n @ [Connect], env := ?as, errno := EINPROGRESS\<rparr>"
  have r: "retry_connect port ?n = Some (- 1, a)" unfolding a_def by (rule connect_fail) (simp_all add: errno_defs port)
  define b where "b = upd_sk (\<lambda>s. s\<lparr>write_timer := Some (next_timer n)\<rparr>)
      (a\<lparr>next_timer := next_timer n + 1, armed := (armed n)(next_timer n \<mapsto> timeout)\<rparr>)"
  have b: "sock_timer_add WM_EVENT_WRITE timeout a = Some b" using assms(2) by (simp add: sock_timer_add_def b_def a_def Let_def)
  have qb: "quiet WM_EVENT_WRITE False b" using assms(1) by (simp add: quiet_def upd_sk_def b_def a_def)
  define c where "c = b\<lparr>sk := (sk b)\<lparr>events := WM_EVENT_WRITE\<rparr>, env := Ret 0 # rest, calls := calls b @ wait_calls WM_EVENT_WRITE False\<rparr>"
  have wt: "event_wait WM_EVENT_WRITE b = Some (True, c)"
    unfolding c_def by (rule event_wait_ok [OF qb]) (simp_all add: upd_sk_def b_def a_def)
  have c: "write_timer (sk c) = Some (next_timer n)" "env c = Ret 0 # rest" "armed c = (armed n)(next_timer n \<mapsto> timeout)"
    by (simp_all add: upd_sk_def c_def b_def)
  have tu: "timer_used WM_EVENT_WRITE c = Some (False, c)" using c(1) by (simp add: timer_used_def)
  define d0 where "d0 = c\<lparr>calls := calls c @ [Getsockopt], env := rest\<rparr>"
  have g: "sys Getsockopt c = Some (0, d0)" unfolding d0_def by (rule sys_ok) (simp_all add: c(2))
  define d where "d = set_err 0 (upd_sk (\<lambda>s. s\<lparr>errCode := 0\<rparr>) d0)"
  have e0: "errCode (sk (upd_sk (\<lambda>s. s\<lparr>errCode := 0\<rparr>) d0)) = 0" by (simp add: upd_sk_def)
  have d1: "write_timer (sk d) = Some (next_timer n)" "armed d = (armed n)(next_timer n \<mapsto> timeout)" "errCode (sk d) = 0" "env d = rest"
    using c by (simp_all add: d_def d0_def set_err_def upd_sk_def)
  have d: "sock_timer_del WM_EVENT_WRITE d = Some (d\<lparr>sk := (sk d)\<lparr>write_timer := None\<rparr>, armed := armed n\<rparr>)"
    using assms(3) d1 by (simp add: sock_timer_del_def disarm_def upd_sk_def fun_upd_idem)
  have av: "is_available WM_EVENT_WRITE ?n = Some (True, ?n)" "is_available WM_EVENT_READ ?n = Some (True, ?n)"
    using q by (simp_all add: is_available_def get_bound_co_def)
  have ea: "errno a = EINPROGRESS" by (simp add: a_def)
  have "wmSocket_connect port timeout ?n = Some (True, d\<lparr>sk := (sk d)\<lparr>write_timer := None\<rparr>, armed := armed n\<rparr>)"
    unfolding wmSocket_connect_def av
    using q(1) r ea b wt tu g e0 d by (simp add: av Let_def flip: d_def)
  then show "\<exists>n'. wmSocket_connect port timeout ?n = Some (True, n') \<and> errCode (sk n') = 0 \<and> armed n' = armed n \<and> env n' = rest"
    using d1 by simp
qed

theorem socket_connect_witness:
  "(\<exists>n'. wmSocket_connect 80 1000 (idle_net [Ret 0]) = Some (False, n')) \<and>
   (\<exists>n'. wmSocket_connect 80 1000 (idle_net (Ret (- EINPROGRESS) # wait_env False @ [Ret 0])) = Some (True, n'))"
proof -
  have e: "(idle_net [])\<lparr>env := as\<rparr> = idle_net as" for as by (simp add: idle_net_def)
  show ?thesis using socket_connect [of "idle_net []" 80 1000 "[]"] by (auto simp: e)
qed

end
