(* ===== verification/Wm_Connection.thy ===== *)
theory Wm_Connection
  imports Wm_Socket_Run Wm_Hash
begin

text \<open>
  The connections of a worker (\<open>src/worker/connection.c\<close> and the methods of \<open>src/php_connection.c\<close>): the
  loop that reads and cuts the stream into packets, sending, pausing, closing. The application protocol
  (\<open>input\<close>, \<open>decode\<close>, \<open>encode\<close>: PHP code) and the functions of the user are parameters: \<open>inp\<close> is the
  length \<open>input\<close> answers, \<open>None\<close> when it is not an integer; \<open>hnd\<close> is what the coroutine of a message does
  to the connection before it yields or ends. \<open>None\<close> is undefined behaviour, as in \<open>Wm_Socket\<close>.
\<close>

section \<open>State\<close>

datatype conn_status = CONN_INITIAL | CONN_CONNECTING | CONN_ESTABLISHED | CONN_CLOSING | CONN_CLOSED

definition WM_MAX_SEND_BUFFER_SIZE :: int where "WM_MAX_SEND_BUFFER_SIZE = 102400"
definition WM_MAX_PACKAGE_SIZE :: int where "WM_MAX_PACKAGE_SIZE = 1024000"
definition WM_BUFFER_SIZE_BIG :: nat where "WM_BUFFER_SIZE_BIG = 65536"
definition WM_SOCKET_MAX_TIMEOUT :: u32 where "WM_SOCKET_MAX_TIMEOUT = 2147483647"
definition WM_ERROR_PROTOCOL_FAIL :: int where "WM_ERROR_PROTOCOL_FAIL = 1008"

text \<open>The coroutines the connection creates for the functions of the user, with their arguments.\<close>

datatype happening = On_message "u8 option list" | On_error int | On_close | On_buffer_full

text \<open>
  \<open>net_of\<close> is the socket with its surroundings. \<open>read_tmp\<close> is the buffer all connections read into.
  \<open>local_buffer\<close> is the local variable \<open>read_packet_buffer\<close> of \<open>wmConnection_read\<close> as long as it is not the
  buffer of the connection. Two fields are what the others do: for every read, whether they pause the
  connection in the meantime, and for every pause, whether it ends with the connection closed, and what
  is in the shared buffer then.
\<close>

record wmConnection =
  net_of :: net
  conn_id :: int
  conn_fd :: int
  maxPackageSize :: int
  conn_status :: conn_status
  isPaused :: bool
  pausedCoro :: "task_ref option"
  onMessage :: bool
  onClose :: bool
  onBufferFull :: bool
  onError :: bool
  read_packet_buffer :: "wmString option"
  local_buffer :: "wmString option"
  worker_running :: bool
  has_protocol :: bool
  read_tmp :: "u8 option list"
  total_request :: nat
  happened :: "happening list"
  pauses_during_read :: "bool list"
  pause_ends :: "(bool \<times> u8 option list) list"

definition happen :: "happening \<Rightarrow> wmConnection \<Rightarrow> wmConnection" where
  "happen h c = c\<lparr>happened := happened c @ [h]\<rparr>"

section \<open>Creating\<close>

text \<open>
  The table of connections by descriptor and the last id, a C \<open>long\<close>; the id of a connection is an
  \<open>int\<close>. An entry of the table is the id of the connection.
\<close>

record conn_table =
  wm_connections :: "int table"
  last_id :: int

definition next_conn_id :: "int \<Rightarrow> int \<times> int" where
  "next_conn_id l =
    (let l = l + 1; i = sint (word_of_int l :: u32) in
     if i < 0 then (1, 1) else (i, l))"

definition wmConnection_create :: "int \<Rightarrow> wmSocket \<Rightarrow> net \<Rightarrow> conn_table \<Rightarrow> (wmConnection option \<times> conn_table)" where
  "wmConnection_create fd s n t =
    (let t = t\<lparr>wm_connections := snd (WM_HASH_DEL (wm_connections t) (hash_key fd))\<rparr>;
         (i, l) = next_conn_id (last_id t);
         c = \<lparr>net_of = n\<lparr>sk := s\<lparr>maxSendBufferSize := WM_MAX_SEND_BUFFER_SIZE, onBufferWillFull := True\<rparr>\<rparr>,
              conn_id = i, conn_fd = fd, maxPackageSize = WM_MAX_PACKAGE_SIZE, conn_status = CONN_ESTABLISHED,
              isPaused = False, pausedCoro = None, onMessage = False, onClose = False, onBufferFull = False, onError = False,
              read_packet_buffer = None, local_buffer = None, worker_running = True, has_protocol = False, read_tmp = [],
              total_request = 0, happened = [], pauses_during_read = [], pause_ends = []\<rparr>;
         (ok, tab) = WM_HASH_ADD (wm_connections t) (hash_key fd) i;
         t = t\<lparr>last_id := l, wm_connections := tab\<rparr> in
     if ok then (Some c, t) else (None, t))"

definition wmConnection_create_udp :: "int \<Rightarrow> net \<Rightarrow> conn_table \<Rightarrow> (wmConnection \<times> conn_table)" where
  "wmConnection_create_udp fd n t =
    (let (i, l) = next_conn_id (last_id t) in
     (\<lparr>net_of = n\<lparr>sk := wmSocket_pack WM_SOCK_UDP WM_LOOP_SEMI_AUTO\<rparr>,
       conn_id = i, conn_fd = fd, maxPackageSize = 0, conn_status = CONN_ESTABLISHED,
       isPaused = False, pausedCoro = None, onMessage = False, onClose = False, onBufferFull = False, onError = False,
       read_packet_buffer = None, local_buffer = None, worker_running = True, has_protocol = False, read_tmp = [],
       total_request = 0, happened = [], pauses_during_read = [], pause_ends = []\<rparr>,
      t\<lparr>last_id := l\<rparr>))"

definition wmConnection_find_by_fd :: "conn_table \<Rightarrow> int \<Rightarrow> int option" where
  "wmConnection_find_by_fd t fd = WM_HASH_GET (wm_connections t) (hash_key fd)"

definition wmConnection_getConnectionsNum :: "conn_table \<Rightarrow> nat" where
  "wmConnection_getConnectionsNum t = length (wm_connections t)"

section \<open>Closing\<close>

text \<open>
  \<open>wmConnection_destroy\<close>, up to the tables: the entry by descriptor is removed by
  \<open>conn_forget\<close>. The reference to the PHP object it drops at the end is not modelled.
\<close>

definition wmConnection_destroy :: "wmConnection \<Rightarrow> (int \<times> wmConnection) option" where
  "wmConnection_destroy c =
    (if conn_status c = CONN_CLOSED then Some (0, c)
     else
       let c = c\<lparr>conn_status := CONN_CLOSED, isPaused := False\<rparr> in
       Option.bind (wmSocket_close (net_of c)) (\<lambda>(ret, n).
       Option.bind (case pausedCoro c of None \<Rightarrow> Some n | Some r \<Rightarrow> resume_other r n) (\<lambda>n.
       let c = c\<lparr>net_of := n\<rparr> in
       Some (ret, if onClose c then happen On_close c else c))))"

definition conn_forget :: "wmConnection \<Rightarrow> conn_table \<Rightarrow> conn_table" where
  "conn_forget c t = t\<lparr>wm_connections := snd (WM_HASH_DEL (wm_connections t) (hash_key (conn_fd c)))\<rparr>"

definition conn_error :: "wmConnection \<Rightarrow> wmConnection option" where
  "conn_error c =
    (let c = (if onError c then happen (On_error (errCode (sk (net_of c)))) c else c) in
     if closed (sk (net_of c)) then map_option snd (wmConnection_destroy c) else Some c)"

definition wmConnection_free :: "wmConnection \<Rightarrow> net option" where
  "wmConnection_free c =
    Option.bind (if conn_status c = CONN_ESTABLISHED then map_option snd (wmConnection_destroy c) else Some c) (\<lambda>c.
    wmSocket_free (net_of c))"

section \<open>Pausing\<close>

definition wmConnection_pauseRecv :: "wmConnection \<Rightarrow> wmConnection" where
  "wmConnection_pauseRecv c = c\<lparr>isPaused := True\<rparr>"

definition wmConnection_resumeRecv :: "wmConnection \<Rightarrow> wmConnection option" where
  "wmConnection_resumeRecv c =
    (let c = c\<lparr>isPaused := False\<rparr> in
     case pausedCoro c of
       None \<Rightarrow> Some c
     | Some r \<Rightarrow> map_option (\<lambda>n. c\<lparr>net_of := n\<rparr>) (resume_other r (net_of c)))"

text \<open>
  The reading coroutine waits in a pause until \<open>resumeRecv\<close> or the destruction of the connection
  resumes it; both clear \<open>isPaused\<close>.
\<close>

definition check_read_status :: "wmConnection \<Rightarrow> (bool \<times> wmConnection) option" where
  "check_read_status c =
    (if \<not> worker_running c \<or> conn_status c \<noteq> CONN_ESTABLISHED then Some (False, c)
     else if isPaused c then
       (case (me (net_of c), pause_ends c) of
          (Some _, (gone, tmp) # ps) \<Rightarrow>
            let c = c\<lparr>pausedCoro := None, isPaused := False, pause_ends := ps, read_tmp := tmp,
                      conn_status := (if gone then CONN_CLOSED else conn_status c)\<rparr> in
            Some (\<not> gone, c)
        | _ \<Rightarrow> None)
     else Some (True, c))"

section \<open>Reading\<close>

definition rbuf :: "wmConnection \<Rightarrow> wmString option" where
  "rbuf c = (case local_buffer c of None \<Rightarrow> read_packet_buffer c | b \<Rightarrow> b)"

definition set_rbuf :: "wmString \<Rightarrow> wmConnection \<Rightarrow> wmConnection" where
  "set_rbuf b c = (if local_buffer c = None then c\<lparr>read_packet_buffer := Some b\<rparr> else c\<lparr>local_buffer := Some b\<rparr>)"

text \<open>
  Cutting packets off the buffer. The result says whether the reading goes on. The comparison of the
  lengths is unsigned; an offset beyond the length makes the next call read outside the buffer.
\<close>

partial_function (option) packet_loop ::
    "(u8 option list \<Rightarrow> int option) \<Rightarrow> (u8 option list \<Rightarrow> u8 option list) \<Rightarrow> (u8 option list \<Rightarrow> wmConnection \<Rightarrow> wmConnection) \<Rightarrow>
     wmConnection \<Rightarrow> (bool \<times> wmConnection) option" where
  "packet_loop inp dec hnd c =
    Option.bind (rbuf c) (\<lambda>b.
    if soff b = int (slen b) then Some (True, c)
    else
      Option.bind (check_read_status c) (\<lambda>(ok, c).
      if \<not> ok then Some (True, c)
      else
        Option.bind (rbuf c) (\<lambda>b.
        Option.bind (if soff b \<le> int (slen b) then memcpy_from (sbuf b) (nat (soff b)) (pending b) else None) (\<lambda>bs.
        case inp bs of
          None \<Rightarrow>
            Option.bind (wmSocket_close (net_of c)) (\<lambda>(_, n).
            map_option (Pair False) (conn_error (c\<lparr>net_of := upd_sk (\<lambda>s. s\<lparr>errCode := WM_ERROR_PROTOCOL_FAIL\<rparr>) n\<rparr>)))
        | Some len \<Rightarrow>
            if len = 0 then Some (True, c)
            else if maxPackageSize c < len then map_option (\<lambda>(_, c). (False, c)) (wmConnection_destroy c)
            else
              let c = c\<lparr>total_request := total_request c + 1\<rparr> in
              Option.bind
                (if onMessage c then
                   Option.bind (if len < 0 then None else memcpy_from (sbuf b) (nat (soff b)) (nat len)) (\<lambda>p.
                   Some (hnd (dec p) (happen (On_message (dec p)) c)))
                 else Some c) (\<lambda>c.
              Option.bind (rbuf c) (\<lambda>b. packet_loop inp dec hnd (set_rbuf (b\<lparr>soff := soff b + len\<rparr>) c)))))))"

text \<open>What follows the packets: what is left becomes the new buffer, if any packet was cut off.\<close>

definition keep_rest :: "(nat \<Rightarrow> bool) \<Rightarrow> wmConnection \<Rightarrow> wmConnection option" where
  "keep_rest can c =
    Option.bind (rbuf c) (\<lambda>b.
    if 0 < soff b then
      let n = nat (int (slen b) - soff b) in
      Option.bind (memcpy_from (sbuf b) (nat (soff b)) n) (\<lambda>bs.
      map_option (\<lambda>r. c\<lparr>read_packet_buffer := r, local_buffer := None\<rparr>) (wmString_dup can (map the bs) n))
    else Some (c\<lparr>local_buffer := None\<rparr>))"

text \<open>The branch for a worker with an application protocol, after \<open>ret\<close> bytes have been read.\<close>

definition read_packets ::
    "(nat \<Rightarrow> bool) \<Rightarrow> (u8 option list \<Rightarrow> int option) \<Rightarrow> (u8 option list \<Rightarrow> u8 option list) \<Rightarrow>
     (u8 option list \<Rightarrow> wmConnection \<Rightarrow> wmConnection) \<Rightarrow> nat \<Rightarrow> wmConnection \<Rightarrow> (bool \<times> wmConnection) option" where
  "read_packets can inp dec hnd ret c =
    Option.bind (case read_packet_buffer c of
                   None \<Rightarrow> map_option (\<lambda>b. c\<lparr>local_buffer := Some b\<rparr>) (wmString_new can ret)
                 | Some _ \<Rightarrow> Some (c\<lparr>local_buffer := None\<rparr>)) (\<lambda>c.
    Option.bind (rbuf c) (\<lambda>b.
    Option.bind (wmString_append_ptr can b (read_tmp c) ret) (\<lambda>(_, b).
    Option.bind (packet_loop inp dec hnd (set_rbuf b c)) (\<lambda>(go, c).
    if go then map_option (Pair True) (keep_rest can c) else Some (False, c)))))"

text \<open>The branch without one: what has been read is the message.\<close>

definition read_raw :: "(u8 option list \<Rightarrow> wmConnection \<Rightarrow> wmConnection) \<Rightarrow> nat \<Rightarrow> wmConnection \<Rightarrow> (bool \<times> wmConnection) option" where
  "read_raw hnd ret c =
    Option.bind (check_read_status c) (\<lambda>(ok, c).
    if \<not> ok then Some (False, c)
    else
      let c = c\<lparr>total_request := total_request c + 1\<rparr> in
      if onMessage c then
        map_option (\<lambda>m. (True, hnd m (happen (On_message m) c))) (memcpy_from (read_tmp c) 0 ret)
      else Some (True, c))"

text \<open>\<open>wmSocket_read\<close> into the shared buffer; the others may pause the connection while it waits.\<close>

definition conn_recv :: "wmConnection \<Rightarrow> (int \<times> wmConnection) option" where
  "conn_recv c =
    map_option (\<lambda>((ret, bs), n).
      (ret, c\<lparr>net_of := n, read_tmp := map Some bs @ drop (length bs) (read_tmp c),
              isPaused := (case pauses_during_read c of [] \<Rightarrow> isPaused c | p # _ \<Rightarrow> p),
              pauses_during_read := tl (pauses_during_read c)\<rparr>))
      (wmSocket_read WM_BUFFER_SIZE_BIG WM_SOCKET_MAX_TIMEOUT (net_of c))"

partial_function (option) wmConnection_read ::
    "(nat \<Rightarrow> bool) \<Rightarrow> (u8 option list \<Rightarrow> int option) \<Rightarrow> (u8 option list \<Rightarrow> u8 option list) \<Rightarrow>
     (u8 option list \<Rightarrow> wmConnection \<Rightarrow> wmConnection) \<Rightarrow> wmConnection \<Rightarrow> wmConnection option" where
  "wmConnection_read can inp dec hnd c =
    Option.bind (check_read_status c) (\<lambda>(ok, c).
    if \<not> ok then Some c
    else
      Option.bind (conn_recv c) (\<lambda>(ret, c).
      if ret = WM_SOCKET_ERROR then conn_error c
      else if ret = WM_SOCKET_CLOSE then map_option snd (wmConnection_destroy c)
      else
        Option.bind (if has_protocol c then read_packets can inp dec hnd (nat ret) c else read_raw hnd (nat ret) c) (\<lambda>(go, c).
        if go then wmConnection_read can inp dec hnd c else Some c)))"

text \<open>One datagram: the result of \<open>wmSocket_recv\<close> is the length of the message, whatever it is.\<close>

definition wmConnection_recvfrom :: "(u8 option list \<Rightarrow> wmConnection \<Rightarrow> wmConnection) \<Rightarrow> wmConnection \<Rightarrow> net \<Rightarrow> (wmConnection \<times> net) option" where
  "wmConnection_recvfrom hnd c server =
    Option.bind (wmSocket_recvfrom WM_BUFFER_SIZE_BIG WM_SOCKET_MAX_TIMEOUT server) (\<lambda>((ret, bs), server).
    let c = c\<lparr>read_tmp := map Some bs @ drop (length bs) (read_tmp c), total_request := total_request c + 1\<rparr> in
    if onMessage c then
      Option.bind (if ret < 0 then None else memcpy_from (read_tmp c) 0 (nat ret)) (\<lambda>m.
      Some (hnd m (happen (On_message m) c), server))
    else Some (c, server))"

section \<open>Sending\<close>

text \<open>
  \<open>wmConnection_send\<close>; a datagram is answered by one system call (\<open>Send\<close> stands for \<open>sendto\<close>). The
  callback \<open>bufferWillFull\<close> runs in \<open>checkBufferWillFull\<close>: it creates a coroutine for \<open>onBufferFull\<close>.
\<close>

definition after_full :: "nat \<Rightarrow> wmConnection \<Rightarrow> wmConnection" where
  "after_full k c = (if k < full_calls (net_of c) \<and> onBufferFull c then happen On_buffer_full c else c)"

definition conn_send_done :: "int \<Rightarrow> wmConnection \<Rightarrow> (bool \<times> wmConnection) option" where
  "conn_send_done ret c =
    (if ret = WM_SOCKET_ERROR then map_option (Pair False) (conn_error c)
     else if ret = WM_SOCKET_CLOSE then map_option (\<lambda>(_, c). (False, c)) (wmConnection_destroy c)
     else Some (True, c))"

definition wmConnection_send ::
    "(nat \<Rightarrow> bool) \<Rightarrow> (u8 list \<Rightarrow> u8 list option) \<Rightarrow> u8 list \<Rightarrow> bool \<Rightarrow> wmConnection \<Rightarrow> (bool \<times> wmConnection) option" where
  "wmConnection_send can enc buf raw c =
    (let send = (\<lambda>bs. Option.bind (wmSocket_send can bs (net_of c)) (\<lambda>(ret, n).
                        conn_send_done ret (after_full (full_calls (net_of c)) (c\<lparr>net_of := n\<rparr>)))) in
     case sk_transport (sk (net_of c)) of
       WM_SOCK_TCP \<Rightarrow>
         if conn_status c \<noteq> CONN_ESTABLISHED then Some (False, c)
         else if has_protocol c \<and> \<not> raw then
           (case enc buf of
              None \<Rightarrow>
                Option.bind (wmSocket_close (net_of c)) (\<lambda>(_, n).
                map_option (Pair False) (conn_error (c\<lparr>net_of := upd_sk (\<lambda>s. s\<lparr>errCode := WM_ERROR_PROTOCOL_FAIL\<rparr>) n\<rparr>)))
            | Some bs \<Rightarrow> send bs)
         else send buf
     | WM_SOCK_UDP \<Rightarrow>
         map_option (\<lambda>(r, n). (0 \<le> r, c\<lparr>net_of := n\<rparr>)) (sys (Send (map Some buf)) (net_of c)))"

section \<open>The methods of the PHP class\<close>

text \<open>Dropping bytes from the receive buffer.\<close>

definition wmConnection_consumeRecvBuffer :: "int \<Rightarrow> wmConnection \<Rightarrow> wmConnection option" where
  "wmConnection_consumeRecvBuffer n c =
    (case read_packet_buffer c of
       None \<Rightarrow> Some c
     | Some b \<Rightarrow>
         if (of_nat (slen b) - word_of_int (soff b) :: u64) \<le> word_of_int n then Some c
         else
           let l = nat (int (slen b) - n) in
           map_option (\<lambda>buf. c\<lparr>read_packet_buffer := Some (b\<lparr>slen := l, sbuf := buf\<rparr>)\<rparr>) (memcpy_to (sbuf b) l [Some 0]))"

definition php_connection_set :: "int option \<Rightarrow> int option \<Rightarrow> wmConnection \<Rightarrow> wmConnection" where
  "php_connection_set max_send max_package c =
    (let c = (case max_send of None \<Rightarrow> c
              | Some v \<Rightarrow> c\<lparr>net_of := upd_sk (\<lambda>s. s\<lparr>maxSendBufferSize := sint (word_of_int v :: u32)\<rparr>) (net_of c)\<rparr>) in
     case max_package of None \<Rightarrow> c | Some v \<Rightarrow> c\<lparr>maxPackageSize := sint (word_of_int v :: u32)\<rparr>)"

definition php_connection_send :: "(nat \<Rightarrow> bool) \<Rightarrow> (u8 list \<Rightarrow> u8 list option) \<Rightarrow> u8 list \<Rightarrow> bool \<Rightarrow> wmConnection \<Rightarrow> (bool \<times> wmConnection) option" where
  "php_connection_send can enc data raw c = wmConnection_send can enc data raw c"

definition php_connection_close :: "(nat \<Rightarrow> bool) \<Rightarrow> (u8 list \<Rightarrow> u8 list option) \<Rightarrow> u8 list option \<Rightarrow> wmConnection \<Rightarrow> (int option \<times> wmConnection) option" where
  "php_connection_close can enc data c =
    Option.bind (case data of
                   None \<Rightarrow> Some c
                 | Some d \<Rightarrow> if d = [] then Some c else map_option snd (wmConnection_send can enc d False c)) (\<lambda>c.
    map_option (\<lambda>(ret, c). (if ret < 0 then None else Some ret, c)) (wmConnection_destroy c))"

end
