(* ===== verification/Wm_Connection_Run.thy ===== *)
theory Wm_Connection_Run
  imports Wm_Connection
begin

text \<open>
  What a connection makes of the stream: the packets a client sends come out as messages, in order and
  complete, whatever pieces the network delivers, once a first packet has come in one piece with its
  read; what happens to one that has not, and to a connection that is paused while it reads.
\<close>

section \<open>Packets\<close>

text \<open>A protocol that recognises the packets: the length of a complete one, 0 for the beginning of one.\<close>

definition frames :: "(u8 option list \<Rightarrow> int option) \<Rightarrow> u8 list list \<Rightarrow> bool" where
  "frames inp ps \<longleftrightarrow>
    (\<forall>p \<in> set ps. p \<noteq> [] \<and> (\<forall>r. inp (map Some (p @ r)) = Some (int (length p))) \<and>
      (\<forall>k < length p. 0 < k \<longrightarrow> inp (map Some (take k p)) = Some 0))"

lemma frames_Cons: "frames inp (p # ps) \<longleftrightarrow> frames inp [p] \<and> frames inp ps"
  by (auto simp: frames_def)

lemma frames_app: "frames inp (ps @ qs) \<longleftrightarrow> frames inp ps \<and> frames inp qs"
  by (auto simp: frames_def)

text \<open>A part of the stream that ends in the middle of a packet, or between two.\<close>

definition partial :: "u8 list list \<Rightarrow> u8 list \<Rightarrow> bool" where
  "partial ps q \<longleftrightarrow> q = [] \<or> (\<exists>p ps'. ps = p # ps' \<and> (\<exists>k < length p. q = take k p))"

lemma prefix_split:
  assumes "concat ps = x @ y" "[] \<notin> set ps"
  shows "\<exists>ps1 ps2 q. ps = ps1 @ ps2 \<and> x = concat ps1 @ q \<and> concat ps2 = q @ y \<and> partial ps2 q"
  using assms
proof (induction ps arbitrary: x)
  case Nil
  then show ?case by (simp add: partial_def)
next
  case (Cons p ps)
  show ?case
  proof (cases "length p \<le> length x")
    case True
    then have x: "x = p @ drop (length p) x" "concat ps = drop (length p) x @ y"
      using Cons.prems(1) by (auto simp: append_eq_append_conv_if) (metis append_take_drop_id)
    obtain ps1 ps2 q where "ps = ps1 @ ps2" "drop (length p) x = concat ps1 @ q" "concat ps2 = q @ y" "partial ps2 q"
      using Cons.IH [OF x(2)] Cons.prems(2) by auto
    then show ?thesis using x(1) by (intro exI [of _ "p # ps1"] exI [of _ ps2] exI [of _ q]) simp
  next
    case False
    then have "x = take (length x) p" "length x < length p"
      using Cons.prems(1) by (auto simp: append_eq_append_conv_if)
    then have "partial (p # ps) x" by (auto simp: partial_def)
    then show ?thesis using Cons.prems(1) by (intro exI [of _ "[]"] exI [of _ "p # ps"] exI [of _ x]) simp
  qed
qed

section \<open>The packet loop\<close>

definition reading :: "wmConnection \<Rightarrow> bool" where
  "reading c \<longleftrightarrow> worker_running c \<and> conn_status c = CONN_ESTABLISHED \<and> \<not> isPaused c \<and> onMessage c"

lemma reading_status: "reading c \<Longrightarrow> check_read_status c = Some (True, c)"
  by (simp add: reading_def check_read_status_def)

lemma rbuf_set [simp]: "rbuf (set_rbuf b c) = Some b"
  by (simp add: rbuf_def set_rbuf_def split: option.split)

lemma set_rbuf_twice [simp]: "set_rbuf b (set_rbuf b' c) = set_rbuf b c"
  by (simp add: set_rbuf_def)

lemma set_rbuf_upd: "(set_rbuf b c)\<lparr>total_request := t, happened := h\<rparr> = set_rbuf b (c\<lparr>total_request := t, happened := h\<rparr>)"
  by (simp add: set_rbuf_def)

lemma set_rbuf_fields [simp]: "total_request (set_rbuf b c) = total_request c" "happened (set_rbuf b c) = happened c"
    "maxPackageSize (set_rbuf b c) = maxPackageSize c" "reading (set_rbuf b c) = reading c"
    "reading (c\<lparr>total_request := t, happened := h\<rparr>) = reading c" "reading (c\<lparr>local_buffer := l\<rparr>) = reading c"
  by (simp_all add: set_rbuf_def reading_def)

definition message :: "(u8 option list \<Rightarrow> u8 option list) \<Rightarrow> u8 list \<Rightarrow> happening" where
  "message dec p = On_message (dec (map Some p))"

text \<open>A buffer whose unread bytes are \<open>x\<close>.\<close>

definition unread :: "wmString \<Rightarrow> u8 list \<Rightarrow> bool" where
  "unread b x \<longleftrightarrow> wf_bytes b \<and> 0 \<le> soff b \<and> soff b \<le> int (slen b) \<and> drop (nat (soff b)) (contents b) = x"

lemma unread_length: "unread b x \<Longrightarrow> int (slen b) = soff b + int (length x)"
  by (auto simp: unread_def wf_bytes_def)

lemma unread_bytes:
  assumes "unread b (x @ y)"
  shows "memcpy_from (sbuf b) (nat (soff b)) (length x) = Some (map Some x)"
proof -
  obtain r where r: "sbuf b = map Some (contents b) @ r" "length (contents b) = slen b" "length (sbuf b) = ssize b + 1" "slen b \<le> ssize b"
    using assms by (auto simp: unread_def wf_bytes_def)
  have l: "nat (soff b) + length x \<le> slen b" using unread_length [OF assms] assms by (auto simp: unread_def)
  have "take (length x) (drop (nat (soff b)) (contents b)) = x" using assms by (simp add: unread_def)
  then have "take (length x) (drop (nat (soff b)) (sbuf b)) = map Some x"
    using l r(2) by (simp add: r(1) drop_map take_map)
  then show ?thesis using l r by (simp add: memcpy_from_def)
qed

lemma unread_pending:
  assumes "unread b x"
  shows "pending b = length x" "memcpy_from (sbuf b) (nat (soff b)) (pending b) = Some (map Some x)"
proof -
  show p: "pending b = length x" using unread_length [OF assms] assms unfolding pending_def unread_def by arith
  show "memcpy_from (sbuf b) (nat (soff b)) (pending b) = Some (map Some x)"
    using unread_bytes [of b x "[]"] assms by (simp add: p)
qed

lemma unread_skip:
  assumes "unread b (p @ x)"
  shows "unread (b\<lparr>soff := soff b + int (length p)\<rparr>) x"
proof -
  have d: "drop (nat (soff b)) (contents b) = p @ x" "0 \<le> soff b" using assms by (simp_all add: unread_def)
  have "drop (nat (soff b + int (length p))) (contents b) = drop (length p) (drop (nat (soff b)) (contents b))"
    using d(2) by (simp add: nat_add_distrib add.commute)
  then have "drop (nat (soff b + int (length p))) (contents b) = x" using d(1) by simp
  then show ?thesis using unread_length [OF assms] assms by (simp add: unread_def wf_bytes_def contents_def)
qed

text \<open>The loop takes off the complete packets, and stops at the beginning of the next one.\<close>

lemma packet_loop_ok:
  assumes "frames inp (ps @ ps')" "partial ps' q" "reading c" "rbuf c = Some b" "unread b (concat ps @ q)"
    "\<forall>p \<in> set ps. int (length p) \<le> maxPackageSize c" "\<And>m d. hnd m d = d"
  shows "packet_loop inp dec hnd c =
    Some (True, set_rbuf (b\<lparr>soff := soff b + int (length (concat ps))\<rparr>)
      (c\<lparr>total_request := total_request c + length ps, happened := happened c @ map (message dec) ps\<rparr>))"
  using assms
proof (induction ps arbitrary: b c)
  case Nil
  have "set_rbuf b c = c" using Nil.prems(4) by (auto simp: rbuf_def set_rbuf_def split: option.splits)
  moreover have "packet_loop inp dec hnd c = Some (True, c)"
  proof (cases "q = []")
    case True
    then show ?thesis using Nil.prems(4,5) unread_length [of b q] by (subst packet_loop.simps) simp
  next
    case False
    then obtain p ps'' k where k: "ps' = p # ps''" "k < length p" "q = take k p" using Nil.prems(2) by (auto simp: partial_def)
    have "0 < k" using False k(3) by (cases k) auto
    then have "inp (map Some q) = Some 0" using Nil.prems(1) k by (auto simp: frames_def)
    moreover have "0 < int (length q)" using False by simp
    moreover have "soff b \<le> int (slen b)" "soff b \<noteq> int (slen b)" using unread_length [of b q] Nil.prems(5) False by auto
    ultimately show ?thesis
      using Nil.prems(4,5) unread_pending [of b q] reading_status [OF Nil.prems(3)]
      by (subst packet_loop.simps) simp
  qed
  ultimately show ?case by simp
next
  case (Cons p ps)
  have ur: "unread b (p @ (concat ps @ q))" using Cons.prems(5) by simp
  have p: "p \<noteq> []" "\<And>r. inp (map Some (p @ r)) = Some (int (length p))" "int (length p) \<le> maxPackageSize c"
    using Cons.prems(1,6) by (simp_all add: frames_def)
  have so: "soff b \<le> int (slen b)" "soff b \<noteq> int (slen b)"
  proof -
    have "0 < int (length (p @ (concat ps @ q)))" using p(1) by (cases p) simp_all
    then show "soff b \<le> int (slen b)" "soff b \<noteq> int (slen b)" using unread_length [OF ur] by linarith+
  qed
  let ?c = "c\<lparr>total_request := total_request c + 1, happened := happened c @ [message dec p]\<rparr>"
  let ?b = "b\<lparr>soff := soff b + int (length p)\<rparr>"
  have rb: "rbuf ?c = Some b" using Cons.prems(4) by (cases "local_buffer c") (simp_all add: rbuf_def)
  have om: "onMessage c" using Cons.prems(3) by (simp add: reading_def)
  have st: "packet_loop inp dec hnd c = packet_loop inp dec hnd (set_rbuf ?b ?c)"
    using Cons.prems(4,7) reading_status [OF Cons.prems(3)] unread_pending [OF ur] unread_bytes [OF ur] p(1,3) p(2) [of "concat ps @ q"] so om rb
    by (subst packet_loop.simps) (simp add: happen_def message_def)
  have r: "reading (set_rbuf ?b ?c)" using Cons.prems(3) by simp
  have "packet_loop inp dec hnd (set_rbuf ?b ?c) =
    Some (True, set_rbuf (?b\<lparr>soff := soff ?b + int (length (concat ps))\<rparr>)
      ((set_rbuf ?b ?c)\<lparr>total_request := total_request (set_rbuf ?b ?c) + length ps,
                       happened := happened (set_rbuf ?b ?c) @ map (message dec) ps\<rparr>))"
    by (rule Cons.IH [OF _ Cons.prems(2) r _ _ _ Cons.prems(7)])
       (use Cons.prems(1,6) unread_skip [OF ur] in \<open>simp_all add: frames_def\<close>)
  note ih = this
  show ?case unfolding st ih set_rbuf_upd by (simp add: add.assoc)
qed

section \<open>One read\<close>

text \<open>What the connection holds of an incomplete packet.\<close>

definition held :: "wmConnection \<Rightarrow> u8 list \<Rightarrow> bool" where
  "held c h \<longleftrightarrow> (case read_packet_buffer c of None \<Rightarrow> h = [] | Some b \<Rightarrow> unread b h \<and> soff b = 0)"

lemma unread_string: "wf_string b \<Longrightarrow> soff b = 0 \<Longrightarrow> unread b (contents b)"
  using wf_string_bytes [of b] by (simp add: unread_def)

lemma keep_rest_ok:
  assumes "rbuf c = Some b" "unread b q" "0 < soff b" "\<And>k. can k"
  shows "\<exists>r. keep_rest can c = Some (c\<lparr>read_packet_buffer := Some r, local_buffer := None\<rparr>) \<and> unread r q \<and> soff r = 0"
proof -
  have n: "nat (int (slen b) - soff b) = length q" using unread_length [OF assms(2)] by simp
  have m: "memcpy_from (sbuf b) (nat (soff b)) (length q) = Some (map Some q)"
    using unread_bytes [of b q "[]"] assms(2) by simp
  obtain r where r: "wmString_dup can q (length q) = Some (Some r)" "wf_string r" "contents r = q" "soff r = 0"
    using dup_ok [of can "length q" q] assms(4) by auto
  have "keep_rest can c = Some (c\<lparr>read_packet_buffer := Some r, local_buffer := None\<rparr>)"
    using assms(1,3) n m r(1) by (simp add: keep_rest_def Let_def o_def)
  then show ?thesis using unread_string [OF r(2,4)] r(3,4) by auto
qed

lemma read_packets_ok:
  assumes "frames inp (ps @ ps')" "partial ps' q" "reading c" "held c h" "h @ d = concat ps @ q" "read_tmp c = map Some d @ tmp"
    "\<forall>p \<in> set ps. int (length p) \<le> maxPackageSize c" "\<And>m d. hnd m d = d" "\<And>k. can k"
  shows "\<exists>r. read_packets can inp dec hnd (length d) c =
      Some (True, c\<lparr>total_request := total_request c + length ps, happened := happened c @ map (message dec) ps,
                   read_packet_buffer := r, local_buffer := None\<rparr>) \<and>
    (if read_packet_buffer c = None \<and> ps = [] then r = None else \<exists>b. r = Some b \<and> unread b q \<and> soff b = 0)"
proof -
  define c1 where "c1 = (case read_packet_buffer c of None \<Rightarrow> c\<lparr>local_buffer := wmString_new can (length d)\<rparr> | Some _ \<Rightarrow> c\<lparr>local_buffer := None\<rparr>)"
  obtain b where b: "rbuf c1 = Some b" "wf_bytes b" "contents b = h" "soff b = 0"
      "(case read_packet_buffer c of None \<Rightarrow> map_option (\<lambda>b. c\<lparr>local_buffer := Some b\<rparr>) (wmString_new can (length d))
        | Some _ \<Rightarrow> Some (c\<lparr>local_buffer := None\<rparr>)) = Some c1"
    using assms(4,9) string_new_ok [of can "length d"]
    by (auto simp: c1_def rbuf_def held_def unread_def wmString_new_def wf_bytes_def contents_def split: option.splits)
  obtain b1 where b1: "wmString_append_ptr can b (read_tmp c) (length d) = Some (True, b1)" "wf_string b1" "contents b1 = h @ d" "soff b1 = 0"
    using append_ptr_ok [of b can "read_tmp c" d tmp "length d", OF b(2) assms(9,6) refl] b(3,4) by auto
  have u1: "unread b1 (concat ps @ q)" using unread_string [OF b1(2,4)] b1(3) assms(5) by simp
  have same: "read_tmp c1 = read_tmp c" "maxPackageSize c1 = maxPackageSize c" "total_request c1 = total_request c"
      "happened c1 = happened c" "read_packet_buffer c1 = read_packet_buffer c" "local_buffer c1 = None \<longleftrightarrow> read_packet_buffer c \<noteq> None"
    using b(5) by (auto simp: c1_def split: option.splits)
  obtain l where c1: "c1 = c\<lparr>local_buffer := l\<rparr>" "l = None \<longleftrightarrow> read_packet_buffer c \<noteq> None"
    using b(5) by (auto simp: c1_def split: option.splits)
  have rd: "reading (set_rbuf b1 c1)"
    using assms(3) by (simp add: c1)
  let ?L = "length (concat ps)"
  let ?b2 = "b1\<lparr>soff := int ?L\<rparr>"
  define c2 where "c2 = set_rbuf ?b2 (c1\<lparr>total_request := total_request c + length ps, happened := happened c @ map (message dec) ps\<rparr>)"
  have mx: "\<forall>p \<in> set ps. int (length p) \<le> maxPackageSize (set_rbuf b1 c1)" using assms(7) same(2) by simp
  have pl: "packet_loop inp dec hnd (set_rbuf b1 c1) = Some (True, c2)"
    using packet_loop_ok [OF assms(1,2) rd rbuf_set u1 mx, where dec = dec, OF assms(8)] b1(4) same(3,4)
    by (simp add: c2_def set_rbuf_upd)
  have st: "read_packets can inp dec hnd (length d) c = map_option (Pair True) (keep_rest can c2)"
    unfolding read_packets_def b(5) using b(1) b1(1) pl same(1) by simp
  let ?c = "\<lambda>r. c\<lparr>total_request := total_request c + length ps, happened := happened c @ map (message dec) ps,
                   read_packet_buffer := r, local_buffer := None\<rparr>"
  show ?thesis
  proof (cases "ps = []")
    case True
    then have e: "?b2 = b1" using b1(4) by simp
    have "rbuf c2 = Some b1" unfolding c2_def rbuf_set e ..
    then have "keep_rest can c2 = Some (c2\<lparr>local_buffer := None\<rparr>)" using b1(4) by (simp add: keep_rest_def)
    moreover have "c2\<lparr>local_buffer := None\<rparr> = ?c (if read_packet_buffer c = None then None else Some b1)"
      by (cases "read_packet_buffer c = None") (simp_all add: c2_def e set_rbuf_def c1)
    ultimately show ?thesis using st True u1 b1(4) by auto
  next
    case False
    then have l: "0 < ?L" using assms(1) by (cases ps) (auto simp: frames_def)
    have "unread ?b2 q" using unread_skip [OF u1] b1(4) by simp
    then obtain r where r: "keep_rest can c2 = Some (c2\<lparr>read_packet_buffer := Some r, local_buffer := None\<rparr>)" "unread r q" "soff r = 0"
      using keep_rest_ok [of c2 ?b2 q can] l assms(9) by (auto simp: c2_def)
    have "c2\<lparr>read_packet_buffer := Some r, local_buffer := None\<rparr> = ?c (Some r)"
      by (cases "read_packet_buffer c = None") (simp_all add: c2_def set_rbuf_def c1)
    then show ?thesis using st r False by auto
  qed
qed

section \<open>A whole stream\<close>

text \<open>The answers of the system when the stream comes in pieces, each after a number of waits.\<close>

fun conn_env :: "bool \<Rightarrow> (bool list \<times> u8 list) list \<Rightarrow> answer list" where
  "conn_env w [] = []"
| "conn_env w ((as, d) # cs) = read_env w as (Data d) @ conn_env (w \<or> False \<in> set as) cs"

definition conn_ready :: "bool \<Rightarrow> wmConnection \<Rightarrow> bool" where
  "conn_ready w c \<longleftrightarrow> reading c \<and> has_protocol c \<and> readable w (net_of c) \<and> pauses_during_read c = [] \<and> pausedCoro c = None"

lemma conn_recv_data:
  assumes "readable w (net_of c)" "pauses_during_read c = []" "d \<noteq> []" "length d \<le> WM_BUFFER_SIZE_BIG"
    "env (net_of c) = read_env w as (Data d) @ rest"
  shows "\<exists>n. conn_recv c = Some (int (length d), c\<lparr>net_of := n, read_tmp := map Some d @ drop (length d) (read_tmp c)\<rparr>) \<and>
    readable (w \<or> False \<in> set as) n \<and> env n = rest"
proof -
  obtain n where n: "wmSocket_read WM_BUFFER_SIZE_BIG WM_SOCKET_MAX_TIMEOUT (net_of c) = Some ((int (length d), d), n)"
      "readable (w \<or> False \<in> set as) n" "env n = rest"
    using socket_read_data [OF assms(3,4,1,5)] by blast
  have "c\<lparr>isPaused := isPaused c, pauses_during_read := []\<rparr> = c" using assms(2) by simp
  then have "conn_recv c = Some (int (length d), c\<lparr>net_of := n, read_tmp := map Some d @ drop (length d) (read_tmp c)\<rparr>)"
    using n(1) assms(2) by (simp add: conn_recv_def)
  then show ?thesis using n(2,3) by blast
qed

lemma read_step:
  assumes "frames inp (ps @ ps')" "partial ps' q" "conn_ready w c" "held c h" "h @ d = concat ps @ q" "d \<noteq> []"
    "length d \<le> WM_BUFFER_SIZE_BIG" "\<forall>p \<in> set ps. int (length p) \<le> maxPackageSize c" "\<And>m d. hnd m d = d" "\<And>k. can k"
    "read_packet_buffer c \<noteq> None \<or> ps \<noteq> []" "env (net_of c) = read_env w as (Data d) @ rest"
  shows "\<exists>c'. wmConnection_read can inp dec hnd c = wmConnection_read can inp dec hnd c' \<and> conn_ready (w \<or> False \<in> set as) c' \<and>
    held c' q \<and> read_packet_buffer c' \<noteq> None \<and> happened c' = happened c @ map (message dec) ps \<and>
    total_request c' = total_request c + length ps \<and> maxPackageSize c' = maxPackageSize c \<and> onClose c' = onClose c \<and>
    env (net_of c') = rest"
proof -
  have rd: "reading c" "has_protocol c" "readable w (net_of c)" "pauses_during_read c = []" "pausedCoro c = None"
    using assms(3) by (simp_all add: conn_ready_def)
  obtain n where n: "conn_recv c = Some (int (length d), c\<lparr>net_of := n, read_tmp := map Some d @ drop (length d) (read_tmp c)\<rparr>)"
      "readable (w \<or> False \<in> set as) n" "env n = rest"
    using conn_recv_data [OF rd(3,4) assms(6,7,12)] by blast
  let ?c1 = "c\<lparr>net_of := n, read_tmp := map Some d @ drop (length d) (read_tmp c)\<rparr>"
  have p1: "reading ?c1" "held ?c1 h" "read_tmp ?c1 = map Some d @ drop (length d) (read_tmp c)"
      "\<forall>p \<in> set ps. int (length p) \<le> maxPackageSize ?c1"
    using rd(1) assms(4,8) by (simp_all add: reading_def held_def split: option.splits)
  obtain r where r: "read_packets can inp dec hnd (length d) ?c1 =
      Some (True, ?c1\<lparr>total_request := total_request ?c1 + length ps, happened := happened ?c1 @ map (message dec) ps,
                     read_packet_buffer := r, local_buffer := None\<rparr>)"
      "if read_packet_buffer ?c1 = None \<and> ps = [] then r = None else \<exists>b. r = Some b \<and> unread b q \<and> soff b = 0"
    using read_packets_ok [where dec = dec and hnd = hnd and can = can, OF assms(1,2) p1(1,2) assms(5) p1(3,4) assms(9,10)] by blast
  let ?c2 = "?c1\<lparr>total_request := total_request ?c1 + length ps, happened := happened ?c1 @ map (message dec) ps,
                 read_packet_buffer := r, local_buffer := None\<rparr>"
  have b: "\<exists>b. r = Some b \<and> unread b q \<and> soff b = 0" using r(2) assms(11) by (auto split: if_splits)
  have l: "0 < int (length d)" using assms(6) by simp
  have "wmConnection_read can inp dec hnd c = wmConnection_read can inp dec hnd ?c2"
    by (subst wmConnection_read.simps)
       (use reading_status [OF rd(1)] n(1) rd(2) r(1) l in \<open>simp add: WM_SOCKET_ERROR_def WM_SOCKET_CLOSE_def\<close>)
  moreover have "conn_ready (w \<or> False \<in> set as) ?c2" using rd n(2) by (simp add: conn_ready_def reading_def)
  ultimately show ?thesis using b n(3) by (intro exI [of _ ?c2]) (auto simp: held_def)
qed

text \<open>The end of the stream: the connection is closed.\<close>

lemma close_quiet:
  assumes "env n = Ret k # rest" "read_co (sk n) = None" "write_co (sk n) = None"
  shows "\<exists>r n'. wmSocket_close n = Some (r, n') \<and> closed (sk n')"
  using assms
  by (auto simp: wmSocket_close_def wmWorkerLoop_del_def sys_def upd_sk_def WM_EVENT_NULL_def Let_def)

lemma read_eof:
  assumes "conn_ready w c" "env (net_of c) = Ret 0 # Ret k # rest"
  shows "\<exists>c'. wmConnection_read can inp dec hnd c = Some c' \<and> conn_status c' = CONN_CLOSED \<and>
    happened c' = happened c @ (if onClose c then [On_close] else []) \<and> total_request c' = total_request c"
proof -
  have rd: "reading c" "readable w (net_of c)" "pauses_during_read c = []" "pausedCoro c = None" "conn_status c \<noteq> CONN_CLOSED"
    using assms(1) by (simp_all add: conn_ready_def reading_def)
  have e: "env (net_of c) = read_env w [] Eof @ (Ret k # rest)" "end_ok WM_BUFFER_SIZE_BIG Eof" using assms(2) by simp_all
  obtain n where n: "wmSocket_read WM_BUFFER_SIZE_BIG WM_SOCKET_MAX_TIMEOUT (net_of c) = Some (read_result Eof, n)"
      "read_done (armed (net_of c)) Eof (sk (net_of c)) (Ret k # rest) (w \<or> False \<in> set []) (next_timer (net_of c)) n"
    using socket_read_ends [OF e(2) rd(2) e(1)] by blast
  have "read_co (sk (net_of c)) = None" "write_co (sk (net_of c)) = None" using rd(2) by (simp_all add: readable_def quiet_def)
  then obtain r n' where n': "wmSocket_close n = Some (r, n')"
    using close_quiet [of n k rest] read_doneD [OF n(2)] by auto
  show ?thesis
    by (subst wmConnection_read.simps)
       (use reading_status [OF rd(1)] n(1) n' rd(3,4,5) in
         \<open>simp add: conn_recv_def wmConnection_destroy_def WM_SOCKET_ERROR_def WM_SOCKET_CLOSE_def Let_def happen_def\<close>)
qed

lemma partial_all:
  assumes "partial qs h" "h = concat qs" "[] \<notin> set qs"
  shows "qs = []"
proof (cases qs)
  case (Cons p ps)
  then have "p \<noteq> []" "h = p @ concat ps" using assms(2,3) by auto
  then obtain k where k: "k < length p" "take k p = p @ concat ps" using assms(1) Cons by (auto simp: partial_def)
  have "length (take k p) = length (p @ concat ps)" by (simp only: k(2))
  then have "length p \<le> k" using k(1) by simp
  then show ?thesis using k(1) by simp
qed

lemma frames_nonempty: "frames inp ps \<Longrightarrow> [] \<notin> set ps"
  by (auto simp: frames_def)

lemma read_stream:
  assumes "frames inp qs" "conn_ready w c" "held c h" "read_packet_buffer c \<noteq> None" "partial qs h"
    "h @ concat (map snd cs) = concat qs" "\<forall>d \<in> snd ` set cs. d \<noteq> [] \<and> length d \<le> WM_BUFFER_SIZE_BIG"
    "\<forall>p \<in> set qs. int (length p) \<le> maxPackageSize c" "env (net_of c) = conn_env w cs @ Ret 0 # Ret k # rest"
    "\<And>m d. hnd m d = d" "\<And>k. can k"
  shows "\<exists>c'. wmConnection_read can inp dec hnd c = Some c' \<and> conn_status c' = CONN_CLOSED \<and>
    happened c' = happened c @ map (message dec) qs @ (if onClose c then [On_close] else []) \<and>
    total_request c' = total_request c + length qs"
  using assms(1-9)
proof (induction cs arbitrary: w c h qs)
  case Nil
  have "qs = []" using partial_all [OF Nil.prems(5) _ frames_nonempty [OF Nil.prems(1)]] Nil.prems(6) by simp
  then show ?case using read_eof [OF Nil.prems(2), of k rest can inp dec hnd] Nil.prems(9) by simp
next
  case (Cons x cs)
  obtain as d where x: "x = (as, d)" by (cases x)
  have d: "d \<noteq> []" "length d \<le> WM_BUFFER_SIZE_BIG" using Cons.prems(7) x by auto
  have "concat qs = (h @ d) @ concat (map snd cs)" using Cons.prems(6) x by simp
  from prefix_split [OF this frames_nonempty [OF Cons.prems(1)]] obtain ps ps' q
    where sp: "qs = ps @ ps'" "h @ d = concat ps @ q" "concat ps' = q @ concat (map snd cs)" "partial ps' q" by blast
  have fr: "frames inp (ps @ ps')" "frames inp ps'" using Cons.prems(1) sp(1) by (auto simp: frames_app)
  have mx: "\<forall>p \<in> set ps. int (length p) \<le> maxPackageSize c" using Cons.prems(8) sp(1) by simp
  have ev: "env (net_of c) = read_env w as (Data d) @ (conn_env (w \<or> False \<in> set as) cs @ Ret 0 # Ret k # rest)"
    using Cons.prems(9) x by simp
  obtain c' where c': "wmConnection_read can inp dec hnd c = wmConnection_read can inp dec hnd c'" "conn_ready (w \<or> False \<in> set as) c'"
      "held c' q" "read_packet_buffer c' \<noteq> None" "happened c' = happened c @ map (message dec) ps"
      "total_request c' = total_request c + length ps" "maxPackageSize c' = maxPackageSize c" "onClose c' = onClose c"
      "env (net_of c') = conn_env (w \<or> False \<in> set as) cs @ Ret 0 # Ret k # rest"
    using read_step [where dec = dec and hnd = hnd and can = can, OF fr(1) sp(4) Cons.prems(2,3) sp(2) d mx assms(10,11) _ ev]
      Cons.prems(4) by blast
  have "\<forall>d \<in> snd ` set cs. d \<noteq> [] \<and> length d \<le> WM_BUFFER_SIZE_BIG" using Cons.prems(7) by simp
  moreover have "\<forall>p \<in> set ps'. int (length p) \<le> maxPackageSize c'" using Cons.prems(8) sp(1) c'(7) by simp
  ultimately show ?case
    using Cons.IH [OF fr(2) c'(2,3,4) sp(4) sp(3) [symmetric] _ _ c'(9)] c'(1,5,6,8) sp(1) by auto
qed

text \<open>A function that does nothing to the connection.\<close>

definition leaves_alone :: "(u8 option list \<Rightarrow> wmConnection \<Rightarrow> wmConnection) \<Rightarrow> bool" where
  "leaves_alone hnd \<longleftrightarrow> (\<forall>m c. hnd m c = c)"

text \<open>
  C15: the stream a client sends comes out as its packets, for a connection whose \<open>onMessage\<close> does nothing to
  it before it returns or yields (\<open>leaves_alone\<close>: no \<open>send\<close>, \<open>pauseRecv\<close>, \<open>close\<close> or \<open>consumeRecvBuffer\<close>), with no
  packet longer than the limit of the connection and every call of \<open>epoll_ctl\<close> and every allocation
  successful. Whatever pieces the network makes of the stream and however long the coroutine waits for each,
  as long as the first piece holds the first packet, every packet becomes one message, decoded, in order, none
  twice and none left out, and at the end of the stream the connection is closed.
\<close>

theorem connection_framing:
  assumes "frames inp ps" "conn_ready False c" "read_packet_buffer c = None" "d @ concat (map snd cs) = concat ps"
    "length (hd ps) \<le> length d" "\<forall>d \<in> insert d (snd ` set cs). d \<noteq> [] \<and> length d \<le> WM_BUFFER_SIZE_BIG"
    "\<forall>p \<in> set ps. int (length p) \<le> maxPackageSize c" "env (net_of c) = conn_env False ((as, d) # cs) @ [Ret 0, Ret 0]"
    "leaves_alone hnd" "\<And>k. can k"
  shows "\<exists>c'. wmConnection_read can inp dec hnd c = Some c' \<and> conn_status c' = CONN_CLOSED \<and>
    happened c' = happened c @ map (message dec) ps @ (if onClose c then [On_close] else []) \<and>
    total_request c' = total_request c + length ps"
proof -
  have la: "\<And>m d. hnd m d = d" using assms(9) by (simp add: leaves_alone_def)
  have d: "d \<noteq> []" "length d \<le> WM_BUFFER_SIZE_BIG" using assms(6) by auto
  from prefix_split [OF assms(4) [symmetric] frames_nonempty [OF assms(1)]] obtain ps1 ps2 q
    where sp: "ps = ps1 @ ps2" "d = concat ps1 @ q" "concat ps2 = q @ concat (map snd cs)" "partial ps2 q" by blast
  have ne: "ps1 \<noteq> []" using assms(5) d(1) sp by (auto simp: partial_def)
  have fr: "frames inp (ps1 @ ps2)" "frames inp ps2" using assms(1) sp(1) by (auto simp: frames_app)
  have mx: "\<forall>p \<in> set ps1. int (length p) \<le> maxPackageSize c" "\<forall>p \<in> set ps2. int (length p) \<le> maxPackageSize c"
    using assms(7) sp(1) by auto
  have h: "held c []" "[] @ d = concat ps1 @ q" using assms(3) sp(2) by (simp_all add: held_def)
  let ?w = "False \<or> False \<in> set as"
  have ev: "env (net_of c) = read_env False as (Data d) @ (conn_env ?w cs @ Ret 0 # Ret 0 # [])"
    using assms(8) by simp
  have or: "read_packet_buffer c \<noteq> None \<or> ps1 \<noteq> []" using ne ..
  obtain c' where c': "wmConnection_read can inp dec hnd c = wmConnection_read can inp dec hnd c'" "conn_ready ?w c'"
      "held c' q" "read_packet_buffer c' \<noteq> None" "happened c' = happened c @ map (message dec) ps1"
      "total_request c' = total_request c + length ps1" "maxPackageSize c' = maxPackageSize c" "onClose c' = onClose c"
      "env (net_of c') = conn_env ?w cs @ Ret 0 # Ret 0 # []"
    using read_step [where dec = dec and hnd = hnd and can = can, OF fr(1) sp(4) assms(2) h d mx(1) la assms(10) or ev] by blast
  have cs: "\<forall>d \<in> snd ` set cs. d \<noteq> [] \<and> length d \<le> WM_BUFFER_SIZE_BIG" using assms(6) by simp
  have mx': "\<forall>p \<in> set ps2. int (length p) \<le> maxPackageSize c'" using mx(2) c'(7) by simp
  show ?thesis
    using read_stream [where dec = dec and hnd = hnd and can = can, OF fr(2) c'(2,3,4) sp(4) sp(3) [symmetric] cs mx' c'(9) la assms(10)]
      c'(1,5,6,8) sp(1) by auto
qed

text \<open>A protocol for the witnesses: the first byte is the length of the packet.\<close>

fun len_input :: "u8 option list \<Rightarrow> int option" where
  "len_input (Some n # bs) = Some (if Suc (length bs) < unat n then 0 else int (unat n))"
| "len_input bs = Some 0"

lemma len_packet: "unat n = Suc (length bs) \<Longrightarrow> frames len_input [n # bs]"
  by (auto simp: frames_def take_Cons split: nat.split)

lemma len_frames: "frames len_input [[3, 7, 8], [2, 5]]"
  using len_packet [of 3 "[7, 8]"] len_packet [of 2 "[5]"] frames_Cons [of len_input "[3, 7, 8]" "[[2, 5]]"] by simp

definition open_conn :: "answer list \<Rightarrow> wmConnection" where
  "open_conn as = the (fst (wmConnection_create 7 (sk (idle_net [])) (idle_net as) \<lparr>wm_connections = [], last_id = 0\<rparr>))
     \<lparr>onMessage := True, has_protocol := True, onClose := True\<rparr>"

lemma next_first: "next_conn_id 0 = (1, 1)"
  by (simp add: next_conn_id_def)

lemma open_conn_fields [simp]: "conn_ready False (open_conn as)" "read_packet_buffer (open_conn as) = None"
    "env (net_of (open_conn as)) = as" "maxPackageSize (open_conn as) = 1024000" "happened (open_conn as) = []"
    "onClose (open_conn as)" "local_buffer (open_conn as) = None"
  by (simp_all add: open_conn_def wmConnection_create_def next_first WM_HASH_ADD_def WM_HASH_DEL_def conn_ready_def reading_def
      readable_def WM_MAX_PACKAGE_SIZE_def idle_net_def wait_net_def wait_socket_def quiet_def)

theorem connection_framing_witness:
  "\<exists>c'. wmConnection_read (\<lambda>_. True) len_input id (\<lambda>_. id)
      (open_conn (conn_env False [([False], [3, 7, 8, 2]), ([True, False], [5])] @ [Ret 0, Ret 0])) = Some c' \<and>
    happened c' = [On_message [Some 3, Some 7, Some 8], On_message [Some 2, Some 5], On_close]"
proof -
  let ?c = "open_conn (conn_env False [([False], [3, 7, 8, 2]), ([True, False], [5])] @ [Ret 0, Ret 0])"
  have "\<exists>c'. wmConnection_read (\<lambda>_. True) len_input id (\<lambda>_. id) ?c = Some c' \<and> conn_status c' = CONN_CLOSED \<and>
    happened c' = happened ?c @ map (message id) [[3, 7, 8], [2, 5]] @ (if onClose ?c then [On_close] else []) \<and>
    total_request c' = total_request ?c + length [[3, 7, 8], [2, 5 :: u8]]"
    by (rule connection_framing [OF len_frames, where d = "[3, 7, 8, 2]" and cs = "[([True, False], [5])]" and as = "[False]"])
       (simp_all add: WM_BUFFER_SIZE_BIG_def leaves_alone_def)
  then show ?thesis by (auto simp: message_def)
qed

text \<open>
  C16: what the first piece has to hold the first packet for: as long as the connection has no buffer of
  its own, a piece that ends within the first packet is thrown away. The reading goes on as if these
  bytes had never come, so the rest of the packet is taken for the beginning of the next one.
\<close>

theorem connection_first_part_lost:
  assumes "frames inp (p # ps)" "conn_ready False c" "read_packet_buffer c = None" "0 < k" "k < length p" "k \<le> WM_BUFFER_SIZE_BIG"
    "env (net_of c) = read_env False as (Data (take k p)) @ rest" "\<And>m d. hnd m d = d" "\<And>k. can k"
  shows "\<exists>c'. wmConnection_read can inp dec hnd c = wmConnection_read can inp dec hnd c' \<and> conn_ready (False \<in> set as) c' \<and>
    read_packet_buffer c' = None \<and> local_buffer c' = None \<and> happened c' = happened c \<and> env (net_of c') = rest"
proof -
  let ?d = "take k p"
  have rd: "reading c" "has_protocol c" "readable False (net_of c)" "pauses_during_read c = []" "pausedCoro c = None"
    using assms(2) by (simp_all add: conn_ready_def)
  have d: "?d \<noteq> []" "length ?d \<le> WM_BUFFER_SIZE_BIG" "length ?d = k" using assms(4,5,6) by auto
  obtain n where n: "conn_recv c = Some (int (length ?d), c\<lparr>net_of := n, read_tmp := map Some ?d @ drop (length ?d) (read_tmp c)\<rparr>)"
      "readable (False \<or> False \<in> set as) n" "env n = rest"
    using conn_recv_data [OF rd(3,4) d(1,2) assms(7)] by blast
  let ?c1 = "c\<lparr>net_of := n, read_tmp := map Some ?d @ drop (length ?d) (read_tmp c)\<rparr>"
  have p1: "frames inp ([] @ p # ps)" "partial (p # ps) ?d" "reading ?c1" "held ?c1 []" "[] @ ?d = concat [] @ ?d"
      "read_tmp ?c1 = map Some ?d @ drop (length ?d) (read_tmp c)" "\<forall>p \<in> set []. int (length p) \<le> maxPackageSize ?c1"
    using rd(1) assms(1,3,5) by (auto simp: reading_def held_def partial_def)
  have r: "read_packets can inp dec hnd (length ?d) ?c1 =
      Some (True, ?c1\<lparr>total_request := total_request ?c1 + length ([] :: u8 list list), happened := happened ?c1 @ map (message dec) [],
                     read_packet_buffer := None, local_buffer := None\<rparr>)"
    using read_packets_ok [where dec = dec and hnd = hnd and can = can, OF p1 assms(8,9)] assms(3) by auto
  let ?c2 = "?c1\<lparr>total_request := total_request ?c1 + length ([] :: u8 list list), happened := happened ?c1 @ map (message dec) [],
                 read_packet_buffer := None, local_buffer := None\<rparr>"
  have l: "0 < int (length ?d)" using d(1) by simp
  have "wmConnection_read can inp dec hnd c = wmConnection_read can inp dec hnd ?c2"
    by (subst wmConnection_read.simps)
       (use reading_status [OF rd(1)] n(1) rd(2) r l in \<open>simp add: WM_SOCKET_ERROR_def WM_SOCKET_CLOSE_def\<close>)
  moreover have "conn_ready (False \<in> set as) ?c2" using rd n(2) by (simp add: conn_ready_def reading_def)
  ultimately show ?thesis using n(3) by (intro exI [of _ ?c2]) simp
qed

theorem connection_first_part_lost_witness:
  "\<exists>c'. wmConnection_read (\<lambda>_. True) len_input id (\<lambda>_. id) (open_conn (read_env False [False] (Data [3, 7]) @ [Bytes [8], Ret 0])) =
      wmConnection_read (\<lambda>_. True) len_input id (\<lambda>_. id) c' \<and>
    happened c' = [] \<and> read_packet_buffer c' = None \<and> env (net_of c') = [Bytes [8], Ret 0]"
  using connection_first_part_lost [OF len_frames, of "open_conn (read_env False [False] (Data [3, 7]) @ [Bytes [8], Ret 0])" 2 "[False]"
      "[Bytes [8], Ret 0]" "\<lambda>_. id" "\<lambda>_. True" id]
  by (auto simp: WM_BUFFER_SIZE_BIG_def)

section \<open>Pausing\<close>

text \<open>
  C17: a connection without an application protocol that is paused while it waits for data gives the user
  the bytes of another connection. All of them read into one buffer, and the message is taken out of it
  after the pause: it is what the buffer holds then.
\<close>

theorem connection_paused_mixup:
  assumes "reading c" "\<not> has_protocol c" "readable False (net_of c)" "pauses_during_read c = [True]"
    "pause_ends c = [(False, map Some other @ r)]" "length other = length d" "d \<noteq> []" "length d \<le> WM_BUFFER_SIZE_BIG"
    "env (net_of c) = read_env False as (Data d) @ rest" "\<And>m d. hnd m d = d"
  shows "\<exists>c'. wmConnection_read can inp dec hnd c = wmConnection_read can inp dec hnd c' \<and>
    happened c' = happened c @ [On_message (map Some other)] \<and> env (net_of c') = rest"
proof -
  obtain n where n: "wmSocket_read WM_BUFFER_SIZE_BIG WM_SOCKET_MAX_TIMEOUT (net_of c) = Some ((int (length d), d), n)"
      "readable (False \<or> False \<in> set as) n" "env n = rest"
    using socket_read_data [OF assms(7,8,3,9)] by blast
  let ?c1 = "c\<lparr>net_of := n, read_tmp := map Some d @ drop (length d) (read_tmp c), isPaused := True, pauses_during_read := []\<rparr>"
  have r1: "conn_recv c = Some (int (length d), ?c1)" using n(1) assms(4) by (simp add: conn_recv_def)
  obtain t where t: "me n = Some t" using n(2) by (auto simp: readable_def quiet_def)
  let ?c2 = "?c1\<lparr>pausedCoro := None, isPaused := False, pause_ends := [], read_tmp := map Some other @ r,
      total_request := total_request c + 1, happened := happened c @ [On_message (map Some other)]\<rparr>"
  have r2: "read_raw hnd (length d) ?c1 = Some (True, ?c2)"
    using assms(1,5,6,10) t
    by (simp add: read_raw_def check_read_status_def reading_def memcpy_from_def happen_def)
  have l: "0 < int (length d)" using assms(7) by simp
  have "wmConnection_read can inp dec hnd c = wmConnection_read can inp dec hnd ?c2"
    by (subst wmConnection_read.simps)
       (use reading_status [OF assms(1)] r1 r2 assms(2) l in \<open>simp add: WM_SOCKET_ERROR_def WM_SOCKET_CLOSE_def\<close>)
  then show ?thesis using n(3) by (intro exI [of _ ?c2]) simp
qed

theorem connection_paused_mixup_witness:
  "\<exists>c'. wmConnection_read (\<lambda>_. True) len_input id (\<lambda>_. id)
      ((open_conn (read_env False [False] (Data [1, 2]) @ [Ret 0]))\<lparr>has_protocol := False, pauses_during_read := [True],
         pause_ends := [(False, [Some 9, Some 9, None])]\<rparr>) = wmConnection_read (\<lambda>_. True) len_input id (\<lambda>_. id) c' \<and>
    happened c' = [On_message [Some 9, Some 9]]"
proof -
  let ?o = "open_conn (read_env False [False] (Data [1, 2]) @ [Ret 0])"
  let ?c = "?o\<lparr>has_protocol := False, pauses_during_read := [True], pause_ends := [(False, [Some 9, Some 9, None])]\<rparr>"
  have o: "reading ?o" "readable False (net_of ?o)" using open_conn_fields(1) unfolding conn_ready_def by blast+
  have "\<exists>c'. wmConnection_read (\<lambda>_. True) len_input id (\<lambda>_. id) ?c = wmConnection_read (\<lambda>_. True) len_input id (\<lambda>_. id) c' \<and>
      happened c' = happened ?c @ [On_message (map Some [9, 9])] \<and> env (net_of c') = [Ret 0]"
    by (rule connection_paused_mixup [where d = "[1, 2]" and r = "[None]" and as = "[False]"])
       (use o in \<open>simp_all add: reading_def WM_BUFFER_SIZE_BIG_def\<close>)
  then show ?thesis by auto
qed

section \<open>Sending\<close>

text \<open>
  sending over a connection encodes the data with the protocol of the worker and delivers all of the
  encoded bytes in order; raw data goes out as it is. A connection that is not established sends nothing.
\<close>

theorem connection_send:
  assumes "conn_status c = CONN_ESTABLISHED" "sk_transport (sk (net_of c)) = WM_SOCK_TCP" "has_protocol c"
    "if raw then bs = data else enc data = Some bs"
    "complete (length bs) as" "quiet WM_EVENT_WRITE False (net_of c)" "drained (sk (net_of c))" "\<And>k. can k"
    "0 < maxSendBufferSize (sk (net_of c))" "maxSendBufferSize (sk (net_of c)) < 2 ^ 63"
    "env (net_of c) = send_env False (length bs) as @ rest"
  shows "(\<exists>cs c'. wmConnection_send can enc data raw c = Some (True, c') \<and> calls (net_of c') = calls (net_of c) @ cs \<and>
      received cs as = map Some bs \<and> conn_status c' = CONN_ESTABLISHED \<and> env (net_of c') = rest \<and> drained (sk (net_of c'))) \<and>
    wmConnection_send can enc data raw (c\<lparr>conn_status := CONN_CLOSED\<rparr>) = Some (False, c\<lparr>conn_status := CONN_CLOSED\<rparr>)"
proof -
  obtain cs n where n: "wmSocket_send can bs (net_of c) = Some (int (length bs), n)" "calls n = calls (net_of c) @ cs"
      "received cs as = map Some bs" "env n = rest" "drained (sk n)"
    using send_all [where can = can, OF assms(5-11)] by blast
  have "wmConnection_send can enc data raw c = Some (True, after_full (full_calls (net_of c)) (c\<lparr>net_of := n\<rparr>))"
    using assms(1-4) n(1)
    by (cases raw) (simp_all add: wmConnection_send_def conn_send_done_def WM_SOCKET_ERROR_def WM_SOCKET_CLOSE_def)
  then show ?thesis using n(2-5) assms(1,2) by (auto simp: after_full_def happen_def wmConnection_send_def)
qed

theorem connection_send_witness:
  "\<exists>cs c'. wmConnection_send (\<lambda>_. True) (\<lambda>bs. Some (0 # bs)) [1, 2] False (open_conn (send_env False 3 [Sent 1, Again, Sent 2])) = Some (True, c') \<and>
     received cs [Sent 1, Again, Sent 2] = [Some 0, Some 1, Some 2]"
proof -
  let ?c = "open_conn (send_env False 3 [Sent 1, Again, Sent 2])"
  have "conn_status ?c = CONN_ESTABLISHED" "sk_transport (sk (net_of ?c)) = WM_SOCK_TCP" "has_protocol ?c"
    "quiet WM_EVENT_WRITE False (net_of ?c)" "drained (sk (net_of ?c))" "maxSendBufferSize (sk (net_of ?c)) = 102400"
    by (simp_all add: open_conn_def wmConnection_create_def next_first WM_HASH_ADD_def WM_HASH_DEL_def WM_MAX_SEND_BUFFER_SIZE_def
        idle_net_def wait_net_def wait_socket_def quiet_def drained_def)
  then show ?thesis
    using connection_send [of ?c False "[0, 1, 2]" "[1, 2]" "\<lambda>bs. Some (0 # bs)" "[Sent 1, Again, Sent 2]" "\<lambda>_. True" "[]"] by auto
qed

section \<open>The table of connections\<close>

text \<open>
  Creating a connection always succeeds and makes it the one its descriptor finds, in place of any
  older connection with the same descriptor; the others stay. Its id is the next positive \<open>int\<close>: after
  the largest one the numbers start again at 1.
\<close>

theorem connection_create:
  assumes "table_ok (wm_connections t)" "0 \<le> last_id t" "last_id t < 2 ^ 31"
  shows "\<exists>c t'. wmConnection_create fd s n t = (Some c, t') \<and> table_ok (wm_connections t') \<and>
    conn_id c = (if last_id t = 2 ^ 31 - 1 then 1 else last_id t + 1) \<and> last_id t' = conn_id c \<and>
    conn_status c = CONN_ESTABLISHED \<and> maxSendBufferSize (sk (net_of c)) = WM_MAX_SEND_BUFFER_SIZE \<and>
    wmConnection_find_by_fd t' fd = Some (conn_id c) \<and>
    (if hash_key fd' = hash_key fd then True else wmConnection_find_by_fd t' fd' = wmConnection_find_by_fd t fd')"
proof -
  let ?d = "snd (WM_HASH_DEL (wm_connections t) (hash_key fd))"
  have d: "table_ok ?d" "WM_HASH_GET ?d = (WM_HASH_GET (wm_connections t))(hash_key fd := None)"
    using hm.del_ok hm.get_del assms(1) by auto
  obtain i l where il: "next_conn_id (last_id t) = (i, l)" by (cases "next_conn_id (last_id t)")
  have i: "i = (if last_id t = 2 ^ 31 - 1 then 1 else last_id t + 1)" "l = i"
  proof -
    have "sint (word_of_int (last_id t + 1) :: u32) = (if last_id t = 2 ^ 31 - 1 then - (2 ^ 31) else last_id t + 1)"
    proof (cases "last_id t = 2 ^ 31 - 1")
      case True
      then show ?thesis by simp
    next
      case False
      then have "last_id t + 1 < 2 ^ 31" using assms(3) by simp
      then have "signed_take_bit 31 (last_id t + 1) = last_id t + 1"
        using assms(2) by (intro signed_take_bit_int_eq_self) simp_all
      moreover have "sint (word_of_int (last_id t + 1) :: u32) = signed_take_bit 31 (last_id t + 1)"
        by (simp only: sint_sbintrunc') simp
      ultimately show ?thesis using False by simp
    qed
    then show "i = (if last_id t = 2 ^ 31 - 1 then 1 else last_id t + 1)" "l = i"
      using il assms(2) by (auto simp: next_conn_id_def Let_def split: if_splits)
  qed
  have a: "fst (WM_HASH_ADD ?d (hash_key fd) i)"
      "WM_HASH_GET (snd (WM_HASH_ADD ?d (hash_key fd) i)) = (WM_HASH_GET ?d)(hash_key fd \<mapsto> i)"
    using hm.add_fresh [OF d(1), of "hash_key fd" i] d(2) by simp_all
  have k: "table_ok (snd (WM_HASH_ADD ?d (hash_key fd) i))" by (rule hm.add_ok [OF d(1)])
  then show ?thesis using a d(2) il i
    by (cases "WM_HASH_ADD ?d (hash_key fd) i") (auto simp: wmConnection_create_def wmConnection_find_by_fd_def Let_def)
qed

theorem connection_create_witness:
  "\<exists>c t'. wmConnection_create 7 wait_socket (idle_net []) \<lparr>wm_connections = [], last_id = 2 ^ 31 - 1\<rparr> = (Some c, t') \<and> conn_id c = 1 \<and>
     wmConnection_find_by_fd t' 7 = Some 1"
  using connection_create [of "\<lparr>wm_connections = [], last_id = 2 ^ 31 - 1\<rparr>" 7 wait_socket "idle_net []" 7] by auto

text \<open>
  \<open>consumeRecvBuffer\<close> drops bytes from the end of the receive buffer, where the newest bytes are: the
  first bytes, the ones a protocol would have consumed, stay. Asked for the whole buffer or more, it
  does nothing.
\<close>

theorem connection_consume:
  assumes "read_packet_buffer c = Some b" "unread b x" "soff b = 0" "0 < n" "length x < 2 ^ 63" "n < 2 ^ 63"
  shows "\<exists>b' c'. wmConnection_consumeRecvBuffer (int n) c = Some c' \<and> read_packet_buffer c' = Some b' \<and>
    unread b' (if n < length x then take (length x - n) x else x)"
proof -
  have l: "slen b = length x" using unread_length [OF assms(2)] assms(3) by simp
  have c: "(of_nat (slen b) - word_of_int (soff b) :: u64) \<le> word_of_int (int n) \<longleftrightarrow> length x \<le> n"
    using assms(3,5,6) l by (simp add: word_le_nat_alt unat_of_nat take_bit_nat_eq_self)
  show ?thesis
  proof (cases "n < length x")
    case False
    then show ?thesis using c assms(1,2) by (simp add: wmConnection_consumeRecvBuffer_def)
  next
    case True
    let ?l = "length x - n"
    have x: "contents b = x" "wf_bytes b" using assms(2,3) by (simp_all add: unread_def)
    then obtain r where r: "sbuf b = map Some x @ r" "length (sbuf b) = ssize b + 1" "slen b \<le> ssize b"
      by (auto simp: wf_bytes_def)
    have m: "memcpy_to (sbuf b) ?l [Some 0] = Some (take ?l (sbuf b) @ [Some 0] @ drop (?l + 1) (sbuf b))"
      using r l True by (simp add: memcpy_to_def)
    let ?b = "b\<lparr>slen := ?l, sbuf := take ?l (sbuf b) @ [Some 0] @ drop (?l + 1) (sbuf b)\<rparr>"
    have "nat (int (slen b) - int n) = ?l" using l by simp
    then have e: "wmConnection_consumeRecvBuffer (int n) c = Some (c\<lparr>read_packet_buffer := Some ?b\<rparr>)"
      using c True assms(1) m by (simp add: wmConnection_consumeRecvBuffer_def Let_def)
    have t: "take ?l (sbuf b) = map Some (take ?l x)" using r(1) by (simp add: take_map)
    have "wf_string ?b" "contents ?b = take ?l x"
      by (rule wf_stringI [of _ "take ?l x" "drop (?l + 1) (sbuf b)"]; use t r l True in simp)+
    then have "unread ?b (take ?l x)" using unread_string [of ?b] assms(3) by simp
    then show ?thesis using e True by (intro exI [of _ ?b] exI [of _ "c\<lparr>read_packet_buffer := Some ?b\<rparr>"]) simp
  qed
qed

theorem connection_consume_witness:
  "\<exists>b' c'. wmConnection_consumeRecvBuffer 1 ((open_conn [])\<lparr>read_packet_buffer :=
      Some \<lparr>slen = 3, ssize = 3, soff = 0, sbuf = [Some 1, Some 2, Some 3, Some 0]\<rparr>\<rparr>) = Some c' \<and>
    read_packet_buffer c' = Some b' \<and> unread b' [1, 2]"
proof -
  let ?b = "\<lparr>slen = 3, ssize = 3, soff = 0, sbuf = [Some 1, Some 2, Some 3, Some 0]\<rparr> :: wmString"
  have "wf_bytes ?b" "contents ?b = [1, 2, 3]" by (simp_all add: wf_bytes_def contents_def)
  then have "unread ?b [1, 2, 3]" by (simp add: unread_def)
  then show ?thesis using connection_consume [of "(open_conn [])\<lparr>read_packet_buffer := Some ?b\<rparr>" ?b "[1, 2, 3]" 1] by simp
qed

end
