(* ===== verification/Wm_Khash.thy ===== *)
theory Wm_Khash
  imports Wm_Hash
begin

text \<open>
  The hash table \<open>include/khash.h\<close> under the macros of \<open>include/hash.h\<close>, instantiated for 32-bit keys
  as \<open>KHASH_MAP_INIT_INT\<close> does: open addressing with steps 1, 2, 3, ..., two flag bits for every
  bucket, packed into words, and a rehash in place that kicks the old entries out of the buckets the new
  ones need. \<open>None\<close> is an access outside of an array, the use of a key that was never written, or a loop
  that does not end. Allocation can fail: a parameter says how many of the allocations of a resize
  succeed.
\<close>

section \<open>Memory and flags\<close>

definition mem_at :: "'a list \<Rightarrow> u32 \<Rightarrow> 'a option" where
  "mem_at xs i = (if unat i < length xs then Some (xs ! unat i) else None)"

definition mem_set :: "'a list \<Rightarrow> u32 \<Rightarrow> 'a \<Rightarrow> 'a list option" where
  "mem_set xs i x = (if unat i < length xs then Some (xs[unat i := x]) else None)"

text \<open>The word of a bucket and the place of its bits: \<open>i >> 4\<close> and \<open>(i & 0xf) << 1\<close>.\<close>

definition flag_word :: "u32 \<Rightarrow> u32" where "flag_word i = drop_bit 4 i"
definition flag_shift :: "u32 \<Rightarrow> nat" where "flag_shift i = unat (push_bit 1 (i AND 0xf))"

definition flag_test :: "u32 \<Rightarrow> u32 list \<Rightarrow> u32 \<Rightarrow> bool option" where
  "flag_test c f i =
    map_option (\<lambda>w. drop_bit (flag_shift i) w AND c \<noteq> 0) (mem_at f (flag_word i))"

definition ac_isempty :: "u32 list \<Rightarrow> u32 \<Rightarrow> bool option" where "ac_isempty = flag_test 2"
definition ac_isdel :: "u32 list \<Rightarrow> u32 \<Rightarrow> bool option" where "ac_isdel = flag_test 1"
definition ac_iseither :: "u32 list \<Rightarrow> u32 \<Rightarrow> bool option" where "ac_iseither = flag_test 3"

definition flag_clear :: "u32 \<Rightarrow> u32 list \<Rightarrow> u32 \<Rightarrow> u32 list option" where
  "flag_clear c f i =
    Option.bind (mem_at f (flag_word i)) (\<lambda>w.
    mem_set f (flag_word i) (w AND NOT (push_bit (flag_shift i) c)))"

definition ac_set_isempty_false :: "u32 list \<Rightarrow> u32 \<Rightarrow> u32 list option" where "ac_set_isempty_false = flag_clear 2"
definition ac_set_isboth_false :: "u32 list \<Rightarrow> u32 \<Rightarrow> u32 list option" where "ac_set_isboth_false = flag_clear 3"

definition ac_set_isdel_true :: "u32 list \<Rightarrow> u32 \<Rightarrow> u32 list option" where
  "ac_set_isdel_true f i =
    Option.bind (mem_at f (flag_word i)) (\<lambda>w.
    mem_set f (flag_word i) (w OR push_bit (flag_shift i) 1))"

definition ac_fsize :: "u32 \<Rightarrow> u32" where
  "ac_fsize m = (if m < 16 then 1 else drop_bit 4 m)"

definition kroundup32 :: "u32 \<Rightarrow> u32" where
  "kroundup32 x =
    (let x = x - 1; x = x OR drop_bit 1 x; x = x OR drop_bit 2 x; x = x OR drop_bit 4 x;
         x = x OR drop_bit 8 x; x = x OR drop_bit 16 x in x + 1)"

text \<open>
  \<open>(khint_t)(m * 0.77 + 0.5)\<close>. The double next to 0.77 is above it by less than 2e-17, which for
  32-bit \<open>m\<close> is too little to reach the next integer.
\<close>

definition ac_upper :: "u32 \<Rightarrow> u32" where
  "ac_upper m = of_nat ((77 * unat m + 50) div 100)"

section \<open>The table\<close>

text \<open>Keys and values that have been allocated and not written are \<open>None\<close>.\<close>

record 'v khash =
  n_buckets :: u32
  kh_size :: u32
  n_occupied :: u32
  upper_bound :: u32
  kh_flags :: "u32 list"
  kh_keys :: "u32 option list"
  kh_vals :: "'v option list"

definition kh_init :: "'v khash" where
  "kh_init = \<lparr>n_buckets = 0, kh_size = 0, n_occupied = 0, upper_bound = 0, kh_flags = [], kh_keys = [], kh_vals = []\<rparr>"

definition kh_int_hash_func :: "u32 \<Rightarrow> u32" where
  "kh_int_hash_func key = key"

definition key_at :: "u32 option list \<Rightarrow> u32 \<Rightarrow> u32 option" where
  "key_at ks i = Option.bind (mem_at ks i) (\<lambda>k. k)"

text \<open>The condition of the two search loops: the bucket is in use, by a deleted entry or another key.\<close>

definition probe_past :: "'v khash \<Rightarrow> u32 \<Rightarrow> u32 \<Rightarrow> bool option" where
  "probe_past h key i =
    Option.bind (ac_isempty (kh_flags h) i) (\<lambda>e.
    if e then Some False
    else Option.bind (ac_isdel (kh_flags h) i) (\<lambda>d.
         if d then Some True else map_option (\<lambda>k. k \<noteq> key) (key_at (kh_keys h) i)))"

partial_function (option) get_loop :: "'v khash \<Rightarrow> u32 \<Rightarrow> u32 \<Rightarrow> u32 \<Rightarrow> u32 \<Rightarrow> u32 \<Rightarrow> u32 option" where
  "get_loop h key msk start i step =
    Option.bind (probe_past h key i) (\<lambda>go.
    if go then
      let step = step + 1; i = (i + step) AND msk in
      if i = start then Some (n_buckets h) else get_loop h key msk start i step
    else map_option (\<lambda>x. if x then n_buckets h else i) (ac_iseither (kh_flags h) i))"

definition kh_get :: "'v khash \<Rightarrow> u32 \<Rightarrow> u32 option" where
  "kh_get h key =
    (if n_buckets h \<noteq> 0 then
       let msk = n_buckets h - 1; i = kh_int_hash_func key AND msk in
       get_loop h key msk i i 0
     else Some 0)"

section \<open>Resizing\<close>

partial_function (option) free_slot :: "u32 list \<Rightarrow> u32 \<Rightarrow> u32 \<Rightarrow> u32 \<Rightarrow> u32 option" where
  "free_slot new msk i step =
    Option.bind (ac_isempty new i) (\<lambda>e.
    if e then Some i else let step = step + 1 in free_slot new msk ((i + step) AND msk) step)"

text \<open>The arrays during a rehash: keys, values, the flags of the old and of the new table.\<close>

type_synonym 'v arrays = "u32 option list \<times> 'v option list \<times> u32 list \<times> u32 list"

text \<open>The kick-out loop: put the entry into its new bucket; go on with the entry that was there, if any.\<close>

partial_function (option) kick_out :: "u32 \<Rightarrow> u32 \<Rightarrow> u32 \<Rightarrow> 'v option \<Rightarrow> 'v arrays \<Rightarrow> 'v arrays option" where
  "kick_out n msk key val st =
    (let (ks, vs, old, new) = st in
     Option.bind (free_slot new msk (kh_int_hash_func key AND msk) 0) (\<lambda>i.
     Option.bind (ac_set_isempty_false new i) (\<lambda>new.
     Option.bind (if i < n then map_option Not (ac_iseither old i) else Some False) (\<lambda>taken.
     Option.bind (mem_set ks i (Some key)) (\<lambda>ks'.
     Option.bind (mem_set vs i val) (\<lambda>vs'.
     if taken then
       Option.bind (key_at ks i) (\<lambda>key'.
       Option.bind (mem_at vs i) (\<lambda>val'.
       Option.bind (ac_set_isdel_true old i) (\<lambda>old.
       kick_out n msk key' val' (ks', vs', old, new))))
     else Some (ks', vs', old, new)))))))"

definition rehash_bucket :: "u32 \<Rightarrow> u32 \<Rightarrow> u32 \<Rightarrow> 'v arrays \<Rightarrow> 'v arrays option" where
  "rehash_bucket n msk j st =
    (let (ks, vs, old, new) = st in
     Option.bind (ac_iseither old j) (\<lambda>x.
     if x then Some st
     else
       Option.bind (key_at ks j) (\<lambda>key.
       Option.bind (mem_at vs j) (\<lambda>val.
       Option.bind (ac_set_isdel_true old j) (\<lambda>old.
       kick_out n msk key val (ks, vs, old, new))))))"

fun rehash :: "u32 \<Rightarrow> u32 \<Rightarrow> u32 list \<Rightarrow> 'v arrays \<Rightarrow> 'v arrays option" where
  "rehash n msk [] st = Some st"
| "rehash n msk (j # js) st = Option.bind (rehash_bucket n msk j st) (rehash n msk js)"

definition krealloc :: "'a option list \<Rightarrow> u32 \<Rightarrow> 'a option list" where
  "krealloc xs n = take (unat n) xs @ replicate (unat n - length xs) None"

text \<open>\<open>mem\<close> is the number of allocations that succeed.\<close>

definition kh_resize :: "nat \<Rightarrow> 'v khash \<Rightarrow> u32 \<Rightarrow> (int \<times> 'v khash) option" where
  "kh_resize mem h new_n_buckets =
    (let nn = kroundup32 new_n_buckets;
         nn = (if nn < 4 then 4 else nn);
         grow = n_buckets h < nn in
     if ac_upper nn \<le> kh_size h then Some (0, h)
     else if mem = 0 then Some (- 1, h)
     else if grow \<and> mem = 1 then Some (- 1, h)
     else
       let h = (if grow then h\<lparr>kh_keys := krealloc (kh_keys h) nn\<rparr> else h) in
       if grow \<and> mem = 2 then Some (- 1, h)
       else
         let h = (if grow then h\<lparr>kh_vals := krealloc (kh_vals h) nn\<rparr> else h) in
         map_option (\<lambda>(ks, vs, old, new).
             let ks = (if nn < n_buckets h then krealloc ks nn else ks);
                 vs = (if nn < n_buckets h then krealloc vs nn else vs) in
             (0, \<lparr>n_buckets = nn, kh_size = kh_size h, n_occupied = kh_size h, upper_bound = ac_upper nn,
                  kh_flags = new, kh_keys = ks, kh_vals = vs\<rparr>))
           (rehash (n_buckets h) (nn - 1) (map of_nat [0..<unat (n_buckets h)])
             (kh_keys h, kh_vals h, kh_flags h, replicate (unat (ac_fsize nn)) 0xaaaaaaaa)))"

section \<open>Inserting and deleting\<close>

text \<open>The search of \<open>kh_put\<close>: \<open>x\<close>, the last bucket looked at, and the last deleted one passed.\<close>

partial_function (option) put_loop ::
    "'v khash \<Rightarrow> u32 \<Rightarrow> u32 \<Rightarrow> u32 \<Rightarrow> u32 \<Rightarrow> u32 \<Rightarrow> u32 \<Rightarrow> (u32 \<times> u32 \<times> u32) option" where
  "put_loop h key msk start i step site =
    Option.bind (probe_past h key i) (\<lambda>go.
    if go then
      Option.bind (ac_isdel (kh_flags h) i) (\<lambda>d.
      let site = (if d then i else site); step = step + 1; i = (i + step) AND msk in
      if i = start then Some (site, i, site) else put_loop h key msk start i step site)
    else Some (n_buckets h, i, site))"

definition put_slot :: "'v khash \<Rightarrow> u32 \<Rightarrow> u32 option" where
  "put_slot h key =
    (let msk = n_buckets h - 1; i = kh_int_hash_func key AND msk in
     Option.bind (ac_isempty (kh_flags h) i) (\<lambda>e.
     if e then Some i
     else
       Option.bind (put_loop h key msk i i 0 (n_buckets h)) (\<lambda>(x, i, site).
       if x = n_buckets h then
         map_option (\<lambda>e. if e \<and> site \<noteq> n_buckets h then site else i) (ac_isempty (kh_flags h) i)
       else Some x)))"

definition put_entry :: "'v khash \<Rightarrow> u32 \<Rightarrow> (int \<times> u32 \<times> 'v khash) option" where
  "put_entry h key =
    Option.bind (put_slot h key) (\<lambda>x.
    Option.bind (ac_isempty (kh_flags h) x) (\<lambda>e.
    Option.bind (ac_isdel (kh_flags h) x) (\<lambda>d.
    if e \<or> d then
      Option.bind (mem_set (kh_keys h) x (Some key)) (\<lambda>ks.
      map_option (\<lambda>f.
          (if e then 1 else 2, x,
           h\<lparr>kh_keys := ks, kh_flags := f, kh_size := kh_size h + 1,
             n_occupied := (if e then n_occupied h + 1 else n_occupied h)\<rparr>))
        (ac_set_isboth_false (kh_flags h) x))
    else Some (0, x, h))))"

definition kh_put :: "nat \<Rightarrow> 'v khash \<Rightarrow> u32 \<Rightarrow> (int \<times> u32 \<times> 'v khash) option" where
  "kh_put mem h key =
    Option.bind
      (if upper_bound h \<le> n_occupied h then
         if push_bit 1 (kh_size h) < n_buckets h then kh_resize mem h (n_buckets h - 1)
         else kh_resize mem h (n_buckets h + 1)
       else Some (0, h)) (\<lambda>(r, h).
    if r < 0 then Some (- 1, n_buckets h, h) else put_entry h key)"

definition kh_del :: "'v khash \<Rightarrow> u32 \<Rightarrow> 'v khash option" where
  "kh_del h x =
    (if x \<noteq> n_buckets h then
       Option.bind (ac_iseither (kh_flags h) x) (\<lambda>e.
       if e then Some h
       else map_option (\<lambda>f. h\<lparr>kh_flags := f, kh_size := kh_size h - 1\<rparr>) (ac_set_isdel_true (kh_flags h) x))
     else Some h)"

section \<open>The macros of hash.h\<close>

text \<open>The result is the bucket as an \<open>int\<close>, or \<open>-1\<close>; of \<open>WM_HASH_GET\<close>, the value or the null pointer.\<close>

definition hash_add :: "nat \<Rightarrow> 'v khash \<Rightarrow> u32 \<Rightarrow> 'v \<Rightarrow> (int \<times> 'v khash) option" where
  "hash_add mem h key v =
    Option.bind (kh_put mem h key) (\<lambda>(ret, p, h).
    if ret \<noteq> 0 then map_option (\<lambda>vs. (sint p, h\<lparr>kh_vals := vs\<rparr>)) (mem_set (kh_vals h) p (Some v))
    else Some (- 1, h))"

definition hash_del :: "'v khash \<Rightarrow> u32 \<Rightarrow> (int \<times> 'v khash) option" where
  "hash_del h key =
    Option.bind (kh_get h key) (\<lambda>p.
    if p \<noteq> n_buckets h then map_option (Pair (sint p)) (kh_del h p) else Some (- 1, h))"

definition hash_get :: "'v khash \<Rightarrow> u32 \<Rightarrow> 'v option option" where
  "hash_get h key =
    Option.bind (kh_get h key) (\<lambda>p.
    if p \<noteq> n_buckets h then map_option Some (Option.bind (mem_at (kh_vals h) p) (\<lambda>v. v)) else Some None)"

section \<open>Powers of two\<close>

lemma div_power_nat_word: "unat (drop_bit n (w :: u32)) = unat w div 2 ^ n"
  using unat_drop_bit_eq [of n w] by (simp add: drop_bit_eq_div del: unsigned_drop_bit_eq)

lemma and_exp_nat:
  "unat ((w :: u32) AND (2 ^ n - 1)) = unat w mod 2 ^ n"
proof -
  have "w AND (2 ^ n - 1) = take_bit n w" by (simp only: take_bit_eq_mask mask_eq_exp_minus_1)
  then have "unat (w AND (2 ^ n - 1)) = take_bit n (unat w)" by (simp only: unsigned_take_bit_eq)
  then show ?thesis by (simp only: take_bit_eq_mod)
qed

section \<open>Flags as bits\<close>

definition em :: "u32 list \<Rightarrow> nat \<Rightarrow> bool" where "em f n = bit (f ! (n div 16)) (2 * (n mod 16) + 1)"
definition dl :: "u32 list \<Rightarrow> nat \<Rightarrow> bool" where "dl f n = bit (f ! (n div 16)) (2 * (n mod 16))"

lemma flag_word_nat: "unat (flag_word i) = unat i div 16"
  using div_power_nat_word [of 4 i] by (simp add: flag_word_def)

lemma flag_shift_nat: "flag_shift i = 2 * (unat i mod 16)"
proof -
  have "unat (i AND 0xf) = unat i mod 16" using and_exp_nat [of i 4] by simp
  moreover from this have "unat (i AND 0xf) < 16" by simp
  ultimately show ?thesis unfolding flag_shift_def by (simp add: unat_word_ariths push_bit_eq_mult)
qed

lemma bit_two: "bit (2 :: u32) n \<longleftrightarrow> n = 1"
  using bit_exp_iff [where ?'a = "32 word", of 1 n] by auto

lemma bit_three: "bit (3 :: u32) n \<longleftrightarrow> n = 0 \<or> n = 1"
proof -
  have "(3 :: u32) = mask 2" by (simp add: mask_eq_exp_minus_1)
  then have "bit (3 :: u32) n \<longleftrightarrow> n < 2" by (simp only: bit_mask_iff) auto
  then show ?thesis by auto
qed

lemma and_tests:
  "(w :: u32) AND 1 \<noteq> 0 \<longleftrightarrow> bit w 0" "w AND 2 \<noteq> 0 \<longleftrightarrow> bit w 1" "w AND 3 \<noteq> 0 \<longleftrightarrow> bit w 0 \<or> bit w 1"
proof -
  show "w AND 1 \<noteq> 0 \<longleftrightarrow> bit w 0" using and_exp_eq_0_iff_not_bit [of w 0] by simp
  show "w AND 2 \<noteq> 0 \<longleftrightarrow> bit w 1" using and_exp_eq_0_iff_not_bit [of w 1] by simp
  have "w AND 3 = 0 \<longleftrightarrow> (\<forall>n. \<not> bit (w AND 3) n)" by (metis bit_0_eq bit_eqI bot_apply bot_bool_def)
  also have "\<dots> \<longleftrightarrow> \<not> bit w 0 \<and> \<not> bit w 1" unfolding bit_and_iff bit_three by blast
  finally show "w AND 3 \<noteq> 0 \<longleftrightarrow> bit w 0 \<or> bit w 1" by blast
qed

definition covers :: "u32 list \<Rightarrow> nat \<Rightarrow> bool" where
  "covers f m \<longleftrightarrow> (\<forall>i<m. i div 16 < length f)"

lemma flag_reads:
  assumes "unat i div 16 < length f"
  shows "ac_isempty f i = Some (em f (unat i))" "ac_isdel f i = Some (dl f (unat i))"
    "ac_iseither f i = Some (em f (unat i) \<or> dl f (unat i))"
  using assms by (auto simp: ac_isempty_def ac_isdel_def ac_iseither_def flag_test_def mem_at_def flag_word_nat
      flag_shift_nat and_tests em_def dl_def bit_drop_bit_eq add.commute)

lemma bit_clear:
  assumes "k < 16" "j < 16" "b < 2" "c = 2 \<or> c = 3"
  shows "bit ((w :: u32) AND NOT (push_bit (2 * k) c)) (2 * j + b) \<longleftrightarrow> bit w (2 * j + b) \<and> \<not> (j = k \<and> bit c b)"
proof -
  have "2 * j + b < 32" using assms(2,3) by simp
  moreover have "b = 0 \<or> b = 1" using assms(3) by auto
  moreover have "2 * k \<le> 2 * j + b \<and> 2 * j + b - 2 * k < 2 \<longleftrightarrow> j = k" using assms(3) by auto
  ultimately show ?thesis
    using assms(4) by (auto simp: bit_and_iff bit_not_iff bit_push_bit_iff bit_two bit_three simp del: bit_numeral_word_iff)
qed

lemma bit_set:
  assumes "k < 16" "j < 16" "b < 2"
  shows "bit ((w :: u32) OR push_bit (2 * k) 1) (2 * j + b) \<longleftrightarrow> bit w (2 * j + b) \<or> j = k \<and> b = 0"
proof -
  have "2 * j + b < 32" using assms(2,3) by simp
  moreover have "bit (push_bit (2 * k) (1 :: u32)) (2 * j + b) \<longleftrightarrow> 2 * j + b < 32 \<and> j = k \<and> b = 0"
    unfolding bit_push_bit_iff bit_1_iff using assms(3) by (auto; presburger)
  ultimately show ?thesis by (simp add: bit_or_iff)
qed

text \<open>The writes: what the flags of every bucket are afterwards.\<close>

lemma same_bucket: "(n :: nat) div 16 = k div 16 \<Longrightarrow> n mod 16 = k mod 16 \<longleftrightarrow> n = k"
  by (metis div_mult_mod_eq)

lemma flag_clear_ok:
  assumes "unat i div 16 < length f" and c: "c = 2 \<or> c = 3"
  shows "\<exists>f'. flag_clear c f i = Some f' \<and> length f' = length f \<and>
    (\<forall>n. em f' n = (n \<noteq> unat i \<and> em f n)) \<and> (\<forall>n. dl f' n = (dl f n \<and> \<not> (n = unat i \<and> c = 3)))"
proof -
  define w where "w = f ! (unat i div 16) AND NOT (push_bit (2 * (unat i mod 16)) c)"
  have r: "flag_clear c f i = Some (f[unat i div 16 := w])"
    using assms by (simp add: flag_clear_def mem_at_def mem_set_def flag_word_nat flag_shift_nat w_def)
  have "bit (f[unat i div 16 := w] ! (n div 16)) (2 * (n mod 16) + b) \<longleftrightarrow>
      bit (f ! (n div 16)) (2 * (n mod 16) + b) \<and> \<not> (n = unat i \<and> bit c b)" if "b < 2" for n b
    using bit_clear [of "unat i mod 16" "n mod 16" b c "f ! (unat i div 16)"] that c same_bucket [of n "unat i"] assms(1)
    by (cases "n div 16 = unat i div 16") (auto simp: w_def nth_list_update)
  from this [of 0] this [of 1] show ?thesis
    using r c by (auto simp: em_def dl_def bit_two bit_three simp del: bit_numeral_word_iff)
qed

lemma set_isempty_false_ok:
  assumes "unat i div 16 < length f"
  shows "\<exists>f'. ac_set_isempty_false f i = Some f' \<and> length f' = length f \<and>
    (\<forall>n. em f' n = (n \<noteq> unat i \<and> em f n)) \<and> (\<forall>n. dl f' n = dl f n)"
  using flag_clear_ok [OF assms, of 2] by (auto simp: ac_set_isempty_false_def)

lemma set_isboth_false_ok:
  assumes "unat i div 16 < length f"
  shows "\<exists>f'. ac_set_isboth_false f i = Some f' \<and> length f' = length f \<and>
    (\<forall>n. em f' n = (n \<noteq> unat i \<and> em f n)) \<and> (\<forall>n. dl f' n = (n \<noteq> unat i \<and> dl f n))"
  using flag_clear_ok [OF assms, of 3] by (auto simp: ac_set_isboth_false_def)

lemma set_isdel_true_ok:
  assumes "unat i div 16 < length f"
  shows "\<exists>f'. ac_set_isdel_true f i = Some f' \<and> length f' = length f \<and>
    (\<forall>n. em f' n = em f n) \<and> (\<forall>n. dl f' n = (n = unat i \<or> dl f n))"
proof -
  define w where "w = f ! (unat i div 16) OR push_bit (2 * (unat i mod 16)) 1"
  have r: "ac_set_isdel_true f i = Some (f[unat i div 16 := w])"
    using assms by (simp add: ac_set_isdel_true_def mem_at_def mem_set_def flag_word_nat flag_shift_nat w_def)
  have "bit (f[unat i div 16 := w] ! (n div 16)) (2 * (n mod 16) + b) \<longleftrightarrow>
      bit (f ! (n div 16)) (2 * (n mod 16) + b) \<or> n = unat i \<and> b = 0" if "b < 2" for n b
    using bit_set [of "unat i mod 16" "n mod 16" b "f ! (unat i div 16)"] that same_bucket [of n "unat i"] assms(1)
    by (cases "n div 16 = unat i div 16") (auto simp: w_def nth_list_update)
  from this [of 0] this [of 1] show ?thesis using r by (auto simp: em_def dl_def)
qed

text \<open>Fresh flags: every bucket is empty.\<close>

lemma fresh_flags:
  assumes "n div 16 < k"
  shows "em (replicate k 0xaaaaaaaa) n" "\<not> dl (replicate k 0xaaaaaaaa) n"
proof -
  have b: "bit (0xaaaaaaaa :: u32) (2 * j + 1) \<and> \<not> bit (0xaaaaaaaa :: u32) (2 * j)" if "j < 16" for j
  proof -
    have "j \<in> set [0..<16]" using that by simp
    moreover have "list_all (\<lambda>j. bit (0xaaaaaaaa :: u32) (2 * j + 1) \<and> \<not> bit (0xaaaaaaaa :: u32) (2 * j)) [0..<16]"
      by (simp add: upt_rec)
    ultimately show ?thesis unfolding list_all_iff by blast
  qed
  from b [of "n mod 16"] show "em (replicate k 0xaaaaaaaa) n" "\<not> dl (replicate k 0xaaaaaaaa) n"
    using assms by (simp_all add: em_def dl_def)
qed

section \<open>The probe sequence\<close>

definition tri :: "nat \<Rightarrow> nat" where "tri n = n * (n + 1) div 2"

lemma tri_Suc: "tri (Suc n) = tri n + Suc n"
proof -
  have "Suc n * (Suc n + 1) = n * (n + 1) + Suc n * 2" by simp
  then show ?thesis unfolding tri_def by (simp only: div_mult_self2 [OF zero_neq_numeral [symmetric]] add.commute) simp
qed

lemma tri_double: "2 * tri n = n * (n + 1)"
  by (simp add: tri_def)

text \<open>The bucket of the \<open>n\<close>-th step from the hash \<open>k\<close>, in a table of \<open>2 ^ b\<close> buckets.\<close>

definition pos :: "nat \<Rightarrow> u32 \<Rightarrow> nat \<Rightarrow> nat" where
  "pos b k n = (unat k + tri n) mod 2 ^ b"

lemma pos_lt [simp]: "pos b k n < 2 ^ b"
  by (simp add: pos_def)

text \<open>Among the first \<open>2 ^ b\<close> steps none visits a bucket twice: the triangular numbers differ.\<close>

lemma tri_inj:
  assumes "m < n" "n < 2 ^ b"
  shows "tri m mod 2 ^ b \<noteq> tri n mod 2 ^ b"
proof
  assume "tri m mod 2 ^ b = tri n mod 2 ^ b"
  then have "(2 :: int) ^ b dvd int (tri n) - int (tri m)"
    by (metis mod_eq_dvd_iff of_nat_mod of_nat_numeral of_nat_power)
  then have "2 * (2 :: int) ^ b dvd 2 * (int (tri n) - int (tri m))" by (rule mult_dvd_mono [OF dvd_refl])
  then have "(2 :: int) ^ Suc b dvd 2 * (int (tri n) - int (tri m))" by (simp only: power_Suc)
  moreover have "2 * (int (tri n) - int (tri m)) = int (n * (n + 1)) - int (m * (m + 1))"
    unfolding tri_double [symmetric] by simp
  moreover have "int (n * (n + 1)) - int (m * (m + 1)) = (int n - int m) * (int n + int m + 1)"
    by (simp add: algebra_simps)
  ultimately have d: "(2 :: int) ^ Suc b dvd (int n - int m) * (int n + int m + 1)" by simp
  show False
  proof (cases "even (n + m)")
    case True
    then have "coprime ((2 :: int) ^ Suc b) (int n + int m + 1)" by simp
    then have "(2 :: int) ^ Suc b dvd int n - int m" using d by (simp add: coprime_dvd_mult_left_iff)
    then have "(2 :: int) ^ Suc b \<le> int n - int m" using assms(1) by (intro zdvd_imp_le) auto
    moreover have "int n < 2 ^ b" using assms(2) by (metis of_nat_less_iff of_nat_numeral of_nat_power)
    ultimately show False by simp
  next
    case False
    then have "coprime ((2 :: int) ^ Suc b) (int n - int m)" by simp
    then have "(2 :: int) ^ Suc b dvd int n + int m + 1" using d by (simp add: coprime_dvd_mult_right_iff)
    then have "(2 :: int) ^ Suc b \<le> int n + int m + 1" by (intro zdvd_imp_le) auto
    moreover have "int n < 2 ^ b" using assms(2) by (metis of_nat_less_iff of_nat_numeral of_nat_power)
    ultimately show False using assms(1) by simp
  qed
qed

lemma pos_inj:
  assumes "m < n" "n < 2 ^ b"
  shows "pos b k m \<noteq> pos b k n"
proof
  assume "pos b k m = pos b k n"
  then have "(int (unat k) + int (tri m)) mod 2 ^ b = (int (unat k) + int (tri n)) mod 2 ^ b"
    unfolding pos_def of_nat_add [symmetric] of_nat_numeral [symmetric, where ?'a = int] of_nat_power [symmetric] zmod_int [symmetric]
    by (rule arg_cong)
  then have "int (tri m) mod 2 ^ b = int (tri n) mod 2 ^ b" by (simp add: mod_eq_dvd_iff)
  then have "int (tri m mod 2 ^ b) = int (tri n mod 2 ^ b)" by (simp add: zmod_int)
  then have "tri m mod 2 ^ b = tri n mod 2 ^ b" by (simp only: of_nat_eq_iff)
  then show False using tri_inj [OF assms] by simp
qed

text \<open>So they visit every bucket.\<close>

lemma pos_surj:
  assumes "i < 2 ^ b"
  shows "\<exists>n < 2 ^ b. pos b k n = i"
proof -
  have "inj_on (pos b k) {..<2 ^ b}"
    by (rule inj_onI) (metis lessThan_iff linorder_neqE_nat pos_inj)
  then have "pos b k ` {..<2 ^ b} = {..<2 ^ b}"
    by (intro endo_inj_surj) auto
  then show ?thesis using assms by (metis imageE lessThan_iff)
qed

text \<open>One step of the loops, on machine words.\<close>

lemma pos_word:
  assumes "b \<le> 31"
  shows "unat (of_nat (pos b k n) :: u32) = pos b k n"
proof -
  have "(2 :: nat) ^ b \<le> 2 ^ 31" using assms by (intro power_increasing) auto
  then have "pos b k n < 4294967296" using less_le_trans [OF pos_lt [of b k n]] by fastforce
  then show ?thesis by (rule unat_of_nat32)
qed

lemma pos_start:
  assumes "b \<le> 31"
  shows "kh_int_hash_func k AND (2 ^ b - 1) = of_nat (pos b k 0)"
  using and_exp_nat [of k b] pos_word [OF assms, of k 0]
  by (intro unsigned_word_eqI [where ?'a = nat]) (simp add: kh_int_hash_func_def pos_def tri_def)

lemma pos_step:
  assumes "b \<le> 31"
  shows "(of_nat (pos b k n) + (of_nat n + 1)) AND (2 ^ b - 1) = (of_nat (pos b k (Suc n)) :: u32)"
proof (rule unsigned_word_eqI [where ?'a = nat])
  have dv: "(2 :: nat) ^ b dvd 2 ^ 32" using assms by (intro le_imp_power_dvd) simp
  have "unat ((of_nat (pos b k n) + (of_nat n + 1)) AND (2 ^ b - 1) :: u32) = unat (of_nat (pos b k n + Suc n) :: u32) mod 2 ^ b"
    unfolding and_exp_nat by (simp add: ac_simps)
  also have "\<dots> = (pos b k n + Suc n) mod 2 ^ b"
    using dv by (simp add: unat_of_nat take_bit_eq_mod mod_mod_cancel del: of_nat_add of_nat_Suc)
  also have "\<dots> = pos b k (Suc n)"
    unfolding pos_def tri_Suc by (simp only: mod_add_left_eq add.assoc)
  finally show "unat ((of_nat (pos b k n) + (of_nat n + 1)) AND (2 ^ b - 1) :: u32) = unat (of_nat (pos b k (Suc n)) :: u32)"
    using pos_word [OF assms] by simp
qed

end
