(* ===== verification/Wm_Khash_Run.thy ===== *)
theory Wm_Khash_Run
  imports Wm_Khash
begin

text \<open>
  The proofs about \<open>include/khash.h\<close>: what the buckets hold, the invariant that every entry is found from
  its key, searching, inserting, deleting, the rehash in place, and at the end the equivalence with the
  table of \<open>Wm_Hash\<close> that the rest of the development computes with.
\<close>

section \<open>Slots\<close>

text \<open>What a bucket holds, and what the arrays must be for all \<open>2 ^ b\<close> buckets to have an answer.\<close>

datatype 'v slot = Empty | Deleted | Entry u32 "'v option"

definition slot :: "u32 list \<Rightarrow> u32 option list \<Rightarrow> 'v option list \<Rightarrow> nat \<Rightarrow> 'v slot" where
  "slot f ks vs i = (if em f i then Empty else if dl f i then Deleted else Entry (the (ks ! i)) (vs ! i))"

lemma no_entry: "(\<exists>k w. slot f ks vs i = Entry k w) \<longleftrightarrow> \<not> (em f i \<or> dl f i)"
  by (auto simp: slot_def)

definition arrays_ok :: "nat \<Rightarrow> u32 list \<Rightarrow> u32 option list \<Rightarrow> 'v option list \<Rightarrow> bool" where
  "arrays_ok b f ks vs \<longleftrightarrow> b \<le> 31 \<and> 2 ^ b \<le> length ks \<and> 2 ^ b \<le> length vs \<and>
     (\<forall>i < 2 ^ b. i div 16 < length f) \<and> (\<forall>i < 2 ^ b. \<not> em f i \<longrightarrow> \<not> dl f i \<longrightarrow> ks ! i \<noteq> None)"

abbreviation slots_of :: "'v khash \<Rightarrow> nat \<Rightarrow> 'v slot" where
  "slots_of h \<equiv> slot (kh_flags h) (kh_keys h) (kh_vals h)"

lemma arrays_okD:
  assumes "arrays_ok b f ks vs"
  shows "b \<le> 31" "2 ^ b \<le> length ks" "2 ^ b \<le> length vs" "i < 2 ^ b \<Longrightarrow> i div 16 < length f"
    "i < 2 ^ b \<Longrightarrow> \<not> em f i \<Longrightarrow> \<not> dl f i \<Longrightarrow> ks ! i \<noteq> None"
  using assms by (auto simp: arrays_ok_def)

lemma small_nat:
  assumes "b \<le> 31" "i < 2 ^ b"
  shows "unat (of_nat i :: u32) = i"
proof -
  have "(2 :: nat) ^ b \<le> 2 ^ 31" using assms(1) by (intro power_increasing) auto
  then have "i < 4294967296" using less_le_trans [OF assms(2)] by fastforce
  then show ?thesis by (rule unat_of_nat32)
qed

lemma pow_nat:
  assumes "b \<le> 31"
  shows "unat (2 ^ b :: u32) = 2 ^ b"
proof -
  have "(2 :: nat) ^ b \<le> 2 ^ 31" using assms by (intro power_increasing) auto
  then have "(2 :: nat) ^ b < 4294967296" by simp
  then show ?thesis using unat_of_nat32 by (metis of_nat_numeral of_nat_power)
qed

text \<open>Where a search for a key ends.\<close>

definition stops :: "(nat \<Rightarrow> 'v slot) \<Rightarrow> u32 \<Rightarrow> nat \<Rightarrow> bool" where
  "stops S key i \<longleftrightarrow> (case S i of Empty \<Rightarrow> True | Deleted \<Rightarrow> False | Entry k v \<Rightarrow> k = key)"

definition ends_at :: "nat \<Rightarrow> (nat \<Rightarrow> 'v slot) \<Rightarrow> u32 \<Rightarrow> nat \<Rightarrow> bool" where
  "ends_at b S key n \<longleftrightarrow> n < 2 ^ b \<and> stops S key (pos b key n) \<and> (\<forall>m<n. \<not> stops S key (pos b key m))"

lemma search_ends:
  assumes "i < 2 ^ b" "S i = Empty"
  shows "\<exists>n. ends_at b S key n"
proof -
  obtain n where n: "n < 2 ^ b" "pos b key n = i" using pos_surj [OF assms(1)] by blast
  then have "stops S key (pos b key n)" using assms(2) by (simp add: stops_def)
  then have "stops S key (pos b key (LEAST n. stops S key (pos b key n)))" "(LEAST n. stops S key (pos b key n)) \<le> n"
    by (rule LeastI, rule Least_le)
  then show ?thesis using n(1) not_less_Least unfolding ends_at_def by (metis le_less_trans)
qed

lemma probe_past_ok:
  assumes "arrays_ok b (kh_flags h) (kh_keys h) (kh_vals h)" "i < 2 ^ b"
  shows "probe_past h key (of_nat i) = Some (\<not> stops (slots_of h) key i)"
proof -
  note a = arrays_okD [OF assms(1)]
  have u: "unat (of_nat i :: u32) = i" by (rule small_nat [OF a(1) assms(2)])
  have "i div 16 < length (kh_flags h)" "i < length (kh_keys h)" using a(2,4) assms(2) by auto
  then show ?thesis
    using a(5) [OF assms(2)] flag_reads [of "of_nat i" "kh_flags h"]
    by (auto simp: probe_past_def u stops_def slot_def key_at_def mem_at_def)
qed

lemma search_step:
  assumes "b \<le> 31" "ends_at b S key e" "n < e"
  shows "\<not> stops S key (pos b key n)" "(of_nat (pos b key (Suc n)) :: u32) \<noteq> of_nat (pos b key 0)"
proof -
  show "\<not> stops S key (pos b key n)" using assms(2,3) by (simp add: ends_at_def)
  have "pos b key 0 \<noteq> pos b key (Suc n)" using assms(2,3) pos_inj [of 0 "Suc n" b key] by (simp add: ends_at_def)
  then show "(of_nat (pos b key (Suc n)) :: u32) \<noteq> of_nat (pos b key 0)"
    using pos_word [OF assms(1), of key] by metis
qed

lemma get_loop_ok:
  assumes a: "arrays_ok b (kh_flags h) (kh_keys h) (kh_vals h)" and e: "ends_at b (slots_of h) key e" and "n \<le> e"
  shows "get_loop h key (2 ^ b - 1) (of_nat (pos b key 0)) (of_nat (pos b key n)) (of_nat n) =
    Some (case slots_of h (pos b key e) of Entry k v \<Rightarrow> of_nat (pos b key e) | _ \<Rightarrow> n_buckets h)"
  using assms(3)
proof (induction "e - n" arbitrary: n)
  case 0
  then have n: "n = e" by simp
  have st: "stops (slots_of h) key (pos b key e)" using e by (simp add: ends_at_def)
  have f: "pos b key e div 16 < length (kh_flags h)" using arrays_okD(4) [OF a] by simp
  show ?case
    unfolding n get_loop.simps [of h key _ _ "of_nat (pos b key e)"] probe_past_ok [OF a pos_lt]
    using st f flag_reads(3) [of "of_nat (pos b key e)" "kh_flags h"] pos_word [OF arrays_okD(1) [OF a], of key e]
    by (auto simp: slot_def stops_def split: if_splits)
next
  case (Suc x)
  then have lt: "n < e" by simp
  note st = search_step [OF arrays_okD(1) [OF a] e lt]
  have "get_loop h key (2 ^ b - 1) (of_nat (pos b key 0)) (of_nat (pos b key (Suc n))) (of_nat (Suc n)) =
      Some (case slots_of h (pos b key e) of Entry k v \<Rightarrow> of_nat (pos b key e) | _ \<Rightarrow> n_buckets h)"
    using Suc by (intro Suc.hyps(1)) simp_all
  then show ?case
    unfolding get_loop.simps [of h key _ _ "of_nat (pos b key n)"] probe_past_ok [OF a pos_lt]
    using st pos_step [OF arrays_okD(1) [OF a], of key n] by (simp add: Let_def add.commute)
qed

section \<open>The invariant\<close>

text \<open>
  Every entry is found from its key: the buckets its search visits before it are in use. No key has two
  entries.
\<close>

definition paths :: "nat \<Rightarrow> (nat \<Rightarrow> 'v slot) \<Rightarrow> bool" where
  "paths b S \<longleftrightarrow> (\<forall>i k v. i < 2 ^ b \<longrightarrow> S i = Entry k v \<longrightarrow>
     (\<exists>n < 2 ^ b. pos b k n = i \<and> (\<forall>m<n. S (pos b k m) \<noteq> Empty)))"

definition uniq :: "nat \<Rightarrow> (nat \<Rightarrow> 'v slot) \<Rightarrow> bool" where
  "uniq b S \<longleftrightarrow> (\<forall>i j k v w. i < 2 ^ b \<longrightarrow> j < 2 ^ b \<longrightarrow> S i = Entry k v \<longrightarrow> S j = Entry k w \<longrightarrow> i = j)"

definition in_use :: "nat \<Rightarrow> (nat \<Rightarrow> 'v slot) \<Rightarrow> nat set" where
  "in_use b S = {i. i < 2 ^ b \<and> S i \<noteq> Empty}"

text \<open>The entries among the first \<open>m\<close> buckets, for a number of buckets that may be zero.\<close>

definition held :: "nat \<Rightarrow> (nat \<Rightarrow> 'v slot) \<Rightarrow> nat set" where
  "held m S = {i. i < m \<and> (\<exists>k v. S i = Entry k v)}"

definition cont :: "nat \<Rightarrow> (nat \<Rightarrow> 'v slot) \<Rightarrow> (u32 \<times> 'v option) set" where
  "cont m S = {(k, v). \<exists>i < m. S i = Entry k v}"

abbreviation entries :: "nat \<Rightarrow> (nat \<Rightarrow> 'v slot) \<Rightarrow> nat set" where "entries b \<equiv> held (2 ^ b)"
abbreviation content :: "nat \<Rightarrow> (nat \<Rightarrow> 'v slot) \<Rightarrow> (u32 \<times> 'v option) set" where "content b \<equiv> cont (2 ^ b)"

lemma finite_held [simp]: "finite (held m S)"
  by (simp add: held_def)

lemma cont_cong: "(\<And>i. i < m \<Longrightarrow> S i = S' i) \<Longrightarrow> cont m S = cont m S' \<and> held m S = held m S'"
  by (auto simp: cont_def held_def)

lemma cont_image: "cont m S = (\<lambda>i. case S i of Entry k v \<Rightarrow> (k, v)) ` held m S"
  by (force simp: cont_def held_def image_iff split: slot.splits)

lemma finite_cont [simp]: "finite (cont m S)"
  by (simp add: cont_image)

lemma cont_put:
  assumes "x < m" "\<And>k v. S x \<noteq> Entry k v"
  shows "cont m (S(x := Entry key v)) = insert (key, v) (cont m S)" "held m (S(x := Entry key v)) = insert x (held m S)"
    "x \<notin> held m S"
proof -
  show "cont m (S(x := Entry key v)) = insert (key, v) (cont m S)"
  proof (intro set_eqI iffI)
    fix e assume "e \<in> insert (key, v) (cont m S)"
    then consider "e = (key, v)" | i where "i < m" "S i = Entry (fst e) (snd e)" by (auto simp: cont_def)
    then show "e \<in> cont m (S(x := Entry key v))"
    proof cases
      case (2 i)
      then have "i \<noteq> x" using assms(2) by auto
      then show ?thesis using 2 by (auto simp: cont_def case_prod_beta intro!: exI [of _ i])
    qed (use assms(1) in \<open>auto simp: cont_def\<close>)
  qed (auto simp: cont_def split: if_splits)
qed (use assms in \<open>auto simp: held_def\<close>)

lemma cont_take:
  assumes "x < m" "S x = Entry key v" "\<And>k v. s \<noteq> Entry k v"
  shows "cont m S = insert (key, v) (cont m (S(x := s)))" "held m S = insert x (held m (S(x := s)))"
    "x \<notin> held m (S(x := s))"
proof -
  have S: "(S(x := s))(x := Entry key v) = S" using assms(2) by (simp add: fun_upd_idem)
  note c = cont_put [of x m "S(x := s)", OF assms(1)]
  show "cont m S = insert (key, v) (cont m (S(x := s)))" "held m S = insert x (held m (S(x := s)))"
    "x \<notin> held m (S(x := s))"
    using c(1,2) [where key = key and v = v] c(3) assms(3) S by simp_all
qed

definition upper :: "nat \<Rightarrow> nat" where
  "upper m = (77 * m + 50) div 100"

definition kh_inv :: "nat \<Rightarrow> 'v khash \<Rightarrow> bool" where
  "kh_inv b h \<longleftrightarrow> 2 \<le> b \<and> arrays_ok b (kh_flags h) (kh_keys h) (kh_vals h) \<and> n_buckets h = 2 ^ b \<and>
     paths b (slots_of h) \<and> uniq b (slots_of h) \<and>
     unat (kh_size h) = card (entries b (slots_of h)) \<and> unat (n_occupied h) = card (in_use b (slots_of h)) \<and>
     unat (upper_bound h) = upper (2 ^ b) \<and> unat (n_occupied h) \<le> upper (2 ^ b)"

lemma kh_invD:
  assumes "kh_inv b h"
  shows "2 \<le> b" "b \<le> 31" "arrays_ok b (kh_flags h) (kh_keys h) (kh_vals h)" "n_buckets h = 2 ^ b"
    "paths b (slots_of h)" "uniq b (slots_of h)" "unat (kh_size h) = card (entries b (slots_of h))"
    "unat (n_occupied h) = card (in_use b (slots_of h))" "unat (upper_bound h) = upper (2 ^ b)"
    "unat (n_occupied h) \<le> upper (2 ^ b)"
  using assms by (simp_all add: kh_inv_def arrays_ok_def)

lemma finite_in_use [simp]: "finite (in_use b S)"
  by (simp add: in_use_def)

lemma upper_lt:
  assumes "2 \<le> b"
  shows "upper (2 ^ b) < 2 ^ b"
proof -
  have "(2 :: nat) ^ 2 \<le> 2 ^ b" using assms by (intro power_increasing) auto
  then show ?thesis by (simp add: upper_def)
qed

lemma some_empty:
  assumes "card (in_use b S) < 2 ^ b"
  shows "\<exists>i < 2 ^ b. S i = Empty"
proof (rule ccontr)
  assume "\<not> ?thesis"
  then have "in_use b S = {..<2 ^ b}" by (auto simp: in_use_def)
  then show False using assms by simp
qed

lemma found:
  assumes p: "paths b S" and u: "uniq b S" and e: "ends_at b S key n" and i: "i < 2 ^ b" "S i = Entry key v"
  shows "pos b key n = i"
proof -
  obtain m where m: "pos b key m = i" "\<forall>l<m. S (pos b key l) \<noteq> Empty" using p i unfolding paths_def by blast
  then have "stops S key (pos b key m)" using i(2) by (simp add: stops_def)
  then have "\<not> m < n" using e by (auto simp: ends_at_def)
  then consider "n = m" | "n < m" by linarith
  then show ?thesis
  proof cases
    case 2
    then have "S (pos b key n) \<noteq> Empty" "stops S key (pos b key n)" using m(2) e by (auto simp: ends_at_def)
    then obtain w where "S (pos b key n) = Entry key w" by (auto simp: stops_def split: slot.splits)
    then show ?thesis using u i pos_lt unfolding uniq_def by blast
  qed (use m in simp)
qed

text \<open>\<open>kh_get\<close> finds the entry of the key, if there is one.\<close>

lemma kh_get_ok:
  assumes inv: "kh_inv b h"
  shows "i < 2 ^ b \<Longrightarrow> slots_of h i = Entry key v \<Longrightarrow> kh_get h key = Some (of_nat i)"
    "(\<And>i v. i < 2 ^ b \<Longrightarrow> slots_of h i \<noteq> Entry key v) \<Longrightarrow> kh_get h key = Some (n_buckets h)"
proof -
  note i = kh_invD [OF inv]
  obtain j where "j < 2 ^ b" "slots_of h j = Empty"
    using some_empty [of b "slots_of h"] i(8,10) upper_lt [OF i(1)] by force
  then obtain n where n: "ends_at b (slots_of h) key n" using search_ends by blast
  have "n_buckets h \<noteq> 0" using pow_nat [OF i(2)] i(4) by (metis power_eq_0_iff unat_0 zero_neq_numeral)
  then have g: "kh_get h key = Some (case slots_of h (pos b key n) of Entry k v \<Rightarrow> of_nat (pos b key n) | _ \<Rightarrow> n_buckets h)"
    using get_loop_ok [OF i(3) n, of 0] pos_start [OF i(2), of key] by (simp add: kh_get_def i(4))
  show "kh_get h key = Some (of_nat i)" if "i < 2 ^ b" "slots_of h i = Entry key v" for i v
    using found [OF i(5,6) n that] that(2) g by simp
  show "kh_get h key = Some (n_buckets h)" if "\<And>i v. i < 2 ^ b \<Longrightarrow> slots_of h i \<noteq> Entry key v"
    using n that [OF pos_lt] g by (auto simp: ends_at_def stops_def split: slot.splits)
qed

section \<open>Inserting\<close>

definition absent :: "nat \<Rightarrow> (nat \<Rightarrow> 'v slot) \<Rightarrow> u32 \<Rightarrow> bool" where
  "absent b S key \<longleftrightarrow> (\<forall>i v. i < 2 ^ b \<longrightarrow> S i \<noteq> Entry key v)"

definition free_for :: "nat \<Rightarrow> (nat \<Rightarrow> 'v slot) \<Rightarrow> u32 \<Rightarrow> nat \<Rightarrow> bool" where
  "free_for b S key x \<longleftrightarrow> x < 2 ^ b \<and> (S x = Empty \<or> S x = Deleted) \<and> absent b S key \<and>
     (\<exists>n < 2 ^ b. pos b key n = x \<and> (\<forall>m<n. S (pos b key m) \<noteq> Empty))"

lemma put_loop_ok:
  assumes a: "arrays_ok b (kh_flags h) (kh_keys h) (kh_vals h)" and e: "ends_at b (slots_of h) key e" and "n \<le> e"
    and "site = nb \<or> (\<exists>m<n. site = of_nat (pos b key m) \<and> slots_of h (pos b key m) = Deleted)"
  shows "\<exists>site'. put_loop h key (2 ^ b - 1) (of_nat (pos b key 0)) (of_nat (pos b key n)) (of_nat n) site =
      Some (n_buckets h, of_nat (pos b key e), site') \<and>
    (site' = nb \<or> (\<exists>m<e. site' = of_nat (pos b key m) \<and> slots_of h (pos b key m) = Deleted))"
  using assms(3,4)
proof (induction "e - n" arbitrary: n site)
  case 0
  then have n: "n = e" by simp
  have "stops (slots_of h) key (pos b key e)" using e by (simp add: ends_at_def)
  then show ?case
    unfolding n put_loop.simps [of h key _ _ "of_nat (pos b key e)"] probe_past_ok [OF a pos_lt]
    using 0(3) n by auto
next
  case (Suc x)
  then have lt: "n < e" by simp
  note st = search_step [OF arrays_okD(1) [OF a] e lt]
  define s where "s = (if slots_of h (pos b key n) = Deleted then of_nat (pos b key n) else site)"
  have s: "s = nb \<or> (\<exists>m<Suc n. s = of_nat (pos b key m) \<and> slots_of h (pos b key m) = Deleted)"
    using Suc.prems(2) less_SucI unfolding s_def by auto
  have d: "ac_isdel (kh_flags h) (of_nat (pos b key n)) = Some (slots_of h (pos b key n) = Deleted)"
    using flag_reads(2) [of "of_nat (pos b key n)" "kh_flags h"] arrays_okD(4) [OF a, of "pos b key n"] st(1)
    by (auto simp: pos_word [OF arrays_okD(1) [OF a]] slot_def stops_def split: if_splits)
  have "x = e - Suc n" "Suc n \<le> e" using Suc(2) lt by simp_all
  from Suc.hyps(1) [OF this s] show ?case
    unfolding put_loop.simps [of h key _ _ "of_nat (pos b key n)"] probe_past_ok [OF a pos_lt]
    using st d pos_step [OF arrays_okD(1) [OF a], of key n] by (simp add: Let_def add.commute s_def)
qed

lemma put_slot_ok:
  assumes inv: "kh_inv b h"
  shows "\<exists>x. put_slot h key = Some (of_nat x) \<and>
    (x < 2 ^ b \<and> (\<exists>v. slots_of h x = Entry key v) \<or> free_for b (slots_of h) key x)"
proof -
  note i = kh_invD [OF inv]
  let ?S = "slots_of h"
  obtain j where "j < 2 ^ b" "?S j = Empty"
    using some_empty [of b ?S] i(8,10) upper_lt [OF i(1)] by force
  then obtain e where e: "ends_at b ?S key e" using search_ends by blast
  have lt: "e < 2 ^ b" and st: "stops ?S key (pos b key e)" and before: "\<And>m. m < e \<Longrightarrow> ?S (pos b key m) \<noteq> Empty"
    using e by (auto simp: ends_at_def stops_def)
  have em: "ac_isempty (kh_flags h) (of_nat (pos b key n)) = Some (?S (pos b key n) = Empty)" for n
    using flag_reads(1) [of "of_nat (pos b key n)" "kh_flags h"] arrays_okD(4) [OF i(3), of "pos b key n"]
    by (simp add: pos_word [OF i(2)] slot_def)
  have no: "absent b ?S key" if "?S (pos b key e) = Empty"
    unfolding absent_def using found [OF i(5,6) e] that by fastforce
  have nb: "(of_nat (pos b key n) :: u32) \<noteq> n_buckets h" for n
    using pos_word [OF i(2), of key n] pow_nat [OF i(2)] pos_lt [of b key n] i(4) by (metis less_irrefl)
  show ?thesis
  proof (cases "?S (pos b key 0) = Empty")
    case True
    then have "e = 0" using before by blast
    then have "free_for b ?S key (pos b key 0)" using True no lt by (auto simp: free_for_def intro!: exI [of _ 0])
    then show ?thesis using True em [of 0] pos_start [OF i(2), of key] by (auto simp: put_slot_def i(4))
  next
    case False
    obtain site where s: "put_loop h key (2 ^ b - 1) (of_nat (pos b key 0)) (of_nat (pos b key 0)) 0 (n_buckets h) =
        Some (n_buckets h, of_nat (pos b key e), site)"
        "site = n_buckets h \<or> (\<exists>m<e. site = of_nat (pos b key m) \<and> ?S (pos b key m) = Deleted)"
      using put_loop_ok [OF i(3) e, of 0 "n_buckets h" "n_buckets h"] by auto
    have r: "put_slot h key = Some (if ?S (pos b key e) = Empty \<and> site \<noteq> n_buckets h then site else of_nat (pos b key e))"
      using False em [of 0] em [of e] s(1) pos_start [OF i(2), of key] by (simp add: put_slot_def i(4) Let_def)
    show ?thesis
    proof (cases "?S (pos b key e) = Empty")
      case em: True
      show ?thesis
      proof (cases "site = n_buckets h")
        case True
        have "free_for b ?S key (pos b key e)" using em no lt before by (auto simp: free_for_def)
        then show ?thesis using r em True by auto
      next
        case False
        then obtain m where m: "m < e" "site = of_nat (pos b key m)" "?S (pos b key m) = Deleted" using s(2) by blast
        have "\<forall>l<m. ?S (pos b key l) \<noteq> Empty" "m < 2 ^ b" using before m(1) lt by auto
        then have "free_for b ?S key (pos b key m)" using m no em by (auto simp: free_for_def)
        then show ?thesis using r em False m(2) by auto
      qed
    next
      case False
      then have "\<exists>v. ?S (pos b key e) = Entry key v" using st by (auto simp: stops_def split: slot.splits)
      then show ?thesis using r False by auto
    qed
  qed
qed

text \<open>The effect on the slots.\<close>

lemma paths_upd:
  assumes "paths b S" "S' = S(x := s)" "s \<noteq> Empty"
    "\<And>k v. s = Entry k v \<Longrightarrow> \<exists>n < 2 ^ b. pos b k n = x \<and> (\<forall>m<n. S (pos b k m) \<noteq> Empty)"
  shows "paths b S'"
  unfolding paths_def
proof (intro allI impI)
  fix i k v assume i: "i < 2 ^ b" "S' i = Entry k v"
  then obtain n where "n < 2 ^ b" "pos b k n = i" "\<forall>m<n. S (pos b k m) \<noteq> Empty"
    using assms(1,4) unfolding paths_def assms(2) by (metis fun_upd_apply)
  then show "\<exists>n < 2 ^ b. pos b k n = i \<and> (\<forall>m<n. S' (pos b k m) \<noteq> Empty)" using assms(2,3) by auto
qed

lemma insert_slot:
  assumes p: "paths b S" "uniq b S" and f: "free_for b S key x"
  shows "paths b (S(x := Entry key v))" "uniq b (S(x := Entry key v))"
    "entries b (S(x := Entry key v)) = insert x (entries b S)" "x \<notin> entries b S"
    "in_use b (S(x := Entry key v)) = insert x (in_use b S)"
    "content b (S(x := Entry key v)) = insert (key, v) (content b S)"
proof -
  have x: "x < 2 ^ b" "S x = Empty \<or> S x = Deleted" "absent b S key" using f by (simp_all add: free_for_def)
  show "paths b (S(x := Entry key v))"
    by (rule paths_upd [OF p(1) refl]) (use f in \<open>auto simp: free_for_def\<close>)
  show "uniq b (S(x := Entry key v))"
    using p(2) x(3) unfolding uniq_def absent_def by (auto simp: fun_upd_def)
  have ne: "S x \<noteq> Entry k w" for k w using x(2) by auto
  note c = cont_put [where S = S, OF x(1) ne]
  show "entries b (S(x := Entry key v)) = insert x (entries b S)" "x \<notin> entries b S"
    "content b (S(x := Entry key v)) = insert (key, v) (content b S)"
    by (rule c)+
  show "in_use b (S(x := Entry key v)) = insert x (in_use b S)" using x(1) by (auto simp: in_use_def)
qed

lemma delete_slot:
  assumes p: "paths b S" "uniq b S" and x: "x < 2 ^ b" "S x = Entry key v"
  shows "paths b (S(x := Deleted))" "uniq b (S(x := Deleted))"
    "entries b (S(x := Deleted)) = entries b S - {x}" "x \<in> entries b S"
    "in_use b (S(x := Deleted)) = in_use b S"
    "content b (S(x := Deleted)) = {e \<in> content b S. fst e \<noteq> key}"
proof -
  show "paths b (S(x := Deleted))" by (rule paths_upd [OF p(1) refl]) auto
  show "uniq b (S(x := Deleted))" using p(2) unfolding uniq_def by (auto simp: fun_upd_def)
  show "entries b (S(x := Deleted)) = entries b S - {x}" "x \<in> entries b S" "in_use b (S(x := Deleted)) = in_use b S"
    using x by (auto simp: held_def in_use_def)
  show "content b (S(x := Deleted)) = {e \<in> content b S. fst e \<noteq> key}"
  proof (intro set_eqI iffI)
    fix e assume "e \<in> content b (S(x := Deleted))"
    then obtain i k w where e: "e = (k, w)" "i < 2 ^ b" "i \<noteq> x" "S i = Entry k w" by (auto simp: cont_def split: if_splits)
    then have "k \<noteq> key" using p(2) x unfolding uniq_def by blast
    then show "e \<in> {e \<in> content b S. fst e \<noteq> key}" using e by (auto simp: cont_def)
  next
    fix e assume "e \<in> {e \<in> content b S. fst e \<noteq> key}"
    then obtain i where i: "i < 2 ^ b" "S i = Entry (fst e) (snd e)" by (auto simp: cont_def)
    then have "i \<noteq> x" using x(2) \<open>e \<in> {e \<in> content b S. fst e \<noteq> key}\<close> by auto
    with i show "e \<in> content b (S(x := Deleted))" by (auto simp: cont_def case_prod_beta intro!: exI [of _ i])
  qed
qed

lemma counts_lt:
  assumes "kh_inv b h"
  shows "unat (kh_size h) \<le> unat (n_occupied h)" "unat (n_occupied h) < 2 ^ 31"
proof -
  note i = kh_invD [OF assms]
  show "unat (kh_size h) \<le> unat (n_occupied h)"
    unfolding i(7,8) by (intro card_mono) (auto simp: held_def in_use_def)
  have "(2 :: nat) ^ b \<le> 2 ^ 31" using i(2) by (intro power_increasing) auto
  then show "unat (n_occupied h) < 2 ^ 31" using i(10) upper_lt [OF i(1)] by linarith
qed

lemma flags_of_slots:
  assumes "kh_inv b h" "x < 2 ^ b"
  shows "ac_isempty (kh_flags h) (of_nat x) = Some (slots_of h x = Empty)"
    "ac_isdel (kh_flags h) (of_nat x) = Some (dl (kh_flags h) x)"
    "ac_iseither (kh_flags h) (of_nat x) = Some (\<not> (\<exists>k v. slots_of h x = Entry k v))"
proof -
  note i = kh_invD [OF assms(1)]
  note r = flag_reads [of "of_nat x" "kh_flags h", unfolded small_nat [OF i(2) assms(2)]]
  have "x div 16 < length (kh_flags h)" using arrays_okD(4) [OF i(3) assms(2)] .
  then show "ac_isempty (kh_flags h) (of_nat x) = Some (slots_of h x = Empty)"
    "ac_isdel (kh_flags h) (of_nat x) = Some (dl (kh_flags h) x)"
    "ac_iseither (kh_flags h) (of_nat x) = Some (\<not> (\<exists>k v. slots_of h x = Entry k v))"
    using r by (auto simp: slot_def)
qed

text \<open>A new entry, with its value.\<close>

lemma add_entry_ok:
  assumes inv: "kh_inv b h" and room: "unat (n_occupied h) < upper (2 ^ b)"
  shows "\<exists>x < 2 ^ b. (\<exists>v. slots_of h x = Entry key v) \<and> put_entry h key = Some (0, of_nat x, h) \<or>
    absent b (slots_of h) key \<and> (\<exists>r h' vs. put_entry h key = Some (r, of_nat x, h') \<and> 0 < r \<and>
      mem_set (kh_vals h') (of_nat x) (Some v) = Some vs \<and> kh_inv b (h'\<lparr>kh_vals := vs\<rparr>) \<and>
      content b (slots_of (h'\<lparr>kh_vals := vs\<rparr>)) = insert (key, Some v) (content b (slots_of h)) \<and>
      kh_size h' = kh_size h + 1)"
proof -
  note i = kh_invD [OF inv]
  obtain x where x: "put_slot h key = Some (of_nat x)"
      "x < 2 ^ b \<and> (\<exists>v. slots_of h x = Entry key v) \<or> free_for b (slots_of h) key x"
    using put_slot_ok [OF inv, of key] by blast
  show ?thesis
  proof (cases "free_for b (slots_of h) key x")
    case False
    then have e: "x < 2 ^ b" "\<exists>v. slots_of h x = Entry key v" using x(2) by auto
    then have "\<not> dl (kh_flags h) x" by (auto simp: slot_def split: if_splits)
    then have "put_entry h key = Some (0, of_nat x, h)"
      using x(1) e flags_of_slots [OF inv e(1)] by (auto simp: put_entry_def)
    then show ?thesis using e by blast
  next
    case free: True
    then have lt: "x < 2 ^ b" and s: "slots_of h x = Empty \<or> slots_of h x = Deleted" and abs: "absent b (slots_of h) key"
      by (simp_all add: free_for_def)
    define e where "e \<longleftrightarrow> slots_of h x = Empty"
    have ed: "e \<or> dl (kh_flags h) x" using s by (auto simp: e_def slot_def split: if_splits)
    have u: "unat (of_nat x :: u32) = x" by (rule small_nat [OF i(2) lt])
    obtain f where f: "ac_set_isboth_false (kh_flags h) (of_nat x) = Some f" "length f = length (kh_flags h)"
        "\<forall>n. em f n = (n \<noteq> x \<and> em (kh_flags h) n)" "\<forall>n. dl f n = (n \<noteq> x \<and> dl (kh_flags h) n)"
      using set_isboth_false_ok [of "of_nat x" "kh_flags h"] arrays_okD(4) [OF i(3) lt] unfolding u by blast
    define ks vs where "ks = (kh_keys h)[x := Some key]" and "vs = (kh_vals h)[x := Some v]"
    have len: "x < length (kh_keys h)" "x < length (kh_vals h)" using arrays_okD(2,3) [OF i(3)] lt by auto
    define h' where "h' = h\<lparr>kh_keys := ks, kh_flags := f, kh_size := kh_size h + 1,
        n_occupied := (if e then n_occupied h + 1 else n_occupied h)\<rparr>"
    have put: "put_entry h key = Some (if e then 1 else 2, of_nat x, h')"
      using x(1) flags_of_slots [OF inv lt] f(1) ed len(1)
      by (auto simp: put_entry_def mem_set_def u h'_def ks_def e_def)
    have sl: "slots_of (h'\<lparr>kh_vals := vs\<rparr>) = (slots_of h)(x := Entry key (Some v))"
      using f(3,4) len by (auto simp: slot_def fun_eq_iff h'_def ks_def vs_def)
    note ins = insert_slot [OF i(5,6) free]
    have ar: "arrays_ok b f ks vs"
      using i(3) f(2-4) len by (auto simp: arrays_ok_def ks_def vs_def nth_list_update)
    have sz: "unat (kh_size h + 1) = Suc (unat (kh_size h))" "unat (n_occupied h + 1) = Suc (unat (n_occupied h))"
      using counts_lt [OF inv] by (simp_all add: unat_inc32)
    have occ: "unat (if e then n_occupied h + 1 else n_occupied h) = card (insert x (in_use b (slots_of h)))"
      using sz(2) i(8) lt s by (auto simp: e_def in_use_def card_insert_if insert_absorb)
    have "card (insert x (in_use b (slots_of h))) \<le> upper (2 ^ b)" using i(8) room by (simp add: card_insert_if)
    then have "kh_inv b (h'\<lparr>kh_vals := vs\<rparr>)"
      unfolding kh_inv_def sl ins(3,5)
      using i(1,4,7,9,10) ar ins(1,2,4) sz(1) occ room sz(2) by (auto simp: h'_def)
    moreover have "mem_set (kh_vals h') (of_nat x) (Some v) = Some vs"
      using len(2) by (simp add: mem_set_def u h'_def vs_def)
    moreover have "kh_size h' = kh_size h + 1" "0 < (if e then 1 else 2 :: int)" by (simp_all add: h'_def)
    ultimately show ?thesis using lt abs put sl ins(6) by metis
  qed
qed

section \<open>Deleting and looking up\<close>

text \<open>Deleting the entry of a bucket.\<close>

lemma kh_del_ok:
  assumes inv: "kh_inv b h" and x: "x < 2 ^ b" "slots_of h x = Entry key v"
  shows "\<exists>h'. kh_del h (of_nat x) = Some h' \<and> kh_inv b h' \<and> slots_of h' = (slots_of h)(x := Deleted) \<and>
    n_buckets h' = n_buckets h \<and> kh_vals h' = kh_vals h \<and> unat (kh_size h') \<le> unat (kh_size h)"
proof -
  note i = kh_invD [OF inv]
  have u: "unat (of_nat x :: u32) = x" by (rule small_nat [OF i(2) x(1)])
  have ne: "(of_nat x :: u32) \<noteq> n_buckets h" using u pow_nat [OF i(2)] x(1) i(4) by (metis less_irrefl)
  obtain f where f: "ac_set_isdel_true (kh_flags h) (of_nat x) = Some f" "length f = length (kh_flags h)"
      "\<forall>n. em f n = em (kh_flags h) n" "\<forall>n. dl f n = (n = x \<or> dl (kh_flags h) n)"
    using set_isdel_true_ok [of "of_nat x" "kh_flags h"] arrays_okD(4) [OF i(3) x(1)] unfolding u by blast
  define h' where "h' = h\<lparr>kh_flags := f, kh_size := kh_size h - 1\<rparr>"
  have sl: "slots_of h' = (slots_of h)(x := Deleted)"
    using f(3,4) x(2) by (auto simp: slot_def fun_eq_iff h'_def split: if_splits)
  note del = delete_slot [OF i(5,6) x]
  have d: "kh_del h (of_nat x) = Some h'"
    using ne f(1) flags_of_slots(3) [OF inv x(1)] x(2) by (auto simp: kh_del_def h'_def)
  have "0 < card (entries b (slots_of h))" using del(4) by (auto simp: card_gt_0_iff)
  then have sz: "unat (kh_size h - 1) = card (entries b (slots_of h) - {x})"
    using i(7) del(4) by (simp add: unat_diff32)
  have "arrays_ok b f (kh_keys h) (kh_vals h)" using i(3) f(2-4) by (auto simp: arrays_ok_def)
  then have "kh_inv b h'"
    unfolding kh_inv_def sl del(3,5) using i(1,4,8-10) del(1,2) sz by (simp add: h'_def)
  moreover have "unat (kh_size h') \<le> unat (kh_size h)" using sz i(7) by (simp add: h'_def card_Diff1_le)
  ultimately show ?thesis using d sl by (auto simp: h'_def)
qed

lemma hash_del_ok:
  assumes inv: "kh_inv b h"
  shows "\<exists>r h'. hash_del h key = Some (r, h') \<and> kh_inv b h' \<and> (r = - 1 \<longleftrightarrow> absent b (slots_of h) key) \<and>
    content b (slots_of h') = {e \<in> content b (slots_of h). fst e \<noteq> key} \<and> unat (kh_size h') \<le> unat (kh_size h)"
proof (cases "absent b (slots_of h) key")
  case True
  then have "kh_get h key = Some (n_buckets h)" using kh_get_ok(2) [OF inv] by (simp add: absent_def)
  moreover have "{e \<in> content b (slots_of h). fst e \<noteq> key} = content b (slots_of h)"
    using True by (auto simp: absent_def cont_def)
  ultimately show ?thesis using inv True by (simp add: hash_del_def)
next
  case False
  note i = kh_invD [OF inv]
  obtain x v where x: "x < 2 ^ b" "slots_of h x = Entry key v" using False by (auto simp: absent_def)
  have u: "unat (of_nat x :: u32) = x" by (rule small_nat [OF i(2) x(1)])
  have g: "kh_get h key = Some (of_nat x)" by (rule kh_get_ok(1) [OF inv x])
  have ne: "(of_nat x :: u32) \<noteq> n_buckets h" using u pow_nat [OF i(2)] x(1) i(4) by (metis less_irrefl)
  obtain h' where h': "kh_del h (of_nat x) = Some h'" "kh_inv b h'" "slots_of h' = (slots_of h)(x := Deleted)"
      "unat (kh_size h') \<le> unat (kh_size h)"
    using kh_del_ok [OF inv x] by blast
  have "(2 :: nat) ^ b \<le> 2 ^ 31" using i(2) by (intro power_increasing) auto
  then have "sint (of_nat x :: u32) = int x" using u x(1) by (intro sint_small32) auto
  then have r: "sint (of_nat x :: u32) \<noteq> - 1" by simp
  have "hash_del h key = Some (sint (of_nat x :: u32), h')" using g ne h'(1) by (simp add: hash_del_def)
  then show ?thesis using h' r False delete_slot(6) [OF i(5,6) x] by auto
qed

lemma hash_get_ok:
  assumes inv: "kh_inv b h"
  shows "(key, Some v) \<in> content b (slots_of h) \<Longrightarrow> hash_get h key = Some (Some v)"
    "absent b (slots_of h) key \<Longrightarrow> hash_get h key = Some None"
proof -
  note i = kh_invD [OF inv]
  assume "(key, Some v) \<in> content b (slots_of h)"
  then obtain x where x: "x < 2 ^ b" "slots_of h x = Entry key (Some v)" by (auto simp: cont_def)
  have u: "unat (of_nat x :: u32) = x" by (rule small_nat [OF i(2) x(1)])
  have "(of_nat x :: u32) \<noteq> n_buckets h" using u pow_nat [OF i(2)] x(1) i(4) by (metis less_irrefl)
  moreover have "kh_vals h ! x = Some v" using x(2) by (auto simp: slot_def split: if_splits)
  moreover have "x < length (kh_vals h)" using arrays_okD(3) [OF i(3)] x(1) by simp
  ultimately show "hash_get h key = Some (Some v)"
    using kh_get_ok(1) [OF inv x] by (simp add: hash_get_def mem_at_def u)
next
  assume "absent b (slots_of h) key"
  then show "hash_get h key = Some None" using kh_get_ok(2) [OF inv] by (simp add: hash_get_def absent_def)
qed

section \<open>The rehash\<close>

text \<open>A free bucket of the new table.\<close>

lemma free_slot_ok:
  assumes b: "b \<le> 31" and f: "\<forall>i < 2 ^ b. i div 16 < length new" and e: "e < 2 ^ b" "em new (pos b key e)"
    "\<forall>m<e. \<not> em new (pos b key m)" and "n \<le> e"
  shows "free_slot new (2 ^ b - 1) (of_nat (pos b key n)) (of_nat n) = Some (of_nat (pos b key e))"
  using assms(6)
proof (induction "e - n" arbitrary: n)
  case 0
  then have "n = e" by simp
  then show ?case
    using flag_reads(1) [of "of_nat (pos b key e)" new] f e(2) by (subst free_slot.simps) (simp add: pos_word [OF b])
next
  case (Suc x)
  then have lt: "n < e" by simp
  have "free_slot new (2 ^ b - 1) (of_nat (pos b key (Suc n))) (of_nat (Suc n)) = Some (of_nat (pos b key e))"
    using Suc by (intro Suc.hyps(1)) simp_all
  then show ?case
    using flag_reads(1) [of "of_nat (pos b key n)" new] f e(3) lt pos_step [OF b, of key n]
    by (subst free_slot.simps) (simp add: pos_word [OF b] Let_def add.commute)
qed

lemma first_empty:
  assumes "i < 2 ^ b" "em new i"
  shows "\<exists>e < 2 ^ b. em new (pos b key e) \<and> (\<forall>m<e. \<not> em new (pos b key m))"
proof -
  obtain n where "n < 2 ^ b" "pos b key n = i" using pos_surj [OF assms(1)] by blast
  then have n: "n < 2 ^ b" "em new (pos b key n)" using assms(2) by simp_all
  define e where "e = (LEAST e. em new (pos b key e))"
  have "em new (pos b key e)" unfolding e_def by (rule LeastI [of _ n]) (rule n(2))
  moreover have "e < 2 ^ b" using Least_le [of "\<lambda>e. em new (pos b key e)" n] n unfolding e_def by simp
  moreover have "\<forall>m<e. \<not> em new (pos b key m)" using not_less_Least unfolding e_def by blast
  ultimately show ?thesis by blast
qed

text \<open>
  While the entries \<open>C\<close> of a table with \<open>N\<close> buckets move into \<open>2 ^ b\<close> buckets: each is in the new
  table, or still in the old one, or is the one carried (\<open>X\<close>), and no bucket is used by both.
\<close>

definition moving :: "nat \<Rightarrow> nat \<Rightarrow> (u32 \<times> 'v option) set \<Rightarrow> (u32 \<times> 'v option) set \<Rightarrow> 'v arrays \<Rightarrow> bool" where
  "moving b N C X st \<longleftrightarrow> (case st of (ks, vs, old, new) \<Rightarrow>
     b \<le> 31 \<and> N \<le> 2 ^ b \<and> 2 ^ b \<le> length ks \<and> 2 ^ b \<le> length vs \<and>
     (\<forall>i<N. i div 16 < length old) \<and> (\<forall>i < 2 ^ b. i div 16 < length new \<and> \<not> dl new i) \<and>
     (\<forall>i<N. \<not> em old i \<longrightarrow> \<not> dl old i \<longrightarrow> ks ! i \<noteq> None \<and> em new i) \<and>
     (\<forall>i < 2 ^ b. \<not> em new i \<longrightarrow> ks ! i \<noteq> None) \<and> paths b (slot new ks vs) \<and>
     C = cont (2 ^ b) (slot new ks vs) \<union> cont N (slot old ks vs) \<union> X \<and>
     card C = card (held (2 ^ b) (slot new ks vs)) + card (held N (slot old ks vs)) + card X)"

lemma movingD:
  assumes "moving b N C X (ks, vs, old, new)"
  shows "b \<le> 31" "N \<le> 2 ^ b" "2 ^ b \<le> length ks" "2 ^ b \<le> length vs" "\<forall>i<N. i div 16 < length old"
    "\<forall>i < 2 ^ b. i div 16 < length new" "\<forall>i < 2 ^ b. \<not> dl new i"
    "\<forall>i<N. \<not> em old i \<longrightarrow> \<not> dl old i \<longrightarrow> ks ! i \<noteq> None \<and> em new i"
    "\<forall>i < 2 ^ b. \<not> em new i \<longrightarrow> ks ! i \<noteq> None" "paths b (slot new ks vs)"
    "C = cont (2 ^ b) (slot new ks vs) \<union> cont N (slot old ks vs) \<union> X"
    "card C = card (held (2 ^ b) (slot new ks vs)) + card (held N (slot old ks vs)) + card X"
  using assms unfolding moving_def prod.case by blast+

lemma moving_free:
  assumes "moving b N C X (ks, vs, old, new)" "card C \<le> 2 ^ b" "card X = 1"
  shows "\<exists>i < 2 ^ b. em new i"
proof (rule ccontr)
  note m = movingD [OF assms(1)]
  assume "\<not> ?thesis"
  then have "held (2 ^ b) (slot new ks vs) = {..<2 ^ b}" using m(7) by (auto simp: held_def slot_def)
  then show False using m(12) assms(2,3) by simp
qed

text \<open>The bucket the carried entry is put into, and the entry that may be kicked out of it.\<close>

definition place :: "nat \<Rightarrow> u32 \<Rightarrow> 'v option \<Rightarrow> nat \<Rightarrow> 'v arrays \<Rightarrow> 'v arrays \<Rightarrow> bool" where
  "place N key val i st st' \<longleftrightarrow> (case (st, st') of ((ks, vs, old, new), (ks', vs', old', new')) \<Rightarrow>
     ks' = ks[i := Some key] \<and> vs' = vs[i := val] \<and> length old' = length old \<and> length new' = length new \<and>
     (\<forall>n. em new' n = (n \<noteq> i \<and> em new n)) \<and> (\<forall>n. dl new' n = dl new n) \<and>
     (\<forall>n. em old' n = em old n) \<and>
     (\<forall>n. dl old' n = (n = i \<and> i < N \<and> \<not> em old i \<or> dl old n)))"

lemma place_moving:
  assumes m: "moving b N C {(key, val)} (ks, vs, old, new)"
    and e: "e < 2 ^ b" "em new (pos b key e)" "\<forall>l<e. \<not> em new (pos b key l)"
    and p: "place N key val (pos b key e) (ks, vs, old, new) (ks', vs', old', new')"
  shows "slot old ks vs (pos b key e) = Entry k w \<Longrightarrow> pos b key e < N \<Longrightarrow>
      moving b N C {(k, w)} (ks', vs', old', new') \<and>
      held N (slot old ks vs) = insert (pos b key e) (held N (slot old' ks' vs')) \<and>
      pos b key e \<notin> held N (slot old' ks' vs')"
    and "\<not> (pos b key e < N \<and> (\<exists>k w. slot old ks vs (pos b key e) = Entry k w)) \<Longrightarrow>
      moving b N C {} (ks', vs', old', new') \<and> held N (slot old' ks' vs') = held N (slot old ks vs)"
proof -
  define i where "i = pos b key e"
  note d = movingD [OF m]
  have q: "ks' = ks[i := Some key]" "vs' = vs[i := val]" "length old' = length old" "length new' = length new"
      "\<And>n. em new' n = (n \<noteq> i \<and> em new n)" "\<And>n. dl new' n = dl new n" "\<And>n. em old' n = em old n"
      "\<And>n. dl old' n = (n = i \<and> i < N \<and> \<not> em old i \<or> dl old n)"
    using p by (simp_all add: place_def i_def)
  have i: "i < 2 ^ b" "i < length ks" "i < length vs" using less_le_trans [OF pos_lt d(3)] less_le_trans [OF pos_lt d(4)] by (simp_all add: i_def)
  have N: "slot new' ks' vs' = (slot new ks vs)(i := Entry key val)"
    using q(1,2,5,6) i d(7) by (auto simp: slot_def fun_eq_iff)
  have E: "slot new ks vs i = Empty" using e(2) by (simp add: slot_def i_def)
  have nE: "slot new ks vs i \<noteq> Entry k v" for k v using E by simp
  note n = cont_put [where S = "slot new ks vs", OF i(1) nE]
  have cn: "card (held (2 ^ b) (slot new' ks' vs')) = Suc (card (held (2 ^ b) (slot new ks vs)))"
    unfolding N n(2) using n(3) by simp
  have pa: "paths b (slot new' ks' vs')"
    by (rule paths_upd [OF d(10) N]) (use e in \<open>auto simp: slot_def i_def d(7)\<close>)
  have keys: "\<forall>j<N. \<not> em old' j \<longrightarrow> \<not> dl old' j \<longrightarrow> ks' ! j \<noteq> None \<and> em new' j"
    using d(8) q(1,5,7,8) i(2) by (auto simp: nth_list_update)
  have base: "moving b N C X (ks', vs', old', new')"
    if "C = content b (slot new' ks' vs') \<union> cont N (slot old' ks' vs') \<union> X"
      "card C = card (entries b (slot new' ks' vs')) + card (held N (slot old' ks' vs')) + card X" for X
    unfolding moving_def prod.case
  proof (intro conjI)
    show "\<forall>j<2 ^ b. \<not> em new' j \<longrightarrow> ks' ! j \<noteq> None" using d(9) q(1,5) i(2) by (auto simp: nth_list_update)
    show "\<forall>j<2 ^ b. j div 16 < length new' \<and> \<not> dl new' j" using d(6,7) q(4,6) by simp
  qed (use d(1-5) q(1-3) keys pa that in simp_all)
  show "moving b N C {(k, w)} (ks', vs', old', new') \<and>
      held N (slot old ks vs) = insert (pos b key e) (held N (slot old' ks' vs')) \<and>
      pos b key e \<notin> held N (slot old' ks' vs')"
    if "slot old ks vs (pos b key e) = Entry k w" "pos b key e < N"
  proof -
    have s: "slot old ks vs i = Entry k w" "i < N" using that by (simp_all add: i_def)
    then have t: "\<not> em old i" by (auto simp: slot_def split: if_splits)
    have O: "slot old' ks' vs' j = ((slot old ks vs)(i := Deleted)) j" for j
      using q(1,2,7,8) t s(2) by (auto simp: slot_def)
    then have O: "slot old' ks' vs' = (slot old ks vs)(i := Deleted)" by blast
    note c = cont_take [where S = "slot old ks vs" and s = Deleted, OF s(2,1)]
    have "moving b N C {(k, w)} (ks', vs', old', new')"
    proof (rule base)
      show "C = content b (slot new' ks' vs') \<union> cont N (slot old' ks' vs') \<union> {(k, w)}"
        using d(11) c(1) unfolding N O n(1) by auto
      show "card C = card (entries b (slot new' ks' vs')) + card (held N (slot old' ks' vs')) + card {(k, w)}"
        using d(12) c(2,3) cn unfolding O by simp
    qed
    then show ?thesis using c(2,3) unfolding O i_def by simp
  qed
  show "moving b N C {} (ks', vs', old', new') \<and> held N (slot old' ks' vs') = held N (slot old ks vs)"
    if "\<not> (pos b key e < N \<and> (\<exists>k w. slot old ks vs (pos b key e) = Entry k w))"
  proof -
    have s: "\<not> (i < N \<and> (\<exists>k w. slot old ks vs i = Entry k w))" using that by (simp add: i_def)
    then have "em old i \<or> dl old i" if "i < N" using that no_entry by blast
    then have "slot old' ks' vs' j = slot old ks vs j" if "j < N" for j
      using q(1,2,7,8) that by (cases "j = i") (auto simp: slot_def)
    then have O: "cont N (slot old' ks' vs') = cont N (slot old ks vs)" "held N (slot old' ks' vs') = held N (slot old ks vs)"
      using cont_cong by blast+
    have "moving b N C {} (ks', vs', old', new')"
    proof (rule base)
      show "C = content b (slot new' ks' vs') \<union> cont N (slot old' ks' vs') \<union> {}"
        using d(11) unfolding N O n(1) by auto
      show "card C = card (entries b (slot new' ks' vs')) + card (held N (slot old' ks' vs')) + card {}"
        using d(12) cn unfolding O by simp
    qed
    then show ?thesis using O by simp
  qed
qed

lemma kick_out_ok:
  assumes "moving b N C {(key, val)} (ks, vs, old, new)" "card C \<le> 2 ^ b" "N = unat n"
  shows "\<exists>ks' vs' old' new'. kick_out n (2 ^ b - 1) key val (ks, vs, old, new) = Some (ks', vs', old', new') \<and>
    moving b N C {} (ks', vs', old', new') \<and> held N (slot old' ks' vs') \<subseteq> held N (slot old ks vs)"
  using assms(1)
proof (induction "card (held N (slot old ks vs))" arbitrary: key val ks vs old new rule: less_induct)
  case less
  note d = movingD [OF less.prems]
  obtain j where "j < 2 ^ b" "em new j" using moving_free [OF less.prems assms(2)] by auto
  then obtain e where e: "e < 2 ^ b" "em new (pos b key e)" "\<forall>l<e. \<not> em new (pos b key l)"
    using first_empty by blast
  define i where "i = pos b key e"
  have u: "unat (of_nat i :: u32) = i" unfolding i_def by (rule pos_word [OF d(1)])
  have i: "i < 2 ^ b" "i < length ks" "i < length vs"
    using less_le_trans [OF pos_lt d(3)] less_le_trans [OF pos_lt d(4)] by (simp_all add: i_def)
  have lt: "of_nat i < n \<longleftrightarrow> i < N" by (simp add: word_less_nat_alt u assms(3))
  have free: "free_slot new (2 ^ b - 1) (kh_int_hash_func key AND (2 ^ b - 1)) 0 = Some (of_nat i)"
    using free_slot_ok [OF d(1,6) e, of 0] pos_start [OF d(1), of key] by (simp add: i_def)
  obtain new' where n': "ac_set_isempty_false new (of_nat i) = Some new'" "length new' = length new"
      "\<forall>n. em new' n = (n \<noteq> i \<and> em new n)" "\<forall>n. dl new' n = dl new n"
    using set_isempty_false_ok [of "of_nat i" new] d(6) i(1) unfolding u by blast
  have ei: "em new i" using e(2) by (simp add: i_def)
  show ?case
  proof (cases "i < N \<and> (\<exists>k w. slot old ks vs i = Entry k w)")
    case True
    then obtain k w where s: "slot old ks vs i = Entry k w" "i < N" by blast
    have f: "\<not> em old i" "\<not> dl old i" "k = the (ks ! i)" "w = vs ! i" using s(1) by (auto simp: slot_def split: if_splits)
    then have k: "ks ! i = Some k" using d(8) s(2) by auto
    obtain old' where o': "ac_set_isdel_true old (of_nat i) = Some old'" "length old' = length old"
        "\<forall>n. em old' n = em old n" "\<forall>n. dl old' n = (n = i \<or> dl old n)"
      using set_isdel_true_ok [of "of_nat i" old] d(5) s(2) unfolding u by blast
    have p: "place N key val (pos b key e) (ks, vs, old, new) (ks[i := Some key], vs[i := val], old', new')"
      using n' o' s(2) f(1) by (auto simp: place_def i_def)
    note t = place_moving(1) [OF less.prems e p, folded i_def, OF s]
    have "card (held N (slot old' (ks[i := Some key]) (vs[i := val]))) < card (held N (slot old ks vs))"
      using t by (simp add: card_insert_if)
    from less.hyps [OF this] obtain ks' vs' old'' new'' where
      "kick_out n (2 ^ b - 1) k w (ks[i := Some key], vs[i := val], old', new') = Some (ks', vs', old'', new'')"
      "moving b N C {} (ks', vs', old'', new'')" "held N (slot old'' ks' vs') \<subseteq> held N (slot old' (ks[i := Some key]) (vs[i := val]))"
      using t by blast
    moreover have "ac_iseither old (of_nat i) = Some False" using flag_reads(3) [of "of_nat i" old] d(5) s(2) f by (simp add: u)
    ultimately show ?thesis
      using t free n'(1) o'(1) i k f(4) s(2)
      by (subst kick_out.simps) (auto simp: lt mem_set_def mem_at_def key_at_def u)
  next
    case False
    have p: "place N key val (pos b key e) (ks, vs, old, new) (ks[i := Some key], vs[i := val], old, new')"
      using n' False by (auto simp: place_def i_def slot_def)
    note t = place_moving(2) [OF less.prems e p, folded i_def, OF False]
    have "em old i \<or> dl old i" if "i < N" using False that no_entry by blast
    then have "(if of_nat i < n then map_option Not (ac_iseither old (of_nat i)) else Some False) = Some False"
      using flag_reads(3) [of "of_nat i" old] d(5) by (auto simp: lt u)
    then have "kick_out n (2 ^ b - 1) key val (ks, vs, old, new) = Some (ks[i := Some key], vs[i := val], old, new')"
      using free n'(1) i by (subst kick_out.simps) (simp add: mem_set_def u)
    then show ?thesis using t by auto
  qed
qed

lemma rehash_ok:
  assumes "moving b N C {} st" "st = (ks, vs, old, new)" "held N (slot old ks vs) \<subseteq> set js" "\<forall>j \<in> set js. j < N"
    and c: "card C \<le> 2 ^ b" "N = unat n"
  shows "\<exists>ks' vs' old' new'. rehash n (2 ^ b - 1) (map of_nat js) st = Some (ks', vs', old', new') \<and>
    moving b N C {} (ks', vs', old', new') \<and> held N (slot old' ks' vs') = {}"
  using assms(1-4)
proof (induction js arbitrary: st ks vs old new)
  case (Cons j js)
  note d = movingD [OF Cons.prems(1) [unfolded Cons.prems(2)]]
  have j: "j < N" using Cons.prems(4) by simp
  have u: "unat (of_nat j :: u32) = j" by (rule small_nat [OF d(1)]) (use j d(2) in simp)
  have r: "ac_iseither old (of_nat j) = Some (em old j \<or> dl old j)"
    using flag_reads(3) [of "of_nat j" old] d(5) j by (simp add: u)
  show ?case
  proof (cases "em old j \<or> dl old j")
    case True
    then have "j \<notin> held N (slot old ks vs)" by (auto simp: held_def slot_def)
    then have "held N (slot old ks vs) \<subseteq> set js" using Cons.prems(3) by auto
    from Cons.IH [OF Cons.prems(1,2) this] show ?thesis
      using True r Cons.prems(2,4) by (simp add: rehash_bucket_def)
  next
    case False
    then obtain k where k: "ks ! j = Some k" using d(8) j by auto
    define w where "w = vs ! j"
    have s: "slot old ks vs j = Entry k w" using False k by (simp add: slot_def w_def)
    have len: "j < length ks" "j < length vs" using j d(2-4) by linarith+
    obtain old' where o': "ac_set_isdel_true old (of_nat j) = Some old'" "length old' = length old"
        "\<forall>n. em old' n = em old n" "\<forall>n. dl old' n = (n = j \<or> dl old n)"
      using set_isdel_true_ok [of "of_nat j" old] d(5) j unfolding u by blast
    have O: "slot old' ks vs = (slot old ks vs)(j := Deleted)"
      using o'(3,4) False by (auto simp: slot_def fun_eq_iff)
    note c2 = cont_take [where S = "slot old ks vs" and s = Deleted, OF j s]
    have m: "moving b N C {(k, w)} (ks, vs, old', new)"
      unfolding moving_def prod.case
    proof (intro conjI)
      show "C = content b (slot new ks vs) \<union> cont N (slot old' ks vs) \<union> {(k, w)}" using d(11) c2(1) unfolding O by auto
      show "card C = card (entries b (slot new ks vs)) + card (held N (slot old' ks vs)) + card {(k, w)}"
        using d(12) c2(2,3) unfolding O by simp
    qed (use d o' in simp_all)
    obtain ks1 vs1 old1 new1 where k1: "kick_out n (2 ^ b - 1) k w (ks, vs, old', new) = Some (ks1, vs1, old1, new1)"
        "moving b N C {} (ks1, vs1, old1, new1)" "held N (slot old1 ks1 vs1) \<subseteq> held N (slot old' ks vs)"
      using kick_out_ok [OF m c] by blast
    have "held N (slot old1 ks1 vs1) \<subseteq> set js" using k1(3) c2(2,3) Cons.prems(3) unfolding O by auto
    from Cons.IH [OF k1(2) refl this] Cons.prems(4) show ?thesis
      using False r k len o'(1) k1(1) Cons.prems(2)
      by (simp add: rehash_bucket_def key_at_def mem_at_def u w_def [symmetric])
  qed
qed auto

section \<open>Resizing\<close>

text \<open>A table in which nothing has been put yet: it has no buckets.\<close>

definition kh_fresh :: "'v khash \<Rightarrow> bool" where
  "kh_fresh h \<longleftrightarrow> n_buckets h = 0 \<and> kh_size h = 0 \<and> n_occupied h = 0 \<and> upper_bound h = 0"

text \<open>A table with its contents, a finite map given as a set of pairs.\<close>

definition kh_rep :: "'v khash \<Rightarrow> (u32 \<times> 'v option) set \<Rightarrow> bool" where
  "kh_rep h C \<longleftrightarrow> kh_fresh h \<and> C = {} \<or> (\<exists>b. kh_inv b h \<and> C = content b (slots_of h))"

lemma entry_map:
  assumes "uniq b S"
  shows "card (content b S) = card (entries b S)" "inj_on fst (content b S)"
proof -
  have "inj_on (\<lambda>i. case S i of Entry k v \<Rightarrow> (k, v)) (entries b S)"
    using assms by (auto simp: uniq_def held_def intro!: inj_onI)
  then show "card (content b S) = card (entries b S)" unfolding cont_image by (rule card_image)
  show "inj_on fst (content b S)"
  proof (rule inj_onI)
    fix x y assume "x \<in> content b S" "y \<in> content b S" "fst x = fst y"
    then obtain i j k v w where "i < 2 ^ b" "j < 2 ^ b" "S i = Entry k v" "S j = Entry k w" "x = (k, v)" "y = (k, w)"
      by (auto simp: cont_def)
    then show "x = y" using assms unfolding uniq_def by fastforce
  qed
qed

lemma uniq_of_count:
  assumes "card (content b S) = card (entries b S)" "inj_on fst (content b S)"
  shows "uniq b S"
  unfolding uniq_def
proof (intro allI impI)
  fix i j k v w assume i: "i < 2 ^ b" "j < 2 ^ b" "S i = Entry k v" "S j = Entry k w"
  have e: "i \<in> entries b S" "j \<in> entries b S" using i by (auto simp: held_def)
  have "(k, v) \<in> content b S" "(k, w) \<in> content b S" using i by (auto simp: cont_def)
  then have "v = w" using inj_onD [OF assms(2), of "(k, v)" "(k, w)"] by simp
  moreover have "inj_on (\<lambda>i. case S i of Entry k v \<Rightarrow> (k, v)) (entries b S)"
    using assms(1) unfolding cont_image by (intro eq_card_imp_inj_on) simp_all
  ultimately show "i = j" using i e by (elim inj_onD) simp_all
qed

lemma fresh_size:
  assumes "b \<le> 31" "i < 2 ^ b"
  shows "i div 16 < unat (ac_fsize (2 ^ b))"
proof (cases "b \<le> 3")
  case True
  then have "(2 :: nat) ^ b \<le> 2 ^ 3" by (intro power_increasing) auto
  then have "i div 16 = 0" "(2 ^ b :: u32) < 16" using assms pow_nat [OF assms(1)] by (auto simp: word_less_nat_alt)
  then show ?thesis by (simp add: ac_fsize_def)
next
  case False
  then have "(2 :: nat) ^ b = 2 ^ (4 + (b - 4))" by simp
  then have p: "(2 :: nat) ^ b = 16 * 2 ^ (b - 4)" unfolding power_add by simp
  then have "\<not> (2 ^ b :: u32) < 16" using pow_nat [OF assms(1)] by (simp add: word_less_nat_alt not_less)
  moreover have "unat (drop_bit 4 (2 ^ b :: u32)) = 2 ^ (b - 4)"
    using div_power_nat_word [of 4 "2 ^ b"] pow_nat [OF assms(1)] p by simp
  ultimately show ?thesis using assms(2) p by (simp add: ac_fsize_def)
qed

lemma krealloc_nth: "i < length xs \<Longrightarrow> i < unat n \<Longrightarrow> krealloc xs n ! i = xs ! i"
  by (simp add: krealloc_def nth_append)

lemma krealloc_length: "length (krealloc xs n) = unat n"
  by (simp add: krealloc_def)

lemma upper_word: "b \<le> 31 \<Longrightarrow> unat (ac_upper (2 ^ b)) = upper (2 ^ b)"
proof -
  assume b: "b \<le> 31"
  then have "(2 :: nat) ^ b \<le> 2 ^ 31" by (intro power_increasing) auto
  then have "upper (2 ^ b) < 4294967296" by (simp add: upper_def)
  then show ?thesis by (simp add: ac_upper_def pow_nat [OF b] upper_def unat_of_nat32)
qed

text \<open>Resizing to at least as many buckets as before, with room for the entries.\<close>

lemma kh_resize_ok:
  assumes rep: "kh_rep h C" and b: "2 \<le> b" "b \<le> 31" and nn: "kroundup32 x = 2 ^ b \<or> kroundup32 x < 4 \<and> b = 2"
    and N: "unat (n_buckets h) \<le> 2 ^ b" and fits: "card C < upper (2 ^ b)" and mem: "3 \<le> mem"
  shows "\<exists>h'. kh_resize mem h x = Some (0, h') \<and> kh_inv b h' \<and> content b (slots_of h') = C \<and>
    kh_size h' = kh_size h \<and> n_occupied h' = kh_size h"
proof -
  define grow where "grow \<longleftrightarrow> n_buckets h < 2 ^ b"
  define ks vs new where "ks = (if grow then krealloc (kh_keys h) (2 ^ b) else kh_keys h)"
    and "vs = (if grow then krealloc (kh_vals h) (2 ^ b) else kh_vals h)"
    and "new = replicate (unat (ac_fsize (2 ^ b))) (0xaaaaaaaa :: u32)"
  let ?N = "unat (n_buckets h)"
  have p: "unat (2 ^ b :: u32) = 2 ^ b" by (rule pow_nat [OF b(2)])
  have four: "(if kroundup32 x < 4 then 4 else kroundup32 x) = 2 ^ b"
  proof (cases "kroundup32 x < 4 \<and> b = 2")
    case False
    then have "kroundup32 x = 2 ^ b" using nn by blast
    moreover have "(2 :: nat) ^ 2 \<le> 2 ^ b" using b(1) by (intro power_increasing) auto
    ultimately show ?thesis using p by (simp add: word_less_nat_alt)
  qed simp
  have grow: "grow \<longleftrightarrow> ?N < 2 ^ b" by (simp add: grow_def word_less_nat_alt p)
  have em: "em new i" "\<not> dl new i" "i div 16 < length new" if "i < 2 ^ b" for i
    using fresh_flags fresh_size [OF b(2) that] by (simp_all add: new_def)
  have empty: "cont (2 ^ b) (slot new ks vs) = {}" "held (2 ^ b) (slot new ks vs) = {}"
    using em by (auto simp: cont_def held_def slot_def)
  have old: "cont ?N (slot (kh_flags h) ks vs) = C \<and> card (held ?N (slot (kh_flags h) ks vs)) = card C \<and>
      2 ^ b \<le> length ks \<and> 2 ^ b \<le> length vs \<and> (\<forall>i<?N. i div 16 < length (kh_flags h)) \<and>
      (\<forall>i<?N. \<not> em (kh_flags h) i \<longrightarrow> \<not> dl (kh_flags h) i \<longrightarrow> ks ! i \<noteq> None) \<and> unat (kh_size h) = card C \<and> inj_on fst C"
  proof (cases "kh_fresh h \<and> C = {}")
    case True
    then have "grow" "?N = 0" using grow by (simp_all add: kh_fresh_def)
    then show ?thesis using True by (simp add: cont_def held_def ks_def vs_def krealloc_length p kh_fresh_def)
  next
    case False
    then obtain a where inv: "kh_inv a h" and C: "C = content a (slots_of h)" using rep unfolding kh_rep_def by blast
    note i = kh_invD [OF inv]
    have Na: "?N = 2 ^ a" using i(4) pow_nat [OF i(2)] by simp
    have k: "ks ! j = kh_keys h ! j \<and> vs ! j = kh_vals h ! j" if "j < ?N" for j
      using less_le_trans [OF that N] less_le_trans [OF _ arrays_okD(2) [OF i(3)], of j]
        less_le_trans [OF _ arrays_okD(3) [OF i(3)], of j] that Na p by (auto simp: ks_def vs_def krealloc_nth)
    then have "slot (kh_flags h) ks vs j = slots_of h j" if "j < ?N" for j using that by (simp add: slot_def)
    then have "cont ?N (slot (kh_flags h) ks vs) = C" "held ?N (slot (kh_flags h) ks vs) = entries a (slots_of h)"
      using cont_cong [of ?N "slot (kh_flags h) ks vs" "slots_of h"] C Na by auto
    moreover have "2 ^ b \<le> length ks \<and> 2 ^ b \<le> length vs"
      using grow N Na arrays_okD(2,3) [OF i(3)] by (auto simp: ks_def vs_def krealloc_length p)
    moreover have "\<forall>j<?N. j div 16 < length (kh_flags h)" using arrays_okD(4) [OF i(3)] Na by simp
    moreover have "\<forall>j<?N. \<not> em (kh_flags h) j \<longrightarrow> \<not> dl (kh_flags h) j \<longrightarrow> ks ! j \<noteq> None"
      using arrays_okD(5) [OF i(3)] Na k by simp
    ultimately show ?thesis using entry_map [OF i(6)] i(7) C by auto
  qed
  have m: "moving b ?N C {} (ks, vs, kh_flags h, new)"
    unfolding moving_def prod.case empty using old em N b
    by (simp add: paths_def) (auto simp: slot_def)
  have ub: "upper (2 ^ b) < 2 ^ b" by (rule upper_lt [OF b(1)])
  have "held ?N (slot (kh_flags h) ks vs) \<subseteq> set [0..<?N]" "\<forall>j \<in> set [0..<?N]. j < ?N" by (auto simp: held_def)
  then obtain ks' vs' old' new' where r:
      "rehash (n_buckets h) (2 ^ b - 1) (map of_nat [0..<?N]) (ks, vs, kh_flags h, new) = Some (ks', vs', old', new')"
      "moving b ?N C {} (ks', vs', old', new')" "held ?N (slot old' ks' vs') = {}"
    using rehash_ok [OF m refl _ _ _ refl, of "[0..<?N]"] fits ub by auto
  note d = movingD [OF r(2)]
  have "cont ?N (slot old' ks' vs') = {}" using r(3) unfolding cont_image by simp
  then have C': "content b (slot new' ks' vs') = C" using d(11) by simp
  have cC: "card (entries b (slot new' ks' vs')) = card C" using d(12) r(3) by simp
  have iu: "in_use b (slot new' ks' vs') = entries b (slot new' ks' vs')"
    using d(7) by (auto simp: in_use_def held_def slot_def)
  define h' where "h' = \<lparr>n_buckets = 2 ^ b, kh_size = kh_size h, n_occupied = kh_size h, upper_bound = ac_upper (2 ^ b),
      kh_flags = new', kh_keys = ks', kh_vals = vs'\<rparr>"
  have "kh_inv b h'"
    unfolding kh_inv_def
  proof (intro conjI)
    show "arrays_ok b (kh_flags h') (kh_keys h') (kh_vals h')" using d by (simp add: arrays_ok_def h'_def)
    show "uniq b (slots_of h')" using uniq_of_count [of b "slots_of h'"] C' cC old by (simp add: h'_def)
  qed (use b d(10) old cC iu fits upper_word [OF b(2)] in \<open>simp_all add: h'_def\<close>)
  moreover have "\<not> ac_upper (2 ^ b) \<le> kh_size h"
    using upper_word [OF b(2)] old fits by (simp add: word_le_nat_alt)
  moreover have "\<not> 2 ^ b < n_buckets h" using N by (simp add: word_less_nat_alt p)
  ultimately have "kh_resize mem h x = Some (0, h')"
    using r(1) mem four unfolding kh_resize_def Let_def
    by (cases grow) (simp_all add: h'_def grow_def [symmetric] ks_def vs_def new_def)
  then show ?thesis using \<open>kh_inv b h'\<close> C' by (auto simp: h'_def)
qed

section \<open>Insertion with growth\<close>

lemma roundup_table:
  "list_all (\<lambda>b. kroundup32 (2 ^ b - 1) = 2 ^ b) [2..<32]" "list_all (\<lambda>b. kroundup32 (2 ^ b + 1) = 2 ^ Suc b) [2..<31]"
  "kroundup32 1 < 4"
  by (simp_all add: kroundup32_def upt_rec)

lemma roundup:
  shows "2 \<le> b \<Longrightarrow> b \<le> 31 \<Longrightarrow> kroundup32 (2 ^ b - 1) = 2 ^ b"
    and "2 \<le> b \<Longrightarrow> b \<le> 30 \<Longrightarrow> kroundup32 (2 ^ b + 1) = 2 ^ Suc b"
proof -
  have m: "2 \<le> b \<Longrightarrow> b < n \<Longrightarrow> b \<in> set [2..<n]" for n unfolding set_upt by simp
  show "kroundup32 (2 ^ b - 1) = 2 ^ b" if "2 \<le> b" "b \<le> 31"
    by (rule bspec [OF roundup_table(1) [unfolded list_all_iff]]) (rule m [OF that(1)], use that(2) in simp)
  show "kroundup32 (2 ^ b + 1) = 2 ^ Suc b" if "2 \<le> b" "b \<le> 30"
    by (rule bspec [OF roundup_table(2) [unfolded list_all_iff]]) (rule m [OF that(1)], use that(2) in simp)
qed

lemma rep_size:
  assumes "kh_rep h C"
  shows "unat (kh_size h) = card C" "finite C" "inj_on fst C"
proof -
  have "unat (kh_size h) = card C \<and> finite C \<and> inj_on fst C"
  proof (cases "kh_fresh h \<and> C = {}")
    case False
    then obtain b where b: "kh_inv b h" "C = content b (slots_of h)" using assms unfolding kh_rep_def by blast
    then show ?thesis using entry_map [OF kh_invD(6) [OF b(1)]] kh_invD(7) [OF b(1)] by simp
  qed (simp add: kh_fresh_def)
  then show "unat (kh_size h) = card C" "finite C" "inj_on fst C" by blast+
qed

text \<open>What \<open>kh_put\<close> does first: afterwards there is room for one more entry.\<close>

definition grow_step :: "nat \<Rightarrow> 'v khash \<Rightarrow> (int \<times> 'v khash) option" where
  "grow_step mem h =
    (if upper_bound h \<le> n_occupied h then
       if push_bit 1 (kh_size h) < n_buckets h then kh_resize mem h (n_buckets h - 1)
       else kh_resize mem h (n_buckets h + 1)
     else Some (0, h))"

lemma grow_step_ok:
  assumes rep: "kh_rep h C" and c: "card C < 2 ^ 30" and mem: "3 \<le> mem"
  shows "\<exists>b h'. grow_step mem h = Some (0, h') \<and> kh_inv b h' \<and> content b (slots_of h') = C \<and>
    kh_size h' = kh_size h \<and> unat (n_occupied h') < upper (2 ^ b)"
proof (cases "kh_fresh h")
  case True
  then have "C = {}" using rep_size [OF rep] by (simp add: kh_fresh_def)
  then obtain h' where "kh_resize mem h 1 = Some (0, h')" "kh_inv 2 h'" "content 2 (slots_of h') = C"
      "kh_size h' = kh_size h" "n_occupied h' = kh_size h"
    using kh_resize_ok [OF rep, of 2 1 mem] roundup_table(3) mem True by (auto simp: upper_def kh_fresh_def)
  then show ?thesis using True by (auto simp: grow_step_def kh_fresh_def upper_def)
next
  case False
  then obtain b where inv: "kh_inv b h" and C: "C = content b (slots_of h)" using rep unfolding kh_rep_def by blast
  note i = kh_invD [OF inv]
  have sz: "unat (kh_size h) = card C" by (rule rep_size [OF rep])
  have p: "unat (2 ^ b :: u32) = 2 ^ b" by (rule pow_nat [OF i(2)])
  have four: "4 \<le> (2 :: nat) ^ b" using power_increasing [OF i(1), of "2 :: nat"] by simp
  have dbl: "unat (push_bit 1 (kh_size h)) = 2 * card C"
    using sz c by (simp add: push_bit_eq_mult unat_word_ariths)
  consider "n_occupied h < upper_bound h"
    | "upper_bound h \<le> n_occupied h" "2 * card C < 2 ^ b"
    | "upper_bound h \<le> n_occupied h" "2 ^ b \<le> 2 * card C"
    by (metis not_less)
  then show ?thesis
  proof cases
    case 1
    then have "unat (n_occupied h) < upper (2 ^ b)" using i(9) by (simp add: word_less_nat_alt)
    then show ?thesis using 1 inv C by (auto simp: grow_step_def)
  next
    case 2
    have fits: "card C < upper (2 ^ b)" using 2(2) unfolding upper_def by linarith
    obtain h' where h': "kh_resize mem h (2 ^ b - 1) = Some (0, h')" "kh_inv b h'" "content b (slots_of h') = C"
        "kh_size h' = kh_size h" "n_occupied h' = kh_size h"
      using kh_resize_ok [OF rep i(1,2) _ _ fits mem, of "2 ^ b - 1"] roundup(1) [OF i(1,2)] i(4) p by auto
    then have "grow_step mem h = Some (0, h')"
      using 2 dbl p i(4) by (simp add: grow_step_def word_less_nat_alt)
    then show ?thesis using h' sz fits by auto
  next
    case 3
    have "(2 :: nat) ^ b < 2 ^ 31" using 3(2) c by simp
    then have b: "b \<le> 30" "Suc b \<le> 31" using power_less_imp_less_exp [of "2 :: nat" b 31] by simp_all
    have "card C \<le> upper (2 ^ b)" using counts_lt(1) [OF inv] i(10) sz by simp
    then have fits: "card C < upper (2 ^ Suc b)" using four unfolding upper_def power_Suc by linarith
    have lt: "unat (n_buckets h) \<le> 2 ^ Suc b" using i(4) p by simp
    have b2: "2 \<le> Suc b" using i(1) by simp
    obtain h' where h': "kh_resize mem h (2 ^ b + 1) = Some (0, h')" "kh_inv (Suc b) h'" "content (Suc b) (slots_of h') = C"
        "kh_size h' = kh_size h" "n_occupied h' = kh_size h"
      using kh_resize_ok [OF rep b2 b(2) _ lt fits mem, of "2 ^ b + 1"] roundup(2) [OF i(1) b(1)] by blast
    then have "grow_step mem h = Some (0, h')"
      using 3 dbl p i(4) by (simp add: grow_step_def word_less_nat_alt)
    then show ?thesis using h' sz fits by (intro exI [of _ "Suc b"] exI [of _ h']) simp
  qed
qed

lemma hash_add_ok:
  assumes rep: "kh_rep h C" and c: "card C < 2 ^ 30" and mem: "3 \<le> mem"
  shows "\<exists>r h'. hash_add mem h key v = Some (r, h') \<and>
    (if key \<in> fst ` C then r = - 1 \<and> kh_rep h' C else r \<noteq> - 1 \<and> kh_rep h' (insert (key, Some v) C))"
proof -
  obtain b g where g: "grow_step mem h = Some (0, g)" "kh_inv b g" "content b (slots_of g) = C"
      "unat (n_occupied g) < upper (2 ^ b)"
    using grow_step_ok [OF assms] by blast
  have put: "kh_put mem h key = put_entry g key" using g(1) by (simp add: kh_put_def grow_step_def [symmetric])
  obtain x where x: "x < 2 ^ b" "(\<exists>v. slots_of g x = Entry key v) \<and> put_entry g key = Some (0, of_nat x, g) \<or>
      absent b (slots_of g) key \<and> (\<exists>r h' vs. put_entry g key = Some (r, of_nat x, h') \<and> 0 < r \<and>
        mem_set (kh_vals h') (of_nat x) (Some v) = Some vs \<and> kh_inv b (h'\<lparr>kh_vals := vs\<rparr>) \<and>
        content b (slots_of (h'\<lparr>kh_vals := vs\<rparr>)) = insert (key, Some v) (content b (slots_of g)) \<and> kh_size h' = kh_size g + 1)"
    using add_entry_ok [OF g(2,4), of key v] by blast
  have ab: "absent b (slots_of g) key \<longleftrightarrow> key \<notin> fst ` C"
    unfolding g(3) [symmetric] by (force simp: absent_def cont_def)
  show ?thesis
  proof (cases "key \<in> fst ` C")
    case True
    then have "hash_add mem h key v = Some (- 1, g)" using x(2) ab put by (simp add: hash_add_def)
    then show ?thesis using True g(2,3) by (auto simp: kh_rep_def)
  next
    case False
    then have "\<nexists>v. slots_of g x = Entry key v" using ab x(1) by (simp add: absent_def)
    then obtain r h' vs where r: "put_entry g key = Some (r, of_nat x, h')" "0 < r"
        "mem_set (kh_vals h') (of_nat x) (Some v) = Some vs" "kh_inv b (h'\<lparr>kh_vals := vs\<rparr>)"
        "content b (slots_of (h'\<lparr>kh_vals := vs\<rparr>)) = insert (key, Some v) C"
      using x(2) g(3) by auto
    have "hash_add mem h key v = Some (sint (of_nat x :: u32), h'\<lparr>kh_vals := vs\<rparr>)"
      using put r(1-3) by (simp add: hash_add_def)
    moreover have "sint (of_nat x :: u32) = int x"
    proof (rule sint_small32)
      show "unat (of_nat x :: u32) = x" by (rule small_nat [OF kh_invD(2) [OF g(2)] x(1)])
      have "(2 :: nat) ^ b \<le> 2 ^ 31" using kh_invD(2) [OF g(2)] by (intro power_increasing) auto
      then show "x < 2 ^ 31" using x(1) by simp
    qed
    moreover have "kh_rep (h'\<lparr>kh_vals := vs\<rparr>) (insert (key, Some v) C)" using r(4,5) unfolding kh_rep_def by metis
    ultimately show ?thesis using False by auto
  qed
qed

text \<open>The empty table, for deleting and looking up.\<close>

lemma hash_del_rep:
  assumes "kh_rep h C"
  shows "\<exists>r h'. hash_del h key = Some (r, h') \<and> (r = - 1 \<longleftrightarrow> key \<notin> fst ` C) \<and> kh_rep h' {e \<in> C. fst e \<noteq> key}"
proof (cases "kh_fresh h \<and> C = {}")
  case True
  then show ?thesis by (auto simp: hash_del_def kh_get_def kh_fresh_def kh_rep_def)
next
  case False
  then obtain b where b: "kh_inv b h" "C = content b (slots_of h)" using assms unfolding kh_rep_def by blast
  then have "absent b (slots_of h) key \<longleftrightarrow> key \<notin> fst ` C" by (force simp: absent_def cont_def)
  moreover obtain r h' where "hash_del h key = Some (r, h')" "kh_inv b h'" "r = - 1 \<longleftrightarrow> absent b (slots_of h) key"
      "content b (slots_of h') = {e \<in> C. fst e \<noteq> key}"
    using hash_del_ok [OF b(1), of key] b(2) by blast
  ultimately show ?thesis unfolding kh_rep_def by blast
qed

lemma hash_get_rep:
  assumes "kh_rep h C"
  shows "(key, Some v) \<in> C \<Longrightarrow> hash_get h key = Some (Some v)" "key \<notin> fst ` C \<Longrightarrow> hash_get h key = Some None"
proof -
  assume k: "(key, Some v) \<in> C"
  then obtain b where b: "kh_inv b h" "C = content b (slots_of h)" using assms unfolding kh_rep_def by blast
  show "hash_get h key = Some (Some v)" by (rule hash_get_ok(1) [OF b(1)]) (use k b(2) in simp)
next
  assume k: "key \<notin> fst ` C"
  show "hash_get h key = Some None"
  proof (cases "kh_fresh h \<and> C = {}")
    case True
    then show ?thesis by (simp add: hash_get_def kh_get_def kh_fresh_def)
  next
    case False
    then obtain b where b: "kh_inv b h" "C = content b (slots_of h)" using assms unfolding kh_rep_def by blast
    then have "absent b (slots_of h) key" using k by (force simp: absent_def cont_def)
    then show ?thesis by (rule hash_get_ok(2) [OF b(1)])
  qed
qed

section \<open>The table of Wm_Hash\<close>

text \<open>
  Programs over a table: adding, deleting, looking up. The macros answer with an index or \<open>-1\<close>, or with
  the value.
\<close>

datatype 'v table_op = Add u32 'v | Del u32 | Get u32
datatype 'v table_result = Done bool | Found "'v option"

fun khash_run :: "'v table_op list \<Rightarrow> 'v khash \<Rightarrow> ('v table_result list \<times> 'v khash) option" where
  "khash_run [] h = Some ([], h)"
| "khash_run (Add k v # xs) h =
    Option.bind (hash_add 3 h k v) (\<lambda>(r, h). map_option (\<lambda>(rs, h). (Done (r \<noteq> - 1) # rs, h)) (khash_run xs h))"
| "khash_run (Del k # xs) h =
    Option.bind (hash_del h k) (\<lambda>(r, h). map_option (\<lambda>(rs, h). (Done (r \<noteq> - 1) # rs, h)) (khash_run xs h))"
| "khash_run (Get k # xs) h =
    Option.bind (hash_get h k) (\<lambda>r. map_option (\<lambda>(rs, h). (Found r # rs, h)) (khash_run xs h))"

fun table_run :: "'v table_op list \<Rightarrow> 'v table \<Rightarrow> 'v table_result list \<times> 'v table" where
  "table_run [] t = ([], t)"
| "table_run (Add k v # xs) t =
    (let (r, t) = WM_HASH_ADD t k v; (rs, t) = table_run xs t in (Done r # rs, t))"
| "table_run (Del k # xs) t =
    (let (r, t) = WM_HASH_DEL t k; (rs, t) = table_run xs t in (Done r # rs, t))"
| "table_run (Get k # xs) t = (let (rs, t') = table_run xs t in (Found (WM_HASH_GET t k) # rs, t'))"

definition pairs :: "'v table \<Rightarrow> (u32 \<times> 'v option) set" where
  "pairs t = (\<lambda>(k, v). (k, Some v)) ` set t"

lemma pairs_facts:
  assumes "table_ok t"
  shows "card (pairs t) = length t" "fst ` pairs t = dom (WM_HASH_GET t)" "(k, Some v) \<in> pairs t \<longleftrightarrow> WM_HASH_GET t k = Some v"
proof -
  have d: "distinct (map fst t)" using assms by (simp add: table_ok_def)
  have "inj_on (\<lambda>(k, v). (k, Some v)) (set t)" by (auto simp: inj_on_def)
  then show "card (pairs t) = length t" using d by (simp add: pairs_def card_image distinct_card distinct_map)
  show "fst ` pairs t = dom (WM_HASH_GET t)" by (force simp: pairs_def WM_HASH_GET_def [abs_def] dom_map_of_conv_image_fst image_iff)
  show "(k, Some v) \<in> pairs t \<longleftrightarrow> WM_HASH_GET t k = Some v" using d by (auto simp: pairs_def WM_HASH_GET_def)
qed

lemma pairs_add: "pairs (snd (WM_HASH_ADD t k v)) = (if WM_HASH_GET t k = None then insert (k, Some v) (pairs t) else pairs t)"
  by (auto simp: WM_HASH_ADD_def WM_HASH_GET_def pairs_def)

lemma pairs_del: "pairs (snd (WM_HASH_DEL t k)) = {e \<in> pairs t. fst e \<noteq> k}"
  by (auto simp: WM_HASH_DEL_def pairs_def map_of_eq_None_iff image_iff split: option.split) force+

lemma khash_run_ok:
  assumes "kh_rep h (pairs t)" "table_ok t" "length t + length xs < 2 ^ 30"
  shows "\<exists>h'. khash_run xs h = Some (fst (table_run xs t), h') \<and> kh_rep h' (pairs (snd (table_run xs t)))"
  using assms
proof (induction xs arbitrary: h t)
  case (Cons x xs)
  note pf = pairs_facts [OF Cons.prems(2)]
  show ?case
  proof (cases x)
    case (Add k v)
    obtain r h1 where r: "hash_add 3 h k v = Some (r, h1)"
        "if k \<in> fst ` pairs t then r = - 1 \<and> kh_rep h1 (pairs t) else r \<noteq> - 1 \<and> kh_rep h1 (insert (k, Some v) (pairs t))"
      using hash_add_ok [OF Cons.prems(1), of 3 k v] Cons.prems(3) pf(1) by auto
    define t1 where "t1 = snd (WM_HASH_ADD t k v)"
    have t1: "kh_rep h1 (pairs t1)" "fst (WM_HASH_ADD t k v) \<longleftrightarrow> r \<noteq> - 1"
      using r(2) pf(2) pairs_add [of t k v] hm.add_result [OF Cons.prems(2), of k v] by (auto simp: t1_def domIff split: if_splits)
    have "length t1 \<le> Suc (length t)" by (simp add: t1_def WM_HASH_ADD_def split: option.split)
    then obtain h' where "khash_run xs h1 = Some (fst (table_run xs t1), h')" "kh_rep h' (pairs (snd (table_run xs t1)))"
      using Cons.IH [OF t1(1) hm.add_ok [OF Cons.prems(2), of k v, folded t1_def]] Cons.prems(3) by auto
    then show ?thesis using r(1) t1(2) Add by (auto simp: t1_def case_prod_beta Let_def)
  next
    case (Del k)
    obtain r h1 where r: "hash_del h k = Some (r, h1)" "r = - 1 \<longleftrightarrow> k \<notin> fst ` pairs t" "kh_rep h1 {e \<in> pairs t. fst e \<noteq> k}"
      using hash_del_rep [OF Cons.prems(1)] by blast
    define t1 where "t1 = snd (WM_HASH_DEL t k)"
    have t1: "kh_rep h1 (pairs t1)" "fst (WM_HASH_DEL t k) \<longleftrightarrow> r \<noteq> - 1"
      using r(2,3) pf(2) pairs_del [of t k] hm.del_result [OF Cons.prems(2), of k] by (auto simp: t1_def domIff)
    have "length t1 \<le> length t" by (simp add: t1_def WM_HASH_DEL_def split: option.split)
    then obtain h' where "khash_run xs h1 = Some (fst (table_run xs t1), h')" "kh_rep h' (pairs (snd (table_run xs t1)))"
      using Cons.IH [OF t1(1) hm.del_ok [OF Cons.prems(2), of k, folded t1_def]] Cons.prems(3) by auto
    then show ?thesis using r(1) t1(2) Del by (auto simp: t1_def case_prod_beta Let_def)
  next
    case (Get k)
    have "hash_get h k = Some (WM_HASH_GET t k)"
      using hash_get_rep [OF Cons.prems(1), of k] pf(2,3) by (cases "WM_HASH_GET t k") (auto simp: domIff)
    moreover obtain h' where "khash_run xs h = Some (fst (table_run xs t), h')" "kh_rep h' (pairs (snd (table_run xs t)))"
      using Cons.IH [OF Cons.prems(1,2)] Cons.prems(3) by auto
    ultimately show ?thesis using Get by (auto simp: case_prod_beta Let_def)
  qed
qed simp

text \<open>
  C39: the hash table is the table of \<open>Wm_Hash\<close>. Every program of fewer than \<open>2 ^ 30\<close> operations runs on an
  empty table of \<open>khash.h\<close> without an access outside of its arrays and without a search or a rehash
  that does not end, and gets the answers of the list of pairs that the rest of the development uses.
\<close>

theorem khash_table:
  assumes "length xs < 2 ^ 30"
  shows "\<exists>h. khash_run xs kh_init = Some (fst (table_run xs []), h)"
proof -
  have "kh_rep kh_init (pairs [])" by (simp add: kh_rep_def kh_fresh_def kh_init_def pairs_def)
  then show ?thesis using khash_run_ok [of kh_init "[]" xs] assms by auto
qed

theorem khash_table_witness:
  "\<exists>h. khash_run [Add 1 True, Add 5 False, Add 9 True, Del 1, Add 9 False, Add 13 True, Get 5, Get 1] kh_init =
     Some ([Done True, Done True, Done True, Done True, Done False, Done True, Found (Some False), Found None], h)"
  using khash_table [of "[Add 1 True, Add 5 False, Add 9 True, Del 1, Add 9 False, Add 13 True, Get 5, Get 1]"]
  by (simp add: WM_HASH_ADD_def WM_HASH_DEL_def WM_HASH_GET_def)

text \<open>
  When no memory is left, \<open>WM_HASH_ADD\<close> takes the failure (\<open>ret\<close> is \<open>-1\<close>) for success and writes the value
  behind the array.
\<close>

lemma add_without_memory: "hash_add 0 kh_init key v = None"
proof -
  have "kh_resize 0 kh_init 1 = Some (- 1, kh_init :: 'a khash)"
    using roundup_table(3) by (simp add: kh_resize_def kh_init_def ac_upper_def)
  then show ?thesis by (simp add: hash_add_def kh_put_def kh_init_def mem_set_def)
qed

end
