(* ===== verification/Wm_Close.thy ===== *)
theory Wm_Close
  imports Wm_Connection_Run Wm_Khash_Run
begin

text \<open>
  Closing all connections of a worker (\<open>wmConnection_closeConnections\<close> of \<open>src/worker/connection.c\<close>, which
  \<open>worker_stop\<close> calls): a loop over the buckets of the hash table that deletes from the table while it goes.
  The functions of the user and the coroutines that wait for a connection are, as in \<open>Wm_Connection\<close>, in the
  connection itself; they leave the other connections alone.
\<close>

section \<open>Operations\<close>

text \<open>The table, from descriptors to connections, and the connections by their addresses.\<close>

record conn_store =
  conn_tab :: "nat khash"
  conns :: "nat \<Rightarrow> wmConnection option"

text \<open>\<open>wmConnection_destroy\<close> with the table: a connection that is closed already is left alone.\<close>

definition destroy_at :: "nat \<Rightarrow> conn_store \<Rightarrow> conn_store option" where
  "destroy_at p s =
    (case conns s p of
       None \<Rightarrow> None
     | Some c \<Rightarrow>
         if conn_status c = CONN_CLOSED then Some s
         else
           Option.bind (wmConnection_destroy c) (\<lambda>(ret, c').
           map_option (\<lambda>(r, t). s\<lparr>conn_tab := t, conns := (conns s)(p \<mapsto> c')\<rparr>)
             (hash_del (conn_tab s) (hash_key (conn_fd c)))))"

partial_function (option) close_buckets :: "u32 \<Rightarrow> conn_store \<Rightarrow> conn_store option" where
  "close_buckets k s =
    (if k = n_buckets (conn_tab s) then Some s
     else
       Option.bind (ac_iseither (kh_flags (conn_tab s)) k) (\<lambda>e.
       if e then close_buckets (k + 1) s
       else
         Option.bind (Option.bind (mem_at (kh_vals (conn_tab s)) k) (\<lambda>v. v)) (\<lambda>p.
         Option.bind (kh_del (conn_tab s) k) (\<lambda>t.
         Option.bind (destroy_at p (s\<lparr>conn_tab := t\<rparr>)) (close_buckets (k + 1))))))"

definition wmConnection_closeConnections :: "conn_store \<Rightarrow> conn_store option" where
  "wmConnection_closeConnections s = close_buckets 0 s"

section \<open>The loop\<close>

text \<open>
  What the loop needs of the entries: each leads to a connection that is not closed, under the key of its
  descriptor, and closing it is defined.
\<close>

definition open_entry :: "conn_store \<Rightarrow> u32 \<times> nat option \<Rightarrow> bool" where
  "open_entry s e \<longleftrightarrow>
    (\<exists>p c. snd e = Some p \<and> conns s p = Some c \<and> fst e = hash_key (conn_fd c) \<and> conn_status c \<noteq> CONN_CLOSED \<and> wmConnection_destroy c \<noteq> None)"

text \<open>The connection at an address after it has been closed.\<close>

definition closed_at :: "conn_store \<Rightarrow> nat \<Rightarrow> wmConnection option" where
  "closed_at s p = map_option snd (Option.bind (conns s p) wmConnection_destroy)"

text \<open>One turn of the loop.\<close>

lemma close_skip:
  assumes "kh_inv b (conn_tab s)" "k < 2 ^ b" "\<not> (\<exists>kk v. slots_of (conn_tab s) k = Entry kk v)"
  shows "close_buckets (of_nat k) s = close_buckets (of_nat (Suc k)) s"
proof -
  note i = kh_invD [OF assms(1)]
  have "(of_nat k :: u32) \<noteq> n_buckets (conn_tab s)"
    using small_nat [OF i(2) assms(2)] pow_nat [OF i(2)] assms(2) i(4) by (metis less_irrefl)
  then show ?thesis
    using flags_of_slots(3) [OF assms(1,2)] assms(3) by (subst close_buckets.simps) (simp add: add.commute)
qed

lemma absent_del:
  assumes "kh_inv b h" "absent b (slots_of h) kk"
  shows "hash_del h kk = Some (- 1, h)"
  using kh_get_ok(2) [OF assms(1), of kk] assms(2) by (simp add: hash_del_def absent_def)

lemma close_turn:
  assumes inv: "kh_inv b (conn_tab s)" and k: "k < 2 ^ b" "slots_of (conn_tab s) k = Entry kk (Some p)"
    and c: "conns s p = Some c" "kk = hash_key (conn_fd c)" "conn_status c \<noteq> CONN_CLOSED" "wmConnection_destroy c = Some (r, c')"
  shows "\<exists>t. close_buckets (of_nat k) s = close_buckets (of_nat (Suc k)) (s\<lparr>conn_tab := t, conns := (conns s)(p \<mapsto> c')\<rparr>) \<and>
    kh_inv b t \<and> slots_of t = (slots_of (conn_tab s))(k := Deleted)"
proof -
  note i = kh_invD [OF inv]
  have u: "unat (of_nat k :: u32) = k" by (rule small_nat [OF i(2) k(1)])
  have ne: "(of_nat k :: u32) \<noteq> n_buckets (conn_tab s)" using u pow_nat [OF i(2)] k(1) i(4) by (metis less_irrefl)
  obtain t where t: "kh_del (conn_tab s) (of_nat k) = Some t" "kh_inv b t"
      "slots_of t = (slots_of (conn_tab s))(k := Deleted)"
    using kh_del_ok [OF inv k] by blast
  have "absent b (slots_of t) kk"
    using i(6) k by (auto simp: absent_def uniq_def t(3))
  then have d: "hash_del t (hash_key (conn_fd c)) = Some (- 1, t)" using absent_del [OF t(2)] c(2) by simp
  have "kh_vals (conn_tab s) ! k = Some p" using k(2) by (auto simp: slot_def split: if_splits)
  moreover have "k < length (kh_vals (conn_tab s))" using arrays_okD(3) [OF i(3)] k(1) by simp
  ultimately have "Option.bind (mem_at (kh_vals (conn_tab s)) (of_nat k)) (\<lambda>v. v) = Some p" by (simp add: mem_at_def u)
  moreover have "destroy_at p (s\<lparr>conn_tab := t\<rparr>) = Some (s\<lparr>conn_tab := t, conns := (conns s)(p \<mapsto> c')\<rparr>)"
    using c d by (simp add: destroy_at_def)
  ultimately have "close_buckets (of_nat k) s = close_buckets (of_nat (Suc k)) (s\<lparr>conn_tab := t, conns := (conns s)(p \<mapsto> c')\<rparr>)"
    using ne flags_of_slots(3) [OF inv k(1)] k(2) t(1) by (subst close_buckets.simps) (simp add: add.commute)
  then show ?thesis using t(2,3) by blast
qed

lemma cont_del:
  assumes u: "uniq b S" and k: "k < 2 ^ b" "S k = Entry kk v"
  shows "content b (S(k := Deleted)) = content b S - {(kk, v)}"
proof -
  have "i = k" if "i < 2 ^ b" "S i = Entry kk w" for i w
    using u that k unfolding uniq_def by blast
  have "(x, w) \<in> content b (S(k := Deleted)) \<longleftrightarrow> (x, w) \<in> content b S \<and> (x, w) \<noteq> (kk, v)" for x w
  proof
    assume "(x, w) \<in> content b (S(k := Deleted))"
    then obtain i where i: "i < 2 ^ b" "(S(k := Deleted)) i = Entry x w" unfolding cont_def by blast
    have "i \<noteq> k" using i(2) by (cases "i = k") simp_all
    then have "S i = Entry x w" "x \<noteq> kk" using i \<open>\<And>i w. i < 2 ^ b \<Longrightarrow> S i = Entry kk w \<Longrightarrow> i = k\<close> by auto
    then show "(x, w) \<in> content b S \<and> (x, w) \<noteq> (kk, v)" using i(1) unfolding cont_def by blast
  next
    assume a: "(x, w) \<in> content b S \<and> (x, w) \<noteq> (kk, v)"
    then obtain i where i: "i < 2 ^ b" "S i = Entry x w" unfolding cont_def by blast
    have "i \<noteq> k" using i(2) a k(2) by auto
    then have "(S(k := Deleted)) i = Entry x w" using i(2) by simp
    then show "(x, w) \<in> content b (S(k := Deleted))" using i(1) unfolding cont_def by blast
  qed
  then show ?thesis by (intro set_eqI) (metis DiffI DiffD1 DiffD2 singletonD singletonI surj_pair)
qed

lemma snd_mem: "q \<in> {p. Some p \<in> snd ` C} \<longleftrightarrow> (\<exists>x. (x, Some q) \<in> C)"
  by force

text \<open>The addresses that are still in the table.\<close>

abbreviation led_to :: "nat \<Rightarrow> conn_store \<Rightarrow> nat set" where
  "led_to b s \<equiv> {p. Some p \<in> snd ` content b (slots_of (conn_tab s))}"

lemma close_buckets_ok:
  assumes "kh_inv b (conn_tab s)" "k \<le> 2 ^ b" "\<forall>i < k. \<forall>kk v. slots_of (conn_tab s) i \<noteq> Entry kk v"
    "\<forall>e \<in> content b (slots_of (conn_tab s)). open_entry s e"
  shows "\<exists>s'. close_buckets (of_nat k) s = Some s' \<and> kh_inv b (conn_tab s') \<and> content b (slots_of (conn_tab s')) = {} \<and>
    (\<forall>p. conns s' p = (if p \<in> led_to b s then closed_at s p else conns s p))"
  using assms
proof (induction "2 ^ b - k" arbitrary: k s)
  case 0
  have k: "k = 2 ^ b" using 0 by simp
  note i = kh_invD [OF "0.prems"(1)]
  have "(of_nat k :: u32) = n_buckets (conn_tab s)" using k i(4) by simp
  then have "close_buckets (of_nat k) s = Some s" by (simp add: close_buckets.simps)
  moreover have "content b (slots_of (conn_tab s)) = {}" using "0.prems"(3) k by (auto simp: cont_def)
  ultimately show ?case using "0.prems"(1) by simp
next
  case (Suc n)
  have k: "k < 2 ^ b" using Suc.hyps(2) by simp
  show ?case
  proof (cases "\<exists>kk v. slots_of (conn_tab s) k = Entry kk v")
    case False
    have "\<forall>i < Suc k. \<forall>kk v. slots_of (conn_tab s) i \<noteq> Entry kk v"
      using Suc.prems(3) False by (auto simp: less_Suc_eq)
    then show ?thesis
      using Suc.hyps(1) [of "Suc k" s] Suc.hyps(2) Suc.prems k close_skip [OF Suc.prems(1) k False] by simp
  next
    case True
    then obtain kk v where sl: "slots_of (conn_tab s) k = Entry kk v" by blast
    have mem: "(kk, v) \<in> content b (slots_of (conn_tab s))" using sl k by (auto simp: cont_def)
    then have "open_entry s (kk, v)" using Suc.prems(4) by blast
    then obtain p c r c' where c: "v = Some p" "conns s p = Some c" "kk = hash_key (conn_fd c)" "conn_status c \<noteq> CONN_CLOSED"
        "wmConnection_destroy c = Some (r, c')" by (auto simp: open_entry_def)
    obtain t where t: "close_buckets (of_nat k) s = close_buckets (of_nat (Suc k)) (s\<lparr>conn_tab := t, conns := (conns s)(p \<mapsto> c')\<rparr>)"
        "kh_inv b t" "slots_of t = (slots_of (conn_tab s))(k := Deleted)"
      using close_turn [OF Suc.prems(1) k sl [unfolded c(1)] c(2-5)] by blast
    define s1 where "s1 = s\<lparr>conn_tab := t, conns := (conns s)(p \<mapsto> c')\<rparr>"
    have s1: "conn_tab s1 = t" "conns s1 = (conns s)(p \<mapsto> c')" by (simp_all add: s1_def)
    have ct: "content b (slots_of t) = content b (slots_of (conn_tab s)) - {(kk, v)}"
      unfolding t(3) by (rule cont_del [OF kh_invD(6) [OF Suc.prems(1)] k sl])
    have other: "q \<noteq> p" if "(x, Some q) \<in> content b (slots_of t)" for x q
    proof
      assume q: "q = p"
      have m: "(x, Some q) \<in> content b (slots_of (conn_tab s))" "(x, Some q) \<noteq> (kk, v)" using that ct by auto
      have "open_entry s (x, Some q)" using m(1) Suc.prems(4) by blast
      then have "x = kk" using q c(2,3) by (auto simp: open_entry_def)
      then show False using m(2) q c(1) by simp
    qed
    have "open_entry s1 e" if e: "e \<in> content b (slots_of t)" for e
    proof -
      have "open_entry s e" using e ct Suc.prems(4) by blast
      moreover have "snd e \<noteq> Some p" using other [of "fst e" p] e by (metis prod.collapse)
      ultimately show ?thesis by (auto simp: open_entry_def s1(2))
    qed
    moreover have "\<forall>i < Suc k. \<forall>kk v. slots_of (conn_tab s1) i \<noteq> Entry kk v"
      using Suc.prems(3) by (auto simp: s1(1) t(3) less_Suc_eq)
    ultimately have "\<exists>s'. close_buckets (of_nat (Suc k)) s1 = Some s' \<and> kh_inv b (conn_tab s') \<and> content b (slots_of (conn_tab s')) = {} \<and>
        (\<forall>q. conns s' q = (if q \<in> led_to b s1 then closed_at s1 q else conns s1 q))"
      using Suc.hyps(2) k t(2) by (intro Suc.hyps(1)) (simp_all only: s1(1), simp_all)
    then obtain s' where s': "close_buckets (of_nat (Suc k)) s1 = Some s'" "kh_inv b (conn_tab s')"
        "content b (slots_of (conn_tab s')) = {}"
        "\<forall>q. conns s' q = (if q \<in> led_to b s1 then closed_at s1 q else conns s1 q)"
      by (elim exE conjE)
    have pin: "p \<in> led_to b s" using mem c(1) unfolding snd_mem by blast
    have led: "q \<in> led_to b s1 \<longleftrightarrow> q \<in> led_to b s \<and> q \<noteq> p" for q
    proof -
      have "(\<exists>x. (x, Some q) \<in> content b (slots_of t)) \<longleftrightarrow> (\<exists>x. (x, Some q) \<in> content b (slots_of (conn_tab s))) \<and> q \<noteq> p"
      proof (intro iffI conjI)
        assume "\<exists>x. (x, Some q) \<in> content b (slots_of t)"
        then obtain x where x: "(x, Some q) \<in> content b (slots_of t)" by (elim exE)
        then show "q \<noteq> p" by (rule other)
        have "(x, Some q) \<in> content b (slots_of (conn_tab s))" using x unfolding ct by (rule DiffD1)
        then show "\<exists>x. (x, Some q) \<in> content b (slots_of (conn_tab s))" by (rule exI)
      next
        assume "(\<exists>x. (x, Some q) \<in> content b (slots_of (conn_tab s))) \<and> q \<noteq> p"
        then obtain x where x: "(x, Some q) \<in> content b (slots_of (conn_tab s))" "q \<noteq> p" by (elim conjE exE)
        have "(x, Some q) \<noteq> (kk, v)" using x(2) c(1) by simp
        then have "(x, Some q) \<in> content b (slots_of t)" using x(1) unfolding ct by simp
        then show "\<exists>x. (x, Some q) \<in> content b (slots_of t)" by (rule exI)
      qed
      then show ?thesis unfolding s1(1) snd_mem .
    qed
    have "conns s' q = (if q \<in> led_to b s then closed_at s q else conns s q)" for q
    proof (cases "q = p")
      case True
      then show ?thesis using s'(4) led pin c(2,5) s1(2) by (simp add: closed_at_def)
    next
      case False
      then show ?thesis using s'(4) led s1(2) by (simp add: closed_at_def)
    qed
    then show ?thesis using t(1) s'(1-3) s1_def by simp
  qed
qed

lemma closed_status:
  assumes "conns s p = Some c" "wmConnection_destroy c \<noteq> None"
  shows "\<exists>c'. closed_at s p = Some c' \<and> conn_status c' = CONN_CLOSED"
  using assms by (auto simp: closed_at_def wmConnection_destroy_def Let_def happen_def split: if_splits bind_split_asm)

text \<open>
  C40: closing all connections. Although the loop deletes from the table it goes through, and every connection
  deletes its own entry once more, the loop ends after the last bucket, every access is defined, every
  connection of the table is closed, once each, the others are left alone, and the table is empty.
\<close>

theorem close_connections:
  assumes "kh_rep (conn_tab s) C" "\<forall>e \<in> C. open_entry s e"
  shows "\<exists>s'. wmConnection_closeConnections s = Some s' \<and> kh_rep (conn_tab s') {} \<and>
    (\<forall>p. if \<exists>kk. (kk, Some p) \<in> C then conns s' p = closed_at s p \<and> (\<exists>c. conns s' p = Some c \<and> conn_status c = CONN_CLOSED)
         else conns s' p = conns s p)"
proof (cases "kh_fresh (conn_tab s) \<and> C = {}")
  case True
  then have "wmConnection_closeConnections s = Some s"
    by (simp add: wmConnection_closeConnections_def kh_fresh_def close_buckets.simps)
  then show ?thesis using True by (simp add: kh_rep_def)
next
  case False
  then obtain b where b: "kh_inv b (conn_tab s)" "C = content b (slots_of (conn_tab s))"
    using assms(1) unfolding kh_rep_def by blast
  obtain s' where s': "close_buckets (of_nat 0) s = Some s'" "kh_inv b (conn_tab s')" "content b (slots_of (conn_tab s')) = {}"
      "\<forall>p. conns s' p = (if p \<in> led_to b s then closed_at s p else conns s p)"
    using close_buckets_ok [OF b(1), of 0] assms(2) unfolding b(2) by auto
  have led: "p \<in> led_to b s \<longleftrightarrow> (\<exists>kk. (kk, Some p) \<in> C)" for p unfolding snd_mem b(2) ..
  have "\<exists>c. closed_at s p = Some c \<and> conn_status c = CONN_CLOSED" if e: "(kk, Some p) \<in> C" for kk p
  proof -
    have "open_entry s (kk, Some p)" using e assms(2) by blast
    then obtain c where "conns s p = Some c" "wmConnection_destroy c \<noteq> None" by (auto simp: open_entry_def)
    then show ?thesis by (rule closed_status)
  qed
  moreover have "kh_rep (conn_tab s') {}" using s'(2,3) unfolding kh_rep_def by metis
  ultimately show ?thesis using s'(1,4) led unfolding wmConnection_closeConnections_def by auto
qed

theorem close_connections_witness:
  "\<exists>s s'. conns s 1 = Some (open_conn [Ret 0, Ret 0]) \<and> kh_rep (conn_tab s) {(hash_key 7, Some 1)} \<and>
     wmConnection_closeConnections s = Some s' \<and> kh_rep (conn_tab s') {} \<and> (\<exists>c. conns s' 1 = Some c \<and> conn_status c = CONN_CLOSED)"
proof -
  let ?c = "open_conn [Ret 0, Ret 0]"
  have "kh_rep (kh_init :: nat khash) {}" by (simp add: kh_rep_def kh_fresh_def kh_init_def)
  then obtain h where h: "kh_rep h {(hash_key 7, Some (1 :: nat))}"
    using hash_add_ok [of "kh_init :: nat khash" "{}" 3 "hash_key 7" 1] by auto
  define s where "s = \<lparr>conn_tab = h, conns = [1 \<mapsto> ?c]\<rparr>"
  have c: "conn_fd ?c = 7" "conn_status ?c \<noteq> CONN_CLOSED" "wmConnection_destroy ?c \<noteq> None"
    by (simp_all add: open_conn_def wmConnection_create_def next_first WM_HASH_ADD_def WM_HASH_DEL_def idle_net_def wait_net_def
        wait_socket_def wmConnection_destroy_def Let_def wmSocket_close_def wmWorkerLoop_del_def sys_def upd_sk_def)
  have "open_entry s (hash_key 7, Some 1)" using c by (simp add: open_entry_def s_def)
  then have "\<exists>s'. wmConnection_closeConnections s = Some s' \<and> kh_rep (conn_tab s') {} \<and>
      (\<forall>p. if \<exists>kk. (kk, Some p) \<in> {(hash_key 7, Some 1)} then conns s' p = closed_at s p \<and> (\<exists>c. conns s' p = Some c \<and> conn_status c = CONN_CLOSED)
           else conns s' p = conns s p)"
    using h by (intro close_connections) (simp_all add: s_def)
  then obtain s' where s': "wmConnection_closeConnections s = Some s'" "kh_rep (conn_tab s') {}"
      "\<forall>p. if \<exists>kk. (kk, Some p) \<in> {(hash_key 7, Some 1)} then conns s' p = closed_at s p \<and> (\<exists>c. conns s' p = Some c \<and> conn_status c = CONN_CLOSED)
           else conns s' p = conns s p" by (elim exE conjE)
  have "\<exists>c. conns s' 1 = Some c \<and> conn_status c = CONN_CLOSED" using spec [OF s'(3), of 1] by (simp del: One_nat_def) metis
  note s' = s'(1,2) this
  show ?thesis using s' h by (intro exI [of _ s] exI [of _ s']) (simp add: s_def)
qed

end
