(* ===== verification/Wm_Log.thy ===== *)
theory Wm_Log
  imports Wm_Helper
begin

text \<open>
  Messages (\<open>src/core/log.c\<close>, the macros of \<open>include/log.h\<close>), and the small functions of \<open>include/helper.h\<close> and
  \<open>src/core/wm_string.c\<close> around them: printing into a buffer, the clock, random numbers and strings. The texts are
  lists of bytes without a zero byte; a buffer is a list of bytes that may not be initialised; \<open>None\<close> is an access
  outside of a buffer or to an uninitialised byte. The clock, \<open>rand\<close> and \<open>strerror\<close> answer from outside.
\<close>

abbreviation ascii :: "string \<Rightarrow> u8 list" where
  "ascii s \<equiv> map of_char s"

section \<open>Printing into a buffer\<close>

text \<open>\<open>snprintf\<close> of libc for a buffer that is not empty: the length of the whole text, and the text cut to the buffer.\<close>

definition c_snprintf :: "u8 option list \<Rightarrow> u8 list \<Rightarrow> nat \<times> u8 option list" where
  "c_snprintf buf out =
    (let t = take (length buf - 1) out in (length out, map Some t @ Some 0 # drop (Suc (length t)) buf))"

text \<open>\<open>wm_snprintf\<close>: the length of what is in the buffer; no text stands for an error of \<open>vsnprintf\<close>.\<close>

definition wm_snprintf :: "u8 option list \<Rightarrow> u8 list option \<Rightarrow> (nat \<times> u8 option list) option" where
  "wm_snprintf buf out =
    (if buf = [] then None
     else
       case out of
         None \<Rightarrow> Some (0, buf[0 := Some 0])
       | Some out \<Rightarrow>
           let (retval, buf) = c_snprintf buf out in
           if length buf \<le> retval then Some (length buf - 1, buf[length buf - 1 := Some 0]) else Some (retval, buf))"

text \<open>The string in a buffer: the bytes before the first zero.\<close>

fun c_string :: "u8 option list \<Rightarrow> u8 list option" where
  "c_string [] = None"
| "c_string (None # bs) = None"
| "c_string (Some b # bs) = (if b = 0 then Some [] else map_option (Cons b) (c_string bs))"

section \<open>The clock\<close>

record tm =
  tm_year :: int
  tm_mon :: int
  tm_mday :: int
  tm_hour :: int
  tm_min :: int
  tm_sec :: int

text \<open>\<open>%02d\<close>.\<close>

definition two_digits :: "int \<Rightarrow> u8 list" where
  "two_digits n = (let s = dec_int n in if length s < 2 then 48 # s else s)"

definition date_text :: "tm \<Rightarrow> u8 list" where
  "date_text p =
    dec_int (tm_year p + 1900) @ ascii ''-'' @ two_digits (tm_mon p + 1) @ ascii ''-'' @ two_digits (tm_mday p) @ ascii '' '' @
    two_digits (tm_hour p) @ ascii '':'' @ two_digits (tm_min p) @ ascii '':'' @ two_digits (tm_sec p)"

text \<open>\<open>wm_get_date\<close>: what is in the buffer is unspecified when the text does not fit.\<close>

definition wm_get_date :: "nat \<Rightarrow> tm \<Rightarrow> u8 list option" where
  "wm_get_date date_len p = (if length (date_text p) < date_len then Some (date_text p) else None)"

text \<open>\<open>wmGetTime\<close>, \<open>wmGetMilliTime\<close>, \<open>wmGetMicroTime\<close> on what \<open>gettimeofday\<close> answers.\<close>

definition wmGetTime :: "int \<times> int \<Rightarrow> int \<times> int" where
  "wmGetTime tv = (fst tv, snd tv)"

definition wmGetMilliTime :: "int \<times> int \<Rightarrow> int" where
  "wmGetMilliTime tv = fst tv * 1000 + snd tv div 1000"

definition wmGetMicroTime :: "int \<times> int \<Rightarrow> int" where
  "wmGetMicroTime tv = snd tv"

section \<open>Messages\<close>

datatype log_level = WM_LOG_DEBUG | WM_LOG_TRACE | WM_LOG_INFO | WM_LOG_NOTICE | WM_LOG_WARNING | WM_LOG_ERROR

definition WM_LOG_BUFFER_SIZE :: nat where "WM_LOG_BUFFER_SIZE = 1024"
definition WM_LOG_DATE_WMRLEN :: nat where "WM_LOG_DATE_WMRLEN = 64"
definition WM_ERROR_MSG_SIZE :: nat where "WM_ERROR_MSG_SIZE = 512"

fun level_text :: "log_level \<Rightarrow> u8 list" where
  "level_text WM_LOG_DEBUG = ascii ''DEBUG''"
| "level_text WM_LOG_NOTICE = ascii ''NOTICE''"
| "level_text WM_LOG_ERROR = ascii ''ERROR''"
| "level_text WM_LOG_WARNING = ascii ''WARNING''"
| "level_text WM_LOG_TRACE = ascii ''TRACE''"
| "level_text WM_LOG_INFO = ascii ''INFO''"

definition log_text :: "u8 list \<Rightarrow> log_level \<Rightarrow> u8 list \<Rightarrow> u8 list" where
  "log_text date level cnt = ascii ''['' @ date @ ascii '']'' @ [9] @ level_text level @ [9] @ cnt @ [10]"

text \<open>
  \<open>wmLog_put\<close>: the bytes it hands to \<open>write\<close>, as many as \<open>snprintf\<close> says the text has, from a buffer on the
  stack.
\<close>

definition wmLog_put :: "log_level \<Rightarrow> u8 list \<Rightarrow> tm \<Rightarrow> u8 list option" where
  "wmLog_put level cnt p =
    Option.bind (c_string (snd (c_snprintf (replicate WM_LOG_DATE_WMRLEN None) (date_text p)))) (\<lambda>date.
    let (n, log) = c_snprintf (replicate WM_LOG_BUFFER_SIZE None) (log_text date level cnt) in
    if length log < n then None else those (take n log))"

text \<open>
  The macros: the message with its function, file and line goes into a buffer, which is cut, and from there to
  \<open>wmLog_put\<close>. \<open>wmWarn\<close> uses the buffer of the errors.
\<close>

definition message_text :: "u8 list \<Rightarrow> u8 list \<Rightarrow> u8 list \<Rightarrow> int \<Rightarrow> u8 list" where
  "message_text func msg file line = func @ ascii '': '' @ msg @ ascii '' in '' @ file @ ascii '' on line '' @ dec_int line @ ascii ''.''"

definition put_message :: "log_level \<Rightarrow> u8 list \<Rightarrow> tm \<Rightarrow> u8 option list \<Rightarrow> (u8 list \<times> u8 option list) option" where
  "put_message level text p buf =
    (let buf = snd (c_snprintf buf text) in
     Option.bind (c_string buf) (\<lambda>cnt. map_option (\<lambda>out. (out, buf)) (wmLog_put level cnt p)))"

definition wmWarn :: "u8 list \<Rightarrow> u8 list \<Rightarrow> u8 list \<Rightarrow> int \<Rightarrow> tm \<Rightarrow> u8 option list \<Rightarrow> (u8 list \<times> u8 option list) option" where
  "wmWarn func msg file line p wm_error = put_message WM_LOG_WARNING (message_text func msg file line) p wm_error"

definition wmDebug :: "u8 list \<Rightarrow> u8 list \<Rightarrow> u8 list \<Rightarrow> int \<Rightarrow> tm \<Rightarrow> u8 option list \<Rightarrow> (u8 list \<times> u8 option list) option" where
  "wmDebug func msg file line p wm_debug = put_message WM_LOG_DEBUG (message_text func msg file line) p wm_debug"

definition wmTrace :: "u8 list \<Rightarrow> u8 list \<Rightarrow> u8 list \<Rightarrow> int \<Rightarrow> tm \<Rightarrow> u8 option list \<Rightarrow> (u8 list \<times> u8 option list) option" where
  "wmTrace func msg file line p wm_trace = put_message WM_LOG_TRACE (message_text func msg file line) p wm_trace"

text \<open>\<open>wmError\<close>: the message is all there is to see of the process, which exits.\<close>

definition wmError :: "u8 list \<Rightarrow> u8 list \<Rightarrow> u8 list \<Rightarrow> int \<Rightarrow> tm \<Rightarrow> u8 option list \<Rightarrow> u8 list option" where
  "wmError func msg file line p wm_error = map_option fst (put_message WM_LOG_ERROR (message_text func msg file line) p wm_error)"

text \<open>\<open>wmCode_str\<close>: a text that stays, or the buffer of the errors with what is in it then.\<close>

datatype code_text = Fixed "u8 list" | In_wm_error

definition code_table :: "(int \<times> u8 list) list" where
  "code_table =
    [(1001, ascii ''Session closed by worker''), (1002, ascii ''Session closed by client''), (1003, ascii ''Session has closed''),
     (1004, ascii ''send buffer full and drop package''), (1006, ascii ''read buffer error''), (1007, ascii ''loop error''),
     (1005, ascii ''send buffer full''), (1008, ascii ''protocol fail'')]"

definition wmCode_str :: "(int \<Rightarrow> u8 list) \<Rightarrow> int \<Rightarrow> u8 option list \<Rightarrow> code_text \<times> u8 option list" where
  "wmCode_str strerror code wm_error =
    (if code < 1000 then (Fixed (strerror code), wm_error)
     else
       case map_of code_table code of
         Some t \<Rightarrow> (Fixed t, wm_error)
       | None \<Rightarrow> (In_wm_error, snd (c_snprintf wm_error (ascii ''Unknown error: '' @ dec_int code))))"

section \<open>Random numbers\<close>

text \<open>
  \<open>wm_rand\<close>: the state is \<open>_seed\<close> and the answers \<open>rand\<close> is going to give, \<open>rands_of\<close> those after \<open>srand\<close>.
  The quotient by \<open>RAND_MAX + 1\<close>, a power of two, is exact in \<open>double\<close>, and so is the product for up to
  \<open>2 ^ 22\<close> numbers; the caller has 62.
\<close>

record rng =
  rng_seed :: int
  rands :: "int list"

definition RAND_MAX :: int where "RAND_MAX = 2147483647"

definition wm_rand :: "(int \<Rightarrow> int list) \<Rightarrow> int \<Rightarrow> int \<Rightarrow> int \<Rightarrow> rng \<Rightarrow> (int \<times> rng) option" where
  "wm_rand rands_of now mn mx g =
    (if mx \<le> mn then None
     else
       let g = (if rng_seed g = 0 then g\<lparr>rng_seed := now, rands := rands_of now\<rparr> else g) in
       case rands g of
         [] \<Rightarrow> None
       | r # rs \<Rightarrow> Some (mn + (mx - mn + 1) * r div (RAND_MAX + 1), g\<lparr>rands := rs\<rparr>))"

definition characters :: "u8 list" where
  "characters = ascii ''ABCDEFGHIJKLMNOPQRSTUVWXYZabcdefghijklmnopqrstuvwxyz0123456789''"

text \<open>\<open>wmString_random_string\<close>: \<open>n\<close> characters are still to come, at index \<open>i\<close>; then the zero byte.\<close>

fun random_chars :: "(int \<Rightarrow> int list) \<Rightarrow> int \<Rightarrow> nat \<Rightarrow> nat \<Rightarrow> u8 option list \<Rightarrow> rng \<Rightarrow> (u8 option list \<times> rng) option" where
  "random_chars ro now 0 i buf g = (if i < length buf then Some (buf[i := Some 0], g) else None)"
| "random_chars ro now (Suc n) i buf g =
    Option.bind (wm_rand ro now 0 (int (length characters) - 1) g) (\<lambda>(k, g).
    if k < 0 \<or> int (length characters) \<le> k \<or> length buf \<le> i then None
    else random_chars ro now n (Suc i) (buf[i := Some (characters ! nat k)]) g)"

definition wmString_random_string :: "(int \<Rightarrow> int list) \<Rightarrow> int \<Rightarrow> u8 option list \<Rightarrow> nat \<Rightarrow> rng \<Rightarrow> (u8 option list \<times> rng) option" where
  "wmString_random_string ro now buf n g = random_chars ro now n 0 buf g"

section \<open>What is shown\<close>

lemma c_string_print:
  assumes "0 \<notin> set t"
  shows "c_string (map Some t @ Some 0 # rest) = Some t"
  using assms by (induction t) auto

lemma printed:
  assumes "0 \<notin> set out" "buf \<noteq> []"
  shows "c_string (snd (c_snprintf buf out)) = Some (take (length buf - 1) out)" "length (snd (c_snprintf buf out)) = length buf"
    "fst (c_snprintf buf out) = length out"
proof -
  have "0 \<notin> set (take (length buf - 1) out)" using assms(1) by (meson in_set_takeD)
  then show "c_string (snd (c_snprintf buf out)) = Some (take (length buf - 1) out)"
    by (simp add: c_snprintf_def Let_def c_string_print del: take_eq_Nil)
  show "length (snd (c_snprintf buf out)) = length buf" "fst (c_snprintf buf out) = length out"
    using assms(2) by (cases buf; auto simp: c_snprintf_def Let_def min_def)+
qed

lemma those_Some [simp]: "those (map Some xs) = Some xs"
  by (induction xs) simp_all

lemma take_printed: "length out < length buf \<Longrightarrow> those (take (length out) (snd (c_snprintf buf out))) = Some out"
  by (simp add: c_snprintf_def Let_def)

text \<open>\<open>wm_snprintf\<close> answers with the length of the string that is in the buffer then.\<close>

lemma wm_snprintf_ok:
  assumes "0 \<notin> set out" "buf \<noteq> []"
  shows "\<exists>b. wm_snprintf buf (Some out) = Some (min (length out) (length buf - 1), b) \<and> length b = length buf \<and>
    c_string b = Some (take (length buf - 1) out)"
proof -
  obtain n b where nb: "c_snprintf buf out = (n, b)" by fastforce
  have b: "c_string b = Some (take (length buf - 1) out)" "length b = length buf" "n = length out"
    using printed [OF assms] nb by auto
  have "length buf \<le> length out \<Longrightarrow> b[length buf - 1 := Some 0] = b"
    using nb assms(2) by (auto simp: c_snprintf_def Let_def list_update_append)
  then have "length buf \<le> length out \<Longrightarrow> wm_snprintf buf (Some out) = Some (length buf - 1, b)"
    using nb b assms(2) by (simp add: wm_snprintf_def)
  moreover have "length out < length buf \<Longrightarrow> wm_snprintf buf (Some out) = Some (length out, b)"
    using nb b assms(2) by (simp add: wm_snprintf_def)
  moreover have "min (length out) (length buf - 1) = (if length buf \<le> length out then length buf - 1 else length out)"
    using assms(2) by (cases buf) auto
  ultimately show ?thesis using b(1,2) by (cases "length buf \<le> length out") (simp_all del: One_nat_def)
qed

lemma dec_nat_bytes: "0 \<notin> set (dec_nat n)"
proof (induction n rule: dec_nat.induct)
  case (1 n)
  have d: "(of_nat (48 + k) :: u8) \<noteq> 0" if "k < 10" for k
  proof
    assume "(of_nat (48 + k) :: u8) = 0"
    then have "(256 :: nat) dvd 48 + k" using word_of_nat_eq_0_iff [where 'a = 8, of "48 + k"] by simp
    then have "256 \<le> 48 + k" by (rule dvd_imp_le) simp
    then show False using that by simp
  qed
  show ?case
  proof (cases "n < 10")
    case True
    then have "dec_nat n = [of_nat (48 + n)]" by (subst dec_nat.simps) simp
    then show ?thesis using d [OF True] by (auto dest: sym)
  next
    case False
    then have "dec_nat n = dec_nat (n div 10) @ [of_nat (48 + n mod 10)]" by (subst dec_nat.simps) simp
    moreover have "n mod 10 < 10" by simp
    ultimately show ?thesis using 1 [OF False] d [of "n mod 10"] by (auto dest: sym)
  qed
qed

lemma text_bytes: "0 \<notin> set (dec_int i)" "0 \<notin> set (two_digits i)" "0 \<notin> set (date_text p)" "0 \<notin> set (level_text l)"
proof -
  show d: "0 \<notin> set (dec_int i)" for i using dec_nat_bytes by (simp add: dec_int_def)
  then show t: "0 \<notin> set (two_digits i)" for i by (simp add: two_digits_def Let_def)
  show "0 \<notin> set (date_text p)" using d t by (simp add: date_text_def)
  show "0 \<notin> set (level_text l)" by (cases l) simp_all
qed

lemma level_len: "length (level_text l) \<le> 7"
  by (cases l) simp_all

lemma log_text_bytes: "0 \<notin> set date \<Longrightarrow> 0 \<notin> set cnt \<Longrightarrow> 0 \<notin> set (log_text date l cnt)"
  using text_bytes(4) by (simp add: log_text_def)

text \<open>Exactly the lines of fewer than 1024 bytes are written whole; a longer one is read from behind the buffer.\<close>

lemma wmLog_put_exact:
  fixes level :: log_level and p :: tm
  assumes "0 \<notin> set cnt"
  defines "line \<equiv> log_text (take 63 (date_text p)) level cnt"
  shows "wmLog_put level cnt p =
    (if length line < 1024 then Some line else if length line = 1024 then Some (take 1023 line @ [0]) else None)"
proof -
  have date: "c_string (snd (c_snprintf (replicate WM_LOG_DATE_WMRLEN None) (date_text p))) = Some (take 63 (date_text p))"
    using printed(1) [OF text_bytes(3), of "replicate WM_LOG_DATE_WMRLEN None" p] by (simp add: WM_LOG_DATE_WMRLEN_def)
  define b where "b = snd (c_snprintf (replicate WM_LOG_BUFFER_SIZE None) line)"
  have c: "c_snprintf (replicate WM_LOG_BUFFER_SIZE None) line = (length line, b)" "length b = 1024"
    by (simp_all add: b_def c_snprintf_def Let_def WM_LOG_BUFFER_SIZE_def)
  have w: "wmLog_put level cnt p = (if length b < length line then None else those (take (length line) b))"
    using date c(1) by (simp add: wmLog_put_def line_def)
  have "length line < 1024 \<Longrightarrow> those (take (length line) b) = Some line"
    using take_printed [of line "replicate WM_LOG_BUFFER_SIZE None"] by (simp add: b_def WM_LOG_BUFFER_SIZE_def)
  moreover have "length line = 1024 \<Longrightarrow> those (take (length line) b) = Some (take 1023 line @ [0])"
  proof -
    assume l: "length line = 1024"
    then have "b = map Some (take 1023 line @ [0])"
      by (simp add: b_def c_snprintf_def Let_def WM_LOG_BUFFER_SIZE_def min_def)
    then show ?thesis using l by (simp only: take_all length_map length_append length_take those_Some) (simp add: those_Some [of "take 1023 line @ [0]", simplified])
  qed
  ultimately show ?thesis using w c(2) by simp
qed

text \<open>
  Messages. Whatever the function, the text and the file of a warning are, the line that is
  printed is complete: the date, the level, the message cut to the 511 bytes of its buffer, and the end of
  the line; nothing is read from behind the buffers, which every line of a macro fits into.
\<close>

theorem log_line:
  assumes "0 \<notin> set func" "0 \<notin> set msg" "0 \<notin> set file" "length buf = WM_ERROR_MSG_SIZE"
  shows "\<exists>b. wmWarn func msg file line p buf =
      Some (log_text (take 63 (date_text p)) WM_LOG_WARNING (take 511 (message_text func msg file line)), b) \<and>
    length b = WM_ERROR_MSG_SIZE \<and> c_string b = Some (take 511 (message_text func msg file line))"
proof -
  let ?t = "message_text func msg file line"
  have t: "0 \<notin> set ?t" using assms(1-3) text_bytes(1) by (simp add: message_text_def)
  have n: "buf \<noteq> []" using assms(4) by (auto simp: WM_ERROR_MSG_SIZE_def)
  define b where "b = snd (c_snprintf buf ?t)"
  have b: "c_string b = Some (take 511 ?t)" "length b = WM_ERROR_MSG_SIZE"
    using printed(1,2) [OF t n] assms(4) by (simp_all add: b_def WM_ERROR_MSG_SIZE_def)
  have "0 \<notin> set (take 511 ?t)" using t by (meson in_set_takeD)
  moreover have "length (log_text (take 63 (date_text p)) WM_LOG_WARNING (take 511 ?t)) < 1024"
    by (simp add: log_text_def min_def)
  ultimately have "wmLog_put WM_LOG_WARNING (take 511 ?t) p = Some (log_text (take 63 (date_text p)) WM_LOG_WARNING (take 511 ?t))"
    by (simp add: wmLog_put_exact)
  then show ?thesis using b by (simp add: wmWarn_def put_message_def b_def [symmetric])
qed

text \<open>The codes of the extension have texts that stay.\<close>

lemma known_codes: "code \<in> {1001..1008} \<Longrightarrow> \<exists>t. wmCode_str strerror code b = (Fixed t, b)"
proof -
  assume "code \<in> {1001..1008}"
  then have "code \<in> {1001, 1002, 1003, 1004, 1005, 1006, 1007, 1008}" by auto
  then show ?thesis by (auto simp: wmCode_str_def code_table_def)
qed

text \<open>Random numbers are within their bounds, and every number is reached.\<close>

lemma wm_rand_bounds:
  assumes "wm_rand ro now mn mx g = Some (k, g')" "\<forall>r \<in> set (rands g) \<union> set (ro now). 0 \<le> r \<and> r \<le> RAND_MAX"
  shows "mn \<le> k \<and> k \<le> mx"
proof -
  obtain r where r: "0 \<le> r" "r \<le> RAND_MAX" "k = mn + (mx - mn + 1) * r div (RAND_MAX + 1)" "mn < mx"
    using assms by (auto simp: wm_rand_def Let_def split: if_splits list.splits)
  have "(mx - mn + 1) * r < (mx - mn + 1) * (RAND_MAX + 1)" using r by (intro mult_strict_left_mono) auto
  then have "(mx - mn + 1) * r div (RAND_MAX + 1) < mx - mn + 1"
    by (simp add: RAND_MAX_def div_less_iff_less_mult)
  moreover have "0 \<le> (mx - mn + 1) * r div (RAND_MAX + 1)" using r by (intro pos_imp_zdiv_nonneg_iff [THEN iffD2]) (auto simp: RAND_MAX_def)
  ultimately show ?thesis using r(3) by linarith
qed

text \<open>
  A string of \<open>n\<close> random characters needs \<open>n + 1\<close> bytes: a buffer of \<open>n\<close> bytes, the size it is told, is written
  beyond its end.
\<close>

lemma random_string_room: "length buf \<le> n \<Longrightarrow> wmString_random_string ro now buf n g = None"
proof -
  have "length b \<le> i + m \<Longrightarrow> random_chars ro now m i b h = None" for m i b h
    by (induction m arbitrary: i b h) (auto split: bind_splits)
  then show "length buf \<le> n \<Longrightarrow> ?thesis" unfolding wmString_random_string_def by simp
qed

end
