(* ===== verification/Wm_Array.thy ===== *)
theory Wm_Array
  imports Wm_Prelude "HOL-Library.Signed_Division"
begin

text \<open>
  The paged array of \<open>src/core/array.c\<close>: up to 1024 pages of \<open>page_size\<close> items, allocated one by
  one, and a running offset. \<open>can\<close> says whether the allocator serves a page, \<open>z\<close> is the item of a
  page fresh from \<open>calloc\<close>. \<open>None\<close> is undefined behaviour: a division by a zero page size or an
  access to a page that is not allocated.
\<close>

section \<open>State and operations\<close>

record 'a wmArray =
  pages :: "nat \<rightharpoonup> 'a list"
  page_num :: u16
  page_size :: u16
  item_num :: u32
  offset :: u32

definition WM_ARRAY_PAGE_MAX :: u16 where "WM_ARRAY_PAGE_MAX = 1024"

definition wmArray_page :: "'a wmArray \<Rightarrow> int \<Rightarrow> int option" where
  "wmArray_page a n = (if page_size a = 0 then None else Some (n sdiv uint (page_size a)))"

definition wmArray_offset :: "'a wmArray \<Rightarrow> int \<Rightarrow> int option" where
  "wmArray_offset a n = (if page_size a = 0 then None else Some (n smod uint (page_size a)))"

definition wmArray_extend :: "bool \<Rightarrow> 'a \<Rightarrow> 'a wmArray \<Rightarrow> bool \<times> 'a wmArray" where
  "wmArray_extend can z a =
    (if page_num a = WM_ARRAY_PAGE_MAX then (False, a)
     else if \<not> can then (False, a)
     else (True, a\<lparr>pages := (pages a)(unat (page_num a) \<mapsto> replicate (unat (page_size a)) z),
                   page_num := page_num a + 1\<rparr>))"

text \<open>\<open>wmArray_new\<close>: the page size is a C \<open>int\<close> cut to 16 bits.\<close>

definition wmArray_new :: "bool \<Rightarrow> 'a \<Rightarrow> int \<Rightarrow> 'a wmArray option" where
  "wmArray_new can z psize =
    (if \<not> can then None
     else Some (snd (wmArray_extend can z
       \<lparr>pages = Map.empty, page_num = 0, page_size = word_of_int psize, item_num = 0, offset = 0\<rparr>)))"

definition read_item :: "'a wmArray \<Rightarrow> int \<Rightarrow> int \<Rightarrow> 'a option" where
  "read_item a page off =
    (if page < 0 \<or> off < 0 then None
     else case pages a (nat page) of
         None \<Rightarrow> None
       | Some xs \<Rightarrow> if nat off < length xs then Some (xs ! nat off) else None)"

definition write_item :: "'a wmArray \<Rightarrow> int \<Rightarrow> int \<Rightarrow> 'a \<Rightarrow> 'a wmArray option" where
  "write_item a page off x =
    (if page < 0 \<or> off < 0 then None
     else case pages a (nat page) of
         None \<Rightarrow> None
       | Some xs \<Rightarrow> if nat off < length xs then Some (a\<lparr>pages := (pages a)(nat page \<mapsto> xs[nat off := x])\<rparr>) else None)"

text \<open>\<open>wmArray_find\<close>: the item behind the returned pointer; \<open>Some None\<close> is the null pointer.\<close>

definition wmArray_find :: "'a wmArray \<Rightarrow> u32 \<Rightarrow> 'a option option" where
  "wmArray_find a n =
    Option.bind (wmArray_page a (uint n)) (\<lambda>page.
    if uint (page_num a) \<le> page then Some None
    else Option.bind (wmArray_offset a (uint n)) (\<lambda>off. map_option Some (read_item a page off)))"

definition wmArray_add :: "bool \<Rightarrow> 'a \<Rightarrow> 'a wmArray \<Rightarrow> 'a \<Rightarrow> (int \<times> 'a wmArray) option" where
  "wmArray_add can z a x =
    (let n = sint (offset a);
         a = a\<lparr>offset := offset a + 1\<rparr> in
     Option.bind (wmArray_page a n) (\<lambda>page.
     let (ok, a) = (if uint (page_num a) \<le> page then wmArray_extend can z a else (True, a)) in
     if \<not> ok then Some (0, a)
     else
       let a = a\<lparr>item_num := item_num a + 1\<rparr> in
       Option.bind (wmArray_offset a n) (\<lambda>off. map_option (\<lambda>a. (n, a)) (write_item a page off x))))"

definition wmArray_set :: "'a wmArray \<Rightarrow> u32 \<Rightarrow> 'a \<Rightarrow> (bool \<times> 'a wmArray) option" where
  "wmArray_set a n x =
    Option.bind (wmArray_page a (uint n)) (\<lambda>page.
    if uint (page_num a) \<le> page then Some (False, a)
    else Option.bind (wmArray_offset a (uint n)) (\<lambda>off. map_option (\<lambda>a. (True, a)) (write_item a page off x)))"

text \<open>\<open>wmArray_alloc\<close>: pages are added until the index has one; the result is the item's page and offset.\<close>

partial_function (option) alloc_loop :: "bool \<Rightarrow> 'a \<Rightarrow> int \<Rightarrow> 'a wmArray \<Rightarrow> (bool \<times> 'a wmArray) option" where
  "alloc_loop can z n a =
    (if uint (page_num a) * uint (page_size a) \<le> n
     then case wmArray_extend can z a of (ok, a') \<Rightarrow> if ok then alloc_loop can z n a' else Some (False, a')
     else Some (True, a))"

definition wmArray_alloc :: "bool \<Rightarrow> 'a \<Rightarrow> 'a wmArray \<Rightarrow> u32 \<Rightarrow> ((int \<times> int) option \<times> 'a wmArray) option" where
  "wmArray_alloc can z a n =
    Option.bind (alloc_loop can z (uint n) a) (\<lambda>(ok, a).
    if \<not> ok then Some (None, a)
    else Option.bind (wmArray_page a (uint n)) (\<lambda>page.
      if uint (page_num a) \<le> page then Some (None, a)
      else map_option (\<lambda>off. (Some (page, off), a)) (wmArray_offset a (uint n))))"

definition wmArray_clear :: "'a wmArray \<Rightarrow> 'a wmArray" where
  "wmArray_clear a = a\<lparr>offset := 0, item_num := 0\<rparr>"

section \<open>Refinement to lists\<close>

definition wf_array :: "'a wmArray \<Rightarrow> bool" where
  "wf_array a \<longleftrightarrow> 0 < unat (page_size a) \<and> unat (page_num a) \<le> 1024 \<and>
     (\<forall>p. pages a p \<noteq> None \<longleftrightarrow> p < unat (page_num a)) \<and>
     (\<forall>p xs. pages a p = Some xs \<longrightarrow> length xs = unat (page_size a))"

definition item :: "'a wmArray \<Rightarrow> nat \<Rightarrow> 'a" where
  "item a i = the (pages a (i div unat (page_size a))) ! (i mod unat (page_size a))"

definition array_rep :: "'a wmArray \<Rightarrow> 'a list \<Rightarrow> bool" where
  "array_rep a xs \<longleftrightarrow> wf_array a \<and> unat (offset a) = length xs \<and> unat (item_num a) = length xs \<and>
     length xs \<le> unat (page_num a) * unat (page_size a) \<and> (\<forall>i < length xs. item a i = xs ! i)"

definition array_cap :: "'a wmArray \<Rightarrow> nat" where
  "array_cap a = 1024 * unat (page_size a)"

lemma page_size_less: "unat (page_size a) < 65536"
  using unsigned_less [of "page_size a", where ?'a = nat] by simp

lemma sdiv_nat: "0 \<le> i \<Longrightarrow> 0 < d \<Longrightarrow> int (nat i) sdiv int d = int (nat i div d)" for i :: int
  by (simp add: signed_divide_int_def zdiv_int sgn_if)

lemma smod_nat: "0 \<le> i \<Longrightarrow> 0 < d \<Longrightarrow> int (nat i) smod int d = int (nat i mod d)" for i :: int
  by (simp add: signed_modulo_int_def zmod_int sgn_if)

lemma page_offset:
  assumes "wf_array a" "i = int k"
  shows "wmArray_page a i = Some (int (k div unat (page_size a)))"
    "wmArray_offset a i = Some (int (k mod unat (page_size a)))"
proof -
  have p: "page_size a \<noteq> 0" "0 < unat (page_size a)" using assms(1) by (auto simp: wf_array_def)
  have u: "uint (page_size a) = int (unat (page_size a))" by (simp only: uint_nat)
  show "wmArray_page a i = Some (int (k div unat (page_size a)))"
    unfolding wmArray_page_def u using p assms(2) sdiv_nat [of "int k" "unat (page_size a)"] by simp
  show "wmArray_offset a i = Some (int (k mod unat (page_size a)))"
    unfolding wmArray_offset_def u using p assms(2) smod_nat [of "int k" "unat (page_size a)"] by simp
qed

lemma page_cmp:
  assumes "0 < d"
  shows "uint (page_num a) \<le> int (k div d) \<longleftrightarrow> unat (page_num a) * d \<le> k"
proof -
  have "uint (page_num a) \<le> int (k div d) \<longleftrightarrow> unat (page_num a) \<le> k div d" by (simp only: uint_nat of_nat_le_iff)
  also have "\<dots> \<longleftrightarrow> unat (page_num a) * d \<le> k" using assms by (simp add: less_eq_div_iff_mult_less_eq)
  finally show ?thesis .
qed

lemma page_of:
  assumes "wf_array a" "k < unat (page_num a) * unat (page_size a)"
  shows "\<exists>xs. pages a (k div unat (page_size a)) = Some xs \<and> length xs = unat (page_size a) \<and>
    k mod unat (page_size a) < length xs"
proof -
  have "k div unat (page_size a) < unat (page_num a)"
    using assms by (simp add: wf_array_def div_less_iff_less_mult)
  then obtain xs where "pages a (k div unat (page_size a)) = Some xs" using assms(1) unfolding wf_array_def by blast
  then show ?thesis using assms(1) unfolding wf_array_def by fastforce
qed

lemma find_item:
  assumes "wf_array a" "unat n < unat (page_num a) * unat (page_size a)"
  shows "wmArray_find a n = Some (Some (item a (unat n)))"
proof -
  have u: "uint n = int (unat n)" by simp
  have d: "0 < unat (page_size a)" using assms(1) by (simp add: wf_array_def)
  obtain xs where xs: "pages a (unat n div unat (page_size a)) = Some xs" "unat n mod unat (page_size a) < length xs"
    using page_of [OF assms] by blast
  have "\<not> uint (page_num a) \<le> int (unat n div unat (page_size a))" using page_cmp [OF d, of a "unat n"] assms(2) by simp
  then show ?thesis
    using xs unfolding wmArray_find_def page_offset [OF assms(1) u] by (simp add: read_item_def item_def)
qed

lemma find_outside:
  assumes "wf_array a" "unat (page_num a) * unat (page_size a) \<le> unat n"
  shows "wmArray_find a n = Some None"
proof -
  have u: "uint n = int (unat n)" by simp
  have d: "0 < unat (page_size a)" using assms(1) by (simp add: wf_array_def)
  show ?thesis using page_cmp [OF d, of a "unat n"] assms(2)
    unfolding wmArray_find_def page_offset [OF assms(1) u] by simp
qed

lemma write_ok:
  assumes "wf_array a" "k < unat (page_num a) * unat (page_size a)"
  shows "\<exists>a'. write_item a (int (k div unat (page_size a))) (int (k mod unat (page_size a))) x = Some a' \<and> wf_array a' \<and>
    page_num a' = page_num a \<and> page_size a' = page_size a \<and> offset a' = offset a \<and> item_num a' = item_num a \<and>
    (\<forall>i. item a' i = (if i = k then x else item a i) \<or> unat (page_num a) * unat (page_size a) \<le> i)"
proof -
  let ?d = "unat (page_size a)"
  obtain xs where xs: "pages a (k div ?d) = Some xs" "length xs = ?d" "k mod ?d < length xs"
    using page_of [OF assms] by blast
  define a' where "a' = a\<lparr>pages := (pages a)(k div ?d \<mapsto> xs[k mod ?d := x])\<rparr>"
  have "write_item a (int (k div ?d)) (int (k mod ?d)) x = Some a'"
    using xs by (simp add: write_item_def a'_def)
  moreover have "wf_array a'"
    using assms(1) xs(1,2) unfolding wf_array_def a'_def by auto
  moreover have "item a' i = (if i = k then x else item a i)" for i
  proof (cases "i div ?d = k div ?d")
    case True
    have "i = k \<longleftrightarrow> i mod ?d = k mod ?d" using True by (metis div_mult_mod_eq)
    then show ?thesis using True xs by (simp add: item_def a'_def)
  next
    case False
    then show ?thesis by (auto simp: item_def a'_def)
  qed
  ultimately show ?thesis by (auto simp: a'_def)
qed

lemma extend_wf:
  assumes "wf_array a" "unat (page_num a) < 1024"
  shows "\<exists>a'. wmArray_extend True z a = (True, a') \<and> wf_array a' \<and> unat (page_num a') = Suc (unat (page_num a)) \<and>
    page_size a' = page_size a \<and> offset a' = offset a \<and> item_num a' = item_num a \<and>
    (\<forall>i < unat (page_num a) * unat (page_size a). item a' i = item a i)"
proof -
  define a' where "a' = snd (wmArray_extend True z a)"
  have ne: "page_num a \<noteq> WM_ARRAY_PAGE_MAX" using assms(2) by (auto simp: WM_ARRAY_PAGE_MAX_def)
  then have a': "a' = a\<lparr>pages := (pages a)(unat (page_num a) \<mapsto> replicate (unat (page_size a)) z), page_num := page_num a + 1\<rparr>"
    by (simp add: a'_def wmArray_extend_def)
  have pn: "unat (page_num a') = Suc (unat (page_num a))"
    using assms(2) by (simp add: a' unat_word_ariths)
  have "item a' i = item a i" if "i < unat (page_num a) * unat (page_size a)" for i
  proof -
    have "i div unat (page_size a) < unat (page_num a)"
      using that assms(1) by (simp add: wf_array_def div_less_iff_less_mult)
    then show ?thesis by (simp add: item_def a')
  qed
  moreover have "wf_array a'"
    using assms pn unfolding wf_array_def by (auto simp: a' less_Suc_eq)
  moreover have "wmArray_extend True z a = (True, a')" using ne by (simp add: a'_def wmArray_extend_def)
  ultimately show ?thesis using pn by (auto simp: a')
qed

lemma array_add_ok:
  assumes rep: "array_rep a xs" and cap: "length xs < array_cap a"
  shows "\<exists>a'. wmArray_add True z a x = Some (int (length xs), a') \<and> array_rep a' (xs @ [x]) \<and> array_cap a' = array_cap a"
proof -
  let ?k = "length xs"
  have wf: "wf_array a" and of: "unat (offset a) = ?k" and inm: "unat (item_num a) = ?k"
    and le: "?k \<le> unat (page_num a) * unat (page_size a)" and it: "\<forall>i < ?k. item a i = xs ! i"
    using rep by (auto simp: array_rep_def)
  have d: "0 < unat (page_size a)" using wf by (simp add: wf_array_def)
  have k31: "?k < 2 ^ 31 - 1" using cap page_size_less [of a] by (simp add: array_cap_def)
  then have sn: "sint (offset a) = int ?k" using of by (intro sint_small32) auto
  define b where "b = a\<lparr>offset := offset a + 1\<rparr>"
  have ib: "item b = item a" by (simp add: b_def item_def fun_eq_iff)
  have wb: "wf_array b" using wf by (simp add: wf_array_def b_def)
  have ob: "unat (offset b) = Suc ?k" using of k31 by (simp add: b_def unat_inc32)
  have "\<exists>c. (if uint (page_num b) \<le> int (?k div unat (page_size a)) then wmArray_extend True z b else (True, b)) = (True, c) \<and>
     wf_array c \<and> page_size c = page_size a \<and> offset c = offset b \<and> item_num c = item_num a \<and>
     ?k < unat (page_num c) * unat (page_size c) \<and> (\<forall>i < ?k. item c i = item a i)"
  proof (cases "uint (page_num b) \<le> int (?k div unat (page_size a))")
    case True
    then have "unat (page_num b) * unat (page_size a) \<le> ?k" using page_cmp [OF d] by blast
    then have e: "?k = unat (page_num b) * unat (page_size a)" using le by (simp add: b_def)
    then have "unat (page_num b) < 1024" using cap d by (simp add: array_cap_def)
    then obtain c where c: "wmArray_extend True z b = (True, c)" "wf_array c" "unat (page_num c) = Suc (unat (page_num b))"
        "page_size c = page_size b" "offset c = offset b" "item_num c = item_num b"
        "\<forall>i < unat (page_num b) * unat (page_size b). item c i = item b i"
      using extend_wf [OF wb] by blast
    have "\<forall>i < ?k. item c i = item a i" using c(7) e ib by (simp add: b_def)
    moreover have "?k < unat (page_num c) * unat (page_size c)" using c(3,4) e d by (simp add: b_def)
    ultimately show ?thesis using True c by (simp add: b_def)
  next
    case False
    then have "?k < unat (page_num b) * unat (page_size a)" using page_cmp [OF d, of b ?k] by simp
    then show ?thesis using False wb ib by (simp add: b_def)
  qed
  then obtain c where c: "(if uint (page_num b) \<le> int (?k div unat (page_size a)) then wmArray_extend True z b else (True, b)) = (True, c)"
     "wf_array c" "page_size c = page_size a" "offset c = offset b" "item_num c = item_num a"
     "?k < unat (page_num c) * unat (page_size c)" "\<forall>i < ?k. item c i = item a i"
    by blast
  define e where "e = c\<lparr>item_num := item_num c + 1\<rparr>"
  have we: "wf_array e" using c(2) by (simp add: wf_array_def e_def)
  have ke: "?k < unat (page_num e) * unat (page_size e)" using c(6) by (simp add: e_def)
  obtain a' where a': "write_item e (int (?k div unat (page_size e))) (int (?k mod unat (page_size e))) x = Some a'"
      "wf_array a'" "page_num a' = page_num e" "page_size a' = page_size e" "offset a' = offset e" "item_num a' = item_num e"
      "\<forall>i. item a' i = (if i = ?k then x else item e i) \<or> unat (page_num e) * unat (page_size e) \<le> i"
    using write_ok [OF we ke] by blast
  have ie: "item e = item c" by (simp add: e_def item_def fun_eq_iff)
  have pe: "page_size e = page_size a" using c(3) by (simp add: e_def)
  have "wmArray_add True z a x = Some (int ?k, a')"
  proof -
    have p1: "wmArray_page b (int ?k) = Some (int (?k div unat (page_size a)))"
      using page_offset(1) [OF wb refl, of ?k] by (simp add: b_def)
    have p2: "wmArray_offset e (int ?k) = Some (int (?k mod unat (page_size a)))"
      using page_offset(2) [OF we refl, of ?k] pe by simp
    have w: "write_item e (int (?k div unat (page_size a))) (int (?k mod unat (page_size a))) x = Some a'"
      using a'(1) pe by simp
    show ?thesis
      unfolding wmArray_add_def Let_def sn b_def [symmetric] p1 Option.bind.bind_lunit c(1)
      by (simp add: e_def [symmetric] p2 w)
  qed
  moreover have "array_rep a' (xs @ [x])"
    unfolding array_rep_def
  proof (intro conjI allI impI)
    show "wf_array a'" by (rule a'(2))
    show "unat (offset a') = length (xs @ [x])" using a'(5) ob c(4) by (simp add: e_def)
    show "unat (item_num a') = length (xs @ [x])" using a'(6) c(5) inm k31 by (simp add: e_def unat_inc32)
    show "length (xs @ [x]) \<le> unat (page_num a') * unat (page_size a')" using a'(3,4) ke by simp
    fix i assume "i < length (xs @ [x])"
    then have "i < unat (page_num e) * unat (page_size e)" and i: "i \<le> ?k" using ke by auto
    then have "item a' i = (if i = ?k then x else item e i)" using a'(7) by (meson not_le)
    then show "item a' i = (xs @ [x]) ! i" using i c(7) it ie by (auto simp: nth_append)
  qed
  moreover have "array_cap a' = array_cap a" using a'(4) pe by (simp add: array_cap_def)
  ultimately show ?thesis by blast
qed

lemma array_set_ok:
  assumes rep: "array_rep a xs" and n: "unat n < length xs"
  shows "\<exists>a'. wmArray_set a n x = Some (True, a') \<and> array_rep a' (xs[unat n := x]) \<and> array_cap a' = array_cap a"
proof -
  have wf: "wf_array a" and le: "length xs \<le> unat (page_num a) * unat (page_size a)"
    using rep by (auto simp: array_rep_def)
  have d: "0 < unat (page_size a)" using wf by (simp add: wf_array_def)
  have lt: "unat n < unat (page_num a) * unat (page_size a)" using n le by simp
  obtain a' where a': "write_item a (int (unat n div unat (page_size a))) (int (unat n mod unat (page_size a))) x = Some a'"
      "wf_array a'" "page_num a' = page_num a" "page_size a' = page_size a" "offset a' = offset a" "item_num a' = item_num a"
      "\<forall>i. item a' i = (if i = unat n then x else item a i) \<or> unat (page_num a) * unat (page_size a) \<le> i"
    using write_ok [OF wf lt] by blast
  have u: "uint n = int (unat n)" by simp
  have "\<not> uint (page_num a) \<le> int (unat n div unat (page_size a))" using page_cmp [OF d, of a "unat n"] lt by simp
  then have "wmArray_set a n x = Some (True, a')"
    using a'(1) unfolding wmArray_set_def page_offset [OF wf u] by simp
  moreover have "array_rep a' (xs[unat n := x])"
    unfolding array_rep_def
  proof (intro conjI allI impI)
    fix i assume i: "i < length (xs[unat n := x])"
    then have "i < unat (page_num a) * unat (page_size a)" using le by simp
    then have "item a' i = (if i = unat n then x else item a i)" using a'(7) by (meson not_le)
    then show "item a' i = xs[unat n := x] ! i" using i rep by (auto simp: array_rep_def nth_list_update)
  qed (use a' rep le in \<open>auto simp: array_rep_def\<close>)
  ultimately show ?thesis using a'(4) by (auto simp: array_cap_def)
qed

lemma array_get_ok: "array_rep a xs \<Longrightarrow> unat n < length xs \<Longrightarrow> wmArray_find a n = Some (Some (xs ! unat n))"
  using find_item [of a n] by (auto simp: array_rep_def)

lemma array_clear_ok: "array_rep a xs \<Longrightarrow> array_rep (wmArray_clear a) [] \<and> array_cap (wmArray_clear a) = array_cap a"
  by (auto simp: array_rep_def wmArray_clear_def wf_array_def array_cap_def)

lemma array_new_ok:
  assumes "0 < psize" "psize < 65536"
  shows "\<exists>a. wmArray_new True z psize = Some a \<and> array_rep a [] \<and> array_cap a = 1024 * nat psize"
proof -
  let ?w = "word_of_int psize :: u16"
  have w: "unat ?w = nat psize" using assms by (intro unat_word_of_int16) auto
  define b :: "'a wmArray" where "b = \<lparr>pages = Map.empty, page_num = 0, page_size = ?w, item_num = 0, offset = 0\<rparr>"
  have wb: "wf_array b" using assms w by (simp add: wf_array_def b_def)
  have lb: "unat (page_num b) < 1024" by (simp add: b_def)
  obtain a where a: "wmArray_extend True z b = (True, a)" "wf_array a" "page_size a = page_size b"
      "offset a = offset b" "item_num a = item_num b"
    using extend_wf [OF wb lb, of z] by (elim exE conjE) (rule that)
  have "wmArray_new True z psize = Some a" using a(1) by (simp add: wmArray_new_def b_def)
  moreover have "array_rep a []" using a(2,4,5) by (simp add: array_rep_def b_def)
  moreover have "array_cap a = 1024 * nat psize" unfolding array_cap_def a(3) using w by (simp add: b_def)
  ultimately show ?thesis by blast
qed

section \<open>The interface\<close>

locale vector =
  fixes add :: "'v \<Rightarrow> 'a \<Rightarrow> (int \<times> 'v) option"
    and find :: "'v \<Rightarrow> u32 \<Rightarrow> 'a option option"
    and put :: "'v \<Rightarrow> u32 \<Rightarrow> 'a \<Rightarrow> (bool \<times> 'v) option"
    and clear :: "'v \<Rightarrow> 'v"
    and rep :: "'v \<Rightarrow> 'a list \<Rightarrow> bool"
    and cap :: "'v \<Rightarrow> nat"
  assumes add_law: "rep v xs \<Longrightarrow> length xs < cap v \<Longrightarrow>
      \<exists>v'. add v x = Some (int (length xs), v') \<and> rep v' (xs @ [x]) \<and> cap v' = cap v"
    and find_law: "rep v xs \<Longrightarrow> unat n < length xs \<Longrightarrow> find v n = Some (Some (xs ! unat n))"
    and put_law: "rep v xs \<Longrightarrow> unat n < length xs \<Longrightarrow>
      \<exists>v'. put v n x = Some (True, v') \<and> rep v' (xs[unat n := x]) \<and> cap v' = cap v"
    and clear_law: "rep v xs \<Longrightarrow> rep (clear v) [] \<and> cap (clear v) = cap v"
begin

lemma add_all:
  assumes "rep v xs" "length xs + length ys \<le> cap v"
  shows "\<exists>v'. fold (\<lambda>y v. Option.bind v (\<lambda>v. map_option snd (add v y))) ys (Some v) = Some v' \<and>
    rep v' (xs @ ys) \<and> cap v' = cap v"
  using assms
proof (induction ys arbitrary: v xs)
  case (Cons y ys)
  obtain v1 where v1: "add v y = Some (int (length xs), v1)" "rep v1 (xs @ [y])" "cap v1 = cap v"
    using add_law [OF Cons.prems(1)] Cons.prems(2) by auto
  then show ?case using Cons.IH [OF v1(2)] Cons.prems(2) by auto
qed auto

end

interpretation av: vector "wmArray_add True z" wmArray_find wmArray_set wmArray_clear array_rep array_cap
  by unfold_locales (auto intro: array_add_ok array_set_ok array_get_ok simp: array_clear_ok)

section \<open>Properties\<close>

text \<open>
  items added to a new array are found at their indices, across page boundaries, and a later
  \<open>wmArray_set\<close> changes the one item it names: the array behaves as the list of its items up to
  \<open>1024 * page_size\<close> of them.
\<close>

theorem array_add_find:
  assumes "wmArray_new True z psize = Some a" "0 < psize" "psize < 65536"
    and "length ys \<le> 1024 * nat psize" "i < length ys" "j < length ys"
  shows "\<exists>a1 a2. fold (\<lambda>y a. Option.bind a (\<lambda>a. map_option snd (wmArray_add True z a y))) ys (Some a) = Some a1 \<and>
    wmArray_find a1 (of_nat i) = Some (Some (ys ! i)) \<and>
    wmArray_set a1 (of_nat j) x = Some (True, a2) \<and>
    wmArray_find a2 (of_nat i) = Some (Some (if i = j then x else ys ! i))"
proof -
  obtain a' where "wmArray_new True z psize = Some a'" "array_rep a' []" "array_cap a' = 1024 * nat psize"
    using array_new_ok [OF assms(2,3), of z] by blast
  then have a: "array_rep a []" "array_cap a = 1024 * nat psize" using assms(1) by auto
  then obtain a1 where a1: "fold (\<lambda>y a. Option.bind a (\<lambda>a. map_option snd (wmArray_add True z a y))) ys (Some a) = Some a1"
      "array_rep a1 ([] @ ys)"
    using av.add_all [OF a(1), of ys z] assms(4) by auto
  have "nat psize < 65536" using assms(3) by linarith
  then have "length ys < 4294967296" using assms(4) by linarith
  then have u: "unat (of_nat i :: u32) = i" "unat (of_nat j :: u32) = j"
    using assms(5,6) by (intro unat_of_nat32; linarith)+
  obtain a2 where a2: "wmArray_set a1 (of_nat j) x = Some (True, a2)" "array_rep a2 (ys[j := x])"
    using av.put_law [of a1 ys "of_nat j" x] a1(2) u assms(6) by auto
  have "wmArray_find a1 (of_nat i) = Some (Some (ys ! i))"
    using av.find_law [of a1 ys "of_nat i"] a1(2) u assms(5) by auto
  moreover have "wmArray_find a2 (of_nat i) = Some (Some (ys[j := x] ! i))"
    using av.find_law [of a2 "ys[j := x]" "of_nat i"] a2(2) u assms(5) by auto
  ultimately show ?thesis using a1(1) a2(1) assms(5) by (auto simp: nth_list_update)
qed

theorem array_add_find_witness:
  "\<exists>a a1. wmArray_new True 0 2 = Some a \<and>
     fold (\<lambda>y a. Option.bind a (\<lambda>a. map_option snd (wmArray_add True 0 a y))) [7, 8, 9 :: int] (Some a) = Some a1 \<and>
     wmArray_find a1 2 = Some (Some 9)"
proof -
  obtain a :: "int wmArray" where a: "wmArray_new True 0 2 = Some a" using array_new_ok [of 2 "0 :: int"] by auto
  from array_add_find [OF a, of "[7, 8, 9]" 2 2] show ?thesis using a by auto
qed

text \<open>
  \<open>wmArray_add\<close> on an array whose 1024 pages are full. It reports the failure as 0, the value it
  also returns for the first item ever added; no item changes, but the offset has moved on.
\<close>

theorem array_add_full:
  assumes "array_rep a xs" "length xs = array_cap a"
  shows "\<exists>a'. wmArray_add can z a x = Some (0, a') \<and> unat (offset a') = length xs + 1 \<and>
    (\<forall>i < length xs. wmArray_find a' (of_nat i) = Some (Some (xs ! i))) \<and>
    (\<exists>e b. wmArray_add True z (wmArray_clear a) x = Some (0, e) \<and> array_rep e b \<and> b = [x])"
proof -
  let ?k = "length xs"
  have wf: "wf_array a" and of: "unat (offset a) = ?k" and le: "?k \<le> unat (page_num a) * unat (page_size a)"
    using assms(1) by (auto simp: array_rep_def)
  have d: "0 < unat (page_size a)" and p: "unat (page_num a) \<le> 1024" using wf by (auto simp: wf_array_def)
  have k: "?k = 1024 * unat (page_size a)" using assms(2) by (simp add: array_cap_def)
  then have "1024 * unat (page_size a) \<le> unat (page_num a) * unat (page_size a)" using le by linarith
  then have "1024 \<le> unat (page_num a)" using d by (simp only: mult_le_cancel2)
  then have pn: "unat (page_num a) = 1024" using p by linarith
  have k31: "?k < 2 ^ 31 - 1" using k page_size_less [of a] by simp
  then have sn: "sint (offset a) = int ?k" using of by (intro sint_small32) auto
  define b where "b = a\<lparr>offset := offset a + 1\<rparr>"
  have wb: "wf_array b" using wf by (simp add: wf_array_def b_def)
  have p1: "wmArray_page b (int ?k) = Some (int (?k div unat (page_size a)))"
    using page_offset(1) [OF wb refl, of ?k] by (simp add: b_def)
  have full: "page_num b = WM_ARRAY_PAGE_MAX"
    using pn by (simp add: b_def WM_ARRAY_PAGE_MAX_def word_unat_eq_iff)
  have "uint (page_num b) \<le> int (?k div unat (page_size a))" using page_cmp [OF d, of b ?k] k pn by (simp add: b_def)
  then have "wmArray_add can z a x = Some (0, b)"
    unfolding wmArray_add_def Let_def sn b_def [symmetric] p1 Option.bind.bind_lunit using full by (simp add: wmArray_extend_def)
  moreover have "unat (offset b) = ?k + 1" using of k31 by (simp add: b_def unat_inc32)
  moreover have "wmArray_find b (of_nat i) = Some (Some (xs ! i))" if "i < ?k" for i
  proof -
    have "unat (of_nat i :: u32) = i" using that k31 by (intro unat_of_nat32) simp
    moreover have "item b i = xs ! i" using assms(1) that by (simp add: array_rep_def item_def b_def)
    moreover have "i < unat (page_num b) * unat (page_size b)" using that le by (simp add: b_def)
    ultimately show ?thesis using find_item [OF wb, of "of_nat i"] by simp
  qed
  moreover have "\<exists>e. wmArray_add True z (wmArray_clear a) x = Some (0, e) \<and> array_rep e [x]"
    using array_add_ok [of "wmArray_clear a" "[]" z x] array_clear_ok [OF assms(1)] d by (auto simp: array_cap_def)
  ultimately show ?thesis by blast
qed

text \<open>An array of one-item pages with all 1024 pages in use.\<close>

definition full_array :: "int wmArray" where
  "full_array = \<lparr>pages = (\<lambda>p. if p < 1024 then Some [int p] else None), page_num = 1024, page_size = 1,
     item_num = 1024, offset = 1024\<rparr>"

lemma full_array_rep: "array_rep full_array (map int [0..<1024])" "array_cap full_array = 1024"
  by (simp_all add: array_rep_def wf_array_def full_array_def item_def array_cap_def)

theorem array_add_full_witness:
  "\<exists>a'. wmArray_add True 0 full_array 5 = Some (0, a') \<and> wmArray_find a' 7 = Some (Some 7)"
proof -
  have "length (map int [0..<1024]) = array_cap full_array" using full_array_rep(2) by simp
  from array_add_full [OF full_array_rep(1) this, of True 0 5] obtain a' where
    a': "wmArray_add True 0 full_array 5 = Some (0, a')"
      "\<forall>i < 1024. wmArray_find a' (of_nat i) = Some (Some (map int [0..<1024] ! i))"
    by auto
  then show ?thesis using a'(2) [rule_format, of 7] by auto
qed

end
