(* ===== verification/Wm_Worker.thy ===== *)
theory Wm_Worker
  imports Wm_Loop Wm_Hash Wm_Array
begin

text \<open>
  The master process and its workers (\<open>src/worker.c\<close>): the arrays of process ids, forking, the reaction
  to the end of a process, the rolling reload, stopping. The kernel is the environment: \<open>forks\<close> are
  the answers \<open>fork\<close> gives, \<open>sent\<close> the signals that have been sent, and the functions for the end of a
  child get its process id. A process that ends is a constructor of the result; \<open>None\<close> is undefined
  behaviour, or \<open>wmError\<close>, which ends the process with an error, or that the environment does not go on.
\<close>

section \<open>State\<close>

datatype worker_status = STATUS_STARTING | STATUS_RUNNING | STATUS_SHUTDOWN | STATUS_RELOADING

datatype signal = SIGINT | SIGUSR1 | SIGUSR2 | SIGKILL

record wmWorker =
  workerId :: u32
  worker_no :: u32
  worker_fd :: int
  worker_status :: worker_status
  worker_transport :: "transport option"
  worker_host :: "u8 list"
  worker_port :: int
  worker_count :: int
  stopping :: bool
  reloadable :: bool
  reusePort :: bool
  listening :: bool

text \<open>Where the pointer of a kill timer points: an item of one of the two arrays of process ids.\<close>

datatype pid_cell = In_tmp nat | In_reload nat

text \<open>\<open>fork\<close>: the id of the child in the parent, or the child with its own id, or an error.\<close>

datatype fork_answer = Parent int | Child int | Fork_failed

record master =
  workers :: "wmWorker table"
  worker_pids :: "int wmArray table"
  pid_array_tmp :: "int wmArray"
  pidsToReload :: "int wmArray"
  status :: worker_status
  masterPid :: int
  self_pid :: int
  main_worker :: "u32 option"
  last_worker_id :: u32
  reload_coro_num :: int
  kill_timers :: "pid_cell list"
  sent :: "(int \<times> signal) list"
  forks :: "fork_answer list"
  exited :: bool

definition kill :: "int \<Rightarrow> signal \<Rightarrow> master \<Rightarrow> master" where
  "kill pid s m = m\<lparr>sent := sent m @ [(pid, s)]\<rparr>"

section \<open>Loops over arrays of process ids\<close>

text \<open>Following the pointer \<open>wmArray_find\<close> returns.\<close>

definition item_at :: "'a wmArray \<Rightarrow> nat \<Rightarrow> 'a option" where
  "item_at a i = Option.bind (wmArray_find a (of_nat i)) id"

fun for_items :: "('a \<Rightarrow> 's \<Rightarrow> 's option) \<Rightarrow> 'a wmArray \<Rightarrow> nat list \<Rightarrow> 's \<Rightarrow> 's option" where
  "for_items f a [] s = Some s"
| "for_items f a (i # is) s = Option.bind (item_at a i) (\<lambda>x. Option.bind (f x s) (for_items f a is))"

fun first_at :: "('a \<Rightarrow> bool) \<Rightarrow> 'a wmArray \<Rightarrow> nat list \<Rightarrow> nat option option" where
  "first_at P a [] = Some None"
| "first_at P a (i # is) = Option.bind (item_at a i) (\<lambda>x. if P x then Some (Some i) else first_at P a is)"

abbreviation indices :: "'a wmArray \<Rightarrow> nat list" where
  "indices a \<equiv> [0..<unat (offset a)]"

definition add_pid :: "int \<Rightarrow> int wmArray \<Rightarrow> int wmArray option" where
  "add_pid x a = map_option snd (wmArray_add True 0 a x)"

definition put_item :: "nat \<Rightarrow> int \<Rightarrow> int wmArray \<Rightarrow> int wmArray option" where
  "put_item i x a = map_option snd (wmArray_set a (of_nat i) x)"

definition table_set :: "'v table \<Rightarrow> u32 \<Rightarrow> 'v \<Rightarrow> 'v table" where
  "table_set t k v = map (\<lambda>e. if fst e = k then (k, v) else e) t"

section \<open>Workers\<close>

definition strncmp_eq :: "u8 list \<Rightarrow> u8 list \<Rightarrow> nat \<Rightarrow> bool" where
  "strncmp_eq s t n \<longleftrightarrow> take n (s @ [0]) = take n (t @ [0])"

fun strstr :: "u8 list \<Rightarrow> u8 list \<Rightarrow> nat option" where
  "strstr [] pat = (if pat = [] then Some 0 else None)"
| "strstr (c # cs) pat = (if take (length pat) (c # cs) = pat then Some 0 else map_option Suc (strstr cs pat))"

definition str_tcp :: "u8 list" where "str_tcp = [116, 99, 112]"
definition str_udp :: "u8 list" where "str_udp = [117, 100, 112]"
definition str_sep :: "u8 list" where "str_sep = [58, 47, 47]"

text \<open>\<open>parseSocketAddress\<close>: transport, host and port.\<close>

definition parseSocketAddress :: "u8 list \<Rightarrow> (transport \<times> u8 list \<times> int) option" where
  "parseSocketAddress listen =
    Option.bind (strstr listen str_sep) (\<lambda>transport_len.
    Option.bind (if strncmp_eq str_tcp listen transport_len then Some WM_SOCK_TCP
                 else if strncmp_eq str_udp listen transport_len then Some WM_SOCK_UDP
                 else None) (\<lambda>transport.
    let len = transport_len + 3 in
    if \<not> is_digit ((listen @ [0]) ! len) then None
    else map_option (\<lambda>(host, port). (transport, host, port)) (parse_ip_address_ex (drop len listen))))"

definition wmWorker_create :: "u8 list \<Rightarrow> master \<Rightarrow> (u32 \<times> master) option" where
  "wmWorker_create socketName m =
    (let i = last_worker_id m; m = m\<lparr>last_worker_id := i + 1\<rparr> in
     Option.bind (parseSocketAddress socketName) (\<lambda>(tr, host, port).
     let w = \<lparr>workerId = i, worker_no = 0, worker_fd = 0, worker_status = STATUS_STARTING, worker_transport = Some tr,
              worker_host = host, worker_port = port, worker_count = 1, stopping = False, reloadable = True, reusePort = True,
              listening = False\<rparr>;
         m = (if main_worker m \<noteq> None then m\<lparr>reload_coro_num := reload_coro_num m + 1\<rparr> else m);
         (ok, t) = WM_HASH_ADD (workers m) i w in
     if ok then Some (i, m\<lparr>workers := t\<rparr>) else None))"

text \<open>
  The network part of \<open>wmWorker_listen\<close>, with the results of the system calls \<open>socket\<close>, \<open>setsockopt\<close>,
  \<open>bind\<close> and \<open>listen\<close>. The table of workers by descriptor is not used anywhere else.
\<close>

definition wmWorker_listen :: "int \<Rightarrow> int \<Rightarrow> int \<Rightarrow> int \<Rightarrow> wmWorker \<Rightarrow> (bool \<times> wmWorker) option" where
  "wmWorker_listen r_socket r_reuse r_bind r_listen w =
    (if listening w then Some (True, w)
     else if r_socket < 0 then None
     else
       let w = w\<lparr>listening := True, worker_fd := r_socket\<rparr> in
       if reusePort w \<and> r_reuse < 0 then None
       else if r_bind < 0 then Some (False, w)
       else if worker_transport w = Some WM_SOCK_TCP \<and> r_listen < 0 then Some (False, w)
       else Some (True, w))"

definition unlisten :: "wmWorker \<Rightarrow> wmWorker" where
  "unlisten w = (if listening w then w\<lparr>worker_fd := 0, listening := False\<rparr> else w)"

text \<open>\<open>wmWorker_free\<close>, up to the memory: the worker leaves the table.\<close>

definition wmWorker_free :: "u32 \<Rightarrow> master \<Rightarrow> master" where
  "wmWorker_free i m = m\<lparr>workers := snd (WM_HASH_DEL (workers m) i)\<rparr>"

section \<open>Forking\<close>

fun init_pids :: "(u32 \<times> wmWorker) list \<Rightarrow> master \<Rightarrow> master option" where
  "init_pids [] m = Some m"
| "init_pids ((k, w) # ws) m =
    (let n = (if worker_count w < 1 then 1 else worker_count w);
         m = m\<lparr>workers := table_set (workers m) k (w\<lparr>worker_count := n\<rparr>)\<rparr> in
     Option.bind (wmArray_new True 0 64) (\<lambda>a.
     Option.bind (fold (\<lambda>_ a. Option.bind a (add_pid 0)) [0..<nat n] (Some a)) (\<lambda>a.
     case WM_HASH_ADD (worker_pids m) k a of
       (True, t) \<Rightarrow> init_pids ws (m\<lparr>worker_pids := t\<rparr>)
     | (False, _) \<Rightarrow> None)))"

definition initWorkerPids :: "master \<Rightarrow> master option" where
  "initWorkerPids m = init_pids (workers m) m"

definition getKey_by_pid :: "u32 \<Rightarrow> int \<Rightarrow> master \<Rightarrow> nat option option" where
  "getKey_by_pid wid pid m =
    Option.bind (WM_HASH_GET (worker_pids m) wid) (\<lambda>a. first_at (\<lambda>p. p = pid) a (indices a))"

text \<open>What the child does first: it keeps its own worker only, and drops the timers.\<close>

definition start_child :: "u32 \<Rightarrow> nat \<Rightarrow> int \<Rightarrow> master \<Rightarrow> master" where
  "start_child wid slot pid m =
    (let m = fold wmWorker_free (filter (\<lambda>k. k \<noteq> wid) (map fst (workers m))) m in
     m\<lparr>workers := map (\<lambda>(k, w). (k, w\<lparr>worker_no := of_nat slot\<rparr>)) (workers m), main_worker := Some wid, self_pid := pid,
       kill_timers := []\<rparr>)"

text \<open>The result says whether this is the child.\<close>

definition forkOneWorker :: "u32 \<Rightarrow> nat \<Rightarrow> master \<Rightarrow> (bool \<times> master) option" where
  "forkOneWorker wid slot m =
    (case forks m of
       [] \<Rightarrow> None
     | Parent pid # fs \<Rightarrow>
         Option.bind (WM_HASH_GET (worker_pids m) wid) (\<lambda>a.
         map_option (\<lambda>a. (False, m\<lparr>forks := fs, worker_pids := table_set (worker_pids m) wid a\<rparr>)) (put_item slot pid a))
     | Child pid # fs \<Rightarrow> Some (True, start_child wid slot pid (m\<lparr>forks := fs\<rparr>))
     | Fork_failed # _ \<Rightarrow> None)"

partial_function (option) fork_slots :: "u32 \<Rightarrow> master \<Rightarrow> (bool \<times> master) option" where
  "fork_slots wid m =
    Option.bind (getKey_by_pid wid 0 m) (\<lambda>slot.
    case slot of
      None \<Rightarrow> Some (False, m)
    | Some i \<Rightarrow> Option.bind (forkOneWorker wid i m) (\<lambda>(child, m). if child then Some (True, m) else fork_slots wid m))"

fun fork_each :: "u32 list \<Rightarrow> master \<Rightarrow> (bool \<times> master) option" where
  "fork_each [] m = Some (False, m)"
| "fork_each (k # ks) m = Option.bind (fork_slots k m) (\<lambda>(child, m). if child then Some (True, m) else fork_each ks m)"

definition forkWorkers :: "master \<Rightarrow> (bool \<times> master) option" where
  "forkWorkers m = fork_each (map fst (workers m)) m"

section \<open>Collecting, reloading, stopping\<close>

fun collect :: "int wmArray list \<Rightarrow> int wmArray \<Rightarrow> int wmArray option" where
  "collect [] t = Some t"
| "collect (a # as) t =
    Option.bind (for_items (\<lambda>p t. if 0 < p then add_pid p t else Some t) a (indices a) t) (collect as)"

definition getAllWorkerPids :: "master \<Rightarrow> master option" where
  "getAllWorkerPids m =
    map_option (\<lambda>t. m\<lparr>pid_array_tmp := t\<rparr>) (collect (map snd (worker_pids m)) (wmArray_clear (pid_array_tmp m)))"

text \<open>The processes that may be reloaded; the others get the signal at once.\<close>

fun reloadable_pids :: "(u32 \<times> int wmArray) list \<Rightarrow> int wmArray \<times> master \<Rightarrow> (int wmArray \<times> master) option" where
  "reloadable_pids [] s = Some s"
| "reloadable_pids ((k, a) # t) s =
    Option.bind (WM_HASH_GET (workers (snd s)) k) (\<lambda>w.
    Option.bind (for_items (\<lambda>p (r, m). if reloadable w then map_option (\<lambda>r. (r, m)) (add_pid p r) else Some (r, kill p SIGUSR1 m))
                   a (indices a) s) (reloadable_pids t))"

text \<open>Processes that are gone leave the list of those to reload.\<close>

fun drop_gone :: "int wmArray \<Rightarrow> nat list \<Rightarrow> int wmArray \<Rightarrow> int wmArray option" where
  "drop_gone r [] a = Some a"
| "drop_gone r (i # is) a =
    Option.bind (item_at a i) (\<lambda>p.
    Option.bind (first_at (\<lambda>q. p = q) r (indices r)) (\<lambda>found.
    Option.bind (if found = None then put_item i 0 a else Some a) (drop_gone r is)))"

definition reload_master :: "master \<Rightarrow> master option" where
  "reload_master m =
    (let m = (if status m \<noteq> STATUS_RELOADING \<and> status m \<noteq> STATUS_SHUTDOWN then m\<lparr>status := STATUS_RELOADING\<rparr> else m) in
     Option.bind (wmArray_new True 0 64) (\<lambda>r.
     Option.bind (reloadable_pids (worker_pids m) (r, m)) (\<lambda>(r, m).
     Option.bind (drop_gone r (indices (pidsToReload m)) (pidsToReload m)) (\<lambda>l.
     let m = m\<lparr>pidsToReload := l\<rparr> in
     Option.bind (first_at (\<lambda>p. p \<noteq> 0) l (indices l)) (\<lambda>next.
     case next of
       None \<Rightarrow> Some (if status m \<noteq> STATUS_SHUTDOWN then m\<lparr>status := STATUS_RUNNING\<rparr> else m)
     | Some i \<Rightarrow>
         Option.bind (item_at l i) (\<lambda>p.
         let m = kill p SIGUSR1 m in Some (m\<lparr>kill_timers := kill_timers m @ [In_reload i]\<rparr>)))))))"

definition update_main :: "(wmWorker \<Rightarrow> wmWorker) \<Rightarrow> master \<Rightarrow> master option" where
  "update_main f m =
    Option.bind (main_worker m) (\<lambda>i.
    map_option (\<lambda>w. m\<lparr>workers := table_set (workers m) i (f w)\<rparr>) (WM_HASH_GET (workers m) i))"

text \<open>\<open>worker_stop\<close>, when the user function, if any, succeeds.\<close>

definition worker_stop :: "master \<Rightarrow> master option" where
  "worker_stop m = update_main (\<lambda>w. unlisten (w\<lparr>worker_status := STATUS_SHUTDOWN\<rparr>)) m"

fun stop_timers :: "nat list \<Rightarrow> master \<Rightarrow> master option" where
  "stop_timers [] m = Some m"
| "stop_timers (i # is) m =
    Option.bind (item_at (pid_array_tmp m) i) (\<lambda>p.
    let m = kill p SIGINT m in stop_timers is (m\<lparr>kill_timers := kill_timers m @ [In_tmp i]\<rparr>))"

definition wmWorker_stopAll :: "master \<Rightarrow> master option" where
  "wmWorker_stopAll m =
    (let m = m\<lparr>status := STATUS_SHUTDOWN\<rparr> in
     if masterPid m = self_pid m then
       Option.bind (getAllWorkerPids m) (\<lambda>m. stop_timers (indices (pid_array_tmp m)) m)
     else
       Option.bind (Option.bind (main_worker m) (WM_HASH_GET (workers m))) (\<lambda>w.
       Option.bind (if stopping w then Some m
                    else Option.bind (worker_stop m) (update_main (\<lambda>w. w\<lparr>stopping := True\<rparr>))) (\<lambda>m.
       Some (m\<lparr>exited := True\<rparr>))))"

text \<open>
  \<open>reload\<close> in a child: \<open>coros\<close> are the numbers of coroutines it sees, every tenth of a second, until few
  enough are left.
\<close>

fun reload_wait :: "int list \<Rightarrow> master \<Rightarrow> master option" where
  "reload_wait [] m = None"
| "reload_wait (n # ns) m = (if n \<le> reload_coro_num m then wmWorker_stopAll m else reload_wait ns m)"

definition reload_child :: "int list \<Rightarrow> master \<Rightarrow> master option" where
  "reload_child coros m =
    Option.bind (Option.bind (main_worker m) (WM_HASH_GET (workers m))) (\<lambda>w.
    if reloadable w
    then Option.bind (update_main (\<lambda>w. unlisten (w\<lparr>worker_status := STATUS_RELOADING\<rparr>)) m) (reload_wait coros)
    else Some m)"

definition reload :: "int list \<Rightarrow> master \<Rightarrow> master option" where
  "reload coros m = (if masterPid m = self_pid m then reload_master m else reload_child coros m)"

fun copy_pids :: "nat list \<Rightarrow> int wmArray \<Rightarrow> int wmArray \<Rightarrow> int wmArray option" where
  "copy_pids [] t l = Some l"
| "copy_pids (i # is) t l = Option.bind (item_at t i) (\<lambda>p. Option.bind (add_pid p l) (copy_pids is t))"

text \<open>
  \<open>writeStatisticsToStatusFile\<close>, up to the text: the master asks all processes for their rows, a child
  writes its own (\<open>child_statistics\<close> in \<open>Wm_Server\<close>).
\<close>

definition writeStatisticsToStatusFile :: "master \<Rightarrow> master option" where
  "writeStatisticsToStatusFile m =
    (if masterPid m = self_pid m then
       Option.bind (getAllWorkerPids m) (\<lambda>m.
       for_items (\<lambda>p m. Some (kill p SIGUSR2 m)) (pid_array_tmp m) (indices (pid_array_tmp m)) m)
     else Some m)"

definition signalHandler :: "int list \<Rightarrow> signal \<Rightarrow> master \<Rightarrow> master option" where
  "signalHandler coros s m =
    (case s of
       SIGINT \<Rightarrow> wmWorker_stopAll m
     | SIGUSR1 \<Rightarrow>
         Option.bind (getAllWorkerPids m) (\<lambda>m.
         Option.bind (copy_pids (indices (pid_array_tmp m)) (pid_array_tmp m) (wmArray_clear (pidsToReload m))) (\<lambda>l.
         reload coros (m\<lparr>pidsToReload := l\<rparr>)))
     | SIGUSR2 \<Rightarrow> writeStatisticsToStatusFile m
     | SIGKILL \<Rightarrow> Some m)"

text \<open>The callback of the kill timers: it follows its pointer when it fires.\<close>

definition kill_cell :: "pid_cell \<Rightarrow> master \<Rightarrow> master option" where
  "kill_cell c m =
    Option.bind (case c of In_tmp i \<Rightarrow> item_at (pid_array_tmp m) i | In_reload i \<Rightarrow> item_at (pidsToReload m) i) (\<lambda>p.
    Some (if p \<noteq> 0 then kill p SIGKILL m else m))"

section \<open>Watching the children\<close>

text \<open>The end of a child, in the array of one worker.\<close>

definition clear_slot :: "int \<Rightarrow> u32 \<Rightarrow> master \<Rightarrow> master option" where
  "clear_slot pid k m =
    Option.bind (WM_HASH_GET (worker_pids m) k) (\<lambda>a.
    Option.bind (first_at (\<lambda>p. p = pid) a (indices a)) (\<lambda>found.
    case found of
      None \<Rightarrow> Some m
    | Some i \<Rightarrow> map_option (\<lambda>a. m\<lparr>worker_pids := table_set (worker_pids m) k a\<rparr>) (put_item i 0 a)))"

definition reload_next :: "int \<Rightarrow> master \<Rightarrow> master option" where
  "reload_next pid m =
    Option.bind (first_at (\<lambda>p. p = pid) (pidsToReload m) (indices (pidsToReload m))) (\<lambda>found.
    case found of
      None \<Rightarrow> Some m
    | Some i \<Rightarrow> Option.bind (put_item i 0 (pidsToReload m)) (\<lambda>l. reload [] (m\<lparr>pidsToReload := l\<rparr>)))"

fun child_ended :: "int \<Rightarrow> u32 list \<Rightarrow> master \<Rightarrow> (bool \<times> master) option" where
  "child_ended pid [] m = Some (False, m)"
| "child_ended pid (k # ks) m =
    Option.bind (clear_slot pid k m) (\<lambda>m.
    if status m \<noteq> STATUS_SHUTDOWN
    then Option.bind (forkWorkers m) (\<lambda>(child, m).
         if child then Some (True, m) else Option.bind (reload_next pid m) (child_ended pid ks))
    else child_ended pid ks m)"

datatype watch_result = Watching | Became_child | All_stopped

text \<open>
  One turn of \<open>monitorWorkers\<close> with the result of \<open>waitpid\<close>. With \<open>WUNTRACED\<close> that is also a child that
  has been stopped by a signal and is alive: the code treats it like one that has ended.
\<close>

definition monitor_step :: "int \<Rightarrow> master \<Rightarrow> (watch_result \<times> master) option" where
  "monitor_step pid m =
    Option.bind (if 0 < pid then child_ended pid (map fst (worker_pids m)) m else Some (False, m)) (\<lambda>(child, m).
    if child then Some (Became_child, m)
    else if status m = STATUS_SHUTDOWN then
      Option.bind (getAllWorkerPids m) (\<lambda>m.
      Some (if offset (pid_array_tmp m) = 0 then (All_stopped, m\<lparr>exited := True\<rparr>) else (Watching, m)))
    else Some (Watching, m))"

text \<open>\<open>monitorWorkers\<close> as far as \<open>waitpid\<close> answers.\<close>

fun watch_children :: "int list \<Rightarrow> master \<Rightarrow> (watch_result \<times> master) option" where
  "watch_children [] m = Some (Watching, m)"
| "watch_children (pid # pids) m =
    Option.bind (monitor_step pid m) (\<lambda>(r, m). if r = Watching then watch_children pids m else Some (r, m))"

definition monitorWorkers :: "int list \<Rightarrow> master \<Rightarrow> (watch_result \<times> master) option" where
  "monitorWorkers pids m = watch_children pids (m\<lparr>status := STATUS_RUNNING\<rparr>)"

end
