(* ===== verification/Wm_Worker_Run.thy ===== *)
theory Wm_Worker_Run
  imports Wm_Worker "HOL-Library.Multiset"
begin

text \<open>
  The processes of a server, seen as lists of process ids: every worker has one list, with 0 for a slot
  without a process. The loops over the paged arrays are those over the lists; a missing process is
  forked, a process that ends is replaced, a reload takes one process after the other, and stopping ends
  with the last one.
\<close>

section \<open>Arrays as lists\<close>

fun index_of :: "('a \<Rightarrow> bool) \<Rightarrow> 'a list \<Rightarrow> nat option" where
  "index_of P [] = None"
| "index_of P (x # xs) = (if P x then Some 0 else map_option Suc (index_of P xs))"

fun fold_opt :: "('a \<Rightarrow> 's \<Rightarrow> 's option) \<Rightarrow> 'a list \<Rightarrow> 's \<Rightarrow> 's option" where
  "fold_opt f [] s = Some s"
| "fold_opt f (x # xs) s = Option.bind (f x s) (fold_opt f xs)"

lemma index_of_Some: "index_of P xs = Some i \<Longrightarrow> i < length xs \<and> P (xs ! i) \<and> (\<forall>j < i. \<not> P (xs ! j))"
proof (induction xs arbitrary: i)
  case (Cons x xs)
  then show ?case by (auto split: if_splits simp: nth_Cons split: nat.split)
qed simp

lemma index_of_None: "index_of P xs = None \<longleftrightarrow> (\<forall>x \<in> set xs. \<not> P x)"
  by (induction xs) auto

lemma rep_length: "array_rep a xs \<Longrightarrow> unat (offset a) = length xs"
  by (simp add: array_rep_def)

lemma rep_small: "array_rep a xs \<Longrightarrow> length xs < 2 ^ 32"
  using unsigned_less [of "offset a", where ?'a = nat] by (simp add: array_rep_def)

lemma item_at_ok: "array_rep a xs \<Longrightarrow> i < length xs \<Longrightarrow> item_at a i = Some (xs ! i)"
  using av.find_law [of a xs "of_nat i"] rep_small [of a xs] by (simp add: item_at_def unat_of_nat32)

lemma put_item_ok:
  assumes "array_rep a xs" "i < length xs"
  shows "\<exists>a'. put_item i x a = Some a' \<and> array_rep a' (xs[i := x]) \<and> array_cap a' = array_cap a"
  using av.put_law [of a xs "of_nat i" x] assms rep_small [OF assms(1)] by (auto simp: put_item_def unat_of_nat32)

lemma add_pid_ok: "array_rep a xs \<Longrightarrow> length xs < array_cap a \<Longrightarrow> \<exists>a'. add_pid x a = Some a' \<and> array_rep a' (xs @ [x]) \<and> array_cap a' = array_cap a"
  using av.add_law [of a xs 0 x] by (auto simp: add_pid_def)

lemma first_at_from:
  assumes "array_rep a xs"
  shows "i \<le> length xs \<Longrightarrow> first_at P a [i..<length xs] = Some (map_option ((+) i) (index_of P (drop i xs)))"
proof (induction "length xs - i" arbitrary: i)
  case 0
  then show ?case by simp
next
  case (Suc n)
  then have i: "i < length xs" by simp
  have "first_at P a [Suc i..<length xs] = Some (map_option ((+) (Suc i)) (index_of P (drop (Suc i) xs)))"
    using Suc by simp
  moreover have "drop i xs = xs ! i # drop (Suc i) xs" using i by (simp add: Cons_nth_drop_Suc)
  ultimately show ?case
    using i item_at_ok [OF assms i] by (cases "index_of P (drop (Suc i) xs)") (auto simp: upt_conv_Cons)
qed

lemma first_at_ok: "array_rep a xs \<Longrightarrow> first_at P a (indices a) = Some (index_of P xs)"
  using first_at_from [of a xs 0 P] rep_length [of a xs] by (cases "index_of P xs") auto

lemma for_items_from:
  assumes "array_rep a xs"
  shows "i \<le> length xs \<Longrightarrow> for_items f a [i..<length xs] s = fold_opt f (drop i xs) s"
proof (induction "length xs - i" arbitrary: i s)
  case 0
  then show ?case by simp
next
  case (Suc n)
  then have i: "i < length xs" by simp
  have "drop i xs = xs ! i # drop (Suc i) xs" using i by (simp add: Cons_nth_drop_Suc)
  moreover have "for_items f a [Suc i..<length xs] t = fold_opt f (drop (Suc i) xs) t" for t using Suc by simp
  ultimately show ?case using i item_at_ok [OF assms i] by (cases "f (xs ! i) s") (simp_all add: upt_conv_Cons)
qed

lemma for_items_ok: "array_rep a xs \<Longrightarrow> for_items f a (indices a) s = fold_opt f xs s"
  using for_items_from [of a xs 0 f s] rep_length [of a xs] by simp

text \<open>
  Pointers into an array stay readable while items are added: what a pointer reads afterwards is what it read before,
  or an item that was added.
\<close>

definition cells_kept :: "int set \<Rightarrow> int wmArray \<Rightarrow> int wmArray \<Rightarrow> bool" where
  "cells_kept S a a' \<longleftrightarrow> (\<forall>i p. item_at a i = Some p \<longrightarrow> (\<exists>q. item_at a' i = Some q \<and> (q = p \<or> q \<in> S)))"

lemma cells_kept_refl [simp]: "cells_kept S a a"
  by (simp add: cells_kept_def)

lemma cells_kept_trans: "cells_kept S a b \<Longrightarrow> cells_kept S b c \<Longrightarrow> cells_kept S a c"
  unfolding cells_kept_def by metis

lemma cells_kept_mono: "cells_kept S a b \<Longrightarrow> S \<subseteq> T \<Longrightarrow> cells_kept T a b"
  unfolding cells_kept_def by blast

lemma find_item_iff:
  "wmArray_find a n = Some (Some p) \<longleftrightarrow> page_size a \<noteq> 0 \<and> uint n sdiv uint (page_size a) < uint (page_num a) \<and>
     read_item a (uint n sdiv uint (page_size a)) (uint n smod uint (page_size a)) = Some p"
  by (simp add: wmArray_find_def wmArray_page_def wmArray_offset_def not_le)

lemma read_item_iff:
  "read_item a pg off = Some p \<longleftrightarrow> 0 \<le> pg \<and> 0 \<le> off \<and> (\<exists>xs. pages a (nat pg) = Some xs \<and> nat off < length xs \<and> xs ! nat off = p)"
  by (auto simp: read_item_def split: option.splits)

lemma same_cells: "pages b = pages a \<Longrightarrow> page_num b = page_num a \<Longrightarrow> page_size b = page_size a \<Longrightarrow> wmArray_find b n = wmArray_find a n"
  by (simp add: wmArray_find_def wmArray_page_def wmArray_offset_def read_item_def)

lemma clear_item_at [simp]: "item_at (wmArray_clear a) = item_at a"
  using same_cells [of "wmArray_clear a" a] by (simp add: fun_eq_iff item_at_def wmArray_clear_def)

lemma write_find:
  assumes "write_item a pg off x = Some a'" "wmArray_find a n = Some (Some p)"
  shows "\<exists>q. wmArray_find a' n = Some (Some q) \<and> (q = p \<or> q = x)"
proof -
  obtain xs where xs: "pages a (nat pg) = Some xs" "a' = a\<lparr>pages := (pages a)(nat pg \<mapsto> xs[nat off := x])\<rparr>"
    using assms(1) by (auto simp: write_item_def split: if_splits option.splits)
  have h: "xs[nat off := x] ! i = xs ! i \<or> xs[nat off := x] ! i = x" if "i < length xs" for i
    using that by (cases "nat off < length xs") (auto simp: nth_list_update)
  show ?thesis using assms(2) xs by (auto simp: find_item_iff read_item_iff dest: h)
qed

lemma extend_find:
  assumes "wf_array a" "wmArray_find a n = Some (Some p)"
  shows "wmArray_find (snd (wmArray_extend True z a)) n = Some (Some p)"
proof (cases "page_num a = WM_ARRAY_PAGE_MAX")
  case False
  have "unat (page_num a) < 2 ^ 16 - 1" using assms(1) by (simp add: wf_array_def)
  then have "unat (page_num a + 1) = unat (page_num a) + 1" by (simp add: unat_plus_if_size word_size)
  then have u: "uint (page_num a + 1) = uint (page_num a) + 1" by (simp only: uint_nat)
  have n: "pages a (unat (page_num a)) = None" using assms(1) by (auto simp: wf_array_def)
  show ?thesis using assms(2) False n
    unfolding find_item_iff read_item_iff by (auto simp: wmArray_extend_def u)
qed (use assms in \<open>simp add: wmArray_extend_def\<close>)

lemma add_pid_cells:
  assumes "wf_array a" "add_pid x a = Some a'"
  shows "cells_kept {x} a a'"
proof -
  have "\<exists>q. wmArray_find a' n = Some (Some q) \<and> (q = p \<or> q = x)" if f: "wmArray_find a n = Some (Some p)" for n p
  proof -
    define b where "b = a\<lparr>offset := offset a + 1\<rparr>"
    have wb: "wf_array b" using assms(1) by (simp add: wf_array_def b_def)
    have fb: "wmArray_find b n = Some (Some p)" using f same_cells [of b a] by (simp add: b_def)
    obtain page where page: "wmArray_page b (sint (offset a)) = Some page"
      using assms(2) unfolding add_pid_def wmArray_add_def Let_def b_def [symmetric] by (auto simp: bind_eq_Some_conv)
    define e where "e = (if uint (page_num b) \<le> page then wmArray_extend True 0 b else (True, b))"
    define d where "d = (snd e)\<lparr>item_num := item_num (snd e) + 1\<rparr>"
    have fe: "wmArray_find (snd e) n = Some (Some p)" using extend_find [OF wb fb, of 0] fb by (simp add: e_def)
    then have fd: "wmArray_find d n = Some (Some p)" using same_cells [of d "snd e"] by (simp add: d_def)
    have "a' = snd e \<or> (\<exists>off. write_item d page off x = Some a')"
      using assms(2) page unfolding add_pid_def wmArray_add_def Let_def b_def [symmetric]
      by (cases e) (auto simp: e_def [symmetric] d_def bind_eq_Some_conv split: if_splits)
    then show ?thesis using fe fd write_find by metis
  qed
  then show ?thesis unfolding cells_kept_def item_at_def by (fastforce simp: bind_eq_Some_conv)
qed

text \<open>Adding items one by one.\<close>

lemma add_pids_ok:
  assumes "array_rep a xs" "length xs + length (filter P ys) \<le> array_cap a"
  shows "\<exists>a'. fold_opt (\<lambda>p t. if P p then add_pid p t else Some t) ys a = Some a' \<and> array_rep a' (xs @ filter P ys) \<and> array_cap a' = array_cap a \<and>
    cells_kept (set (filter P ys)) a a'"
  using assms
proof (induction ys arbitrary: a xs)
  case (Cons y ys)
  show ?case
  proof (cases "P y")
    case True
    then obtain b where b: "add_pid y a = Some b" "array_rep b (xs @ [y])" "array_cap b = array_cap a"
      using add_pid_ok [OF Cons.prems(1), of y] Cons.prems(2) by auto
    have "wf_array a" using Cons.prems(1) by (simp add: array_rep_def)
    then have k: "cells_kept (set (filter P (y # ys))) a b" using add_pid_cells [OF _ b(1)] True cells_kept_mono by fastforce
    obtain c where c: "fold_opt (\<lambda>p t. if P p then add_pid p t else Some t) ys b = Some c" "array_rep c (xs @ filter P (y # ys))"
        "array_cap c = array_cap a" "cells_kept (set (filter P ys)) b c"
      using Cons.IH [OF b(2)] b(3) Cons.prems(2) True by auto
    have "cells_kept (set (filter P (y # ys))) b c" using c(4) by (rule cells_kept_mono) auto
    then show ?thesis using b(1) c(1-3) k True by (auto intro: cells_kept_trans)
  next
    case False
    then show ?thesis using Cons.IH [OF Cons.prems(1)] Cons.prems(2) by simp
  qed
qed simp

section \<open>The master as lists\<close>

text \<open>The arrays of process ids by worker, the list of processes to reload, and room for all of them.\<close>

definition pids_rep :: "int wmArray table \<Rightarrow> (u32 \<times> int list) list \<Rightarrow> bool" where
  "pids_rep t ps \<longleftrightarrow> table_ok t \<and> list_all2 (\<lambda>e p. fst e = fst p \<and> array_rep (snd e) (snd p)) t ps"

definition all_pids :: "(u32 \<times> int list) list \<Rightarrow> int list" where
  "all_pids ps = concat (map snd ps)"

definition master_rep :: "master \<Rightarrow> (u32 \<times> int list) list \<Rightarrow> int list \<Rightarrow> bool" where
  "master_rep m ps l \<longleftrightarrow> pids_rep (worker_pids m) ps \<and> array_rep (pidsToReload m) l \<and> (\<exists>t. array_rep (pid_array_tmp m) t) \<and>
     array_cap (pidsToReload m) = 65536 \<and> array_cap (pid_array_tmp m) = 65536 \<and>
     map fst (workers m) = map fst (worker_pids m) \<and> length (all_pids ps) \<le> 65536"

lemma master_repD:
  assumes "master_rep m ps l"
  shows "pids_rep (worker_pids m) ps" "array_rep (pidsToReload m) l" "\<exists>t. array_rep (pid_array_tmp m) t"
    "array_cap (pidsToReload m) = 65536" "array_cap (pid_array_tmp m) = 65536"
    "map fst (workers m) = map fst (worker_pids m)" "length (all_pids ps) \<le> 65536"
  using assms by (simp_all add: master_rep_def)

lemma pids_rep_keys: "pids_rep t ps \<Longrightarrow> map fst t = map fst ps"
  unfolding pids_rep_def by (auto simp: list_all2_conv_all_nth intro: nth_equalityI)

lemma pids_rep_distinct: "pids_rep t ps \<Longrightarrow> distinct (map fst ps)"
  using pids_rep_keys [of t ps] by (simp add: pids_rep_def table_ok_def)

lemma all_keys: "list_all2 (\<lambda>e p. fst e = fst p \<and> R (snd e) (snd p)) t ps \<Longrightarrow> (k, xs) \<in> set ps \<Longrightarrow> distinct (map fst ps) \<Longrightarrow>
    \<exists>a. map_of t k = Some a \<and> R a xs"
proof (induction t ps rule: list_all2_induct)
  case (Cons e es p ps)
  show ?case
  proof (cases "fst p = k")
    case True
    then have "p = (k, xs)" using Cons.prems by (cases p) (auto simp: image_iff)
    then show ?thesis using Cons.hyps(1) by (cases e) auto
  next
    case False
    then have "(k, xs) \<in> set ps" using Cons.prems(1) by auto
    then show ?thesis using Cons.IH Cons.prems(2) Cons.hyps(1) False by (cases e) auto
  qed
qed simp

lemma pids_get: "pids_rep t ps \<Longrightarrow> (k, xs) \<in> set ps \<Longrightarrow> \<exists>a. WM_HASH_GET t k = Some a \<and> array_rep a xs"
  using all_keys [of array_rep t ps k xs] pids_rep_distinct [of t ps] by (simp add: pids_rep_def WM_HASH_GET_def)

lemma table_set_keys [simp]: "map fst (table_set t k v) = map fst t"
  by (induction t) (auto simp: table_set_def)

lemma get_table_set: "WM_HASH_GET t k \<noteq> None \<Longrightarrow> WM_HASH_GET (table_set t k v) k = Some v"
  by (induction t) (auto simp: table_set_def WM_HASH_GET_def split: if_splits)

lemma get_table_set_other: "k' \<noteq> k \<Longrightarrow> WM_HASH_GET (table_set t k v) k' = WM_HASH_GET t k'"
  by (induction t) (auto simp: table_set_def WM_HASH_GET_def)

text \<open>Changing the list of one worker.\<close>

definition ps_set :: "(u32 \<times> int list) list \<Rightarrow> u32 \<Rightarrow> int list \<Rightarrow> (u32 \<times> int list) list" where
  "ps_set ps k xs = map (\<lambda>p. if fst p = k then (k, xs) else p) ps"

lemma pids_set:
  assumes "pids_rep t ps" "array_rep a xs"
  shows "pids_rep (table_set t k a) (ps_set ps k xs)"
proof -
  have "list_all2 (\<lambda>e p. fst e = fst p \<and> array_rep (snd e) (snd p)) (table_set t k a) (ps_set ps k xs)"
    using assms unfolding pids_rep_def table_set_def ps_set_def
    by (auto simp: list_all2_map1 list_all2_map2 elim!: list_all2_mono)
  then show ?thesis using assms(1) by (simp add: pids_rep_def table_ok_def)
qed

lemma pids_set_same: "(k, xs) \<in> set ps \<Longrightarrow> distinct (map fst ps) \<Longrightarrow> ps_set ps k xs = ps"
  unfolding ps_set_def by (rule map_idI) (auto dest: eq_key_imp_eq_value)

lemma ps_set_notin: "k \<notin> fst ` set ps \<Longrightarrow> ps_set ps k xs = ps"
  by (induction ps) (auto simp: ps_set_def)

lemma ps_set_mid: "distinct (map fst (pre @ (k, ys) # ps)) \<Longrightarrow> ps_set (pre @ (k, ys) # ps) k xs = pre @ (k, xs) # ps"
  using ps_set_notin [of k pre xs] ps_set_notin [of k ps xs] by (auto simp: ps_set_def)

section \<open>Forking\<close>

text \<open>The zeros of a list, replaced from the left.\<close>

fun fill :: "int list \<Rightarrow> int list \<Rightarrow> int list" where
  "fill [] qs = []"
| "fill (x # xs) qs = (if x = 0 then (case qs of [] \<Rightarrow> x # xs | q # qs \<Rightarrow> q # fill xs qs) else x # fill xs qs)"

definition zeros :: "int list \<Rightarrow> nat" where
  "zeros xs = length (filter (\<lambda>x. x = 0) xs)"

lemma zeros_simps [simp]: "zeros [] = 0" "zeros (x # xs) = (if x = 0 then Suc (zeros xs) else zeros xs)" "zeros (xs @ ys) = zeros xs + zeros ys"
  by (simp_all add: zeros_def)

lemma zeros_0: "zeros xs = 0 \<longleftrightarrow> 0 \<notin> set xs"
  by (induction xs) auto

lemma fill_step:
  assumes "index_of (\<lambda>p. p = 0) xs = Some i" "q \<noteq> 0"
  shows "fill xs (q # qs) = fill (xs[i := q]) qs" "zeros xs = Suc (zeros (xs[i := q]))"
  using assms by (induction xs arbitrary: i) (auto split: if_splits nat.splits)

lemma fill_full: "0 \<notin> set xs \<Longrightarrow> fill xs qs = xs"
  by (induction xs) auto

lemma fill_length [simp]: "length (fill xs qs) = length xs"
  by (induction xs qs rule: fill.induct) (auto split: list.split)

lemma fill_keeps: "i < length xs \<Longrightarrow> xs ! i \<noteq> 0 \<Longrightarrow> fill xs qs ! i = xs ! i"
  by (induction xs qs arbitrary: i rule: fill.induct) (auto simp: nth_Cons split: list.split nat.split)

lemma fill_mset:
  "length qs = zeros xs \<Longrightarrow> mset (fill xs qs) = mset (filter (\<lambda>x. x \<noteq> 0) xs) + mset qs"
  by (induction xs qs rule: fill.induct) (auto split: list.split)

text \<open>The slots of one worker.\<close>

lemma fork_slots_ok:
  assumes "WM_HASH_GET (worker_pids m) k = Some a" "array_rep a xs" "table_ok (worker_pids m)" "zeros xs = length qs"
    "forks m = map Parent qs @ fs" "\<forall>q \<in> set qs. 0 < q"
  shows "\<exists>a'. fork_slots k m = Some (False, m\<lparr>forks := fs, worker_pids := table_set (worker_pids m) k a'\<rparr>) \<and> array_rep a' (fill xs qs)"
  using assms
proof (induction qs arbitrary: m a xs)
  case Nil
  have "0 \<notin> set xs" using Nil.prems(4) by (simp add: zeros_0)
  then have "index_of (\<lambda>p. p = 0) xs = None" by (auto simp: index_of_None)
  then have "getKey_by_pid k 0 m = Some None"
    using Nil.prems(1) first_at_ok [OF Nil.prems(2), of "\<lambda>p. p = 0"] by (simp add: getKey_by_pid_def)
  then have "fork_slots k m = Some (False, m)" by (subst fork_slots.simps) simp
  moreover have "fill xs [] = xs" using \<open>0 \<notin> set xs\<close> by (simp add: fill_full)
  moreover have "table_set (worker_pids m) k a = worker_pids m"
    using Nil.prems(1,3) unfolding table_set_def WM_HASH_GET_def table_ok_def
    by (intro map_idI) (auto dest!: map_of_SomeD intro: eq_key_imp_eq_value)
  ultimately show ?case using Nil.prems(2,5) by (intro exI [of _ a]) simp
next
  case (Cons q qs)
  have "0 \<in> set xs" using Cons.prems(4) zeros_0 [of xs] by auto
  then obtain i where i: "index_of (\<lambda>p. p = 0) xs = Some i" using index_of_None [of "\<lambda>p. p = 0" xs] by auto
  have q: "0 < q" "q \<noteq> 0" using Cons.prems(6) by auto
  obtain b where b: "put_item i q a = Some b" "array_rep b (xs[i := q])"
    using put_item_ok [OF Cons.prems(2)] index_of_Some [OF i] by blast
  let ?m = "m\<lparr>forks := map Parent qs @ fs, worker_pids := table_set (worker_pids m) k b\<rparr>"
  have g: "WM_HASH_GET (table_set (worker_pids m) k b) k = Some b"
    using Cons.prems(1) by (simp add: get_table_set)
  have st: "fork_slots k m = fork_slots k ?m"
    using Cons.prems(1,5) first_at_ok [OF Cons.prems(2)] i b(1)
    by (subst fork_slots.simps) (simp add: getKey_by_pid_def forkOneWorker_def)
  have tt: "table_set (table_set (worker_pids m) k b) k c = table_set (worker_pids m) k c" for c
    by (auto simp: table_set_def)
  have to: "table_ok (table_set (worker_pids m) k b)" using Cons.prems(3) by (simp add: table_ok_def)
  have z: "zeros (xs[i := q]) = length qs" using fill_step(2) [OF i q(2)] Cons.prems(4) by simp
  have pos: "\<forall>q \<in> set qs. 0 < q" using Cons.prems(6) by simp
  obtain c where c: "fork_slots k ?m = Some (False, ?m\<lparr>forks := fs, worker_pids := table_set (worker_pids ?m) k c\<rparr>)"
    "array_rep c (fill (xs[i := q]) qs)"
    using Cons.IH [of ?m b "xs[i := q]"] g b(2) to z pos by (simp, blast)
  have "?m\<lparr>forks := fs, worker_pids := table_set (worker_pids ?m) k c\<rparr> = m\<lparr>forks := fs, worker_pids := table_set (worker_pids m) k c\<rparr>"
    using tt [of c] by simp
  then show ?case
    using c st fill_step(1) [OF i q(2), of qs] by (intro exI [of _ c]) simp
qed

text \<open>All workers.\<close>

fun fill_all :: "(u32 \<times> int list) list \<Rightarrow> int list \<Rightarrow> (u32 \<times> int list) list" where
  "fill_all [] qs = []"
| "fill_all ((k, xs) # ps) qs = (k, fill xs (take (zeros xs) qs)) # fill_all ps (drop (zeros xs) qs)"

lemma fill_all_keys [simp]: "map fst (fill_all ps qs) = map fst ps"
  by (induction ps qs rule: fill_all.induct) auto

lemma fill_all_length [simp]: "length (all_pids (fill_all ps qs)) = length (all_pids ps)"
  by (induction ps qs rule: fill_all.induct) (auto simp: all_pids_def)

lemma fill_all_full: "0 \<notin> set (all_pids ps) \<Longrightarrow> fill_all ps qs = ps"
  by (induction ps qs rule: fill_all.induct) (auto simp: all_pids_def fill_full)

lemma fill_all_mset:
  "length qs = zeros (all_pids ps) \<Longrightarrow> mset (all_pids (fill_all ps qs)) = mset (filter (\<lambda>x. x \<noteq> 0) (all_pids ps)) + mset qs"
proof (induction ps qs rule: fill_all.induct)
  case (2 k xs ps qs)
  let ?a = "take (zeros xs) qs" and ?b = "drop (zeros xs) qs"
  have l: "length ?a = zeros xs" "length ?b = zeros (all_pids ps)" using 2 (2) by (simp_all add: all_pids_def)
  have "mset qs = mset ?a + mset ?b" by (metis append_take_drop_id mset_append)
  then show ?case using 2 (1) [OF l(2)] fill_mset [OF l(1)] by (simp add: all_pids_def)
qed (simp add: all_pids_def)

lemma fork_each_ok:
  assumes "pids_rep (worker_pids m) (pre @ ps)" "forks m = map Parent qs @ fs" "length qs = zeros (all_pids ps)" "\<forall>q \<in> set qs. 0 < q"
  shows "\<exists>t. fork_each (map fst ps) m = Some (False, m\<lparr>forks := fs, worker_pids := t\<rparr>) \<and> pids_rep t (pre @ fill_all ps qs)"
  using assms
proof (induction ps arbitrary: m pre qs)
  case Nil
  then show ?case by (intro exI [of _ "worker_pids m"]) (simp add: all_pids_def)
next
  case (Cons p ps)
  obtain k xs where p: "p = (k, xs)" by (cases p)
  let ?a = "take (zeros xs) qs" and ?b = "drop (zeros xs) qs"
  have l: "length ?a = zeros xs" "length ?b = zeros (all_pids ps)" using Cons.prems(3) p by (simp_all add: all_pids_def)
  have pos: "\<forall>q \<in> set ?a. 0 < q" "\<forall>q \<in> set ?b. 0 < q" using Cons.prems(4) by (auto dest: in_set_takeD in_set_dropD)
  have qs: "map Parent qs @ fs = map Parent ?a @ (map Parent ?b @ fs)" by (metis append.assoc append_take_drop_id map_append)
  have d: "distinct (map fst (pre @ p # ps))" by (rule pids_rep_distinct [OF Cons.prems(1)])
  have "(k, xs) \<in> set (pre @ p # ps)" using p by simp
  from pids_get [OF Cons.prems(1) this] obtain a where a: "WM_HASH_GET (worker_pids m) k = Some a" "array_rep a xs" by auto
  have ok: "table_ok (worker_pids m)" using Cons.prems(1) by (simp add: pids_rep_def)
  have f: "forks m = map Parent ?a @ (map Parent ?b @ fs)" using Cons.prems(2) qs by simp
  obtain a' where a': "fork_slots k m = Some (False, m\<lparr>forks := map Parent ?b @ fs, worker_pids := table_set (worker_pids m) k a'\<rparr>)"
    "array_rep a' (fill xs ?a)"
    using fork_slots_ok [OF a ok l(1) [symmetric] f pos(1)] by auto
  let ?m = "m\<lparr>forks := map Parent ?b @ fs, worker_pids := table_set (worker_pids m) k a'\<rparr>"
  have "ps_set (pre @ p # ps) k (fill xs ?a) = (pre @ [(k, fill xs ?a)]) @ ps"
    using d p ps_set_mid [of pre k xs ps] by simp
  then have r: "pids_rep (worker_pids ?m) ((pre @ [(k, fill xs ?a)]) @ ps)" using pids_set [OF Cons.prems(1) a'(2), of k] by simp
  from Cons.IH [OF r _ l(2) pos(2)] obtain t where t: "fork_each (map fst ps) ?m = Some (False, ?m\<lparr>forks := fs, worker_pids := t\<rparr>)"
    "pids_rep t ((pre @ [(k, fill xs ?a)]) @ fill_all ps ?b)" by auto
  then show ?case using p a'(1) by (intro exI [of _ t]) simp
qed

lemma master_rep_keys: "master_rep m ps l \<Longrightarrow> map fst (workers m) = map fst ps"
  using master_repD(6) pids_rep_keys [OF master_repD(1)] by metis

lemma forkWorkers_ok:
  assumes "master_rep m ps l" "forks m = map Parent qs @ fs" "length qs = zeros (all_pids ps)" "\<forall>q \<in> set qs. 0 < q"
  shows "\<exists>t. forkWorkers m = Some (False, m\<lparr>forks := fs, worker_pids := t\<rparr>) \<and> pids_rep t (fill_all ps qs)"
  using fork_each_ok [of m "[]" ps qs fs] assms(2-4) master_repD(1) [OF assms(1)] master_rep_keys [OF assms(1)]
  by (simp add: forkWorkers_def)

lemma fork_none: "(\<And>k. k \<in> set ks \<Longrightarrow> getKey_by_pid k 0 m = Some None) \<Longrightarrow> fork_each ks m = Some (False, m)"
proof (induction ks)
  case (Cons k ks)
  then have "fork_slots k m = Some (False, m)" by (subst fork_slots.simps) simp
  then show ?case using Cons by simp
qed simp

text \<open>The index of a process, or of a free slot, in the list of a worker.\<close>

lemma getKey_ok: "pids_rep (worker_pids m) ps \<Longrightarrow> (k, xs) \<in> set ps \<Longrightarrow> getKey_by_pid k pid m = Some (index_of (\<lambda>p. p = pid) xs)"
  using pids_get [of "worker_pids m" ps k xs] first_at_ok [of _ xs "\<lambda>p. p = pid"] by (auto simp: getKey_by_pid_def)

lemma forkWorkers_none:
  assumes "master_rep m ps l" "0 \<notin> set (all_pids ps)"
  shows "forkWorkers m = Some (False, m)"
proof -
  have "getKey_by_pid k 0 m = Some None" if "k \<in> set (map fst ps)" for k
  proof -
    from that obtain xs where xs: "(k, xs) \<in> set ps" by auto
    then have "0 \<notin> set xs" using assms(2) by (force simp: all_pids_def)
    then show ?thesis using getKey_ok [OF master_repD(1) [OF assms(1)] xs, of 0] index_of_None [of "\<lambda>p. p = 0" xs] by auto
  qed
  then show ?thesis unfolding forkWorkers_def master_rep_keys [OF assms(1)] by (intro fork_none) auto
qed

section \<open>Reloading\<close>

definition may_reload :: "wmWorker table \<Rightarrow> u32 \<Rightarrow> bool" where
  "may_reload ws k = (case WM_HASH_GET ws k of None \<Rightarrow> False | Some w \<Rightarrow> reloadable w)"

text \<open>The processes that take part in a reload one by one, and the others, which get the signal at once.\<close>

definition rolling :: "wmWorker table \<Rightarrow> (u32 \<times> int list) list \<Rightarrow> int list" where
  "rolling ws ps = all_pids (filter (\<lambda>p. may_reload ws (fst p)) ps)"

definition at_once :: "wmWorker table \<Rightarrow> (u32 \<times> int list) list \<Rightarrow> (int \<times> signal) list" where
  "at_once ws ps = map (\<lambda>p. (p, SIGUSR1)) (all_pids (filter (\<lambda>p. \<not> may_reload ws (fst p)) ps))"

lemma kill_all: "fold_opt (\<lambda>p (r, m). Some (r, kill p s m)) xs (r, m) = Some (r, m\<lparr>sent := sent m @ map (\<lambda>p. (p, s)) xs\<rparr>)"
  by (induction xs arbitrary: m) (simp_all add: kill_def)

lemma collect_all: "fold_opt (\<lambda>p (r, m). map_option (\<lambda>r. (r, m)) (add_pid p r)) xs (r, m) =
    map_option (\<lambda>r. (r, m)) (fold_opt (\<lambda>p t. if True then add_pid p t else Some t) xs r)"
proof (induction xs arbitrary: r)
  case (Cons x xs)
  then show ?case by (cases "add_pid x r") simp_all
qed simp

lemma reloadable_pids_ok:
  assumes "list_all2 (\<lambda>e p. fst e = fst p \<and> array_rep (snd e) (snd p)) t ps" "fst ` set ps \<subseteq> fst ` set (workers m)" "array_rep r xs"
    "length xs + length (all_pids ps) \<le> array_cap r"
  shows "\<exists>r'. reloadable_pids t (r, m) = Some (r', m\<lparr>sent := sent m @ at_once (workers m) ps\<rparr>) \<and> array_rep r' (xs @ rolling (workers m) ps)"
  using assms
proof (induction t ps arbitrary: r xs m rule: list_all2_induct)
  case Nil
  then show ?case by (simp add: at_once_def rolling_def all_pids_def)
next
  case (Cons e es p ps)
  obtain k a where e: "e = (k, a)" by (cases e)
  obtain zs where p: "p = (k, zs)" "array_rep a zs" using Cons.hyps(1) e by (cases p) auto
  have "k \<in> fst ` set (workers m)" using Cons.prems(1) p by auto
  then obtain w where w: "WM_HASH_GET (workers m) k = Some w"
    by (auto simp: WM_HASH_GET_def) (metis map_of_eq_None_iff not_Some_eq fst_conv image_eqI)
  have len: "length xs + (length zs + length (all_pids ps)) \<le> array_cap r" using Cons.prems(3) p by (simp add: all_pids_def)
  have sub: "fst ` set ps \<subseteq> fst ` set (workers m)" using Cons.prems(1) by auto
  have mr: "may_reload (workers m) k = reloadable w" using w by (simp add: may_reload_def)
  show ?case
  proof (cases "reloadable w")
    case True
    obtain r1 where r1: "fold_opt (\<lambda>p t. if True then add_pid p t else Some t) zs r = Some r1" "array_rep r1 (xs @ zs)"
      "array_cap r1 = array_cap r"
      using add_pids_ok [OF Cons.prems(2), of "\<lambda>_. True" zs] len by auto
    have "reloadable_pids (e # es) (r, m) = reloadable_pids es (r1, m)"
      using e w True for_items_ok [OF p(2), of "\<lambda>p (r, m). map_option (\<lambda>r. (r, m)) (add_pid p r)" "(r, m)"] r1(1) collect_all [of zs r m] by simp
    moreover obtain r2 where "reloadable_pids es (r1, m) = Some (r2, m\<lparr>sent := sent m @ at_once (workers m) ps\<rparr>)"
      "array_rep r2 ((xs @ zs) @ rolling (workers m) ps)"
      using Cons.IH [OF sub r1(2)] len r1(3) by auto
    moreover have "at_once (workers m) (p # ps) = at_once (workers m) ps" "rolling (workers m) (p # ps) = zs @ rolling (workers m) ps"
      using p(1) mr True by (simp_all add: at_once_def rolling_def all_pids_def)
    ultimately show ?thesis by (intro exI [of _ r2]) simp
  next
    case False
    let ?m = "m\<lparr>sent := sent m @ map (\<lambda>p. (p, SIGUSR1)) zs\<rparr>"
    have "reloadable_pids (e # es) (r, m) = reloadable_pids es (r, ?m)"
      using e w False for_items_ok [OF p(2), of "\<lambda>p (r, m). Some (r, kill p SIGUSR1 m)" "(r, m)"] kill_all [of SIGUSR1 zs r m] by simp
    moreover obtain r2 where "reloadable_pids es (r, ?m) = Some (r2, ?m\<lparr>sent := sent ?m @ at_once (workers ?m) ps\<rparr>)"
      "array_rep r2 (xs @ rolling (workers ?m) ps)"
      using Cons.IH [of ?m, OF _ Cons.prems(2)] sub len by auto
    moreover have "at_once (workers m) (p # ps) = map (\<lambda>p. (p, SIGUSR1)) zs @ at_once (workers m) ps" "rolling (workers m) (p # ps) = rolling (workers m) ps"
      using p(1) mr False by (simp_all add: at_once_def rolling_def all_pids_def)
    ultimately show ?thesis by (intro exI [of _ r2]) simp
  qed
qed

lemma drop_gone_from:
  assumes "array_rep r ks"
  shows "i \<le> length l \<Longrightarrow> array_rep a l \<Longrightarrow>
    \<exists>a'. drop_gone r [i..<length l] a = Some a' \<and> array_rep a' (take i l @ map (\<lambda>p. if p \<in> set ks then p else 0) (drop i l)) \<and> array_cap a' = array_cap a"
proof (induction "length l - i" arbitrary: i a l)
  case 0
  then show ?case by simp
next
  case (Suc n)
  then have i: "i < length l" by simp
  let ?p = "l ! i"
  have up: "[i..<length l] = i # [Suc i..<length l]" using i by (simp add: upt_conv_Cons)
  have dr: "drop i l = ?p # drop (Suc i) l" using i by (simp add: Cons_nth_drop_Suc)
  have fo: "first_at (\<lambda>q. ?p = q) r (indices r) = Some (index_of (\<lambda>q. ?p = q) ks)" by (rule first_at_ok [OF assms])
  have in_ks: "index_of (\<lambda>q. ?p = q) ks = None \<longleftrightarrow> ?p \<notin> set ks" by (auto simp: index_of_None)
  show ?case
  proof (cases "?p \<in> set ks")
    case True
    have "drop_gone r [i..<length l] a = drop_gone r [Suc i..<length l] a"
      using True in_ks fo item_at_ok [OF Suc.prems(2) i] by (auto simp: up)
    moreover have "take (Suc i) l = take i l @ [?p]" using i by (simp add: take_Suc_conv_app_nth)
    ultimately show ?thesis using Suc.hyps(1) [of l "Suc i" a] Suc.hyps(2) Suc.prems i True dr by simp
  next
    case False
    obtain b where b: "put_item i 0 a = Some b" "array_rep b (l[i := 0])" "array_cap b = array_cap a"
      using put_item_ok [OF Suc.prems(2) i] by blast
    have "drop_gone r [i..<length l] a = drop_gone r [Suc i..<length (l[i := 0])] b"
      using False in_ks fo item_at_ok [OF Suc.prems(2) i] b(1) by (simp add: up)
    moreover have "take (Suc i) (l[i := 0]) = take i l @ [0]" "drop (Suc i) (l[i := 0]) = drop (Suc i) l"
      using i by (simp_all add: take_Suc_conv_app_nth)
    ultimately show ?thesis using Suc.hyps(1) [of "l[i := 0]" "Suc i" b] Suc.hyps(2) b i False dr by simp
  qed
qed

lemma drop_gone_ok: "array_rep r ks \<Longrightarrow> array_rep a l \<Longrightarrow>
    \<exists>a'. drop_gone r (indices a) a = Some a' \<and> array_rep a' (map (\<lambda>p. if p \<in> set ks then p else 0) l) \<and> array_cap a' = array_cap a"
  using drop_gone_from [of r ks 0 l a] rep_length [of a l] by simp

lemma new_pids: "\<exists>r. wmArray_new True (0 :: int) 64 = Some r \<and> array_rep r [] \<and> array_cap r = 65536"
  using array_new_ok [of 64 "0 :: int"] by simp

text \<open>What is left to reload, and the signal to the next one.\<close>

definition pend :: "int list \<Rightarrow> int list" where
  "pend l = filter (\<lambda>p. p \<noteq> 0) l"

definition next_one :: "int list \<Rightarrow> (int \<times> signal) list" where
  "next_one ps = map (\<lambda>p. (p, SIGUSR1)) (take 1 ps)"

lemma pend_first: "index_of (\<lambda>p. p \<noteq> 0) l = None \<Longrightarrow> pend l = []" "index_of (\<lambda>p. p \<noteq> 0) l = Some i \<Longrightarrow> take 1 (pend l) = [l ! i]"
  by (induction l arbitrary: i) (auto simp: pend_def split: if_splits)

lemma pend_map: "pend (map (\<lambda>p. if p \<in> S then p else 0) l) = filter (\<lambda>p. p \<in> S) (pend l)"
  by (induction l) (auto simp: pend_def)

lemma reload_master_ok:
  assumes "master_rep m ps l" "status m \<noteq> STATUS_SHUTDOWN"
  defines "left \<equiv> filter (\<lambda>p. p \<in> set (rolling (workers m) ps)) (pend l)"
  shows "\<exists>m' l'. reload_master m = Some m' \<and> master_rep m' ps l' \<and> pend l' = left \<and>
     status m' = (if left = [] then STATUS_RUNNING else STATUS_RELOADING) \<and>
     sent m' = sent m @ at_once (workers m) ps @ next_one left \<and>
     worker_pids m' = worker_pids m \<and> workers m' = workers m \<and> forks m' = forks m \<and> masterPid m' = masterPid m \<and> self_pid m' = self_pid m"
proof -
  note mr = master_repD [OF assms(1)]
  let ?m0 = "if status m \<noteq> STATUS_RELOADING \<and> status m \<noteq> STATUS_SHUTDOWN then m\<lparr>status := STATUS_RELOADING\<rparr> else m"
  have m0: "?m0 = m\<lparr>status := STATUS_RELOADING\<rparr>" using assms(2) by simp
  obtain r where r: "wmArray_new True (0 :: int) 64 = Some r" "array_rep r []" "array_cap r = 65536" using new_pids by blast
  have keys: "fst ` set ps \<subseteq> fst ` set (workers (m\<lparr>status := STATUS_RELOADING\<rparr>))"
    using arg_cong [OF master_rep_keys [OF assms(1)], of set] by simp
  have la: "list_all2 (\<lambda>e p. fst e = fst p \<and> array_rep (snd e) (snd p)) (worker_pids m) ps" using mr(1) by (simp add: pids_rep_def)
  obtain r' where r': "reloadable_pids (worker_pids m) (r, m\<lparr>status := STATUS_RELOADING\<rparr>) =
      Some (r', m\<lparr>status := STATUS_RELOADING, sent := sent m @ at_once (workers m) ps\<rparr>)" "array_rep r' (rolling (workers m) ps)"
    using reloadable_pids_ok [OF la keys r(2)] mr(7) r(3) by auto
  let ?l = "map (\<lambda>p. if p \<in> set (rolling (workers m) ps) then p else 0) l"
  obtain a where a: "drop_gone r' (indices (pidsToReload m)) (pidsToReload m) = Some a" "array_rep a ?l" "array_cap a = array_cap (pidsToReload m)"
    using drop_gone_ok [OF r'(2) mr(2)] by blast
  have pl: "pend ?l = left" by (simp add: pend_map left_def)
  have fa: "first_at (\<lambda>p. p \<noteq> 0) a (indices a) = Some (index_of (\<lambda>p. p \<noteq> 0) ?l)" by (rule first_at_ok [OF a(2)])
  let ?m1 = "m\<lparr>status := STATUS_RELOADING, sent := sent m @ at_once (workers m) ps, pidsToReload := a\<rparr>"
  show ?thesis
  proof (cases "index_of (\<lambda>p. p \<noteq> 0) ?l")
    case None
    have left: "left = []" using pend_first(1) [OF None] pl by simp
    let ?m' = "?m1\<lparr>status := STATUS_RUNNING\<rparr>"
    have e: "reload_master m = Some ?m'"
      unfolding reload_master_def Let_def m0 using r(1) r'(1) a(1) fa None by simp
    have "master_rep ?m' ps ?l" using assms(1) a(2,3) by (simp add: master_rep_def)
    then show ?thesis using e pl left by (intro exI [of _ ?m'] exI [of _ ?l]) (simp add: next_one_def)
  next
    case (Some i)
    have i: "i < length ?l" "?l ! i \<noteq> 0" using index_of_Some [OF Some] by blast+
    have it: "item_at a i = Some (?l ! i)" by (rule item_at_ok [OF a(2) i(1)])
    have t1: "take 1 left = [?l ! i]" using pend_first(2) [OF Some] pl by simp
    then have left: "left \<noteq> []" "next_one left = [(?l ! i, SIGUSR1)]" by (auto simp: next_one_def)
    let ?m' = "?m1\<lparr>sent := sent ?m1 @ [(?l ! i, SIGUSR1)], kill_timers := kill_timers m @ [In_reload i]\<rparr>"
    have e: "reload_master m = Some ?m'"
      unfolding reload_master_def Let_def m0 using r(1) r'(1) a(1) fa Some it by (simp add: kill_def)
    have "master_rep ?m' ps ?l" using assms(1) a(2,3) by (simp add: master_rep_def)
    then show ?thesis using e pl left by (intro exI [of _ ?m'] exI [of _ ?l]) simp
  qed
qed

section \<open>The end of a child\<close>

text \<open>
  The master while the server runs: every slot has a process, all are different, what is left to reload are
  processes of the server, and the list of the master is the list \<open>l\<close>.
\<close>

definition serving_list :: "master \<Rightarrow> (u32 \<times> int list) list \<Rightarrow> int list \<Rightarrow> bool" where
  "serving_list m ps l \<longleftrightarrow> master_rep m ps l \<and> (\<forall>p \<in> set (all_pids ps). 0 < p) \<and> distinct (all_pids ps) \<and> distinct (pend l) \<and>
     set (pend l) \<subseteq> set (rolling (workers m) ps) \<and> status m \<noteq> STATUS_SHUTDOWN \<and> masterPid m = self_pid m"

definition serving :: "master \<Rightarrow> (u32 \<times> int list) list \<Rightarrow> int list \<Rightarrow> bool" where
  "serving m ps qs \<longleftrightarrow> (\<exists>l. serving_list m ps l \<and> pend l = qs)"

lemma rolling_subset: "set (rolling ws ps) \<subseteq> set (all_pids ps)"
  by (auto simp: rolling_def all_pids_def)

lemma serving_listD:
  assumes "serving_list m ps l"
  shows "master_rep m ps l" "0 \<notin> set (all_pids ps)" "distinct (all_pids ps)" "status m \<noteq> STATUS_SHUTDOWN" "masterPid m = self_pid m"
  using assms by (auto simp: serving_list_def)

lemma index_of_eq_None: "index_of (\<lambda>p. p = x) xs = None \<longleftrightarrow> x \<notin> set xs"
  by (auto simp: index_of_None)

lemma clear_slot_none: "pids_rep (worker_pids m) ps \<Longrightarrow> (k, xs) \<in> set ps \<Longrightarrow> pid \<notin> set xs \<Longrightarrow> clear_slot pid k m = Some m"
  using pids_get [of "worker_pids m" ps k xs] first_at_ok [of _ xs "\<lambda>p. p = pid"] index_of_eq_None [of pid xs]
  by (auto simp: clear_slot_def)

lemma clear_slot_some:
  assumes "pids_rep (worker_pids m) ps" "(k, xs) \<in> set ps" "index_of (\<lambda>p. p = pid) xs = Some i"
  shows "\<exists>t. clear_slot pid k m = Some (m\<lparr>worker_pids := t\<rparr>) \<and> pids_rep t (ps_set ps k (xs[i := 0]))"
proof -
  obtain a where a: "WM_HASH_GET (worker_pids m) k = Some a" "array_rep a xs" using pids_get [OF assms(1,2)] by blast
  obtain b where b: "put_item i 0 a = Some b" "array_rep b (xs[i := 0])"
    using put_item_ok [OF a(2)] index_of_Some [OF assms(3)] by blast
  show ?thesis
    using a b first_at_ok [OF a(2), of "\<lambda>p. p = pid"] assms(3) pids_set [OF assms(1) b(2), of k]
    by (intro exI [of _ "table_set (worker_pids m) k b"]) (simp add: clear_slot_def)
qed

text \<open>The list of processes to reload without one of them.\<close>

lemma reload_next_none: "array_rep (pidsToReload m) l \<Longrightarrow> pid \<notin> set l \<Longrightarrow> reload_next pid m = Some m"
  using first_at_ok [of "pidsToReload m" l "\<lambda>p. p = pid"] index_of_eq_None [of pid l] by (simp add: reload_next_def)

lemma pend_without:
  assumes "index_of (\<lambda>p. p = pid) l = Some i" "pid \<noteq> 0" "distinct (pend l)"
  shows "pend (l[i := 0]) = filter (\<lambda>p. p \<noteq> pid) (pend l)"
  using assms
proof (induction l arbitrary: i)
  case (Cons x l)
  show ?case
  proof (cases "x = pid")
    case True
    then have "pid \<notin> set (pend l)" using Cons.prems(2,3) by (simp add: pend_def)
    then have "filter (\<lambda>p. p \<noteq> pid) (pend l) = pend l" by (intro filter_True) auto
    then show ?thesis using Cons.prems(1,2) True by (simp add: pend_def)
  next
    case False
    then obtain j where j: "index_of (\<lambda>p. p = pid) l = Some j" "i = Suc j" using Cons.prems(1) by auto
    have "distinct (pend l)" using Cons.prems(3) by (simp add: pend_def split: if_splits)
    then show ?thesis using Cons.IH [OF j(1) Cons.prems(2)] j(2) False by (simp add: pend_def)
  qed
qed simp

lemma reload_next_some:
  assumes "master_rep m ps l" "status m \<noteq> STATUS_SHUTDOWN" "masterPid m = self_pid m" "pid \<in> set l" "pid \<noteq> 0" "distinct (pend l)"
    "set (filter (\<lambda>p. p \<noteq> pid) (pend l)) \<subseteq> set (rolling (workers m) ps)"
  defines "left \<equiv> filter (\<lambda>p. p \<noteq> pid) (pend l)"
  shows "\<exists>m' l'. reload_next pid m = Some m' \<and> master_rep m' ps l' \<and> pend l' = left \<and>
     status m' = (if left = [] then STATUS_RUNNING else STATUS_RELOADING) \<and>
     sent m' = sent m @ at_once (workers m) ps @ next_one left \<and>
     worker_pids m' = worker_pids m \<and> workers m' = workers m \<and> forks m' = forks m \<and> masterPid m' = masterPid m \<and> self_pid m' = self_pid m"
proof -
  note mr = master_repD [OF assms(1)]
  obtain i where i: "index_of (\<lambda>p. p = pid) l = Some i" using assms(4) index_of_eq_None [of pid l] by auto
  obtain b where b: "put_item i 0 (pidsToReload m) = Some b" "array_rep b (l[i := 0])" "array_cap b = array_cap (pidsToReload m)"
    using put_item_ok [OF mr(2)] index_of_Some [OF i] by blast
  let ?m = "m\<lparr>pidsToReload := b\<rparr>"
  have r: "master_rep ?m ps (l[i := 0])" using assms(1) b(2,3) by (simp add: master_rep_def)
  have pw: "pend (l[i := 0]) = left" unfolding left_def by (rule pend_without [OF i assms(5,6)])
  have "filter (\<lambda>p. p \<in> set (rolling (workers ?m) ps)) (pend (l[i := 0])) = left"
    unfolding pw using assms(7) left_def by (intro filter_True) auto
  then have "\<exists>m' l'. reload_master ?m = Some m' \<and> master_rep m' ps l' \<and> pend l' = left \<and>
     status m' = (if left = [] then STATUS_RUNNING else STATUS_RELOADING) \<and>
     sent m' = sent m @ at_once (workers m) ps @ next_one left \<and>
     worker_pids m' = worker_pids m \<and> workers m' = workers m \<and> forks m' = forks m \<and> masterPid m' = masterPid m \<and> self_pid m' = self_pid m"
    using reload_master_ok [OF r] assms(2) by simp
  moreover have "reload_next pid m = reload_master ?m"
    using first_at_ok [OF mr(2), of "\<lambda>p. p = pid"] i b(1) assms(3) by (simp add: reload_next_def reload_def)
  ultimately show ?thesis by simp
qed

text \<open>A process is replaced by another.\<close>

definition repl :: "int \<Rightarrow> int \<Rightarrow> (u32 \<times> int list) list \<Rightarrow> (u32 \<times> int list) list" where
  "repl pid q ps = map (\<lambda>(k, xs). (k, map (\<lambda>p. if p = pid then q else p) xs)) ps"

lemma repl_keys [simp]: "map fst (repl pid q ps) = map fst ps"
  by (induction ps) (auto simp: repl_def)

lemma repl_pids: "all_pids (repl pid q ps) = map (\<lambda>p. if p = pid then q else p) (all_pids ps)"
  by (induction ps) (auto simp: repl_def all_pids_def)

lemma repl_filter: "filter (\<lambda>p. P (fst p)) (repl pid q ps) = repl pid q (filter (\<lambda>p. P (fst p)) ps)"
  by (induction ps) (auto simp: repl_def)

lemma repl_rolling: "rolling ws (repl pid q ps) = map (\<lambda>p. if p = pid then q else p) (rolling ws ps)"
  by (simp add: rolling_def repl_filter repl_pids)

lemma repl_other: "pid \<notin> set xs \<Longrightarrow> map (\<lambda>p. if p = pid then q else p) xs = xs"
  by (induction xs) auto

lemma rolling_parts: "set (rolling ws ps) \<inter> set (all_pids (filter (\<lambda>p. \<not> may_reload ws (fst p)) ps)) = {}" if "distinct (all_pids ps)"
  using that by (induction ps) (auto simp: rolling_def all_pids_def)

lemma repl_at_once:
  assumes "distinct (all_pids ps)" "pid \<in> set (rolling ws ps)"
  shows "at_once ws (repl pid q ps) = at_once ws ps"
proof -
  have "pid \<notin> set (all_pids (filter (\<lambda>p. \<not> may_reload ws (fst p)) ps))" using rolling_parts [OF assms(1)] assms(2) by auto
  then show ?thesis using repl_filter [of "\<lambda>k. \<not> may_reload ws k" pid q ps] by (simp add: at_once_def repl_pids repl_other)
qed

lemma repl_distinct: "distinct xs \<Longrightarrow> q \<notin> set xs \<Longrightarrow> distinct (map (\<lambda>p. if p = pid then q else p) xs)"
  by (induction xs) auto

lemma index_update: "distinct xs \<Longrightarrow> index_of (\<lambda>p. p = pid) xs = Some i \<Longrightarrow> xs[i := q] = map (\<lambda>p. if p = pid then q else p) xs"
proof (induction xs arbitrary: i)
  case (Cons x xs)
  then show ?case by (cases "x = pid") (auto simp: repl_other)
qed simp

lemma split_pids: "pid \<in> set (all_pids ps) \<Longrightarrow> \<exists>pre k xs suf. ps = pre @ (k, xs) # suf \<and> pid \<in> set xs"
  by (auto simp: all_pids_def) (metis split_list surj_pair snd_conv)

lemma repl_split:
  assumes "distinct (all_pids (pre @ (k, xs) # suf))" "index_of (\<lambda>p. p = pid) xs = Some i"
  shows "repl pid q (pre @ (k, xs) # suf) = pre @ (k, xs[i := q]) # suf" "pid \<notin> set (all_pids pre)" "pid \<notin> set (all_pids suf)"
proof -
  have x: "pid \<in> set xs" using index_of_Some [OF assms(2)] by auto
  have "distinct xs" "pid \<notin> set (all_pids pre)" "pid \<notin> set (all_pids suf)" using assms(1) x by (auto simp: all_pids_def)
  moreover have "repl pid q ps = ps" if "pid \<notin> set (all_pids ps)" for ps
    using that by (induction ps) (auto simp: repl_def all_pids_def repl_other)
  moreover have "repl pid q (pre @ (k, xs) # suf) = repl pid q pre @ (k, map (\<lambda>p. if p = pid then q else p) xs) # repl pid q suf"
    by (simp add: repl_def)
  ultimately show "repl pid q (pre @ (k, xs) # suf) = pre @ (k, xs[i := q]) # suf" "pid \<notin> set (all_pids pre)" "pid \<notin> set (all_pids suf)"
    using index_update [OF _ assms(2), of q] by simp_all
qed

text \<open>The turns of the loop over the workers.\<close>

lemma turn_idle:
  assumes "serving_list m ps l" "(k, xs) \<in> set ps" "pid \<notin> set xs" "pid \<notin> set l"
  shows "child_ended pid (k # ks) m = child_ended pid ks m"
  using clear_slot_none [OF master_repD(1) [OF serving_listD(1) [OF assms(1)]] assms(2,3)]
    forkWorkers_none [OF serving_listD(1,2) [OF assms(1)]] reload_next_none [OF master_repD(2) [OF serving_listD(1) [OF assms(1)]] assms(4)]
    serving_listD(4) [OF assms(1)] by simp

lemma turns_idle:
  assumes "serving_list m ps l" "pid \<notin> set l"
  shows "set qs \<subseteq> set ps \<Longrightarrow> pid \<notin> set (all_pids qs) \<Longrightarrow> child_ended pid (map fst qs @ ks) m = child_ended pid ks m"
proof (induction qs)
  case (Cons p qs)
  obtain k xs where p: "p = (k, xs)" by (cases p)
  have "child_ended pid (k # (map fst qs @ ks)) m = child_ended pid (map fst qs @ ks) m"
    using Cons.prems p by (intro turn_idle [OF assms(1) _ _ assms(2)]) (auto simp: all_pids_def)
  then show ?case using Cons p by (simp add: all_pids_def)
qed simp

lemma fill_one: "0 \<notin> set xs \<Longrightarrow> i < length xs \<Longrightarrow> fill (xs[i := 0]) [q] = xs[i := q]" "0 \<notin> set xs \<Longrightarrow> i < length xs \<Longrightarrow> zeros (xs[i := 0]) = 1"
proof (induction xs arbitrary: i)
  case (Cons x xs)
  { case 1 then show ?case using Cons.IH by (cases i) (auto simp: fill_full) }
  { case 2 then show ?case using Cons.IH zeros_0 [of xs] by (cases i) auto }
qed simp_all

lemma fill_all_one:
  assumes "0 \<notin> set (all_pids (pre @ (k, xs) # suf))" "i < length xs"
  shows "fill_all (pre @ (k, xs[i := 0]) # suf) [q] = pre @ (k, xs[i := q]) # suf" "zeros (all_pids (pre @ (k, xs[i := 0]) # suf)) = 1"
proof -
  have z: "0 \<notin> set xs" "0 \<notin> set (all_pids pre)" "0 \<notin> set (all_pids suf)" using assms(1) by (auto simp: all_pids_def)
  have "fill_all (pre @ rest) [q] = pre @ fill_all rest [q]" for rest
    using z(2) by (induction pre) (auto simp: all_pids_def fill_full zeros_0 [THEN iffD2])
  then show "fill_all (pre @ (k, xs[i := 0]) # suf) [q] = pre @ (k, xs[i := q]) # suf"
    using fill_one [OF z(1) assms(2)] fill_all_full [OF z(3)] by simp
  show "zeros (all_pids (pre @ (k, xs[i := 0]) # suf)) = 1"
    using fill_one(2) [OF z(1) assms(2)] z(2,3) zeros_0 [of "all_pids pre"] zeros_0 [of "all_pids suf"] by (simp add: all_pids_def)
qed

lemma turn_own:
  assumes "serving_list m (pre @ (k, xs) # suf) l" "index_of (\<lambda>p. p = pid) xs = Some i" "forks m = Parent q # fs" "0 < q"
  shows "\<exists>t. pids_rep t (pre @ (k, xs[i := q]) # suf) \<and>
     child_ended pid (k # ks) m = Option.bind (reload_next pid (m\<lparr>forks := fs, worker_pids := t\<rparr>)) (child_ended pid ks)"
proof -
  let ?ps = "pre @ (k, xs) # suf"
  note sl = serving_listD [OF assms(1)] and mr = master_repD [OF serving_listD(1) [OF assms(1)]]
  have d: "distinct (map fst ?ps)" by (rule pids_rep_distinct [OF mr(1)])
  have i: "i < length xs" using index_of_Some [OF assms(2)] by auto
  obtain t where t: "clear_slot pid k m = Some (m\<lparr>worker_pids := t\<rparr>)" "pids_rep t (pre @ (k, xs[i := 0]) # suf)"
    using clear_slot_some [OF mr(1) _ assms(2), of k] ps_set_mid [OF d] by auto
  let ?m = "m\<lparr>worker_pids := t\<rparr>"
  have "map fst t = map fst (worker_pids m)" using pids_rep_keys [OF t(2)] pids_rep_keys [OF mr(1)] by simp
  then have r: "master_rep ?m (pre @ (k, xs[i := 0]) # suf) l" using sl(1) t(2) by (simp add: master_rep_def all_pids_def)
  have z: "length [q] = zeros (all_pids (pre @ (k, xs[i := 0]) # suf))" using fill_all_one(2) [OF sl(2) i] by simp
  obtain t' where t': "forkWorkers ?m = Some (False, ?m\<lparr>forks := fs, worker_pids := t'\<rparr>)" "pids_rep t' (pre @ (k, xs[i := q]) # suf)"
    using forkWorkers_ok [OF r _ z] assms(3,4) fill_all_one(1) [OF sl(2) i, of q] by auto
  then show ?thesis using t(1) sl(4) by (intro exI [of _ t']) simp
qed

lemma zero_or_pend: "pid \<noteq> 0 \<Longrightarrow> pid \<in> set l \<longleftrightarrow> pid \<in> set (pend l)"
  by (simp add: pend_def)

text \<open>A process that is not to be reloaded ends.\<close>

lemma serving_repl:
  assumes "serving_list m ps l" "pid \<in> set (all_pids ps)" "pid \<notin> set l" "0 < q" "q \<notin> set (all_pids ps)" "pids_rep t (repl pid q ps)"
  shows "serving_list (m\<lparr>forks := fs, worker_pids := t\<rparr>) (repl pid q ps) l"
proof -
  have mr: "master_rep m ps l" using assms(1) by (simp add: serving_list_def)
  have "map fst t = map fst (worker_pids m)" using pids_rep_keys [OF assms(6)] pids_rep_keys [OF master_repD(1) [OF mr]] by simp
  then have "master_rep (m\<lparr>forks := fs, worker_pids := t\<rparr>) (repl pid q ps) l" using mr assms(6) by (simp add: master_rep_def repl_pids)
  moreover have "set (pend l) \<subseteq> set (rolling (workers m) (repl pid q ps))"
    using assms(1,3) unfolding repl_rolling serving_list_def by (auto simp: pend_def image_iff)
  moreover have "distinct (all_pids (repl pid q ps))" "\<forall>p \<in> set (all_pids (repl pid q ps)). 0 < p"
    using assms(1,4,5) repl_distinct [of "all_pids ps" q pid] unfolding repl_pids serving_list_def by auto
  ultimately show ?thesis using assms(1) by (simp add: serving_list_def)
qed

lemma loop_from:
  assumes sl: "serving_list m ps l" and ps: "ps = pre @ (k, xs) # suf" "pid \<in> set xs" and l: "pid \<notin> set l"
    and f: "forks m = Parent q # fs" and q: "0 < q" "q \<notin> set (all_pids ps)"
    and qs: "set qs \<subseteq> set pre"
  shows "\<exists>t. child_ended pid (map fst qs @ k # map fst suf) m = Some (False, m\<lparr>forks := fs, worker_pids := t\<rparr>) \<and>
     serving_list (m\<lparr>forks := fs, worker_pids := t\<rparr>) (repl pid q ps) l"
proof -
  obtain i where i: "index_of (\<lambda>p. p = pid) xs = Some i" using ps(2) index_of_eq_None [of pid xs] by auto
  have d: "distinct (all_pids (pre @ (k, xs) # suf))" using serving_listD(3) [OF sl] ps(1) by simp
  note rs = repl_split [OF d i]
  have pq: "pid \<notin> set (all_pids qs)" using rs(2) qs by (auto simp: all_pids_def)
  have pre: "child_ended pid (map fst qs @ k # map fst suf) m = child_ended pid (k # map fst suf) m"
    using qs by (intro turns_idle [OF sl l _ pq]) (auto simp: ps(1))
  obtain t where t: "pids_rep t (pre @ (k, xs[i := q]) # suf)"
    "child_ended pid (k # map fst suf) m = Option.bind (reload_next pid (m\<lparr>forks := fs, worker_pids := t\<rparr>)) (child_ended pid (map fst suf))"
    using turn_own [OF sl [unfolded ps(1)] i f q(1)] by blast
  have pa: "pid \<in> set (all_pids ps)" using ps by (auto simp: all_pids_def)
  let ?m = "m\<lparr>forks := fs, worker_pids := t\<rparr>"
  have s: "serving_list ?m (repl pid q ps) l"
    using t(1) rs(1) [of q] by (intro serving_repl [OF sl pa l q]) (simp add: ps(1))
  have "reload_next pid ?m = Some ?m" by (intro reload_next_none [OF _ l]) (simp add: master_repD(2) [OF serving_listD(1) [OF sl]])
  moreover have "child_ended pid (map fst suf @ []) ?m = child_ended pid [] ?m"
    by (rule turns_idle [OF s l]) (use rs in \<open>auto simp: ps(1)\<close>)
  ultimately show ?thesis using pre t(2) s by (intro exI [of _ t]) simp
qed

lemma after_reload_next:
  assumes "master_rep m ps l" "status m \<noteq> STATUS_SHUTDOWN" "masterPid m = self_pid m" "pid \<in> set l" "pid \<noteq> 0" "distinct (pend l)"
    "\<forall>p \<in> set (all_pids ps). 0 < p" "distinct (all_pids ps)"
    "set (filter (\<lambda>p. p \<noteq> pid) (pend l)) \<subseteq> set (rolling (workers m) ps)"
  defines "left \<equiv> filter (\<lambda>p. p \<noteq> pid) (pend l)"
  shows "\<exists>m' l'. reload_next pid m = Some m' \<and> serving_list m' ps l' \<and> pend l' = left \<and>
     status m' = (if left = [] then STATUS_RUNNING else STATUS_RELOADING) \<and>
     sent m' = sent m @ at_once (workers m) ps @ next_one left \<and> workers m' = workers m \<and> forks m' = forks m"
proof -
  obtain m' l' where r: "reload_next pid m = Some m'" "master_rep m' ps l'" "pend l' = left"
     "status m' = (if left = [] then STATUS_RUNNING else STATUS_RELOADING)"
     "sent m' = sent m @ at_once (workers m) ps @ next_one left" "workers m' = workers m" "forks m' = forks m"
     "masterPid m' = masterPid m" "self_pid m' = self_pid m"
    using reload_next_some [OF assms(1-6,9)] unfolding left_def by blast
  have "distinct left" using assms(6) by (simp add: left_def)
  then have "serving_list m' ps l'"
    using r(2-4,6,8,9) assms(3,7-9) by (simp add: serving_list_def left_def)
  then show ?thesis using r by blast
qed

lemma child_ended_reload:
  assumes sl: "serving_list m ps l" and pid: "pid \<in> set (all_pids ps)" "pid \<in> set l"
    and f: "forks m = Parent q # fs" and q: "0 < q" "q \<notin> set (all_pids ps)"
  defines "left \<equiv> filter (\<lambda>p. p \<noteq> pid) (pend l)"
  shows "\<exists>m' l'. child_ended pid (map fst ps) m = Some (False, m') \<and> serving_list m' (repl pid q ps) l' \<and> pend l' = left \<and>
     status m' = (if left = [] then STATUS_RUNNING else STATUS_RELOADING) \<and>
     sent m' = sent m @ at_once (workers m) ps @ next_one left \<and> workers m' = workers m \<and> forks m' = fs"
proof -
  obtain pre k xs suf where ps: "ps = pre @ (k, xs) # suf" "pid \<in> set xs" using split_pids [OF pid(1)] by blast
  obtain i where i: "index_of (\<lambda>p. p = pid) xs = Some i" using ps(2) index_of_eq_None [of pid xs] by auto
  note sd = serving_listD [OF sl]
  have p0: "pid \<noteq> 0" using sd(2) pid(1) by auto
  have dl: "distinct (pend l)" "set (pend l) \<subseteq> set (rolling (workers m) ps)" "\<forall>p \<in> set (all_pids ps). 0 < p"
    using sl by (auto simp: serving_list_def)
  have d: "distinct (all_pids (pre @ (k, xs) # suf))" using sd(3) ps(1) by simp
  note rs = repl_split [OF d i]
  have nl: "pid \<notin> set l'" if "pend l' = left" for l' using that zero_or_pend [OF p0, of l'] by (simp add: left_def)
  show ?thesis
  proof (cases pre)
    case Nil
    obtain t where t: "pids_rep t (pre @ (k, xs[i := q]) # suf)"
      "child_ended pid (k # map fst suf) m = Option.bind (reload_next pid (m\<lparr>forks := fs, worker_pids := t\<rparr>)) (child_ended pid (map fst suf))"
      using turn_own [OF sl [unfolded ps(1)] i f q(1)] by blast
    let ?m = "m\<lparr>forks := fs, worker_pids := t\<rparr>"
    have t': "pids_rep t (repl pid q ps)" using t(1) rs(1) ps(1) by simp
    have "map fst t = map fst (worker_pids m)" using pids_rep_keys [OF t'] pids_rep_keys [OF master_repD(1) [OF sd(1)]] by simp
    then have mr: "master_rep ?m (repl pid q ps) l" using sd(1) t' by (simp add: master_rep_def repl_pids)
    have pos: "\<forall>p \<in> set (all_pids (repl pid q ps)). 0 < p" using dl(3) q(1) by (auto simp: repl_pids)
    have di: "distinct (all_pids (repl pid q ps))" unfolding repl_pids by (rule repl_distinct [OF sd(3) q(2)])
    have sub: "set (filter (\<lambda>p. p \<noteq> pid) (pend l)) \<subseteq> set (rolling (workers ?m) (repl pid q ps))"
      using dl(2) by (auto simp: repl_rolling image_iff)
    have pr: "pid \<in> set (rolling (workers m) ps)" using dl(2) pid(2) zero_or_pend [OF p0] by auto
    obtain m' l' where m': "reload_next pid ?m = Some m'" "serving_list m' (repl pid q ps) l'" "pend l' = left"
      "status m' = (if left = [] then STATUS_RUNNING else STATUS_RELOADING)"
      "sent m' = sent ?m @ at_once (workers ?m) (repl pid q ps) @ next_one left" "workers m' = workers ?m" "forks m' = forks ?m"
      using after_reload_next [OF mr _ _ pid(2) p0 dl(1) pos di sub] sd(4,5) unfolding left_def by auto
    have "child_ended pid (map fst suf @ []) m' = child_ended pid [] m'"
      by (rule turns_idle [OF m'(2) nl [OF m'(3)]]) (use rs in \<open>auto simp: ps(1)\<close>)
    then show ?thesis using t(2) m' Nil ps(1) repl_at_once [OF sd(3) pr] by (intro exI [of _ m'] exI [of _ l']) simp
  next
    case (Cons p pre')
    obtain k0 x0 where p: "p = (k0, x0)" by (cases p)
    have x0: "(k0, x0) \<in> set ps" "pid \<notin> set x0" using rs(2) ps(1) Cons p by (auto simp: all_pids_def)
    obtain m' l' where m': "reload_next pid m = Some m'" "serving_list m' ps l'" "pend l' = left"
      "status m' = (if left = [] then STATUS_RUNNING else STATUS_RELOADING)"
      "sent m' = sent m @ at_once (workers m) ps @ next_one left" "workers m' = workers m" "forks m' = forks m"
      using after_reload_next [OF sd(1,4,5) pid(2) p0 dl(1,3) sd(3)] dl(2) unfolding left_def by auto
    have f': "forks m' = Parent q # fs" using m'(7) f by simp
    obtain t where t: "child_ended pid (map fst pre' @ k # map fst suf) m' = Some (False, m'\<lparr>forks := fs, worker_pids := t\<rparr>)"
      "serving_list (m'\<lparr>forks := fs, worker_pids := t\<rparr>) (repl pid q ps) l'"
      using loop_from [OF m'(2) ps nl [OF m'(3)] f' q, of pre'] Cons by auto
    have "child_ended pid (map fst ps) m = child_ended pid (map fst pre' @ k # map fst suf) m'"
      using clear_slot_none [OF master_repD(1) [OF sd(1)] x0] forkWorkers_none [OF sd(1,2)] m'(1) sd(4) ps(1) Cons p by simp
    then show ?thesis using t m'(3-6) by (intro exI [of _ "m'\<lparr>forks := fs, worker_pids := t\<rparr>"] exI [of _ l']) simp
  qed
qed

text \<open>One turn of the master.\<close>

lemma master_turn:
  assumes "serving m ps qs" "pid \<in> set (all_pids ps)" "forks m = Parent q # fs" "0 < q" "q \<notin> set (all_pids ps)"
  defines "left \<equiv> filter (\<lambda>p. p \<noteq> pid) qs"
  shows "\<exists>m'. monitor_step pid m = Some (Watching, m') \<and> serving m' (repl pid q ps) left \<and> forks m' = fs \<and> workers m' = workers m \<and>
     status m' = (if pid \<notin> set qs then status m else if left = [] then STATUS_RUNNING else STATUS_RELOADING) \<and>
     sent m' = sent m @ (if pid \<in> set qs then at_once (workers m) ps @ next_one left else [])"
proof -
  obtain l where l: "serving_list m ps l" "pend l = qs" using assms(1) by (auto simp: serving_def)
  note sd = serving_listD [OF l(1)]
  have p: "0 < pid" "pid \<noteq> 0" using l(1) assms(2) sd(2) by (auto simp: serving_list_def)
  have keys: "map fst (worker_pids m) = map fst ps" by (rule pids_rep_keys [OF master_repD(1) [OF sd(1)]])
  have step: "monitor_step pid m = Some (Watching, m')" if "child_ended pid (map fst ps) m = Some (False, m')" "serving_list m' ps' l'" for m' ps' l'
    using that serving_listD(4) [OF that(2)] p(1) keys by (simp add: monitor_step_def)
  show ?thesis
  proof (cases "pid \<in> set qs")
    case True
    then have "pid \<in> set l" using zero_or_pend [OF p(2), of l] l(2) by simp
    from child_ended_reload [OF l(1) assms(2) this assms(3-5)]
    obtain m' l' where m': "child_ended pid (map fst ps) m = Some (False, m')" "serving_list m' (repl pid q ps) l'" "pend l' = left"
      "status m' = (if left = [] then STATUS_RUNNING else STATUS_RELOADING)"
      "sent m' = sent m @ at_once (workers m) ps @ next_one left" "workers m' = workers m" "forks m' = fs"
      unfolding left_def l(2) by blast
    then show ?thesis using step [OF m'(1,2)] True by (intro exI [of _ m']) (auto simp: serving_def)
  next
    case False
    then have nl: "pid \<notin> set l" using zero_or_pend [OF p(2), of l] l(2) by simp
    obtain pre k xs suf where ps: "ps = pre @ (k, xs) # suf" "pid \<in> set xs" using split_pids [OF assms(2)] by blast
    obtain t where t: "child_ended pid (map fst ps) m = Some (False, m\<lparr>forks := fs, worker_pids := t\<rparr>)"
      "serving_list (m\<lparr>forks := fs, worker_pids := t\<rparr>) (repl pid q ps) l"
      using loop_from [OF l(1) ps nl assms(3-5), of pre] ps(1) by auto
    have "left = qs" using False unfolding left_def by (intro filter_True) auto
    then show ?thesis using step [OF t] t(2) l(2) False
      by (intro exI [of _ "m\<lparr>forks := fs, worker_pids := t\<rparr>"]) (auto simp: serving_def)
  qed
qed

section \<open>A rolling reload\<close>

definition all_reloadable :: "master \<Rightarrow> bool" where
  "all_reloadable m \<longleftrightarrow> (\<forall>k \<in> fst ` set (workers m). may_reload (workers m) k)"

lemma all_rolling:
  assumes "serving m ps qs" "all_reloadable m"
  shows "rolling (workers m) ps = all_pids ps" "at_once (workers m) ps = []"
proof -
  have "map fst (workers m) = map fst ps" using assms(1) master_rep_keys by (auto simp: serving_def serving_list_def)
  from arg_cong [OF this, of set] have "\<forall>p \<in> set ps. may_reload (workers m) (fst p)"
    using assms(2) by (auto simp: all_reloadable_def)
  then have "filter (\<lambda>p. may_reload (workers m) (fst p)) ps = ps" "filter (\<lambda>p. \<not> may_reload (workers m) (fst p)) ps = []"
    by (auto intro: filter_True)
  then show "rolling (workers m) ps = all_pids ps" "at_once (workers m) ps = []"
    by (simp_all add: rolling_def at_once_def all_pids_def)
qed

lemma watch_reload:
  assumes "serving m ps left" "all_reloadable m" "all_pids ps = old @ left" "forks m = map Parent qs @ fs" "length qs \<le> length left"
    "\<forall>q \<in> set qs. 0 < q" "distinct qs" "set qs \<inter> set (all_pids ps) = {}"
    "status m = (if left = [] then STATUS_RUNNING else STATUS_RELOADING)"
  shows "\<exists>m' ps'. watch_children (take (length qs) left) m = Some (Watching, m') \<and> serving m' ps' (drop (length qs) left) \<and>
     all_pids ps' = old @ qs @ drop (length qs) left \<and>
     sent m' = sent m @ map (\<lambda>p. (p, SIGUSR1)) (take (length qs) (drop 1 left)) \<and> forks m' = fs \<and>
     status m' = (if length qs = length left then STATUS_RUNNING else STATUS_RELOADING)"
  using assms
proof (induction qs arbitrary: m ps left old)
  case Nil
  then show ?case by auto
next
  case (Cons q qs)
  obtain p rest where lf: "left = p # rest" using Cons.prems(5) by (cases left) auto
  have d: "distinct (all_pids ps)" using Cons.prems(1) by (auto simp: serving_def serving_list_def)
  have p: "p \<notin> set old" "p \<notin> set rest" using d Cons.prems(3) lf by auto
  have q: "0 < q" "q \<notin> set (all_pids ps)" using Cons.prems(6,8) by auto
  have pid: "p \<in> set (all_pids ps)" using Cons.prems(3) lf by simp
  have fl: "filter (\<lambda>x. x \<noteq> p) left = rest" using lf p(2) by (auto intro: filter_True)
  obtain m1 where m1: "monitor_step p m = Some (Watching, m1)" "serving m1 (repl p q ps) rest" "forks m1 = map Parent qs @ fs" "workers m1 = workers m"
    "status m1 = (if rest = [] then STATUS_RUNNING else STATUS_RELOADING)" "sent m1 = sent m @ next_one rest"
    using master_turn [OF Cons.prems(1) pid, of q "map Parent qs @ fs"] Cons.prems(4) q all_rolling(2) [OF Cons.prems(1,2)] lf fl by auto
  have ap: "all_pids (repl p q ps) = (old @ [q]) @ rest"
    using p by (simp add: repl_pids Cons.prems(3) lf repl_other)
  have ar: "all_reloadable m1" using Cons.prems(2) m1(4) by (simp add: all_reloadable_def)
  have "set qs \<inter> set (all_pids (repl p q ps)) = {}" using Cons.prems(7,8) ap lf Cons.prems(3) by auto
  from Cons.IH [OF m1(2) ar ap m1(3) _ _ _ this m1(5)] Cons.prems(5-7) lf
  obtain m2 ps2 where m2: "watch_children (take (length qs) rest) m1 = Some (Watching, m2)" "serving m2 ps2 (drop (length qs) rest)"
    "all_pids ps2 = (old @ [q]) @ qs @ drop (length qs) rest"
    "sent m2 = sent m1 @ map (\<lambda>p. (p, SIGUSR1)) (take (length qs) (drop 1 rest))" "forks m2 = fs"
    "status m2 = (if length qs = length rest then STATUS_RUNNING else STATUS_RELOADING)" by auto
  have "sent m2 = sent m @ map (\<lambda>p. (p, SIGUSR1)) (take (length (q # qs)) (drop 1 left))"
    using m2(4) m1(6) lf by (cases rest) (simp_all add: next_one_def)
  then show ?case using m1(1) m2 lf by (intro exI [of _ m2] exI [of _ ps2]) simp
qed

text \<open>Collecting the processes.\<close>

lemma collect_ok:
  assumes "list_all2 (\<lambda>e p. fst e = fst p \<and> array_rep (snd e) (snd p)) t ps" "array_rep a xs" "length xs + length (all_pids ps) \<le> array_cap a"
  shows "\<exists>a'. collect (map snd t) a = Some a' \<and> array_rep a' (xs @ filter (\<lambda>p. 0 < p) (all_pids ps)) \<and> array_cap a' = array_cap a \<and>
    cells_kept (set (filter (\<lambda>p. 0 < p) (all_pids ps))) a a'"
  using assms
proof (induction t ps arbitrary: a xs rule: list_all2_induct)
  case (Cons e es p ps)
  obtain k zs where p: "p = (k, zs)" by (cases p)
  have e: "array_rep (snd e) zs" using Cons.hyps(1) p by simp
  have len: "length xs + (length zs + length (all_pids ps)) \<le> array_cap a" using Cons.prems(2) p by (simp add: all_pids_def)
  have fl: "length (filter (\<lambda>p. 0 < p) zs) \<le> length zs" by (rule length_filter_le)
  let ?S = "set (filter (\<lambda>p. 0 < p) (all_pids (p # ps)))"
  obtain b where b: "fold_opt (\<lambda>p t. if 0 < p then add_pid p t else Some t) zs a = Some b" "array_rep b (xs @ filter (\<lambda>p. 0 < p) zs)" "array_cap b = array_cap a"
    "cells_kept (set (filter (\<lambda>p. 0 < p) zs)) a b"
    using add_pids_ok [OF Cons.prems(1), of "\<lambda>p. 0 < p" zs] len fl by auto
  obtain c where c: "collect (map snd es) b = Some c" "array_rep c ((xs @ filter (\<lambda>p. 0 < p) zs) @ filter (\<lambda>p. 0 < p) (all_pids ps))" "array_cap c = array_cap b"
    "cells_kept (set (filter (\<lambda>p. 0 < p) (all_pids ps))) b c"
    using Cons.IH [OF b(2)] b(3) len fl by auto
  have "cells_kept ?S a b" "cells_kept ?S b c"
    using b(4) c(4) p by (auto elim!: cells_kept_mono simp: all_pids_def)
  then have "cells_kept ?S a c" by (rule cells_kept_trans)
  then show ?case using b c p for_items_ok [OF e, of "\<lambda>p t. if 0 < p then add_pid p t else Some t" a]
    by (intro exI [of _ c]) (simp add: all_pids_def)
qed (simp add: all_pids_def)

lemma getAllWorkerPids_ok:
  assumes "master_rep m ps l"
  shows "\<exists>t. getAllWorkerPids m = Some (m\<lparr>pid_array_tmp := t\<rparr>) \<and> array_rep t (filter (\<lambda>p. 0 < p) (all_pids ps)) \<and> array_cap t = 65536 \<and>
    cells_kept (set (filter (\<lambda>p. 0 < p) (all_pids ps))) (pid_array_tmp m) t"
proof -
  note mr = master_repD [OF assms]
  obtain t0 where t0: "array_rep (pid_array_tmp m) t0" using mr(3) by blast
  have c: "array_rep (wmArray_clear (pid_array_tmp m)) []" "array_cap (wmArray_clear (pid_array_tmp m)) = 65536"
    using av.clear_law [OF t0] mr(5) by auto
  have "list_all2 (\<lambda>e p. fst e = fst p \<and> array_rep (snd e) (snd p)) (worker_pids m) ps" using mr(1) by (simp add: pids_rep_def)
  from collect_ok [OF this c(1)] show ?thesis using c(2) mr(7) by (auto simp: getAllWorkerPids_def cells_kept_def)
qed

end
