(* ===== verification/Wm_Worker_Life.thy ===== *)
theory Wm_Worker_Life
  imports Wm_Worker_Run
begin

text \<open>
  The life of a server on top of \<open>Wm_Worker_Run\<close>: starting, the replacement of a process, a reload from
  the signal to the last exit, and stopping.
\<close>

section \<open>The reload signal\<close>

lemma copy_pids_from:
  assumes "array_rep t xs"
  shows "i \<le> length xs \<Longrightarrow> array_rep a l \<Longrightarrow> length l + (length xs - i) \<le> array_cap a \<Longrightarrow>
    \<exists>a'. copy_pids [i..<length xs] t a = Some a' \<and> array_rep a' (l @ drop i xs) \<and> array_cap a' = array_cap a"
proof (induction "length xs - i" arbitrary: i a l)
  case 0
  then show ?case by simp
next
  case (Suc n)
  then have i: "i < length xs" by simp
  have lt: "length l < array_cap a" using Suc.prems(3) i by linarith
  obtain b where b: "add_pid (xs ! i) a = Some b" "array_rep b (l @ [xs ! i])" "array_cap b = array_cap a"
    using add_pid_ok [OF Suc.prems(2) lt] by auto
  have n: "n = length xs - Suc i" using Suc.hyps(2) by linarith
  have le: "length (l @ [xs ! i]) + (length xs - Suc i) \<le> array_cap b" using Suc.prems(3) b(3) i by simp
  obtain c where "copy_pids [Suc i..<length xs] t b = Some c" "array_rep c ((l @ [xs ! i]) @ drop (Suc i) xs)" "array_cap c = array_cap b"
    using Suc.hyps(1) [OF n _ b(2)] i le by auto
  then show ?case using b i item_at_ok [OF assms i] Cons_nth_drop_Suc [OF i]
    by (intro exI [of _ c]) (simp add: upt_conv_Cons)
qed

lemma sigusr1_ok:
  assumes "serving m ps qs" "all_reloadable m"
  shows "\<exists>m'. signalHandler coros SIGUSR1 m = Some m' \<and> serving m' ps (all_pids ps) \<and> all_reloadable m' \<and> forks m' = forks m \<and>
     status m' = (if all_pids ps = [] then STATUS_RUNNING else STATUS_RELOADING) \<and> sent m' = sent m @ next_one (all_pids ps)"
proof -
  obtain l where l: "serving_list m ps l" using assms(1) by (auto simp: serving_def)
  note sd = serving_listD [OF l] and mr = master_repD [OF serving_listD(1) [OF l]]
  have pos: "\<forall>p \<in> set (all_pids ps). 0 < p" using l by (simp add: serving_list_def)
  then have fp: "filter (\<lambda>p. 0 < p) (all_pids ps) = all_pids ps" by (intro filter_True)
  obtain t where t: "getAllWorkerPids m = Some (m\<lparr>pid_array_tmp := t\<rparr>)" "array_rep t (all_pids ps)" "array_cap t = 65536"
    using getAllWorkerPids_ok [OF sd(1)] fp by auto
  have c: "array_rep (wmArray_clear (pidsToReload m)) []" "array_cap (wmArray_clear (pidsToReload m)) = 65536"
    using av.clear_law [OF mr(2)] mr(4) by auto
  obtain r where r: "copy_pids (indices t) t (wmArray_clear (pidsToReload m)) = Some r" "array_rep r (all_pids ps)" "array_cap r = 65536"
    using copy_pids_from [OF t(2) _ c(1), of 0] c(2) mr(7) rep_length [OF t(2)] by auto
  let ?m = "m\<lparr>pid_array_tmp := t, pidsToReload := r\<rparr>"
  have h: "signalHandler coros SIGUSR1 m = reload_master ?m"
    using t(1) r(1) sd(5) by (simp add: signalHandler_def reload_def)
  have m: "master_rep ?m ps (all_pids ps)" using sd(1) t(2,3) r(2,3) by (auto simp: master_rep_def)
  have pd: "pend (all_pids ps) = all_pids ps" using sd(2) unfolding pend_def by (intro filter_True) auto
  have ro: "rolling (workers m) ps = all_pids ps" "at_once (workers m) ps = []" by (rule all_rolling [OF assms])+
  have left: "filter (\<lambda>p. p \<in> set (rolling (workers ?m) ps)) (pend (all_pids ps)) = all_pids ps"
    using ro pd by (simp add: filter_True)
  obtain m' l' where m': "reload_master ?m = Some m'" "master_rep m' ps l'" "pend l' = all_pids ps"
     "status m' = (if all_pids ps = [] then STATUS_RUNNING else STATUS_RELOADING)"
     "sent m' = sent m @ next_one (all_pids ps)" "workers m' = workers m" "forks m' = forks m" "masterPid m' = masterPid m" "self_pid m' = self_pid m"
    using reload_master_ok [OF m] sd(4) unfolding left by (auto simp: ro)
  have "serving_list m' ps l'" using m' ro pos sd by (simp add: serving_list_def)
  then show ?thesis using h m' assms(2) by (intro exI [of _ m']) (auto simp: serving_def all_reloadable_def)
qed

section \<open>Stopping\<close>

lemma index_update0: "distinct (pend xs) \<Longrightarrow> pid \<noteq> 0 \<Longrightarrow> index_of (\<lambda>p. p = pid) xs = Some i \<Longrightarrow> xs[i := 0] = map (\<lambda>p. if p = pid then 0 else p) xs"
proof (induction xs arbitrary: i)
  case (Cons x xs)
  show ?case
  proof (cases "x = pid")
    case True
    then have "pid \<notin> set xs" using Cons.prems(1,2) by (auto simp: pend_def)
    then show ?thesis using Cons.prems(3) True by (simp add: repl_other)
  next
    case False
    then obtain j where j: "index_of (\<lambda>p. p = pid) xs = Some j" "i = Suc j" using Cons.prems(3) by auto
    have "distinct (pend xs)" using Cons.prems(1) by (simp add: pend_def split: if_splits)
    then show ?thesis using Cons.IH [OF _ Cons.prems(2) j(1)] j(2) False by simp
  qed
qed simp

lemma stop_turns:
  assumes "pids_rep (worker_pids m) (pre @ ps)" "status m = STATUS_SHUTDOWN" "pid \<noteq> 0" "\<forall>xs \<in> snd ` set ps. distinct (pend xs)"
  shows "\<exists>t. child_ended pid (map fst ps) m = Some (False, m\<lparr>worker_pids := t\<rparr>) \<and> pids_rep t (pre @ repl pid 0 ps)"
  using assms
proof (induction ps arbitrary: m pre)
  case Nil
  then show ?case by (intro exI [of _ "worker_pids m"]) (simp add: repl_def)
next
  case (Cons p ps)
  obtain k xs where p: "p = (k, xs)" by (cases p)
  let ?xs = "map (\<lambda>p. if p = pid then 0 else p) xs"
  have d: "distinct (map fst (pre @ (k, xs) # ps))" using pids_rep_distinct [OF Cons.prems(1)] p by simp
  obtain t where t: "clear_slot pid k m = Some (m\<lparr>worker_pids := t\<rparr>)" "pids_rep t ((pre @ [(k, ?xs)]) @ ps)"
  proof (cases "index_of (\<lambda>p. p = pid) xs")
    case None
    then have "pid \<notin> set xs" by (rule index_of_eq_None [THEN iffD1])
    then show thesis using that [of "worker_pids m"] clear_slot_none [OF Cons.prems(1), of k xs pid] p Cons.prems(1) by (simp add: repl_other)
  next
    case (Some i)
    have "distinct (pend xs)" using Cons.prems(4) p by simp
    from index_update0 [OF this Cons.prems(3) Some] have u: "xs[i := 0] = ?xs" .
    show thesis using clear_slot_some [OF Cons.prems(1) _ Some, of k] ps_set_mid [OF d, of ?xs] p u that by auto
  qed
  have "\<forall>xs \<in> snd ` set ps. distinct (pend xs)" using Cons.prems(4) by simp
  from Cons.IH [OF _ _ Cons.prems(3) this, of "m\<lparr>worker_pids := t\<rparr>" "pre @ [(k, ?xs)]"] t(2) Cons.prems(2)
  obtain t' where "child_ended pid (map fst ps) (m\<lparr>worker_pids := t\<rparr>) = Some (False, m\<lparr>worker_pids := t'\<rparr>)"
    "pids_rep t' ((pre @ [(k, ?xs)]) @ repl pid 0 ps)" by auto
  then show ?case using t(1) Cons.prems(2) p by (intro exI [of _ t']) (simp add: repl_def)
qed

definition stop_state :: "master \<Rightarrow> (u32 \<times> int list) list \<Rightarrow> bool" where
  "stop_state m ps \<longleftrightarrow> (\<exists>l. master_rep m ps l) \<and> status m = STATUS_SHUTDOWN \<and> (\<forall>p \<in> set (all_pids ps). 0 \<le> p) \<and> distinct (pend (all_pids ps))"

lemma pend_part: "(k, xs) \<in> set ps \<Longrightarrow> distinct (pend (all_pids ps)) \<Longrightarrow> distinct (pend xs)"
  by (induction ps) (auto simp: all_pids_def pend_def)

lemma pend_repl: "pid \<noteq> 0 \<Longrightarrow> pend (map (\<lambda>p. if p = pid then 0 else p) xs) = filter (\<lambda>p. p \<noteq> pid) (pend xs)"
  by (induction xs) (auto simp: pend_def)

lemma stop_turn:
  assumes "stop_state m ps" "0 < pid"
  defines "left \<equiv> filter (\<lambda>p. p \<noteq> pid) (pend (all_pids ps))"
  shows "\<exists>m'. monitor_step pid m = Some (if left = [] then All_stopped else Watching, m') \<and> stop_state m' (repl pid 0 ps) \<and>
     pend (all_pids (repl pid 0 ps)) = left \<and> forks m' = forks m \<and> sent m' = sent m \<and> exited m' = (left = [] \<or> exited m) \<and>
     kill_timers m' = kill_timers m \<and> array_rep (pid_array_tmp m') left \<and> cells_kept (set left) (pid_array_tmp m) (pid_array_tmp m')"
proof -
  obtain l where l: "master_rep m ps l" using assms(1) by (auto simp: stop_state_def)
  note mr = master_repD [OF l]
  have st: "status m = STATUS_SHUTDOWN" "\<forall>p \<in> set (all_pids ps). 0 \<le> p" "distinct (pend (all_pids ps))" using assms(1) by (auto simp: stop_state_def)
  have "\<forall>xs \<in> snd ` set ps. distinct (pend xs)" using pend_part [OF _ st(3)] by auto
  then obtain t where t: "child_ended pid (map fst ps) m = Some (False, m\<lparr>worker_pids := t\<rparr>)" "pids_rep t (repl pid 0 ps)"
    using stop_turns [of m "[]" ps pid] mr(1) st(1) assms(2) by auto
  let ?m = "m\<lparr>worker_pids := t\<rparr>"
  have keys: "map fst (worker_pids m) = map fst ps" by (rule pids_rep_keys [OF mr(1)])
  then have r: "master_rep ?m (repl pid 0 ps) l" using l t(2) pids_rep_keys [OF t(2)] by (simp add: master_rep_def repl_pids)
  obtain a where a: "getAllWorkerPids ?m = Some (?m\<lparr>pid_array_tmp := a\<rparr>)" "array_rep a (filter (\<lambda>p. 0 < p) (all_pids (repl pid 0 ps)))"
    "array_cap a = 65536" "cells_kept (set (filter (\<lambda>p. 0 < p) (all_pids (repl pid 0 ps)))) (pid_array_tmp m) a"
    using getAllWorkerPids_ok [OF r] by auto
  have pl: "pend (all_pids (repl pid 0 ps)) = left" unfolding repl_pids left_def using assms(2) by (intro pend_repl) simp
  have nn: "\<forall>p \<in> set (all_pids (repl pid 0 ps)). 0 \<le> p" using st(2) by (auto simp: repl_pids)
  have "filter (\<lambda>p. 0 < p) (all_pids (repl pid 0 ps)) = pend (all_pids (repl pid 0 ps))"
    unfolding pend_def using nn by (intro filter_cong) auto
  then have tl: "array_rep a left" "cells_kept (set left) (pid_array_tmp m) a" using a(2,4) pl by simp_all
  have len: "unat (offset a) = length left" by (rule rep_length [OF tl(1)])
  have off: "offset a = 0 \<longleftrightarrow> left = []" unfolding unat_eq_0 [symmetric] len by simp
  let ?m' = "?m\<lparr>pid_array_tmp := a\<rparr>"
  have r': "master_rep ?m' (repl pid 0 ps) l" using r a(2,3) by (auto simp: master_rep_def)
  have s: "stop_state ?m' (repl pid 0 ps)" "stop_state (?m'\<lparr>exited := True\<rparr>) (repl pid 0 ps)"
    using r' st(1,3) nn pl by (auto simp: stop_state_def master_rep_def left_def)
  have e: "monitor_step pid m = Some (if left = [] then (All_stopped, ?m'\<lparr>exited := True\<rparr>) else (Watching, ?m'))"
    using t(1) a(1) keys off st(1) assms(2) by (simp add: monitor_step_def)
  show ?thesis
  proof (cases "left = []")
    case True
    then show ?thesis using e s(2) pl tl by (intro exI [of _ "?m'\<lparr>exited := True\<rparr>"]) simp
  next
    case False
    then show ?thesis using e s(1) pl tl by (intro exI [of _ ?m']) simp
  qed
qed

lemma watch_stop:
  assumes "stop_state m ps" "set es \<subseteq> set (pend (all_pids ps))" "distinct es" "es \<noteq> [] \<or> pend (all_pids ps) \<noteq> []" "\<not> exited m"
  shows "\<exists>m'. watch_children es m = Some (if set es = set (pend (all_pids ps)) then All_stopped else Watching, m') \<and>
     exited m' = (set es = set (pend (all_pids ps))) \<and> forks m' = forks m \<and> sent m' = sent m"
  using assms
proof (induction es arbitrary: m ps)
  case Nil
  then have "set [] \<noteq> set (pend (all_pids ps))" by auto
  then show ?case using Nil(5) by simp
next
  case (Cons e es)
  let ?left = "filter (\<lambda>p. p \<noteq> e) (pend (all_pids ps))"
  have e: "e \<in> set (all_pids ps)" "e \<noteq> 0" using Cons.prems(2) by (auto simp: pend_def)
  then have pos: "0 < e" using Cons.prems(1) by (force simp: stop_state_def)
  obtain m1 where m1: "monitor_step e m = Some (if ?left = [] then All_stopped else Watching, m1)" "stop_state m1 (repl e 0 ps)"
    "pend (all_pids (repl e 0 ps)) = ?left" "forks m1 = forks m" "sent m1 = sent m" "exited m1 = (?left = [] \<or> exited m)"
    using stop_turn [OF Cons.prems(1) pos] by blast
  have sub: "set es \<subseteq> set ?left" using Cons.prems(2,3) by auto
  have eqs: "set (e # es) = set (pend (all_pids ps)) \<longleftrightarrow> set es = set ?left" using Cons.prems(2,3) by auto
  show ?case
  proof (cases "?left = []")
    case True
    then have "es = []" "set (e # es) = set (pend (all_pids ps))" using sub eqs by auto
    then show ?thesis using m1 True by simp
  next
    case False
    have "\<not> exited m1" using m1(6) False Cons.prems(5) by simp
    moreover have "set es \<subseteq> set (pend (all_pids (repl e 0 ps)))" using sub m1(3) by simp
    moreover have "es \<noteq> [] \<or> pend (all_pids (repl e 0 ps)) \<noteq> []" using False m1(3) by simp
    moreover have "distinct es" using Cons.prems(3) by simp
    ultimately obtain m2 where "watch_children es m1 = Some (if set es = set ?left then All_stopped else Watching, m2)"
      "exited m2 = (set es = set ?left)" "forks m2 = forks m1" "sent m2 = sent m1"
      using Cons.IH [OF m1(2)] m1(3) by auto
    then show ?thesis using m1 False unfolding eqs by (intro exI [of _ m2]) simp
  qed
qed

lemma stop_timers_from:
  assumes "array_rep a xs"
  shows "i \<le> length xs \<Longrightarrow> pid_array_tmp m = a \<Longrightarrow> stop_timers [i..<length xs] m =
    Some (m\<lparr>sent := sent m @ map (\<lambda>p. (p, SIGINT)) (drop i xs), kill_timers := kill_timers m @ map In_tmp [i..<length xs]\<rparr>)"
proof (induction "length xs - i" arbitrary: i m)
  case 0
  then show ?case by simp
next
  case (Suc n)
  then have i: "i < length xs" by simp
  let ?m = "kill (xs ! i) SIGINT m\<lparr>kill_timers := kill_timers m @ [In_tmp i]\<rparr>"
  have n: "n = length xs - Suc i" using Suc.hyps(2) by linarith
  have "pid_array_tmp ?m = a" using Suc.prems(2) by (simp add: kill_def)
  then have ts: "stop_timers [Suc i..<length xs] ?m =
      Some (?m\<lparr>sent := sent ?m @ map (\<lambda>p. (p, SIGINT)) (drop (Suc i) xs), kill_timers := kill_timers ?m @ map In_tmp [Suc i..<length xs]\<rparr>)"
    using Suc.hyps(1) [OF n, of ?m] i by auto
  have "stop_timers [i..<length xs] m = stop_timers [Suc i..<length xs] ?m"
    using i item_at_ok [OF assms i] Suc.prems(2) by (simp add: upt_conv_Cons kill_def)
  then show ?case using ts i by (simp add: kill_def upt_conv_Cons flip: Cons_nth_drop_Suc [OF i])
qed

lemma stopAll_ok:
  assumes "serving m ps qs"
  shows "\<exists>m'. signalHandler coros SIGINT m = Some m' \<and> stop_state m' ps \<and> pend (all_pids ps) = all_pids ps \<and> forks m' = forks m \<and>
     exited m' = exited m \<and> sent m' = sent m @ map (\<lambda>p. (p, SIGINT)) (all_pids ps) \<and>
     kill_timers m' = kill_timers m @ map In_tmp [0..<length (all_pids ps)] \<and> array_rep (pid_array_tmp m') (all_pids ps) \<and>
     serving (m'\<lparr>status := STATUS_RUNNING\<rparr>) ps qs"
proof -
  obtain l where l: "serving_list m ps l" "pend l = qs" using assms(1) by (auto simp: serving_def)
  note sd = serving_listD [OF l(1)]
  have pos: "\<forall>p \<in> set (all_pids ps). 0 < p" using l(1) by (simp add: serving_list_def)
  then have fp: "filter (\<lambda>p. 0 < p) (all_pids ps) = all_pids ps" "pend (all_pids ps) = all_pids ps"
    unfolding pend_def by (auto intro: filter_True)
  let ?m = "m\<lparr>status := STATUS_SHUTDOWN\<rparr>"
  have r: "master_rep ?m ps l" using sd(1) by (simp add: master_rep_def)
  obtain t where t: "getAllWorkerPids ?m = Some (?m\<lparr>pid_array_tmp := t\<rparr>)" "array_rep t (all_pids ps)" "array_cap t = 65536"
    using getAllWorkerPids_ok [OF r] fp(1) by auto
  let ?m1 = "?m\<lparr>pid_array_tmp := t\<rparr>"
  define ts where "ts = kill_timers m @ map In_tmp [0..<length (all_pids ps)]"
  have ts: "stop_timers (indices t) ?m1 = Some (?m1\<lparr>sent := sent ?m1 @ map (\<lambda>p. (p, SIGINT)) (all_pids ps), kill_timers := ts\<rparr>)"
    unfolding ts_def using stop_timers_from [OF t(2), of 0 ?m1] rep_length [OF t(2)] by auto
  let ?m2 = "?m1\<lparr>sent := sent ?m1 @ map (\<lambda>p. (p, SIGINT)) (all_pids ps), kill_timers := ts\<rparr>"
  have "master_rep ?m2 ps l" using r t(2,3) by (auto simp: master_rep_def)
  then have "stop_state ?m2 ps" "master_rep (?m2\<lparr>status := STATUS_RUNNING\<rparr>) ps l"
    using pos fp sd(3) by (auto simp: stop_state_def master_rep_def)
  moreover from this(2) have "serving (?m2\<lparr>status := STATUS_RUNNING\<rparr>) ps qs"
    using l unfolding serving_def serving_list_def by (intro exI [of _ l]) simp
  moreover have "signalHandler coros SIGINT m = Some ?m2"
    using t(1) ts sd(5) by (simp add: signalHandler_def wmWorker_stopAll_def)
  ultimately show ?thesis using fp(2) t(2) by (intro exI [of _ ?m2]) (simp add: ts_def)
qed

section \<open>Starting\<close>

definition counts :: "(u32 \<times> wmWorker) list \<Rightarrow> nat list" where
  "counts ws = map (\<lambda>e. nat (max 1 (worker_count (snd e)))) ws"

fun cut :: "nat list \<Rightarrow> 'a list \<Rightarrow> 'a list list" where
  "cut [] xs = []"
| "cut (n # ns) xs = take n xs # cut ns (drop n xs)"

lemma cut_concat: "length xs = sum_list ns \<Longrightarrow> concat (cut ns xs) = xs"
  by (induction ns xs rule: cut.induct) auto

lemma cut_length: "length (cut ns xs) = length ns"
  by (induction ns xs rule: cut.induct) auto

lemma add_zeros:
  assumes "array_rep a xs" "length xs + length is \<le> array_cap a"
  shows "\<exists>a'. fold (\<lambda>_ a. Option.bind a (add_pid 0)) is (Some a) = Some a' \<and> array_rep a' (xs @ replicate (length is) 0)"
  using assms
proof (induction "is" arbitrary: a xs)
  case (Cons i "is")
  have lt: "length xs < array_cap a" using Cons.prems(2) by simp
  obtain b where b: "add_pid 0 a = Some b" "array_rep b (xs @ [0])" "array_cap b = array_cap a"
    using add_pid_ok [OF Cons.prems(1) lt] by blast
  show ?case using Cons.IH [OF b(2)] b(1,3) Cons.prems(2) by auto
qed simp

definition zero_lists :: "(u32 \<times> wmWorker) list \<Rightarrow> (u32 \<times> int list) list" where
  "zero_lists ws = map (\<lambda>(k, w). (k, replicate (nat (max 1 (worker_count w))) 0)) ws"

lemma init_pids_ok:
  assumes "pids_rep (worker_pids m) ps" "distinct (map fst ps @ map fst ws)" "\<forall>n \<in> set (counts ws). n \<le> 65536"
  shows "\<exists>t u. init_pids ws m = Some (m\<lparr>workers := u, worker_pids := t\<rparr>) \<and> pids_rep t (ps @ zero_lists ws) \<and> map fst u = map fst (workers m)"
  using assms
proof (induction ws arbitrary: m ps)
  case Nil
  then show ?case by (intro exI [of _ "worker_pids m"] exI [of _ "workers m"]) (simp add: zero_lists_def)
next
  case (Cons e ws)
  obtain k w where e: "e = (k, w)" by (cases e)
  let ?n = "if worker_count w < 1 then 1 else worker_count w"
  have n: "nat ?n = nat (max 1 (worker_count w))" by (simp add: max_def)
  have cap: "nat ?n \<le> 65536" using Cons.prems(3) e n by (simp add: counts_def)
  obtain r where r: "wmArray_new True (0 :: int) 64 = Some r" "array_rep r []" "array_cap r = 65536" using new_pids by blast
  obtain a where a: "fold (\<lambda>_ a. Option.bind a (add_pid 0)) [0..<nat ?n] (Some r) = Some a" "array_rep a (replicate (nat ?n) 0)"
    using add_zeros [OF r(2), of "[0..<nat ?n]"] r(3) cap by auto
  let ?m = "m\<lparr>workers := table_set (workers m) k (w\<lparr>worker_count := ?n\<rparr>)\<rparr>"
  have k: "k \<notin> fst ` set (worker_pids m)" using Cons.prems(2) e arg_cong [OF pids_rep_keys [OF Cons.prems(1)], of set] by auto
  then have get: "map_of (worker_pids m) k = None" by (simp add: map_of_eq_None_iff)
  let ?t = "worker_pids m @ [(k, a)]"
  have add: "WM_HASH_ADD (worker_pids ?m) k a = (True, ?t)" using get by (simp add: WM_HASH_ADD_def)
  have rep: "pids_rep ?t (ps @ [(k, replicate (nat ?n) 0)])"
    using Cons.prems(1) a(2) k by (simp add: pids_rep_def table_ok_def list_all2_appendI)
  have d: "distinct (map fst (ps @ [(k, replicate (nat ?n) (0 :: int))]) @ map fst ws)" using Cons.prems(2) e by auto
  have cs: "\<forall>n \<in> set (counts ws). n \<le> 65536" using Cons.prems(3) by (simp add: counts_def)
  obtain t u where t: "init_pids ws (?m\<lparr>worker_pids := ?t\<rparr>) = Some (?m\<lparr>worker_pids := ?t, workers := u, worker_pids := t\<rparr>)"
    "pids_rep t ((ps @ [(k, replicate (nat ?n) 0)]) @ zero_lists ws)" "map fst u = map fst (workers ?m)"
    using Cons.IH [of "?m\<lparr>worker_pids := ?t\<rparr>", OF _ d cs] rep by auto
  have s: "init_pids (e # ws) m = init_pids ws (?m\<lparr>worker_pids := ?t\<rparr>)"
    using e r(1) a(1) add by (simp add: Let_def)
  have z: "(ps @ [(k, replicate (nat ?n) 0)]) @ zero_lists ws = ps @ zero_lists (e # ws)" using e n by (simp add: zero_lists_def)
  show ?case using s t(1,3) t(2) [unfolded z] by (intro exI [of _ t] exI [of _ u]) simp
qed

lemma fill_zeros: "length qs = n \<Longrightarrow> fill (replicate n 0) qs = qs"
  by (induction n arbitrary: qs) (auto simp: length_Suc_conv)

lemma zeros_replicate: "zeros (replicate n 0) = n"
  by (induction n) auto

lemma zeros_zero_lists: "zeros (all_pids (zero_lists ws)) = sum_list (counts ws)"
proof (induction ws)
  case (Cons e ws)
  then show ?case by (cases e) (simp add: zero_lists_def counts_def all_pids_def zeros_replicate)
qed (simp add: zero_lists_def counts_def all_pids_def)

lemma length_zero_lists: "length (all_pids (zero_lists ws)) = sum_list (counts ws)"
proof (induction ws)
  case (Cons e ws)
  then show ?case by (cases e) (simp add: zero_lists_def counts_def all_pids_def)
qed (simp add: zero_lists_def counts_def all_pids_def)

lemma fill_zero_lists: "length qs = sum_list (counts ws) \<Longrightarrow> fill_all (zero_lists ws) qs = zip (map fst ws) (cut (counts ws) qs)"
proof (induction ws arbitrary: qs)
  case (Cons e ws)
  obtain k w where e: "e = (k, w)" by (cases e)
  let ?n = "nat (max 1 (worker_count w))"
  have c: "counts (e # ws) = ?n # counts ws" by (simp add: counts_def e)
  have z: "zero_lists (e # ws) = (k, replicate ?n 0) # zero_lists ws" by (simp add: zero_lists_def e)
  have l: "length (drop ?n qs) = sum_list (counts ws)" "length (take ?n qs) = ?n" using Cons.prems c by auto
  show ?case unfolding c z using Cons.IH [OF l(1)] fill_zeros [OF l(2)] by (simp add: e zeros_replicate)
qed (simp add: zero_lists_def counts_def)

lemma cut_pids: "length qs = sum_list (counts ws) \<Longrightarrow> all_pids (zip (map fst ws) (cut (counts ws) qs)) = qs"
  using cut_concat [of qs "counts ws"] cut_length [of "counts ws" qs] by (simp add: all_pids_def map_snd_zip counts_def)

lemma server_start:
  assumes "table_ok (workers m)" "worker_pids m = []" "array_rep (pidsToReload m) []" "array_rep (pid_array_tmp m) []"
    "array_cap (pidsToReload m) = 65536" "array_cap (pid_array_tmp m) = 65536" "status m = STATUS_STARTING"
    "forks m = map Parent qs @ fs" "length qs = sum_list (counts (workers m))" "length qs \<le> 65536" "\<forall>q \<in> set qs. 0 < q" "distinct qs"
  shows "\<exists>m1 m2. initWorkerPids m = Some m1 \<and> self_pid m1 = self_pid m \<and> forkWorkers (m1\<lparr>self_pid := s, masterPid := s\<rparr>) = Some (False, m2) \<and>
     serving m2 (zip (map fst (workers m)) (cut (counts (workers m)) qs)) [] \<and> forks m2 = fs \<and> sent m2 = sent m \<and> exited m2 = exited m"
proof -
  let ?ws = "workers m"
  have c: "n \<le> 65536" if "n \<in> set (counts ?ws)" for n using member_le_sum_list [OF that] assms(9,10) by linarith
  have p0: "pids_rep (worker_pids m) []" using assms(2) by (simp add: pids_rep_def table_ok_def)
  obtain t u where t: "initWorkerPids m = Some (m\<lparr>workers := u, worker_pids := t\<rparr>)" "pids_rep t (zero_lists ?ws)" "map fst u = map fst ?ws"
    using init_pids_ok [OF p0, of ?ws] assms(1) c by (auto simp: initWorkerPids_def table_ok_def)
  let ?m1 = "m\<lparr>workers := u, worker_pids := t\<rparr>"
  let ?m2 = "?m1\<lparr>self_pid := s, masterPid := s\<rparr>"
  have zk: "map fst (zero_lists ?ws) = map fst ?ws" by (auto simp: zero_lists_def)
  then have keys: "map fst u = map fst t" using t(3) pids_rep_keys [OF t(2)] by simp
  have r: "master_rep ?m2 (zero_lists ?ws) []"
    using t(2) assms(3-6,9,10) keys length_zero_lists [of ?ws] by (auto simp: master_rep_def)
  have z: "length qs = zeros (all_pids (zero_lists ?ws))" by (simp add: zeros_zero_lists assms(9))
  let ?ps = "zip (map fst ?ws) (cut (counts ?ws) qs)"
  obtain t' where t': "forkWorkers ?m2 = Some (False, ?m2\<lparr>forks := fs, worker_pids := t'\<rparr>)" "pids_rep t' ?ps"
    using forkWorkers_ok [OF r _ z assms(11)] assms(8) fill_zero_lists [OF assms(9)] by auto
  let ?m3 = "?m2\<lparr>forks := fs, worker_pids := t'\<rparr>"
  have ap: "all_pids ?ps = qs" by (rule cut_pids [OF assms(9)])
  have "map fst t' = map fst ?ws"
    using pids_rep_keys [OF t'(2)] cut_length [of "counts ?ws" qs] by (simp add: counts_def)
  then have "master_rep ?m3 ?ps []" using r t'(2) t(3) ap assms(10) by (simp add: master_rep_def)
  then have "serving_list ?m3 ?ps []" using ap assms(7,11,12) by (simp add: serving_list_def pend_def)
  then have "serving ?m3 ?ps []" unfolding serving_def by (intro exI [of _ "[]"]) (simp add: pend_def)
  then show ?thesis using t(1) t'(1) by (intro exI [of _ ?m1] exI [of _ ?m3]) simp
qed

section \<open>A small server\<close>

definition small_array :: "int list \<Rightarrow> int wmArray" where
  "small_array xs = \<lparr>pages = [0 \<mapsto> xs @ replicate (64 - length xs) 0], page_num = 1, page_size = 64, item_num = of_nat (length xs), offset = of_nat (length xs)\<rparr>"

lemma small_array_rep: "length xs \<le> 64 \<Longrightarrow> array_rep (small_array xs) xs" "array_cap (small_array xs) = 65536"
proof -
  show "array_cap (small_array xs) = 65536" by (simp add: array_cap_def small_array_def)
  assume l: "length xs \<le> 64"
  have "wf_array (small_array xs)" using l by (auto simp: wf_array_def small_array_def)
  then show "array_rep (small_array xs) xs"
    using l by (auto simp: array_rep_def small_array_def item_def unat_of_nat32 nth_append)
qed

definition small_worker :: "u32 \<Rightarrow> int \<Rightarrow> wmWorker" where
  "small_worker k n = \<lparr>workerId = k, worker_no = 0, worker_fd = 0, worker_status = STATUS_STARTING, worker_transport = Some WM_SOCK_TCP,
     worker_host = [], worker_port = 80, worker_count = n, stopping = False, reloadable = True, reusePort = True, listening = True\<rparr>"

definition small_server :: "(u32 \<times> int wmArray) list \<Rightarrow> worker_status \<Rightarrow> fork_answer list \<Rightarrow> master" where
  "small_server ps st fs = \<lparr>workers = [(0, small_worker 0 2), (1, small_worker 1 1)], worker_pids = ps, pid_array_tmp = small_array [],
     pidsToReload = small_array [], status = st, masterPid = 9, self_pid = 9, main_worker = None, last_worker_id = 2, reload_coro_num = 2,
     kill_timers = [], sent = [], forks = fs, exited = False\<rparr>"

definition small_pids :: "(u32 \<times> int list) list" where
  "small_pids = [(0, [10, 11]), (1, [20])]"

definition running_server :: "fork_answer list \<Rightarrow> master" where
  "running_server fs = small_server [(0, small_array [10, 11]), (1, small_array [20])] STATUS_RUNNING fs"

lemma running_server_serving: "serving (running_server fs) small_pids []"
proof -
  have a: "\<exists>t. array_rep (small_array []) t" using small_array_rep(1) [of "[]"] by auto
  have "master_rep (running_server fs) small_pids []"
    using a by (auto simp: master_rep_def running_server_def small_server_def small_pids_def pids_rep_def table_ok_def small_array_rep all_pids_def)
  then have "serving_list (running_server fs) small_pids []"
    by (auto simp: serving_list_def small_pids_def all_pids_def pend_def running_server_def small_server_def)
  then show ?thesis unfolding serving_def by (intro exI [of _ "[]"]) (simp add: pend_def)
qed

lemma running_server_reloadable: "all_reloadable (running_server fs)"
  by (auto simp: all_reloadable_def may_reload_def running_server_def small_server_def small_worker_def WM_HASH_GET_def)

lemma running_server_simps: "all_pids small_pids = [10, 11, 20]" "forks (running_server fs) = fs" "sent (running_server fs) = []"
    "status (running_server fs) = STATUS_RUNNING" "exited (running_server fs) = False"
  by (simp_all add: small_pids_def all_pids_def running_server_def small_server_def)

section \<open>Properties\<close>

text \<open>
  C20: starting. With workers that ask for certain numbers of processes (at least one each) and a kernel that
  serves every fork, the loops of \<open>initWorkerPids\<close> and \<open>forkWorkers\<close> end, exactly that many
  processes are forked, and the slots of the workers hold them in the order of the forks.
\<close>

theorem worker_start:
  assumes "table_ok (workers m)" "worker_pids m = []" "array_rep (pidsToReload m) []" "array_rep (pid_array_tmp m) []"
    "array_cap (pidsToReload m) = 65536" "array_cap (pid_array_tmp m) = 65536" "status m = STATUS_STARTING"
    "forks m = map Parent qs @ fs" "length qs = sum_list (counts (workers m))" "length qs \<le> 65536" "\<forall>q \<in> set qs. 0 < q" "distinct qs"
  shows "\<exists>m1 m2. initWorkerPids m = Some m1 \<and> forkWorkers (m1\<lparr>masterPid := self_pid m1\<rparr>) = Some (False, m2) \<and>
     serving m2 (zip (map fst (workers m)) (cut (counts (workers m)) qs)) [] \<and> forks m2 = fs \<and> sent m2 = sent m"
proof -
  obtain m1 m2 where m: "initWorkerPids m = Some m1" "self_pid m1 = self_pid m"
      "forkWorkers (m1\<lparr>self_pid := self_pid m, masterPid := self_pid m\<rparr>) = Some (False, m2)"
      "serving m2 (zip (map fst (workers m)) (cut (counts (workers m)) qs)) []" "forks m2 = fs" "sent m2 = sent m"
    using server_start [OF assms] by blast
  have "m1\<lparr>self_pid := self_pid m, masterPid := self_pid m\<rparr> = m1\<lparr>masterPid := self_pid m1\<rparr>" using m(2) by (cases m1) simp
  then have "forkWorkers (m1\<lparr>masterPid := self_pid m1\<rparr>) = Some (False, m2)" using m(3) by (rule subst)
  then show ?thesis using m(1,4-6) by auto
qed

theorem worker_start_witness:
  "\<exists>m1 m2. initWorkerPids (small_server [] STATUS_STARTING [Parent 10, Parent 11, Parent 20]) = Some m1 \<and>
     forkWorkers (m1\<lparr>masterPid := self_pid m1\<rparr>) = Some (False, m2) \<and> serving m2 [(0, [10, 11]), (1, [20])] [] \<and> forks m2 = []"
proof -
  let ?m = "small_server [] STATUS_STARTING [Parent 10, Parent 11, Parent 20]"
  have ws: "workers ?m = [(0, small_worker 0 2), (1, small_worker 1 1)]" by (simp add: small_server_def)
  have cs: "counts (workers ?m) = [2, 1]" by (simp add: ws counts_def small_worker_def)
  have "\<exists>m1 m2. initWorkerPids ?m = Some m1 \<and> forkWorkers (m1\<lparr>masterPid := self_pid m1\<rparr>) = Some (False, m2) \<and>
     serving m2 (zip (map fst (workers ?m)) (cut (counts (workers ?m)) [10, 11, 20])) [] \<and> forks m2 = [] \<and> sent m2 = sent ?m"
    by (rule worker_start [where qs = "[10, 11, 20]"])
      (simp_all add: small_server_def small_array_rep table_ok_def counts_def small_worker_def)
  then show ?thesis unfolding cs by (auto simp: ws)
qed

text \<open>
  C21: a process that ends while the server runs is replaced: one turn of \<open>monitorWorkers\<close> forks one new process
  into exactly its slot, all other slots stay, and every slot has a process again. If the process was one of
  those still to reload it leaves that list and the next one gets its signal.
\<close>

theorem worker_respawn:
  assumes "serving m ps qs" "pid \<in> set (all_pids ps)" "forks m = Parent q # fs" "0 < q" "q \<notin> set (all_pids ps)"
  shows "\<exists>m'. monitor_step pid m = Some (Watching, m') \<and> serving m' (repl pid q ps) (filter (\<lambda>p. p \<noteq> pid) qs) \<and> forks m' = fs \<and>
     sent m' = sent m @ (if pid \<in> set qs then at_once (workers m) ps @ next_one (filter (\<lambda>p. p \<noteq> pid) qs) else [])"
  using master_turn [OF assms] by blast

theorem worker_respawn_witness:
  "\<exists>m'. monitor_step 11 (running_server [Parent 12]) = Some (Watching, m') \<and> serving m' [(0, [10, 12]), (1, [20])] [] \<and> sent m' = []"
  using worker_respawn [OF running_server_serving, of 11 "[Parent 12]" 12 "[]"]
  by (auto simp: running_server_simps(2-) repl_def small_pids_def all_pids_def)

text \<open>
  C22: the reload signal makes a rolling reload when all workers are reloadable. After \<open>k\<close> of the old
  processes have ended, in order, the first \<open>k\<close> are replaced, exactly the first \<open>k + 1\<close> have got the
  signal, once and in order, so at most one process at a time has been told to go; after the last exit the
  server is back in the running state with new processes only.
\<close>

theorem worker_rolling_reload:
  assumes "serving m ps []" "all_reloadable m" "all_pids ps \<noteq> []" "forks m = map Parent qs @ fs" "length qs \<le> length (all_pids ps)"
    "\<forall>q \<in> set qs. 0 < q" "distinct qs" "set qs \<inter> set (all_pids ps) = {}"
  shows "\<exists>m1 m2 ps2. signalHandler coros SIGUSR1 m = Some m1 \<and> watch_children (take (length qs) (all_pids ps)) m1 = Some (Watching, m2) \<and>
     serving m2 ps2 (drop (length qs) (all_pids ps)) \<and> all_pids ps2 = qs @ drop (length qs) (all_pids ps) \<and>
     sent m2 = sent m @ map (\<lambda>p. (p, SIGUSR1)) (take (Suc (length qs)) (all_pids ps)) \<and>
     status m2 = (if length qs = length (all_pids ps) then STATUS_RUNNING else STATUS_RELOADING)"
proof -
  obtain m1 where m1: "signalHandler coros SIGUSR1 m = Some m1" "serving m1 ps (all_pids ps)" "all_reloadable m1" "forks m1 = forks m"
    "status m1 = STATUS_RELOADING" "sent m1 = sent m @ next_one (all_pids ps)"
    using sigusr1_ok [OF assms(1,2), of coros] assms(3) by auto
  have "take (Suc n) xs = take 1 xs @ take n (drop 1 xs)" for n and xs :: "int list" by (cases xs) auto
  then have "next_one (all_pids ps) @ map (\<lambda>p. (p, SIGUSR1)) (take (length qs) (drop 1 (all_pids ps))) =
      map (\<lambda>p. (p, SIGUSR1)) (take (Suc (length qs)) (all_pids ps))" unfolding next_one_def by (simp only: map_append)
  then show ?thesis
    using watch_reload [OF m1(2,3), of "[]" qs fs] m1 assms(3-8) by auto
qed

theorem worker_rolling_reload_witness:
  "\<exists>m1 m2 ps2. signalHandler [] SIGUSR1 (running_server [Parent 30, Parent 31]) = Some m1 \<and> watch_children [10, 11] m1 = Some (Watching, m2) \<and>
     all_pids ps2 = [30, 31, 20] \<and> serving m2 ps2 [20] \<and> sent m2 = [(10, SIGUSR1), (11, SIGUSR1), (20, SIGUSR1)] \<and> status m2 = STATUS_RELOADING"
  using worker_rolling_reload [OF running_server_serving running_server_reloadable, where qs = "[30, 31]" and coros = "[]", of "[Parent 30, Parent 31]" "[]"]
  by (auto simp: running_server_simps eval_nat_numeral)

text \<open>
  C23: stopping. On \<open>SIGINT\<close> the master sends \<open>SIGINT\<close> to every process once, in order; then no process
  is forked any more whatever ends, the master keeps watching while any process is left, and it exits with
  the last one, in whatever order they end.
\<close>

theorem worker_stop_all:
  assumes "serving m ps qs" "\<not> exited m" "all_pids ps \<noteq> []" "distinct es" "set es \<subseteq> set (all_pids ps)"
  shows "\<exists>m1 m2. signalHandler coros SIGINT m = Some m1 \<and> sent m1 = sent m @ map (\<lambda>p. (p, SIGINT)) (all_pids ps) \<and>
     watch_children es m1 = Some (if set es = set (all_pids ps) then All_stopped else Watching, m2) \<and>
     exited m2 = (set es = set (all_pids ps)) \<and> forks m2 = forks m \<and> sent m2 = sent m1"
proof -
  obtain m1 where m1: "signalHandler coros SIGINT m = Some m1" "stop_state m1 ps" "pend (all_pids ps) = all_pids ps" "forks m1 = forks m"
    "exited m1 = exited m" "sent m1 = sent m @ map (\<lambda>p. (p, SIGINT)) (all_pids ps)"
    using stopAll_ok [OF assms(1), of coros] by blast
  obtain m2 where "watch_children es m1 = Some (if set es = set (all_pids ps) then All_stopped else Watching, m2)"
    "exited m2 = (set es = set (all_pids ps))" "forks m2 = forks m1" "sent m2 = sent m1"
    using watch_stop [OF m1(2), of es] assms(2-5) m1(3,5) by auto
  then show ?thesis using m1 by (intro exI [of _ m1] exI [of _ m2]) simp
qed

theorem worker_stop_all_witness:
  "\<exists>m1 m2. signalHandler [] SIGINT (running_server []) = Some m1 \<and> watch_children [20, 10, 11] m1 = Some (All_stopped, m2) \<and> exited m2 \<and>
     sent m2 = [(10, SIGINT), (11, SIGINT), (20, SIGINT)]"
proof -
  have s: "set [20, 10, 11] = set (all_pids small_pids)" by (auto simp: running_server_simps)
  have "distinct [20, 10, 11 :: int]" by simp
  from worker_stop_all [OF running_server_serving, of "[]" "[20, 10, 11]" "[]"] this s show ?thesis
    by (auto simp: running_server_simps)
qed

end
