(* ===== verification/Wm_File.thy ===== *)
theory Wm_File
  imports Wm_String
begin

text \<open>
  Whole files (\<open>src/core/file.c\<close>): writing with short writes and interruptions, and reading. The kernel's
  answers to \<open>write\<close> and \<open>pread\<close> are a list; \<open>None\<close> is that the environment has no further answer, so that
  a value means the loop has ended.
\<close>

section \<open>Operations\<close>

text \<open>An answer moves at most so many bytes, is \<open>EINTR\<close>, or another error.\<close>

datatype io = Moved nat | Interrupted | Io_error

definition WM_MAX_FILE_CONTENT :: nat where "WM_MAX_FILE_CONTENT = 67108864"
definition WRITE_CHUNK :: nat where "WRITE_CHUNK = 65536"

text \<open>The loop of \<open>wm_file_put_contents\<close>: \<open>disk\<close> is what the file holds.\<close>

fun put_loop :: "u8 list \<Rightarrow> nat \<Rightarrow> u8 list \<Rightarrow> io list \<Rightarrow> (bool \<times> u8 list) option" where
  "put_loop c written disk as =
    (if written < length c then
       let chunk = (if length c - written > WRITE_CHUNK then WRITE_CHUNK else length c - written) in
       case as of
         [] \<Rightarrow> None
       | Moved n # as \<Rightarrow> put_loop c (written + min n chunk) (disk @ take (min n chunk) (drop written c)) as
       | Interrupted # as \<Rightarrow> put_loop c written disk as
       | Io_error # as \<Rightarrow> Some (False, disk)
     else Some (True, disk))"

text \<open>\<open>opened\<close>: \<open>open\<close> succeeds; \<open>disk\<close> is the file before.\<close>

definition wm_file_put_contents :: "u8 list \<Rightarrow> bool \<Rightarrow> bool \<Rightarrow> u8 list \<Rightarrow> io list \<Rightarrow> (bool \<times> u8 list) option" where
  "wm_file_put_contents c app opened disk as =
    (if length c \<le> 0 then Some (False, disk)
     else if length c > WM_MAX_FILE_CONTENT then Some (False, disk)
     else if \<not> opened then Some (False, disk)
     else put_loop c 0 (if app then disk else []) as)"

text \<open>\<open>wm_file_size\<close> with the result of \<open>lstat\<close>: the size of a file, and whether it is a regular one.\<close>

definition wm_file_size :: "(int \<times> bool) option \<Rightarrow> int" where
  "wm_file_size st = (case st of None \<Rightarrow> - 1 | Some (sz, regular) \<Rightarrow> if \<not> regular then - 1 else sz)"

text \<open>
  The loop of \<open>wm_file_get_contents\<close>. At the end of the file \<open>pread\<close> moves nothing: a file that has become
  shorter than \<open>lstat\<close> said makes the loop go on for ever.
\<close>

fun get_loop :: "u8 list \<Rightarrow> nat \<Rightarrow> nat \<Rightarrow> u8 option list \<Rightarrow> io list \<Rightarrow> (u8 option list \<times> nat) option option" where
  "get_loop disk filesize readn buf as =
    (if readn < filesize then
       case as of
         [] \<Rightarrow> None
       | Moved n # as \<Rightarrow>
           let bs = take (min n (filesize - readn)) (drop readn disk) in
           Option.bind (memcpy_to buf readn (map Some bs)) (\<lambda>buf. get_loop disk filesize (readn + length bs) buf as)
       | Interrupted # as \<Rightarrow> get_loop disk filesize readn buf as
       | Io_error # as \<Rightarrow> Some None
     else Some (Some (buf, readn)))"

definition wm_file_get_contents ::
    "(nat \<Rightarrow> bool) \<Rightarrow> (int \<times> bool) option \<Rightarrow> bool \<Rightarrow> u8 list \<Rightarrow> io list \<Rightarrow> wmString option option" where
  "wm_file_get_contents can st opened disk as =
    (let filesize = wm_file_size st in
     if filesize < 0 then Some None
     else if filesize = 0 then Some None
     else if filesize > int WM_MAX_FILE_CONTENT then Some None
     else if \<not> opened then Some None
     else case wmString_new can (nat filesize) of
         None \<Rightarrow> Some None
       | Some s \<Rightarrow>
           map_option (map_option (\<lambda>(buf, readn). s\<lparr>slen := readn, sbuf := buf\<rparr>)) (get_loop disk (nat filesize) 0 (sbuf s) as))"

section \<open>Writing and reading everything\<close>

text \<open>Answers that make progress, and how often they do.\<close>

definition serves :: "io list \<Rightarrow> bool" where
  "serves as \<longleftrightarrow> (\<forall>a \<in> set as. a = Interrupted \<or> (\<exists>n > 0. a = Moved n))"

definition moves :: "io list \<Rightarrow> nat" where
  "moves as = length (filter (\<lambda>a. a \<noteq> Interrupted) as)"

lemma serves_simps [simp]: "serves []" "serves (Interrupted # as) = serves as" "serves (Moved n # as) = (0 < n \<and> serves as)"
    "\<not> serves (Io_error # as)"
  by (auto simp: serves_def)

lemma moves_simps [simp]: "moves [] = 0" "moves (Interrupted # as) = moves as" "moves (Moved n # as) = Suc (moves as)"
  by (simp_all add: moves_def)

declare put_loop.simps [simp del] get_loop.simps [simp del]

lemma put_loop_done: "length c \<le> written \<Longrightarrow> put_loop c written disk as = Some (True, disk)"
  by (subst put_loop.simps) simp

lemma put_loop_all:
  assumes "serves as" "length c - written \<le> moves as" "written \<le> length c"
  shows "put_loop c written disk as = Some (True, disk @ drop written c)"
  using assms
proof (induction "as" arbitrary: written disk)
  case Nil
  then show ?case by (simp add: put_loop_done)
next
  case (Cons a as)
  show ?case
  proof (cases "written < length c")
    case False
    then show ?thesis by (simp add: put_loop_done)
  next
    case lt: True
    show ?thesis
    proof (cases a)
      case (Moved n)
      let ?chunk = "if length c - written > WRITE_CHUNK then WRITE_CHUNK else length c - written"
      let ?k = "min n ?chunk"
      have k: "0 < ?k" "?k \<le> length c - written" using Cons.prems(1) Moved lt by (auto simp: WRITE_CHUNK_def)
      have "put_loop c written disk (a # as) = put_loop c (written + ?k) (disk @ take ?k (drop written c)) as"
        using lt Moved by (subst put_loop.simps) (simp add: Let_def)
      also have "\<dots> = Some (True, (disk @ take ?k (drop written c)) @ drop (written + ?k) c)"
        using Cons.prems Moved k by (intro Cons.IH) auto
      also have "take ?k (drop written c) @ drop (written + ?k) c = drop written c"
        by (metis add.commute append_take_drop_id drop_drop)
      then have "(disk @ take ?k (drop written c)) @ drop (written + ?k) c = disk @ drop written c" by simp
      finally show ?thesis .
    next
      case Interrupted
      then show ?thesis using Cons lt by (subst put_loop.simps) simp
    next
      case Io_error
      then show ?thesis using Cons.prems(1) by simp
    qed
  qed
qed

lemma get_loop_done: "filesize \<le> readn \<Longrightarrow> get_loop disk filesize readn buf as = Some (Some (buf, readn))"
  by (subst get_loop.simps) simp

lemma get_loop_all:
  assumes "serves as" "length disk - readn \<le> moves as" "readn \<le> length disk" "length rest = length disk - readn"
  shows "get_loop disk (length disk) readn (map Some (take readn disk) @ rest @ tail) as =
     Some (Some (map Some disk @ tail, length disk))"
  using assms
proof (induction "as" arbitrary: readn rest)
  case Nil
  then show ?case by (simp add: get_loop_done)
next
  case (Cons a as)
  show ?case
  proof (cases "readn < length disk")
    case False
    then show ?thesis using Cons.prems(3,4) by (simp add: get_loop_done)
  next
    case lt: True
    show ?thesis
    proof (cases a)
      case (Moved n)
      let ?k = "min n (length disk - readn)"
      let ?bs = "take ?k (drop readn disk)"
      have k: "0 < ?k" "?k \<le> length disk - readn" "length ?bs = ?k" using Cons.prems(1) Moved lt by auto
      have kb: "readn + ?k \<le> length disk + length tail" using k(2) lt by linarith
      have "memcpy_to (map Some (take readn disk) @ rest @ tail) readn (map Some ?bs) =
          Some (map Some (take (readn + ?k) disk) @ drop ?k rest @ tail)"
        using k(3) kb Cons.prems(3,4) by (simp add: memcpy_to_def take_add)
      then have "get_loop disk (length disk) readn (map Some (take readn disk) @ rest @ tail) (a # as) =
          get_loop disk (length disk) (readn + ?k) (map Some (take (readn + ?k) disk) @ drop ?k rest @ tail) as"
        using lt Moved k(3) by (subst get_loop.simps) (simp add: Let_def)
      also have "\<dots> = Some (Some (map Some disk @ tail, length disk))"
        using Cons.prems Moved k by (intro Cons.IH) auto
      finally show ?thesis .
    next
      case Interrupted
      then show ?thesis using Cons lt by (subst get_loop.simps) simp
    next
      case Io_error
      then show ?thesis using Cons.prems(1) by simp
    qed
  qed
qed

lemma get_contents_all:
  assumes "disk \<noteq> []" "length disk \<le> WM_MAX_FILE_CONTENT" "serves rs" "length disk \<le> moves rs"
  shows "\<exists>s. wm_file_get_contents (\<lambda>_. True) (Some (int (length disk), True)) True disk rs = Some (Some s) \<and>
       slen s = length disk \<and> sbuf s = map Some disk @ [None]"
proof -
  have n: "0 < length disk" using assms(1) by simp
  have "Some 0 # replicate (length disk) None = (Some (0 :: u8) # replicate (length disk - 1) None) @ [None]"
    using n by (metis Suc_diff_1 append_Cons replicate_Suc replicate_append_same)
  then have "get_loop disk (length disk) 0 (Some 0 # replicate (length disk) None) rs = Some (Some (map Some disk @ [None], length disk))"
    using get_loop_all [OF assms(3), of disk 0 "Some 0 # replicate (length disk - 1) None" "[None]"] assms(4) n by simp
  then show ?thesis
    using assms(1,2) unfolding wm_file_get_contents_def wm_file_size_def wmString_new_def Let_def
    by (intro exI [of _ "\<lparr>slen = length disk, ssize = length disk, soff = 0, sbuf = map Some disk @ [None]\<rparr>"]) simp
qed

text \<open>
  C30: writing a file and reading it back. However the kernel splits and interrupts the calls, as long as each
  of them moves at least a byte both loops end, the file holds exactly the content (after what it held, when
  appending), and the string read has the content of the file as its bytes, but no terminator of its own.
\<close>

theorem file_put_get:
  assumes "0 < length c" "length (base @ c) \<le> WM_MAX_FILE_CONTENT" "serves ws" "length c \<le> moves ws" "serves rs" "length (base @ c) \<le> moves rs"
  shows "wm_file_put_contents c app True disk ws = Some (True, (if app then disk else []) @ c) \<and>
    (\<exists>s. wm_file_get_contents (\<lambda>_. True) (Some (int (length (base @ c)), True)) True (base @ c) rs = Some (Some s) \<and>
       slen s = length (base @ c) \<and> sbuf s = map Some (base @ c) @ [None])"
proof
  show "wm_file_put_contents c app True disk ws = Some (True, (if app then disk else []) @ c)"
    using assms(1-4) put_loop_all [of ws c 0 "if app then disk else []"] by (simp add: wm_file_put_contents_def)
  show "\<exists>s. wm_file_get_contents (\<lambda>_. True) (Some (int (length (base @ c)), True)) True (base @ c) rs = Some (Some s) \<and>
       slen s = length (base @ c) \<and> sbuf s = map Some (base @ c) @ [None]"
    using assms(1,2,5,6) by (intro get_contents_all) auto
qed

theorem file_put_get_witness:
  "wm_file_put_contents [52, 50] True True [65] [Moved 1, Interrupted, Moved 9] = Some (True, [65, 52, 50]) \<and>
    (\<exists>s. wm_file_get_contents (\<lambda>_. True) (Some (3, True)) True [65, 52, 50] [Interrupted, Moved 2, Moved 1, Moved 1] = Some (Some s) \<and>
       sbuf s = [Some 65, Some 52, Some 50, None])"
  using file_put_get [of "[52, 50]" "[65]" "[Moved 1, Interrupted, Moved 9]" "[Interrupted, Moved 2, Moved 1, Moved 1]" True "[65]"]
  by (auto simp: WM_MAX_FILE_CONTENT_def)

end
