(* ===== verification/Wm_Server.thy ===== *)
theory Wm_Server
  imports Wm_Worker_Life Wm_Connection_Run Wm_File
begin

text \<open>
  What surrounds the processes in \<open>src/worker.c\<close>: the command line of the master, the files it derives from
  the start file, the properties of a worker object, giving up privileges, becoming a daemon, the coroutines
  that accept connections, and the rows of the status file. The answers of the kernel are arguments.
\<close>

section \<open>The command line\<close>

text \<open>C strings: what is before the first zero.\<close>

definition strcmp_eq :: "u8 list \<Rightarrow> u8 list \<Rightarrow> bool" where
  "strcmp_eq s t \<longleftrightarrow> takeWhile (\<lambda>c. c \<noteq> 0) s = takeWhile (\<lambda>c. c \<noteq> 0) t"

datatype command = Start | Stop | Restart | Reload | Status | Connections

definition str_start :: "u8 list" where "str_start = [115, 116, 97, 114, 116]"
definition str_stop :: "u8 list" where "str_stop = [115, 116, 111, 112]"
definition str_restart :: "u8 list" where "str_restart = [114, 101, 115, 116, 97, 114, 116]"
definition str_reload :: "u8 list" where "str_reload = [114, 101, 108, 111, 97, 100]"
definition str_status :: "u8 list" where "str_status = [115, 116, 97, 116, 117, 115]"
definition str_connections :: "u8 list" where "str_connections = [99, 111, 110, 110, 101, 99, 116, 105, 111, 110, 115]"
definition str_d :: "u8 list" where "str_d = [45, 100]"

text \<open>The chain of assignments to \<open>command_type\<close>, the last match wins.\<close>

definition command_type :: "u8 list \<Rightarrow> command option" where
  "command_type c =
    (let t = None;
         t = (if strcmp_eq str_start c then Some Start else t);
         t = (if strcmp_eq str_stop c then Some Stop else t);
         t = (if strcmp_eq str_restart c then Some Restart else t);
         t = (if strcmp_eq str_reload c then Some Reload else t);
         t = (if strcmp_eq str_status c then Some Status else t);
         t = (if strcmp_eq str_connections c then Some Connections else t) in t)"

text \<open>
  The results of \<open>kill(pid, 0)\<close>. The two failures are \<open>ESRCH\<close> and \<open>EPERM\<close>: a process that there is, but
  that belongs to another user, is refused too.
\<close>

datatype kill_answer = Alive | No_process | No_permission

text \<open>
  \<open>pid_file\<close> is what \<open>wm_file_get_contents\<close> gives for the pid file, if there is one. The last byte of its buffer
  is never written, and \<open>atoi\<close> needs it, as the text has no terminator: \<open>stray\<close> is what the memory holds
  there, \<open>None\<close> for memory whose contents are not determined. \<open>alive_answers\<close> is what \<open>kill(pid, 0)\<close>
  will say for another process than this one; \<open>signalled\<close> the calls of \<open>kill\<close> with a signal.
\<close>

record shell =
  daemon :: bool
  pid_file :: "wmString option option"
  stray :: "u8 option"
  own_pid :: int
  master_pid :: int
  alive_answers :: "kill_answer list"
  signalled :: "(int \<times> signal) list"

definition signal_master :: "signal \<Rightarrow> shell \<Rightarrow> shell" where
  "signal_master s h = h\<lparr>signalled := signalled h @ [(master_pid h, s)]\<rparr>"

text \<open>\<open>kill(_masterPid, 0) != -1\<close>\<close>

definition master_answers :: "shell \<Rightarrow> (bool \<times> shell) option" where
  "master_answers h = (case alive_answers h of [] \<Rightarrow> None | a # as \<Rightarrow> Some (a = Alive, h\<lparr>alive_answers := as\<rparr>))"

text \<open>
  \<open>atoi\<close> on a buffer: it reads up to the first byte that ends the number. Reading a byte that is not
  determined, or behind the buffer, is undefined behaviour, and so is a value beyond a C \<open>int\<close>.
\<close>

fun digits_read :: "int \<Rightarrow> u8 option list \<Rightarrow> int option" where
  "digits_read acc (Some c # cs) = (if is_digit c then digits_read (acc * 10 + (uint c - 48)) cs else Some acc)"
| "digits_read acc _ = None"

definition atoi_read :: "u8 option list \<Rightarrow> int option" where
  "atoi_read b =
    Option.bind
      (case dropWhile (\<lambda>x. x \<in> Some ` {32, 9, 10, 11, 12, 13}) b of
         Some c # cs \<Rightarrow>
           if c = 45 then map_option uminus (digits_read 0 cs) else if c = 43 then digits_read 0 cs else digits_read 0 (Some c # cs)
       | _ \<Rightarrow> None)
      (\<lambda>p. if - (2 ^ 31) \<le> p \<and> p < 2 ^ 31 then Some p else None)"

definition read_pid_file :: "shell \<Rightarrow> shell option" where
  "read_pid_file h =
    (case pid_file h of
       None \<Rightarrow> Some h
     | Some None \<Rightarrow> None
     | Some (Some s) \<Rightarrow>
         map_option (\<lambda>p. h\<lparr>master_pid := (if p \<le> 0 then 0 else p)\<rparr>)
           (atoi_read (map (\<lambda>x. if x = None then stray h else x) (sbuf s))))"

text \<open>\<open>saveMasterPid\<close>: the pid file is written anew.\<close>

definition saveMasterPid :: "int \<Rightarrow> bool \<Rightarrow> u8 list \<Rightarrow> io list \<Rightarrow> (bool \<times> u8 list) option" where
  "saveMasterPid pid opened disk as = wm_file_put_contents (take 511 (dec_int pid)) False opened disk as"

definition master_is_alive :: "shell \<Rightarrow> (bool \<times> shell) option" where
  "master_is_alive h =
    (if master_pid h = 0 then Some (False, h)
     else map_option (\<lambda>(a, h). (a \<and> own_pid h \<noteq> master_pid h, h)) (master_answers h))"

text \<open>The loop that waits for the end of the master, a second a turn.\<close>

fun stop_wait :: "nat \<Rightarrow> shell \<Rightarrow> (bool \<times> shell) option" where
  "stop_wait 0 h = Some (False, h)"
| "stop_wait (Suc n) h =
    Option.bind (master_answers h) (\<lambda>(a, h). if \<not> a then Some (True, h) else stop_wait n h)"

text \<open>
  The loop of \<open>status\<close>: in live mode it goes on until the user interrupts it, after \<open>rounds\<close> turns. What it
  prints is the status file.
\<close>

fun status_rounds :: "nat \<Rightarrow> shell \<Rightarrow> shell" where
  "status_rounds 0 h = h"
| "status_rounds (Suc n) h = (let h = signal_master SIGUSR2 h in if \<not> daemon h then h else status_rounds n h)"

text \<open>
  \<open>parseCommand\<close>: whether the process goes on as a server; otherwise it ends here. The signal of \<open>restart\<close>
  and \<open>stop\<close> goes to process 0, the own process group, when no master is recorded: no handler is
  installed yet, so it ends the process that sends it.
\<close>

definition parseCommand :: "nat \<Rightarrow> u8 list option \<Rightarrow> u8 list option \<Rightarrow> shell \<Rightarrow> (bool \<times> shell) option" where
  "parseCommand rounds command command2 h =
    (case Option.bind command command_type of
       None \<Rightarrow> Some (False, h)
     | Some c \<Rightarrow>
         (let h = (if (case command2 of None \<Rightarrow> False | Some c2 \<Rightarrow> strcmp_eq str_d c2) then h\<lparr>daemon := True\<rparr> else h) in
          Option.bind (read_pid_file h) (\<lambda>h.
          Option.bind (master_is_alive h) (\<lambda>(alive, h).
          if alive \<and> c = Start then Some (False, h)
          else if \<not> alive \<and> c \<noteq> Start \<and> c \<noteq> Restart then Some (False, h)
          else case c of
              Start \<Rightarrow> Some (True, h)
            | Reload \<Rightarrow> Some (False, signal_master SIGUSR1 h)
            | Status \<Rightarrow> Some (False, status_rounds rounds h)
            | Connections \<Rightarrow> Some (False, h)
            | _ \<Rightarrow>
                if master_pid h = 0 \<or> master_pid h = own_pid h then Some (False, signal_master SIGINT h)
                else
                  Option.bind (stop_wait 5 (signal_master SIGINT h)) (\<lambda>(dead, h).
                  Some (dead \<and> c = Restart, h))))))"

section \<open>Files named after the start file\<close>

definition slash :: u8 where "slash = 47"

text \<open>\<open>strrchr\<close>: the start file up to its last slash; without one the length is nonsense.\<close>

definition run_dir :: "u8 list \<Rightarrow> u8 list option" where
  "run_dir f = (if slash \<in> set f then Some (rev (dropWhile (\<lambda>c. c \<noteq> slash) (rev f))) else None)"

definition no_slash :: "u8 list \<Rightarrow> u8 list" where
  "no_slash s = map (\<lambda>c. if c = slash then 95 else c) s"

definition str_pid :: "u8 list" where "str_pid = [46, 112, 105, 100]"
definition str_tmp :: "u8 list" where "str_tmp = [47, 116, 109, 112]"

definition pid_path :: "u8 list \<Rightarrow> u8 list option" where
  "pid_path f = map_option (\<lambda>d. d @ no_slash (f @ str_pid)) (run_dir f)"

definition statistics_path :: "u8 list \<Rightarrow> u8 list" where
  "statistics_path f = str_tmp @ no_slash f"

section \<open>The properties of a worker object\<close>

datatype zval = Z_long int | Z_string "u8 list" | Z_bool bool | Z_other

text \<open>
  What \<open>initWorker\<close> reads from the PHP object (\<open>None\<close>: the property is null) and the result. \<open>None\<close> as a
  whole is \<open>wmError\<close>, or a null pointer: a user that is neither null nor a string leaves \<open>worker->user\<close> null.
\<close>

record worker_object =
  o_name :: "zval option"
  o_count :: "zval option"
  o_protocol :: "zval option"
  o_reusePort :: "zval option"
  o_backlog :: "zval option"
  o_user :: "zval option"

record worker_conf =
  c_name :: "u8 list"
  c_count :: int
  c_protocol :: "u8 list option"
  c_reusePort :: bool
  c_backlog :: int
  c_user :: "u8 list"

record max_lengths =
  max_user :: nat
  max_name :: nat
  max_socket :: nat

definition str_none :: "u8 list" where "str_none = [110, 111, 110, 101]"
definition WM_DEFAULT_BACKLOG :: int where "WM_DEFAULT_BACKLOG = 102400"

definition c_int :: "int \<Rightarrow> int" where
  "c_int l = sint (word_of_int l :: u32)"

text \<open>\<open>class_ok\<close>: \<open>zend_lookup_class\<close> finds a class that is neither an interface nor a trait.\<close>

definition initWorker :: "(u8 list \<Rightarrow> bool) \<Rightarrow> u8 list \<Rightarrow> u8 list \<Rightarrow> wmWorker \<Rightarrow> worker_object \<Rightarrow> max_lengths \<Rightarrow> (worker_conf \<times> max_lengths) option" where
  "initWorker class_ok current_user socketName w ob mx =
    (let name = (case o_name ob of Some (Z_string s) \<Rightarrow> s | _ \<Rightarrow> str_none) in
     Option.bind (case o_count ob of None \<Rightarrow> Some (worker_count w) | Some (Z_long l) \<Rightarrow> Some (c_int l) | Some _ \<Rightarrow> None) (\<lambda>count.
     Option.bind (case o_protocol ob of Some (Z_string s) \<Rightarrow> if class_ok s then Some (Some s) else None | _ \<Rightarrow> Some None) (\<lambda>protocol.
     let reuse = (case o_reusePort ob of Some (Z_bool False) \<Rightarrow> False | _ \<Rightarrow> reusePort w);
         backlog = (case o_backlog ob of Some (Z_long l) \<Rightarrow> c_int l | _ \<Rightarrow> WM_DEFAULT_BACKLOG) in
     Option.bind (case o_user ob of None \<Rightarrow> Some current_user | Some (Z_string s) \<Rightarrow> Some (takeWhile (\<lambda>c. c \<noteq> 0) s) | Some _ \<Rightarrow> None) (\<lambda>user.
     Some (\<lparr>c_name = name, c_count = count, c_protocol = protocol, c_reusePort = reuse, c_backlog = backlog, c_user = user\<rparr>,
           \<lparr>max_user = max (max_user mx) (length user), max_name = max (max_name mx) (length name),
            max_socket = max (max_socket mx) (length socketName)\<rparr>)))))"

section \<open>Privileges and the daemon\<close>

datatype priv_call = Call_setgid int | Call_initgroups int | Call_setuid int

text \<open>
  \<open>setUserAndGroup\<close> with the answer of \<open>getpwnam\<close>, the current ids and the results of the three calls: the
  calls that are made, and whether there is a warning.
\<close>

definition setUserAndGroup :: "(int \<times> int) option \<Rightarrow> int \<Rightarrow> int \<Rightarrow> int \<Rightarrow> int \<Rightarrow> int \<Rightarrow> priv_call list \<times> bool" where
  "setUserAndGroup pw cur_uid cur_gid r_setgid r_initgroups r_setuid =
    (case pw of
       None \<Rightarrow> ([], True)
     | Some (uid, gid) \<Rightarrow>
         if uid \<noteq> cur_uid \<or> gid \<noteq> cur_gid then
           if r_setgid = 0 then ([Call_setgid gid], True)
           else if r_initgroups = 0 then ([Call_setgid gid, Call_initgroups gid], True)
           else ([Call_setgid gid, Call_initgroups gid, Call_setuid uid], r_setuid = 0)
         else ([], False))"

text \<open>\<open>daemonize\<close>: whether this process goes on; \<open>None\<close> is \<open>wmError\<close>.\<close>

definition daemonize :: "bool \<Rightarrow> fork_answer \<Rightarrow> bool \<Rightarrow> fork_answer \<Rightarrow> bool option" where
  "daemonize d fork1 setsid_ok fork2 =
    (if \<not> d then Some True
     else case fork1 of
         Parent _ \<Rightarrow> Some False
       | Fork_failed \<Rightarrow> None
       | Child _ \<Rightarrow>
           if \<not> setsid_ok then None
           else case fork2 of Parent _ \<Rightarrow> Some False | Fork_failed \<Rightarrow> None | Child _ \<Rightarrow> Some True)"

section \<open>Accepting\<close>

record handlers =
  h_connect :: bool
  h_message :: bool
  h_close :: bool
  h_full :: bool
  h_error :: bool

text \<open>
  The coroutine that accepts: the listening socket, the table of connections, and the connections that have got
  their coroutines, with whether there is one for \<open>onConnect\<close>.
\<close>

record acceptor =
  acc_net :: net
  acc_table :: conn_table
  acc_new :: "(wmConnection \<times> bool) list"

definition set_up :: "handlers \<Rightarrow> bool \<Rightarrow> int \<Rightarrow> int \<Rightarrow> wmConnection \<Rightarrow> wmConnection" where
  "set_up h protocol max_send max_package c =
    c\<lparr>net_of := upd_sk (\<lambda>s. s\<lparr>maxSendBufferSize := c_int max_send\<rparr>) (net_of c), maxPackageSize := c_int max_package,
      onMessage := h_message h, onClose := h_close h, onBufferFull := h_full h, onError := h_error h, has_protocol := protocol\<rparr>"

text \<open>
  \<open>around\<close> is what surrounds the socket of a new connection; the list tells whether the worker is running when
  the loop looks, at its head and after an accept that has failed; where it ends, the environment stops.
\<close>

fun acceptConnectionTcp ::
    "(int \<Rightarrow> net) \<Rightarrow> handlers \<Rightarrow> bool \<Rightarrow> int \<Rightarrow> int \<Rightarrow> (bool \<times> bool) list \<Rightarrow> acceptor \<Rightarrow> acceptor option" where
  "acceptConnectionTcp around h protocol max_send max_package [] a = None"
| "acceptConnectionTcp around h protocol max_send max_package ((running, still) # looks) a =
    (if \<not> running then Some a
     else
       Option.bind (wmSocket_accept WM_LOOP_SEMI_AUTO WM_SOCKET_MAX_TIMEOUT (acc_net a)) (\<lambda>(r, n).
       let a = a\<lparr>acc_net := n\<rparr> in
       case r of
         None \<Rightarrow>
           if \<not> still \<or> closed (sk n) then Some a
           else acceptConnectionTcp around h protocol max_send max_package looks a
       | Some (fd, s) \<Rightarrow>
           (case wmConnection_create fd s (around fd) (acc_table a) of
              (None, t) \<Rightarrow> Some (a\<lparr>acc_table := t\<rparr>)
            | (Some c, t) \<Rightarrow>
                let c = set_up h protocol max_send max_package c;
                    a = a\<lparr>acc_table := t, acc_new := acc_new a @ [(c, h_connect h)]\<rparr> in
                acceptConnectionTcp around h protocol max_send max_package looks a)))"

text \<open>The first \<open>n\<close> turns of \<open>acceptConnectionUdp\<close>; \<open>hnd\<close> is the coroutine of a message.\<close>

fun acceptConnectionUdp ::
    "(u8 option list \<Rightarrow> wmConnection \<Rightarrow> wmConnection) \<Rightarrow> net \<Rightarrow> int \<Rightarrow> bool \<Rightarrow> nat \<Rightarrow> acceptor \<Rightarrow> acceptor option" where
  "acceptConnectionUdp hnd around fd msg 0 a = Some a"
| "acceptConnectionUdp hnd around fd msg (Suc n) a =
    (if closed (sk (acc_net a)) then Some a
     else
       let (c, t) = wmConnection_create_udp fd around (acc_table a); c = c\<lparr>onMessage := msg\<rparr> in
       Option.bind (wmConnection_recvfrom hnd c (acc_net a)) (\<lambda>(c, s).
       acceptConnectionUdp hnd around fd msg n (a\<lparr>acc_net := s, acc_table := t, acc_new := acc_new a @ [(c, False)]\<rparr>)))"

section \<open>What is shown\<close>

text \<open>\<open>%-*s\<close> of \<open>printf\<close>.\<close>

definition cell :: "nat \<Rightarrow> u8 list \<Rightarrow> u8 list" where
  "cell n s = s @ replicate (n - length s) 32"

text \<open>
  The row of a process in the status file. The numbers are printed by \<open>wm_itoa\<close> into ten bytes; \<open>memory\<close> is the
  text of the memory in megabytes before it is cut to its buffer.
\<close>

definition child_statistics :: "int \<Rightarrow> u8 list \<Rightarrow> int \<Rightarrow> int \<Rightarrow> u8 list \<Rightarrow> u8 list \<Rightarrow> max_lengths \<Rightarrow> u8 list option" where
  "child_statistics pid memory conns requests socketName name mx =
    Option.bind (wm_itoa (replicate 10 0) (word_of_int pid)) (\<lambda>(n1, pid_text).
    Option.bind (wm_itoa (replicate 10 0) (word_of_int conns)) (\<lambda>(n2, conn_text).
    Option.bind (wm_itoa (replicate 10 0) (word_of_int requests)) (\<lambda>(n3, total_text).
    Some (take 511
      (cell 8 (take n1 pid_text) @ cell 12 (take 9 memory) @
       cell (if 0 < c_int (int (max_socket mx) - 9) then max_socket mx + 2 else 9 + 2) socketName @
       cell (if 0 < c_int (int (max_name mx) - 11) then max_name mx + 2 else 11 + 2) name @
       cell 13 (take n2 conn_text) @ cell 15 (take n3 total_text) @ [10])))))"

text \<open>\<open>echoWin\<close> after the formatting: the text is cut to the buffer, then the tags are replaced.\<close>

definition tags :: "(u8 list \<times> u8 list) list" where
  "tags =
    [([60, 110, 62], [27, 91, 49, 65, 10, 27, 91, 75]), ([60, 119, 62], [27, 91, 52, 55, 59, 51, 48, 109]),
     ([60, 103, 62], [27, 91, 51, 50, 59, 52, 48, 109]), ([60, 47, 110, 62], [27, 91, 48, 109]),
     ([60, 47, 119, 62], [27, 91, 48, 109]), ([60, 47, 103, 62], [27, 91, 48, 109])]"

definition echoWin :: "(nat \<Rightarrow> bool) \<Rightarrow> u8 list \<Rightarrow> wmString \<Rightarrow> wmString option" where
  "echoWin can text s =
    (let n = (if ssize s \<le> length text then ssize s - 1 else length text);
         s = s\<lparr>slen := n, sbuf := map Some (take n text) @ Some 0 # drop (n + 1) (sbuf s)\<rparr> in
     fold (\<lambda>(pat, rep) r. Option.bind r (\<lambda>s. wmString_replace can s pat rep)) tags (Some s))"

end
