(* ===== verification/Wm_Signal.thy ===== *)
theory Wm_Signal
  imports Wm_Socket_Run
begin

text \<open>
  The signals of a child, \<open>src/worker/signal.c\<close>: the handler the kernel runs writes the number of
  the signal as one byte into a socket pair; a coroutine reads the bytes from the other end, as many
  as there are, and calls the function registered for each. The pair of descriptors and the outcome of
  \<open>sigaction\<close> come from the environment. A function that is called may end the process, as
  \<open>signalHandler\<close> does for \<open>SIGINT\<close>, and it may sleep, as it does for \<open>SIGUSR1\<close>: no coroutine is noted
  in the socket then, so that a signal that comes in the meantime makes the event loop close the pair.
\<close>

section \<open>State and operations\<close>

text \<open>
  \<open>handled\<close> are the calls so far. Whether the last of them is overtaken by a signal while it sleeps, and
  whether it ends the process, are functions of this history; \<open>pair_lost\<close> and \<open>quit\<close> are what has come of it.
\<close>

record sigs =
  signal_fd :: "int \<times> int"
  signal_handler_array :: "nat option list"
  installed :: "nat list"
  handled :: "(nat \<times> int) list"
  overtaken :: "(nat \<times> int) list \<Rightarrow> bool"
  quits :: "(nat \<times> int) list \<Rightarrow> bool"
  pair_lost :: bool
  quit :: bool

definition sigs_init :: sigs where
  "sigs_init = \<lparr>signal_fd = (0, 0), signal_handler_array = replicate 64 None, installed = [], handled = [],
     overtaken = (\<lambda>_. False), quits = (\<lambda>_. False), pair_lost = False, quit = False\<rparr>"

text \<open>
  \<open>wmSignal_add\<close>: \<open>pair\<close> is what \<open>socketpair\<close> makes (none: the process exits), \<open>ok\<close> whether
  \<open>sigaction\<close> accepts the signal. The array has 64 entries; an index beyond is undefined.
\<close>

definition wmSignal_add :: "(int \<times> int) option \<Rightarrow> bool \<Rightarrow> nat \<Rightarrow> nat option \<Rightarrow> sigs \<Rightarrow> sigs option" where
  "wmSignal_add pair ok signal fn s =
    Option.bind (if fst (signal_fd s) = 0 then map_option (\<lambda>p. s\<lparr>signal_fd := p\<rparr>) pair else Some s) (\<lambda>s.
    if \<not> ok then Some s
    else
      let s = s\<lparr>installed := installed s @ [signal]\<rparr> in
      if signal < 64 then Some (s\<lparr>signal_handler_array := (signal_handler_array s)[signal := fn]\<rparr>) else None)"

text \<open>
  \<open>sig_handler\<close>: one byte, the low one of the number (the machine is little-endian), unless the
  buffer of the pair is full; \<open>errno\<close> is what it was.
\<close>

definition sig_byte :: "int \<Rightarrow> u8" where
  "sig_byte signalno = word_of_int signalno"

definition sig_handler :: "bool \<Rightarrow> int \<Rightarrow> u8 list \<Rightarrow> u8 list" where
  "sig_handler room signalno pipe = (if room then pipe @ [sig_byte signalno] else pipe)"

definition call_function :: "nat \<Rightarrow> int \<Rightarrow> sigs \<Rightarrow> sigs" where
  "call_function fn signal s =
    (let h = handled s @ [(fn, signal)] in
     s\<lparr>handled := h, pair_lost := pair_lost s \<or> overtaken s h, quit := quits s h\<rparr>)"

text \<open>
  The bytes are C \<open>char\<close>s, which are signed here; a negative index is undefined. After a call that ends the
  process nothing more happens.
\<close>

fun dispatch :: "u8 list \<Rightarrow> sigs \<Rightarrow> sigs option" where
  "dispatch [] s = Some s"
| "dispatch (b # bs) s =
    (let signal = sint b in
     if signal < 0 \<or> 64 \<le> signal then None
     else
       case signal_handler_array s ! nat signal of
         None \<Rightarrow> dispatch bs s
       | Some fn \<Rightarrow> let s = call_function fn signal s in if quit s then Some s else dispatch bs s)"

definition WM_SOCKET_MAX_TIMEOUT :: u32 where "WM_SOCKET_MAX_TIMEOUT = 2147483647"

text \<open>
  A call that was overtaken: the event loop has found the pair readable, with no coroutine that waits for it.
\<close>

definition while_called :: "sigs \<Rightarrow> net \<Rightarrow> net option" where
  "while_called s n = (if pair_lost s \<and> \<not> closed (sk n) then map_option snd (loop_callback_coroutine_resume n EPOLLIN) else Some n)"

partial_function (option) signal_loop :: "sigs \<Rightarrow> net \<Rightarrow> (sigs \<times> net) option" where
  "signal_loop s n =
    Option.bind (wmSocket_read 1024 WM_SOCKET_MAX_TIMEOUT n) (\<lambda>((ret, bs), n).
    if ret < 0 \<and> errno n \<noteq> ETIMEDOUT then Some (s, n)
    else
      Option.bind (dispatch bs s) (\<lambda>s.
      Option.bind (while_called s n) (\<lambda>n.
      if quit s then Some (s, n) else signal_loop s n)))"

text \<open>
  \<open>wmSignal_wait\<close>: the state when a call has ended the process, or the loop has ended; the process exits then
  too (\<open>wmError\<close>).
\<close>

definition wmSignal_wait :: "sigs \<Rightarrow> net \<Rightarrow> (sigs \<times> net) option" where
  "wmSignal_wait s n =
    Option.bind (wmWorkerLoop_add (n\<lparr>sk := wmSocket_pack WM_SOCK_TCP WM_LOOP_SEMI_AUTO\<rparr>) WM_EVENT_READ) (\<lambda>(_, n).
    signal_loop s n)"

section \<open>What the loop does\<close>

text \<open>
  The calls a sequence of signals asks for, the calls that are made, up to the first that ends the process, with
  whether there is one, and the bytes one read delivers.
\<close>

definition calls_for :: "nat option list \<Rightarrow> int list \<Rightarrow> (nat \<times> int) list" where
  "calls_for hs xs = concat (map (\<lambda>x. case hs ! nat x of None \<Rightarrow> [] | Some fn \<Rightarrow> [(fn, x)]) xs)"

fun calls_made :: "((nat \<times> int) list \<Rightarrow> bool) \<Rightarrow> (nat \<times> int) list \<Rightarrow> (nat \<times> int) list \<Rightarrow> (nat \<times> int) list \<times> bool" where
  "calls_made q h [] = (h, False)"
| "calls_made q h (c # cs) = (if q (h @ [c]) then (h @ [c], True) else calls_made q (h @ [c]) cs)"

fun data_of :: "read_end \<Rightarrow> u8 list" where
  "data_of (Data bs) = bs"
| "data_of _ = []"

lemma calls_for_append [simp]: "calls_for hs (xs @ ys) = calls_for hs xs @ calls_for hs ys"
  by (simp add: calls_for_def)

lemma calls_made_append:
  "calls_made q h (cs @ ds) = (case calls_made q h cs of (h', e) \<Rightarrow> if e then (h', True) else calls_made q h' ds)"
  by (induction cs arbitrary: h) (auto split: prod.splits)

lemma sint_sig_byte: "0 \<le> x \<Longrightarrow> x < 64 \<Longrightarrow> sint (sig_byte x) = x"
  by (simp add: sig_byte_def signed_of_int signed_take_bit_int_eq_self)

text \<open>A state in which nothing has gone wrong, and no call will be overtaken.\<close>

definition undisturbed :: "sigs \<Rightarrow> bool" where
  "undisturbed s \<longleftrightarrow> \<not> pair_lost s \<and> \<not> quit s \<and> (\<forall>h. \<not> overtaken s h)"

lemma dispatch_ok:
  assumes "\<forall>x \<in> set xs. 0 \<le> x \<and> x < 64" "undisturbed s"
    "calls_made (quits s) (handled s) (calls_for (signal_handler_array s) xs) = (h, q)"
  shows "dispatch (map sig_byte xs) s = Some (s\<lparr>handled := h, quit := q\<rparr>)"
  using assms
proof (induction xs arbitrary: s)
  case Nil
  then show ?case by (simp add: calls_for_def undisturbed_def)
next
  case (Cons x xs)
  have x: "sint (sig_byte x) = x" using Cons.prems by (simp add: sint_sig_byte)
  show ?case
  proof (cases "signal_handler_array s ! nat x")
    case None
    then show ?thesis using Cons x by (simp add: calls_for_def)
  next
    case (Some fn)
    let ?s = "call_function fn x s"
    have s: "?s = s\<lparr>handled := handled s @ [(fn, x)], quit := quits s (handled s @ [(fn, x)])\<rparr>"
      by (rule sigs.equality) (use Cons.prems(2) in \<open>simp_all add: call_function_def undisturbed_def Let_def\<close>)
    show ?thesis
    proof (cases "quits s (handled s @ [(fn, x)])")
      case True
      then show ?thesis using Cons.prems(1,3) Some x s by (auto simp: calls_for_def)
    next
      case False
      then have "undisturbed ?s" using Cons.prems(2) s by (simp add: undisturbed_def)
      moreover have "calls_made (quits ?s) (handled ?s) (calls_for (signal_handler_array ?s) xs) = (h, q)"
        using Cons.prems(3) Some False s by (simp add: calls_for_def)
      ultimately have "dispatch (map sig_byte xs) ?s = Some (?s\<lparr>handled := h, quit := q\<rparr>)"
        using Cons.IH [of ?s] Cons.prems(1) by simp
      then show ?thesis using Cons.prems(1) Some x s False by simp
    qed
  qed
qed

text \<open>Reads that deliver bytes or time out leave the socket as it was.\<close>

definition quiet_end :: "read_end \<Rightarrow> bool" where
  "quiet_end e \<longleftrightarrow> e = Timeout \<or> (\<exists>bs. e = Data bs \<and> bs \<noteq> [] \<and> length bs \<le> 1024)"

lemma read_goes_on:
  assumes "quiet_end e" "readable True n" "env n = read_env True as e @ rest"
  shows "\<exists>r n'. wmSocket_read 1024 to n = Some ((r, data_of e), n') \<and> readable True n' \<and> env n' = rest \<and>
    (r < 0 \<longrightarrow> errno n' = ETIMEDOUT)"
proof -
  have e: "end_ok 1024 e" using assms(1) by (auto simp: quiet_end_def)
  obtain n' where n': "wmSocket_read 1024 to n = Some (read_result e, n')"
      "read_done (armed n) e (sk n) rest True (next_timer n) n'"
    using socket_read_ends [OF e assms(2,3)] by auto
  have "quiet WM_EVENT_READ True n'" using n'(2) assms(1) by (auto simp: read_done_def quiet_end_def)
  then have "readable True n'" using assms(2) read_doneD [OF n'(2)] by (auto simp: readable_def)
  moreover have "e = Timeout \<Longrightarrow> errno n' = ETIMEDOUT" using n'(2) read_doneD(10) [OF n'(2)] by (simp add: read_done_def)
  ultimately show ?thesis
    using n'(1) read_doneD(1) [OF n'(2)] assms(1) by (auto simp: quiet_end_def)
qed

lemma signal_loop_ok:
  assumes "readable True n" "env n = concat (map (\<lambda>(as, e). read_env True as e) items) @ read_env True [] Eof @ rest"
    "\<forall>(as, e) \<in> set items. quiet_end e" "map sig_byte xs = concat (map (data_of \<circ> snd) items)"
    "\<forall>x \<in> set xs. 0 \<le> x \<and> x < 64" "undisturbed s"
    "calls_made (quits s) (handled s) (calls_for (signal_handler_array s) xs) = (h, q)"
  shows "\<exists>n'. signal_loop s n = Some (s\<lparr>handled := h, quit := q\<rparr>, n') \<and> (\<not> q \<longrightarrow> closed (sk n') \<and> env n' = rest)"
  using assms
proof (induction items arbitrary: n s xs)
  case Nil
  then have e: "env n = read_env True [] Eof @ rest" and x: "xs = []" by simp_all
  obtain n' where n': "wmSocket_read 1024 WM_SOCKET_MAX_TIMEOUT n = Some (read_result Eof, n')"
      "read_done (armed n) Eof (sk n) rest True (next_timer n) n'"
    using socket_read_ends [OF _ Nil.prems(1) e] by auto
  have "errno n' \<noteq> ETIMEDOUT" using n'(2) read_doneD(10) [OF n'(2)]
    by (simp add: read_done_def WM_ERROR_SESSION_CLOSED_BY_CLIENT_def ETIMEDOUT_def)
  then have "signal_loop s n = Some (s, n')" using n'(1) by (subst signal_loop.simps) (simp add: WM_SOCKET_CLOSE_def)
  then show ?case using read_doneD [OF n'(2)] x Nil.prems(6,7) by (auto simp: calls_for_def undisturbed_def)
next
  case (Cons it items)
  obtain as e where it: "it = (as, e)" by (cases it)
  let ?rest = "concat (map (\<lambda>(as, e). read_env True as e) items) @ read_env True [] Eof @ rest"
  have en: "env n = read_env True as e @ ?rest" and qe: "quiet_end e" using Cons.prems it by simp_all
  obtain r n1 where n1: "wmSocket_read 1024 WM_SOCKET_MAX_TIMEOUT n = Some ((r, data_of e), n1)" "readable True n1"
      "env n1 = ?rest" "r < 0 \<longrightarrow> errno n1 = ETIMEDOUT"
    using read_goes_on [OF qe Cons.prems(1) en] by blast
  obtain ys zs where xs: "xs = ys @ zs" "map sig_byte ys = data_of e" "map sig_byte zs = concat (map (data_of \<circ> snd) items)"
    using Cons.prems(4) it by (auto simp: map_eq_append_conv o_def)
  obtain h1 q1 where c1: "calls_made (quits s) (handled s) (calls_for (signal_handler_array s) ys) = (h1, q1)" by (cases "calls_made (quits s) (handled s) (calls_for (signal_handler_array s) ys)")
  let ?s = "s\<lparr>handled := h1, quit := q1\<rparr>"
  have d: "dispatch (data_of e) s = Some ?s" using dispatch_ok [of ys s] Cons.prems(5,6) c1 xs(1,2) by auto
  have w: "while_called ?s n1 = Some n1" using Cons.prems(6) by (simp add: while_called_def undisturbed_def)
  have l: "signal_loop s n = (if q1 then Some (?s, n1) else signal_loop ?s n1)"
    using n1(1,4) d w by (subst signal_loop.simps) auto
  show ?case
  proof (cases q1)
    case True
    then have "h = h1" "q" using Cons.prems(7) c1 xs(1) by (auto simp: calls_made_append)
    then show ?thesis using l True by auto
  next
    case False
    have "\<forall>(as, e) \<in> set items. quiet_end e" "\<forall>x \<in> set zs. 0 \<le> x \<and> x < 64" using Cons.prems(3,5) xs(1) by auto
    moreover have "undisturbed ?s" using Cons.prems(6) False by (simp add: undisturbed_def)
    moreover have "calls_made (quits ?s) (handled ?s) (calls_for (signal_handler_array ?s) zs) = (h, q)"
      using Cons.prems(7) c1 xs(1) False by (simp add: calls_made_append)
    ultimately obtain n' where "signal_loop ?s n1 = Some (?s\<lparr>handled := h, quit := q\<rparr>, n')" "\<not> q \<longrightarrow> closed (sk n') \<and> env n' = rest"
      using Cons.IH [OF n1(2,3) _ xs(3), of ?s] by blast
    then show ?thesis using l False by auto
  qed
qed

lemma signal_wait_start:
  assumes "poll n" "me n \<noteq> None" "\<forall>t \<ge> next_timer n. armed n t = None" "env n = Ret 0 # rest"
  shows "\<exists>n1. wmSignal_wait s n = signal_loop s n1 \<and> readable True n1 \<and> env n1 = rest \<and> sk_transport (sk n1) = WM_SOCK_TCP \<and> \<not> removed (sk n1)"
proof -
  let ?n = "n\<lparr>sk := wmSocket_pack WM_SOCK_TCP WM_LOOP_SEMI_AUTO\<rparr>"
  have z: "events (wmSocket_pack WM_SOCK_TCP WM_LOOP_SEMI_AUTO) = 0" "WM_EVENT_READ \<noteq> 0"
    by (simp_all add: wmSocket_pack_def WM_EVENT_NULL_def WM_EVENT_READ_def)
  define n1 where "n1 = ?n\<lparr>sk := (sk ?n)\<lparr>events := WM_EVENT_READ\<rparr>, env := rest, calls := calls ?n @ [Epoll_ctl CTL_ADD (event_decode WM_EVENT_READ)]\<rparr>"
  have "wmWorkerLoop_add ?n WM_EVENT_READ = Some (True, n1)"
    unfolding n1_def by (rule add_quiet) (use assms(1,4) z in simp_all)
  moreover have "readable True n1" using assms(1-3) by (auto simp: readable_def quiet_def n1_def wmSocket_pack_def)
  ultimately show ?thesis by (intro exI [of _ n1]) (simp add: wmSignal_wait_def n1_def wmSocket_pack_def)
qed

text \<open>
  C33: the signals of a child whose functions are not overtaken (\<open>undisturbed\<close>: no signal comes while one of
  them sleeps). However the bytes come out of the pair, in whatever pieces, with interruptions, waits and
  timeouts in between, each signal that was written calls the function registered for it, once and in the
  order of the signals, up to and including the first call that ends the process; one without a function is
  passed over. With no such call the loop ends only when the pair is closed.
\<close>

theorem signals_dispatched:
  assumes "poll n" "me n \<noteq> None" "\<forall>t \<ge> next_timer n. armed n t = None"
    and "env n = Ret 0 # concat (map (\<lambda>(as, e). read_env True as e) items) @ read_env True [] Eof @ rest"
    and "\<forall>(as, e) \<in> set items. quiet_end e"
    and "fold (sig_handler True) xs [] = concat (map (data_of \<circ> snd) items)"
    and "\<forall>x \<in> set xs. 0 \<le> x \<and> x < 64" and "undisturbed s"
  shows "\<exists>s' n'. wmSignal_wait s n = Some (s', n') \<and>
    (handled s', quit s') = calls_made (quits s) (handled s) (calls_for (signal_handler_array s) xs) \<and>
    (\<not> quit s' \<longrightarrow> closed (sk n') \<and> env n' = rest)"
proof -
  have "fold (sig_handler True) ys p = p @ map sig_byte ys" for ys p
    by (induction ys arbitrary: p) (simp_all add: sig_handler_def)
  then have xs: "map sig_byte xs = concat (map (data_of \<circ> snd) items)" using assms(6) by simp
  obtain h q where c: "calls_made (quits s) (handled s) (calls_for (signal_handler_array s) xs) = (h, q)"
    by (cases "calls_made (quits s) (handled s) (calls_for (signal_handler_array s) xs)")
  obtain n1 where n1: "wmSignal_wait s n = signal_loop s n1" "readable True n1"
      "env n1 = concat (map (\<lambda>(as, e). read_env True as e) items) @ read_env True [] Eof @ rest"
    using signal_wait_start [OF assms(1-4)] by blast
  from signal_loop_ok [OF n1(2,3) assms(5) xs assms(7,8) c] n1(1) c show ?thesis by auto
qed

text \<open>
  A function that is overtaken. A signal comes while the function of another one sleeps: the event loop
  closes the pair. The later signals call nothing, whatever \<open>ys\<close> has been written, and the process ends: by the
  function itself, or because the loop finds the pair closed.
\<close>

theorem signal_overtaken:
  assumes "poll n" "me n \<noteq> None" "\<forall>t \<ge> next_timer n. armed n t = None"
    and "env n = Ret 0 # read_env True as (Data [sig_byte x]) @ Ret c # rest"
    and "0 \<le> x" "x < 64" "signal_handler_array s ! nat x = Some fn" "overtaken s (handled s @ [(fn, x)])" "0 \<le> c"
  shows "\<exists>s' n'. wmSignal_wait s n = Some (s', n') \<and> handled s' = handled s @ [(fn, x)] \<and> pair_lost s' \<and>
    quit s' = quits s (handled s @ [(fn, x)]) \<and> closed (sk n') \<and> removed (sk n') \<and> env n' = rest"
proof -
  obtain n1 where n1: "wmSignal_wait s n = signal_loop s n1" "readable True n1"
      "env n1 = read_env True as (Data [sig_byte x]) @ Ret c # rest" "sk_transport (sk n1) = WM_SOCK_TCP" "\<not> removed (sk n1)"
    using signal_wait_start [OF assms(1-4)] by blast
  obtain n2 where n2: "wmSocket_read 1024 WM_SOCKET_MAX_TIMEOUT n1 = Some ((1, [sig_byte x]), n2)"
      "read_done (armed n1) (Data [sig_byte x]) (sk n1) (Ret c # rest) True (next_timer n1) n2"
    using socket_read_ends [OF _ n1(2,3), of 1024 WM_SOCKET_MAX_TIMEOUT] by auto
  note r = read_doneD [OF n2(2)]
  have q: "quiet WM_EVENT_READ True n2" using n2(2) by (simp add: read_done_def)
  define s' where "s' = call_function fn x s"
  have d: "dispatch [sig_byte x] s = Some s'" using assms(5-7) by (simp add: sint_sig_byte s'_def Let_def)
  have s': "pair_lost s'" "handled s' = handled s @ [(fn, x)]" "quit s' = quits s (handled s @ [(fn, x)])"
    using assms(8) by (simp_all add: s'_def call_function_def Let_def)
  have "\<exists>n3. while_called s' n2 = Some n3 \<and> closed (sk n3) \<and> removed (sk n3) \<and> env n3 = rest \<and> read_co (sk n3) = None \<and> write_co (sk n3) = None"
    using quietD [OF q] r(1,8,9) n1(4,5) s'(1) assms(9)
    by (auto simp: while_called_def loop_callback_coroutine_resume_def wmSocket_close_def wmWorkerLoop_del_def upd_sk_def sys_def
        WM_EVENT_NULL_def WM_EVENT_READ_def EPOLLIN_def EPOLLOUT_def Let_def)
  then obtain n3 where n3: "while_called s' n2 = Some n3" "closed (sk n3)" "removed (sk n3)" "env n3 = rest" "read_co (sk n3) = None" "write_co (sk n3) = None"
    by blast
  have l: "signal_loop s n1 = (if quit s' then Some (s', n3) else signal_loop s' n3)"
    using n2(1) d n3(1) by (subst signal_loop.simps) simp
  define n4 where "n4 = set_err ECONNRESET n3"
  have "wmSocket_read 1024 WM_SOCKET_MAX_TIMEOUT n3 = Some ((WM_SOCKET_CLOSE, []), n4)"
    using n3 by (simp add: wmSocket_read_def is_available_def get_bound_co_def n4_def)
  then have "signal_loop s' n3 = Some (s', n4)"
    by (subst signal_loop.simps) (simp add: WM_SOCKET_CLOSE_def n4_def set_err_def upd_sk_def ECONNRESET_def ETIMEDOUT_def)
  then show ?thesis using n1(1) l s' n3 by (auto simp: n4_def set_err_def upd_sk_def)
qed

text \<open>The functions as a child registers them, where \<open>SIGINT\<close> ends the process, and four signals in two pieces.\<close>

definition child_sigs :: sigs where
  "child_sigs = sigs_init\<lparr>signal_fd := (5, 6), signal_handler_array := (replicate 64 None)[2 := Some 0, 10 := Some 0, 12 := Some 0],
     quits := (\<lambda>h. last h = (0, 2))\<rparr>"

lemma child_sigs_added:
  "Option.bind (wmSignal_add (Some (5, 6)) True 2 (Some 0) (sigs_init\<lparr>quits := (\<lambda>h. last h = (0, 2))\<rparr>)) (\<lambda>s.
   Option.bind (wmSignal_add None True 10 (Some 0) s) (wmSignal_add None True 12 (Some 0))) =
     Some (child_sigs\<lparr>installed := [2, 10, 12]\<rparr>)"
  by (simp add: wmSignal_add_def sigs_init_def child_sigs_def)

theorem signals_dispatched_witness:
  "\<exists>s' n'. wmSignal_wait child_sigs
      (idle_net (Ret 0 # read_env True [False] (Data [12, 9]) @ read_env True [] Timeout @ read_env True [True] (Data [2, 12]) @
         read_env True [] Eof)) = Some (s', n') \<and>
     handled s' = [(0, 12), (0, 2)] \<and> quit s'"
proof -
  let ?n = "idle_net (Ret 0 # read_env True [False] (Data [12, 9]) @ read_env True [] Timeout @ read_env True [True] (Data [2, 12]) @
      read_env True [] Eof)"
  let ?items = "[([False], Data [12, 9]), ([], Timeout), ([True], Data [2, 12])]"
  have "\<exists>s' n'. wmSignal_wait child_sigs ?n = Some (s', n') \<and>
      (handled s', quit s') = calls_made (quits child_sigs) (handled child_sigs) (calls_for (signal_handler_array child_sigs) [12, 9, 2, 12]) \<and>
      (\<not> quit s' \<longrightarrow> closed (sk n') \<and> env n' = [])"
  proof (rule signals_dispatched [where items = ?items])
    show "poll ?n" "me ?n \<noteq> None" "\<forall>t \<ge> next_timer ?n. armed ?n t = None" by (simp_all add: idle_net_def wait_net_def)
    show "env ?n = Ret 0 # concat (map (\<lambda>(as, e). read_env True as e) ?items) @ read_env True [] Eof @ []" by (simp add: idle_net_def)
    show "\<forall>(as, e) \<in> set ?items. quiet_end e" by (simp add: quiet_end_def)
    show "fold (sig_handler True) [12, 9, 2, 12] [] = concat (map (data_of \<circ> snd) ?items)" by (simp add: sig_handler_def sig_byte_def)
    show "undisturbed child_sigs" by (simp add: undisturbed_def child_sigs_def sigs_init_def)
  qed simp
  moreover have "calls_made (quits child_sigs) (handled child_sigs) (calls_for (signal_handler_array child_sigs) [12, 9, 2, 12]) =
      ([(0, 12), (0, 2)], True)"
    by (simp add: calls_for_def child_sigs_def sigs_init_def)
  ultimately show ?thesis by auto
qed

text \<open>A reload that sleeps while a stop comes.\<close>

theorem signal_overtaken_witness:
  "\<exists>s' n'. wmSignal_wait (child_sigs\<lparr>overtaken := (\<lambda>_. True)\<rparr>) (idle_net (Ret 0 # read_env True [] (Data [10]) @ [Ret 0])) = Some (s', n') \<and>
     handled s' = [(0, 10)] \<and> closed (sk n')"
proof -
  let ?s = "child_sigs\<lparr>overtaken := (\<lambda>_. True)\<rparr>" and ?n = "idle_net (Ret 0 # read_env True [] (Data [10]) @ [Ret 0])"
  have "\<exists>s' n'. wmSignal_wait ?s ?n = Some (s', n') \<and> handled s' = handled ?s @ [(0, 10)] \<and> pair_lost s' \<and>
      quit s' = quits ?s (handled ?s @ [(0, 10)]) \<and> closed (sk n') \<and> removed (sk n') \<and> env n' = []"
    by (rule signal_overtaken [where as = "[]" and c = 0])
      (simp_all add: idle_net_def wait_net_def sig_byte_def child_sigs_def sigs_init_def)
  then show ?thesis by (auto simp: child_sigs_def sigs_init_def)
qed

end
