(* ===== verification/Wm_Start.thy ===== *)
theory Wm_Start
  imports Wm_Server Wm_Signal
begin

text \<open>
  What \<open>src/worker.c\<close> does between the fork of a process and its work, and how a signal that comes then is
  treated: the dispositions of the signals, \<open>installSignal\<close> in the master, \<open>reinstallSignal\<close> in the child, and
  \<open>wmWorker_resumeAccept\<close>, which calls \<open>onWorkerStart\<close> and binds the functions of the user. A signal may
  come between any two steps of the child, and to the master between the forks and \<open>monitorWorkers\<close>.
\<close>

section \<open>Signals of a process\<close>

datatype disposition = By_default | Ignored | To_signalHandler | To_sig_handler

text \<open>A process that starts: the state of \<open>Wm_Worker\<close>, what its signals do, and the pair of sockets of \<open>Wm_Signal\<close>.\<close>

record boot =
  proc :: master
  disp :: "nat \<Rightarrow> disposition"
  sigs_of :: sigs
  sig_pipe :: "u8 list"

fun signo :: "signal \<Rightarrow> nat" where
  "signo SIGINT = 2"
| "signo SIGUSR1 = 10"
| "signo SIGUSR2 = 12"
| "signo SIGKILL = 9"

definition SIGPIPE :: nat where "SIGPIPE = 13"

definition installSignal :: "(nat \<Rightarrow> disposition) \<Rightarrow> nat \<Rightarrow> disposition" where
  "installSignal d =
    d(signo SIGINT := To_signalHandler, signo SIGUSR1 := To_signalHandler, signo SIGUSR2 := To_signalHandler, SIGPIPE := Ignored)"

text \<open>
  What the kernel does with a signal; \<open>coros\<close> are the numbers of coroutines a reload sees. The default of the
  three signals is the end of the process.
\<close>

definition sig_comes :: "int list \<Rightarrow> signal \<Rightarrow> boot \<Rightarrow> boot option" where
  "sig_comes coros s b =
    (case disp b (signo s) of
       By_default \<Rightarrow> Some (b\<lparr>proc := (proc b)\<lparr>exited := True\<rparr>\<rparr>)
     | Ignored \<Rightarrow> Some b
     | To_signalHandler \<Rightarrow> map_option (\<lambda>m. b\<lparr>proc := m\<rparr>) (signalHandler coros s (proc b))
     | To_sig_handler \<Rightarrow> Some (b\<lparr>sig_pipe := sig_handler True (int (signo s)) (sig_pipe b)\<rparr>))"

section \<open>The start of a child\<close>

text \<open>
  The steps of a child that matter to signals: the end of \<open>forkOneWorker\<close> up to \<open>_main_worker\<close>, the calls of
  \<open>signal\<close> and of \<open>wmSignal_add\<close>. In the array of functions, 0 stands for \<open>signalHandler\<close>.
\<close>

datatype boot_step = Become u32 nat | Ignore nat | Add_signal nat

definition boot_step :: "int \<times> int \<Rightarrow> boot_step \<Rightarrow> boot \<Rightarrow> boot option" where
  "boot_step pair st b =
    (case st of
       Become wid slot \<Rightarrow> Some (b\<lparr>proc := start_child wid slot (self_pid (proc b)) (proc b)\<rparr>)
     | Ignore n \<Rightarrow> Some (b\<lparr>disp := (disp b)(n := Ignored)\<rparr>)
     | Add_signal n \<Rightarrow>
         map_option (\<lambda>s. b\<lparr>sigs_of := s, disp := (disp b)(n := To_sig_handler)\<rparr>) (wmSignal_add (Some pair) True n (Some 0) (sigs_of b)))"

definition reinstallSignal :: "boot_step list" where
  "reinstallSignal =
    [Ignore (signo SIGINT), Ignore (signo SIGUSR1), Ignore (signo SIGUSR2),
     Add_signal (signo SIGINT), Add_signal (signo SIGUSR1), Add_signal (signo SIGUSR2)]"

definition child_steps :: "u32 \<Rightarrow> nat \<Rightarrow> boot_step list" where
  "child_steps wid slot = Become wid slot # reinstallSignal"

datatype boot_event = Do boot_step | Comes "int list" signal

text \<open>A process that has exited does nothing more.\<close>

fun boot_run :: "int \<times> int \<Rightarrow> boot_event list \<Rightarrow> boot \<Rightarrow> boot option" where
  "boot_run pair [] b = Some b"
| "boot_run pair (e # es) b =
    (if exited (proc b) then Some b
     else Option.bind (case e of Do st \<Rightarrow> boot_step pair st b | Comes coros s \<Rightarrow> sig_comes coros s b) (boot_run pair es))"

text \<open>The calls of \<open>signalHandler\<close> that end a child: those for \<open>SIGINT\<close>.\<close>

definition ends_child :: "(nat \<times> int) list \<Rightarrow> bool" where
  "ends_child h \<longleftrightarrow> h \<noteq> [] \<and> last h = (0, int (signo SIGINT))"

text \<open>A process right after \<open>fork\<close>: what its parent had, with its own id.\<close>

definition just_forked :: "int \<Rightarrow> master \<Rightarrow> boot" where
  "just_forked pid m = \<lparr>proc = m\<lparr>self_pid := pid\<rparr>, disp = installSignal (\<lambda>_. By_default), sigs_of = sigs_init\<lparr>quits := ends_child\<rparr>, sig_pipe = []\<rparr>"

section \<open>The functions of the user\<close>

text \<open>A property of the worker object: not set, something that can be called, something else.\<close>

datatype prop_value = Null | Callable nat | Not_callable

text \<open>\<open>bind_callback\<close>: a property that cannot be called ends the script with an error.\<close>

definition bind_callback :: "string \<Rightarrow> (string \<Rightarrow> prop_value) \<Rightarrow> (string \<Rightarrow> nat option) \<Rightarrow> (string \<Rightarrow> nat option) option" where
  "bind_callback name obj bound =
    (case obj name of Null \<Rightarrow> Some bound | Callable f \<Rightarrow> Some (bound(name := Some f)) | Not_callable \<Rightarrow> None)"

fun bind_callbacks :: "string list \<Rightarrow> (string \<Rightarrow> prop_value) \<Rightarrow> (string \<Rightarrow> nat option) \<Rightarrow> (string \<Rightarrow> nat option) option" where
  "bind_callbacks [] obj bound = Some bound"
| "bind_callbacks (n # ns) obj bound = Option.bind (bind_callback n obj bound) (bind_callbacks ns obj)"

text \<open>\<open>call_closure_func\<close>: whether the call was possible; an exception ends the script.\<close>

definition call_closure_func :: "bool \<times> bool \<Rightarrow> bool option" where
  "call_closure_func r = (if \<not> fst r then Some False else if snd r then None else Some True)"

definition event_names :: "string list" where
  "event_names =
    [''onWorkerReload'', ''onWorkerStop'', ''onConnect'', ''onMessage'', ''onClose'', ''onBufferFull'', ''onBufferDrain'', ''onError'']"

text \<open>
  \<open>wmWorker_resumeAccept\<close> up to the accepting loop: \<open>start f obj\<close> is what \<open>onWorkerStart\<close> does to the object, with
  whether the call was possible and whether it has thrown. The result says whether the loop is entered.
\<close>

definition wmWorker_resumeAccept ::
    "(nat \<Rightarrow> (string \<Rightarrow> prop_value) \<Rightarrow> (bool \<times> bool) \<times> (string \<Rightarrow> prop_value)) \<Rightarrow> (string \<Rightarrow> prop_value) \<Rightarrow>
     (string \<Rightarrow> nat option) \<Rightarrow> wmWorker \<Rightarrow> (transport \<times> wmWorker \<times> (string \<Rightarrow> nat option)) option" where
  "wmWorker_resumeAccept start obj bound w =
    (let w = w\<lparr>worker_status := STATUS_RUNNING\<rparr> in
     Option.bind (bind_callback ''onWorkerStart'' obj bound) (\<lambda>bound.
     Option.bind (case bound ''onWorkerStart'' of
                    None \<Rightarrow> Some obj
                  | Some f \<Rightarrow> Option.bind (call_closure_func (fst (start f obj))) (\<lambda>ok. if ok then Some (snd (start f obj)) else None)) (\<lambda>obj.
     Option.bind (bind_callbacks event_names obj bound) (\<lambda>bound.
     map_option (\<lambda>tr. (tr, w, bound)) (worker_transport w)))))"

text \<open>The functions a connection gets from its worker.\<close>

definition handlers_of :: "(string \<Rightarrow> nat option) \<Rightarrow> handlers" where
  "handlers_of bound =
    \<lparr>h_connect = bound ''onConnect'' \<noteq> None, h_message = bound ''onMessage'' \<noteq> None, h_close = bound ''onClose'' \<noteq> None,
     h_full = bound ''onBufferFull'' \<noteq> None, h_error = bound ''onError'' \<noteq> None\<rparr>"

section \<open>Workers and files\<close>

text \<open>
  \<open>initWorkers\<close>: the answers of the system calls for each worker in turn; the result of \<open>wmWorker_listen\<close> is
  not looked at.
\<close>

fun initWorkers :: "(int \<times> int \<times> int \<times> int) list \<Rightarrow> (u32 \<times> wmWorker) list \<Rightarrow> (u32 \<times> wmWorker) list option" where
  "initWorkers as [] = Some []"
| "initWorkers [] (e # ws) = None"
| "initWorkers ((r_socket, r_reuse, r_bind, r_listen) # as) ((k, w) # ws) =
    Option.bind (wmWorker_listen r_socket r_reuse r_bind r_listen w) (\<lambda>(ok, w). map_option (Cons (k, w)) (initWorkers as ws))"

text \<open>\<open>resetStd\<close>: the files that standard output and standard error go to from then on, if they change.\<close>

definition resetStd :: "bool \<Rightarrow> 'f \<Rightarrow> ('f \<times> 'f) option" where
  "resetStd daemonized stdoutFile = (if daemonized then Some (stdoutFile, stdoutFile) else None)"

section \<open>A signal to a child that starts\<close>

lemma others_freed:
  assumes "wid \<notin> set ks"
  shows "WM_HASH_GET (workers (fold wmWorker_free ks m)) wid = WM_HASH_GET (workers m) wid \<and> (fold wmWorker_free ks m)\<lparr>workers := x\<rparr> = m\<lparr>workers := x\<rparr>"
  using assms
proof (induction ks arbitrary: m)
  case (Cons k ks)
  have "map_of (filter (\<lambda>e. fst e \<noteq> k) t) wid = map_of t wid" for t :: "(u32 \<times> wmWorker) list"
    using Cons.prems by (induction t) auto
  then have "WM_HASH_GET (workers (wmWorker_free k m)) wid = WM_HASH_GET (workers m) wid"
    by (simp add: wmWorker_free_def WM_HASH_DEL_def WM_HASH_GET_def split: option.split)
  moreover have "(wmWorker_free k m)\<lparr>workers := x\<rparr> = m\<lparr>workers := x\<rparr>" by (simp add: wmWorker_free_def)
  ultimately show ?case using Cons.IH [of "wmWorker_free k m"] Cons.prems by simp
qed simp

lemma child_started:
  fixes pid :: int and slot :: nat
  assumes "WM_HASH_GET (workers m) wid = Some w"
  defines "c \<equiv> start_child wid slot pid m"
  shows "main_worker c = Some wid" "WM_HASH_GET (workers c) wid = Some (w\<lparr>worker_no := of_nat slot\<rparr>)" "self_pid c = pid"
    "masterPid c = masterPid m" "exited c = exited m"
proof -
  define ks where "ks = filter (\<lambda>k. k \<noteq> wid) (map fst (workers m))"
  have n: "wid \<notin> set ks" by (simp add: ks_def)
  note f = others_freed [OF n, of m]
  have g: "WM_HASH_GET (map (\<lambda>(k, w). (k, f w)) t) wid = map_option f (WM_HASH_GET t wid)" for f :: "wmWorker \<Rightarrow> wmWorker" and t
    by (simp add: WM_HASH_GET_def map_of_map)
  show "main_worker c = Some wid" "self_pid c = pid" by (simp_all add: c_def start_child_def Let_def)
  show "WM_HASH_GET (workers c) wid = Some (w\<lparr>worker_no := of_nat slot\<rparr>)"
    using assms(1) f by (simp add: c_def start_child_def Let_def ks_def [symmetric] g)
  show "masterPid c = masterPid m" "exited c = exited m"
    using f [THEN conjunct2, of "[]"] unfolding c_def start_child_def Let_def ks_def [symmetric] by (auto dest: arg_cong [where f = masterPid] arg_cong [where f = exited])
qed

text \<open>\<open>wmWorker_stopAll\<close> in a child that knows its worker.\<close>

lemma stop_child:
  assumes "main_worker m = Some wid" "WM_HASH_GET (workers m) wid = Some w" "\<not> stopping w" "masterPid m \<noteq> self_pid m"
  shows "\<exists>m' w'. signalHandler coros SIGINT m = Some m' \<and> exited m' \<and> WM_HASH_GET (workers m') wid = Some w' \<and>
    \<not> listening w' \<and> stopping w' \<and> worker_status w' = STATUS_SHUTDOWN"
proof -
  have g: "WM_HASH_GET (table_set t wid v) wid = map_option (\<lambda>_. v) (WM_HASH_GET t wid)" for t :: "wmWorker table" and v
    by (induction t) (auto simp: table_set_def WM_HASH_GET_def)
  show ?thesis
    using assms by (simp add: signalHandler_def wmWorker_stopAll_def worker_stop_def update_main_def g unlisten_def)
qed

text \<open>A stop after the first \<open>k\<close> steps of a process that has just been forked.\<close>

definition stop_after :: "nat \<Rightarrow> int \<times> int \<Rightarrow> int list \<Rightarrow> u32 \<Rightarrow> nat \<Rightarrow> int \<Rightarrow> master \<Rightarrow> boot option" where
  "stop_after k pair coros wid slot pid m =
    (let steps = child_steps wid slot in
     boot_run pair (map Do (take k steps) @ Comes coros SIGINT # map Do (drop k steps)) (just_forked pid m))"

lemmas boot_simps = child_steps_def reinstallSignal_def boot_step_def wmSignal_add_def sig_comes_def installSignal_def sigs_init_def
  just_forked_def stop_after_def SIGPIPE_def

text \<open>
  C26: a stop that reaches a process while it starts. Between \<open>fork\<close> and the assignment of \<open>_main_worker\<close> the
  inherited handler follows a null pointer; then it stops the process properly, up to the first call of
  \<open>signal\<close>; from there to \<open>wmSignal_add\<close> the signal is ignored and lost: the process goes on as if it had never
  come, with nothing in the pair of sockets; from then on it waits in the pair for the coroutine that
  dispatches signals.
\<close>

theorem child_start_stop:
  assumes "main_worker m = None" "masterPid m \<noteq> pid" "\<not> exited m" "WM_HASH_GET (workers m) wid = Some w" "\<not> stopping w"
    "fst pair \<noteq> 0" "k \<le> 7"
  shows "if k = 0 then stop_after k pair coros wid slot pid m = None
    else if k = 1 then
      (\<exists>b w'. stop_after k pair coros wid slot pid m = Some b \<and> exited (proc b) \<and> WM_HASH_GET (workers (proc b)) wid = Some w' \<and> \<not> listening w')
    else
      (\<exists>b s. stop_after k pair coros wid slot pid m = Some b \<and> \<not> exited (proc b) \<and> disp b (signo SIGINT) = To_sig_handler \<and>
        sig_pipe b = (if k < 5 then [] else [2]) \<and> dispatch (sig_pipe b) (sigs_of b) = Some s \<and>
        handled s = (if k < 5 then [] else [(0, 2)]))"
proof -
  define c where "c = start_child wid slot pid (m\<lparr>self_pid := pid\<rparr>)"
  have g: "WM_HASH_GET (workers (m\<lparr>self_pid := pid\<rparr>)) wid = Some w" using assms(4) by simp
  note cs = child_started [OF g, of slot pid, folded c_def]
  have x: "\<not> exited c" using cs(5) assms(3) by simp
  have s: "sint (2 :: u8) = 2" by simp
  consider "k = 0" | "k = 1" | "k \<in> {2, 3, 4}" | "k \<in> {5, 6, 7}" using assms(7) by force
  then show ?thesis
  proof cases
    case 1
    then show ?thesis
      using assms(1-3) by (simp add: boot_simps signalHandler_def wmWorker_stopAll_def)
  next
    case 2
    obtain m' w' where m': "signalHandler coros SIGINT c = Some m'" "exited m'" "WM_HASH_GET (workers m') wid = Some w'" "\<not> listening w'"
      using stop_child [OF cs(1,2), of coros] assms(2,5) cs(3,4) by auto
    then have "\<exists>b. stop_after 1 pair coros wid slot pid m = Some b \<and> proc b = m'"
      using assms(3) x by (simp add: boot_simps c_def)
    then show ?thesis using 2 m' by auto
  next
    case 3
    then show ?thesis using assms(3,6) x by (auto simp: boot_simps c_def Let_def)
  next
    case 4
    then show ?thesis using assms(3,6) x s by (auto simp: boot_simps c_def Let_def sig_handler_def sig_byte_def call_function_def)
  qed
qed

theorem child_start_stop_witness:
  "\<exists>b. stop_after 3 (5, 6) [] 0 1 30 (running_server []) = Some b \<and> \<not> exited (proc b) \<and> sig_pipe b = []"
  using child_start_stop [of "running_server []" 30 0 "small_worker 0 2" "(5, 6)" 3 "[]" 1]
  by (auto simp: running_server_def small_server_def small_worker_def WM_HASH_GET_def)

section \<open>A stop while the master starts\<close>

text \<open>The processes end one after the other, in the order of the slots, and each is replaced.\<close>

lemma all_replaced:
  assumes "serving m ps []" "all_pids ps = new @ old" "forks m = map Parent qs @ fs" "length qs = length old" "\<forall>q \<in> set qs. 0 < q"
    "distinct qs" "set qs \<inter> set (new @ old) = {}" "status m = STATUS_RUNNING"
  shows "\<exists>m' ps'. watch_children old m = Some (Watching, m') \<and> serving m' ps' [] \<and> all_pids ps' = new @ qs \<and> forks m' = fs \<and>
    sent m' = sent m \<and> status m' = STATUS_RUNNING"
  using assms
proof (induction old arbitrary: m ps new qs)
  case (Cons p old)
  obtain q qs' where q: "qs = q # qs'" using Cons.prems(4) by (cases qs) auto
  have pid: "p \<in> set (all_pids ps)" and nq: "q \<notin> set (all_pids ps)" and pos: "0 < q"
    using Cons.prems(2,5,7) q by auto
  obtain m1 where m1: "monitor_step p m = Some (Watching, m1)" "serving m1 (repl p q ps) []" "forks m1 = map Parent qs' @ fs"
      "status m1 = STATUS_RUNNING" "sent m1 = sent m"
    using master_turn [OF Cons.prems(1) pid, of q "map Parent qs' @ fs"] Cons.prems(3,8) q nq pos by auto
  have d: "distinct (new @ p # old)" using Cons.prems(1,2) by (auto simp: serving_def serving_list_def)
  have ap: "all_pids (repl p q ps) = (new @ [q]) @ old"
    unfolding repl_pids Cons.prems(2) using d by (auto intro!: map_idI)
  obtain m' ps' where "watch_children old m1 = Some (Watching, m')" "serving m' ps' []" "all_pids ps' = (new @ [q]) @ qs'" "forks m' = fs"
      "sent m' = sent m1" "status m' = STATUS_RUNNING"
    using Cons.IH [OF m1(2) ap m1(3) _ _ _ _ m1(4)] Cons.prems(4-7) q by auto
  then show ?case using m1(1,5) q by auto
qed auto

text \<open>
  C27: a stop that reaches the master between the forks and \<open>monitorWorkers\<close>, where its handler is installed
  already. The processes are told to stop, but then \<open>monitorWorkers\<close> sets the status to running: every
  process that ends is replaced by a new one, which is told nothing, and the server goes on.
\<close>

theorem stop_forgotten:
  assumes "serving m ps []" "forks m = map Parent qs @ fs" "length qs = length (all_pids ps)" "\<forall>q \<in> set qs. 0 < q" "distinct qs"
    "set qs \<inter> set (all_pids ps) = {}"
  shows "\<exists>m1 m2 ps2. signalHandler coros SIGINT m = Some m1 \<and> status m1 = STATUS_SHUTDOWN \<and>
    sent m1 = sent m @ map (\<lambda>p. (p, SIGINT)) (all_pids ps) \<and>
    monitorWorkers (all_pids ps) m1 = Some (Watching, m2) \<and> serving m2 ps2 [] \<and> all_pids ps2 = qs \<and> sent m2 = sent m1 \<and>
    status m2 = STATUS_RUNNING"
proof -
  obtain m1 where m1: "signalHandler coros SIGINT m = Some m1" "stop_state m1 ps" "forks m1 = forks m"
      "sent m1 = sent m @ map (\<lambda>p. (p, SIGINT)) (all_pids ps)" "serving (m1\<lparr>status := STATUS_RUNNING\<rparr>) ps []"
    using stopAll_ok [OF assms(1), of coros] by blast
  obtain m2 ps2 where "watch_children (all_pids ps) (m1\<lparr>status := STATUS_RUNNING\<rparr>) = Some (Watching, m2)" "serving m2 ps2 []" "all_pids ps2 = qs"
      "sent m2 = sent m1" "status m2 = STATUS_RUNNING"
    using all_replaced [OF m1(5), of "[]" "all_pids ps" qs fs] m1(3) assms(2-6) by auto
  then show ?thesis using m1(1,2,4) by (auto simp: monitorWorkers_def stop_state_def)
qed

theorem stop_forgotten_witness:
  "\<exists>m1 m2 ps2. signalHandler [] SIGINT (running_server [Parent 31, Parent 32, Parent 33]) = Some m1 \<and>
    sent m1 = [(10, SIGINT), (11, SIGINT), (20, SIGINT)] \<and> monitorWorkers [10, 11, 20] m1 = Some (Watching, m2) \<and> all_pids ps2 = [31, 32, 33] \<and>
    serving m2 ps2 [] \<and> sent m2 = sent m1"
  using stop_forgotten [OF running_server_serving, of "[Parent 31, Parent 32, Parent 33]" "[31, 32, 33]" "[]" "[]"]
  by (auto simp: running_server_simps)

section \<open>The functions that are bound\<close>

text \<open>
  The functions that connections get are those the object has when \<open>onWorkerStart\<close> is over, whatever it had
  before.
\<close>

lemma bind_all:
  assumes "bind_callbacks ns obj bound = Some b" "n \<in> set ns" "distinct ns"
  shows "b n = (case obj n of Callable f \<Rightarrow> Some f | _ \<Rightarrow> bound n)"
  using assms
proof (induction ns arbitrary: bound)
  case (Cons k ns)
  obtain b1 where b1: "bind_callback k obj bound = Some b1" "bind_callbacks ns obj b1 = Some b" using Cons.prems(1) by (auto split: bind_splits)
  have other: "bind_callbacks ks obj c = Some d \<Longrightarrow> x \<notin> set ks \<Longrightarrow> d x = c x" for ks c d x
    by (induction ks arbitrary: c) (auto simp: bind_callback_def split: bind_splits prop_value.splits)
  show ?case
  proof (cases "n = k")
    case True
    then show ?thesis using other [OF b1(2), of k] b1(1) Cons.prems(3) by (auto simp: bind_callback_def split: prop_value.splits)
  next
    case False
    then have "b1 n = bound n" using b1(1) by (auto simp: bind_callback_def split: prop_value.splits)
    then show ?thesis using Cons.IH [OF b1(2)] Cons.prems(2,3) False by (simp split: prop_value.split)
  qed
qed simp

lemma resume_binds:
  assumes "wmWorker_resumeAccept start obj (\<lambda>_. None) w = Some (tr, w', bound)" "n \<in> set event_names"
    "obj' = (case obj ''onWorkerStart'' of Callable f \<Rightarrow> snd (start f obj) | _ \<Rightarrow> obj)"
  shows "worker_status w' = STATUS_RUNNING \<and> bound n = (case obj' n of Callable f \<Rightarrow> Some f | _ \<Rightarrow> None)"
proof -
  have d: "distinct event_names" "''onWorkerStart'' \<notin> set event_names" by (simp_all add: event_names_def)
  obtain b where b: "bind_callbacks event_names obj' b = Some bound" "b n = None" "worker_status w' = STATUS_RUNNING"
  proof (cases "obj ''onWorkerStart''")
    case (Callable f)
    show ?thesis
      by (rule that [of "[''onWorkerStart'' \<mapsto> f]"])
        (use assms d(2) Callable in \<open>auto simp: wmWorker_resumeAccept_def bind_callback_def split: bind_split_asm if_splits option.splits\<close>)
  next
    case Null
    show ?thesis
      by (rule that [of "\<lambda>_. None"]) (use assms Null in \<open>auto simp: wmWorker_resumeAccept_def bind_callback_def split: bind_split_asm option.splits\<close>)
  next
    case Not_callable
    then show ?thesis using assms(1) by (simp add: wmWorker_resumeAccept_def bind_callback_def)
  qed
  then show ?thesis using bind_all [OF b(1) assms(2) d(1)] by (simp split: prop_value.split)
qed

end
