(* ===== verification/Wm_List.thy ===== *)
theory Wm_List
  imports Wm_Prelude
begin

text \<open>
  The intrusive circular doubly linked list of \<open>include/list.h\<close>, at the level of its pointers:
  a heap of \<open>next\<close> and \<open>prev\<close> fields indexed by addresses, each operation as the sequence of
  pointer writes the C code makes. The theory relates the heap to lists of addresses: a list
  head owns a ring of nodes, several rings live disjointly in one heap, and every operation
  acts on the rings as the corresponding list operation.
\<close>

section \<open>The heap of link fields and the operations\<close>

record 'a links =
  nxt :: "'a \<Rightarrow> 'a"
  prv :: "'a \<Rightarrow> 'a"

definition set_nxt :: "'a links \<Rightarrow> 'a \<Rightarrow> 'a \<Rightarrow> 'a links" where
  "set_nxt h n v = h\<lparr>nxt := (nxt h)(n := v)\<rparr>"

definition set_prv :: "'a links \<Rightarrow> 'a \<Rightarrow> 'a \<Rightarrow> 'a links" where
  "set_prv h n v = h\<lparr>prv := (prv h)(n := v)\<rparr>"

definition wmList_init :: "'a links \<Rightarrow> 'a \<Rightarrow> 'a links" where
  "wmList_init h head =
    (let h = set_prv h head head in
     set_nxt h head head)"

definition wmList_add_front :: "'a links \<Rightarrow> 'a \<Rightarrow> 'a \<Rightarrow> 'a links" where
  "wmList_add_front h head node =
    (let h = set_prv h node head;
         h = set_nxt h node (nxt h head);
         h = set_prv h (nxt h head) node in
     set_nxt h head node)"

definition wmList_add_back :: "'a links \<Rightarrow> 'a \<Rightarrow> 'a \<Rightarrow> 'a links" where
  "wmList_add_back h head node =
    (let h = set_prv h node (prv h head);
         h = set_nxt h node head;
         h = set_nxt h (prv h node) node in
     set_prv h head node)"

definition wmList_is_empty :: "'a links \<Rightarrow> 'a \<Rightarrow> bool" where
  "wmList_is_empty h head \<longleftrightarrow> head = nxt h head"

definition wmList_remote :: "'a links \<Rightarrow> 'a \<Rightarrow> 'a links" where
  "wmList_remote h node =
    (let h = set_prv h (nxt h node) (prv h node);
         h = set_nxt h (prv h node) (nxt h node) in
     wmList_init h node)"

definition wmList_splice :: "'a links \<Rightarrow> 'a \<Rightarrow> 'a \<Rightarrow> 'a links" where
  "wmList_splice h head1 head2 =
    (if \<not> wmList_is_empty h head1 then
       let first = nxt h head1;
           last = prv h head1;
           at = nxt h head2;
           h = set_prv h first head2;
           h = set_nxt h head2 first;
           h = set_nxt h last at;
           h = set_prv h at last in
       wmList_init h head1
     else h)"

lemma set_nxt_simps [simp]:
  "nxt (set_nxt h n v) = (nxt h)(n := v)" "prv (set_nxt h n v) = prv h"
  by (simp_all add: set_nxt_def)

lemma set_prv_simps [simp]:
  "prv (set_prv h n v) = (prv h)(n := v)" "nxt (set_prv h n v) = nxt h"
  by (simp_all add: set_prv_def)

lemma wmList_init_links [link_simps]:
  "nxt (wmList_init h n) = (nxt h)(n := n)" "prv (wmList_init h n) = (prv h)(n := n)"
  by (simp_all add: wmList_init_def)

section \<open>Rings: the list a head owns\<close>

fun linked :: "'a links \<Rightarrow> 'a list \<Rightarrow> bool" where
  "linked h (x # y # zs) \<longleftrightarrow> nxt h x = y \<and> prv h y = x \<and> linked h (y # zs)"
| "linked h _ \<longleftrightarrow> True"

definition ring :: "'a links \<Rightarrow> 'a \<Rightarrow> 'a list \<Rightarrow> bool" where
  "ring h p xs \<longleftrightarrow> distinct (p # xs) \<and> linked h (p # xs @ [p])"

lemma linked_append:
  "linked h (xs @ y # zs) \<longleftrightarrow> linked h (xs @ [y]) \<and> linked h (y # zs)"
proof (induction xs)
  case Nil
  then show ?case by simp
next
  case (Cons x xs)
  then show ?case by (cases xs) auto
qed

lemma linked_take: "linked h (xs @ y # zs) \<Longrightarrow> linked h (xs @ [y])"
  and linked_drop: "linked h (xs @ y # zs) \<Longrightarrow> linked h (y # zs)"
  by (simp_all only: linked_append [of h xs y zs])

lemma linked_cong:
  assumes "\<And>a. a \<in> set (butlast xs) \<Longrightarrow> nxt h' a = nxt h a"
    and "\<And>a. a \<in> set (tl xs) \<Longrightarrow> prv h' a = prv h a"
  shows "linked h' xs = linked h xs"
  using assms
proof (induction xs rule: induct_list012)
  case (3 x y zs)
  have "linked h' (y # zs) = linked h (y # zs)"
    by (rule "3.IH"(2)) (use "3.prems" in \<open>auto dest: in_set_butlastD list.set_sel(2) split: if_splits\<close>)
  with "3.prems"(1) [of x] "3.prems"(2) [of y] show ?case by simp
qed simp_all

lemma ring_frame:
  assumes "\<And>a. a \<in> set (p # xs) \<Longrightarrow> nxt h' a = nxt h a \<and> prv h' a = prv h a"
  shows "ring h' p xs = ring h p xs"
proof -
  have "linked h' (p # xs @ [p]) = linked h (p # xs @ [p])"
    by (rule linked_cong) (use assms in \<open>auto dest!: in_set_butlastD\<close>)
  then show ?thesis by (simp add: ring_def)
qed

lemma ring_empty_iff: "ring h p xs \<Longrightarrow> wmList_is_empty h p \<longleftrightarrow> xs = []"
  by (cases xs) (auto simp: ring_def wmList_is_empty_def)

lemma ring_first: "ring h p (x # xs) \<Longrightarrow> nxt h p = x"
  by (simp add: ring_def)

lemma ring_init: "ring (wmList_init h p) p []"
  by (simp add: ring_def wmList_init_def)

text \<open>The last node before the head, and what follows a node in the middle.\<close>

lemma ring_last: "ring h p xs \<Longrightarrow> prv h p = (if xs = [] then p else last xs)"
proof (cases xs rule: rev_cases)
  case Nil
  moreover assume "ring h p xs"
  ultimately show ?thesis by (simp add: ring_def)
next
  case (snoc ys y)
  moreover assume "ring h p xs"
  ultimately have "linked h ((p # ys) @ y # [p])" by (simp add: ring_def)
  then have "linked h (y # [p])" by (subst (asm) linked_append) simp
  with snoc show ?thesis by simp
qed

section \<open>Each operation on one ring\<close>

text \<open>
  Sequences of nodes that keep their links: the next fields of all but the last node and the
  previous fields of all but the first are unchanged.
\<close>

lemma linked_keep:
  assumes "linked h xs"
    and "\<And>a. a \<in> set (butlast xs) \<Longrightarrow> nxt h' a = nxt h a"
    and "\<And>a. a \<in> set (tl xs) \<Longrightarrow> prv h' a = prv h a"
  shows "linked h' xs"
  using assms linked_cong by blast

lemma wmList_add_back_links [link_simps]:
  assumes "n \<noteq> p" "prv h p \<noteq> n"
  shows "nxt (wmList_add_back h p n) = (nxt h)(n := p, prv h p := n)"
    and "prv (wmList_add_back h p n) = (prv h)(n := prv h p, p := n)"
  using assms by (auto simp: wmList_add_back_def Let_def fun_eq_iff)

lemma ring_add_back:
  assumes r: "ring h p xs" and n: "n \<notin> set (p # xs)"
  shows "ring (wmList_add_back h p n) p (xs @ [n])"
proof -
  define pre l where "pre = butlast (p # xs)" and "l = last (p # xs)"
  have pl: "p # xs = pre @ [l]" unfolding pre_def l_def by simp
  have d: "distinct (pre @ [l])" and "linked h ((pre @ [l]) @ [p])"
    using r unfolding ring_def pl [symmetric] by auto
  then have lk: "linked h (pre @ [l])" using linked_take [of h pre l "[p]"] by simp
  have pv: "prv h p = l" using ring_last [OF r] by (auto simp: l_def)
  have sp: "set (p # xs) = insert l (set pre)" unfolding pl by simp
  have nl: "n \<notin> set pre" "n \<noteq> l" "n \<noteq> p" using n sp by (simp_all only: insert_iff) auto
  let ?h = "wmList_add_back h p n"
  have nx: "nxt ?h = (nxt h)(n := p, l := n)" and pr: "prv ?h = (prv h)(n := l, p := n)"
    using wmList_add_back_links [of n p h] nl pv by auto
  have "p \<notin> set (tl (pre @ [l]))" using r pl by (metis distinct.simps(2) list.sel(3) ring_def)
  moreover have "n \<notin> set (tl (pre @ [l]))" using n pl by (metis list.sel(3) list.set_intros(2))
  ultimately have "linked ?h (pre @ [l])"
    using d nl by (intro linked_keep [OF lk]) (auto simp: nx pr)
  then have "linked ?h (pre @ l # [n, p])"
    using nl by (subst linked_append) (auto simp: nx pr)
  moreover have "p # (xs @ [n]) @ [p] = pre @ l # [n, p]" using pl by simp
  ultimately have "linked ?h (p # (xs @ [n]) @ [p])" by (simp only:)
  moreover have "distinct (p # xs @ [n])" using r n by (auto simp: ring_def)
  ultimately show ?thesis by (simp add: ring_def)
qed

lemma wmList_add_front_links [link_simps]:
  assumes "n \<noteq> p" "nxt h p \<noteq> n"
  shows "nxt (wmList_add_front h p n) = (nxt h)(n := nxt h p, p := n)"
    and "prv (wmList_add_front h p n) = (prv h)(n := p, nxt h p := n)"
  using assms by (auto simp: wmList_add_front_def Let_def fun_eq_iff)

lemma ring_add_front:
  assumes r: "ring h p xs" and n: "n \<notin> set (p # xs)"
  shows "ring (wmList_add_front h p n) p (n # xs)"
proof -
  obtain b post where bp: "xs @ [p] = b # post" by (cases "xs @ [p]") auto
  have lk: "linked h (b # post)" and nb: "nxt h p = b" and d: "distinct (p # xs)"
    using r unfolding ring_def bp by auto
  have b: "b \<in> set (p # xs)" using bp by (cases xs) auto
  then have nn: "n \<noteq> p" "n \<noteq> b" using n by auto
  let ?h = "wmList_add_front h p n"
  have nx: "nxt ?h = (nxt h)(n := b, p := n)" and pr: "prv ?h = (prv h)(n := p, b := n)"
    using wmList_add_front_links [of n p h] nn nb by auto
  have "butlast (b # post) = xs" using bp by (metis butlast_snoc)
  moreover have "b \<notin> set post" "n \<notin> set post"
    using bp d n by (cases xs; auto)+
  ultimately have "linked ?h (b # post)"
    using d n by (intro linked_keep [OF lk]) (auto simp: nx pr)
  then have "linked ?h (p # n # b # post)" using nn by (auto simp: nx pr)
  moreover have "p # (n # xs) @ [p] = p # n # b # post" using bp by simp
  ultimately show ?thesis using d n by (auto simp: ring_def)
qed

text \<open>
  Removing a node joins its neighbours \<open>a\<close> and \<open>b\<close> and leaves the node a ring of its own.
\<close>

lemma wmList_remote_links [link_simps]:
  assumes "nxt h n = b" "prv h n = a" "a \<noteq> n" "b \<noteq> n"
  shows "nxt (wmList_remote h n) = (nxt h)(a := b, n := n)"
    and "prv (wmList_remote h n) = (prv h)(b := a, n := n)"
  using assms by (auto simp: wmList_remote_def wmList_init_def Let_def fun_eq_iff)

lemma ring_neighbours:
  assumes "ring h p (xs @ n # ys)"
  shows "prv h n = last (p # xs)" "nxt h n = List.hd (ys @ [p])"
proof -
  define pre a where "pre = butlast (p # xs)" and "a = last (p # xs)"
  have pl: "p # xs = pre @ [a]" unfolding pre_def a_def by simp
  have lk: "linked h ((p # xs) @ n # (ys @ [p]))" using assms by (simp add: ring_def)
  note l1 = linked_take [OF lk] and l2 = linked_drop [OF lk]
  from l1 have "linked h (pre @ a # [n])" unfolding pl by simp
  then have "linked h (a # [n])" by (subst (asm) linked_append) simp
  then show "prv h n = last (p # xs)" by (simp add: a_def)
  from l2 show "nxt h n = List.hd (ys @ [p])" by (cases "ys @ [p]") auto
qed

lemma ring_remote:
  assumes r: "ring h p (xs @ n # ys)"
  shows "ring (wmList_remote h n) p (xs @ ys)"
proof -
  define pre a where "pre = butlast (p # xs)" and "a = last (p # xs)"
  have pl: "p # xs = pre @ [a]" unfolding pre_def a_def by simp
  obtain b post where bp: "ys @ [p] = b # post" by (cases "ys @ [p]") auto
  have d: "distinct (p # xs @ n # ys)" using r by (simp add: ring_def)
  have lk: "linked h ((p # xs) @ n # (ys @ [p]))" using r by (simp add: ring_def)
  have "linked h (pre @ a # [n])" using linked_take [OF lk] unfolding pl by simp
  then have l1: "linked h (pre @ [a])" by (rule linked_take)
  have "linked h ([n] @ b # post)" using linked_drop [OF lk] unfolding bp by simp
  then have l2: "linked h (b # post)" by (rule linked_drop)
  have am: "a \<in> set (p # xs)" and bm: "b \<in> set (p # ys)"
    unfolding a_def using bp by (auto intro: last_in_set) (cases ys; auto)
  have nn: "a \<noteq> n" "b \<noteq> n" using am bm d by auto
  have nb: "prv h n = a" "nxt h n = b" using ring_neighbours [OF r] bp by (auto simp: a_def)
  let ?h = "wmList_remote h n"
  have nx: "nxt ?h = (nxt h)(a := b, n := n)" and pr: "prv ?h = (prv h)(b := a, n := n)"
    using wmList_remote_links [OF nb(2) nb(1) nn] by auto
  have dp: "distinct (pre @ [a])" using d pl by (metis distinct_append append_Cons)
  have sp: "set (p # xs) = insert a (set pre)" unfolding pl by simp
  have tm: "tl (pre @ [a]) = xs" unfolding pl [symmetric] by simp
  have ap: "a \<notin> set pre" "b \<notin> set xs" "n \<notin> set xs" "n \<notin> set (p # xs)"
    using dp d bm by auto
  then have ap2: "n \<notin> set pre" unfolding sp by simp
  have "linked ?h (pre @ [a])"
    by (rule linked_keep [OF l1]) (use ap ap2 in \<open>auto simp: nx pr tm fun_upd_apply\<close>)
  moreover have "linked ?h (b # post)"
  proof (rule linked_keep [OF l2])
    have bl: "butlast (b # post) = ys" using bp by (metis butlast_snoc)
    show "\<And>c. c \<in> set (butlast (b # post)) \<Longrightarrow> nxt ?h c = nxt h c"
      using am d unfolding bl by (auto simp: nx)
    have "b \<notin> set post" "n \<notin> set post" using bp d by (cases ys; auto)+
    then show "\<And>c. c \<in> set (tl (b # post)) \<Longrightarrow> prv ?h c = prv h c" by (auto simp: pr)
  qed
  ultimately have "linked ?h (pre @ a # (b # post))"
    using nn by (subst linked_append) (auto simp: nx pr)
  moreover have "p # (xs @ ys) @ [p] = pre @ a # (b # post)" using pl bp by simp
  ultimately show ?thesis using d by (simp add: ring_def)
qed

text \<open>Splicing moves the whole first list in front of the second one.\<close>

lemma wmList_splice_links [link_simps]:
  assumes "nxt h p = x" "prv h p = y" "nxt h q = b" "x \<noteq> p" "y \<noteq> p" "b \<noteq> p" "q \<noteq> p"
  shows "nxt (wmList_splice h p q) = (nxt h)(q := x, y := b, p := p)"
    and "prv (wmList_splice h p q) = (prv h)(x := q, b := y, p := p)"
  using assms
  by (auto simp: wmList_splice_def wmList_is_empty_def wmList_init_def Let_def fun_eq_iff)

lemma ring_splice_empty: "ring h p [] \<Longrightarrow> wmList_splice h p q = h"
  by (simp add: wmList_splice_def ring_empty_iff)

lemma ring_splice:
  assumes rp: "ring h p xs" and rq: "ring h q ys" and ne: "xs \<noteq> []"
    and dj: "set (p # xs) \<inter> set (q # ys) = {}"
  shows "ring (wmList_splice h p q) q (xs @ ys)" "ring (wmList_splice h p q) p []"
proof -
  obtain b post where bp: "ys @ [q] = b # post" by (cases "ys @ [q]") auto
  obtain x xs1 where xx: "xs = x # xs1" using ne by (cases xs) auto
  obtain xs2 y where xy: "xs = xs2 @ [y]" using ne by (cases xs rule: rev_cases) auto
  have d: "distinct (p # xs)" "distinct (q # ys)" using rp rq by (simp_all add: ring_def)
  have lp: "linked h (p # (xs @ [p]))" and lq: "linked h (q # b # post)"
    using rp rq bp by (simp_all add: ring_def)
  have "linked h (xs @ [p])" using lp unfolding xx by simp
  then have "linked h (xs2 @ y # [p])" unfolding xy by simp
  then have l1: "linked h xs" using linked_take xy by metis
  have l2: "linked h (b # post)" using lq by simp
  have bm: "b \<in> set (q # ys)" using bp by (cases ys) auto
  have "nxt h p = x" using ring_first [of h p x xs1] rp xx by simp
  moreover have "prv h p = y" using ring_last [OF rp] xy by simp
  ultimately have lk: "nxt h p = x" "prv h p = y" "nxt h q = b" using lq by simp_all
  have "x \<in> set xs" unfolding xx by simp
  moreover have "y \<in> set xs" unfolding xy by simp
  ultimately have mem: "x \<in> set xs" "y \<in> set xs" .
  have ne': "x \<noteq> p" "y \<noteq> p" "b \<noteq> p" "q \<noteq> p" using mem d dj bm by auto
  let ?h = "wmList_splice h p q"
  have nx: "nxt ?h = (nxt h)(q := x, y := b, p := p)" and pr: "prv ?h = (prv h)(x := q, b := y, p := p)"
    using wmList_splice_links [OF lk ne'] by auto
  have dx: "distinct xs" using d(1) by simp
  have "y \<notin> set xs2" using dx unfolding xy by simp
  moreover have "x \<notin> set xs1" using dx unfolding xx by simp
  moreover have "butlast xs = xs2" unfolding xy by simp
  moreover have "tl xs = xs1" unfolding xx by simp
  ultimately have db: "y \<notin> set (butlast xs)" "x \<notin> set (tl xs)" by simp_all
  have k1: "linked ?h xs"
  proof (rule linked_keep [OF l1])
    show "\<And>a. a \<in> set (butlast xs) \<Longrightarrow> nxt ?h a = nxt h a"
      using db d dj by (auto simp: nx fun_upd_apply dest: in_set_butlastD)
    show "\<And>a. a \<in> set (tl xs) \<Longrightarrow> prv ?h a = prv h a"
      using db d dj bm ne by (auto simp: pr fun_upd_apply dest: list.set_sel(2))
  qed
  have k2: "linked ?h (b # post)"
  proof (rule linked_keep [OF l2])
    have "butlast (b # post) = ys" using bp by (metis butlast_snoc)
    then show "\<And>a. a \<in> set (butlast (b # post)) \<Longrightarrow> nxt ?h a = nxt h a"
      using d(2) mem dj by (auto simp: nx fun_upd_apply)
    have "set post \<subseteq> set (q # ys)" "b \<notin> set post" using bp d(2) by (cases ys; auto)+
    then show "\<And>a. a \<in> set (tl (b # post)) \<Longrightarrow> prv ?h a = prv h a"
      using mem dj by (auto simp: pr fun_upd_apply)
  qed
  have "nxt ?h y = b" "prv ?h b = y" "nxt ?h q = x" "prv ?h x = q"
    using ne' mem dj bm by (auto simp: nx pr fun_upd_apply)
  then have lk2: "linked ?h (y # b # post)" "nxt ?h q = x" "prv ?h x = q" using k2 by simp_all
  have "linked ?h (xs2 @ y # b # post)"
    using k1 lk2(1) unfolding xy by (simp only: linked_append [of _ xs2 y "b # post"])
  then have "linked ?h (xs @ b # post)" unfolding xy by simp
  then have "linked ?h (q # xs @ b # post)" using lk2(2,3) unfolding xx by simp
  moreover have "q # (xs @ ys) @ [q] = q # xs @ b # post" using bp by simp
  ultimately have "linked ?h (q # (xs @ ys) @ [q])" by (simp only:)
  moreover have "distinct (q # xs @ ys)" using d dj by auto
  ultimately show "ring ?h q (xs @ ys)" by (simp add: ring_def)
  show "ring ?h p []" by (simp add: ring_def nx pr)
qed

section \<open>All the lists of a heap\<close>

text \<open>
  \<open>rings h L\<close>: every head of \<open>L\<close> owns the ring \<open>L\<close> gives it, and no address belongs to two
  rings. \<open>unused L n\<close>: the address belongs to none of them.
\<close>

definition rings :: "'a links \<Rightarrow> ('a \<rightharpoonup> 'a list) \<Rightarrow> bool" where
  "rings h L \<longleftrightarrow>
    (\<forall>p xs. L p = Some xs \<longrightarrow> ring h p xs) \<and>
    (\<forall>p xs q ys. L p = Some xs \<longrightarrow> L q = Some ys \<longrightarrow> p \<noteq> q \<longrightarrow> set (p # xs) \<inter> set (q # ys) = {})"

definition unused :: "('a \<rightharpoonup> 'a list) \<Rightarrow> 'a \<Rightarrow> bool" where
  "unused L n \<longleftrightarrow> (\<forall>p xs. L p = Some xs \<longrightarrow> n \<notin> set (p # xs))"

text \<open>
  The general update argument: an operation that turns the rings of some heads into new ones
  and keeps the links of every address outside them acts on the family as a map update.
\<close>

lemma rings_update:
  assumes r: "rings h L" and D: "\<And>p xs. M p = Some xs \<Longrightarrow> ring h' p xs"
    and dM: "\<And>p xs q ys. M p = Some xs \<Longrightarrow> M q = Some ys \<Longrightarrow> p \<noteq> q \<Longrightarrow> set (p # xs) \<inter> set (q # ys) = {}"
    and A: "\<And>p xs. M p = Some xs \<Longrightarrow> set (p # xs) \<subseteq> A"
    and keep: "\<And>a. a \<notin> A \<Longrightarrow> nxt h' a = nxt h a \<and> prv h' a = prv h a"
    and out: "\<And>p xs. L p = Some xs \<Longrightarrow> M p = None \<Longrightarrow> set (p # xs) \<inter> A = {}"
  shows "rings h' (L ++ M)"
proof -
  have old: "ring h' p xs" if "L p = Some xs" "M p = None" for p xs
  proof -
    have "ring h p xs" using r that(1) by (auto simp: rings_def)
    moreover have "\<And>a. a \<in> set (p # xs) \<Longrightarrow> nxt h' a = nxt h a \<and> prv h' a = prv h a"
      using out [OF that] keep by auto
    ultimately show ?thesis using ring_frame [of p xs h' h] by blast
  qed
  have mix: "set (p # xs) \<inter> set (q # ys) = {}"
    if "L p = Some xs" "M p = None" "M q = Some ys" for p xs q ys
    using out [OF that(1,2)] A [OF that(3)] by auto
  have dj: "set (p # xs) \<inter> set (q # ys) = {}"
    if "(L ++ M) p = Some xs" "(L ++ M) q = Some ys" "p \<noteq> q" for p xs q ys
  proof (cases "M p"; cases "M q")
    assume "M p = None" "M q = None"
    then show ?thesis using r that by (auto simp: rings_def map_add_def)
  next
    fix zs assume "M p = None" "M q = Some zs"
    then show ?thesis using mix [of p xs q ys] that by (simp add: map_add_def)
  next
    fix zs assume "M p = Some zs" "M q = None"
    then show ?thesis using mix [of q ys p xs] that by (simp add: map_add_def Int_commute)
  next
    fix zs ws assume "M p = Some zs" "M q = Some ws"
    then show ?thesis using dM [of p xs q ys] that by (simp add: map_add_def)
  qed
  have rg: "ring h' p xs" if "(L ++ M) p = Some xs" for p xs
    using that D [of p xs] old [of p xs] by (cases "M p") (simp_all add: map_add_def)
  show ?thesis unfolding rings_def
  proof (intro conjI allI impI)
    fix p xs assume "(L ++ M) p = Some xs"
    then show "ring h' p xs" by (rule rg)
  next
    fix p xs q ys assume "(L ++ M) p = Some xs" "(L ++ M) q = Some ys" "p \<noteq> q"
    then show "set (p # xs) \<inter> set (q # ys) = {}" by (rule dj)
  qed
qed

lemma rings_ring: "rings h L \<Longrightarrow> L p = Some xs \<Longrightarrow> ring h p xs"
  by (auto simp: rings_def)

lemma rings_disjoint:
  "rings h L \<Longrightarrow> L p = Some xs \<Longrightarrow> L q = Some ys \<Longrightarrow> p \<noteq> q \<Longrightarrow> set (p # xs) \<inter> set (q # ys) = {}"
  unfolding rings_def by blast

lemma rings_init:
  assumes "rings h L" "unused L n"
  shows "rings (wmList_init h n) (L(n \<mapsto> []))"
proof -
  have "rings (wmList_init h n) (L ++ [n \<mapsto> []])"
    by (rule rings_update [OF assms(1), where A = "{n}"])
      (use assms(2) in \<open>auto simp: ring_init link_simps unused_def split: if_splits\<close>)
  then show ?thesis by simp
qed

lemma rings_init_again:
  assumes "rings h L" "L p = Some []"
  shows "rings (wmList_init h p) L"
proof -
  have "rings (wmList_init h p) (L ++ [p \<mapsto> []])"
    by (rule rings_update [OF assms(1), where A = "{p}"])
      (use rings_disjoint [OF assms(1) assms(2)] in
        \<open>auto simp: ring_init link_simps split: if_splits\<close>)
  moreover have "L ++ [p \<mapsto> []] = L" using assms(2) by (auto simp: map_add_def fun_eq_iff)
  ultimately show ?thesis by simp
qed

lemma ring_back_in: "ring h p xs \<Longrightarrow> prv h p \<in> set (p # xs)"
  by (auto simp: ring_last)

lemma ring_front_in: "ring h p xs \<Longrightarrow> nxt h p \<in> set (p # xs)"
  by (cases xs) (auto simp: ring_def)

lemma rings_add_back:
  assumes "rings h L" "L p = Some xs" "unused L n"
  shows "rings (wmList_add_back h p n) (L(p \<mapsto> xs @ [n]))"
proof -
  note r = rings_ring [OF assms(1,2)]
  have n: "n \<notin> set (p # xs)" using assms(2,3) by (auto simp: unused_def)
  have lk: "n \<noteq> p" "prv h p \<noteq> n" using n ring_back_in [OF r] by auto
  have "rings (wmList_add_back h p n) (L ++ [p \<mapsto> xs @ [n]])"
  proof (rule rings_update [OF assms(1), where A = "insert n (set (p # xs))"])
    fix a assume "a \<notin> insert n (set (p # xs))"
    then show "nxt (wmList_add_back h p n) a = nxt h a \<and> prv (wmList_add_back h p n) a = prv h a"
      using ring_back_in [OF r] by (auto simp: wmList_add_back_links [OF lk])
  next
    fix q ys assume "L q = Some ys" "[p \<mapsto> xs @ [n]] q = None"
    then show "set (q # ys) \<inter> insert n (set (p # xs)) = {}"
      using rings_disjoint [OF assms(1) _ assms(2), of q ys] assms(3)
      by (auto simp: unused_def split: if_splits)
  qed (use ring_add_back [OF r n] in \<open>auto split: if_splits\<close>)
  then show ?thesis by simp
qed

lemma rings_add_front:
  assumes "rings h L" "L p = Some xs" "unused L n"
  shows "rings (wmList_add_front h p n) (L(p \<mapsto> n # xs))"
proof -
  note r = rings_ring [OF assms(1,2)]
  have n: "n \<notin> set (p # xs)" using assms(2,3) by (auto simp: unused_def)
  have lk: "n \<noteq> p" "nxt h p \<noteq> n" using n ring_front_in [OF r] by auto
  have "rings (wmList_add_front h p n) (L ++ [p \<mapsto> n # xs])"
  proof (rule rings_update [OF assms(1), where A = "insert n (set (p # xs))"])
    fix a assume "a \<notin> insert n (set (p # xs))"
    then show "nxt (wmList_add_front h p n) a = nxt h a \<and> prv (wmList_add_front h p n) a = prv h a"
      using ring_front_in [OF r] by (auto simp: wmList_add_front_links [OF lk])
  next
    fix q ys assume "L q = Some ys" "[p \<mapsto> n # xs] q = None"
    then show "set (q # ys) \<inter> insert n (set (p # xs)) = {}"
      using rings_disjoint [OF assms(1) _ assms(2), of q ys] assms(3)
      by (auto simp: unused_def split: if_splits)
  qed (use ring_add_front [OF r n] in \<open>auto split: if_splits\<close>)
  then show ?thesis by simp
qed

lemma rings_remote:
  assumes "rings h L" "L p = Some (xs @ n # ys)"
  shows "rings (wmList_remote h n) (L(p \<mapsto> xs @ ys))" "wmList_is_empty (wmList_remote h n) n"
proof -
  note r = rings_ring [OF assms]
  note nb = ring_neighbours [OF r]
  have d: "distinct (p # xs @ n # ys)" using r by (simp add: ring_def)
  have a: "prv h n \<in> set (p # xs @ ys)" unfolding nb(1) by (cases xs rule: rev_cases) auto
  have b: "nxt h n \<in> set (p # xs @ ys)" unfolding nb(2) by (cases ys) auto
  have ne: "prv h n \<noteq> n" "nxt h n \<noteq> n" using a b d by auto
  note lk = wmList_remote_links [OF refl refl ne]
  have "rings (wmList_remote h n) (L ++ [p \<mapsto> xs @ ys])"
  proof (rule rings_update [OF assms(1), where A = "set (p # xs @ n # ys)"])
    fix c assume "c \<notin> set (p # xs @ n # ys)"
    then show "nxt (wmList_remote h n) c = nxt h c \<and> prv (wmList_remote h n) c = prv h c"
      using a b by (auto simp: lk)
  next
    fix q zs assume "L q = Some zs" "[p \<mapsto> xs @ ys] q = None"
    then show "set (q # zs) \<inter> set (p # xs @ n # ys) = {}"
      using rings_disjoint [OF assms(1) _ assms(2), of q zs] by (auto split: if_splits)
  qed (use ring_remote [OF r] in \<open>auto split: if_splits\<close>)
  then show "rings (wmList_remote h n) (L(p \<mapsto> xs @ ys))" by simp
  show "wmList_is_empty (wmList_remote h n) n" by (simp add: wmList_is_empty_def lk)
qed

lemma rings_splice:
  assumes "rings h L" "L p = Some xs" "L q = Some ys" "p \<noteq> q"
  shows "rings (wmList_splice h p q) (L(p \<mapsto> [], q \<mapsto> xs @ ys))"
proof (cases "xs = []")
  case True
  then have "L(p \<mapsto> [], q \<mapsto> xs @ ys) = L" using assms(2,3) by (auto simp: fun_eq_iff)
  then show ?thesis
    using assms(1) True ring_splice_empty rings_ring [OF assms(1,2)] by fastforce
next
  case False
  note rp = rings_ring [OF assms(1,2)] and rq = rings_ring [OF assms(1,3)]
  note dj = rings_disjoint [OF assms(1-4)]
  note ra = ring_splice [OF rp rq False dj]
  have m: "nxt h p \<in> set xs" "prv h p \<in> set xs" "nxt h q \<in> set (q # ys)"
    using rp False ring_last [OF rp] ring_front_in [OF rq] by (cases xs; auto simp: ring_def)+
  have ne: "nxt h p \<noteq> p" "prv h p \<noteq> p" "nxt h q \<noteq> p"
    using m dj rp by (auto simp: ring_def)
  have px: "p \<notin> set xs" using rp by (simp add: ring_def)
  note lk = wmList_splice_links [OF refl refl refl ne assms(4) [symmetric]]
  have "rings (wmList_splice h p q) (L ++ [p \<mapsto> [], q \<mapsto> xs @ ys])"
  proof (rule rings_update [OF assms(1), where A = "set (p # xs) \<union> set (q # ys)"])
    fix c assume "c \<notin> set (p # xs) \<union> set (q # ys)"
    then show "nxt (wmList_splice h p q) c = nxt h c \<and> prv (wmList_splice h p q) c = prv h c"
      using m by (auto simp: lk)
  next
    fix r zs assume "L r = Some zs" "[p \<mapsto> [], q \<mapsto> xs @ ys] r = None"
    then show "set (r # zs) \<inter> (set (p # xs) \<union> set (q # ys)) = {}"
      using rings_disjoint [OF assms(1) _ assms(2), of r zs]
        rings_disjoint [OF assms(1) _ assms(3), of r zs] by (auto split: if_splits)
  qed (use ra dj assms(4) px in \<open>auto split: if_splits\<close>)
  then show ?thesis by simp
qed

lemma rings_submap: "rings h L \<Longrightarrow> M \<subseteq>\<^sub>m L \<Longrightarrow> rings h M"
  unfolding rings_def by (metis domI map_le_def)

lemma rings_write_unused:
  assumes "rings h L" "unused L n"
  shows "rings (set_nxt h n a) L" "rings (set_prv h n a) L"
proof -
  have "ring (set_nxt h n a) p xs \<and> ring (set_prv h n a) p xs" if "L p = Some xs" for p xs
  proof -
    have n: "n \<notin> set (p # xs)" using assms(2) that by (auto simp: unused_def)
    have "ring (set_nxt h n a) p xs = ring h p xs"
      by (rule ring_frame) (use n in auto)
    moreover have "ring (set_prv h n a) p xs = ring h p xs"
      by (rule ring_frame) (use n in auto)
    ultimately show ?thesis using rings_ring [OF assms(1) that] by simp
  qed
  then show "rings (set_nxt h n a) L" "rings (set_prv h n a) L"
    using assms(1) by (auto simp: rings_def)
qed

section \<open>The interface\<close>

text \<open>
  What the clients of the lists (queues and timer wheel) rely on: a representation predicate
  that gives every head its list, and the effect of each operation on it.
\<close>

locale linked_lists =
  fixes init :: "'h \<Rightarrow> 'a \<Rightarrow> 'h"
    and add_back :: "'h \<Rightarrow> 'a \<Rightarrow> 'a \<Rightarrow> 'h"
    and remote :: "'h \<Rightarrow> 'a \<Rightarrow> 'h"
    and splice :: "'h \<Rightarrow> 'a \<Rightarrow> 'a \<Rightarrow> 'h"
    and is_empty :: "'h \<Rightarrow> 'a \<Rightarrow> bool"
    and first :: "'h \<Rightarrow> 'a \<Rightarrow> 'a"
    and rep :: "'h \<Rightarrow> ('a \<rightharpoonup> 'a list) \<Rightarrow> bool"
  assumes init_new: "rep h L \<Longrightarrow> unused L n \<Longrightarrow> rep (init h n) (L(n \<mapsto> []))"
    and init_again: "rep h L \<Longrightarrow> L p = Some [] \<Longrightarrow> rep (init h p) L"
    and add_back_rep: "rep h L \<Longrightarrow> L p = Some xs \<Longrightarrow> unused L n \<Longrightarrow> rep (add_back h p n) (L(p \<mapsto> xs @ [n]))"
    and remote_rep: "rep h L \<Longrightarrow> L p = Some (xs @ n # ys) \<Longrightarrow> rep (remote h n) (L(p \<mapsto> xs @ ys))"
    and splice_rep: "rep h L \<Longrightarrow> L p = Some xs \<Longrightarrow> L q = Some ys \<Longrightarrow> p \<noteq> q
                     \<Longrightarrow> rep (splice h p q) (L(p \<mapsto> [], q \<mapsto> xs @ ys))"
    and is_empty_rep: "rep h L \<Longrightarrow> L p = Some xs \<Longrightarrow> is_empty h p \<longleftrightarrow> xs = []"
    and first_rep: "rep h L \<Longrightarrow> L p = Some (x # xs) \<Longrightarrow> first h p = x"
    and in_list_nonempty: "rep h L \<Longrightarrow> L p = Some (xs @ n # ys) \<Longrightarrow> \<not> is_empty h n"
    and distinct_rep: "rep h L \<Longrightarrow> L p = Some xs \<Longrightarrow> distinct (p # xs)"
    and disjoint_rep: "rep h L \<Longrightarrow> L p = Some xs \<Longrightarrow> L q = Some ys \<Longrightarrow> p \<noteq> q
                       \<Longrightarrow> set (p # xs) \<inter> set (q # ys) = {}"
begin

lemma remote_unused:
  assumes "rep h L" "L p = Some (xs @ n # ys)"
  shows "unused (L(p \<mapsto> xs @ ys)) n"
  using distinct_rep [OF assms] disjoint_rep [OF assms(1) _ assms(2)]
  by (fastforce simp: unused_def)

text \<open>Taking the first node off a list, as every loop over a list does.\<close>

lemma pop_first:
  assumes "rep h L" "L p = Some (x # xs)"
  shows "\<not> is_empty h p" "first h p = x" "rep (remote h x) (L(p \<mapsto> xs))" "unused (L(p \<mapsto> xs)) x"
  using assms is_empty_rep first_rep remote_rep [of h L p "[]"] remote_unused [of h L p "[]"]
  by auto

text \<open>Moving the first node of one list to the back of another one.\<close>

lemma move_first:
  assumes "rep h L" "L p = Some (x # xs)" "L q = Some ys" "p \<noteq> q"
  shows "rep (add_back (remote h x) q x) (L(p \<mapsto> xs, q \<mapsto> ys @ [x]))"
  using add_back_rep [OF pop_first(3) [OF assms(1,2)], of q ys x] assms
    pop_first(4) [OF assms(1,2)] by simp

text \<open>A node is in one list only.\<close>

lemma in_one_list:
  assumes "rep h L" "L p = Some xs" "L q = Some ys" "n \<in> set xs" "n \<in> set ys"
  shows "p = q"
  using disjoint_rep [OF assms(1-3)] assms(4,5) by auto

lemma head_in_no_list:
  assumes "rep h L" "L p = Some xs" "L q = Some ys"
  shows "p \<notin> set ys"
  using disjoint_rep [OF assms] distinct_rep [OF assms(1,3)] by (cases "p = q") auto

end

interpretation wl: linked_lists wmList_init wmList_add_back wmList_remote wmList_splice
    wmList_is_empty nxt rings
proof unfold_locales
  fix h :: "'a links" and L p xs n ys assume "rings h L" "L p = Some (xs @ n # ys)"
  then have r: "ring h p (xs @ n # ys)" by (rule rings_ring)
  have "nxt h n \<noteq> n" using ring_neighbours(2) [OF r] r by (cases ys) (auto simp: ring_def)
  then show "\<not> wmList_is_empty h n" by (simp add: wmList_is_empty_def)
next
  fix h :: "'a links" and L p xs assume "rings h L" "L p = Some xs"
  then show "distinct (p # xs)" using rings_ring ring_def by metis
qed (blast intro: rings_init rings_init_again rings_add_back rings_remote rings_splice
      dest: rings_ring rings_disjoint ring_empty_iff ring_first)+

end
