(* ===== verification/Wm_Timer.thy ===== *)
theory Wm_Timer
  imports Wm_List
begin

text \<open>
  The hierarchical timer wheel of \<open>src/core/timer.c\<close> and \<open>include/timer.h\<close>: a first wheel of 256
  slots and four wheels of 64 slots, each slot a list head of \<open>include/list.h\<close>, the nodes linked
  into them through their own link fields. Ticks are 32-bit and wrap. The loops over a list are
  \<open>partial_function\<close>s in the option type; the theory proves that they return. \<open>None\<close> stands for
  undefined behaviour (use of a freed node) or for a loop that does not return.
\<close>

section \<open>Data\<close>

text \<open>
  Addresses: the slot heads inside the wheel, the two list heads that live on the C stack (in
  \<open>_timerwheel_cascade\<close> and \<open>_wmTimerWheelick\<close>), the allocated nodes, and the null pointer.
\<close>

datatype taddr = Root nat | Tv nat nat | SoLong | CascHead | TickHead | Node nat | NullA

record timernode =
  userdata :: nat
  callback :: "nat option"
  expire :: u32

record wheel =
  lnk :: "taddr links"
  nodes :: "nat \<rightharpoonup> timernode"
  next_node :: nat
  lasttime :: u64
  currtick :: u32
  interval :: u16
  remainder :: u16
  tw_num :: u32

definition TVR_BITS :: nat where "TVR_BITS = 8"
definition TVN_BITS :: nat where "TVN_BITS = 6"
definition TVR_SIZE :: u32 where "TVR_SIZE = push_bit TVR_BITS 1"
definition TVN_SIZE :: u32 where "TVN_SIZE = push_bit TVN_BITS 1"
definition TVR_MASK :: u32 where "TVR_MASK = TVR_SIZE - 1"
definition TVN_MASK :: u32 where "TVN_MASK = TVN_SIZE - 1"

definition FIRST_INDEX :: "u32 \<Rightarrow> nat" where
  "FIRST_INDEX v = unat (v AND TVR_MASK)"

definition NTH_INDEX :: "u32 \<Rightarrow> nat \<Rightarrow> nat" where
  "NTH_INDEX v n = unat (drop_bit (TVR_BITS + n * TVN_BITS) v AND TVN_MASK)"

section \<open>Operations\<close>

text \<open>
  \<open>wmTimerWheel_init\<close> clears the structure and makes every slot head an empty list. The heap of
  nodes is not part of the structure: it is the allocator's, and is left as it is.
\<close>

definition init_heads :: "taddr links \<Rightarrow> taddr list \<Rightarrow> taddr links" where
  "init_heads h ps = fold (\<lambda>p h. wmList_init h p) ps h"

definition slot_list :: "taddr list" where
  "slot_list = map Root [0..<unat TVR_SIZE]
     @ concat (map (\<lambda>i. map (Tv i) [0..<unat TVN_SIZE]) [0..<4]) @ [SoLong]"

definition wmTimerWheel_init :: "'z wheel_scheme \<Rightarrow> u16 \<Rightarrow> u64 \<Rightarrow> 'z wheel_scheme" where
  "wmTimerWheel_init tw intv currtime =
     tw\<lparr>lnk := init_heads (lnk tw) slot_list, lasttime := currtime, currtick := 0,
        interval := intv, remainder := 0, tw_num := 0\<rparr>"

text \<open>The slot search of \<open>_wmTimerWheel_add\<close>: the loop over the four larger wheels.\<close>

function slot_search :: "u32 \<Rightarrow> u32 \<Rightarrow> nat \<Rightarrow> taddr option" where
  "slot_search expi idx i =
    (if i < 4 then
       if (ucast idx :: u64) < push_bit (TVR_BITS + (i + 1) * TVN_BITS) 1
       then Some (Tv i (NTH_INDEX expi i))
       else slot_search expi idx (i + 1)
     else None)"
  by pat_completeness auto
termination
  by (relation "measure (\<lambda>(e, x, i). 4 - i)") auto

definition wheel_slot :: "u32 \<Rightarrow> u32 \<Rightarrow> taddr" where
  "wheel_slot ct expi =
    (let idx = expi - ct in
     if idx < TVR_SIZE then Root (FIRST_INDEX expi)
     else case slot_search expi idx 0 of Some s \<Rightarrow> s | None \<Rightarrow> SoLong)"

text \<open>\<open>_wmTimerWheel_add\<close>: append the node to its slot.\<close>

definition add_node :: "'z wheel_scheme \<Rightarrow> nat \<Rightarrow> 'z wheel_scheme option" where
  "add_node tw n =
    (case nodes tw n of
       None \<Rightarrow> None
     | Some nd \<Rightarrow> Some (tw\<lparr>lnk := wmList_add_back (lnk tw) (wheel_slot (currtick tw) (expire nd)) (Node n)\<rparr>))"

definition wmTimerWheel_add :: "'z wheel_scheme \<Rightarrow> nat \<Rightarrow> u32 \<Rightarrow> 'z wheel_scheme option" where
  "wmTimerWheel_add tw n ticks =
    (case nodes tw n of
       None \<Rightarrow> None
     | Some nd \<Rightarrow>
         let nd = nd\<lparr>expire := currtick tw + (if 0 < ticks then ticks else 1)\<rparr>;
             tw = tw\<lparr>nodes := (nodes tw)(n \<mapsto> nd)\<rparr> in
         map_option (\<lambda>tw. tw\<lparr>tw_num := tw_num tw + 1\<rparr>) (add_node tw n))"

text \<open>
  \<open>wmTimerWheel_add_quick\<close>: allocate a node (a fresh address), \<open>wmTimerWheel_node_init\<close>, add it.
\<close>

definition wmTimerWheel_node_init :: "'z wheel_scheme \<Rightarrow> nat \<Rightarrow> nat option \<Rightarrow> nat \<Rightarrow> 'z wheel_scheme" where
  "wmTimerWheel_node_init tw n cb ud =
     tw\<lparr>lnk := set_prv (set_nxt (lnk tw) (Node n) NullA) (Node n) NullA,
        nodes := (nodes tw)(n \<mapsto> \<lparr>userdata = ud, callback = cb, expire = 0\<rparr>)\<rparr>"

definition wmTimerWheel_add_quick ::
    "'z wheel_scheme \<Rightarrow> nat option \<Rightarrow> nat \<Rightarrow> u32 \<Rightarrow> (nat \<times> 'z wheel_scheme) option" where
  "wmTimerWheel_add_quick tw cb ud ticks =
    (let n = next_node tw;
         tw = wmTimerWheel_node_init (tw\<lparr>next_node := n + 1\<rparr>) n cb ud in
     map_option (\<lambda>tw. (n, tw)) (wmTimerWheel_add tw n ticks))"

text \<open>
  \<open>wmTimerWheel_del\<close> takes a pointer that may be null; it does not touch the counter \<open>num\<close>.
\<close>

definition wmTimerWheel_del :: "'z wheel_scheme \<Rightarrow> nat option \<Rightarrow> (int \<times> 'z wheel_scheme) option" where
  "wmTimerWheel_del tw node =
    (case node of
       None \<Rightarrow> Some (1, tw)
     | Some n \<Rightarrow>
         if nodes tw n = None then None
         else if \<not> wmList_is_empty (lnk tw) (Node n)
         then Some (1, tw\<lparr>lnk := wmList_remote (lnk tw) (Node n), nodes := (nodes tw)(n := None)\<rparr>)
         else Some (0, tw))"

text \<open>\<open>_timerwheel_cascade\<close>: empty a slot into a local list, then re-add its nodes one by one.\<close>

partial_function (option) cascade_drain :: "'z wheel_scheme \<Rightarrow> 'z wheel_scheme option" where
  "cascade_drain tw =
    (if wmList_is_empty (lnk tw) CascHead then Some tw
     else case nxt (lnk tw) CascHead of
         Node n \<Rightarrow> Option.bind (add_node (tw\<lparr>lnk := wmList_remote (lnk tw) (Node n)\<rparr>) n) cascade_drain
       | _ \<Rightarrow> None)"

definition timerwheel_cascade :: "'z wheel_scheme \<Rightarrow> taddr \<Rightarrow> 'z wheel_scheme option" where
  "timerwheel_cascade tw head1 =
     cascade_drain (tw\<lparr>lnk := wmList_splice (wmList_init (lnk tw) CascHead) head1 CascHead\<rparr>)"

text \<open>The \<open>do ... while\<close> loop that turns the larger wheels, level by level.\<close>

function cascade_levels :: "'z wheel_scheme \<Rightarrow> nat \<Rightarrow> 'z wheel_scheme option" where
  "cascade_levels tw i =
    (let idx = NTH_INDEX (currtick tw) i in
     Option.bind (timerwheel_cascade tw (Tv i idx)) (\<lambda>tw.
     Option.bind (if i = 3 then timerwheel_cascade tw SoLong else Some tw) (\<lambda>tw.
     if idx = 0 \<and> i + 1 < 4 then cascade_levels tw (i + 1) else Some tw)))"
  by pat_completeness auto
termination
  by (relation "measure (\<lambda>(tw, i). 4 - i)") auto

text \<open>
  The loop that fires the nodes of the current slot. \<open>call\<close> is the code behind the callback
  pointers; it may change the wheel and everything else (the record is extensible).
\<close>

partial_function (option) fire ::
    "(nat \<Rightarrow> nat \<Rightarrow> 'z wheel_scheme \<Rightarrow> 'z wheel_scheme option) \<Rightarrow> 'z wheel_scheme \<Rightarrow> 'z wheel_scheme option" where
  "fire call tw =
    (if wmList_is_empty (lnk tw) TickHead then Some tw
     else case nxt (lnk tw) TickHead of
         Node n \<Rightarrow>
           (let tw1 = tw\<lparr>lnk := wmList_remote (lnk tw) (Node n), tw_num := tw_num tw - 1\<rparr> in
            case nodes tw1 n of
              None \<Rightarrow> None
            | Some nd \<Rightarrow>
               (case callback nd of
                  None \<Rightarrow> fire call tw1
                | Some cb \<Rightarrow> Option.bind (call cb (userdata nd) tw1)
                    (\<lambda>tw2. fire call (tw2\<lparr>nodes := (nodes tw2)(n := None)\<rparr>))))
       | _ \<Rightarrow> None)"

text \<open>\<open>_wmTimerWheelick\<close>: one tick.\<close>

definition wmTimerWheelick ::
    "(nat \<Rightarrow> nat \<Rightarrow> 'z wheel_scheme \<Rightarrow> 'z wheel_scheme option) \<Rightarrow> 'z wheel_scheme \<Rightarrow> 'z wheel_scheme option" where
  "wmTimerWheelick call tw =
    (let tw = tw\<lparr>currtick := currtick tw + 1\<rparr>;
         index = unat (currtick tw AND TVR_MASK) in
     Option.bind (if index = 0 then cascade_levels tw 0 else Some tw) (\<lambda>tw.
     fire call (tw\<lparr>lnk := wmList_splice (wmList_init (lnk tw) TickHead) (Root index) TickHead\<rparr>)))"

text \<open>
  \<open>wmTimerWheel_update\<close>: \<open>diff\<close> and \<open>intv\<close> are C \<open>int\<close>s, so the 64-bit elapsed time is
  truncated to 32 bits and read as a signed number; the rest is stored in 16 bits. The loop ends
  only when the interval is positive.
\<close>

partial_function (option) tick_loop ::
    "(nat \<Rightarrow> nat \<Rightarrow> 'z wheel_scheme \<Rightarrow> 'z wheel_scheme option) \<Rightarrow> int \<Rightarrow> int \<Rightarrow> 'z wheel_scheme
     \<Rightarrow> (int \<times> 'z wheel_scheme) option" where
  "tick_loop call intv diff tw =
    (if intv \<le> diff
     then Option.bind (wmTimerWheelick call tw) (tick_loop call intv (diff - intv))
     else Some (diff, tw))"

definition wmTimerWheel_update ::
    "(nat \<Rightarrow> nat \<Rightarrow> 'z wheel_scheme \<Rightarrow> 'z wheel_scheme option) \<Rightarrow> 'z wheel_scheme \<Rightarrow> u64 \<Rightarrow> 'z wheel_scheme option" where
  "wmTimerWheel_update call tw currtime =
    (if lasttime tw < currtime then
       let diff = sint (ucast (currtime - lasttime tw + ucast (remainder tw)) :: u32);
           intv = uint (interval tw) in
       map_option (\<lambda>(rest, tw). tw\<lparr>remainder := word_of_int rest\<rparr>)
         (tick_loop call intv diff (tw\<lparr>lasttime := currtime\<rparr>))
     else Some tw)"

text \<open>
  \<open>wmTimerWheel_clear\<close>: three groups of loops that free the nodes of a slot. The second group
  walks \<open>tw->tvroot.vec + j\<close>, not \<open>tw->tv[i].vec + j\<close>, and is translated as written.
\<close>

partial_function (option) free_drain :: "'z wheel_scheme \<Rightarrow> 'z wheel_scheme option" where
  "free_drain tw =
    (if wmList_is_empty (lnk tw) TickHead then Some tw
     else case nxt (lnk tw) TickHead of
         Node n \<Rightarrow> free_drain (tw\<lparr>lnk := wmList_remote (lnk tw) (Node n), nodes := (nodes tw)(n := None)\<rparr>)
       | _ \<Rightarrow> None)"

definition clear_slot :: "taddr \<Rightarrow> 'z wheel_scheme \<Rightarrow> 'z wheel_scheme option" where
  "clear_slot p tw =
     free_drain (tw\<lparr>lnk := wmList_splice (wmList_init (lnk tw) TickHead) p TickHead\<rparr>)"

fun clear_slots :: "taddr list \<Rightarrow> 'z wheel_scheme \<Rightarrow> 'z wheel_scheme option" where
  "clear_slots [] tw = Some tw"
| "clear_slots (p # ps) tw = Option.bind (clear_slot p tw) (clear_slots ps)"

definition wmTimerWheel_clear :: "'z wheel_scheme \<Rightarrow> 'z wheel_scheme option" where
  "wmTimerWheel_clear tw =
    Option.bind (clear_slots (map Root [0..<unat TVR_SIZE]) tw) (\<lambda>tw.
    Option.bind (clear_slots (concat (map (\<lambda>i. map Root [0..<unat TVN_SIZE]) [0..<4])) tw) (\<lambda>tw.
    map_option (\<lambda>tw. tw\<lparr>tw_num := 0\<rparr>) (clear_slot SoLong tw)))"

end
