(* ===== verification/Wm_Timer_Slots.thy ===== *)
theory Wm_Timer_Slots
  imports Wm_Timer
begin

text \<open>
  Where the timer wheel puts a node: the index computations of \<open>src/core/timer.c\<close> read as
  arithmetic, the condition that ties a slot to the expiry of its nodes, and how this condition
  changes when the tick counter advances (32-bit wrap-around included).
\<close>

section \<open>The index computations as arithmetic\<close>

lemma TVR_values [simp]: "TVR_SIZE = 256" "TVR_MASK = 255" "TVN_SIZE = 64" "TVN_MASK = 63"
    "TVR_BITS = 8" "TVN_BITS = 6"
  by (simp_all add: TVR_SIZE_def TVR_MASK_def TVN_SIZE_def TVN_MASK_def TVR_BITS_def TVN_BITS_def)

lemma unat_and_255: "unat ((v :: u32) AND 255) = unat v mod 256"
proof -
  have "v AND 255 = v mod 256"
    using word_mod_2p_is_mask [of 8 v] by (simp add: mask_eq_exp_minus_1)
  then show ?thesis by (simp add: unat_mod_distrib)
qed

lemma unat_and_63: "unat ((v :: u32) AND 63) = unat v mod 64"
proof -
  have "v AND 63 = v mod 64"
    using word_mod_2p_is_mask [of 6 v] by (simp add: mask_eq_exp_minus_1)
  then show ?thesis by (simp add: unat_mod_distrib)
qed

lemma FIRST_INDEX_eq: "FIRST_INDEX v = unat v mod 256"
  by (simp add: FIRST_INDEX_def unat_and_255)

lemma NTH_INDEX_eq: "NTH_INDEX v i = unat v div 2 ^ (8 + i * 6) mod 64"
proof -
  have "unat (drop_bit (8 + i * 6) v) = unat v div 2 ^ (8 + i * 6)"
    by (simp only: unat_drop_bit_eq) (simp only: drop_bit_eq_div)
  then show ?thesis by (simp add: NTH_INDEX_def unat_and_63)
qed

lemma level_size_less:
  assumes "i < 4"
  shows "(ucast (idx :: u32) :: u64) < push_bit (8 + (i + 1) * 6) 1 \<longleftrightarrow> unat idx < 2 ^ (8 + (i + 1) * 6)"
proof -
  have "i = 0 \<or> i = 1 \<or> i = 2 \<or> i = 3" using assms by linarith
  then have "unat (push_bit (8 + (i + 1) * 6) 1 :: u64) = 2 ^ (8 + (i + 1) * 6)" by auto
  then show ?thesis by (simp only: word_less_nat_alt unat_ucast_32_64)
qed

text \<open>
  The search finds the first wheel whose span exceeds the distance. The last wheel spans all of
  32 bits, so the search never fails: the list \<open>so_long_node\<close> is never used.
\<close>

lemma slot_search_level:
  assumes "i < 4" "\<forall>j < i. j0 \<le> j \<longrightarrow> 2 ^ (8 + (j + 1) * 6) \<le> unat idx" "unat idx < 2 ^ (8 + (i + 1) * 6)" "j0 \<le> i"
  shows "slot_search e idx j0 = Some (Tv i (NTH_INDEX e i))"
  using assms
proof (induction e idx j0 rule: slot_search.induct)
  case (1 e idx j)
  show ?case
  proof (cases "j = i")
    case True
    then have "(ucast idx :: u64) < push_bit (TVR_BITS + (j + 1) * TVN_BITS) 1"
      using level_size_less [of j idx] "1.prems" by simp
    then show ?thesis using True "1.prems"(1) by (subst slot_search.simps) (simp only: if_True)
  next
    case False
    then have ji: "j < i" using "1.prems" by simp
    then have "2 ^ (8 + (j + 1) * 6) \<le> unat idx" using "1.prems"(2) by blast
    then have "\<not> unat idx < 2 ^ (8 + (j + 1) * 6)" by linarith
    then have nl: "\<not> (ucast idx :: u64) < push_bit (TVR_BITS + (j + 1) * TVN_BITS) 1"
      using level_size_less [of j idx] ji "1.prems"(1) by simp
    have "slot_search e idx (j + 1) = Some (Tv i (NTH_INDEX e i))"
      using "1.IH" [OF _ nl] "1.prems" ji by simp
    then show ?thesis using nl ji "1.prems"(1) by (subst slot_search.simps) simp
  qed
qed

definition level_of :: "nat \<Rightarrow> nat" where
  "level_of d = (if d < 2 ^ 14 then 0 else if d < 2 ^ 20 then 1 else if d < 2 ^ 26 then 2 else 3)"

lemma level_of_bounds:
  assumes "256 \<le> d" "d < 4294967296"
  shows "level_of d < 4" "2 ^ (8 + level_of d * 6) \<le> d" "d < 2 ^ (8 + level_of d * 6 + 6)"
  using assms by (auto simp: level_of_def)

lemma slot_search_eq: "slot_search e idx 0 = Some (Tv (level_of (unat idx)) (NTH_INDEX e (level_of (unat idx))))"
proof (rule slot_search_level)
  have lt: "unat idx < 4294967296" by simp
  show "level_of (unat idx) < 4" by (simp add: level_of_def)
  show "unat idx < 2 ^ (8 + (level_of (unat idx) + 1) * 6)" using lt by (auto simp: level_of_def)
  show "\<forall>j < level_of (unat idx). 0 \<le> j \<longrightarrow> 2 ^ (8 + (j + 1) * 6) \<le> unat idx"
    by (auto simp: level_of_def less_Suc_eq numeral_2_eq_2 numeral_3_eq_3)
qed simp

lemma wheel_slot_eq:
  "wheel_slot c e =
    (let d = unat (e - c) in
     if d < 256 then Root (unat e mod 256)
     else Tv (level_of d) (unat e div 2 ^ (8 + level_of d * 6) mod 64))"
  unfolding wheel_slot_def Let_def slot_search_eq FIRST_INDEX_eq NTH_INDEX_eq word_less_nat_alt
  by simp

section \<open>The slot condition\<close>

text \<open>
  \<open>slot_ok c s e\<close>: a node with expiry \<open>e\<close> may be in slot \<open>s\<close> when the counter is \<open>c\<close>. In the first
  wheel: less than a turn ahead, in the slot of its low byte. In wheel \<open>i\<close>: in the slot of its
  \<open>i\<close>-th index, and the moment the slot is cascaded (the expiry with its low bits cleared) is
  still ahead, by less than a turn of that wheel. \<open>slot_ok0\<close> also allows an expiry reached now.
\<close>

fun slot_ok0 :: "u32 \<Rightarrow> taddr \<Rightarrow> u32 \<Rightarrow> bool" where
  "slot_ok0 c (Root s) e \<longleftrightarrow> s = unat e mod 256 \<and> unat (e - c) < 256"
| "slot_ok0 c (Tv i s) e \<longleftrightarrow> i < 4 \<and> s = unat e div 2 ^ (8 + i * 6) mod 64 \<and>
     unat e mod 2 ^ (8 + i * 6) < unat (e - c) \<and>
     unat (e - c) - unat e mod 2 ^ (8 + i * 6) < 2 ^ (8 + i * 6 + 6)"
| "slot_ok0 c _ e \<longleftrightarrow> False"

definition slot_ok :: "u32 \<Rightarrow> taddr \<Rightarrow> u32 \<Rightarrow> bool" where
  "slot_ok c s e \<longleftrightarrow> slot_ok0 c s e \<and> e \<noteq> c"

lemma wheel_slot_ok0: "slot_ok0 c (wheel_slot c e) e"
proof (cases "unat (e - c) < 256")
  case True
  then show ?thesis by (simp add: wheel_slot_eq Let_def)
next
  case False
  define i where "i = level_of (unat (e - c))"
  have b: "i < 4" "2 ^ (8 + i * 6) \<le> unat (e - c)" "unat (e - c) < 2 ^ (8 + i * 6 + 6)"
    using level_of_bounds [of "unat (e - c)"] False unfolding i_def by simp_all
  have "unat e mod 2 ^ (8 + i * 6) < 2 ^ (8 + i * 6)" by simp
  with b(2) have m: "unat e mod 2 ^ (8 + i * 6) < unat (e - c)" by linarith
  with b(3) have "unat (e - c) - unat e mod 2 ^ (8 + i * 6) < 2 ^ (8 + i * 6 + 6)" by linarith
  then show ?thesis using False b m by (simp add: wheel_slot_eq Let_def i_def [symmetric])
qed

lemma wheel_slot_ok: "e \<noteq> c \<Longrightarrow> slot_ok c (wheel_slot c e) e"
  by (simp add: slot_ok_def wheel_slot_ok0)

definition wheel_slots :: "taddr set" where
  "wheel_slots = {Root s | s. s < 256} \<union> {Tv i s | i s. i < 4 \<and> s < 64} \<union> {SoLong}"

lemma slot_ok0_in_slots: "slot_ok0 c s e \<Longrightarrow> s \<in> wheel_slots"
  by (cases s) (auto simp: wheel_slots_def)

lemma wheel_slot_in_slots: "wheel_slot c e \<in> wheel_slots"
  using slot_ok0_in_slots wheel_slot_ok0 by blast

section \<open>Advancing the counter\<close>

lemma dist_step: "e \<noteq> c \<Longrightarrow> unat (e - (c + 1)) = unat (e - c) - 1" for e c :: u32
proof -
  assume "e \<noteq> c"
  then have "e - c \<noteq> 0" by simp
  then have "unat (e - c - 1) = unat (e - c) - 1" by (simp add: unat_minus_one)
  then show ?thesis by (simp add: diff_diff_eq)
qed

text \<open>The counter as the expiry minus the distance, in any power of two up to the word size.\<close>

lemma dvd_dist: "k \<le> 32 \<Longrightarrow> unat e mod 2 ^ k = (unat c + unat (e - c)) mod 2 ^ k" for e c :: u32
proof -
  assume "k \<le> 32"
  then have "(2 ^ k :: nat) dvd 4294967296"
    using le_imp_power_dvd [of k 32 "2 :: nat"] by simp
  then show ?thesis by (simp add: unat_from_diff32 [of e c] mod_mod_cancel)
qed

definition cascaded :: "u32 \<Rightarrow> nat \<Rightarrow> nat \<Rightarrow> bool" where
  "cascaded c i s \<longleftrightarrow> i < 4 \<and> unat c mod 2 ^ (8 + i * 6) = 0 \<and> s = NTH_INDEX c i"

text \<open>
  A slot condition that held before the tick holds after it, unless the slot is one that this
  tick cascades.
\<close>

lemma slot_ok_step:
  assumes ok: "slot_ok c s e"
  shows "slot_ok0 (c + 1) s e \<or> (\<exists>i j. s = Tv i j \<and> cascaded (c + 1) i j)"
proof (cases s)
  case (Root r)
  then show ?thesis using ok by (auto simp: slot_ok_def dist_step)
next
  case (Tv i j)
  define m where "m = unat e mod 2 ^ (8 + i * 6)"
  have a: "i < 4" "j = unat e div 2 ^ (8 + i * 6) mod 64" "m < unat (e - c)" "e \<noteq> c"
      "unat (e - c) - m < 2 ^ (8 + i * 6 + 6)"
    using ok Tv by (simp_all add: slot_ok_def m_def)
  have d: "unat (e - (c + 1)) = unat (e - c) - 1" using a by (simp add: dist_step)
  show ?thesis
  proof (cases "m < unat (e - c) - 1")
    case True
    then have "slot_ok0 (c + 1) s e" using a d Tv by (auto simp: m_def [symmetric])
    then show ?thesis ..
  next
    case False
    then have dm: "unat (e - (c + 1)) = m" using a d by linarith
    have k: "8 + i * 6 \<le> 32" using a by simp
    have mm: "m < 2 ^ (8 + i * 6)" by (simp add: m_def)
    have "(unat (c + 1) + m) mod 2 ^ (8 + i * 6) = m"
      using dvd_dist [OF k, of e "c + 1"] dm by (simp add: m_def)
    then have z: "unat (c + 1) mod 2 ^ (8 + i * 6) = 0" using mm by (rule mod_sum_right)
    have "j = unat e mod (2 ^ (8 + i * 6) * 64) div 2 ^ (8 + i * 6)"
      using a(2) mod_mult_div [of "2 ^ (8 + i * 6)" "unat e" 64] by simp
    also have "unat e mod (2 ^ (8 + i * 6) * 64) = (unat (c + 1) + m) mod (2 ^ (8 + i * 6) * 64)"
      using dvd_dist [of "8 + i * 6 + 6" e "c + 1"] dm a(1) by (simp add: power_add)
    also have "\<dots> div 2 ^ (8 + i * 6) = (unat (c + 1) + m) div 2 ^ (8 + i * 6) mod 64"
      by (rule mod_mult_div) simp
    also have "(unat (c + 1) + m) div 2 ^ (8 + i * 6) = unat (c + 1) div 2 ^ (8 + i * 6)"
      using z mm by (auto simp: div_plus_div_distrib_dvd_left mod_eq_0_iff_dvd)
    finally have "j = NTH_INDEX (c + 1) i" by (simp only: NTH_INDEX_eq)
    then show ?thesis using Tv z a(1) by (auto simp: cascaded_def)
  qed
qed (use ok in \<open>auto simp: slot_ok_def\<close>)

text \<open>With the counter reached, a node is in the first wheel, in the slot of the counter.\<close>

lemma slot_ok0_due:
  assumes "slot_ok0 c s e"
  shows "e = c \<longleftrightarrow> s = Root (unat c mod 256)"
proof
  assume "e = c"
  with assms show "s = Root (unat c mod 256)" by (cases s) auto
next
  assume s: "s = Root (unat c mod 256)"
  define d where "d = unat (e - c)"
  have "d < 256" "unat c mod 256 = unat e mod 256" using assms s by (simp_all add: d_def)
  then have "(unat c + d) mod 256 = unat c mod 256" using dvd_dist [of 8 e c] by (simp add: d_def)
  then have "d mod 256 = 0"
    by (metis mod_sum_right add.commute mod_add_right_eq mod_less_divisor zero_less_numeral mod_add_left_eq)
  with \<open>d < 256\<close> have "d = 0" by simp
  then have "e - c = 0" unfolding d_def by (simp only: unat_eq_zero)
  then show "e = c" by simp
qed

text \<open>The levels the loop reaches: those below which all indices of the counter are zero.\<close>

lemma cascaded_zero: "cascaded c 0 s \<longleftrightarrow> unat c mod 256 = 0 \<and> s = NTH_INDEX c 0"
  by (auto simp: cascaded_def)

lemma low_bits_step:
  assumes "unat c mod 2 ^ (8 + i * 6) = 0"
  shows "unat c mod 2 ^ (8 + (i + 1) * 6) = 0 \<longleftrightarrow> NTH_INDEX c i = 0"
proof -
  have "unat c mod (2 ^ (8 + i * 6) * 64) = 2 ^ (8 + i * 6) * (unat c div 2 ^ (8 + i * 6) mod 64)"
    using assms by (simp add: mod_mult2_eq)
  moreover have "(2 ^ (8 + (i + 1) * 6) :: nat) = 2 ^ (8 + i * 6) * 64" by (simp add: power_add)
  ultimately show ?thesis by (simp add: NTH_INDEX_eq)
qed

lemma low_bits_mono:
  assumes "unat c mod 2 ^ (8 + j * 6) = 0" "i \<le> j"
  shows "unat c mod 2 ^ (8 + i * 6) = 0"
proof -
  have "(2 ^ (8 + i * 6) :: nat) dvd 2 ^ (8 + j * 6)" using assms(2) by (intro le_imp_power_dvd) simp
  then show ?thesis using assms(1) by (meson dvd_trans mod_eq_0_iff_dvd)
qed

end
