(* ===== verification/Wm_Timer_Inv.thy ===== *)
theory Wm_Timer_Inv
  imports Wm_Timer_Slots
begin

text \<open>
  The invariant of the timer wheel over its pointer heap, and its preservation by adding,
  deleting and cascading. \<open>L\<close> is the list every head owns; the facts about the lists come from
  the interface \<open>wl\<close> of the linked lists.
\<close>

section \<open>The invariant\<close>

definition slots_inv :: "'z wheel_scheme \<Rightarrow> (taddr \<rightharpoonup> taddr list) \<Rightarrow> bool" where
  "slots_inv tw L \<longleftrightarrow>
     rings (lnk tw) L \<and>
     (\<forall>p xs a. L p = Some xs \<longrightarrow> a \<in> set xs \<longrightarrow> (\<exists>n nd. a = Node n \<and> nodes tw n = Some nd)) \<and>
     (\<forall>n. L (Node n) = None) \<and>
     (\<forall>n. nodes tw n \<noteq> None \<longrightarrow> n < next_node tw)"

definition members :: "(taddr \<rightharpoonup> taddr list) \<Rightarrow> nat set" where
  "members L = {n. \<exists>p xs. L p = Some xs \<and> Node n \<in> set xs}"

text \<open>\<open>placed P tw L\<close>: every linked node sits in a slot that \<open>P\<close> allows for its expiry.\<close>

definition placed :: "(taddr \<Rightarrow> u32 \<Rightarrow> bool) \<Rightarrow> 'z wheel_scheme \<Rightarrow> (taddr \<rightharpoonup> taddr list) \<Rightarrow> bool" where
  "placed P tw L \<longleftrightarrow>
     (\<forall>p xs n nd. p \<in> wheel_slots \<longrightarrow> L p = Some xs \<longrightarrow> Node n \<in> set xs \<longrightarrow> nodes tw n = Some nd
        \<longrightarrow> P p (expire nd))"

definition winv :: "'z wheel_scheme \<Rightarrow> (taddr \<rightharpoonup> taddr list) \<Rightarrow> bool" where
  "winv tw L \<longleftrightarrow> slots_inv tw L \<and> dom L = wheel_slots \<and> placed (slot_ok (currtick tw)) tw L"

lemma wheel_slots_no [simp]: "CascHead \<notin> wheel_slots" "TickHead \<notin> wheel_slots" "Node n \<notin> wheel_slots" "NullA \<notin> wheel_slots"
  by (auto simp: wheel_slots_def)

lemma wheel_slots_in [simp]:
  "SoLong \<in> wheel_slots" "Root s \<in> wheel_slots \<longleftrightarrow> s < 256" "Tv i s \<in> wheel_slots \<longleftrightarrow> i < 4 \<and> s < 64"
  by (auto simp: wheel_slots_def)

lemma slots_invD:
  assumes "slots_inv tw L"
  shows "rings (lnk tw) L" "L (Node n) = None" "nodes tw n \<noteq> None \<Longrightarrow> n < next_node tw"
    "L p = Some xs \<Longrightarrow> a \<in> set xs \<Longrightarrow> \<exists>n nd. a = Node n \<and> nodes tw n = Some nd"
  using assms unfolding slots_inv_def by blast+

lemma slots_inv_nodeD:
  "slots_inv tw L \<Longrightarrow> n \<in> members L \<Longrightarrow> \<exists>nd. nodes tw n = Some nd"
  unfolding members_def using slots_invD(4) by blast

lemma membersI: "L p = Some xs \<Longrightarrow> Node n \<in> set xs \<Longrightarrow> n \<in> members L"
  unfolding members_def by blast

lemma placedD:
  "placed P tw L \<Longrightarrow> p \<in> wheel_slots \<Longrightarrow> L p = Some xs \<Longrightarrow> Node n \<in> set xs \<Longrightarrow> nodes tw n = Some nd \<Longrightarrow>
   P p (expire nd)"
  unfolding placed_def by blast

lemma members_drop:
  assumes "L q = Some []"
  shows "members (L(q := None)) = members L"
proof -
  have "p \<noteq> q" if "L p = Some xs" "Node n \<in> set xs" for p xs n using that assms by auto
  then show ?thesis unfolding members_def by (intro Collect_cong iff_exI) (auto split: if_splits)
qed

lemma members_move:
  assumes "L p = Some xs" "L q = None" "p \<noteq> q"
  shows "members (L(p \<mapsto> [], q \<mapsto> xs)) = members L"
proof (intro set_eqI iffI)
  fix n assume "n \<in> members (L(p \<mapsto> [], q \<mapsto> xs))"
  then obtain r ys where "(L(p \<mapsto> [], q \<mapsto> xs)) r = Some ys" "Node n \<in> set ys" by (auto simp: members_def)
  then show "n \<in> members L" using assms membersI by (auto split: if_splits)
next
  fix n assume "n \<in> members L"
  then obtain r ys where r: "L r = Some ys" "Node n \<in> set ys" by (auto simp: members_def)
  then have "r \<noteq> q" using assms(2) by auto
  show "n \<in> members (L(p \<mapsto> [], q \<mapsto> xs))"
    by (rule membersI [of _ "if r = p then q else r" ys]) (use r assms \<open>r \<noteq> q\<close> in auto)
qed

text \<open>An address that is no head and in no list is free for use as a new node or a local head.\<close>

lemma unused_local:
  assumes "slots_inv tw L" "L p = None" "p \<notin> range Node"
  shows "unused L p"
  using assms slots_invD(4) [OF assms(1)] by (fastforce simp: unused_def)

lemma unused_node:
  assumes "slots_inv tw L"
  shows "unused L (Node n) \<longleftrightarrow> n \<notin> members L"
  using slots_invD(2) [OF assms, of n] by (auto simp: unused_def members_def)

lemma slots_inv_links:
  assumes "slots_inv tw L" "rings h M" "\<And>n. M (Node n) = None"
    and "\<And>p xs a. M p = Some xs \<Longrightarrow> a \<in> set xs \<Longrightarrow> \<exists>q ys. L q = Some ys \<and> a \<in> set ys"
  shows "slots_inv (tw\<lparr>lnk := h\<rparr>) M"
  unfolding slots_inv_def
proof (intro conjI allI impI)
  fix p xs a assume "M p = Some xs" "a \<in> set xs"
  then obtain q ys where "L q = Some ys" "a \<in> set ys" using assms(4) by blast
  then show "\<exists>n nd. a = Node n \<and> nodes (tw\<lparr>lnk := h\<rparr>) n = Some nd"
    using slots_invD(4) [OF assms(1)] by simp
qed (use assms(2,3) slots_invD(3) [OF assms(1)] in auto)

section \<open>Cascading\<close>

definition node_slot :: "'z wheel_scheme \<Rightarrow> taddr \<Rightarrow> taddr" where
  "node_slot tw a =
     (case a of Node n \<Rightarrow> (case nodes tw n of Some nd \<Rightarrow> wheel_slot (currtick tw) (expire nd) | None \<Rightarrow> SoLong)
      | _ \<Rightarrow> SoLong)"

text \<open>Appending each node of a list to its slot, in order.\<close>

definition distribute :: "'z wheel_scheme \<Rightarrow> taddr list \<Rightarrow> (taddr \<rightharpoonup> taddr list) \<Rightarrow> (taddr \<rightharpoonup> taddr list)" where
  "distribute tw xs L = (\<lambda>p. map_option (\<lambda>ys. ys @ filter (\<lambda>a. node_slot tw a = p) xs) (L p))"

lemma node_slot_in: "node_slot tw a \<in> wheel_slots"
  by (auto simp: node_slot_def wheel_slot_in_slots split: taddr.split option.split)

lemma distribute_Cons:
  "L (node_slot tw a) = Some ys \<Longrightarrow> distribute tw (a # xs) L = distribute tw xs (L(node_slot tw a \<mapsto> ys @ [a]))"
  by (auto simp: distribute_def fun_eq_iff)

lemma distribute_Nil [simp]: "distribute tw [] L = L"
  by (simp add: distribute_def option.map_ident)

lemma cascade_drain_ok:
  assumes "rings h L" "L CascHead = Some xs" "wheel_slots \<subseteq> dom L"
    and "\<forall>a \<in> set xs. \<exists>n nd. a = Node n \<and> nodes tw n = Some nd"
  shows "\<exists>h'. cascade_drain (tw\<lparr>lnk := h\<rparr>) = Some (tw\<lparr>lnk := h'\<rparr>) \<and>
              rings h' (distribute tw xs (L(CascHead \<mapsto> [])))"
  using assms
proof (induction xs arbitrary: h L)
  case Nil
  have "wmList_is_empty h CascHead" using wl.is_empty_rep [OF Nil.prems(1,2)] by simp
  moreover have "L(CascHead \<mapsto> []) = L" using Nil.prems(2) by (auto simp: fun_eq_iff)
  ultimately show ?case using Nil.prems(1) by (subst cascade_drain.simps) auto
next
  case (Cons a xs)
  then obtain n nd where a: "a = Node n" "nodes tw n = Some nd" by auto
  define s where "s = node_slot tw a"
  have s: "s \<in> wheel_slots" "s \<noteq> CascHead" "s = wheel_slot (currtick tw) (expire nd)"
    using node_slot_in [of tw a] a by (auto simp: s_def node_slot_def)
  obtain ys where ys: "L s = Some ys" using s(1) Cons.prems(3) by auto
  define h1 where "h1 = wmList_add_back (wmList_remote h a) s a"
  define L1 where "L1 = L(CascHead \<mapsto> xs, s \<mapsto> ys @ [a])"
  have r1: "rings h1 L1"
    unfolding h1_def L1_def using wl.move_first [OF Cons.prems(1,2) ys] s(2) by simp
  have "\<not> wmList_is_empty h CascHead" "nxt h CascHead = a"
    using wl.pop_first [OF Cons.prems(1,2)] by auto
  then have step: "cascade_drain (tw\<lparr>lnk := h\<rparr>) = cascade_drain (tw\<lparr>lnk := h1\<rparr>)"
    using a s(3) by (subst cascade_drain.simps) (simp add: add_node_def h1_def)
  have "wheel_slots \<subseteq> dom L1" using Cons.prems(3) by (auto simp: L1_def)
  moreover have "L1 CascHead = Some xs" using s(2) by (simp add: L1_def)
  moreover have "\<forall>a \<in> set xs. \<exists>n nd. a = Node n \<and> nodes tw n = Some nd" using Cons.prems(4) by simp
  ultimately obtain h' where h': "cascade_drain (tw\<lparr>lnk := h1\<rparr>) = Some (tw\<lparr>lnk := h'\<rparr>)"
      "rings h' (distribute tw xs (L1(CascHead \<mapsto> [])))"
    using Cons.IH [OF r1] by blast
  have "distribute tw (a # xs) (L(CascHead \<mapsto> [])) = distribute tw xs (L1(CascHead \<mapsto> []))"
    using distribute_Cons [of "L(CascHead \<mapsto> [])" tw a ys xs] ys s(2)
    by (simp add: L1_def s_def [symmetric] fun_upd_twist)
  then show ?case using step h' by metis
qed

text \<open>Cascading one slot: its nodes are appended to their new slots, everything else stays.\<close>

lemma timerwheel_cascade_ok:
  assumes inv: "slots_inv tw L" and dom: "dom L = wheel_slots" and s: "L s = Some xs"
  shows "\<exists>h'. timerwheel_cascade tw s = Some (tw\<lparr>lnk := h'\<rparr>) \<and>
              slots_inv (tw\<lparr>lnk := h'\<rparr>) (distribute tw xs (L(s \<mapsto> [])))"
proof -
  have "CascHead \<notin> dom L" unfolding dom by simp
  then have lc: "L CascHead = None" by auto
  then have un: "unused L CascHead" by (rule unused_local [OF inv]) auto
  have sc: "s \<noteq> CascHead" using s lc by auto
  let ?h = "wmList_splice (wmList_init (lnk tw) CascHead) s CascHead"
  have "rings ?h (L(CascHead \<mapsto> [], s \<mapsto> [], CascHead \<mapsto> xs @ []))"
    using wl.splice_rep [OF wl.init_new [OF slots_invD(1) [OF inv] un], of s xs CascHead "[]"] s sc by simp
  then have r: "rings ?h (L(s \<mapsto> [], CascHead \<mapsto> xs))" using sc by (simp add: fun_upd_twist)
  have nn: "\<forall>a \<in> set xs. \<exists>n nd. a = Node n \<and> nodes tw n = Some nd"
    using slots_invD(4) [OF inv s] by blast
  have dd: "wheel_slots \<subseteq> dom (L(s \<mapsto> [], CascHead \<mapsto> xs))" using dom by auto
  obtain h' where h': "cascade_drain (tw\<lparr>lnk := ?h\<rparr>) = Some (tw\<lparr>lnk := h'\<rparr>)"
      "rings h' (distribute tw xs (L(s \<mapsto> [], CascHead \<mapsto> xs, CascHead \<mapsto> [])))"
    using cascade_drain_ok [OF r _ dd nn] by (metis fun_upd_same)
  let ?M = "distribute tw xs (L(s \<mapsto> []))"
  have "?M \<subseteq>\<^sub>m distribute tw xs (L(s \<mapsto> [], CascHead \<mapsto> xs, CascHead \<mapsto> []))"
    using lc sc by (auto simp: map_le_def distribute_def)
  then have rM: "rings h' ?M" using h'(2) rings_submap by blast
  have "slots_inv (tw\<lparr>lnk := h'\<rparr>) ?M"
  proof (rule slots_inv_links [OF inv rM])
    show "?M (Node n) = None" for n
      using slots_invD(2) [OF inv, of n] s by (auto simp: distribute_def)
    fix p zs a assume "?M p = Some zs" "a \<in> set zs"
    then show "\<exists>q ys. L q = Some ys \<and> a \<in> set ys"
      using s by (fastforce simp: distribute_def split: if_splits)
  qed
  then show ?thesis using h'(1) by (auto simp: timerwheel_cascade_def)
qed

lemma distribute_dom [simp]: "dom (distribute tw xs L) = dom L"
  by (auto simp: distribute_def)

lemma in_distribute:
  assumes "distribute tw xs (L(s \<mapsto> [])) p = Some zs" "a \<in> set zs"
  shows "(\<exists>ys. L p = Some ys \<and> p \<noteq> s \<and> a \<in> set ys) \<or> (a \<in> set xs \<and> p = node_slot tw a)"
  using assms by (auto simp: distribute_def split: if_splits)

lemma distribute_kept:
  "L p = Some ys \<Longrightarrow> p \<noteq> s \<Longrightarrow> a \<in> set ys \<Longrightarrow> \<exists>zs. distribute tw xs (L(s \<mapsto> [])) p = Some zs \<and> a \<in> set zs"
  by (simp add: distribute_def)

lemma distribute_moved:
  assumes "a \<in> set xs" "wheel_slots \<subseteq> dom L"
  shows "\<exists>zs. distribute tw xs (L(s \<mapsto> [])) (node_slot tw a) = Some zs \<and> a \<in> set zs"
proof -
  obtain ys where "L (node_slot tw a) = Some ys" using node_slot_in [of tw a] assms(2) by auto
  then show ?thesis using assms(1) by (auto simp: distribute_def)
qed

lemma members_distribute:
  assumes "L s = Some xs" "wheel_slots \<subseteq> dom L"
  shows "members (distribute tw xs (L(s \<mapsto> []))) = members L"
proof
  show "members (distribute tw xs (L(s \<mapsto> []))) \<subseteq> members L"
    using assms(1) in_distribute [of tw xs L s] unfolding members_def by blast
  show "members L \<subseteq> members (distribute tw xs (L(s \<mapsto> [])))"
  proof
    fix n assume "n \<in> members L"
    then obtain p ys where p: "L p = Some ys" "Node n \<in> set ys" by (auto simp: members_def)
    show "n \<in> members (distribute tw xs (L(s \<mapsto> [])))"
    proof (cases "p = s")
      case False
      with p show ?thesis using distribute_kept membersI by metis
    next
      case True
      then show ?thesis using p assms distribute_moved [of "Node n" xs L tw s] membersI by auto
    qed
  qed
qed

text \<open>
  The loop over the levels: before level \<open>i\<close> every node is where its expiry allows or in a slot
  that a level from \<open>i\<close> on cascades; after the loop every node is where its expiry allows.
\<close>

definition pre_cascade :: "u32 \<Rightarrow> nat \<Rightarrow> taddr \<Rightarrow> u32 \<Rightarrow> bool" where
  "pre_cascade c i p e \<longleftrightarrow> slot_ok0 c p e \<or> (\<exists>j s. p = Tv j s \<and> i \<le> j \<and> cascaded c j s)"

lemma NTH_INDEX_less: "NTH_INDEX c i < 64"
  by (simp add: NTH_INDEX_eq)

lemma node_slot_ok0: "nodes tw n = Some nd \<Longrightarrow> slot_ok0 (currtick tw) (node_slot tw (Node n)) (expire nd)"
  by (simp add: node_slot_def wheel_slot_ok0)

text \<open>After a slot is cascaded, a placement condition that excludes it need not speak of it.\<close>

lemma placed_distribute:
  assumes "placed P tw L" "L s = Some xs" "slots_inv tw L"
    and "\<And>p e. p \<noteq> s \<Longrightarrow> P p e \<Longrightarrow> Q p e" "\<And>p e. slot_ok0 (currtick tw) p e \<Longrightarrow> Q p e"
  shows "placed Q (tw\<lparr>lnk := h\<rparr>) (distribute tw xs (L(s \<mapsto> [])))"
  unfolding placed_def
proof (intro allI impI)
  fix p zs n nd
  assume p: "p \<in> wheel_slots" "distribute tw xs (L(s \<mapsto> [])) p = Some zs" "Node n \<in> set zs"
    and "nodes (tw\<lparr>lnk := h\<rparr>) n = Some nd"
  then have nd: "nodes tw n = Some nd" by simp
  from in_distribute [OF p(2,3)] show "Q p (expire nd)"
  proof
    assume "\<exists>ys. L p = Some ys \<and> p \<noteq> s \<and> Node n \<in> set ys"
    then show ?thesis using assms(1,4) p(1) nd unfolding placed_def by blast
  next
    assume "Node n \<in> set xs \<and> p = node_slot tw (Node n)"
    then show ?thesis using assms(5) node_slot_ok0 [of tw n nd, OF nd] by simp
  qed
qed

lemma placed_mono:
  "placed P tw L \<Longrightarrow> (\<And>p e. P p e \<Longrightarrow> Q p e) \<Longrightarrow> placed Q tw L"
  unfolding placed_def by blast

lemma cascade_levels_ok:
  assumes "i < 4" "unat (currtick tw) mod 2 ^ (8 + i * 6) = 0" "slots_inv tw L" "dom L = wheel_slots"
    and "placed (pre_cascade (currtick tw) i) tw L"
  shows "\<exists>h' L'. cascade_levels tw i = Some (tw\<lparr>lnk := h'\<rparr>) \<and> slots_inv (tw\<lparr>lnk := h'\<rparr>) L' \<and>
     dom L' = wheel_slots \<and> placed (slot_ok0 (currtick tw)) (tw\<lparr>lnk := h'\<rparr>) L' \<and> members L' = members L"
  using assms
proof (induction tw i arbitrary: L rule: cascade_levels.induct)
  case (1 tw i)
  define c where "c = currtick tw"
  define s where "s = Tv i (NTH_INDEX c i)"
  have "s \<in> wheel_slots" using "1.prems"(1) NTH_INDEX_less by (simp add: s_def)
  then obtain xs where xs: "L s = Some xs" using "1.prems"(4) by auto
  define L1 where "L1 = distribute tw xs (L(s \<mapsto> []))"
  obtain h1 where c1: "timerwheel_cascade tw s = Some (tw\<lparr>lnk := h1\<rparr>)" and i1: "slots_inv (tw\<lparr>lnk := h1\<rparr>) L1"
    using timerwheel_cascade_ok [OF "1.prems"(3,4) xs] unfolding L1_def by blast
  have d1: "dom L1 = wheel_slots" using "1.prems"(4) xs by (auto simp: L1_def)
  have m1: "members L1 = members L" using members_distribute [of L s xs tw] xs "1.prems"(4) by (simp add: L1_def)
  have p1: "placed (pre_cascade c (Suc i)) (tw\<lparr>lnk := h1\<rparr>) L1"
    unfolding L1_def
  proof (rule placed_distribute [OF "1.prems"(5) xs "1.prems"(3)])
    fix p e assume "p \<noteq> s" "pre_cascade (currtick tw) i p e"
    then show "pre_cascade c (Suc i) p e"
      unfolding pre_cascade_def c_def [symmetric] s_def
      by (metis cascaded_def le_antisym not_less_eq_eq)
  qed (simp add: pre_cascade_def c_def)
  show ?case
  proof (cases "i = 3")
    case True
    have p2: "placed (slot_ok0 c) (tw\<lparr>lnk := h1\<rparr>) L1"
      using p1 by (rule placed_mono) (use True in \<open>auto simp: pre_cascade_def cascaded_def\<close>)
    obtain ys where ys: "L1 SoLong = Some ys" using d1 wheel_slots_in(1) by blast
    have "ys = []"
    proof (rule ccontr)
      assume "ys \<noteq> []"
      then obtain a where a: "a \<in> set ys" by (cases ys) auto
      obtain n nd where "a = Node n" "nodes tw n = Some nd" using slots_invD(4) [OF i1 ys a] by auto
      then show False using p2 ys a unfolding placed_def by (metis slot_ok0.simps(3) wheel.select_convs(2)
            wheel.surjective wheel.update_convs(1) wheel_slots_in(1))
    qed
    with ys have "L1(SoLong \<mapsto> []) = L1" by (auto simp: fun_eq_iff)
    then obtain h2 where c2: "timerwheel_cascade (tw\<lparr>lnk := h1\<rparr>) SoLong = Some (tw\<lparr>lnk := h2\<rparr>)"
        and i2: "slots_inv (tw\<lparr>lnk := h2\<rparr>) L1"
      using timerwheel_cascade_ok [OF i1 d1 ys] \<open>ys = []\<close> by auto
    have "cascade_levels tw i = Some (tw\<lparr>lnk := h2\<rparr>)"
      using c1 c2 True by (subst cascade_levels.simps) (simp add: s_def c_def)
    moreover have "placed (slot_ok0 c) (tw\<lparr>lnk := h2\<rparr>) L1" using p2 by (simp add: placed_def)
    ultimately show ?thesis using i2 d1 m1 by (metis c_def)
  next
    case False
    then have i3: "i + 1 < 4" using "1.prems"(1) by simp
    show ?thesis
    proof (cases "NTH_INDEX c i = 0")
      case True
      have lb: "unat (currtick (tw\<lparr>lnk := h1\<rparr>)) mod 2 ^ (8 + (i + 1) * 6) = 0"
        using low_bits_step [OF "1.prems"(2)] True by (simp add: c_def)
      have p1': "placed (pre_cascade (currtick (tw\<lparr>lnk := h1\<rparr>)) (i + 1)) (tw\<lparr>lnk := h1\<rparr>) L1"
        using p1 by (simp add: c_def)
      have "cascade_levels tw i = cascade_levels (tw\<lparr>lnk := h1\<rparr>) (i + 1)"
        using c1 False True i3 by (subst cascade_levels.simps) (simp add: s_def c_def)
      moreover have "\<exists>h' L'. cascade_levels (tw\<lparr>lnk := h1\<rparr>) (i + 1) = Some (tw\<lparr>lnk := h1\<rparr>\<lparr>lnk := h'\<rparr>) \<and>
          slots_inv (tw\<lparr>lnk := h1\<rparr>\<lparr>lnk := h'\<rparr>) L' \<and> dom L' = wheel_slots \<and>
          placed (slot_ok0 (currtick (tw\<lparr>lnk := h1\<rparr>))) (tw\<lparr>lnk := h1\<rparr>\<lparr>lnk := h'\<rparr>) L' \<and> members L' = members L1"
        by (rule "1.IH" [OF refl _ _ _ i3 lb i1 d1 p1']) (use c1 False True i3 in \<open>simp_all add: s_def c_def\<close>)
      ultimately show ?thesis using m1 by (auto simp: c_def)
    next
      case nz: False
      have "cascade_levels tw i = Some (tw\<lparr>lnk := h1\<rparr>)"
        using c1 False nz by (subst cascade_levels.simps) (simp add: s_def c_def)
      moreover have "placed (slot_ok0 c) (tw\<lparr>lnk := h1\<rparr>) L1"
      proof (rule placed_mono [OF p1])
        fix p e assume "pre_cascade c (Suc i) p e"
        then consider "slot_ok0 c p e" | j s where "Suc i \<le> j" "cascaded c j s" by (auto simp: pre_cascade_def)
        then show "slot_ok0 c p e"
        proof cases
          case 2
          then have "unat c mod 2 ^ (8 + (i + 1) * 6) = 0"
            using low_bits_mono [of c j "i + 1"] by (simp add: cascaded_def)
          then show ?thesis using low_bits_step [of c i] "1.prems"(2) nz by (simp add: c_def)
        qed
      qed
      ultimately show ?thesis using i1 d1 m1 by (metis c_def)
    qed
  qed
qed

end
