(* ===== verification/Wm_Timer_Ops.thy ===== *)
theory Wm_Timer_Ops
  imports Wm_Timer_Inv
begin

text \<open>
  Initialising the wheel, and adding and deleting timers, at rest or from inside a callback. The
  invariant at rest is \<open>timer_inv\<close>; while a tick fires, the local list head of the tick owns the
  nodes still to fire (\<open>fire_inv\<close>); both extend \<open>base_inv\<close>, which the operations keep.
\<close>

section \<open>Adding and deleting, at rest or while firing\<close>

text \<open>Every allocated node is linked, and has a callback.\<close>

definition owned :: "'z wheel_scheme \<Rightarrow> (taddr \<rightharpoonup> taddr list) \<Rightarrow> bool" where
  "owned tw L \<longleftrightarrow> dom (nodes tw) = members L \<and> (\<forall>n nd. nodes tw n = Some nd \<longrightarrow> callback nd \<noteq> None)"

text \<open>The part of the invariant that holds at rest and while a tick fires.\<close>

definition base_inv :: "'z wheel_scheme \<Rightarrow> (taddr \<rightharpoonup> taddr list) \<Rightarrow> bool" where
  "base_inv tw L \<longleftrightarrow> slots_inv tw L \<and> wheel_slots \<subseteq> dom L \<and> placed (slot_ok (currtick tw)) tw L \<and> owned tw L"

definition timer_inv :: "'z wheel_scheme \<Rightarrow> (taddr \<rightharpoonup> taddr list) \<Rightarrow> bool" where
  "timer_inv tw L \<longleftrightarrow> base_inv tw L \<and> dom L = wheel_slots"

text \<open>While a tick fires, the list \<open>ns\<close> of nodes still to fire hangs on the local head.\<close>

definition fire_inv :: "'z wheel_scheme \<Rightarrow> (taddr \<rightharpoonup> taddr list) \<Rightarrow> nat list \<Rightarrow> bool" where
  "fire_inv tw L ns \<longleftrightarrow>
     base_inv tw L \<and> dom L = insert TickHead wheel_slots \<and> L TickHead = Some (map Node ns)"

lemma timer_inv_winv: "timer_inv tw L \<longleftrightarrow> winv tw L \<and> owned tw L"
  by (auto simp: timer_inv_def winv_def base_inv_def)

lemma base_invD:
  assumes "base_inv tw L"
  shows "slots_inv tw L" "wheel_slots \<subseteq> dom L" "placed (slot_ok (currtick tw)) tw L" "owned tw L"
    "dom (nodes tw) = members L"
  using assms unfolding base_inv_def owned_def by blast+

definition add_ticks :: "u32 \<Rightarrow> u32" where
  "add_ticks t = (if 0 < t then t else 1)"

lemma add_ticks_nonzero: "add_ticks t \<noteq> 0"
  by (auto simp: add_ticks_def word_less_nat_alt)

lemma add_ticks_expire: "c + add_ticks t \<noteq> c"
  using add_ticks_nonzero [of t] by simp

lemma add_quick_eq:
  "wmTimerWheel_add_quick tw cb ud t =
    (let n = next_node tw; e = currtick tw + add_ticks t in
     Some (n, tw\<lparr>lnk := wmList_add_back (set_prv (set_nxt (lnk tw) (Node n) NullA) (Node n) NullA)
                          (wheel_slot (currtick tw) e) (Node n),
                 nodes := (nodes tw)(n \<mapsto> \<lparr>userdata = ud, callback = cb, expire = e\<rparr>),
                 next_node := n + 1, tw_num := tw_num tw + 1\<rparr>))"
  by (simp add: wmTimerWheel_add_quick_def wmTimerWheel_node_init_def wmTimerWheel_add_def add_node_def
      add_ticks_def Let_def)

text \<open>
  A new timer goes to the back of one slot and is the only change to the nodes; the lists that
  are not slots (the local head while firing) stay.
\<close>

lemma add_quick_ok:
  assumes inv: "base_inv tw L"
  shows "\<exists>tw' p ys. wmTimerWheel_add_quick tw (Some cb) ud t = Some (next_node tw, tw') \<and>
    p \<in> wheel_slots \<and> L p = Some ys \<and> base_inv tw' (L(p \<mapsto> ys @ [Node (next_node tw)]))"
proof -
  define n where "n = next_node tw"
  define e where "e = currtick tw + add_ticks t"
  define nd where "nd = \<lparr>userdata = ud, callback = Some cb, expire = e\<rparr>"
  define p where "p = wheel_slot (currtick tw) e"
  define h where "h = wmList_add_back (set_prv (set_nxt (lnk tw) (Node n) NullA) (Node n) NullA) p (Node n)"
  define tw' where "tw' = tw\<lparr>lnk := h, nodes := (nodes tw)(n \<mapsto> nd), next_node := n + 1, tw_num := tw_num tw + 1\<rparr>"
  note i = base_invD [OF inv]
  have p: "p \<in> wheel_slots" by (simp add: p_def wheel_slot_in_slots)
  then obtain ys where ys: "L p = Some ys" using i(2) by blast
  have fresh: "nodes tw n = None" using slots_invD(3) [OF i(1), of n] n_def by blast
  then have un: "unused L (Node n)" using unused_node [OF i(1)] i(5) by auto
  have rh: "rings h (L(p \<mapsto> ys @ [Node n]))"
    unfolding h_def
    by (intro wl.add_back_rep rings_write_unused slots_invD(1) [OF i(1)] un ys)
  let ?M = "L(p \<mapsto> ys @ [Node n])"
  have sM: "slots_inv tw' ?M"
    unfolding slots_inv_def
  proof (intro conjI allI impI)
    show "rings (lnk tw') ?M" using rh by (simp add: tw'_def)
    show "?M (Node k) = None" for k using slots_invD(2) [OF i(1)] p by auto
    show "nodes tw' k \<noteq> None \<Longrightarrow> k < next_node tw'" for k
      using slots_invD(3) [OF i(1), of k] by (auto simp: tw'_def n_def split: if_splits)
  next
    fix q xs a assume "?M q = Some xs" "a \<in> set xs"
    then consider "a = Node n" | "\<exists>zs. L q = Some zs \<and> a \<in> set zs" using ys by (auto split: if_splits)
    then show "\<exists>k x. a = Node k \<and> nodes tw' k = Some x"
    proof cases
      case 2
      then obtain k x where "a = Node k" "nodes tw k = Some x" using slots_invD(4) [OF i(1)] by blast
      then show ?thesis using fresh by (cases "k = n") (auto simp: tw'_def)
    qed (simp add: tw'_def)
  qed
  have mem: "members ?M = insert n (members L)"
  proof (intro set_eqI iffI)
    fix k assume "k \<in> members ?M"
    then obtain q us where "?M q = Some us" "Node k \<in> set us" by (auto simp: members_def)
    then show "k \<in> insert n (members L)" using ys membersI [of L] by (auto split: if_splits)
  next
    fix k assume "k \<in> insert n (members L)"
    then consider "k = n" | q us where "L q = Some us" "Node k \<in> set us" by (auto simp: members_def)
    then show "k \<in> members ?M"
    proof cases
      case 1
      then show ?thesis by (intro membersI [of _ p "ys @ [Node n]"]) auto
    next
      case 2
      then show ?thesis using ys by (intro membersI [of _ q "if q = p then ys @ [Node n] else us"]) auto
    qed
  qed
  have "owned tw' ?M" using i(4) mem by (auto simp: owned_def tw'_def nd_def)
  moreover have "placed (slot_ok (currtick tw')) tw' ?M"
    unfolding placed_def
  proof (intro allI impI)
    fix q xs k x assume q: "q \<in> wheel_slots" "?M q = Some xs" "Node k \<in> set xs" "nodes tw' k = Some x"
    show "slot_ok (currtick tw') q (expire x)"
    proof (cases "k = n")
      case True
      have "q = p" using q(2,3) True un by (auto simp: unused_def split: if_splits)
      then show ?thesis
        using q(4) True wheel_slot_ok [OF add_ticks_expire] by (auto simp: tw'_def nd_def p_def e_def)
    next
      case False
      have "L q \<noteq> None" "Node k \<in> set (the (L q))" using q(2,3) ys False by (auto split: if_splits)
      then show ?thesis using placedD [OF i(3) q(1)] q(4) False by (auto simp: tw'_def)
    qed
  qed
  moreover have "wheel_slots \<subseteq> dom ?M" using i(2) by auto
  ultimately have "base_inv tw' ?M" using sM by (simp add: base_inv_def)
  moreover have "wmTimerWheel_add_quick tw (Some cb) ud t = Some (n, tw')"
    by (simp add: add_quick_eq Let_def n_def tw'_def h_def nd_def e_def p_def)
  ultimately show ?thesis using p ys n_def by metis
qed

text \<open>Deleting a linked node takes it out of its list and frees it.\<close>

lemma del_ok:
  assumes inv: "base_inv tw L" and n: "nodes tw n \<noteq> None"
  shows "\<exists>h p xs ys. wmTimerWheel_del tw (Some n) = Some (1, tw\<lparr>lnk := h, nodes := (nodes tw)(n := None)\<rparr>) \<and>
    L p = Some (xs @ Node n # ys) \<and> Node n \<notin> set xs \<union> set ys \<and>
    base_inv (tw\<lparr>lnk := h, nodes := (nodes tw)(n := None)\<rparr>) (L(p \<mapsto> xs @ ys))"
proof -
  note i = base_invD [OF inv]
  have r: "rings (lnk tw) L" using slots_invD(1) [OF i(1)] .
  have "n \<in> members L" using i(5) n by auto
  then obtain p zs where "L p = Some zs" "Node n \<in> set zs" by (auto simp: members_def)
  then obtain xs ys where L: "L p = Some (xs @ Node n # ys)" by (metis split_list)
  define h where "h = wmList_remote (lnk tw) (Node n)"
  define tw' where "tw' = tw\<lparr>lnk := h, nodes := (nodes tw)(n := None)\<rparr>"
  let ?M = "L(p \<mapsto> xs @ ys)"
  have d: "Node n \<notin> set xs \<union> set ys" using wl.distinct_rep [OF r L] by simp
  have "\<not> wmList_is_empty (lnk tw) (Node n)" using wl.in_list_nonempty [OF r L] .
  then have eq: "wmTimerWheel_del tw (Some n) = Some (1, tw')"
    using n by (simp add: wmTimerWheel_del_def tw'_def h_def)
  have rM: "rings h ?M" unfolding h_def using wl.remote_rep [OF r L] .
  have un: "unused ?M (Node n)" using wl.remote_unused [OF r L] .
  have sub: "\<exists>zs. L q = Some zs \<and> a \<in> set zs" if "?M q = Some us" "a \<in> set us" for q us a
    using that L by (auto split: if_splits)
  have keep: "\<exists>us. ?M q = Some us \<and> a \<in> set us" if "L q = Some zs" "a \<in> set zs" "a \<noteq> Node n" for q zs a
    using that L by auto
  have sM: "slots_inv tw' ?M"
    unfolding slots_inv_def
  proof (intro conjI allI impI)
    show "rings (lnk tw') ?M" using rM by (simp add: tw'_def)
    show "?M (Node k) = None" for k using slots_invD(2) [OF i(1)] L by auto
    show "nodes tw' k \<noteq> None \<Longrightarrow> k < next_node tw'" for k
      using slots_invD(3) [OF i(1), of k] by (auto simp: tw'_def split: if_splits)
  next
    fix q us a assume a: "?M q = Some us" "a \<in> set us"
    obtain zs where "L q = Some zs" "a \<in> set zs" using sub [OF a] by blast
    then obtain k x where "a = Node k" "nodes tw k = Some x" using slots_invD(4) [OF i(1)] by blast
    moreover have "a \<noteq> Node n" using un a by (auto simp: unused_def)
    ultimately show "\<exists>k x. a = Node k \<and> nodes tw' k = Some x" by (auto simp: tw'_def)
  qed
  have mem: "members ?M = members L - {n}"
  proof (intro set_eqI iffI)
    fix k assume "k \<in> members ?M"
    then obtain q us where q: "?M q = Some us" "Node k \<in> set us" by (auto simp: members_def)
    then have "k \<noteq> n" using un by (auto simp: unused_def)
    then show "k \<in> members L - {n}" using sub [OF q] membersI by auto
  next
    fix k assume "k \<in> members L - {n}"
    then show "k \<in> members ?M" using keep unfolding members_def by fastforce
  qed
  have "owned tw' ?M" using i(4) mem by (auto simp: owned_def tw'_def)
  moreover have "placed (slot_ok (currtick tw')) tw' ?M"
    unfolding placed_def
  proof (intro allI impI)
    fix q us k x assume q: "q \<in> wheel_slots" "?M q = Some us" "Node k \<in> set us" "nodes tw' k = Some x"
    obtain zs where zs: "L q = Some zs" "Node k \<in> set zs" using sub [OF q(2,3)] by blast
    have "nodes tw k = Some x" using q(4) by (simp add: tw'_def split: if_splits)
    then show "slot_ok (currtick tw') q (expire x)" using placedD [OF i(3) q(1) zs] by (simp add: tw'_def)
  qed
  moreover have "wheel_slots \<subseteq> dom ?M" using i(2) by auto
  ultimately have "base_inv tw' ?M" using sM by (simp add: base_inv_def)
  then show ?thesis using eq L d unfolding tw'_def by blast
qed

section \<open>Initialisation\<close>

lemma init_heads_rings:
  fixes ps :: "taddr list"
  assumes "distinct ps"
  shows "rings (init_heads h ps) (\<lambda>p. if p \<in> set ps then Some [] else None)"
  using assms
proof (induction ps rule: rev_induct)
  case Nil
  then show ?case by (simp add: rings_def init_heads_def)
next
  case (snoc p ps)
  let ?L = "\<lambda>q. if q \<in> set ps then Some ([] :: taddr list) else None"
  have "unused ?L p" using snoc.prems by (auto simp: unused_def split: if_splits)
  then have "rings (wmList_init (init_heads h ps) p) (?L(p \<mapsto> []))"
    using wl.init_new [OF snoc.IH] snoc.prems by simp
  moreover have "?L(p \<mapsto> []) = (\<lambda>q. if q \<in> set (ps @ [p]) then Some [] else None)"
    by (auto simp: fun_eq_iff)
  ultimately show ?case by (simp only: init_heads_def fold_append o_apply fold_simps)
qed

lemma set_slot_list: "set slot_list = wheel_slots"
  by (auto simp: slot_list_def wheel_slots_def TVR_SIZE_def TVN_SIZE_def TVR_BITS_def TVN_BITS_def)

lemma distinct_slot_list: "distinct slot_list"
proof -
  have "[0..<4] = [0, 1, 2, 3 :: nat]" by (simp add: upt_rec)
  then show ?thesis
    by (simp add: slot_list_def distinct_map inj_on_def) auto
qed

lemma init_ok:
  assumes "nodes tw = Map.empty"
  shows "timer_inv (wmTimerWheel_init tw iv now) (\<lambda>p. if p \<in> wheel_slots then Some [] else None)"
proof -
  let ?L = "\<lambda>p. if p \<in> wheel_slots then Some ([] :: taddr list) else None"
  have "rings (init_heads (lnk tw) slot_list) ?L"
    using init_heads_rings [OF distinct_slot_list, of "lnk tw"] by (simp add: set_slot_list)
  moreover have "members ?L = {}" by (auto simp: members_def split: if_splits)
  ultimately show ?thesis
    using assms by (auto simp: timer_inv_def base_inv_def slots_inv_def placed_def owned_def
        wmTimerWheel_init_def split: if_splits)
qed

section \<open>Inside a callback\<close>

text \<open>
  The node being fired is unlinked but not yet freed. Operations on other nodes behave as if it
  were freed already: they commute with \<open>free_node\<close>.
\<close>

definition take_node :: "'z wheel_scheme \<Rightarrow> nat \<Rightarrow> 'z wheel_scheme" where
  "take_node tw n = tw\<lparr>lnk := wmList_remote (lnk tw) (Node n), tw_num := tw_num tw - 1\<rparr>"

definition free_node :: "'z wheel_scheme \<Rightarrow> nat \<Rightarrow> 'z wheel_scheme" where
  "free_node tw n = tw\<lparr>nodes := (nodes tw)(n := None)\<rparr>"

definition live :: "'z wheel_scheme \<Rightarrow> nat list \<Rightarrow> nat list" where
  "live tw = filter (\<lambda>n. nodes tw n \<noteq> None)"

text \<open>What callbacks may do to the nodes that exist when they start.\<close>

definition only_frees :: "'z wheel_scheme \<Rightarrow> 'z wheel_scheme \<Rightarrow> bool" where
  "only_frees tw tw' \<longleftrightarrow>
     next_node tw \<le> next_node tw' \<and> currtick tw' = currtick tw \<and>
     lasttime tw' = lasttime tw \<and> interval tw' = interval tw \<and>
     (\<forall>k < next_node tw. nodes tw' k = None \<or> nodes tw' k = nodes tw k)"

lemma only_frees_refl [simp]: "only_frees tw tw"
  by (simp add: only_frees_def)

lemma only_frees_trans: "only_frees a b \<Longrightarrow> only_frees b c \<Longrightarrow> only_frees a c"
  unfolding only_frees_def by (metis le_trans less_le_trans)

lemma live_live:
  "only_frees tw tw' \<Longrightarrow> \<forall>n \<in> set ns. n < next_node tw \<Longrightarrow> live tw' (live tw ns) = live tw' ns"
  by (induction ns) (auto simp: live_def only_frees_def)

lemma fire_invD:
  assumes "fire_inv tw L ns"
  shows "slots_inv tw L" "dom L = insert TickHead wheel_slots" "L TickHead = Some (map Node ns)"
    "placed (slot_ok (currtick tw)) tw L" "owned tw L" "base_inv tw L"
  using assms unfolding fire_inv_def base_inv_def by blast+

lemma fire_inv_member:
  assumes "fire_inv tw L ns" "n \<in> set ns"
  shows "\<exists>nd cb. nodes tw n = Some nd \<and> callback nd = Some cb" "n < next_node tw"
proof -
  have "n \<in> members L" using fire_invD(3) [OF assms(1)] assms(2) by (auto intro: membersI)
  then obtain nd where nd: "nodes tw n = Some nd"
    using slots_inv_nodeD fire_invD(1) [OF assms(1)] by blast
  moreover obtain cb where "callback nd = Some cb"
    using nd fire_invD(5) [OF assms(1)] unfolding owned_def by blast
  ultimately show "\<exists>nd cb. nodes tw n = Some nd \<and> callback nd = Some cb" by blast
  show "n < next_node tw" using slots_invD(3) [OF fire_invD(1) [OF assms(1)]] nd by blast
qed

lemma live_all: "fire_inv tw L ns \<Longrightarrow> live tw ns = ns"
  unfolding live_def by (rule filter_True) (use fire_inv_member(1) in blast)

lemma fire_inv_done:
  assumes "fire_inv tw L []"
  shows "timer_inv tw (L(TickHead := None))"
proof -
  note i = fire_invD [OF assms]
  have "rings (lnk tw) (L(TickHead := None))"
    using slots_invD(1) [OF i(1)] by (rule rings_submap) (auto simp: map_le_def)
  then have "slots_inv (tw\<lparr>lnk := lnk tw\<rparr>) (L(TickHead := None))"
    by (rule slots_inv_links [OF i(1)]) (use slots_invD(2) [OF i(1)] in \<open>auto split: if_splits\<close>)
  moreover have "members (L(TickHead := None)) = members L"
    using i(3) by (intro members_drop) simp
  moreover have "placed (slot_ok (currtick tw)) tw (L(TickHead := None))"
    using i(4) unfolding placed_def by (auto split: if_splits)
  ultimately show ?thesis
    using i(2,5) by (auto simp: timer_inv_winv winv_def owned_def)
qed

lemma base_inv_cong:
  assumes "base_inv tw L" "lnk tw' = lnk tw" "nodes tw' = nodes tw" "next_node tw' = next_node tw"
    "currtick tw' = currtick tw"
  shows "base_inv tw' L"
  using assms by (auto simp: base_inv_def slots_inv_def placed_def owned_def)

lemma fire_take:
  assumes "fire_inv tw L (n # ns)"
  shows "fire_inv (free_node (take_node tw n) n) (L(TickHead \<mapsto> map Node ns)) ns"
proof -
  have b: "base_inv tw L" and l: "L TickHead = Some (Node n # map Node ns)"
    and d: "dom L = insert TickHead wheel_slots"
    using assms by (auto simp: fire_inv_def)
  obtain nd where nd: "nodes tw n = Some nd" using fire_inv_member(1) [OF assms, of n] by auto
  then obtain h p xs ys where D: "wmTimerWheel_del tw (Some n) = Some (1, tw\<lparr>lnk := h, nodes := (nodes tw)(n := None)\<rparr>)"
      "L p = Some (xs @ Node n # ys)" "Node n \<notin> set xs \<union> set ys"
      "base_inv (tw\<lparr>lnk := h, nodes := (nodes tw)(n := None)\<rparr>) (L(p \<mapsto> xs @ ys))"
    using del_ok [OF b, of n] by auto
  have "\<not> wmList_is_empty (lnk tw) (Node n)"
    using wl.in_list_nonempty [OF slots_invD(1) [OF base_invD(1) [OF b]] D(2)] .
  with D(1) nd have "tw\<lparr>lnk := wmList_remote (lnk tw) (Node n), nodes := (nodes tw)(n := None)\<rparr> =
      tw\<lparr>lnk := h, nodes := (nodes tw)(n := None)\<rparr>" (is "?a = ?b")
    by (simp add: wmTimerWheel_del_def)
  then have "lnk ?a = lnk ?b" by (rule arg_cong)
  then have h: "h = wmList_remote (lnk tw) (Node n)" by simp
  have "p = TickHead"
    using wl.in_one_list [OF slots_invD(1) [OF base_invD(1) [OF b]] D(2) l, of "Node n"] by simp
  with D(2) l have e: "xs @ Node n # ys = Node n # map Node ns" by simp
  then have "xs = []" using D(3) by (cases xs) auto
  then have e': "xs @ ys = map Node ns" using e by simp
  have "base_inv (free_node (take_node tw n) n) (L(p \<mapsto> xs @ ys))"
    by (rule base_inv_cong [OF D(4)]) (simp_all add: h take_node_def free_node_def)
  then have "base_inv (free_node (take_node tw n) n) (L(TickHead \<mapsto> map Node ns))"
    using \<open>p = TickHead\<close> e' by simp
  then show ?thesis using d by (auto simp: fire_inv_def)
qed

end
