(* ===== verification/Wm_Timer_Tick.thy ===== *)
theory Wm_Timer_Tick
  imports Wm_Timer_Ops
begin

text \<open>
  One tick of the wheel, and the loop of ticks. The code behind the callback pointers is a
  parameter; what it must respect is the locale \<open>timer_callbacks\<close>: it keeps the wheel's invariant,
  it does not move the counter, and of the nodes allocated before it only frees some. Under that
  contract a tick returns, fires exactly the nodes that expire at the new counter value, in the
  order of their slot and each of them unless an earlier callback deleted it, and keeps the
  invariant.
\<close>

section \<open>Firing\<close>

text \<open>
  What holds while callbacks run: of the list \<open>ns\<close> the tick began with, the nodes still allocated
  are pending, the wheel is in order.
\<close>

definition firing :: "'z wheel_scheme \<Rightarrow> nat list \<Rightarrow> bool" where
  "firing tw ns \<longleftrightarrow> (\<exists>L. fire_inv tw L (live tw ns)) \<and> (\<forall>n \<in> set ns. n < next_node tw)"

lemma fire_inv_firing: "fire_inv tw L ns \<Longrightarrow> firing tw ns"
  unfolding firing_def using live_all fire_inv_member(2) by metis

lemma firing_cong:
  assumes "firing tw ns" "lnk tw' = lnk tw" "nodes tw' = nodes tw" "next_node tw' = next_node tw"
    "currtick tw' = currtick tw"
  shows "firing tw' ns"
proof -
  obtain L where "fire_inv tw L (live tw ns)" using assms(1) by (auto simp: firing_def)
  then have "fire_inv tw' L (live tw' ns)"
    unfolding fire_inv_def using base_inv_cong [OF _ assms(2-5)] assms(3) by (simp add: live_def)
  then show ?thesis using assms by (auto simp: firing_def)
qed

lemma firing_add:
  assumes "firing tw ns"
  shows "\<exists>tw'. wmTimerWheel_add_quick tw (Some cb) ud t = Some (next_node tw, tw') \<and> firing tw' ns"
proof -
  obtain L where f: "fire_inv tw L (live tw ns)" and lt: "\<forall>n \<in> set ns. n < next_node tw"
    using assms by (auto simp: firing_def)
  obtain tw' p ys where a: "wmTimerWheel_add_quick tw (Some cb) ud t = Some (next_node tw, tw')"
      "p \<in> wheel_slots" "L p = Some ys" "base_inv tw' (L(p \<mapsto> ys @ [Node (next_node tw)]))"
    using add_quick_ok [OF fire_invD(6) [OF f]] by blast
  have n: "next_node tw' = Suc (next_node tw)" "nodes tw' = (nodes tw)(next_node tw \<mapsto> the (nodes tw' (next_node tw)))"
    using a(1) by (auto simp: add_quick_eq Let_def)
  have "live tw' ns = live tw ns"
    unfolding live_def by (rule filter_cong [OF refl]) (subst n(2), use lt in auto)
  then have "fire_inv tw' (L(p \<mapsto> ys @ [Node (next_node tw)])) (live tw' ns)"
    using f a by (auto simp: fire_inv_def)
  then show ?thesis using a(1) lt n(1) by (auto simp: firing_def)
qed

lemma firing_del:
  assumes "firing tw ns" "nodes tw n \<noteq> None"
  shows "\<exists>h. wmTimerWheel_del tw (Some n) = Some (1, tw\<lparr>lnk := h, nodes := (nodes tw)(n := None)\<rparr>) \<and>
    firing (tw\<lparr>lnk := h, nodes := (nodes tw)(n := None)\<rparr>) ns"
proof -
  obtain L where f: "fire_inv tw L (live tw ns)" and lt: "\<forall>n \<in> set ns. n < next_node tw"
    using assms by (auto simp: firing_def)
  obtain h p xs ys where d: "wmTimerWheel_del tw (Some n) = Some (1, tw\<lparr>lnk := h, nodes := (nodes tw)(n := None)\<rparr>)"
      "L p = Some (xs @ Node n # ys)" "Node n \<notin> set xs \<union> set ys"
      "base_inv (tw\<lparr>lnk := h, nodes := (nodes tw)(n := None)\<rparr>) (L(p \<mapsto> xs @ ys))"
    using del_ok [OF fire_invD(6) [OF f] assms(2)] by blast
  let ?tw = "tw\<lparr>lnk := h, nodes := (nodes tw)(n := None)\<rparr>"
  note r = slots_invD(1) [OF fire_invD(1) [OF f]]
  have lv: "live ?tw ns = filter (\<lambda>k. k \<noteq> n) (live tw ns)" by (auto simp: live_def intro: filter_cong)
  have nx: "filter (\<lambda>a. a \<noteq> Node n) (xs @ Node n # ys) = xs @ ys"
    using d(3) by (simp add: filter_id_conv [THEN iffD2])  (metis (mono_tags, lifting) filter_True)
  have "(L(p \<mapsto> xs @ ys)) TickHead = Some (map Node (live ?tw ns))"
  proof (cases "p = TickHead")
    case True
    then have "map Node (live tw ns) = xs @ Node n # ys" using fire_invD(3) [OF f] d(2) by simp
    then have "xs @ ys = filter (\<lambda>a. a \<noteq> Node n) (map Node (live tw ns))" using nx by simp
    then show ?thesis using True by (simp add: lv filter_map o_def)
  next
    case False
    then have "Node n \<notin> set (map Node (live tw ns))"
      using wl.in_one_list [OF r d(2) fire_invD(3) [OF f], of "Node n"] by auto
    then have "live ?tw ns = live tw ns" unfolding lv by (intro filter_True) auto
    then show ?thesis using False fire_invD(3) [OF f] by simp
  qed
  then have "fire_inv ?tw (L(p \<mapsto> xs @ ys)) (live ?tw ns)"
    using d(2,4) fire_invD(2) [OF f] by (auto simp: fire_inv_def)
  then show ?thesis using d(1) lt by (auto simp: firing_def)
qed

text \<open>
  Both situations, at rest and while firing, are kept by the operations on timers: \<open>steady\<close> names
  what the two have in common, so that each client lemma is proved once.
\<close>

definition steady :: "('z wheel_scheme \<Rightarrow> bool) \<Rightarrow> bool" where
  "steady P \<longleftrightarrow>
     (\<forall>tw. P tw \<longrightarrow> (\<exists>L. base_inv tw L)) \<and>
     (\<forall>tw tw'. P tw \<longrightarrow> lnk tw' = lnk tw \<longrightarrow> nodes tw' = nodes tw \<longrightarrow> next_node tw' = next_node tw \<longrightarrow>
        currtick tw' = currtick tw \<longrightarrow> P tw') \<and>
     (\<forall>tw cb ud t. P tw \<longrightarrow>
        (\<exists>tw'. wmTimerWheel_add_quick tw (Some cb) ud t = Some (next_node tw, tw') \<and> P tw')) \<and>
     (\<forall>tw n. P tw \<longrightarrow> nodes tw n \<noteq> None \<longrightarrow>
        (\<exists>h. wmTimerWheel_del tw (Some n) = Some (1, tw\<lparr>lnk := h, nodes := (nodes tw)(n := None)\<rparr>) \<and>
             P (tw\<lparr>lnk := h, nodes := (nodes tw)(n := None)\<rparr>)))"

lemma steadyD:
  assumes "steady P" "P tw"
  shows "\<exists>L. base_inv tw L"
    "lnk tw' = lnk tw \<Longrightarrow> nodes tw' = nodes tw \<Longrightarrow> next_node tw' = next_node tw \<Longrightarrow> currtick tw' = currtick tw \<Longrightarrow> P tw'"
    "\<exists>tw'. wmTimerWheel_add_quick tw (Some cb) ud t = Some (next_node tw, tw') \<and> P tw'"
    "nodes tw n \<noteq> None \<Longrightarrow> \<exists>h. wmTimerWheel_del tw (Some n) = Some (1, tw\<lparr>lnk := h, nodes := (nodes tw)(n := None)\<rparr>) \<and>
             P (tw\<lparr>lnk := h, nodes := (nodes tw)(n := None)\<rparr>)"
  using assms unfolding steady_def by blast+

lemma steady_fresh: "steady P \<Longrightarrow> P tw \<Longrightarrow> nodes tw (next_node tw) = None"
  using steadyD(1) slots_invD(3) base_invD(1) less_irrefl by metis

lemma steadyI:
  assumes "\<And>tw. P tw \<Longrightarrow> \<exists>L. base_inv tw L"
    and "\<And>tw tw'. P tw \<Longrightarrow> lnk tw' = lnk tw \<Longrightarrow> nodes tw' = nodes tw \<Longrightarrow> next_node tw' = next_node tw \<Longrightarrow>
        currtick tw' = currtick tw \<Longrightarrow> P tw'"
    and "\<And>tw cb ud t. P tw \<Longrightarrow>
        \<exists>tw'. wmTimerWheel_add_quick tw (Some cb) ud t = Some (next_node tw, tw') \<and> P tw'"
    and "\<And>tw n. P tw \<Longrightarrow> nodes tw n \<noteq> None \<Longrightarrow>
        \<exists>h. wmTimerWheel_del tw (Some n) = Some (1, tw\<lparr>lnk := h, nodes := (nodes tw)(n := None)\<rparr>) \<and>
             P (tw\<lparr>lnk := h, nodes := (nodes tw)(n := None)\<rparr>)"
  shows "steady P"
  unfolding steady_def using assms by blast

lemma steady_firing: "steady (\<lambda>tw. firing tw ns)"
proof (rule steadyI)
  fix tw :: "'z wheel_scheme" assume "firing tw ns"
  then show "\<exists>L. base_inv tw L" using fire_invD(6) unfolding firing_def by blast
qed (use firing_add firing_del firing_cong in blast)+

lemma steady_resting: "steady (\<lambda>tw. \<exists>L. timer_inv tw L)"
proof (rule steadyI)
  fix tw :: "'z wheel_scheme" and cb ud t
  assume "\<exists>L. timer_inv tw L"
  then obtain L where L: "base_inv tw L" "dom L = wheel_slots" by (auto simp: timer_inv_def)
  obtain tw' p ys where a: "wmTimerWheel_add_quick tw (Some cb) ud t = Some (next_node tw, tw')"
      "p \<in> wheel_slots" "base_inv tw' (L(p \<mapsto> ys @ [Node (next_node tw)]))"
    using add_quick_ok [OF L(1)] by blast
  have "timer_inv tw' (L(p \<mapsto> ys @ [Node (next_node tw)]))"
    using a(2,3) L(2) by (auto simp: timer_inv_def)
  then show "\<exists>tw'. wmTimerWheel_add_quick tw (Some cb) ud t = Some (next_node tw, tw') \<and> (\<exists>L. timer_inv tw' L)"
    using a(1) by blast
next
  fix tw :: "'z wheel_scheme" and n
  assume "\<exists>L. timer_inv tw L" and n: "nodes tw n \<noteq> None"
  then obtain L where L: "base_inv tw L" "dom L = wheel_slots" by (auto simp: timer_inv_def)
  obtain h p xs ys where d: "wmTimerWheel_del tw (Some n) = Some (1, tw\<lparr>lnk := h, nodes := (nodes tw)(n := None)\<rparr>)"
      "L p = Some (xs @ Node n # ys)" "base_inv (tw\<lparr>lnk := h, nodes := (nodes tw)(n := None)\<rparr>) (L(p \<mapsto> xs @ ys))"
    using del_ok [OF L(1) n] by blast
  have "timer_inv (tw\<lparr>lnk := h, nodes := (nodes tw)(n := None)\<rparr>) (L(p \<mapsto> xs @ ys))"
    using d(2,3) L(2) by (auto simp: timer_inv_def)
  then show "\<exists>h. wmTimerWheel_del tw (Some n) = Some (1, tw\<lparr>lnk := h, nodes := (nodes tw)(n := None)\<rparr>) \<and>
      (\<exists>L. timer_inv (tw\<lparr>lnk := h, nodes := (nodes tw)(n := None)\<rparr>) L)"
    using d(1) by blast
next
  fix tw tw' :: "'z wheel_scheme"
  assume "\<exists>L. timer_inv tw L" and e: "lnk tw' = lnk tw" "nodes tw' = nodes tw" "next_node tw' = next_node tw"
    "currtick tw' = currtick tw"
  then show "\<exists>L. timer_inv tw' L" using base_inv_cong [OF _ e] unfolding timer_inv_def by blast
qed (auto simp: timer_inv_def)

text \<open>The node being fired is invisible to the operations on other nodes.\<close>

lemma add_quick_free_node:
  "m \<noteq> next_node tw \<Longrightarrow> wmTimerWheel_add_quick (free_node tw m) cb ud t =
     map_option (\<lambda>(n, tw'). (n, free_node tw' m)) (wmTimerWheel_add_quick tw cb ud t)"
  by (simp add: add_quick_eq Let_def free_node_def fun_upd_twist)

lemma del_free_node:
  "m \<noteq> n \<Longrightarrow> wmTimerWheel_del (free_node tw m) (Some n) =
     map_option (\<lambda>(r, tw'). (r, free_node tw' m)) (wmTimerWheel_del tw (Some n))"
  by (simp add: wmTimerWheel_del_def free_node_def fun_upd_twist)

text \<open>Firing a list of nodes in order, skipping those that have been freed meanwhile.\<close>

fun fire_seq ::
    "(nat \<Rightarrow> nat \<Rightarrow> 'z wheel_scheme \<Rightarrow> 'z wheel_scheme option) \<Rightarrow> nat list \<Rightarrow> 'z wheel_scheme \<Rightarrow> 'z wheel_scheme option" where
  "fire_seq call [] tw = Some tw"
| "fire_seq call (n # ns) tw =
    (case nodes tw n of
       None \<Rightarrow> fire_seq call ns tw
     | Some nd \<Rightarrow> Option.bind (call (the (callback nd)) (userdata nd) (take_node tw n))
                    (\<lambda>tw2. fire_seq call ns (free_node tw2 n)))"

text \<open>Taking the slot of the counter onto the local head: what is due is there, the rest stays.\<close>

lemma splice_due:
  assumes inv: "slots_inv tw L" and dom: "dom L = wheel_slots" and c: "currtick tw = c"
    and pl: "placed (slot_ok0 c) tw L" and ow: "owned tw L"
  shows "\<exists>ns L'. distinct ns \<and> set ns = {n. \<exists>nd. nodes tw n = Some nd \<and> expire nd = c} \<and>
    fire_inv (tw\<lparr>lnk := wmList_splice (wmList_init (lnk tw) TickHead) (Root (unat c mod 256)) TickHead\<rparr>) L' ns"
    (is "\<exists>ns L'. _ \<and> _ \<and> fire_inv ?tw L' ns")
proof -
  let ?r = "Root (unat c mod 256)"
  have "?r \<in> dom L" unfolding dom by simp
  then obtain xs where xs: "L ?r = Some xs" by auto
  have "TickHead \<notin> dom L" unfolding dom by simp
  then have lt: "L TickHead = None" by auto
  have un: "unused L TickHead" by (rule unused_local [OF inv lt]) auto
  define M where "M = L(?r \<mapsto> [], TickHead \<mapsto> xs)"
  have "rings (lnk ?tw) (L(TickHead \<mapsto> [], ?r \<mapsto> [], TickHead \<mapsto> xs @ []))"
    using wl.splice_rep [OF wl.init_new [OF slots_invD(1) [OF inv] un], of ?r xs TickHead "[]"] xs by simp
  then have r: "rings (lnk ?tw) M" unfolding M_def by (simp add: fun_upd_twist)
  have sM: "slots_inv ?tw M"
  proof (rule slots_inv_links [OF inv])
    show "rings (wmList_splice (wmList_init (lnk tw) TickHead) ?r TickHead) M" using r by simp
    show "M (Node n) = None" for n using slots_invD(2) [OF inv] by (simp add: M_def)
    fix p ys a assume "M p = Some ys" "a \<in> set ys"
    then show "\<exists>q zs. L q = Some zs \<and> a \<in> set zs"
      using xs unfolding M_def by (auto split: if_splits)
  qed
  have xn: "\<forall>a \<in> set xs. \<exists>n. a = Node n" using slots_invD(4) [OF inv xs] by blast
  obtain ns where ns: "xs = map Node ns"
    using xn by (metis (no_types) ex_map_conv)
  have "distinct xs" using wl.distinct_rep [OF slots_invD(1) [OF inv] xs] by simp
  then have dn: "distinct ns" by (simp add: ns distinct_map)
  have mem: "members M = members L"
    unfolding M_def using xs lt by (intro members_move) simp_all
  have due: "n \<in> set ns \<longleftrightarrow> (\<exists>nd. nodes tw n = Some nd \<and> expire nd = c)" for n
  proof
    assume "n \<in> set ns"
    then have m: "Node n \<in> set xs" by (simp add: ns)
    then obtain nd where nd: "nodes tw n = Some nd" using slots_invD(4) [OF inv xs] by blast
    then have "slot_ok0 c ?r (expire nd)" using placedD [OF pl _ xs m nd] by (simp del: slot_ok0.simps)
    then show "\<exists>nd. nodes tw n = Some nd \<and> expire nd = c" using nd slot_ok0_due by blast
  next
    assume "\<exists>nd. nodes tw n = Some nd \<and> expire nd = c"
    then obtain nd where nd: "nodes tw n = Some nd" "expire nd = c" by blast
    then have "n \<in> members L" using ow unfolding owned_def by blast
    then obtain p ys where p: "L p = Some ys" "Node n \<in> set ys" unfolding members_def by blast
    have "p \<in> wheel_slots" using p(1) dom by blast
    then have "slot_ok0 c p (expire nd)" using placedD [OF pl _ p nd(1)] by blast
    then have "p = ?r" using nd slot_ok0_due by blast
    then show "n \<in> set ns" using p xs by (auto simp: ns)
  qed
  have "placed (slot_ok c) ?tw M"
    unfolding placed_def
  proof (intro allI impI)
    fix p ys n nd assume p: "p \<in> wheel_slots" "M p = Some ys" "Node n \<in> set ys" "nodes ?tw n = Some nd"
    have pr: "p \<noteq> ?r" "p \<noteq> TickHead" using p unfolding M_def by auto
    then have "slot_ok0 c p (expire nd)" using p pl unfolding placed_def M_def by simp
    then show "slot_ok c p (expire nd)" using pr slot_ok0_due unfolding slot_ok_def by blast
  qed
  then have "fire_inv ?tw M ns"
    unfolding fire_inv_def base_inv_def using sM dom xs ns c ow mem by (auto simp: M_def owned_def)
  then show ?thesis using dn due by blast
qed

text \<open>The same sequence as steps of a relation between the states before and after each callback.\<close>

fun fire_chain :: "('z wheel_scheme \<Rightarrow> nat \<Rightarrow> timernode \<Rightarrow> 'z wheel_scheme \<Rightarrow> bool) \<Rightarrow> nat list \<Rightarrow>
    'z wheel_scheme \<Rightarrow> 'z wheel_scheme \<Rightarrow> bool" where
  "fire_chain R [] tw tw' \<longleftrightarrow> tw' = tw"
| "fire_chain R (n # ns) tw tw' \<longleftrightarrow>
    (case nodes tw n of
       None \<Rightarrow> fire_chain R ns tw tw'
     | Some nd \<Rightarrow> \<exists>tw2. R tw n nd tw2 \<and> fire_chain R ns tw2 tw')"

section \<open>Loops of ticks\<close>

lemma tick_loop_split:
  "tick_loop call 1 (int j) w = Some (0, w1) \<Longrightarrow> tick_loop call 1 (int (j + k)) w = tick_loop call 1 (int k) w1"
proof (induction j arbitrary: w)
  case 0
  have "tick_loop call 1 (int 0) w = Some (0, w)" by (subst tick_loop.simps) simp
  then show ?case using 0 by simp
next
  case (Suc j)
  have one: "tick_loop call 1 (int (Suc m)) w = Option.bind (wmTimerWheelick call w) (tick_loop call 1 (int m))" for m
    by (subst tick_loop.simps) simp
  then obtain w2 where "wmTimerWheelick call w = Some w2" "tick_loop call 1 (int j) w2 = Some (0, w1)"
    using Suc.prems by (auto simp del: of_nat_Suc simp: bind_eq_Some_conv)
  then show ?case using Suc.IH [of w2] one [of "j + k"] by simp
qed

text \<open>An update of a wheel with ticks of a millisecond is as many ticks as milliseconds have passed.\<close>

lemma update_ms:
  assumes "interval tw = 1" "remainder tw = 0" "lasttime tw < now" "unat (now - lasttime tw) = d" "d < 2 ^ 31"
  shows "wmTimerWheel_update call tw now =
    map_option (\<lambda>(rest, tw). tw\<lparr>remainder := word_of_int rest\<rparr>) (tick_loop call 1 (int d) (tw\<lparr>lasttime := now\<rparr>))"
proof -
  have "unat (ucast (now - lasttime tw) :: u32) = d" using assms(4,5) by (simp add: unsigned_ucast_eq take_bit_nat_eq_self)
  then have "sint (ucast (now - lasttime tw) :: u32) = int d" using assms(5) by (rule sint_small32)
  then show ?thesis using assms(1-3) by (simp add: wmTimerWheel_update_def Let_def)
qed

section \<open>The contract of the callbacks\<close>

locale timer_callbacks =
  fixes call :: "nat \<Rightarrow> nat \<Rightarrow> 'z wheel_scheme \<Rightarrow> 'z wheel_scheme option"
    and Q :: "'z wheel_scheme \<Rightarrow> bool"
    and R :: "'z wheel_scheme \<Rightarrow> nat \<Rightarrow> timernode \<Rightarrow> 'z wheel_scheme \<Rightarrow> bool"
  assumes Q_wheel: "Q tw \<Longrightarrow> nodes tw' = nodes tw \<Longrightarrow> next_node tw' = next_node tw \<Longrightarrow>
      tw_num tw' = tw_num tw \<Longrightarrow> wheel.more tw' = wheel.more tw \<Longrightarrow> Q tw'"
    and call_ok: "firing (free_node (take_node tw n) n) ns \<Longrightarrow> Q tw \<Longrightarrow> nodes tw n = Some nd \<Longrightarrow>
      n < next_node tw \<Longrightarrow> callback nd = Some cb \<Longrightarrow>
      \<exists>tw2. call cb (userdata nd) (take_node tw n) = Some tw2 \<and> Q (free_node tw2 n) \<and>
        firing (free_node tw2 n) ns \<and> only_frees tw (free_node tw2 n) \<and> R tw n nd (free_node tw2 n)"
begin

lemma fire_live_ok:
  assumes "firing tw ns" "Q tw"
  shows "\<exists>tw' L'. fire call tw = Some tw' \<and> fire_inv tw' L' [] \<and> Q tw' \<and> only_frees tw tw' \<and>
    fire_seq call ns tw = Some tw' \<and> fire_chain R ns tw tw'"
  using assms
proof (induction ns arbitrary: tw)
  case Nil
  then obtain L where f: "fire_inv tw L []" by (auto simp: firing_def live_def)
  have "wmList_is_empty (lnk tw) TickHead"
    using wl.is_empty_rep [OF slots_invD(1) [OF fire_invD(1) [OF f]] fire_invD(3) [OF f]] by simp
  then show ?case using Nil f by (subst fire.simps) auto
next
  case (Cons n ms)
  show ?case
  proof (cases "nodes tw n")
    case None
    then have "firing tw ms" using Cons.prems(1) by (auto simp: firing_def live_def)
    then show ?thesis using Cons None by simp
  next
    case (Some nd)
    then have lv: "live tw (n # ms) = n # live tw ms" by (simp add: live_def)
    obtain L where i: "fire_inv tw L (n # live tw ms)" using Cons.prems(1) lv by (auto simp: firing_def)
    have p: "\<not> wmList_is_empty (lnk tw) TickHead" "nxt (lnk tw) TickHead = Node n"
      using wl.pop_first(1,2) [OF slots_invD(1) [OF fire_invD(1) [OF i]], of TickHead "Node n" "map Node (live tw ms)"]
        fire_invD(3) [OF i] by auto
    obtain cb where cb: "callback nd = Some cb"
      using fire_inv_member(1) [OF i, of n] Some by auto
    have "n \<notin> set (live tw ms)"
      using wl.distinct_rep [OF slots_invD(1) [OF fire_invD(1) [OF i]] fire_invD(3) [OF i]]
      by (auto simp: distinct_map)
    then have "live (free_node (take_node tw n) n) ms = live tw ms"
      by (auto simp: live_def free_node_def take_node_def intro: filter_cong)
    then have "firing (free_node (take_node tw n) n) ms"
      using fire_take [OF i] Cons.prems(1) by (auto simp: firing_def free_node_def take_node_def)
    moreover have "n < next_node tw" using Cons.prems(1) by (simp add: firing_def)
    ultimately obtain tw2 where c: "call cb (userdata nd) (take_node tw n) = Some tw2" "Q (free_node tw2 n)"
        "firing (free_node tw2 n) ms" "only_frees tw (free_node tw2 n)" "R tw n nd (free_node tw2 n)"
      using call_ok [OF _ Cons.prems(2) Some _ cb] by blast
    obtain tw' L' where IH: "fire call (free_node tw2 n) = Some tw'" "fire_inv tw' L' []" "Q tw'"
        "only_frees (free_node tw2 n) tw'" "fire_seq call ms (free_node tw2 n) = Some tw'"
        "fire_chain R ms (free_node tw2 n) tw'"
      using Cons.IH [OF c(3,2)] by blast
    have "fire call tw = fire call (free_node tw2 n)"
      using p Some cb c(1) by (subst fire.simps) (simp add: take_node_def free_node_def)
    moreover have "fire_seq call (n # ms) tw = fire_seq call ms (free_node tw2 n)"
      using Some cb c(1) by simp
    moreover have "fire_chain R (n # ms) tw tw'" using Some c(5) IH(6) by auto
    ultimately show ?thesis using IH only_frees_trans [OF c(4)] by auto
  qed
qed

text \<open>
  One tick: \<open>ns\<close> lists exactly the nodes due at the new counter value; the tick is the firing of
  \<open>ns\<close> from a state in which only the links and the counter have moved.
\<close>

lemma tick_ok:
  assumes inv: "timer_inv tw L" and q: "Q tw"
  shows "\<exists>ns h tw' L'. distinct ns \<and> set ns = {n. \<exists>nd. nodes tw n = Some nd \<and> expire nd = currtick tw + 1} \<and>
    wmTimerWheelick call tw = Some tw' \<and> timer_inv tw' L' \<and> Q tw' \<and>
    only_frees (tw\<lparr>currtick := currtick tw + 1\<rparr>) tw' \<and>
    fire_seq call ns (tw\<lparr>lnk := h, currtick := currtick tw + 1\<rparr>) = Some tw' \<and>
    fire_chain R ns (tw\<lparr>lnk := h, currtick := currtick tw + 1\<rparr>) tw'"
proof -
  define tw1 where "tw1 = tw\<lparr>currtick := currtick tw + 1\<rparr>"
  define c where "c = currtick tw + 1"
  have i0: "slots_inv tw1 L" and d0: "dom L = wheel_slots" and o0: "owned tw L"
    using inv by (simp_all add: timer_inv_winv winv_def slots_inv_def tw1_def)
  have p0: "placed (pre_cascade c 0) tw1 L"
  proof -
    have "placed (slot_ok (currtick tw)) tw1 L"
      using inv by (simp add: timer_inv_winv winv_def placed_def tw1_def)
    then show ?thesis
      by (rule placed_mono) (use slot_ok_step in \<open>fastforce simp: pre_cascade_def c_def\<close>)
  qed
  define index where "index = unat (currtick tw1 AND TVR_MASK)"
  have index: "index = unat c mod 256" using FIRST_INDEX_eq [of c] by (simp add: FIRST_INDEX_def index_def tw1_def c_def)
  have "\<exists>h1 L1. (if index = 0 then cascade_levels tw1 0 else Some tw1) = Some (tw1\<lparr>lnk := h1\<rparr>) \<and>
      slots_inv (tw1\<lparr>lnk := h1\<rparr>) L1 \<and> dom L1 = wheel_slots \<and> placed (slot_ok0 c) (tw1\<lparr>lnk := h1\<rparr>) L1 \<and>
      members L1 = members L"
  proof (cases "index = 0")
    case True
    have ct: "currtick tw1 = c" by (simp add: tw1_def c_def)
    have lb: "unat (currtick tw1) mod 2 ^ (8 + 0 * 6) = 0" using True index ct by simp
    have p0': "placed (pre_cascade (currtick tw1) 0) tw1 L" using p0 ct by simp
    show ?thesis using cascade_levels_ok [OF _ lb i0 d0 p0'] True ct by simp
  next
    case False
    have "placed (slot_ok0 c) tw1 L"
    proof (rule placed_mono [OF p0])
      fix p e assume "pre_cascade c 0 p e"
      then consider "slot_ok0 c p e" | j s where "cascaded c j s" by (auto simp: pre_cascade_def)
      then show "slot_ok0 c p e"
      proof cases
        case 2
        then have "unat c mod 2 ^ (8 + 0 * 6) = 0" using low_bits_mono [of c j 0] by (simp add: cascaded_def)
        then show ?thesis using False index by simp
      qed
    qed
    moreover have "(if index = 0 then cascade_levels tw1 0 else Some tw1) = Some (tw1\<lparr>lnk := lnk tw1\<rparr>)"
      using False by simp
    moreover have "tw1\<lparr>lnk := lnk tw1\<rparr> = tw1" by simp
    ultimately show ?thesis using i0 d0 by metis
  qed
  then obtain h1 L1 where casc: "(if index = 0 then cascade_levels tw1 0 else Some tw1) = Some (tw1\<lparr>lnk := h1\<rparr>)"
      and i1: "slots_inv (tw1\<lparr>lnk := h1\<rparr>) L1" and d1: "dom L1 = wheel_slots"
      and p1: "placed (slot_ok0 c) (tw1\<lparr>lnk := h1\<rparr>) L1" and m1: "members L1 = members L"
    by blast
  have o1: "owned (tw1\<lparr>lnk := h1\<rparr>) L1" using o0 m1 by (simp add: owned_def tw1_def)
  let ?tw = "tw1\<lparr>lnk := h1\<rparr>"
  define tw2 where
    "tw2 = ?tw\<lparr>lnk := wmList_splice (wmList_init (lnk ?tw) TickHead) (Root (unat c mod 256)) TickHead\<rparr>"
  have ct: "currtick ?tw = c" by (simp add: tw1_def c_def)
  obtain ns L2 where ns: "distinct ns" "set ns = {n. \<exists>nd. nodes ?tw n = Some nd \<and> expire nd = c}"
      and f: "fire_inv tw2 L2 ns"
    using splice_due [OF i1 d1 ct p1 o1] unfolding tw2_def by blast
  have q2: "Q tw2" using q by (rule Q_wheel) (simp_all add: tw2_def tw1_def)
  obtain tw' L' where fin: "fire call tw2 = Some tw'" "fire_inv tw' L' []" "Q tw'" "only_frees tw2 tw'"
      "fire_seq call ns tw2 = Some tw'" "fire_chain R ns tw2 tw'"
    using fire_live_ok [OF fire_inv_firing [OF f] q2] by blast
  have tick: "wmTimerWheelick call tw = Some tw'"
    using casc fin(1) unfolding wmTimerWheelick_def Let_def tw1_def [symmetric] index_def [symmetric] tw2_def
    by (simp add: index)
  have "timer_inv tw' (L'(TickHead := None))"
    using fire_inv_done [OF fin(2)] .
  moreover have "only_frees tw1 tw'" using fin(4) by (simp add: only_frees_def tw2_def)
  moreover have "set ns = {n. \<exists>nd. nodes tw n = Some nd \<and> expire nd = c}" using ns(2) by (simp add: tw1_def)
  moreover have "\<exists>h. tw2 = tw\<lparr>lnk := h, currtick := c\<rparr>"
    by (rule exI [of _ "lnk tw2"], rule wheel.equality) (simp_all add: tw2_def tw1_def c_def)
  ultimately show ?thesis using ns(1) tick fin(3,5,6) unfolding c_def tw1_def by blast
qed

text \<open>The loop of ticks: as many as the elapsed time has intervals; the rest is what remains.\<close>

lemma tick_loop_ok:
  assumes "0 < intv" "timer_inv tw L" "Q tw"
  shows "\<exists>tw' L'. tick_loop call intv diff tw = Some (if diff < 0 then diff else diff mod intv, tw') \<and>
    timer_inv tw' L' \<and> Q tw' \<and> currtick tw' = currtick tw + of_nat (nat (diff div intv)) \<and>
    lasttime tw' = lasttime tw \<and> interval tw' = interval tw"
  using assms(2,3)
proof (induction "nat diff" arbitrary: diff tw L rule: less_induct)
  case less
  show ?case
  proof (cases "intv \<le> diff")
    case True
    then have d: "0 \<le> diff" "diff mod intv = (diff - intv) mod intv" "\<not> diff - intv < 0"
        "nat (diff div intv) = Suc (nat ((diff - intv) div intv))"
      using assms(1) div_add_self2 [of intv "diff - intv"] by (simp_all add: Suc_nat_eq_nat_zadd1 pos_imp_zdiv_nonneg_iff)
    obtain tw1 L1 where t: "wmTimerWheelick call tw = Some tw1" "timer_inv tw1 L1" "Q tw1"
        "only_frees (tw\<lparr>currtick := currtick tw + 1\<rparr>) tw1"
      using tick_ok [OF less.prems] by blast
    have "nat (diff - intv) < nat diff" using True assms(1) by simp
    then obtain tw' L' where "tick_loop call intv (diff - intv) tw1 = Some ((diff - intv) mod intv, tw')"
        "timer_inv tw' L'" "Q tw'" "currtick tw' = currtick tw1 + of_nat (nat ((diff - intv) div intv))"
        "lasttime tw' = lasttime tw1" "interval tw' = interval tw1"
      using less.hyps [OF _ t(2,3), of "diff - intv"] d(3) by auto
    moreover have "tick_loop call intv diff tw = tick_loop call intv (diff - intv) tw1"
      using True t(1) by (subst tick_loop.simps) simp
    moreover have "currtick tw1 = currtick tw + 1" "lasttime tw1 = lasttime tw" "interval tw1 = interval tw"
      using t(4) by (simp_all add: only_frees_def)
    moreover have "(if diff < 0 then diff else diff mod intv) = diff mod intv" using d(1) by simp
    moreover have "currtick tw + 1 + of_nat (nat ((diff - intv) div intv)) = currtick tw + of_nat (nat (diff div intv))"
      unfolding d(4) by simp
    ultimately show ?thesis by (intro exI [of _ tw'] exI [of _ L']) (simp only: d(2) simp_thms)
  next
    case False
    then have "tick_loop call intv diff tw = Some (diff, tw)" by (subst tick_loop.simps) simp
    moreover have "nat (diff div intv) = 0"
    proof (cases "0 \<le> diff")
      case True
      then show ?thesis using False by (simp add: div_pos_pos_trivial)
    next
      case neg: False
      then show ?thesis using assms(1) div_neg_pos_less0 [of diff intv] by simp
    qed
    moreover have "(if diff < 0 then diff else diff mod intv) = diff" using False by simp
    ultimately show ?thesis using less.prems by auto
  qed
qed

lemma update_ok:
  assumes inv: "timer_inv tw L" "Q tw" and iv: "0 < interval tw" and adv: "lasttime tw < now"
    and el: "unat now - unat (lasttime tw) + unat (remainder tw) = el" "el < 2 ^ 31"
  shows "\<exists>tw' L'. wmTimerWheel_update call tw now = Some tw' \<and> timer_inv tw' L' \<and> Q tw' \<and>
    currtick tw' = currtick tw + of_nat (el div unat (interval tw)) \<and>
    unat (remainder tw') = el mod unat (interval tw) \<and> lasttime tw' = now \<and> interval tw' = interval tw"
proof -
  define d where "d = now - lasttime tw + ucast (remainder tw)"
  have ll: "lasttime tw \<le> now" using adv by simp
  have r: "unat (ucast (remainder tw) :: u64) = unat (remainder tw)"
    by (rule unat_ucast_16_64)
  have "unat (now - lasttime tw) = unat now - unat (lasttime tw)" by (rule unat_sub [OF ll])
  then have ud: "unat d = el" using el r by (simp add: d_def unat_word_ariths)
  have "unat (ucast d :: u32) = el" using ud el(2) by (simp add: unsigned_ucast_eq take_bit_nat_eq_self)
  then have sd: "sint (ucast d :: u32) = int el" using el(2) by (rule sint_small32)
  define tw0 where "tw0 = tw\<lparr>lasttime := now\<rparr>"
  have i0: "timer_inv tw0 L" "Q tw0"
    using inv base_inv_cong [of tw L tw0] Q_wheel [of tw tw0] by (simp_all add: timer_inv_def tw0_def)
  have iv': "0 < uint (interval tw)" using iv by (simp add: word_less_alt)
  have iu: "uint (interval tw) = int (unat (interval tw))" by simp
  have im: "int el mod uint (interval tw) = int (el mod unat (interval tw))"
    unfolding iu by (rule zmod_int [symmetric])
  have id: "int el div uint (interval tw) = int (el div unat (interval tw))"
    unfolding iu by (rule zdiv_int [symmetric])
  obtain tw' L' where t: "tick_loop call (uint (interval tw)) (int el) tw0 = Some (int el mod uint (interval tw), tw')"
      "timer_inv tw' L'" "Q tw'" "currtick tw' = currtick tw0 + of_nat (nat (int el div uint (interval tw)))"
      "lasttime tw' = lasttime tw0" "interval tw' = interval tw0"
    using tick_loop_ok [OF iv' i0, of "int el"] by auto
  define tw'' where "tw'' = tw'\<lparr>remainder := word_of_int (int el mod uint (interval tw))\<rparr>"
  have "wmTimerWheel_update call tw now = Some tw''"
    using adv t(1) sd by (simp add: wmTimerWheel_update_def Let_def d_def [symmetric] tw0_def tw''_def)
  moreover have "timer_inv tw'' L'" "Q tw''"
    using t(2,3) base_inv_cong [of tw' L' tw''] Q_wheel [of tw' tw''] by (simp_all add: timer_inv_def tw''_def)
  moreover have "unat (remainder tw'') = el mod unat (interval tw)"
  proof -
    have "0 < unat (interval tw)" using iv by (simp only: word_less_nat_alt unat_0)
    then have "el mod unat (interval tw) < unat (interval tw)" by simp
    also have "\<dots> < 2 ^ 16" using unsigned_less [of "interval tw", where ?'a = nat] by simp
    finally have "el mod unat (interval tw) < 2 ^ 16" .
    then have "unat (word_of_nat (el mod unat (interval tw)) :: u16) = el mod unat (interval tw)"
      by (simp add: unat_of_nat take_bit_nat_eq_self)
    moreover have "(word_of_int (int el mod uint (interval tw)) :: u16) = word_of_nat (el mod unat (interval tw))"
      by (simp only: im of_int_of_nat_eq)
    ultimately show ?thesis by (simp add: tw''_def)
  qed
  moreover have "nat (int el div uint (interval tw)) = el div unat (interval tw)"
    by (simp only: id nat_int)
  ultimately show ?thesis using t(4-6) by (auto simp: tw0_def tw''_def)
qed

text \<open>Whatever the clock says, an update is defined and keeps the invariants.\<close>

lemma update_defined:
  assumes inv: "timer_inv tw L" "Q tw" and iv: "0 < interval tw"
  shows "\<exists>tw' L'. wmTimerWheel_update call tw now = Some tw' \<and> timer_inv tw' L' \<and> Q tw' \<and> interval tw' = interval tw"
proof (cases "lasttime tw < now")
  case True
  define tw0 where "tw0 = tw\<lparr>lasttime := now\<rparr>"
  define d where "d = sint (ucast (now - lasttime tw + ucast (remainder tw)) :: u32)"
  have i0: "timer_inv tw0 L" "Q tw0" "interval tw0 = interval tw"
    using inv base_inv_cong [of tw L tw0] Q_wheel [of tw tw0] by (simp_all add: timer_inv_def tw0_def)
  have "0 < uint (interval tw)" using iv by (simp add: word_less_alt)
  then obtain r tw' L' where t: "tick_loop call (uint (interval tw)) d tw0 = Some (r, tw')" "timer_inv tw' L'" "Q tw'"
      "interval tw' = interval tw"
    using tick_loop_ok [OF _ i0(1,2), of _ d] i0(3) by metis
  define tw'' where "tw'' = tw'\<lparr>remainder := word_of_int r\<rparr>"
  have "timer_inv tw'' L'" "Q tw''" "interval tw'' = interval tw"
    using t(2-4) base_inv_cong [of tw' L' tw''] Q_wheel [of tw' tw''] by (simp_all add: timer_inv_def tw''_def)
  moreover have "wmTimerWheel_update call tw now = Some tw''"
    using True t(1) by (simp add: wmTimerWheel_update_def Let_def d_def [symmetric] tw0_def tw''_def)
  ultimately show ?thesis by blast
qed (use inv in \<open>auto simp: wmTimerWheel_update_def\<close>)

end

end
