(* ===== verification/Wm_PhpTimer.thy ===== *)
theory Wm_PhpTimer
  imports Complex_Main Wm_Timer_Tick Wm_Hash
begin

text \<open>
  The \<open>Warriorman\Lib\Timer\<close> class of \<open>src/php_timer.c\<close>: the PHP timers, their table, and the
  callback the timer wheel runs for them. The world is the wheel extended with the timers. The
  PHP function of a timer is user code: what it does to the timers until it yields is a parameter,
  the script of its calls of \<open>Timer::add\<close> and \<open>Timer::del\<close>, kept in the field \<open>script\<close>.
\<close>

section \<open>State\<close>

record phptimer =
  pt_id :: int
  pt_ticks :: int
  persistent :: bool
  pt_timer :: "nat option"
  pt_fcc :: nat

datatype call_act = CAdd rat bool nat | CDel int

record php_world = wheel +
  last_id :: int
  timers :: "nat table"
  pts :: "nat \<rightharpoonup> phptimer"
  next_pt :: nat
  in_worker :: bool
  reloading :: bool
  coros :: "nat list"
  script :: "nat \<Rightarrow> call_act list"

definition TIMER_CB :: nat where "TIMER_CB = 0"

section \<open>Operations\<close>

definition timer_free :: "php_world \<Rightarrow> nat \<Rightarrow> php_world option" where
  "timer_free w t =
    (case pts w t of
       None \<Rightarrow> None
     | Some r \<Rightarrow>
         Option.bind (case pt_timer r of None \<Rightarrow> Some w | Some n \<Rightarrow> map_option snd (wmTimerWheel_del w (Some n)))
           (\<lambda>w. Some (w\<lparr>timers := snd (WM_HASH_DEL (timers w) (hash_key (pt_id r))),
                       pts := (pts w)(t := None)\<rparr>)))"

text \<open>
  The number of milliseconds is stored in a C \<open>int\<close>: the conversion of a value beyond it is
  undefined behaviour.
\<close>

definition ticks_fit :: "rat \<Rightarrow> bool" where
  "ticks_fit seconds \<longleftrightarrow> \<lfloor>seconds * 1000\<rfloor> < 2 ^ 31"

text \<open>
  \<open>Timer::add\<close>: the seconds are an exact rational (the rounding of the C \<open>double\<close> product is not
  modelled); the result \<open>None\<close> is the PHP value false. A delay below a millisecond leaves the
  allocated structure behind.
\<close>

definition timer_add :: "php_world \<Rightarrow> rat \<Rightarrow> bool \<Rightarrow> nat \<Rightarrow> (int option \<times> php_world) option" where
  "timer_add w seconds pers fcc =
    (let t = next_pt w;
         w = w\<lparr>next_pt := t + 1\<rparr> in
     if seconds < 1 / 1000 then Some (None, w)
     else if \<not> ticks_fit seconds then None
     else
       let tid = last_id w + 1;
           r = \<lparr>pt_id = tid, pt_ticks = \<lfloor>seconds * 1000\<rfloor>, persistent = pers, pt_timer = None, pt_fcc = fcc\<rparr>;
           w = w\<lparr>last_id := tid, pts := (pts w)(t \<mapsto> r)\<rparr>;
           (added, tab) = WM_HASH_ADD (timers w) (hash_key tid) t in
       if \<not> added then map_option (\<lambda>w. (None, w)) (timer_free w t)
       else
         map_option (\<lambda>(n, w). (Some tid, w\<lparr>pts := (pts w)(t \<mapsto> r\<lparr>pt_timer := Some n\<rparr>)\<rparr>))
           (wmTimerWheel_add_quick (w\<lparr>timers := tab\<rparr>) (Some TIMER_CB) t (word_of_int (pt_ticks r))))"

definition timer_del :: "php_world \<Rightarrow> int \<Rightarrow> (bool \<times> php_world) option" where
  "timer_del w tid =
    (case WM_HASH_GET (timers w) (hash_key tid) of
       None \<Rightarrow> Some (False, w)
     | Some t \<Rightarrow> map_option (\<lambda>w. (True, w)) (timer_free w t))"

text \<open>\<open>php_wmTimer_init\<close>, with the static counter at its initial value.\<close>

definition php_wmTimer_init :: "php_world \<Rightarrow> php_world" where
  "php_wmTimer_init w = w\<lparr>timers := [], last_id := 0\<rparr>"

text \<open>The user code of a timer, up to its first yield: its calls in order.\<close>

fun run_script :: "call_act list \<Rightarrow> php_world \<Rightarrow> php_world option" where
  "run_script [] w = Some w"
| "run_script (CAdd s p f # as) w = Option.bind (timer_add w s p f) (\<lambda>(r, w). run_script as w)"
| "run_script (CDel i # as) w = Option.bind (timer_del w i) (\<lambda>(r, w). run_script as w)"

text \<open>
  \<open>timer_add_callback\<close>: the coroutine of the function runs first; the timer is then freed or
  armed again. Reading the timer after its own function has deleted it is undefined behaviour, and
  so is following \<open>wmWorker_getCurrent()\<close>, which is read for a persistent timer only: the pointer is
  null outside a worker.
\<close>

definition timer_add_callback :: "nat \<Rightarrow> php_world \<Rightarrow> php_world option" where
  "timer_add_callback t w =
    (case pts w t of
       None \<Rightarrow> None
     | Some r \<Rightarrow>
         Option.bind (run_script (script w (pt_fcc r))
             (w\<lparr>pts := (pts w)(t \<mapsto> r\<lparr>pt_timer := None\<rparr>), coros := coros w @ [pt_fcc r]\<rparr>)) (\<lambda>w.
         case pts w t of
           None \<Rightarrow> None
         | Some r \<Rightarrow>
             if \<not> persistent r then timer_free w t
             else if \<not> in_worker w then None
             else if reloading w then timer_free w t
             else map_option (\<lambda>(n, w). w\<lparr>pts := (pts w)(t \<mapsto> r\<lparr>pt_timer := Some n\<rparr>)\<rparr>)
                    (wmTimerWheel_add_quick w (Some TIMER_CB) t (word_of_int (pt_ticks r)))))"

definition php_call :: "nat \<Rightarrow> nat \<Rightarrow> php_world \<Rightarrow> php_world option" where
  "php_call cb ud w = (if cb = TIMER_CB then timer_add_callback ud w else None)"

section \<open>Invariant\<close>

text \<open>
  \<open>X\<close> are the timers whose callback is running. Every node of the wheel belongs to the timer its
  user data names; every table entry leads to an allocated timer, which is armed unless it is
  running.
\<close>

definition php_inv :: "nat set \<Rightarrow> php_world \<Rightarrow> bool" where
  "php_inv X w \<longleftrightarrow>
     table_ok (timers w) \<and>
     (\<forall>n nd. nodes w n = Some nd \<longrightarrow> callback nd = Some TIMER_CB \<and>
        (\<exists>r. pts w (userdata nd) = Some r \<and> pt_timer r = Some n)) \<and>
     (\<forall>k t. WM_HASH_GET (timers w) k = Some t \<longrightarrow>
        (\<exists>r. pts w t = Some r \<and> hash_key (pt_id r) = k \<and>
             (t \<notin> X \<longrightarrow> (\<exists>n nd. pt_timer r = Some n \<and> nodes w n = Some nd \<and> userdata nd = t)))) \<and>
     (\<forall>t. next_pt w \<le> t \<longrightarrow> pts w t = None)"

text \<open>
  What is asked of the functions of the timers: they do not delete timers, and the delays of
  those they add fit a C \<open>int\<close>.
\<close>

fun adds :: "call_act \<Rightarrow> bool" where
  "adds (CAdd s p f) \<longleftrightarrow> ticks_fit s"
| "adds (CDel i) \<longleftrightarrow> False"

definition only_add :: "php_world \<Rightarrow> bool" where
  "only_add w \<longleftrightarrow> (\<forall>f. list_all adds (script w f))"

text \<open>What user code leaves alone.\<close>

definition php_ext :: "php_world \<Rightarrow> php_world \<Rightarrow> bool" where
  "php_ext w w' \<longleftrightarrow> only_frees w w' \<and> (\<forall>n < next_node w. nodes w' n = nodes w n) \<and>
     (\<forall>t < next_pt w. pts w' t = pts w t) \<and> next_pt w \<le> next_pt w' \<and> coros w' = coros w \<and>
     script w' = script w \<and> reloading w' = reloading w \<and> in_worker w' = in_worker w"

lemma php_ext_refl [simp]: "php_ext w w"
  by (simp add: php_ext_def)

lemma php_ext_trans: "php_ext a b \<Longrightarrow> php_ext b c \<Longrightarrow> php_ext a c"
  unfolding php_ext_def using only_frees_trans [of a b c] by (auto simp: only_frees_def)

section \<open>The operations keep the invariant\<close>

lemma add_quick_world:
  "wmTimerWheel_add_quick w cb ud t = Some (n, w') \<Longrightarrow>
     n = next_node w \<and> next_node w' = n + 1 \<and> currtick w' = currtick w \<and> lasttime w' = lasttime w \<and>
     interval w' = interval w \<and> wheel.more w' = wheel.more w \<and> tw_num w' = tw_num w + 1 \<and>
     nodes w' = (nodes w)(n \<mapsto> \<lparr>userdata = ud, callback = cb, expire = currtick w + add_ticks t\<rparr>)"
  by (auto simp: add_quick_eq Let_def)

lemma more_fields:
  assumes "wheel.more (w' :: php_world) = wheel.more w"
  shows "last_id w' = last_id w" "timers w' = timers w" "pts w' = pts w" "next_pt w' = next_pt w"
    "reloading w' = reloading w" "coros w' = coros w" "script w' = script w" "in_worker w' = in_worker w"
  using assms by (cases w, cases w', simp)+

lemma php_invD:
  assumes "php_inv X w"
  shows "table_ok (timers w)"
    "nodes w n = Some nd \<Longrightarrow> callback nd = Some TIMER_CB \<and> (\<exists>r. pts w (userdata nd) = Some r \<and> pt_timer r = Some n)"
    "WM_HASH_GET (timers w) k = Some t \<Longrightarrow> \<exists>r. pts w t = Some r \<and> hash_key (pt_id r) = k \<and>
       (t \<notin> X \<longrightarrow> (\<exists>n nd. pt_timer r = Some n \<and> nodes w n = Some nd \<and> userdata nd = t))"
    "next_pt w \<le> t \<Longrightarrow> pts w t = None"
  using assms unfolding php_inv_def by blast+

text \<open>
  Arming a timer that is allocated and has no node: \<open>t\<close> may be one that was running.
\<close>

lemma arm_ok:
  assumes inv: "php_inv (insert t X) w" and r: "pts w t = Some r" "pt_timer r = None" and st: "steady P" and fi: "P w"
  shows "\<exists>w1 w'. wmTimerWheel_add_quick w (Some TIMER_CB) t k = Some (next_node w, w1) \<and>
    w' = w1\<lparr>pts := (pts w1)(t \<mapsto> r\<lparr>pt_timer := Some (next_node w)\<rparr>)\<rparr> \<and> P w' \<and> php_inv (X - {t}) w' \<and>
    nodes w' = (nodes w)(next_node w \<mapsto> \<lparr>userdata = t, callback = Some TIMER_CB, expire = currtick w + add_ticks k\<rparr>)"
proof -
  obtain w1 where a: "wmTimerWheel_add_quick w (Some TIMER_CB) t k = Some (next_node w, w1)" and f1: "P w1"
    using steadyD(3) [OF st fi] by blast
  note g = add_quick_world [OF a]
  note m = more_fields [of w1 w]
  define w' where "w' = w1\<lparr>pts := (pts w1)(t \<mapsto> r\<lparr>pt_timer := Some (next_node w)\<rparr>)\<rparr>"
  have ts: "pts w' = (pts w)(t \<mapsto> r\<lparr>pt_timer := Some (next_node w)\<rparr>)" "timers w' = timers w" "next_pt w' = next_pt w"
      "script w' = script w" and nd: "nodes w' = nodes w1"
    using g m by (simp_all add: w'_def)
  note i = php_invD [OF inv]
  have fresh: "nodes w (next_node w) = None" by (rule steady_fresh [OF st fi])
  have "php_inv (X - {t}) w'"
    unfolding php_inv_def
  proof (intro conjI allI impI)
    show "table_ok (timers w')" using i(1) ts by simp
    show "next_pt w' \<le> u \<Longrightarrow> pts w' u = None" for u using i(4) [of u] i(4) [of t] r(1) ts by auto
  next
    fix n x assume "nodes w' n = Some x"
    then consider "n = next_node w" "x = \<lparr>userdata = t, callback = Some TIMER_CB, expire = currtick w + add_ticks k\<rparr>"
      | "n \<noteq> next_node w" "nodes w n = Some x"
      using g nd by (auto split: if_splits)
    then have "callback x = Some TIMER_CB \<and> (\<exists>r. pts w' (userdata x) = Some r \<and> pt_timer r = Some n)"
    proof cases
      case 2
      then obtain q where q: "pts w (userdata x) = Some q" "pt_timer q = Some n" "callback x = Some TIMER_CB"
        using i(2) by blast
      then have "userdata x \<noteq> t" using r by auto
      then show ?thesis using q ts by simp
    qed (simp_all add: ts)
    then show "callback x = Some TIMER_CB" "\<exists>r. pts w' (userdata x) = Some r \<and> pt_timer r = Some n" by simp_all
  next
    fix k' u assume "WM_HASH_GET (timers w') k' = Some u"
    then obtain q where q: "pts w u = Some q" "hash_key (pt_id q) = k'"
        "u \<notin> insert t X \<longrightarrow> (\<exists>n nd. pt_timer q = Some n \<and> nodes w n = Some nd \<and> userdata nd = u)"
      using i(3) [of k' u] ts by auto
    show "\<exists>r. pts w' u = Some r \<and> hash_key (pt_id r) = k' \<and>
        (u \<notin> X - {t} \<longrightarrow> (\<exists>n nd. pt_timer r = Some n \<and> nodes w' n = Some nd \<and> userdata nd = u))"
    proof (cases "u = t")
      case True
      then show ?thesis using q r ts g nd by auto
    next
      case False
      have "\<exists>n nd. pt_timer q = Some n \<and> nodes w' n = Some nd \<and> userdata nd = u" if u: "u \<notin> X"
      proof -
        obtain n x where "pt_timer q = Some n" "nodes w n = Some x" "userdata x = u" using q(3) False u by blast
        moreover have "n \<noteq> next_node w" using fresh \<open>nodes w n = Some x\<close> by auto
        ultimately show ?thesis using g nd by auto
      qed
      then show ?thesis using q False ts by auto
    qed
  qed
  moreover have "P w'" by (rule steadyD(2) [OF st f1]) (simp_all add: w'_def)
  moreover have "nodes w' = (nodes w)(next_node w \<mapsto> \<lparr>userdata = t, callback = Some TIMER_CB, expire = currtick w + add_ticks k\<rparr>)"
    using g nd by simp
  ultimately show ?thesis by (intro exI [of _ w1] exI [of _ w'] conjI a w'_def)
qed

text \<open>Freeing a timer that has no node.\<close>

lemma free_unarmed_ok:
  assumes inv: "php_inv (insert t X) w" and r: "pts w t = Some r" "pt_timer r = None" and st: "steady P" and fi: "P w"
    and own: "\<forall>k. WM_HASH_GET (timers w) k = Some t \<longrightarrow> k = hash_key (pt_id r)"
  shows "\<exists>w'. timer_free w t = Some w' \<and> P w' \<and> php_inv X w' \<and> nodes w' = nodes w \<and>
    w' = w\<lparr>timers := snd (WM_HASH_DEL (timers w) (hash_key (pt_id r))), pts := (pts w)(t := None)\<rparr>"
proof -
  define w' where "w' = w\<lparr>timers := snd (WM_HASH_DEL (timers w) (hash_key (pt_id r))), pts := (pts w)(t := None)\<rparr>"
  note i = php_invD [OF inv]
  have get: "WM_HASH_GET (timers w') = (WM_HASH_GET (timers w))(hash_key (pt_id r) := None)"
    using hm.get_del [OF i(1)] by (simp add: w'_def)
  have "php_inv X w'"
    unfolding php_inv_def
  proof (intro conjI allI impI)
    show "table_ok (timers w')" using hm.del_ok [OF i(1)] by (simp add: w'_def)
    show "next_pt w' \<le> u \<Longrightarrow> pts w' u = None" for u using i(4) [of u] by (simp add: w'_def)
  next
    fix n x assume "nodes w' n = Some x"
    then have x: "nodes w n = Some x" by (simp add: w'_def)
    then obtain q where q: "pts w (userdata x) = Some q" "pt_timer q = Some n" "callback x = Some TIMER_CB"
      using i(2) by blast
    then have "userdata x \<noteq> t" using r by auto
    then show "callback x = Some TIMER_CB" "\<exists>r. pts w' (userdata x) = Some r \<and> pt_timer r = Some n"
      using q by (simp_all add: w'_def)
  next
    fix k u assume k: "WM_HASH_GET (timers w') k = Some u"
    then have k': "k \<noteq> hash_key (pt_id r)" "WM_HASH_GET (timers w) k = Some u" using get by (auto split: if_splits)
    then obtain q where "pts w u = Some q" "hash_key (pt_id q) = k"
        "u \<notin> insert t X \<longrightarrow> (\<exists>n nd. pt_timer q = Some n \<and> nodes w n = Some nd \<and> userdata nd = u)"
      using i(3) by blast
    moreover have "u \<noteq> t" using own k' by auto
    ultimately show "\<exists>r. pts w' u = Some r \<and> hash_key (pt_id r) = k \<and>
        (u \<notin> X \<longrightarrow> (\<exists>n nd. pt_timer r = Some n \<and> nodes w' n = Some nd \<and> userdata nd = u))"
      by (simp add: w'_def)
  qed
  moreover have "timer_free w t = Some w'" using r by (simp add: timer_free_def w'_def)
  moreover have "P w'" by (rule steadyD(2) [OF st fi]) (simp_all add: w'_def)
  ultimately show ?thesis by (auto simp: w'_def)
qed

section \<open>User code\<close>

lemma script_state_cong:
  assumes "php_inv X w" "timers w' = timers w" "nodes w' = nodes w" "pts w' = pts w" "next_pt w \<le> next_pt w'"
  shows "php_inv X w'"
proof -
  note i = php_invD [OF assms(1)]
  show ?thesis
    unfolding php_inv_def assms(2-4) using i(1-3) i(4) [OF order_trans [OF assms(5)]] by blast
qed

lemma timer_add_ok:
  assumes inv: "php_inv X w" and st: "steady P" and fi: "P w" and X: "X \<subseteq> {..<next_pt w}" and fit: "ticks_fit s"
  shows "\<exists>r w'. timer_add w s p f = Some (r, w') \<and> P w' \<and> php_inv X w' \<and> php_ext w w'"
proof -
  define t where "t = next_pt w"
  have tX: "t \<notin> X" using X by (auto simp: t_def)
  show ?thesis
  proof (cases "s < 1 / 1000")
    case True
    let ?w = "w\<lparr>next_pt := t + 1\<rparr>"
    have "P ?w" by (rule steadyD(2) [OF st fi]) simp_all
    moreover have "php_inv X ?w" by (rule script_state_cong [OF inv]) (simp_all add: t_def)
    moreover have "php_ext w ?w" by (simp add: php_ext_def only_frees_def t_def)
    moreover have "timer_add w s p f = Some (None, ?w)" using True by (simp add: timer_add_def t_def Let_def)
    ultimately show ?thesis by blast
  next
    case False
    define tid where "tid = last_id w + 1"
    define r where "r = \<lparr>pt_id = tid, pt_ticks = \<lfloor>s * 1000\<rfloor>, persistent = p, pt_timer = None, pt_fcc = f\<rparr>"
    define w1 where "w1 = w\<lparr>next_pt := t + 1, last_id := tid, pts := (pts w)(t \<mapsto> r)\<rparr>"
    have f1: "P w1" by (rule steadyD(2) [OF st fi]) (simp_all add: w1_def)
    note i = php_invD [OF inv]
    have tn: "pts w t = None" using i(4) by (simp add: t_def)
    have i1: "php_inv (insert t X) w1"
      unfolding php_inv_def
    proof (intro conjI allI impI)
      show "table_ok (timers w1)" using i(1) by (simp add: w1_def)
      show "next_pt w1 \<le> u \<Longrightarrow> pts w1 u = None" for u using i(4) [of u] by (simp add: w1_def t_def)
      next
      fix n x assume "nodes w1 n = Some x"
      then have "callback x = Some TIMER_CB \<and> (\<exists>r. pts w (userdata x) = Some r \<and> pt_timer r = Some n)"
        using i(2) by (simp add: w1_def)
      then show "callback x = Some TIMER_CB" "\<exists>r. pts w1 (userdata x) = Some r \<and> pt_timer r = Some n"
        using tn by (auto simp: w1_def)
    next
      fix k u assume "WM_HASH_GET (timers w1) k = Some u"
      then have "\<exists>r. pts w u = Some r \<and> hash_key (pt_id r) = k \<and>
          (u \<notin> X \<longrightarrow> (\<exists>n nd. pt_timer r = Some n \<and> nodes w n = Some nd \<and> userdata nd = u))"
        using i(3) by (simp add: w1_def)
      then show "\<exists>r. pts w1 u = Some r \<and> hash_key (pt_id r) = k \<and>
          (u \<notin> insert t X \<longrightarrow> (\<exists>n nd. pt_timer r = Some n \<and> nodes w1 n = Some nd \<and> userdata nd = u))"
        using tn by (auto simp: w1_def)
    qed
    have nt: "WM_HASH_GET (timers w) k \<noteq> Some t" for k using i(3) [of k t] tn by auto
    have pt1: "pts w1 t = Some r" "pt_timer r = None" by (simp_all add: w1_def r_def)
    show ?thesis
    proof (cases "WM_HASH_GET (timers w) (hash_key tid)")
      case None
      define w2 where "w2 = w1\<lparr>timers := snd (WM_HASH_ADD (timers w) (hash_key tid) t)\<rparr>"
      have added: "fst (WM_HASH_ADD (timers w) (hash_key tid) t)"
          "WM_HASH_GET (timers w2) = (WM_HASH_GET (timers w))(hash_key tid \<mapsto> t)"
        using hm.add_fresh [OF i(1) None, of t] by (simp_all add: w2_def)
      have "php_inv (insert t X) w2"
        unfolding php_inv_def
      proof (intro conjI allI impI)
        show "table_ok (timers w2)" using hm.add_ok [OF i(1)] by (simp add: w2_def)
        show "next_pt w2 \<le> u \<Longrightarrow> pts w2 u = None" for u using php_invD(4) [OF i1, of u] by (simp add: w2_def)
            fix n x assume "nodes w2 n = Some x"
        then show "callback x = Some TIMER_CB" "\<exists>r. pts w2 (userdata x) = Some r \<and> pt_timer r = Some n"
          using php_invD(2) [OF i1, of n x] by (simp_all add: w2_def)
      next
        fix k u assume k: "WM_HASH_GET (timers w2) k = Some u"
        show "\<exists>r. pts w2 u = Some r \<and> hash_key (pt_id r) = k \<and>
            (u \<notin> insert t X \<longrightarrow> (\<exists>n nd. pt_timer r = Some n \<and> nodes w2 n = Some nd \<and> userdata nd = u))"
        proof (cases "u = t")
          case True
          then have "k = hash_key tid" using k added(2) nt by (auto split: if_splits)
          then show ?thesis using True by (simp add: w2_def w1_def r_def)
        next
          case False
          then have "WM_HASH_GET (timers w1) k = Some u" using k added(2) by (simp add: w1_def split: if_splits)
          then show ?thesis using php_invD(3) [OF i1] by (simp add: w2_def)
        qed
      qed
      moreover have "P w2" by (rule steadyD(2) [OF st f1]) (simp_all add: w2_def)
      moreover have "pts w2 t = Some r" using pt1 by (simp add: w2_def)
      ultimately obtain w3 w' where a: "wmTimerWheel_add_quick w2 (Some TIMER_CB) t (word_of_int (pt_ticks r)) = Some (next_node w2, w3)"
          "w' = w3\<lparr>pts := (pts w3)(t \<mapsto> r\<lparr>pt_timer := Some (next_node w2)\<rparr>)\<rparr>" "P w'" "php_inv (X - {t}) w'"
        using arm_ok [of t X w2 r P "word_of_int (pt_ticks r)"] pt1 st by blast
      note g = add_quick_world [OF a(1)]
      note m = more_fields [of w3 w2]
      have "timer_add w s p f = Some (Some tid, w')"
        using False fit added(1) a(1)
        by (simp add: timer_add_def Let_def case_prod_beta t_def [symmetric] tid_def [symmetric] r_def [symmetric]
            w2_def w1_def a(2))
      moreover have "php_ext w w'"
        unfolding php_ext_def only_frees_def
        using g m by (simp add: a(2) w2_def w1_def t_def)
      ultimately show ?thesis using a(3,4) tX by auto
    next
      case (Some u)
      then have na: "\<not> fst (WM_HASH_ADD (timers w) (hash_key tid) t)"
        using hm.add_present [OF i(1) Some] by simp
      have "\<forall>k. WM_HASH_GET (timers w1) k = Some t \<longrightarrow> k = hash_key (pt_id r)" using nt by (simp add: w1_def)
      then obtain w' where w': "timer_free w1 t = Some w'" "P w'" "php_inv X w'"
          "w' = w1\<lparr>timers := snd (WM_HASH_DEL (timers w1) (hash_key (pt_id r))), pts := (pts w1)(t := None)\<rparr>"
        using free_unarmed_ok [OF i1 pt1 st f1] by blast
      have "timer_add w s p f = Some (None, w')"
        using False fit na w'(1)
        by (simp add: timer_add_def Let_def case_prod_beta t_def [symmetric] tid_def [symmetric] r_def [symmetric] w1_def)
      moreover have "php_ext w w'" by (simp add: w'(4) php_ext_def only_frees_def w1_def t_def)
      ultimately show ?thesis using w'(2,3) by blast
    qed
  qed
qed

lemma run_script_ok:
  assumes "php_inv X w" "P w" "X \<subseteq> {..<next_pt w}" "list_all adds as" and st: "steady P"
  shows "\<exists>w'. run_script as w = Some w' \<and> P w' \<and> php_inv X w' \<and> php_ext w w'"
  using assms(1-4)
proof (induction as arbitrary: w)
  case (Cons a as)
  then obtain s p f where a: "a = CAdd s p f" and s: "ticks_fit s" by (cases a) auto
  obtain r w1 where w1: "timer_add w s p f = Some (r, w1)" "P w1" "php_inv X w1" "php_ext w w1"
    using timer_add_ok [OF Cons.prems(1) st Cons.prems(2,3) s] by blast
  have "X \<subseteq> {..<next_pt w1}" using Cons.prems(3) w1(4) by (auto simp: php_ext_def)
  then obtain w' where "run_script as w1 = Some w'" "P w'" "php_inv X w'" "php_ext w1 w'"
    using Cons.IH [OF w1(3,2)] Cons.prems(4) by auto
  then show ?case using a w1(1) php_ext_trans [OF w1(4)] by auto
qed simp

section \<open>The callback\<close>

lemma free_node_simps [wheel_simps]:
  "next_node (free_node w m) = next_node w" "nodes (free_node w m) = (nodes w)(m := None)"
  "wheel.more (free_node w m) = wheel.more w" "currtick (free_node w m) = currtick w"
  by (simp_all add: free_node_def)

lemma timer_add_free_node:
  assumes "m < next_node w" "\<forall>k. WM_HASH_GET (timers w) k \<noteq> Some (next_pt w)"
  shows "timer_add (free_node w m) s p f = map_option (\<lambda>(r, w'). (r, free_node w' m)) (timer_add w s p f)"
  using assms
  by (simp add: timer_add_def Let_def case_prod_beta timer_free_def add_quick_eq free_node_def fun_upd_twist)

lemma run_script_free_node:
  assumes "php_inv X (free_node w m)" "firing (free_node w m) ns" "X \<subseteq> {..<next_pt w}" "m < next_node w"
    "list_all adds as"
  shows "run_script as (free_node w m) = map_option (\<lambda>w. free_node w m) (run_script as w)"
  using assms
proof (induction as arbitrary: w)
  case (Cons a as)
  then obtain s p f where a: "a = CAdd s p f" and s: "ticks_fit s" by (cases a) auto
  let ?w = "free_node w m"
  have X: "X \<subseteq> {..<next_pt ?w}" using Cons.prems(3) by (simp add: free_node_def)
  obtain r w1 where w1: "timer_add ?w s p f = Some (r, w1)" "firing w1 ns" "php_inv X w1" "php_ext ?w w1"
    using timer_add_ok [OF Cons.prems(1) steady_firing Cons.prems(2) X s] by blast
  have "WM_HASH_GET (timers w) k \<noteq> Some (next_pt w)" for k
    using php_invD(3,4) [OF Cons.prems(1)] by (fastforce simp: free_node_def)
  then have c: "timer_add ?w s p f = map_option (\<lambda>(r, w'). (r, free_node w' m)) (timer_add w s p f)"
    using timer_add_free_node Cons.prems(4) by blast
  then obtain w2 where w2: "timer_add w s p f = Some (r, w2)" "w1 = free_node w2 m"
    using w1(1) by (cases "timer_add w s p f") auto
  have "X \<subseteq> {..<next_pt w2}" "m < next_node w2"
    using X Cons.prems(4) w1(4) w2(2) by (auto simp: php_ext_def only_frees_def free_node_def)
  then show ?case using Cons.IH [of w2] w1(2,3) w2 c a Cons.prems(5) by simp
qed simp

text \<open>What one run of the callback does: the function of the timer is started; the timer is armed
  again after its interval, or gone; nothing else that existed is touched.\<close>

definition fired :: "php_world \<Rightarrow> nat \<Rightarrow> timernode \<Rightarrow> php_world \<Rightarrow> bool" where
  "fired w n nd w' \<longleftrightarrow>
     (\<exists>r. pts w (userdata nd) = Some r \<and> coros w' = coros w @ [pt_fcc r] \<and>
        (if persistent r \<and> \<not> reloading w
         then \<exists>m nd'. pts w' (userdata nd) = Some (r\<lparr>pt_timer := Some m\<rparr>) \<and> next_node w \<le> m \<and> m < next_node w' \<and> nodes w' m = Some nd' \<and>
                userdata nd' = userdata nd \<and> expire nd' = currtick w + add_ticks (word_of_int (pt_ticks r))
         else pts w' (userdata nd) = None)) \<and>
     (\<forall>k < next_node w. k \<noteq> n \<longrightarrow> nodes w' k = nodes w k) \<and> nodes w' n = None \<and>
     (\<forall>t < next_pt w. t \<noteq> userdata nd \<longrightarrow> pts w' t = pts w t) \<and>
     next_node w \<le> next_node w' \<and> next_pt w \<le> next_pt w' \<and> currtick w' = currtick w \<and>
     script w' = script w \<and> reloading w' = reloading w \<and> in_worker w' = in_worker w"

lemma callback_ok:
  assumes fi: "firing (free_node (take_node w n) n) ns" and inv: "php_inv {} w" and oa: "only_add w" and wk: "in_worker w"
    and nd: "nodes w n = Some nd" "n < next_node w" "callback nd = Some cb"
  shows "\<exists>w2. php_call cb (userdata nd) (take_node w n) = Some w2 \<and> php_inv {} (free_node w2 n) \<and>
    firing (free_node w2 n) ns \<and> only_frees w (free_node w2 n) \<and> fired w n nd (free_node w2 n)"
proof -
  define t where "t = userdata nd"
  note i = php_invD [OF inv]
  obtain r where r: "pts w t = Some r" "pt_timer r = Some n" and cb: "cb = TIMER_CB"
    using i(2) [OF nd(1)] nd(3) by (auto simp: t_def)
  define r0 where "r0 = r\<lparr>pt_timer := None\<rparr>"
  define w0 where "w0 = (take_node w n)\<lparr>pts := (pts w)(t \<mapsto> r0), coros := coros w @ [pt_fcc r]\<rparr>"
  let ?f = "\<lambda>w. free_node w n"
  have tk: "next_node w0 = next_node w" "nodes w0 = nodes w" "timers w0 = timers w" "script w0 = script w"
      "pts w0 = (pts w)(t \<mapsto> r0)" "next_pt w0 = next_pt w" "reloading w0 = reloading w" "currtick w0 = currtick w"
      "lasttime w0 = lasttime w" "interval w0 = interval w" "in_worker w0 = in_worker w" "coros w0 = coros w @ [pt_fcc r]"
    by (simp_all add: w0_def take_node_def)
  have fw: "next_node (?f v) = next_node v" "nodes (?f v) = (nodes v)(n := None)" "timers (?f v) = timers v"
      "script (?f v) = script v" "pts (?f v) = pts v" "next_pt (?f v) = next_pt v" "reloading (?f v) = reloading v"
      "currtick (?f v) = currtick v" "lasttime (?f v) = lasttime v" "interval (?f v) = interval v" "in_worker (?f v) = in_worker v"
      "coros (?f v) = coros v" for v :: php_world
    by (simp_all add: free_node_def)
  have tn: "t < next_pt w" using i(4) [of t] r(1) not_less by force
  have f0: "firing (?f w0) ns" by (rule firing_cong [OF fi]) (simp_all add: w0_def free_node_def)
  have i0: "php_inv {t} (?f w0)"
    unfolding php_inv_def fw tk
  proof (intro conjI allI impI)
    show "table_ok (timers w)" using i(1) .
    show "next_pt w \<le> u \<Longrightarrow> ((pts w)(t \<mapsto> r0)) u = None" for u using i(4) [of u] tn by auto
  next
    fix k x assume "((nodes w)(n := None)) k = Some x"
    then have k: "k \<noteq> n" "nodes w k = Some x" by (auto split: if_splits)
    then obtain q where q: "pts w (userdata x) = Some q" "pt_timer q = Some k" "callback x = Some TIMER_CB"
      using i(2) by blast
    then have "userdata x \<noteq> t" using r k by auto
    then show "callback x = Some TIMER_CB" "\<exists>r. ((pts w)(t \<mapsto> r0)) (userdata x) = Some r \<and> pt_timer r = Some k"
      using q by simp_all
  next
    fix k u assume "WM_HASH_GET (timers w) k = Some u"
    then obtain q m x where q: "pts w u = Some q" "hash_key (pt_id q) = k" "pt_timer q = Some m" "nodes w m = Some x" "userdata x = u"
      using i(3) by blast
    show "\<exists>r. ((pts w)(t \<mapsto> r0)) u = Some r \<and> hash_key (pt_id r) = k \<and>
        (u \<notin> {t} \<longrightarrow> (\<exists>na nd. pt_timer r = Some na \<and> ((nodes w)(n := None)) na = Some nd \<and> userdata nd = u))"
    proof (cases "u = t")
      case True
      then show ?thesis using q r by (auto simp: r0_def)
    next
      case False
      then have "m \<noteq> n" using q nd(1) by (auto simp: t_def)
      then show ?thesis using False q by auto
    qed
  qed
  have X: "{t} \<subseteq> {..<next_pt (?f w0)}" "{t} \<subseteq> {..<next_pt w0}" using tn by (simp_all add: fw tk)
  have nod: "list_all adds (script w (pt_fcc r))" using oa by (simp add: only_add_def)
  obtain v where v: "run_script (script w (pt_fcc r)) (?f w0) = Some v" "firing v ns" "php_inv {t} v" "php_ext (?f w0) v"
    using run_script_ok [OF i0 f0 X(1) nod steady_firing] by blast
  have "run_script (script w (pt_fcc r)) (?f w0) = map_option ?f (run_script (script w (pt_fcc r)) w0)"
    by (rule run_script_free_node [OF i0 f0 X(2) _ nod]) (simp add: nd(2) tk)
  then obtain w1 where w1: "run_script (script w (pt_fcc r)) w0 = Some w1" "v = ?f w1"
    using v(1) by (cases "run_script (script w (pt_fcc r)) w0") auto
  note v' = v(2-4) [unfolded w1(2)]
  have p1: "pts (?f w1) t = Some r0" "pts w1 t = Some r0" "pt_timer r0 = None"
    using v'(3) tn by (simp_all add: php_ext_def tk fw r0_def)
  have wk1: "in_worker w1" using v'(3) wk by (simp add: php_ext_def fw tk)
  have n1: "n < next_node w1" using v'(3) nd(2) by (simp add: php_ext_def only_frees_def tk fw)
  have call: "php_call cb t (take_node w n) =
      (if \<not> persistent r0 \<or> reloading w1 then timer_free w1 t
       else map_option (\<lambda>(n, w). w\<lparr>pts := (pts w)(t \<mapsto> r0\<lparr>pt_timer := Some n\<rparr>)\<rparr>)
              (wmTimerWheel_add_quick w1 (Some TIMER_CB) t (word_of_int (pt_ticks r0))))"
    using r(1) w1(1) p1 wk1 by (simp add: php_call_def cb timer_add_callback_def take_node_def w0_def r0_def)
  show ?thesis
  proof (cases "\<not> persistent r0 \<or> reloading w1")
    case True
    have "\<forall>k. WM_HASH_GET (timers (?f w1)) k = Some t \<longrightarrow> k = hash_key (pt_id r0)"
      using php_invD(3) [OF v'(2)] p1(1) by fastforce
    then obtain w2 where w2: "timer_free (?f w1) t = Some w2" "firing w2 ns" "php_inv {} w2"
        "w2 = (?f w1)\<lparr>timers := snd (WM_HASH_DEL (timers (?f w1)) (hash_key (pt_id r0))), pts := (pts (?f w1))(t := None)\<rparr>"
      using free_unarmed_ok [OF v'(2) p1(1,3) steady_firing v'(1)] by blast
    define w3 where "w3 = w1\<lparr>timers := snd (WM_HASH_DEL (timers w1) (hash_key (pt_id r0))), pts := (pts w1)(t := None)\<rparr>"
    have e: "w2 = ?f w3" by (simp add: w2(4) w3_def free_node_def)
    have "timer_free w1 t = Some w3" using p1 by (simp add: timer_free_def w3_def)
    then have "php_call cb (userdata nd) (take_node w n) = Some w3" using call True by (simp add: t_def)
    moreover have "only_frees w (?f w3)" "fired w n nd (?f w3)"
      using v'(3) True r n1 nd(2) unfolding only_frees_def fired_def php_ext_def t_def [symmetric]
      by (auto simp: fw tk w3_def r0_def)
    ultimately show ?thesis using w2(2,3) e by blast
  next
    case False
    have inv1: "php_inv (insert t {}) (?f w1)" using v'(2) by simp
    obtain w2 w3 where w3: "wmTimerWheel_add_quick (?f w1) (Some TIMER_CB) t (word_of_int (pt_ticks r0)) = Some (next_node (?f w1), w2)"
        "w3 = w2\<lparr>pts := (pts w2)(t \<mapsto> r0\<lparr>pt_timer := Some (next_node (?f w1))\<rparr>)\<rparr>" "firing w3 ns" "php_inv ({} - {t}) w3"
        "nodes w3 = (nodes (?f w1))(next_node (?f w1) \<mapsto>
          \<lparr>userdata = t, callback = Some TIMER_CB, expire = currtick (?f w1) + add_ticks (word_of_int (pt_ticks r0))\<rparr>)"
      using arm_ok [OF inv1 p1(1,3) steady_firing v'(1), of "word_of_int (pt_ticks r0)"] by blast
    obtain w4 where w4: "wmTimerWheel_add_quick w1 (Some TIMER_CB) t (word_of_int (pt_ticks r0)) = Some (next_node w1, w4)"
        "w2 = ?f w4"
      using w3(1) add_quick_free_node [of n w1 "Some TIMER_CB" t "word_of_int (pt_ticks r0)"] n1
      by (auto simp: fw)
    define w5 where "w5 = w4\<lparr>pts := (pts w4)(t \<mapsto> r0\<lparr>pt_timer := Some (next_node w1)\<rparr>)\<rparr>"
    have e: "w3 = ?f w5" by (simp add: w3(2) w4(2) w5_def free_node_def)
    note g = add_quick_world [OF w3(1)]
    note m = more_fields [of w2 "?f w1"]
    have "php_call cb (userdata nd) (take_node w n) = Some w5"
      using call False w4(1) by (simp add: t_def w5_def)
    moreover have "only_frees w w3"
      using v'(3) g m n1 unfolding only_frees_def php_ext_def by (auto simp: fw tk w3(2))
    moreover have "fired w n nd w3"
      unfolding fired_def t_def [symmetric]
    proof (intro conjI)
      show "\<exists>q. pts w t = Some q \<and> coros w3 = coros w @ [pt_fcc q] \<and>
          (if persistent q \<and> \<not> reloading w
           then \<exists>m nd'. pts w3 t = Some (q\<lparr>pt_timer := Some m\<rparr>) \<and> next_node w \<le> m \<and> m < next_node w3 \<and> nodes w3 m = Some nd' \<and>
             userdata nd' = t \<and> expire nd' = currtick w + add_ticks (word_of_int (pt_ticks q))
           else pts w3 t = None)"
        by (rule exI [of _ r])
          (use v'(3) g m False r(1) in \<open>auto simp: php_ext_def only_frees_def fw tk w3(2) r0_def
             intro!: exI [of _ "next_node w1"]\<close>)
    qed (use v'(3) g m n1 nd(2) in \<open>auto simp: fw tk w3(2) php_ext_def only_frees_def\<close>)
    ultimately show ?thesis using w3(3,4) e by auto
  qed
qed

text \<open>What a tick keeps: the invariant, and what it asks of the functions and of the process.\<close>

definition php_calm :: "php_world \<Rightarrow> bool" where
  "php_calm w \<longleftrightarrow> php_inv {} w \<and> only_add w \<and> in_worker w"

interpretation pt: timer_callbacks php_call php_calm fired
proof unfold_locales
  fix w w' :: php_world
  assume a: "php_calm w" "nodes w' = nodes w" "next_node w' = next_node w" "wheel.more w' = wheel.more w"
  note m = more_fields [OF a(4)]
  have "php_inv {} w'" by (rule script_state_cong [of "{}" w]) (use a(1) in \<open>simp_all add: php_calm_def a(2) m\<close>)
  then show "php_calm w'" using a(1) m by (simp add: php_calm_def only_add_def)
next
  fix w :: php_world and n ns nd cb
  assume a: "firing (free_node (take_node w n) n) ns" "php_calm w" "nodes w n = Some nd" "n < next_node w"
    "callback nd = Some cb"
  from a(2) obtain w2 where "php_call cb (userdata nd) (take_node w n) = Some w2" "php_inv {} (free_node w2 n)"
      "firing (free_node w2 n) ns" "only_frees w (free_node w2 n)" "fired w n nd (free_node w2 n)"
    using callback_ok [OF a(1) _ _ _ a(3-5)] by (auto simp: php_calm_def)
  moreover from this a(2) have "php_calm (free_node w2 n)"
    by (simp add: php_calm_def fired_def only_add_def)
  ultimately show "\<exists>w2. php_call cb (userdata nd) (take_node w n) = Some w2 \<and> php_calm (free_node w2 n) \<and>
      firing (free_node w2 n) ns \<and> only_frees w (free_node w2 n) \<and> fired w n nd (free_node w2 n)"
    by blast
qed

section \<open>A tick of the PHP timers\<close>

definition fcc_of :: "php_world \<Rightarrow> nat \<Rightarrow> nat" where
  "fcc_of w n = pt_fcc (the (pts w (userdata (the (nodes w n)))))"

definition due :: "'z wheel_scheme \<Rightarrow> nat set" where
  "due tw = {n. \<exists>nd. nodes tw n = Some nd \<and> expire nd = currtick tw + 1}"

text \<open>\<open>after_fire w c n w'\<close>: what has become in \<open>w'\<close> of the timer whose node \<open>n\<close> fired at counter \<open>c\<close>.\<close>

definition after_fire :: "php_world \<Rightarrow> u32 \<Rightarrow> nat \<Rightarrow> php_world \<Rightarrow> bool" where
  "after_fire w c n w' \<longleftrightarrow>
     (\<forall>nd r. nodes w n = Some nd \<longrightarrow> pts w (userdata nd) = Some r \<longrightarrow>
        (if persistent r \<and> \<not> reloading w
         then \<exists>m nd'. pts w' (userdata nd) = Some (r\<lparr>pt_timer := Some m\<rparr>) \<and> nodes w' m = Some nd' \<and>
                userdata nd' = userdata nd \<and> expire nd' = c + add_ticks (word_of_int (pt_ticks r))
         else pts w' (userdata nd) = None))"

definition armed :: "php_world \<Rightarrow> nat \<Rightarrow> bool" where
  "armed w n \<longleftrightarrow> n < next_node w \<and> (\<exists>nd r. nodes w n = Some nd \<and> pts w (userdata nd) = Some r \<and>
     pt_timer r = Some n \<and> userdata nd < next_pt w)"

lemma php_inv_armed:
  assumes "php_inv X w" "nodes w n \<noteq> None" "n < next_node w"
  shows "armed w n"
proof -
  obtain nd where nd: "nodes w n = Some nd" using assms(2) by blast
  obtain r where r: "pts w (userdata nd) = Some r" "pt_timer r = Some n" using php_invD(2) [OF assms(1) nd] by blast
  have "userdata nd < next_pt w" using php_invD(4) [OF assms(1), of "userdata nd"] r(1) not_less by force
  then show ?thesis using nd r assms(3) by (auto simp: armed_def)
qed

definition owners :: "php_world \<Rightarrow> nat list \<Rightarrow> nat set" where
  "owners w ns = (\<lambda>n. userdata (the (nodes w n))) ` set ns"

lemma chain_fired:
  assumes "fire_chain fired ns w w'" "distinct ns" "\<forall>n \<in> set ns. armed w n"
  shows "coros w' = coros w @ map (fcc_of w) ns \<and> next_node w \<le> next_node w' \<and> next_pt w \<le> next_pt w' \<and>
    (\<forall>k < next_node w. k \<notin> set ns \<longrightarrow> nodes w' k = nodes w k) \<and>
    (\<forall>t < next_pt w. t \<notin> owners w ns \<longrightarrow> pts w' t = pts w t) \<and> (\<forall>n \<in> set ns. after_fire w (currtick w) n w')"
  using assms
proof (induction ns arbitrary: w)
  case (Cons n ns)
  then obtain nd r where n: "nodes w n = Some nd" "n < next_node w" "pts w (userdata nd) = Some r" "pt_timer r = Some n"
      "userdata nd < next_pt w" by (auto simp: armed_def)
  then obtain w2 where f: "fired w n nd w2" and ch: "fire_chain fired ns w2 w'" using Cons.prems(1) by auto
  have same: "nodes w2 k = nodes w k \<and> userdata (the (nodes w k)) \<noteq> userdata nd \<and>
      pts w2 (userdata (the (nodes w k))) = pts w (userdata (the (nodes w k)))"
    if k: "k \<in> set ns" for k
  proof -
    have "k \<noteq> n" using Cons.prems(2) k by auto
    obtain x q where x: "nodes w k = Some x" "k < next_node w" "pts w (userdata x) = Some q" "pt_timer q = Some k"
        "userdata x < next_pt w"
      using Cons.prems(3) k by (auto simp: armed_def)
    then have "userdata x \<noteq> userdata nd" using n \<open>k \<noteq> n\<close> by auto
    then show ?thesis using f x \<open>k \<noteq> n\<close> by (auto simp: fired_def)
  qed
  have mono: "next_node w \<le> next_node w2" "next_pt w \<le> next_pt w2" "currtick w2 = currtick w" "reloading w2 = reloading w"
    using f by (simp_all add: fired_def)
  have "\<forall>k \<in> set ns. armed w2 k"
  proof
    fix k assume k: "k \<in> set ns"
    then have "armed w k" using Cons.prems(3) by simp
    then show "armed w2 k" using same [OF k] mono unfolding armed_def by auto
  qed
  then have IH: "coros w' = coros w2 @ map (fcc_of w2) ns" "next_node w2 \<le> next_node w'" "next_pt w2 \<le> next_pt w'"
      "\<forall>k < next_node w2. k \<notin> set ns \<longrightarrow> nodes w' k = nodes w2 k"
      "\<forall>t < next_pt w2. t \<notin> owners w2 ns \<longrightarrow> pts w' t = pts w2 t"
      "\<forall>k \<in> set ns. after_fire w2 (currtick w2) k w'"
    using Cons.IH [OF ch] Cons.prems(2) by auto
  have ow: "owners w2 ns = owners w ns" unfolding owners_def using same by (intro image_cong) simp_all
  have nou: "userdata nd \<notin> owners w ns" unfolding owners_def using same by fastforce
  have nns: "n \<notin> set ns" using Cons.prems(2) by simp
  have ud: "pts w' (userdata nd) = pts w2 (userdata nd)" using IH(5) nou ow n(5) mono by simp
  have mm: "nodes w' m = nodes w2 m" if "next_node w \<le> m" "m < next_node w2" for m
  proof -
    have "m \<notin> set ns" using Cons.prems(3) that(1) by (force simp: armed_def)
    then show ?thesis using IH(4) that(2) by simp
  qed
  have "after_fire w (currtick w) n w'"
    unfolding after_fire_def using f n(1) ud mm unfolding fired_def by (auto split: if_splits)
  moreover have "after_fire w (currtick w) k w'" if "k \<in> set ns" for k
    using IH(6) same [OF that] that mono(3,4) unfolding after_fire_def by auto
  moreover have "coros w' = coros w @ map (fcc_of w) (n # ns)"
  proof -
    have "map (fcc_of w2) ns = map (fcc_of w) ns" using same by (auto simp: fcc_of_def)
    moreover have "coros w2 = coros w @ [fcc_of w n]" using f n by (auto simp: fired_def fcc_of_def)
    ultimately show ?thesis using IH(1) by simp
  qed
  moreover have "\<forall>k < next_node w. k \<notin> set (n # ns) \<longrightarrow> nodes w' k = nodes w k"
    using IH(4) f mono by (auto simp: fired_def)
  moreover have "\<forall>t < next_pt w. t \<notin> owners w (n # ns) \<longrightarrow> pts w' t = pts w t"
    using IH(5) f mono ow n(1) by (auto simp: fired_def owners_def)
  ultimately show ?case using IH(2,3) mono by auto
qed simp

text \<open>
  C1: a tick of the wheel that drives the PHP timers, in a worker process whose timer functions do
  nothing to the timers but add new ones (\<open>only_add\<close>: no call of \<open>Timer::del\<close>, and delays that fit a C
  \<open>int\<close>) before they return or yield. It returns; the timers it fires are exactly
  those whose expiry is the new counter value, once each; their functions are started in that
  order; a persistent timer is armed again one interval later, any other one is gone; the timers
  that are not due keep their node and their structure; and the invariants hold again, so that
  the statement applies to the next tick, across the wrap of the 32-bit counter too.
\<close>

theorem php_timer_tick:
  assumes inv: "timer_inv w L" and php: "php_inv {} w" and adds: "only_add w" and wk: "in_worker w"
  shows "\<exists>ns w' L'. wmTimerWheelick php_call w = Some w' \<and> distinct ns \<and> set ns = due w \<and>
    coros w' = coros w @ map (fcc_of w) ns \<and> (\<forall>n \<in> due w. after_fire w (currtick w + 1) n w') \<and>
    (\<forall>n nd. nodes w n = Some nd \<longrightarrow> n \<notin> due w \<longrightarrow>
       nodes w' n = Some nd \<and> pts w' (userdata nd) = pts w (userdata nd)) \<and>
    timer_inv w' L' \<and> php_inv {} w' \<and> only_add w' \<and> in_worker w' \<and> currtick w' = currtick w + 1"
proof -
  have php': "php_calm w" using php adds wk by (simp add: php_calm_def)
  obtain ns h w' L' where t: "distinct ns" "set ns = due w" "wmTimerWheelick php_call w = Some w'"
      "timer_inv w' L'" "php_calm w'" "only_frees (w\<lparr>currtick := currtick w + 1\<rparr>) w'"
      "fire_chain fired ns (w\<lparr>lnk := h, currtick := currtick w + 1\<rparr>) w'"
    using pt.tick_ok [OF inv php'] unfolding due_def by blast
  define w1 where "w1 = w\<lparr>lnk := h, currtick := currtick w + 1\<rparr>"
  have w1: "nodes w1 = nodes w" "pts w1 = pts w" "coros w1 = coros w" "next_node w1 = next_node w" "next_pt w1 = next_pt w"
      "reloading w1 = reloading w" "currtick w1 = currtick w + 1"
    by (simp_all add: w1_def)
  have lt: "nodes w n \<noteq> None \<Longrightarrow> n < next_node w" for n
    using slots_invD(3) base_invD(1) inv unfolding timer_inv_def by blast
  have ar: "armed w n" if "nodes w n \<noteq> None" for n
    by (rule php_inv_armed [OF php that lt [OF that]])
  then have "\<forall>n \<in> set ns. armed w1 n" using t(2) w1 by (auto simp: due_def armed_def)
  note ch = chain_fired [OF t(7) [folded w1_def] t(1) this]
  have f: "fcc_of w1 = fcc_of w" "after_fire w1 = after_fire w" "owners w1 = owners w"
    by (simp_all add: fcc_of_def after_fire_def owners_def w1 fun_eq_iff)
  have "nodes w' n = Some nd \<and> pts w' (userdata nd) = pts w (userdata nd)"
    if n: "nodes w n = Some nd" "n \<notin> due w" for n nd
  proof -
    obtain r where r: "pts w (userdata nd) = Some r" "pt_timer r = Some n" "userdata nd < next_pt w"
      using ar [of n] n(1) by (auto simp: armed_def)
    have "userdata nd \<notin> owners w ns"
    proof
      assume "userdata nd \<in> owners w ns"
      then obtain k where k: "k \<in> set ns" "userdata nd = userdata (the (nodes w k))" by (auto simp: owners_def)
      then have "armed w k" using ar [of k] t(2) by (auto simp: due_def)
      then have "n = k" using r k(2) by (auto simp: armed_def)
      then show False using n(2) k(1) t(2) by simp
    qed
    then show ?thesis using ch n r(3) lt [of n] t(2) unfolding f w1 by auto
  qed
  moreover have "currtick w' = currtick w + 1" using t(6) by (simp add: only_frees_def)
  ultimately show ?thesis
    using t(1-5) ch unfolding f w1 php_calm_def by (intro exI [of _ ns] exI [of _ w'] exI [of _ L']) auto
qed

text \<open>
  The same for the driver: \<open>wmTimerWheel_update\<close> with the elapsed time \<open>el\<close> (the rest of the last
  call included) runs \<open>el div interval\<close> ticks and keeps \<open>el mod interval\<close> for the next call, so no time
  is lost or counted twice; the invariants hold again. The elapsed time must fit a C \<open>int\<close>.
\<close>

theorem php_timer_update:
  assumes "timer_inv w L" "php_calm w" "0 < interval w" "lasttime w < now"
    and "unat now - unat (lasttime w) + unat (remainder w) = el" "el < 2 ^ 31"
  shows "\<exists>w' L'. wmTimerWheel_update php_call w now = Some w' \<and> timer_inv w' L' \<and> php_calm w' \<and>
    currtick w' = currtick w + of_nat (el div unat (interval w)) \<and>
    unat (remainder w') = el mod unat (interval w) \<and> lasttime w' = now \<and> interval w' = interval w"
  by (rule pt.update_ok) (use assms in auto)

text \<open>
  \<open>Timer::add\<close> between ticks. It returns the next id, and the only new node of the wheel expires
  \<open>max 1 (1000 * seconds)\<close> ticks from now; the invariants of the wheel and of the timers are kept.
\<close>

theorem timer_add_arms:
  assumes inv: "timer_inv w L" and php: "php_inv {} w" and s: "1 / 1000 \<le> s" "ticks_fit s"
    and fresh: "WM_HASH_GET (timers w) (hash_key (last_id w + 1)) = None"
  shows "\<exists>w' L'. timer_add w s p f = Some (Some (last_id w + 1), w') \<and> timer_inv w' L' \<and> php_inv {} w' \<and>
    nodes w' = (nodes w)(next_node w \<mapsto> \<lparr>userdata = next_pt w, callback = Some TIMER_CB,
                   expire = currtick w + add_ticks (word_of_int \<lfloor>s * 1000\<rfloor>)\<rparr>) \<and>
    WM_HASH_GET (timers w') = (WM_HASH_GET (timers w))(hash_key (last_id w + 1) \<mapsto> next_pt w) \<and>
    tw_num w' = tw_num w + 1"
proof -
  obtain r w' L' where w': "timer_add w s p f = Some (r, w')" "timer_inv w' L'" "php_inv {} w'"
    using timer_add_ok [where s = s and p = p and f = f, OF php steady_resting _ _ s(2)] inv by blast
  have a: "fst (WM_HASH_ADD (timers w) (hash_key (last_id w + 1)) (next_pt w))"
      "WM_HASH_GET (snd (WM_HASH_ADD (timers w) (hash_key (last_id w + 1)) (next_pt w))) =
         (WM_HASH_GET (timers w))(hash_key (last_id w + 1) \<mapsto> next_pt w)"
    using hm.add_fresh [OF php_invD(1) [OF php] fresh] by auto
  have "\<not> s < 1 / 1000" "ticks_fit s" using s by simp_all
  then have "r = Some (last_id w + 1) \<and>
      nodes w' = (nodes w)(next_node w \<mapsto> \<lparr>userdata = next_pt w, callback = Some TIMER_CB,
                     expire = currtick w + add_ticks (word_of_int \<lfloor>s * 1000\<rfloor>)\<rparr>) \<and>
      timers w' = snd (WM_HASH_ADD (timers w) (hash_key (last_id w + 1)) (next_pt w)) \<and> tw_num w' = tw_num w + 1"
    using w'(1) a(1) by (auto simp: timer_add_def Let_def case_prod_beta add_quick_eq)
  then show ?thesis using w' a(2) by auto
qed

lemma free_armed_ok:
  assumes php: "php_inv {} w" and r: "pts w t = Some r" "pt_timer r = Some n" "nodes w n = Some nd" "userdata nd = t"
    and st: "steady P" and w: "P w" and key: "WM_HASH_GET (timers w) (hash_key (pt_id r)) = Some t"
  shows "\<exists>w'. timer_free w t = Some w' \<and> P w' \<and> php_inv {} w' \<and> nodes w' = (nodes w)(n := None) \<and>
    pts w' = (pts w)(t := None) \<and> WM_HASH_GET (timers w') = (WM_HASH_GET (timers w))(hash_key (pt_id r) := None) \<and>
    tw_num w' = tw_num w \<and> script w' = script w \<and> in_worker w' = in_worker w"
proof -
  obtain h where h: "wmTimerWheel_del w (Some n) = Some (1, w\<lparr>lnk := h, nodes := (nodes w)(n := None)\<rparr>)"
      "P (w\<lparr>lnk := h, nodes := (nodes w)(n := None)\<rparr>)"
    using steadyD(4) [OF st w] r(3) by auto
  define w' where "w' = w\<lparr>lnk := h, nodes := (nodes w)(n := None),
      timers := snd (WM_HASH_DEL (timers w) (hash_key (pt_id r))), pts := (pts w)(t := None)\<rparr>"
  note i = php_invD [OF php]
  have get: "WM_HASH_GET (timers w') = (WM_HASH_GET (timers w))(hash_key (pt_id r) := None)"
    using hm.get_del [OF i(1)] by (simp add: w'_def)
  have "php_inv {} w'"
    unfolding php_inv_def
  proof (intro conjI allI impI)
    show "table_ok (timers w')" using hm.del_ok [OF i(1)] by (simp add: w'_def)
    show "next_pt w' \<le> u \<Longrightarrow> pts w' u = None" for u using i(4) [of u] by (simp add: w'_def)
  next
    fix k x assume "nodes w' k = Some x"
    then have x: "nodes w k = Some x" "k \<noteq> n" by (auto simp: w'_def split: if_splits)
    then obtain q where q: "pts w (userdata x) = Some q" "pt_timer q = Some k" "callback x = Some TIMER_CB"
      using i(2) by blast
    then have "userdata x \<noteq> t" using r x by auto
    then show "callback x = Some TIMER_CB" "\<exists>r. pts w' (userdata x) = Some r \<and> pt_timer r = Some k"
      using q by (simp_all add: w'_def)
  next
    fix k u assume k: "WM_HASH_GET (timers w') k = Some u"
    then have k': "k \<noteq> hash_key (pt_id r)" "WM_HASH_GET (timers w) k = Some u" using get by (auto split: if_splits)
    then obtain q m x where q: "pts w u = Some q" "hash_key (pt_id q) = k" "pt_timer q = Some m" "nodes w m = Some x" "userdata x = u"
      using i(3) by blast
    have "u \<noteq> t" using k' q(1,2) r(1) by auto
    then have "m \<noteq> n" using q r by auto
    then show "\<exists>r. pts w' u = Some r \<and> hash_key (pt_id r) = k \<and>
        (u \<notin> {} \<longrightarrow> (\<exists>n nd. pt_timer r = Some n \<and> nodes w' n = Some nd \<and> userdata nd = u))"
      using q \<open>u \<noteq> t\<close> by (simp add: w'_def)
  qed
  moreover have "P w'" by (rule steadyD(2) [OF st h(2)]) (simp_all add: w'_def)
  moreover have "timer_free w t = Some w'" using r h(1) by (simp add: timer_free_def w'_def)
  ultimately show ?thesis using get by (auto simp: w'_def)
qed

text \<open>
  C2: \<open>Timer::del\<close> between ticks, of an id in the table. It returns true, the timer's node leaves the
  wheel and is freed, so that no later tick fires it; the structure and the table entry go, nothing
  else changes and the invariants are kept. The count \<open>num\<close> of the wheel does not go down.
\<close>

theorem timer_del_disarms:
  assumes inv: "timer_inv w L" and php: "php_inv {} w" and t: "WM_HASH_GET (timers w) (hash_key tid) = Some t"
  shows "\<exists>w' L' r n. timer_del w tid = Some (True, w') \<and> pts w t = Some r \<and> pt_timer r = Some n \<and>
    timer_inv w' L' \<and> php_inv {} w' \<and> nodes w' = (nodes w)(n := None) \<and> pts w' = (pts w)(t := None) \<and>
    WM_HASH_GET (timers w') = (WM_HASH_GET (timers w))(hash_key tid := None) \<and> tw_num w' = tw_num w \<and>
    script w' = script w \<and> in_worker w' = in_worker w"
proof -
  obtain r n nd where r: "pts w t = Some r" "hash_key (pt_id r) = hash_key tid" "pt_timer r = Some n" "nodes w n = Some nd"
      "userdata nd = t"
    using php_invD(3) [OF php t] by blast
  then obtain w' L' where "timer_free w t = Some w'" "timer_inv w' L'" "php_inv {} w'" "nodes w' = (nodes w)(n := None)"
      "pts w' = (pts w)(t := None)" "WM_HASH_GET (timers w') = (WM_HASH_GET (timers w))(hash_key (pt_id r) := None)"
      "tw_num w' = tw_num w" "script w' = script w" "in_worker w' = in_worker w"
    using free_armed_ok [OF php r(1,3-5) steady_resting] inv t by auto
  then show ?thesis using r t by (auto simp: timer_del_def)
qed

text \<open>
  A timer function that deletes its own timer. The callback uses the structure after the
  function has freed it: undefined behaviour, whatever the timer.
\<close>

theorem timer_self_delete_undefined:
  assumes "pts w t = Some r" "WM_HASH_GET (timers w) (hash_key (pt_id r)) = Some t"
    and "script w (pt_fcc r) = [CDel (pt_id r)]"
  shows "timer_add_callback t w = None"
  using assms by (simp add: timer_add_callback_def timer_del_def timer_free_def)

text \<open>
  A persistent timer that is due outside a worker process: the callback follows the null pointer
  of \<open>wmWorker_getCurrent()\<close>, also when its function does nothing.
\<close>

theorem timer_outside_worker_undefined:
  assumes "pts w t = Some r" "persistent r" "\<not> in_worker w" "script w (pt_fcc r) = []"
  shows "timer_add_callback t w = None"
  using assms by (simp add: timer_add_callback_def)

section \<open>Witnesses\<close>

text \<open>A worker that has just started, with every PHP function doing nothing to the timers.\<close>

definition php_blank :: php_world where
  "php_blank = \<lparr>lnk = \<lparr>nxt = (\<lambda>_. NullA), prv = (\<lambda>_. NullA)\<rparr>, nodes = Map.empty, next_node = 0, lasttime = 0,
     currtick = 0, interval = 0, remainder = 0, tw_num = 0, last_id = 0, timers = [], pts = Map.empty, next_pt = 0,
     in_worker = True, reloading = False, coros = [], script = (\<lambda>_. [])\<rparr>"

definition php_boot :: php_world where
  "php_boot = php_wmTimer_init (wmTimerWheel_init php_blank 1 1000)"

lemma boot_fields [simp]:
  "nodes php_boot = Map.empty" "next_node php_boot = 0" "currtick php_boot = 0" "interval php_boot = 1"
  "lasttime php_boot = 1000" "remainder php_boot = 0" "timers php_boot = []" "pts php_boot = Map.empty"
  "next_pt php_boot = 0" "last_id php_boot = 0" "coros php_boot = []" "script php_boot = (\<lambda>_. [])" "reloading php_boot = False" "in_worker php_boot"
  by (simp_all add: php_boot_def php_blank_def php_wmTimer_init_def wmTimerWheel_init_def)

lemma boot_inv: "\<exists>L. timer_inv php_boot L" "php_inv {} php_boot"
proof -
  have "timer_inv (wmTimerWheel_init php_blank 1 1000) (\<lambda>p. if p \<in> wheel_slots then Some [] else None)"
    by (rule init_ok) (simp add: php_blank_def)
  then have "\<exists>L. timer_inv (wmTimerWheel_init php_blank 1 1000) L" by blast
  then show "\<exists>L. timer_inv php_boot L"
    by (rule steadyD(2) [OF steady_resting]) (simp_all add: php_boot_def php_wmTimer_init_def)
  show "php_inv {} php_boot" by (simp add: php_inv_def)
qed

text \<open>A persistent timer of one millisecond, and the state after adding it.\<close>

definition php_one :: php_world where
  "php_one = snd (the (timer_add php_boot (1 / 1000) True 7))"

lemma php_one_eq:
  "timer_add php_boot (1 / 1000) True 7 = Some (Some 1, php_one)"
  "nodes php_one = [0 \<mapsto> \<lparr>userdata = 0, callback = Some TIMER_CB, expire = 1\<rparr>]" "currtick php_one = 0"
  "pts php_one = [0 \<mapsto> \<lparr>pt_id = 1, pt_ticks = 1, persistent = True, pt_timer = Some 0, pt_fcc = 7\<rparr>]"
  "coros php_one = []" "reloading php_one = False" "in_worker php_one" "script php_one = (\<lambda>_. [])" "timers php_one = [(1, 0)]" "lasttime php_one = 1000"
  "interval php_one = 1" "remainder php_one = 0"
  by (simp_all add: php_one_def timer_add_def add_quick_eq WM_HASH_ADD_def hash_key_def add_ticks_def ticks_fit_def)

lemma one_ms: "ticks_fit (1 / 1000)"
  by (simp add: ticks_fit_def)

lemma php_one_inv: "\<exists>L. timer_inv php_one L" "php_inv {} php_one"
    "only_add php_one" "in_worker php_one"
proof -
  obtain L where "timer_inv php_boot L" using boot_inv(1) by blast
  then have "\<exists>r w'. timer_add php_boot (1 / 1000) True 7 = Some (r, w') \<and> (\<exists>L. timer_inv w' L) \<and> php_inv {} w'"
    using timer_add_ok [where p = True and f = 7, OF boot_inv(2) steady_resting _ _ one_ms] boot_inv(1) by auto
  then show "\<exists>L. timer_inv php_one L" "php_inv {} php_one" using php_one_eq(1) by auto
  show "only_add php_one" "in_worker php_one" by (simp_all add: only_add_def php_one_eq)
qed

lemma php_one_due: "due php_one = {0}"
  by (auto simp: due_def php_one_eq split: if_splits)

theorem php_timer_tick_witness:
  "\<exists>w' m. wmTimerWheelick php_call php_one = Some w' \<and> coros w' = [7] \<and> (\<exists>L. timer_inv w' L) \<and>
     (\<exists>nd. nodes w' m = Some nd \<and> expire nd = 2)"
proof -
  obtain L where "timer_inv php_one L" using php_one_inv(1) by blast
  then obtain ns w' L' where w': "wmTimerWheelick php_call php_one = Some w'" "distinct ns" "set ns = {0}"
      "coros w' = coros php_one @ map (fcc_of php_one) ns" "after_fire php_one (currtick php_one + 1) 0 w'" "timer_inv w' L'"
    using php_timer_tick [OF _ php_one_inv(2-4)] unfolding php_one_due by blast
  have "ns = [0]" using w'(2,3) by (cases ns) (auto simp: subset_singleton_iff)
  then have "coros w' = [7]" using w'(4) by (simp add: php_one_eq fcc_of_def)
  moreover have "\<exists>m nd. nodes w' m = Some nd \<and> expire nd = 2"
    using w'(5) by (auto simp: after_fire_def php_one_eq add_ticks_def)
  ultimately show ?thesis using w'(1,6) by blast
qed

theorem php_timer_update_witness:
  "\<exists>w'. wmTimerWheel_update php_call php_one 1005 = Some w' \<and> currtick w' = 5 \<and> lasttime w' = 1005"
proof -
  obtain L where "timer_inv php_one L" using php_one_inv(1) by blast
  from php_timer_update [OF this _, of 1005 5] php_one_inv(2-4) show ?thesis
    by (auto simp: php_one_eq php_calm_def)
qed

theorem timer_add_arms_witness:
  "\<exists>w'. timer_add php_boot 2 True 3 = Some (Some 1, w') \<and> (\<exists>L. timer_inv w' L) \<and>
     nodes w' = [0 \<mapsto> \<lparr>userdata = 0, callback = Some TIMER_CB, expire = 2000\<rparr>]"
proof -
  obtain L where "timer_inv php_boot L" using boot_inv(1) by blast
  from timer_add_arms [OF this boot_inv(2), of 2 True 3] show ?thesis by (auto simp: add_ticks_def ticks_fit_def)
qed

theorem timer_del_disarms_witness:
  "\<exists>w'. timer_del php_one 1 = Some (True, w') \<and> nodes w' = Map.empty \<and> (\<exists>L. timer_inv w' L) \<and> tw_num w' = tw_num php_one"
proof -
  obtain L where "timer_inv php_one L" using php_one_inv(1) by blast
  from timer_del_disarms [OF this php_one_inv(2), of 1 0] show ?thesis
    by (auto simp: php_one_eq WM_HASH_GET_def hash_key_def)
qed

theorem timer_outside_worker_undefined_witness:
  "timer_add_callback 0 (php_one\<lparr>in_worker := False\<rparr>) = None"
  by (rule timer_outside_worker_undefined
        [where r = "\<lparr>pt_id = 1, pt_ticks = 1, persistent = True, pt_timer = Some 0, pt_fcc = 7\<rparr>"])
    (simp_all add: php_one_eq)

theorem timer_self_delete_undefined_witness:
  "timer_add_callback 0 (php_one\<lparr>script := (\<lambda>_. [CDel 1])\<rparr>) = None"
  by (rule timer_self_delete_undefined
        [where r = "\<lparr>pt_id = 1, pt_ticks = 1, persistent = True, pt_timer = Some 0, pt_fcc = 7\<rparr>"])
    (simp_all add: php_one_eq WM_HASH_GET_def hash_key_def)

end
