(* ===== verification/Wm_Master.thy ===== *)
theory Wm_Master
  imports Wm_Server Wm_PhpTimer
begin

text \<open>
  The master with its clock (\<open>src/worker.c\<close>): \<open>wmWorker_runAll\<close>, the alarm that drives the timer wheel,
  and the kill timers a stop or a reload arms. The world is the wheel of \<open>src/core/timer.c\<close> extended with
  the state of \<open>Wm_Worker\<close> and with whether an alarm is pending.
\<close>

section \<open>State\<close>

record master_world = wheel +
  ms :: master
  alarm_set :: bool

definition WM_KILL_WORKER_TIMER_TIME :: u32 where "WM_KILL_WORKER_TIMER_TIME = 2000"

definition KILL_CB :: nat where "KILL_CB = 0"

text \<open>The pointers to items of the arrays of process ids, as user data of the nodes.\<close>

fun cell_ptr :: "pid_cell \<Rightarrow> nat" where
  "cell_ptr (In_tmp i) = 2 * i"
| "cell_ptr (In_reload i) = 2 * i + 1"

definition ptr_cell :: "nat \<Rightarrow> pid_cell" where
  "ptr_cell n = (if even n then In_tmp (n div 2) else In_reload (n div 2))"

section \<open>Operations\<close>

text \<open>The code behind the callback pointers: \<open>_kill\<close>.\<close>

definition kill_call :: "nat \<Rightarrow> nat \<Rightarrow> master_world \<Rightarrow> master_world option" where
  "kill_call cb ud w = (if cb = KILL_CB then map_option (\<lambda>m. w\<lparr>ms := m\<rparr>) (kill_cell (ptr_cell ud) (ms w)) else None)"

fun arm_kills :: "pid_cell list \<Rightarrow> master_world \<Rightarrow> master_world option" where
  "arm_kills [] w = Some w"
| "arm_kills (c # cs) w =
    Option.bind (wmTimerWheel_add_quick w (Some KILL_CB) (cell_ptr c) WM_KILL_WORKER_TIMER_TIME) (\<lambda>(n, w). arm_kills cs w)"

text \<open>What a step of the master has added to \<open>kill_timers\<close> goes into the wheel.\<close>

definition with_kills :: "master_world \<Rightarrow> master \<Rightarrow> master_world option" where
  "with_kills w m = arm_kills (drop (length (kill_timers (ms w))) (kill_timers m)) (w\<lparr>ms := m\<rparr>)"

definition handle_signal :: "int list \<Rightarrow> signal \<Rightarrow> master_world \<Rightarrow> master_world option" where
  "handle_signal seen s w = Option.bind (signalHandler seen s (ms w)) (with_kills w)"

text \<open>A child takes back the alarm and clears the wheel it has inherited.\<close>

definition child_clock :: "master_world \<Rightarrow> master_world option" where
  "child_clock w = wmTimerWheel_clear (w\<lparr>alarm_set := False\<rparr>)"

definition watch_child :: "int \<Rightarrow> master_world \<Rightarrow> (watch_result \<times> master_world) option" where
  "watch_child pid w =
    Option.bind (monitor_step pid (ms w)) (\<lambda>(r, m).
    map_option (Pair r) (if r = Became_child then child_clock (w\<lparr>ms := m\<rparr>) else with_kills w m))"

definition alarm_wait :: "u64 \<Rightarrow> master_world \<Rightarrow> master_world option" where
  "alarm_wait now w =
    map_option (\<lambda>w. w\<lparr>alarm_set := True\<rparr>) (if 0 < tw_num w then wmTimerWheel_update kill_call w now else Some w)"

text \<open>A second has passed and the clock reads \<open>now\<close>: the kernel delivers an alarm that is pending, once.\<close>

definition second_passed :: "u64 \<Rightarrow> master_world \<Rightarrow> master_world option" where
  "second_passed now w = (if alarm_set w then alarm_wait now (w\<lparr>alarm_set := False\<rparr>) else Some w)"

text \<open>
  What the master meets while it waits: the end of a child, a second that passes, a signal. The
  handlers run while the master waits in \<open>waitpid\<close>.
\<close>

datatype master_event = Ended int | Second u64 | Signal signal

fun master_run :: "master_event list \<Rightarrow> master_world \<Rightarrow> (watch_result \<times> master_world) option" where
  "master_run [] w = Some (Watching, w)"
| "master_run (Ended pid # es) w =
    Option.bind (watch_child pid w) (\<lambda>(r, w). if r = Watching then master_run es w else Some (r, w))"
| "master_run (Second now # es) w = Option.bind (second_passed now w) (master_run es)"
| "master_run (Signal s # es) w = Option.bind (handle_signal [] s w) (master_run es)"

text \<open>
  \<open>wmWorker_runAll\<close> from the alarm to the watching, with the answers of the two \<open>fork\<close>s and of
  \<open>setsid\<close> in \<open>daemonize\<close>. A process made by \<open>fork\<close> has no pending alarm. The command line, the
  settings of the workers and the pid file are in \<open>Wm_Server\<close>.
\<close>

datatype run_role = Launcher | Master | Worker_process

definition daemon_pid :: "fork_answer \<Rightarrow> int \<Rightarrow> int" where
  "daemon_pid f pid = (case f of Child p \<Rightarrow> p | _ \<Rightarrow> pid)"

definition wmWorker_runAll ::
    "bool \<Rightarrow> fork_answer \<Rightarrow> bool \<Rightarrow> fork_answer \<Rightarrow> master_world \<Rightarrow> (run_role \<times> master_world) option" where
  "wmWorker_runAll d fork1 setsid_ok fork2 w =
    (let w = w\<lparr>alarm_set := True\<rparr> in
     Option.bind (initWorkerPids (ms w)) (\<lambda>m.
     Option.bind (daemonize d fork1 setsid_ok fork2) (\<lambda>goes_on.
     if \<not> goes_on then Some (Launcher, w\<lparr>ms := m\<lparr>exited := True\<rparr>\<rparr>)
     else
       let w = (if d then w\<lparr>alarm_set := False\<rparr> else w);
           m = (if d then m\<lparr>self_pid := daemon_pid fork2 (self_pid m)\<rparr> else m) in
       Option.bind (forkWorkers (m\<lparr>masterPid := self_pid m\<rparr>)) (\<lambda>(child, m).
       if child then map_option (Pair Worker_process) (child_clock (w\<lparr>ms := m\<rparr>))
       else Some (Master, w\<lparr>ms := m\<lparr>status := STATUS_RUNNING\<rparr>\<rparr>)))))"

section \<open>Kill timers in the wheel\<close>

lemma ptr_cell_ptr [simp]: "ptr_cell (cell_ptr c) = c" "ptr_cell (2 * i) = In_tmp i"
  by (cases c) (simp_all add: ptr_cell_def)

definition cell_at :: "master \<Rightarrow> pid_cell \<Rightarrow> int option" where
  "cell_at m c = (case c of In_tmp i \<Rightarrow> item_at (pid_array_tmp m) i | In_reload i \<Rightarrow> item_at (pidsToReload m) i)"

lemma cell_at_simps [simp]: "cell_at m (In_tmp i) = item_at (pid_array_tmp m) i" "cell_at (m\<lparr>sent := s\<rparr>) c = cell_at m c"
  by (simp_all add: cell_at_def split: pid_cell.split)

text \<open>The signals of a list of kill timers.\<close>

definition killed :: "master \<Rightarrow> pid_cell list \<Rightarrow> (int \<times> signal) list" where
  "killed m cs = map (\<lambda>p. (p, SIGKILL)) (filter (\<lambda>p. p \<noteq> 0) (map (\<lambda>c. the (cell_at m c)) cs))"

lemma killed_simps [simp]: "killed m [] = []" "killed (m\<lparr>sent := s\<rparr>) cs = killed m cs"
  by (simp_all add: killed_def)

lemma killed_Cons: "killed m (c # cs) = killed m [c] @ killed m cs"
  by (simp add: killed_def)

lemma kill_cell_at: "cell_at m c = Some p \<Longrightarrow> kill_cell c m = Some (m\<lparr>sent := sent m @ killed m [c]\<rparr>)"
  by (cases c) (simp_all add: kill_cell_def cell_at_def killed_def kill_def)

definition node_cell :: "timernode \<Rightarrow> pid_cell" where
  "node_cell nd = ptr_cell (userdata nd)"

definition kill_inv :: "master_world \<Rightarrow> bool" where
  "kill_inv w \<longleftrightarrow> (\<forall>n nd. nodes w n = Some nd \<longrightarrow> callback nd = Some KILL_CB \<and> cell_at (ms w) (node_cell nd) \<noteq> None)"

definition kill_step :: "master_world \<Rightarrow> nat \<Rightarrow> timernode \<Rightarrow> master_world \<Rightarrow> bool" where
  "kill_step w n nd w' \<longleftrightarrow> ms w' = (ms w)\<lparr>sent := sent (ms w) @ killed (ms w) [node_cell nd]\<rparr> \<and>
     nodes w' = (nodes w)(n := None) \<and> next_node w' = next_node w \<and> tw_num w' = tw_num w - 1 \<and> alarm_set w' = alarm_set w \<and>
     remainder w' = remainder w"

lemma more_ms: "wheel.more (w' :: master_world) = wheel.more w \<Longrightarrow> ms w' = ms w \<and> alarm_set w' = alarm_set w"
  by (cases w, cases w', simp)

interpretation kl: timer_callbacks kill_call kill_inv kill_step
proof
  fix w w' :: master_world
  assume "kill_inv w" "nodes w' = nodes w" "wheel.more w' = wheel.more w"
  then show "kill_inv w'" using more_ms [of w' w] by (simp add: kill_inv_def)
next
  fix w :: master_world and n ns nd cb
  assume f: "firing (free_node (take_node w n) n) ns" and q: "kill_inv w" and n: "nodes w n = Some nd" "n < next_node w"
    and cb: "callback nd = Some cb"
  obtain p where p: "cell_at (ms w) (node_cell nd) = Some p" "cb = KILL_CB" using q n cb by (fastforce simp: kill_inv_def)
  define w2 where "w2 = (take_node w n)\<lparr>ms := (ms w)\<lparr>sent := sent (ms w) @ killed (ms w) [node_cell nd]\<rparr>\<rparr>"
  have "kill_call cb (userdata nd) (take_node w n) = Some w2"
    using kill_cell_at [OF p(1)] p(2) by (simp add: kill_call_def w2_def take_node_def node_cell_def)
  moreover have "kill_inv (free_node w2 n)"
    using q by (simp add: kill_inv_def w2_def take_node_def free_node_def)
  moreover have "firing (free_node w2 n) ns"
    by (rule firing_cong [OF f]) (simp_all add: w2_def take_node_def free_node_def)
  moreover have "only_frees w (free_node w2 n)"
    by (simp add: only_frees_def w2_def take_node_def free_node_def)
  moreover have "kill_step w n nd (free_node w2 n)"
    by (simp add: kill_step_def w2_def take_node_def free_node_def)
  ultimately show "\<exists>tw2. kill_call cb (userdata nd) (take_node w n) = Some tw2 \<and> kill_inv (free_node tw2 n) \<and>
      firing (free_node tw2 n) ns \<and> only_frees w (free_node tw2 n) \<and> kill_step w n nd (free_node tw2 n)" by blast
qed

lemma kill_chain:
  assumes "fire_chain kill_step ns w w'" "distinct ns" "\<forall>n \<in> set ns. nodes w n \<noteq> None"
  shows "ms w' = (ms w)\<lparr>sent := sent (ms w) @ killed (ms w) (map (\<lambda>n. node_cell (the (nodes w n))) ns)\<rparr> \<and>
    nodes w' = nodes w |` (- set ns) \<and> next_node w' = next_node w \<and> tw_num w' = tw_num w - of_nat (length ns) \<and>
    alarm_set w' = alarm_set w \<and> remainder w' = remainder w"
  using assms
proof (induction ns arbitrary: w)
  case (Cons n ns)
  then obtain nd w2 where w2: "nodes w n = Some nd" "kill_step w n nd w2" "fire_chain kill_step ns w2 w'" by auto
  then have s: "ms w2 = (ms w)\<lparr>sent := sent (ms w) @ killed (ms w) [node_cell nd]\<rparr>" "nodes w2 = (nodes w)(n := None)"
      "next_node w2 = next_node w" "tw_num w2 = tw_num w - 1" "alarm_set w2 = alarm_set w" "remainder w2 = remainder w"
    by (simp_all add: kill_step_def)
  have n: "n \<notin> set ns" "distinct ns" using Cons.prems(2) by auto
  then have "\<forall>k \<in> set ns. nodes w2 k \<noteq> None" using Cons.prems(3) s(2) by auto
  note IH0 = Cons.IH [OF w2(3) n(2) this]
  have e: "map (\<lambda>n. node_cell (the (nodes w2 n))) ns = map (\<lambda>n. node_cell (the (nodes w n))) ns" using n s(2) by auto
  note IH = IH0 [unfolded e]
  have "ms w' = (ms w)\<lparr>sent := sent (ms w) @ killed (ms w) (map (\<lambda>n. node_cell (the (nodes w n))) (n # ns))\<rparr>"
    using IH s(1) w2(1) killed_Cons [of "ms w" "node_cell nd" "map (\<lambda>n. node_cell (the (nodes w n))) ns"] by simp
  moreover have "nodes w' = nodes w |` (- set (n # ns))"
    using IH s(2) by (auto simp: restrict_map_def fun_eq_iff)
  ultimately show ?case using IH s(3-6) by (simp add: diff_diff_eq)
qed (simp add: restrict_map_def fun_eq_iff)

lemma kill_tick:
  assumes "timer_inv w L" "kill_inv w"
  shows "\<exists>ns w' L'. distinct ns \<and> set ns = {n. \<exists>nd. nodes w n = Some nd \<and> expire nd = currtick w + 1} \<and>
    wmTimerWheelick kill_call w = Some w' \<and> timer_inv w' L' \<and> kill_inv w' \<and> currtick w' = currtick w + 1 \<and>
    ms w' = (ms w)\<lparr>sent := sent (ms w) @ killed (ms w) (map (\<lambda>n. node_cell (the (nodes w n))) ns)\<rparr> \<and>
    nodes w' = nodes w |` (- set ns) \<and> tw_num w' = tw_num w - of_nat (length ns) \<and> alarm_set w' = alarm_set w \<and>
    remainder w' = remainder w \<and> lasttime w' = lasttime w \<and> interval w' = interval w"
proof -
  obtain ns h w' L' where t: "distinct ns" "set ns = {n. \<exists>nd. nodes w n = Some nd \<and> expire nd = currtick w + 1}"
      "wmTimerWheelick kill_call w = Some w'" "timer_inv w' L'" "kill_inv w'" "only_frees (w\<lparr>currtick := currtick w + 1\<rparr>) w'"
      "fire_chain kill_step ns (w\<lparr>lnk := h, currtick := currtick w + 1\<rparr>) w'"
    using kl.tick_ok [OF assms] by blast
  have "\<forall>n \<in> set ns. nodes (w\<lparr>lnk := h, currtick := currtick w + 1\<rparr>) n \<noteq> None" using t(2) by auto
  from kill_chain [OF t(7,1) this] show ?thesis
    using t by (intro exI [of _ ns] exI [of _ w'] exI [of _ L']) (simp add: only_frees_def)
qed

section \<open>The timers of a stop\<close>

text \<open>\<open>n\<close> nodes from \<open>b\<close> on, for the first \<open>n\<close> items of the temporary array, all due at the tick \<open>e\<close>.\<close>

definition stop_nodes :: "nat \<Rightarrow> nat \<Rightarrow> u32 \<Rightarrow> nat \<Rightarrow> timernode option" where
  "stop_nodes b n e k =
    (if b \<le> k \<and> k < b + n then Some \<lparr>userdata = cell_ptr (In_tmp (k - b)), callback = Some KILL_CB, expire = e\<rparr> else None)"

lemma stop_nodes_Suc:
  "(stop_nodes b n e)(b + n \<mapsto> \<lparr>userdata = cell_ptr (In_tmp n), callback = Some KILL_CB, expire = e\<rparr>) = stop_nodes b (Suc n) e"
  by (auto simp: stop_nodes_def fun_eq_iff)

lemma arm_stop:
  assumes "\<exists>L. timer_inv w L" "nodes w = stop_nodes b i (currtick w + WM_KILL_WORKER_TIMER_TIME)" "next_node w = b + i" "tw_num w = of_nat i"
  shows "i \<le> n \<Longrightarrow> \<exists>w'. arm_kills (map In_tmp [i..<n]) w = Some w' \<and> (\<exists>L. timer_inv w' L) \<and>
    nodes w' = stop_nodes b n (currtick w + WM_KILL_WORKER_TIMER_TIME) \<and> tw_num w' = of_nat n \<and> currtick w' = currtick w \<and>
    lasttime w' = lasttime w \<and> interval w' = interval w \<and> remainder w' = remainder w \<and> ms w' = ms w \<and> alarm_set w' = alarm_set w"
  using assms
proof (induction "n - i" arbitrary: i w)
  case 0
  then show ?case by auto
next
  case (Suc k)
  let ?e = "currtick w + WM_KILL_WORKER_TIMER_TIME"
  obtain w1 where w1: "wmTimerWheel_add_quick w (Some KILL_CB) (cell_ptr (In_tmp i)) WM_KILL_WORKER_TIMER_TIME = Some (next_node w, w1)"
      "\<exists>L. timer_inv w1 L"
    using steadyD(3) [OF steady_resting Suc.prems(2)] by blast
  note g = add_quick_world [OF w1(1)]
  have f: "ms w1 = ms w" "alarm_set w1 = alarm_set w" using g more_ms [of w1 w] by simp_all
  have r: "remainder w1 = remainder w" using w1(1) by (auto simp: add_quick_eq Let_def)
  have e: "add_ticks WM_KILL_WORKER_TIMER_TIME = WM_KILL_WORKER_TIMER_TIME" by (simp add: add_ticks_def WM_KILL_WORKER_TIMER_TIME_def)
  have n1: "nodes w1 = stop_nodes b (Suc i) ?e"
    unfolding stop_nodes_Suc [symmetric] using g Suc.prems(3,4) e by simp
  have "i < n" "k = n - Suc i" using Suc.hyps(2) by simp_all
  then obtain w' where w': "arm_kills (map In_tmp [Suc i..<n]) w1 = Some w'" "\<exists>L. timer_inv w' L" "nodes w' = stop_nodes b n ?e" "tw_num w' = of_nat n"
      "currtick w' = currtick w1" "lasttime w' = lasttime w1" "interval w' = interval w1" "remainder w' = remainder w1" "ms w' = ms w1" "alarm_set w' = alarm_set w1"
    using Suc.hyps(1) [of "Suc i" w1] w1(2) n1 g Suc.prems(4,5) by auto
  have "arm_kills (map In_tmp [i..<n]) w = Some w'"
    using \<open>i < n\<close> w1(1) w'(1) by (simp add: upt_conv_Cons)
  then show ?case using w' g f r by (intro exI [of _ w']) simp
qed

text \<open>
  The master that stops: what is left of its processes stands in the first items of the temporary array, and
  all \<open>n\<close> items the timers point to can be read and hold processes of the server.
\<close>

definition stopping_with :: "nat \<Rightarrow> int set \<Rightarrow> int list \<Rightarrow> (u32 \<times> int list) list \<Rightarrow> master \<Rightarrow> bool" where
  "stopping_with n S left ps m \<longleftrightarrow> stop_state m ps \<and> \<not> exited m \<and> pend (all_pids ps) = left \<and> array_rep (pid_array_tmp m) left \<and>
     left \<noteq> [] \<and> length left \<le> n \<and> n \<le> 65536 \<and> set left \<subseteq> S \<and> 0 \<notin> S \<and> (\<forall>i < n. \<exists>p. item_at (pid_array_tmp m) i = Some p \<and> p \<in> S)"

lemma stopping_sent: "stopping_with n S left ps (m\<lparr>sent := s\<rparr>) = stopping_with n S left ps m"
  by (simp add: stopping_with_def stop_state_def master_rep_def)

definition wheel_ready :: "master_world \<Rightarrow> bool" where
  "wheel_ready w \<longleftrightarrow> (\<exists>L. timer_inv w L) \<and> interval w = 1 \<and> remainder w = 0"

lemma wheel_ready_cong:
  "wheel_ready w \<Longrightarrow> lnk w' = lnk w \<Longrightarrow> nodes w' = nodes w \<Longrightarrow> next_node w' = next_node w \<Longrightarrow> currtick w' = currtick w \<Longrightarrow>
     interval w' = interval w \<Longrightarrow> remainder w' = remainder w \<Longrightarrow> wheel_ready w'"
  unfolding wheel_ready_def timer_inv_def using base_inv_cong by metis

text \<open>What the kill timers of a stop send when they fire.\<close>

lemma stop_kills_sent:
  assumes st: "stopping_with n S left ps m" and ns: "distinct ks" "set ks = {b..<b + n}"
  shows "\<exists>vs. killed m (map (\<lambda>k. node_cell (the (stop_nodes b n e k))) ks) = map (\<lambda>p. (p, SIGKILL)) vs \<and>
    length vs = n \<and> set left \<subseteq> set vs \<and> set vs \<subseteq> S"
proof -
  let ?c = "\<lambda>k. the (item_at (pid_array_tmp m) (k - b))"
  have c: "map (\<lambda>c. the (cell_at m c)) (map (\<lambda>k. node_cell (the (stop_nodes b n e k))) ks) = map ?c ks"
    using ns(2) by (auto simp: stop_nodes_def node_cell_def)
  have S: "?c k \<in> S" if "k \<in> set ks" for k
  proof -
    have "k - b < n" using that ns(2) by auto
    then show ?thesis using st unfolding stopping_with_def by (metis option.sel)
  qed
  then have sub: "set (map ?c ks) \<subseteq> S" by auto
  moreover have "0 \<notin> S" using st by (simp add: stopping_with_def)
  ultimately have "\<forall>x \<in> set (map ?c ks). x \<noteq> 0" by blast
  then have "filter (\<lambda>p. p \<noteq> 0) (map ?c ks) = map ?c ks" by (rule filter_True)
  then have "killed m (map (\<lambda>k. node_cell (the (stop_nodes b n e k))) ks) = map (\<lambda>p. (p, SIGKILL)) (map ?c ks)"
    unfolding killed_def c by simp
  moreover have "length (map ?c ks) = n" using ns distinct_card [of ks] by simp
  moreover have "set left \<subseteq> set (map ?c ks)"
  proof
    fix p assume "p \<in> set left"
    then obtain i where i: "i < length left" "left ! i = p" by (auto simp: in_set_conv_nth)
    have l: "length left \<le> n" "array_rep (pid_array_tmp m) left" using st by (simp_all add: stopping_with_def)
    then have "?c (b + i) = p" using item_at_ok [of "pid_array_tmp m" left i] i by simp
    moreover have "b + i \<in> set ks" using ns(2) l(1) i(1) by simp
    ultimately show "p \<in> set (map ?c ks)" by force
  qed
  ultimately show ?thesis using sub by (intro exI [of _ "map ?c ks"]) simp
qed

section \<open>Seconds\<close>

definition due_in :: "nat \<Rightarrow> u32 \<Rightarrow> nat \<Rightarrow> nat \<Rightarrow> master_world \<Rightarrow> bool" where
  "due_in d e b n w \<longleftrightarrow> nodes w = stop_nodes b n e \<and> tw_num w = of_nat n \<and> unat (e - currtick w) = d \<and> 0 < d"

lemma stop_kill_inv:
  assumes "stopping_with n S left ps (ms w)" "nodes w = stop_nodes b n e"
  shows "kill_inv w"
  unfolding kill_inv_def
proof (intro allI impI)
  fix k nd assume "nodes w k = Some nd"
  then have nd: "nd = \<lparr>userdata = cell_ptr (In_tmp (k - b)), callback = Some KILL_CB, expire = e\<rparr>" "k - b < n"
    using assms(2) by (auto simp: stop_nodes_def split: if_splits)
  then have "item_at (pid_array_tmp (ms w)) (k - b) \<noteq> None" using assms(1) unfolding stopping_with_def by fastforce
  then show "callback nd = Some KILL_CB \<and> cell_at (ms w) (node_cell nd) \<noteq> None" by (simp add: nd(1) node_cell_def)
qed

lemma no_kill_inv: "nodes w = Map.empty \<Longrightarrow> kill_inv w"
  by (simp add: kill_inv_def)

text \<open>A tick before the time is up only counts.\<close>

lemma quiet_ticks:
  assumes "timer_inv w L" "kill_inv w" "nodes w = stop_nodes b n e" "k < unat (e - currtick w)"
  shows "\<exists>w' L'. tick_loop kill_call 1 (int k) w = Some (0, w') \<and> timer_inv w' L' \<and> kill_inv w' \<and> nodes w' = nodes w \<and> ms w' = ms w \<and>
    tw_num w' = tw_num w \<and> unat (e - currtick w') = unat (e - currtick w) - k \<and> lasttime w' = lasttime w \<and> interval w' = interval w \<and> remainder w' = remainder w \<and>
    alarm_set w' = alarm_set w"
  using assms
proof (induction k arbitrary: w L)
  case 0
  have "tick_loop kill_call 1 (int 0) w = Some (0, w)" by (subst tick_loop.simps) simp
  then show ?case using 0 by auto
next
  case (Suc k)
  obtain ns w1 L1 where w1: "set ns = {n. \<exists>nd. nodes w n = Some nd \<and> expire nd = currtick w + 1}"
      "wmTimerWheelick kill_call w = Some w1" "timer_inv w1 L1" "kill_inv w1" "currtick w1 = currtick w + 1"
      "ms w1 = (ms w)\<lparr>sent := sent (ms w) @ killed (ms w) (map (\<lambda>n. node_cell (the (nodes w n))) ns)\<rparr>"
      "nodes w1 = nodes w |` (- set ns)" "tw_num w1 = tw_num w - of_nat (length ns)" "alarm_set w1 = alarm_set w"
      "remainder w1 = remainder w" "lasttime w1 = lasttime w" "interval w1 = interval w"
    using kill_tick [OF Suc.prems(1,2)] by blast
  have ne: "e - currtick w \<noteq> 0" "e - currtick w \<noteq> 1" using Suc.prems(4) by auto
  then have "e \<noteq> currtick w + 1" by auto
  then have "set ns = {}" unfolding w1(1) Suc.prems(3) by (auto simp: stop_nodes_def split: if_splits)
  then have "ns = []" by simp
  then have same: "ms w1 = ms w" "nodes w1 = nodes w" "tw_num w1 = tw_num w" using w1(6-8) by (simp_all add: restrict_map_def fun_eq_iff)
  have "unat (e - currtick w - 1) = unat (e - currtick w) - 1" by (rule unat_minus_one) (rule ne)
  then have k: "unat (e - currtick w1) = unat (e - currtick w) - 1" using w1(5) by (simp add: diff_diff_eq)
  have "k < unat (e - currtick w1)" "nodes w1 = stop_nodes b n e" using k Suc.prems(3,4) same by simp_all
  then obtain w' L' where w': "tick_loop kill_call 1 (int k) w1 = Some (0, w')" "timer_inv w' L'" "kill_inv w'" "nodes w' = nodes w1" "ms w' = ms w1"
      "tw_num w' = tw_num w1" "unat (e - currtick w') = unat (e - currtick w1) - k" "lasttime w' = lasttime w1" "interval w' = interval w1"
      "remainder w' = remainder w1" "alarm_set w' = alarm_set w1"
    using Suc.IH [OF w1(3,4)] by blast
  have "tick_loop kill_call 1 (int (Suc k)) w = tick_loop kill_call 1 (int k) w1"
    using w1(2) by (subst tick_loop.simps) simp
  then show ?case using w' w1 same k by (intro exI [of _ w'] exI [of _ L']) simp
qed

text \<open>Ticks of an empty wheel.\<close>

lemma empty_ticks:
  assumes "timer_inv w L" "nodes w = Map.empty"
  shows "\<exists>w' L'. tick_loop kill_call 1 (int k) w = Some (0, w') \<and> timer_inv w' L' \<and> nodes w' = Map.empty \<and> ms w' = ms w \<and> tw_num w' = tw_num w \<and>
    lasttime w' = lasttime w \<and> interval w' = interval w \<and> remainder w' = remainder w \<and> alarm_set w' = alarm_set w"
  using assms
proof (induction k arbitrary: w L)
  case 0
  have "tick_loop kill_call 1 (int 0) w = Some (0, w)" by (subst tick_loop.simps) simp
  then show ?case using 0 by auto
next
  case (Suc k)
  obtain ns w1 L1 where w1: "set ns = {n. \<exists>nd. nodes w n = Some nd \<and> expire nd = currtick w + 1}"
      "wmTimerWheelick kill_call w = Some w1" "timer_inv w1 L1"
      "ms w1 = (ms w)\<lparr>sent := sent (ms w) @ killed (ms w) (map (\<lambda>n. node_cell (the (nodes w n))) ns)\<rparr>"
      "nodes w1 = nodes w |` (- set ns)" "tw_num w1 = tw_num w - of_nat (length ns)" "alarm_set w1 = alarm_set w"
      "remainder w1 = remainder w" "lasttime w1 = lasttime w" "interval w1 = interval w"
    using kill_tick [OF Suc.prems(1) no_kill_inv [OF Suc.prems(2)]] by blast
  have "ns = []" using w1(1) Suc.prems(2) by simp
  then have same: "ms w1 = ms w" "nodes w1 = Map.empty" "tw_num w1 = tw_num w" using w1(4-6) Suc.prems(2) by (simp_all add: restrict_map_def fun_eq_iff)
  have "tick_loop kill_call 1 (int (Suc k)) w = tick_loop kill_call 1 (int k) w1"
    using w1(2) by (subst tick_loop.simps) simp
  then show ?case using Suc.IH [OF w1(3) same(2)] same w1 by auto
qed

lemma tw_num_pos:
  assumes "stopping_with n S left ps m"
  shows "0 < (of_nat n :: u32)"
proof -
  have "0 < n" "n < 2 ^ 32" using assms by (cases left; simp add: stopping_with_def)+
  then have "unat (of_nat n :: u32) = n" by (simp add: unat_of_nat32)
  then show ?thesis using \<open>0 < n\<close> by (simp add: word_less_nat_alt)
qed

lemma second_quiet:
  assumes st: "stopping_with n S left ps (ms w)" and r: "wheel_ready w" and du: "due_in d e b n w" and a: "alarm_set w"
    and now: "lasttime w \<le> now" "unat (now - lasttime w) < d" "d < 2 ^ 31"
  shows "\<exists>w'. second_passed now w = Some w' \<and> ms w' = ms w \<and> wheel_ready w' \<and> alarm_set w' \<and>
    due_in (d - unat (now - lasttime w)) e b n w' \<and> lasttime w' = now"
proof -
  define w0 where "w0 = w\<lparr>alarm_set := False\<rparr>"
  have du0: "due_in d e b n w0" and r0: "wheel_ready w0"
    using du wheel_ready_cong [OF r, of w0] by (simp_all add: due_in_def w0_def)
  have s: "second_passed now w = map_option (\<lambda>w. w\<lparr>alarm_set := True\<rparr>) (wmTimerWheel_update kill_call w0 now)"
    using a tw_num_pos [OF st] du0 by (simp add: second_passed_def alarm_wait_def w0_def [symmetric] due_in_def)
  define k where "k = unat (now - lasttime w)"
  show ?thesis
  proof (cases "lasttime w < now")
    case False
    then have "now = lasttime w" using now(1) by simp
    then have "wmTimerWheel_update kill_call w0 now = Some w0" "now - lasttime w = 0" by (simp_all add: wmTimerWheel_update_def w0_def)
    then show ?thesis using s r0 du0 \<open>now = lasttime w\<close> wheel_ready_cong [OF r0, of "w0\<lparr>alarm_set := True\<rparr>"]
      by (simp add: due_in_def w0_def)
  next
    case True
    define v where "v = w0\<lparr>lasttime := now\<rparr>"
    obtain L where L: "timer_inv v L"
      using r0 base_inv_cong [of w0 _ v] by (auto simp: wheel_ready_def timer_inv_def v_def)
    have nv: "nodes v = stop_nodes b n e" "k < unat (e - currtick v)" "ms v = ms w" "tw_num v = tw_num w" "unat (e - currtick v) = d"
      using du0 now(2) by (simp_all add: due_in_def v_def w0_def k_def)
    have "kill_inv v" using stop_kill_inv [of n S left ps v b e] st nv(1,3) by simp
    from quiet_ticks [OF L this nv(1,2)] obtain w' L' where w': "tick_loop kill_call 1 (int k) v = Some (0, w')" "timer_inv w' L'"
        "nodes w' = nodes v" "ms w' = ms v" "tw_num w' = tw_num v" "unat (e - currtick w') = unat (e - currtick v) - k" "lasttime w' = lasttime v" "interval w' = interval v"
      by blast
    define u where "u = w'\<lparr>remainder := 0, alarm_set := True\<rparr>"
    have "wmTimerWheel_update kill_call w0 now =
      map_option (\<lambda>(rest, tw). tw\<lparr>remainder := word_of_int rest\<rparr>) (tick_loop kill_call 1 (int k) (w0\<lparr>lasttime := now\<rparr>))"
      by (rule update_ms) (use r0 True now(2,3) in \<open>simp_all add: wheel_ready_def w0_def k_def\<close>)
    then have "wmTimerWheel_update kill_call w0 now = Some (w'\<lparr>remainder := 0\<rparr>)"
      unfolding v_def [symmetric] w'(1) by simp
    then have "second_passed now w = Some u" using s by (simp add: u_def)
    moreover have "wheel_ready u"
      using w'(2,8) r0 base_inv_cong [of w' L' u] by (auto simp: wheel_ready_def timer_inv_def u_def v_def)
    moreover have "due_in (d - k) e b n u"
      using w'(3,5,6) nv du0 now(2) by (simp add: due_in_def u_def k_def v_def)
    ultimately show ?thesis using w'(4,7) nv(3) by (intro exI [of _ u]) (simp add: u_def v_def k_def)
  qed
qed

text \<open>The second in which the time is up.\<close>

lemma second_kills:
  assumes st: "stopping_with n S left ps (ms w)" and r: "wheel_ready w" and du: "due_in d e b n w" and a: "alarm_set w"
    and now: "lasttime w \<le> now" "d \<le> unat (now - lasttime w)" "unat (now - lasttime w) < 2 ^ 31"
  shows "\<exists>w' vs. second_passed now w = Some w' \<and> ms w' = (ms w)\<lparr>sent := sent (ms w) @ map (\<lambda>p. (p, SIGKILL)) vs\<rparr> \<and>
    length vs = n \<and> set left \<subseteq> set vs \<and> set vs \<subseteq> S \<and> tw_num w' = 0 \<and> nodes w' = Map.empty"
proof -
  define w0 where "w0 = w\<lparr>alarm_set := False\<rparr>"
  have du0: "due_in d e b n w0" and r0: "wheel_ready w0"
    using du wheel_ready_cong [OF r, of w0] by (simp_all add: due_in_def w0_def)
  have d: "0 < d" using du by (simp add: due_in_def)
  have s: "second_passed now w = map_option (\<lambda>w. w\<lparr>alarm_set := True\<rparr>) (wmTimerWheel_update kill_call w0 now)"
    using a tw_num_pos [OF st] du0 by (simp add: second_passed_def alarm_wait_def w0_def [symmetric] due_in_def)
  define k where "k = unat (now - lasttime w)"
  have "lasttime w \<noteq> now" using now(2) d by auto
  then have adv: "lasttime w < now" using now(1) by simp
  define v where "v = w0\<lparr>lasttime := now\<rparr>"
  obtain L where L: "timer_inv v L"
    using r0 base_inv_cong [of w0 _ v] by (auto simp: wheel_ready_def timer_inv_def v_def)
  have nv: "nodes v = stop_nodes b n e" "d - 1 < unat (e - currtick v)" "ms v = ms w" "tw_num v = of_nat n" "unat (e - currtick v) = d"
    using du0 d by (simp_all add: due_in_def v_def w0_def)
  have "kill_inv v" using stop_kill_inv [of n S left ps v b e] st nv(1,3) by simp
  from quiet_ticks [OF L this nv(1,2)] obtain w1 L1 where w1: "tick_loop kill_call 1 (int (d - 1)) v = Some (0, w1)" "timer_inv w1 L1" "kill_inv w1"
      "nodes w1 = nodes v" "ms w1 = ms v" "tw_num w1 = tw_num v" "unat (e - currtick w1) = unat (e - currtick v) - (d - 1)"
    by blast
  obtain ns w2 L2 where w2: "distinct ns" "set ns = {n. \<exists>nd. nodes w1 n = Some nd \<and> expire nd = currtick w1 + 1}"
      "wmTimerWheelick kill_call w1 = Some w2" "timer_inv w2 L2"
      "ms w2 = (ms w1)\<lparr>sent := sent (ms w1) @ killed (ms w1) (map (\<lambda>n. node_cell (the (nodes w1 n))) ns)\<rparr>"
      "nodes w2 = nodes w1 |` (- set ns)" "tw_num w2 = tw_num w1 - of_nat (length ns)"
    using kill_tick [OF w1(2,3)] by blast
  have "unat (e - currtick w1) = 1" using w1(7) nv(5) d by simp
  then have "e - currtick w1 = 1" by (metis unat_1 word_unat_eq_iff)
  then have e: "currtick w1 + 1 = e" by (simp add: algebra_simps)
  have ns: "set ns = {b..<b + n}" unfolding w2(2) e w1(4) nv(1) by (auto simp: stop_nodes_def)
  then have "length ns = n" using distinct_card [OF w2(1)] by simp
  then have z: "tw_num w2 = 0" "nodes w2 = Map.empty"
    using w2(6,7) w1(4,6) nv(1,4) ns by (auto simp: restrict_map_def stop_nodes_def fun_eq_iff)
  obtain vs where vs: "killed (ms w) (map (\<lambda>k. node_cell (the (stop_nodes b n e k))) ns) = map (\<lambda>p. (p, SIGKILL)) vs"
      "length vs = n" "set left \<subseteq> set vs" "set vs \<subseteq> S"
    using stop_kills_sent [OF st w2(1) ns] by blast
  obtain w3 where w3: "tick_loop kill_call 1 (int (k - d)) w2 = Some (0, w3)" "nodes w3 = Map.empty" "ms w3 = ms w2" "tw_num w3 = tw_num w2"
    using empty_ticks [OF w2(4) z(2)] by blast
  have "tick_loop kill_call 1 (int (Suc (k - d))) w1 = tick_loop kill_call 1 (int (k - d)) w2"
    using w2(3) by (subst tick_loop.simps) simp
  moreover have "k = d - 1 + Suc (k - d)" using d now(2) by (simp add: k_def)
  ultimately have "tick_loop kill_call 1 (int k) v = Some (0, w3)"
    using tick_loop_split [OF w1(1), of "Suc (k - d)"] w3(1) by simp
  note run = this
  have "wmTimerWheel_update kill_call w0 now =
      map_option (\<lambda>(rest, tw). tw\<lparr>remainder := word_of_int rest\<rparr>) (tick_loop kill_call 1 (int k) (w0\<lparr>lasttime := now\<rparr>))"
    by (rule update_ms) (use r0 adv now(3) in \<open>simp_all add: wheel_ready_def w0_def k_def\<close>)
  then have "wmTimerWheel_update kill_call w0 now = Some (w3\<lparr>remainder := 0\<rparr>)"
    unfolding v_def [symmetric] run by simp
  then have "second_passed now w = Some (w3\<lparr>remainder := 0, alarm_set := True\<rparr>)" using s by simp
  moreover have "ms w2 = (ms w)\<lparr>sent := sent (ms w) @ map (\<lambda>p. (p, SIGKILL)) vs\<rparr>"
    using w2(5) vs(1) by (simp add: w1(4,5) nv(1,3))
  ultimately show ?thesis using vs z w3 by (intro exI [of _ "w3\<lparr>remainder := 0, alarm_set := True\<rparr>"] exI [of _ vs]) simp
qed

section \<open>Runs of a master that stops\<close>

fun ended :: "master_event list \<Rightarrow> int list" where
  "ended [] = []"
| "ended (Ended p # es) = p # ended es"
| "ended (Second t # es) = ended es"
| "ended (Signal s # es) = ended es"

fun clocks :: "master_event list \<Rightarrow> u64 list" where
  "clocks [] = []"
| "clocks (Second t # es) = t # clocks es"
| "clocks (Ended p # es) = clocks es"
| "clocks (Signal s # es) = clocks es"

fun no_signals :: "master_event list \<Rightarrow> bool" where
  "no_signals [] \<longleftrightarrow> True"
| "no_signals (Signal s # es) \<longleftrightarrow> False"
| "no_signals (_ # es) \<longleftrightarrow> no_signals es"

lemma stop_ended:
  assumes st: "stopping_with n S left ps (ms w)" and p: "p \<in> set left"
  defines "rest \<equiv> filter (\<lambda>q. q \<noteq> p) left"
  shows "\<exists>m'. watch_child p w = Some (if rest = [] then All_stopped else Watching, w\<lparr>ms := m'\<rparr>) \<and> sent m' = sent (ms w) \<and> exited m' = (rest = []) \<and>
    (rest \<noteq> [] \<longrightarrow> stopping_with n S rest (repl p 0 ps) m')"
proof -
  have s: "stop_state (ms w) ps" "pend (all_pids ps) = left" "\<not> exited (ms w)" using st by (simp_all add: stopping_with_def)
  have "p \<in> set (all_pids ps)" "p \<noteq> 0" using p s(2) by (auto simp: pend_def)
  then have pos: "0 < p" using s(1) by (force simp: stop_state_def)
  obtain m' where m': "monitor_step p (ms w) = Some (if rest = [] then All_stopped else Watching, m')" "stop_state m' (repl p 0 ps)"
      "pend (all_pids (repl p 0 ps)) = rest" "sent m' = sent (ms w)" "exited m' = (rest = [] \<or> exited (ms w))" "kill_timers m' = kill_timers (ms w)"
      "array_rep (pid_array_tmp m') rest" "cells_kept (set rest) (pid_array_tmp (ms w)) (pid_array_tmp m')"
    using stop_turn [OF s(1) pos] unfolding s(2) rest_def [symmetric] by blast
  have w: "watch_child p w = Some (if rest = [] then All_stopped else Watching, w\<lparr>ms := m'\<rparr>)"
    using m'(1,6) by (simp add: watch_child_def with_kills_def)
  have sub: "set rest \<subseteq> S" "length rest \<le> n"
    using st order_trans [OF length_filter_le [of "\<lambda>q. q \<noteq> p" left]] unfolding stopping_with_def rest_def by auto
  have "\<exists>q. item_at (pid_array_tmp m') i = Some q \<and> q \<in> S" if i: "i < n" for i
  proof -
    obtain q where "item_at (pid_array_tmp (ms w)) i = Some q" "q \<in> S" using st i by (auto simp: stopping_with_def)
    then show ?thesis using m'(8) sub(1) unfolding cells_kept_def by fastforce
  qed
  then have "stopping_with n S rest (repl p 0 ps) m'" if "rest \<noteq> []"
    using that st m' sub by (simp add: stopping_with_def)
  then show ?thesis using w m'(4,5) s(3) by blast
qed

text \<open>
  The interface between the ends of the processes and the clock: whatever the seconds do, as long as they
  leave the master alone, the run is that of the ends. \<open>J\<close> is what holds of the wheel, for the seconds still to come.
\<close>

locale stop_clock =
  fixes J :: "u64 list \<Rightarrow> master_world \<Rightarrow> bool" and n :: nat and S :: "int set"
  assumes second_law: "stopping_with n S left ps (ms w) \<Longrightarrow> J (c # cs) w \<Longrightarrow>
      \<exists>w'. second_passed c w = Some w' \<and> ms w' = ms w \<and> J cs w'"
    and state_law: "J cs w \<Longrightarrow> J cs (w\<lparr>ms := m\<rparr>)"
begin

lemma run:
  assumes "stopping_with n S left ps (ms w)" "J (clocks es @ cs) w" "no_signals es" "distinct (ended es)" "set (ended es) \<subseteq> set left"
  shows "\<exists>w'. master_run es w = Some (if set (ended es) = set left then All_stopped else Watching, w') \<and>
    sent (ms w') = sent (ms w) \<and> exited (ms w') = (set (ended es) = set left) \<and>
    (set (ended es) \<noteq> set left \<longrightarrow> J cs w' \<and> (\<exists>ps'. stopping_with n S (filter (\<lambda>p. p \<notin> set (ended es)) left) ps' (ms w')))"
  using assms
proof (induction es arbitrary: w left ps rule: ended.induct)
  case 1
  then have "left \<noteq> []" "\<not> exited (ms w)" by (simp_all add: stopping_with_def)
  then show ?case using 1 by auto
next
  case (2 p es)
  let ?rest = "filter (\<lambda>q. q \<noteq> p) left"
  obtain m' where m': "watch_child p w = Some (if ?rest = [] then All_stopped else Watching, w\<lparr>ms := m'\<rparr>)" "sent m' = sent (ms w)"
      "exited m' = (?rest = [])" "?rest \<noteq> [] \<longrightarrow> stopping_with n S ?rest (repl p 0 ps) m'"
    using stop_ended [OF 2(2), of p] 2(6) by auto
  have sub: "set (ended es) \<subseteq> set ?rest" using 2(5,6) by auto
  have eqs: "set (ended (Ended p # es)) = set left \<longleftrightarrow> set (ended es) = set ?rest" using 2(5,6) by auto
  show ?case
  proof (cases "?rest = []")
    case True
    then have "set (ended es) = set ?rest" using sub by simp
    then show ?thesis using m' True eqs by simp
  next
    case False
    have prem: "stopping_with n S ?rest (repl p 0 ps) (ms (w\<lparr>ms := m'\<rparr>))" "J (clocks es @ cs) (w\<lparr>ms := m'\<rparr>)"
      using m'(4) False state_law [of "clocks es @ cs" w m'] 2(3) by simp_all
    obtain w' where w': "master_run es (w\<lparr>ms := m'\<rparr>) = Some (if set (ended es) = set ?rest then All_stopped else Watching, w')"
        "sent (ms w') = sent m'" "exited (ms w') = (set (ended es) = set ?rest)"
        "set (ended es) \<noteq> set ?rest \<longrightarrow> J cs w' \<and> (\<exists>ps'. stopping_with n S (filter (\<lambda>q. q \<notin> set (ended es)) ?rest) ps' (ms w'))"
      using 2(1) [OF prem] 2(4,5) sub by auto
    have "filter (\<lambda>q. q \<notin> set (ended es)) ?rest = filter (\<lambda>q. q \<notin> set (ended (Ended p # es))) left"
      by (simp add: conj_commute)
    then show ?thesis using w' m'(1,2) False unfolding eqs by simp
  qed
next
  case (3 c es)
  obtain w1 where w1: "second_passed c w = Some w1" "ms w1 = ms w" "J (clocks es @ cs) w1"
    using second_law [OF 3(2), of c "clocks es @ cs"] 3(3) by auto
  have "stopping_with n S left ps (ms w1)" using 3(2) w1(2) by simp
  from 3(1) [OF this w1(3)] show ?case using w1(1,2) 3(4-6) by simp
qed simp

lemma run_part:
  assumes "stopping_with n S left ps (ms w)" "J (clocks es @ cs) w" "no_signals es" "distinct (ended es)" "set (ended es) \<subset> set left"
  shows "\<exists>w' ps'. master_run es w = Some (Watching, w') \<and> sent (ms w') = sent (ms w) \<and> J cs w' \<and>
    stopping_with n S (filter (\<lambda>p. p \<notin> set (ended es)) left) ps' (ms w')"
proof -
  have "set (ended es) \<subseteq> set left" and ne: "(set (ended es) = set left) = False" using assms(5) by auto
  from run [OF assms(1-4) this(1)] show ?thesis unfolding ne by auto
qed

lemma run_all:
  assumes "stopping_with n S left ps (ms w)" "J (clocks es) w" "no_signals es" "distinct (ended es)" "set (ended es) = set left"
  shows "\<exists>w'. master_run es w = Some (All_stopped, w') \<and> sent (ms w') = sent (ms w) \<and> exited (ms w')"
  using run [OF assms(1) _ assms(3,4), of "[]"] assms(2,5) by auto

end

text \<open>The three kinds of clock: before the time is up, after the kill timers have fired, and without an alarm.\<close>

definition armed_since :: "u64 \<Rightarrow> u32 \<Rightarrow> nat \<Rightarrow> nat \<Rightarrow> u64 list \<Rightarrow> master_world \<Rightarrow> bool" where
  "armed_since t e b n cs w \<longleftrightarrow> wheel_ready w \<and> alarm_set w \<and> t \<le> lasttime w \<and> unat (lasttime w) < unat t + 2000 \<and>
     due_in (unat t + 2000 - unat (lasttime w)) e b n w \<and> sorted (lasttime w # cs) \<and> (\<forall>c \<in> set cs. unat c < unat t + 2000)"

definition fired :: "u64 list \<Rightarrow> master_world \<Rightarrow> bool" where
  "fired cs w \<longleftrightarrow> tw_num w = 0"

definition no_alarm :: "u64 list \<Rightarrow> master_world \<Rightarrow> bool" where
  "no_alarm cs w \<longleftrightarrow> \<not> alarm_set w"

interpretation armed: stop_clock "armed_since t e b n" n S
proof
  fix left ps w c cs
  let ?T = "unat t + 2000"
  assume st: "stopping_with n S left ps (ms w)" and a: "armed_since t e b n (c # cs) w"
  then have a': "wheel_ready w" "alarm_set w" "due_in (?T - unat (lasttime w)) e b n w" "t \<le> lasttime w"
    by (simp_all add: armed_since_def)
  have c: "lasttime w \<le> c" "unat c < ?T" "sorted (c # cs)" "\<forall>c \<in> set cs. unat c < ?T" using a by (auto simp: armed_since_def)
  have u: "unat (c - lasttime w) = unat c - unat (lasttime w)" by (rule unat_sub [OF c(1)])
  have le: "unat t \<le> unat (lasttime w)" "unat (lasttime w) \<le> unat c" using a'(4) c(1) by (simp_all add: word_le_nat_alt)
  then have lt: "unat (c - lasttime w) < ?T - unat (lasttime w)" "?T - unat (lasttime w) < 2 ^ 31" using c(2) u by simp_all
  obtain w' where w': "second_passed c w = Some w'" "ms w' = ms w" "wheel_ready w'" "alarm_set w'"
      "due_in (?T - unat (lasttime w) - unat (c - lasttime w)) e b n w'" "lasttime w' = c"
    using second_quiet [OF st a'(1,3,2) c(1) lt] by blast
  have "?T - unat (lasttime w) - unat (c - lasttime w) = ?T - unat c" using u le c(2) by simp
  moreover have "t \<le> c" using a'(4) c(1) by (rule order_trans)
  ultimately have "armed_since t e b n cs w'" using w' c by (simp add: armed_since_def)
  then show "\<exists>w'. second_passed c w = Some w' \<and> ms w' = ms w \<and> armed_since t e b n cs w'" using w' by blast
next
  fix cs w m assume "armed_since t e b n cs w"
  then show "armed_since t e b n cs (w\<lparr>ms := m\<rparr>)"
    using wheel_ready_cong [of w "w\<lparr>ms := m\<rparr>"] by (simp add: armed_since_def due_in_def)
qed

interpretation fired: stop_clock fired n S
  by unfold_locales (auto simp: fired_def second_passed_def alarm_wait_def)

interpretation no_alarm: stop_clock no_alarm n S
  by unfold_locales (auto simp: no_alarm_def second_passed_def)

section \<open>The stop signal\<close>

lemma stop_signal:
  assumes "timer_inv w L" "nodes w = Map.empty" "tw_num w = 0" "interval w = 1" "remainder w = 0" "serving (ms w) ps qs" "\<not> exited (ms w)"
    "all_pids ps \<noteq> []"
  shows "\<exists>w1. handle_signal seen SIGINT w = Some w1 \<and> sent (ms w1) = sent (ms w) @ map (\<lambda>p. (p, SIGINT)) (all_pids ps) \<and>
    stopping_with (length (all_pids ps)) (set (all_pids ps)) (all_pids ps) ps (ms w1) \<and> wheel_ready w1 \<and> lasttime w1 = lasttime w \<and>
    alarm_set w1 = alarm_set w \<and> forks (ms w1) = forks (ms w) \<and>
    due_in 2000 (currtick w + WM_KILL_WORKER_TIMER_TIME) (next_node w) (length (all_pids ps)) w1"
proof -
  let ?n = "length (all_pids ps)"
  obtain m1 where m1: "signalHandler seen SIGINT (ms w) = Some m1" "stop_state m1 ps" "pend (all_pids ps) = all_pids ps" "forks m1 = forks (ms w)"
    "exited m1 = exited (ms w)" "sent m1 = sent (ms w) @ map (\<lambda>p. (p, SIGINT)) (all_pids ps)"
    "kill_timers m1 = kill_timers (ms w) @ map In_tmp [0..<?n]" "array_rep (pid_array_tmp m1) (all_pids ps)"
    using stopAll_ok [OF assms(6), of seen] by blast
  define v where "v = w\<lparr>ms := m1\<rparr>"
  have i: "\<exists>L. timer_inv v L" using assms(1) base_inv_cong [of w L v] by (auto simp: timer_inv_def v_def)
  have nv: "nodes v = stop_nodes (next_node w) 0 (currtick v + WM_KILL_WORKER_TIMER_TIME)" "next_node v = next_node w + 0" "tw_num v = of_nat 0"
    using assms(2,3) by (simp_all add: v_def stop_nodes_def fun_eq_iff)
  from arm_stop [OF i nv, of ?n] obtain w1 where w1: "arm_kills (map In_tmp [0..<?n]) v = Some w1" "\<exists>L. timer_inv w1 L"
      "nodes w1 = stop_nodes (next_node w) ?n (currtick v + WM_KILL_WORKER_TIMER_TIME)" "tw_num w1 = of_nat ?n" "currtick w1 = currtick v"
      "lasttime w1 = lasttime v" "interval w1 = interval v" "remainder w1 = remainder v" "ms w1 = ms v" "alarm_set w1 = alarm_set v"
    by blast
  have h: "handle_signal seen SIGINT w = Some w1"
    using m1(1,7) w1(1) by (simp add: handle_signal_def with_kills_def v_def)
  obtain l where l: "serving_list (ms w) ps l" using assms(6) by (auto simp: serving_def)
  then have n: "?n \<le> 65536" "0 \<notin> set (all_pids ps)"
    using serving_listD(1,2) [OF l] by (simp_all add: master_rep_def)
  have "\<exists>p. item_at (pid_array_tmp m1) i = Some p \<and> p \<in> set (all_pids ps)" if "i < ?n" for i
    using item_at_ok [OF m1(8) that] that by simp
  then have "stopping_with ?n (set (all_pids ps)) (all_pids ps) ps m1"
    using m1(2,3,5,8) assms(7,8) n by (simp add: stopping_with_def)
  moreover have "due_in 2000 (currtick w + WM_KILL_WORKER_TIMER_TIME) (next_node w) ?n w1"
    using w1(3-5) by (simp add: due_in_def v_def WM_KILL_WORKER_TIMER_TIME_def)
  ultimately show ?thesis using h w1 assms(4,5) m1(4,6) by (intro exI [of _ w1]) (simp add: wheel_ready_def v_def)
qed

section \<open>Properties\<close>

text \<open>
  C24: a stop ends. After \<open>SIGINT\<close> the processes may end when they like while less than two seconds have
  passed since the wheel was last updated, and nobody is killed; the first second at which two have passed sends
  \<open>SIGKILL\<close> once per process the server had, to every process that is left and to nobody outside the
  server; when those have ended the master exits.
\<close>

theorem stop_kills:
  assumes server: "serving (ms w) ps qs" "\<not> exited (ms w)" "all_pids ps \<noteq> []"
    and clock: "timer_inv w L" "nodes w = Map.empty" "tw_num w = 0" "interval w = 1" "remainder w = 0" "alarm_set w"
    and evs: "no_signals es" "distinct (ended es)" "set (ended es) \<subset> set (all_pids ps)"
    and times: "sorted (lasttime w # clocks es)" "\<forall>c \<in> set (clocks es). unat c < unat (lasttime w) + 2000"
      "unat (lasttime w) + 2000 \<le> unat now" "unat now < unat (lasttime w) + 2 ^ 31"
    and rest: "no_signals fs" "distinct (ended fs)" "set (ended fs) = set (all_pids ps) - set (ended es)"
  shows "\<exists>w1 w2 w3 w4 ks. handle_signal seen SIGINT w = Some w1 \<and> sent (ms w1) = sent (ms w) @ map (\<lambda>p. (p, SIGINT)) (all_pids ps) \<and>
    master_run es w1 = Some (Watching, w2) \<and> sent (ms w2) = sent (ms w1) \<and>
    second_passed now w2 = Some w3 \<and> sent (ms w3) = sent (ms w2) @ map (\<lambda>p. (p, SIGKILL)) ks \<and>
    length ks = length (all_pids ps) \<and> set (ended fs) \<subseteq> set ks \<and> set ks \<subseteq> set (all_pids ps) \<and>
    master_run fs w3 = Some (All_stopped, w4) \<and> exited (ms w4) \<and> sent (ms w4) = sent (ms w3)"
proof -
  let ?n = "length (all_pids ps)" and ?S = "set (all_pids ps)" and ?T = "unat (lasttime w) + 2000"
  define e b where "e = currtick w + WM_KILL_WORKER_TIMER_TIME" and "b = next_node w"
  obtain w1 where w1: "handle_signal seen SIGINT w = Some w1" "sent (ms w1) = sent (ms w) @ map (\<lambda>p. (p, SIGINT)) (all_pids ps)"
      "stopping_with ?n ?S (all_pids ps) ps (ms w1)" "wheel_ready w1" "lasttime w1 = lasttime w" "alarm_set w1 = alarm_set w"
      "due_in 2000 e b ?n w1"
    using stop_signal [OF clock(1-5) server] unfolding e_def b_def by blast
  let ?left = "filter (\<lambda>p. p \<notin> set (ended es)) (all_pids ps)"
  have "armed_since (lasttime w) e b ?n (clocks es @ []) w1" using w1(4-7) clock(6) times(1,2) by (simp add: armed_since_def)
  then obtain w2 ps2 where w2: "master_run es w1 = Some (Watching, w2)" "sent (ms w2) = sent (ms w1)"
      "armed_since (lasttime w) e b ?n [] w2" "stopping_with ?n ?S ?left ps2 (ms w2)"
    using armed.run_part [OF w1(3) _ evs] by blast
  have a: "wheel_ready w2" "due_in (?T - unat (lasttime w2)) e b ?n w2" "alarm_set w2" "unat (lasttime w2) < ?T" "lasttime w \<le> lasttime w2"
    using w2(3) by (simp_all add: armed_since_def)
  have le: "lasttime w2 \<le> now" using a(4) times(3) by (simp add: word_le_nat_alt)
  have u: "unat (now - lasttime w2) = unat now - unat (lasttime w2)" by (rule unat_sub [OF le])
  have d: "?T - unat (lasttime w2) \<le> unat (now - lasttime w2)" "unat (now - lasttime w2) < 2 ^ 31"
    using u times(3,4) a(5) by (simp_all add: word_le_nat_alt)
  obtain w3 ks where w3: "second_passed now w2 = Some w3" "ms w3 = (ms w2)\<lparr>sent := sent (ms w2) @ map (\<lambda>p. (p, SIGKILL)) ks\<rparr>"
      "length ks = ?n" "set ?left \<subseteq> set ks" "set ks \<subseteq> ?S" "tw_num w3 = 0"
    using second_kills [OF w2(4) a(1,2,3) le d] by blast
  have st: "stopping_with ?n ?S ?left ps2 (ms w3)"
    using w2(4) unfolding w3(2) stopping_sent .
  have fs: "set (ended fs) = set ?left" using rest(3) by auto
  have "fired (clocks fs) w3" using w3(6) by (simp add: fired_def)
  then obtain w4 where "master_run fs w3 = Some (All_stopped, w4)" "exited (ms w4)" "sent (ms w4) = sent (ms w3)"
    using fired.run_all [OF st _ rest(1,2) fs] by blast
  then show ?thesis using w1(1,2) w2(1,2) w3 fs by (intro exI [of _ w1] exI [of _ w2] exI [of _ w3] exI [of _ w4] exI [of _ ks]) simp
qed

text \<open>
  C25: starting with and without \<open>-d\<close>. Either way all processes are forked; but in daemon mode the alarm was set
  in the process that has gone. The master of a daemon gets no alarm, and when it stops nobody is killed, however
  long the processes take: it waits as long as one is left.
\<close>

theorem daemon_never_kills:
  assumes m: "table_ok (workers (ms w))" "worker_pids (ms w) = []" "array_rep (pidsToReload (ms w)) []" "array_rep (pid_array_tmp (ms w)) []"
    "array_cap (pidsToReload (ms w)) = 65536" "array_cap (pid_array_tmp (ms w)) = 65536" "status (ms w) = STATUS_STARTING"
    "forks (ms w) = map Parent qs @ fs" "length qs = sum_list (counts (workers (ms w)))" "length qs \<le> 65536" "\<forall>q \<in> set qs. 0 < q" "distinct qs"
    "\<not> exited (ms w)"
    and clock: "timer_inv w L" "nodes w = Map.empty" "tw_num w = 0" "interval w = 1" "remainder w = 0"
    and evs: "no_signals es" "distinct (ended es)" "set (ended es) \<subset> set qs"
  shows "\<exists>w1 w2 w3. wmWorker_runAll d (Child p) True (Child q) w = Some (Master, w1) \<and> forks (ms w1) = fs \<and> alarm_set w1 = (\<not> d) \<and>
    handle_signal seen SIGINT w1 = Some w2 \<and> sent (ms w2) = sent (ms w) @ map (\<lambda>p. (p, SIGINT)) qs \<and>
    (d \<longrightarrow> master_run es w2 = Some (Watching, w3) \<and> sent (ms w3) = sent (ms w2))"
proof -
  let ?ps = "zip (map fst (workers (ms w))) (cut (counts (workers (ms w))) qs)"
  define s where "s = (if d then q else self_pid (ms w))"
  obtain m1 m2 where m12: "initWorkerPids (ms w) = Some m1" "self_pid m1 = self_pid (ms w)" "forkWorkers (m1\<lparr>self_pid := s, masterPid := s\<rparr>) = Some (False, m2)"
      "serving m2 ?ps []" "forks m2 = fs" "sent m2 = sent (ms w)" "exited m2 = exited (ms w)"
    using server_start [OF m(1-12)] by blast
  have ap: "all_pids ?ps = qs" by (rule cut_pids [OF m(9)])
  define w1 where "w1 = w\<lparr>alarm_set := \<not> d, ms := m2\<lparr>status := STATUS_RUNNING\<rparr>\<rparr>"
  have "(if d then m1\<lparr>self_pid := q, masterPid := q\<rparr> else m1\<lparr>masterPid := self_pid m1\<rparr>) = m1\<lparr>self_pid := s, masterPid := s\<rparr>"
    using m12(2) by (cases m1) (simp add: s_def)
  then have run: "wmWorker_runAll d (Child p) True (Child q) w = Some (Master, w1)"
    using m12(1,3) by (cases d) (simp_all add: wmWorker_runAll_def daemonize_def daemon_pid_def w1_def)
  have sv: "serving (ms w1) ?ps []" "\<not> exited (ms w1)" "all_pids ?ps \<noteq> []"
    using m12(4,7) m(13) evs(3) ap by (auto simp: w1_def serving_def serving_list_def master_rep_def)
  have ck: "timer_inv w1 L" "nodes w1 = Map.empty" "tw_num w1 = 0" "interval w1 = 1" "remainder w1 = 0"
    using clock base_inv_cong [of w L w1] by (simp_all add: timer_inv_def w1_def)
  obtain w2 where w2: "handle_signal seen SIGINT w1 = Some w2" "sent (ms w2) = sent (ms w1) @ map (\<lambda>p. (p, SIGINT)) qs"
      "stopping_with (length qs) (set qs) qs ?ps (ms w2)" "alarm_set w2 = alarm_set w1"
    using stop_signal [OF ck sv] unfolding ap by blast
  have "\<exists>w3. d \<longrightarrow> master_run es w2 = Some (Watching, w3) \<and> sent (ms w3) = sent (ms w2)"
  proof (cases d)
    case True
    then have "no_alarm (clocks es @ []) w2" using w2(4) by (simp add: no_alarm_def w1_def)
    then show ?thesis using no_alarm.run_part [OF w2(3) _ evs] by blast
  qed simp
  then obtain w3 where w3: "d \<longrightarrow> master_run es w2 = Some (Watching, w3) \<and> sent (ms w3) = sent (ms w2)" by blast
  have "forks (ms w1) = fs" "alarm_set w1 = (\<not> d)" "sent (ms w1) = sent (ms w)" using m12 by (simp_all add: w1_def)
  then show ?thesis using run w2(1,2) w3 by (intro exI [of _ w1] exI [of _ w2] exI [of _ w3]) simp
qed

section \<open>Witnesses\<close>

text \<open>A master before and after it has started three processes, with the wheel \<open>workerman_base_init\<close> leaves.\<close>

definition master_boot :: "master \<Rightarrow> bool \<Rightarrow> master_world" where
  "master_boot m a = wmTimerWheel_init \<lparr>lnk = \<lparr>nxt = (\<lambda>_. NullA), prv = (\<lambda>_. NullA)\<rparr>, nodes = Map.empty, next_node = 0, lasttime = 0,
     currtick = 0, interval = 0, remainder = 0, tw_num = 0, ms = m, alarm_set = a\<rparr> 1 1000"

lemma master_boot_simps [simp]:
  "nodes (master_boot m a) = Map.empty" "lasttime (master_boot m a) = 1000" "interval (master_boot m a) = 1" "remainder (master_boot m a) = 0"
  "tw_num (master_boot m a) = 0" "ms (master_boot m a) = m" "alarm_set (master_boot m a) = a"
  by (simp_all add: master_boot_def wmTimerWheel_init_def)

lemma master_boot_inv: "\<exists>L. timer_inv (master_boot m a) L"
  unfolding master_boot_def by (intro exI, rule init_ok) simp

theorem stop_kills_witness:
  "\<exists>w1 w2 w3 w4 ks. handle_signal [] SIGINT (master_boot (running_server []) True) = Some w1 \<and>
     master_run [Second 2000, Ended 11, Second 2999] w1 = Some (Watching, w2) \<and> second_passed 3500 w2 = Some w3 \<and>
     sent (ms w3) = sent (ms w2) @ map (\<lambda>p. (p, SIGKILL)) ks \<and> {10, 20} \<subseteq> set ks \<and> length ks = 3 \<and>
     master_run [Ended 20, Second 4500, Ended 10] w3 = Some (All_stopped, w4) \<and> exited (ms w4)"
proof -
  let ?w = "master_boot (running_server []) True"
  obtain L where L: "timer_inv ?w L" using master_boot_inv by blast
  have sv: "serving (ms ?w) small_pids []" "\<not> exited (ms ?w)" "all_pids small_pids \<noteq> []"
    using running_server_serving by (simp_all add: running_server_simps)
  let ?es = "[Second 2000, Ended 11, Second 2999]" and ?fs = "[Ended 20, Second 4500, Ended 10]"
  have s: "set (all_pids small_pids) = {10, 11, 20}" "set (ended ?es) = {11}" "set (ended ?fs) = {20, 10}"
    by (simp_all add: running_server_simps(1))
  have "(10 :: int) \<in> {10, 11, 20}" "(10 :: int) \<notin> {11}" by simp_all
  then have "{11} \<subset> {10, 11, 20 :: int}" by blast
  moreover have "{20, 10} = {10, 11, 20 :: int} - {11}" by fastforce
  ultimately have ev: "no_signals ?es" "distinct (ended ?es)" "set (ended ?es) \<subset> set (all_pids small_pids)"
    "no_signals ?fs" "distinct (ended ?fs)" "set (ended ?fs) = set (all_pids small_pids) - set (ended ?es)"
    unfolding s by simp_all
  have ck: "nodes ?w = Map.empty" "tw_num ?w = 0" "interval ?w = 1" "remainder ?w = 0" "alarm_set ?w" by simp_all
  have ti: "sorted (lasttime ?w # clocks ?es)" "\<forall>c \<in> set (clocks ?es). unat c < unat (lasttime ?w) + 2000"
    "unat (lasttime ?w) + 2000 \<le> unat (3500 :: u64)" "unat (3500 :: u64) < unat (lasttime ?w) + 2 ^ 31"
    by simp_all
  obtain w1 w2 w3 w4 ks where w: "handle_signal [] SIGINT ?w = Some w1" "master_run ?es w1 = Some (Watching, w2)" "second_passed 3500 w2 = Some w3"
      "sent (ms w3) = sent (ms w2) @ map (\<lambda>p. (p, SIGKILL)) ks" "length ks = length (all_pids small_pids)" "set (ended ?fs) \<subseteq> set ks"
      "master_run ?fs w3 = Some (All_stopped, w4)" "exited (ms w4)"
    using stop_kills [OF sv L ck ev(1-3) ti ev(4-6), of "[]"] by blast
  have "{10, 20} \<subseteq> set ks" "length ks = 3" using w(5,6) by (simp_all add: running_server_simps(1))
  then show ?thesis using w by blast
qed

theorem daemon_never_kills_witness:
  "\<exists>w1 w2 w3. wmWorker_runAll True (Child 8) True (Child 7)
       (master_boot (small_server [] STATUS_STARTING [Parent 10, Parent 11, Parent 20]) False) = Some (Master, w1) \<and>
     handle_signal [] SIGINT w1 = Some w2 \<and> master_run [Ended 10, Second 5000, Second 90000] w2 = Some (Watching, w3) \<and>
     sent (ms w3) = [(10, SIGINT), (11, SIGINT), (20, SIGINT)]"
proof -
  let ?m = "small_server [] STATUS_STARTING [Parent 10, Parent 11, Parent 20]"
  let ?w = "master_boot ?m False"
  obtain L where L: "timer_inv ?w L" using master_boot_inv by blast
  have ms: "ms ?w = ?m" by simp
  have p: "set (ended [Ended 10, Second 5000, Second 90000]) \<subset> set [10, 11, 20]" by auto
  have "\<exists>w1 w2 w3. wmWorker_runAll True (Child 8) True (Child 7) ?w = Some (Master, w1) \<and> forks (ms w1) = [] \<and> alarm_set w1 = (\<not> True) \<and>
    handle_signal [] SIGINT w1 = Some w2 \<and> sent (ms w2) = sent (ms ?w) @ map (\<lambda>p. (p, SIGINT)) [10, 11, 20] \<and>
    (True \<longrightarrow> master_run [Ended 10, Second 5000, Second 90000] w2 = Some (Watching, w3) \<and> sent (ms w3) = sent (ms w2))"
    by (rule daemon_never_kills [OF _ _ _ _ _ _ _ _ _ _ _ _ _ L, where qs = "[10, 11, 20]"], unfold ms)
      (use p in \<open>simp_all add: small_server_def small_array_rep table_ok_def counts_def small_worker_def\<close>)
  then show ?thesis by (auto simp: small_server_def)
qed

end
