(* ===== verification/Wm_Coroutine_Run.thy ===== *)
theory Wm_Coroutine_Run
  imports Wm_Coroutine
begin

text \<open>
  Runs of the scheduler: every sequence of the operations a PHP program can make, in any
  interleaving of coroutines. The program is arbitrary; between two operations it may change the
  registers of the engine, but stays on its own stack.
\<close>

section \<open>Steps\<close>

datatype co_op =
    Create "vm_regs \<Rightarrow> nat \<times> nat" bool
  | Yield
  | Resume u64
  | Defer nat
  | SetCallback u64 nat nat
  | Work vm_regs
  | RunDefer bool
  | Exit

definition co_do :: "co_op \<Rightarrow> 'z sched_scheme \<Rightarrow> 'z sched_scheme option" where
  "co_do x s =
    (case x of
       Create pf callable \<Rightarrow> map_option snd (wmCoroutine_create pf callable s)
     | Yield \<Rightarrow> wmCoroutine_yield s
     | Resume cid \<Rightarrow> map_option snd (php_resume s cid)
     | Defer n \<Rightarrow> wmCoroutine_defer s n
     | SetCallback cid f d \<Rightarrow> wmCoroutine_set_callback s cid f d
     | Work g \<Rightarrow> Some (s\<lparr>EG := g\<rparr>)
     | RunDefer ok \<Rightarrow> map_option snd (main_func_defer (\<lambda>_. ok) s)
     | Exit \<Rightarrow> main_func_exit s)"

text \<open>
  When an operation can happen: a coroutine ends after its deferred functions have run. Outside
  these conditions the code is undefined or ends the process: creating a coroutine with something that is
  not a function (\<open>wmError\<close>), yielding or deferring when no task is current, yielding from the main task, and
  a coroutine that resumes itself (a failed \<open>assert\<close>).
\<close>

definition in_task :: "'z sched_scheme \<Rightarrow> bool" where
  "in_task s \<longleftrightarrow> (case current_task s of Some (Task _) \<Rightarrow> True | _ \<Rightarrow> False)"

definition can_do :: "co_op \<Rightarrow> 'z sched_scheme \<Rightarrow> bool" where
  "can_do x s \<longleftrightarrow>
    (case x of
       Create pf callable \<Rightarrow> callable
     | Yield \<Rightarrow> in_task s
     | Resume cid \<Rightarrow> (case wmCoroutine_get_by_cid s cid of None \<Rightarrow> True | Some r \<Rightarrow> current_task s \<noteq> Some r)
     | Defer n \<Rightarrow> current_task s \<noteq> None
     | Work g \<Rightarrow> vm_stack g = vm_stack (EG s)
     | RunDefer ok \<Rightarrow> in_task s
     | Exit \<Rightarrow> (case current_task s of Some (Task t) \<Rightarrow> map_option defer_tasks (tasks s t) = Some None | _ \<Rightarrow> False)
     | _ \<Rightarrow> True)"

text \<open>The start of a request: the engine runs on its first stack, no coroutine exists.\<close>

definition co_start :: "vm_regs \<Rightarrow> sched" where
  "co_start g = wmCoroutine_init
     \<lparr>last_cid = 0, total_num = 0, coroutines = [], user_yield_coros = [],
      main_task = blank_task 0, current_task = None, tasks = (\<lambda>_. None), next_task = 0, EG = g,
      vpages = {vm_stack g}, next_page = vm_stack g + 1, c_calls = []\<rparr>"

inductive co_reach :: "sched \<Rightarrow> bool" where
  start: "co_reach (co_start g)"
| step: "co_reach s \<Longrightarrow> can_do x s \<Longrightarrow> co_do x s = Some s' \<Longrightarrow> co_reach s'"

section \<open>The deferred functions of a task\<close>

definition queued :: "wmCoroutine \<Rightarrow> nat list \<Rightarrow> bool" where
  "queued c xs \<longleftrightarrow> (case defer_tasks c of None \<Rightarrow> xs = [] | Some d \<Rightarrow> stack_of d xs)"

definition defers_ok :: "'z sched_scheme \<Rightarrow> bool" where
  "defers_ok s \<longleftrightarrow> (\<forall>r c. task_at s r = Some c \<longrightarrow> (\<exists>xs. queued c xs))"

lemma stack_create_of: "\<exists>d. wmStack_create (\<lambda>_. True) = Some d \<and> stack_of d []"
  using create_rep [of "\<lambda>_. True"] by (simp add: stack_of_def)

lemma defer_ok:
  assumes "current_task s = Some r" "task_at s r = Some c" "queued c xs"
  shows "\<exists>d. wmCoroutine_defer s x = Some (set_task s r (c\<lparr>defer_tasks := Some d\<rparr>)) \<and> stack_of d (x # xs)"
proof (cases "defer_tasks c")
  case None
  then obtain d where d: "wmStack_create (\<lambda>_. True) = Some d" "stack_of d xs"
    using stack_create_of assms(3) by (auto simp: queued_def)
  then show ?thesis using None assms(1,2) ls.push_law [OF d(2), of x] by (auto simp: wmCoroutine_defer_def)
next
  case (Some d)
  then have "stack_of d xs" using assms(3) by (simp add: queued_def)
  then show ?thesis using Some assms(1,2) ls.push_law [of d xs x] by (auto simp: wmCoroutine_defer_def)
qed

lemma run_defer_ok:
  assumes "current_task s = Some (Task t)" "tasks s t = Some c" "queued c xs"
  shows "case xs of
      [] \<Rightarrow> main_func_defer ok s = Some (Loop_over, s\<lparr>tasks := (tasks s)(t \<mapsto> c\<lparr>defer_tasks := None\<rparr>)\<rparr>)
    | x # ys \<Rightarrow> \<exists>d. stack_of d ys \<and> main_func_defer ok s =
        (let s' = s\<lparr>tasks := (tasks s)(t \<mapsto> c\<lparr>defer_tasks := Some d\<rparr>)\<rparr> in
         if ok x then Some (Run_deferred x, s') else map_option (Pair (Call_failed x)) (main_func_fail s'))"
proof (cases "defer_tasks c")
  case None
  then have "c\<lparr>defer_tasks := None\<rparr> = c" by simp
  then have "s\<lparr>tasks := (tasks s)(t \<mapsto> c\<lparr>defer_tasks := None\<rparr>)\<rparr> = s" using assms(2) by (simp add: fun_upd_idem)
  moreover have "xs = []" using assms(3) None by (simp add: queued_def)
  ultimately show ?thesis using assms(1,2) None by (auto simp: main_func_defer_def)
next
  case (Some d)
  then have d: "stack_of d xs" using assms(3) by (simp add: queued_def)
  show ?thesis
  proof (cases xs)
    case Nil
    then show ?thesis using assms(1,2) Some ls.len_law [OF d] by (auto simp: main_func_defer_def)
  next
    case (Cons x ys)
    obtain e where "wmStack_pop d = Some (Some x, e)" "stack_of e ys"
      using ls.pop_law [of d x ys] d Cons by blast
    then show ?thesis using assms(1,2) Some ls.len_law [OF d] Cons by (auto simp: main_func_defer_def Let_def)
  qed
qed

lemma defers_okI:
  assumes "defers_ok s" "\<And>r c. task_at s' r = Some c \<Longrightarrow> (\<exists>c0. task_at s r = Some c0 \<and> defer_tasks c = defer_tasks c0) \<or> (\<exists>xs. queued c xs)"
  shows "defers_ok s'"
  using assms unfolding defers_ok_def queued_def by metis

section \<open>One step\<close>

text \<open>
  \<open>outcome x s ch s' ch'\<close>: after the step the invariant holds, and a coroutine that waits in the
  table of yielded ones is left as it is unless the step resumes it.
\<close>

definition same_task :: "wmCoroutine option \<Rightarrow> wmCoroutine option \<Rightarrow> bool" where
  "same_task c c' \<longleftrightarrow> (\<forall>e. c = Some e \<longrightarrow> (\<exists>e'. c' = Some e' \<and> vm e' = vm e \<and> co_cid e' = co_cid e))"

definition outcome :: "co_op \<Rightarrow> 'z sched_scheme \<Rightarrow> nat list \<Rightarrow> 'z sched_scheme \<Rightarrow> nat list \<Rightarrow> bool" where
  "outcome x s ch s' ch' \<longleftrightarrow> sched_inv s' ch' \<and> defers_ok s' \<and>
     (\<forall>t. t \<notin> set ch \<longrightarrow> tasks s t \<noteq> None \<longrightarrow> (\<forall>cid. x = Resume cid \<longrightarrow> wmCoroutine_get_by_cid s cid \<noteq> Some (Task t)) \<longrightarrow>
        t \<notin> set ch' \<and> same_task (tasks s t) (tasks s' t))"

lemma same_task_refl [simp]: "same_task c c" by (simp add: same_task_def)

lemma outcome_same: "sched_inv s ch \<Longrightarrow> defers_ok s \<Longrightarrow> outcome x s ch s ch"
  by (simp add: outcome_def)

lemma outcomeI:
  assumes "sched_inv s' ch'" "defers_ok s'"
    "\<And>t. t \<notin> set ch \<Longrightarrow> tasks s t \<noteq> None \<Longrightarrow> \<forall>cid. x = Resume cid \<longrightarrow> wmCoroutine_get_by_cid s cid \<noteq> Some (Task t) \<Longrightarrow>
       t \<notin> set ch' \<and> same_task (tasks s t) (tasks s' t)"
  shows "outcome x s ch s' ch'"
  using assms by (simp add: outcome_def)

lemma in_taskE:
  assumes "sched_inv s ch" "in_task s"
  obtains t c ts where "current_task s = Some (Task t)" "tasks s t = Some c" "ch = t # ts"
  using assms by (cases rule: active_cases) (auto simp: in_task_def)

lemma step_yield:
  assumes "sched_inv s ch" "defers_ok s" "in_task s"
  shows "\<exists>s'. wmCoroutine_yield s = Some s' \<and> outcome Yield s ch s' (tl ch)"
proof -
  obtain t c ts where t: "current_task s = Some (Task t)" "tasks s t = Some c" "ch = t # ts"
    using in_taskE [OF assms(1,3)] .
  obtain s' where s': "wmCoroutine_yield s = Some s'" "sched_inv s' ts" "tasks s' = (tasks s)(t \<mapsto> c\<lparr>vm := EG s\<rparr>)"
      "main_task s' = main_task s"
    using yield_ok [OF assms(1) t(1,2)] t(3) by auto
  have "defers_ok s'"
    using assms(2) t(2) s'(3,4) by (auto intro!: defers_okI [OF assms(2)] simp: task_at_def split: task_ref.splits if_splits)
  then have "outcome Yield s ch s' ts" using s'(2,3) t(3) by (intro outcomeI) auto
  then show ?thesis using s'(1) t(3) by auto
qed

lemma step_exit:
  assumes "sched_inv s ch" "defers_ok s" "current_task s = Some (Task t)" "tasks s t = Some c"
  shows "\<exists>s'. main_func_exit s = Some s' \<and> outcome Exit s ch s' (tl ch)"
proof -
  obtain s' ts where s': "ch = t # ts" "main_func_exit s = Some s'" "sched_inv s' ts" "tasks s' = (tasks s)(t := None)"
      "main_task s' = main_task s"
    using exit_ok [OF assms(1,3,4)] by auto
  have "defers_ok s'"
    using s'(4,5) by (auto intro!: defers_okI [OF assms(2)] simp: task_at_def split: task_ref.splits if_splits)
  then have "outcome Exit s ch s' ts" using s'(1,3,4) by (intro outcomeI) auto
  then show ?thesis using s'(1,2) by auto
qed

text \<open>The end of a coroutine whose deferred function cannot be called is that of one without a callback.\<close>

lemma fail_exit:
  assumes "current_task s = Some (Task t)" "tasks s t = Some c"
  shows "main_func_fail s = main_func_exit (s\<lparr>tasks := (tasks s)(t \<mapsto> c\<lparr>c_defer := None\<rparr>)\<rparr>)"
  using assms
  by (cases s) (simp add: main_func_fail_def main_func_exit_def close_coro_def Let_def vm_stack_destroy_def restore_vm_stack_def
      task_at_def get_origin_task_def option.map_comp comp_def split: option.split task_ref.split)

lemma fail_ok:
  assumes "sched_inv s ch" "current_task s = Some (Task t)" "tasks s t = Some c"
  shows "\<exists>s' ts q d. ch = t # ts \<and> main_func_fail s = Some s' \<and> sched_inv s' ts \<and> origin c = Some q \<and> task_at s q = Some d \<and>
    current_task s' = Some q \<and> EG s' = vm d \<and> tasks s' = (tasks s)(t := None) \<and> main_task s' = main_task s \<and>
    total_num s' = total_num s - 1 \<and> vpages s' = vpages s - {vm_stack (EG s)} \<and>
    WM_HASH_GET (coroutines s') (cid_key (co_cid c)) = None \<and> c_calls s' = c_calls s"
proof -
  let ?s = "set_task s (Task t) (c\<lparr>c_defer := None\<rparr>)"
  have i: "sched_inv ?s ch" by (rule inv_set_task [OF assms(1)]) (use assms(3) in \<open>simp_all add: task_at_def\<close>)
  have t: "current_task ?s = Some (Task t)" "tasks ?s t = Some (c\<lparr>c_defer := None\<rparr>)" using assms(2) by (simp_all add: set_task_def)
  have e: "main_func_fail s = main_func_exit ?s" using fail_exit [OF assms(2,3)] by (simp add: set_task_def)
  obtain ts s' q d where s': "ch = t # ts" "main_func_exit ?s = Some s'" "sched_inv s' ts" "origin c = Some q" "task_at ?s q = Some d"
      "current_task s' = Some q" "EG s' = vm d" "tasks s' = (tasks s)(t := None)" "main_task s' = main_task s"
      "total_num s' = total_num s - 1" "vpages s' = vpages s - {vm_stack (EG s)}" "WM_HASH_GET (coroutines s') (cid_key (co_cid c)) = None"
      "c_calls s' = c_calls s"
    using exit_ok [OF i t] by (auto simp: set_task_def)
  have "q \<noteq> Task t"
  proof
    assume "q = Task t"
    then have "t \<in> set ts" using s'(3,6,8) by (cases rule: active_cases [OF s'(3)]) auto
    then show False using sched_invD(1) [OF assms(1)] s'(1) by (auto simp: active_def)
  qed
  then have "task_at s q = Some d" using s'(5) by (auto simp: task_at_def set_task_def split: task_ref.splits)
  then show ?thesis using s' e by (intro exI [of _ s'] exI [of _ ts] exI [of _ q] exI [of _ d]) simp
qed

text \<open>Two tasks change at a switch into a coroutine: the one that is left and the one that is entered.\<close>

lemma defers_ok_two:
  assumes "defers_ok s" "task_at s q = Some d" "task_at s' q = Some (d\<lparr>vm := g\<rparr>)"
    "task_at s' r = Some c" "\<exists>xs. queued c xs" "\<forall>u. u \<noteq> r \<longrightarrow> u \<noteq> q \<longrightarrow> task_at s' u = task_at s u"
  shows "defers_ok s'"
proof (rule defers_okI [OF assms(1)])
  fix u e assume e: "task_at s' u = Some e"
  show "(\<exists>c0. task_at s u = Some c0 \<and> defer_tasks e = defer_tasks c0) \<or> (\<exists>xs. queued e xs)"
  proof (cases "u = q")
    case True
    then show ?thesis using e assms(2,3) by auto
  next
    case False
    then show ?thesis using e assms(4-6) by (cases "u = r") auto
  qed
qed

lemma same_task_other:
  assumes "task_at s q = Some d" "task_at s' q = Some (d\<lparr>vm := g\<rparr>)" "Task t \<noteq> q" "Task t \<noteq> r"
    "\<forall>u. u \<noteq> r \<longrightarrow> u \<noteq> q \<longrightarrow> task_at s' u = task_at s u"
  shows "same_task (tasks s t) (tasks s' t)"
proof -
  have "task_at s' (Task t) = task_at s (Task t)" using assms(3-5) by blast
  then show ?thesis by (simp add: task_at_def)
qed

lemma step_create:
  assumes inv: "sched_inv s ch" and df: "defers_ok s"
  shows "\<exists>s' ch' cid. wmCoroutine_create pf True s = Some (cid, s') \<and> outcome (Create pf True) s ch s' ch'"
proof -
  consider (full) "WM_HASH_GET (coroutines s) (cid_key (new_cid (last_cid s))) \<noteq> None"
    | (new) "WM_HASH_GET (coroutines s) (cid_key (new_cid (last_cid s))) = None" by blast
  then show ?thesis
  proof cases
    case full
    let ?s = "s\<lparr>next_task := next_task s + 1, last_cid := new_cid (last_cid s)\<rparr>"
    have tab: "table_ok (coroutines s)" using sched_invD(2) [OF inv] tabsD(1) unfolding tables_ok_def by blast
    have "task_at ?s = task_at s" by (simp add: task_at_def fun_eq_iff split: task_ref.split)
    then have "defers_ok ?s" using df by (simp add: defers_ok_def)
    moreover have "sched_inv ?s ch" by (rule inv_frame [OF inv]) simp_all
    ultimately have "outcome (Create pf True) s ch ?s ch" by (simp add: outcome_def)
    then show ?thesis using create_refused [OF full tab] by auto
  next
    case new
    let ?t = "next_task s"
    obtain s' d c where s': "task_at s (cur s) = Some d" "wmCoroutine_create pf True s = Some (new_cid (last_cid s), s')"
        "sched_inv s' (?t # ch)" "tasks s ?t = None" "tasks s' ?t = Some c" "defer_tasks c = None"
        "task_at s' (cur s) = Some (d\<lparr>vm := EG s\<rparr>)"
        "\<forall>r. r \<noteq> Task ?t \<longrightarrow> r \<noteq> cur s \<longrightarrow> task_at s' r = task_at s r"
      using create_ok [OF inv new refl, of pf] by blast
    have tt: "task_at s' (Task ?t) = Some c" using s'(5) by (simp add: task_at_def)
    have "queued c []" using s'(6) by (simp add: queued_def)
    then have "defers_ok s'" using defers_ok_two [OF df s'(1,7) tt _ s'(8)] by blast
    moreover have "t \<notin> set (?t # ch) \<and> same_task (tasks s t) (tasks s' t)" if "t \<notin> set ch" "tasks s t \<noteq> None" for t
    proof -
      have "cur s \<noteq> Task t" using cur_cases [OF inv] that(1) by (metis list.set_intros(1) task_ref.distinct(1) task_ref.inject)
      moreover have "t \<noteq> ?t" using that(2) s'(4) by auto
      ultimately have "same_task (tasks s t) (tasks s' t)" by (intro same_task_other [OF s'(1,7) _ _ s'(8)]) auto
      then show ?thesis using that(1) \<open>t \<noteq> ?t\<close> by simp
    qed
    ultimately have "outcome (Create pf True) s ch s' (?t # ch)" using s'(3) by (intro outcomeI) auto
    then show ?thesis using s'(2) by auto
  qed
qed

lemma by_cid:
  assumes "sched_inv s ch" "wmCoroutine_get_by_cid s cid = Some r"
  obtains t c where "r = Task t" "tasks s t = Some c"
proof -
  have tab: "tabs (coroutines s) (user_yield_coros s) (key s) (set ch)"
    using sched_invD(2) [OF assms(1)] by (simp add: tables_ok_def)
  have g: "WM_HASH_GET (coroutines s) (cid_key cid) = Some r" using assms(2) by (simp add: wmCoroutine_get_by_cid_def)
  then obtain t where t: "r = Task t" using tabsD(3) [OF tab, of "cid_key cid"] by (cases r) auto
  then have "key s t = Some (cid_key cid)" using tabsD(5) [OF tab] g by blast
  then obtain c where "tasks s t = Some c" by (auto simp: key_Some)
  then show ?thesis using that t by blast
qed

lemma step_resume:
  assumes inv: "sched_inv s ch" and df: "defers_ok s" and can: "can_do (Resume cid) s"
  shows "\<exists>s' ch' b. php_resume s cid = Some (b, s') \<and> outcome (Resume cid) s ch s' ch'"
proof (cases "wmCoroutine_get_by_cid s cid")
  case None
  then show ?thesis using outcome_same [OF inv df] by (auto simp: php_resume_def)
next
  case (Some r)
  then obtain t c where t: "r = Task t" "tasks s t = Some c" using by_cid [OF inv] by blast
  have nc: "current_task s \<noteq> Some (Task t)" using can Some t(1) by (simp add: can_do_def)
  have ph: "php_resume s cid = wmCoroutine_resume s (Task t)" using Some t(1) by (simp add: php_resume_def)
  show ?thesis
  proof (cases "t \<in> set ch")
    case True
    then show ?thesis using resume_refused [OF inv True nc] outcome_same [OF inv df] ph by auto
  next
    case False
    obtain s' d where s': "task_at s (cur s) = Some d" "wmCoroutine_resume s (Task t) = Some (True, s')" "sched_inv s' (t # ch)"
        "tasks s' t = Some (c\<lparr>origin := Some (cur s)\<rparr>)" "task_at s' (cur s) = Some (d\<lparr>vm := EG s\<rparr>)"
        "\<forall>r. r \<noteq> Task t \<longrightarrow> r \<noteq> cur s \<longrightarrow> task_at s' r = task_at s r"
      using resume_ok [OF inv False t(2)] by blast
    have tt: "task_at s' (Task t) = Some (c\<lparr>origin := Some (cur s)\<rparr>)" using s'(4) by (simp add: task_at_def)
    have "\<exists>xs. queued (c\<lparr>origin := Some (cur s)\<rparr>) xs"
      using df t(2) by (auto simp: defers_ok_def queued_def task_at_def dest: spec [of _ "Task t"])
    then have "defers_ok s'" using defers_ok_two [OF df s'(1,5) tt _ s'(6)] by blast
    moreover have "u \<notin> set (t # ch) \<and> same_task (tasks s u) (tasks s' u)"
      if "u \<notin> set ch" "\<forall>k. Resume cid = Resume k \<longrightarrow> wmCoroutine_get_by_cid s k \<noteq> Some (Task u)" for u
    proof -
      have "u \<noteq> t" using that(2) Some t(1) by auto
      moreover have "cur s \<noteq> Task u" using cur_cases [OF inv] that(1) by (metis list.set_intros(1) task_ref.distinct(1) task_ref.inject)
      ultimately have "same_task (tasks s u) (tasks s' u)" by (intro same_task_other [OF s'(1,5) _ _ s'(6)]) auto
      then show ?thesis using that(1) \<open>u \<noteq> t\<close> by simp
    qed
    ultimately have "outcome (Resume cid) s ch s' (t # ch)" using s'(3) by (intro outcomeI) auto
    then show ?thesis using s'(2) ph by auto
  qed
qed

text \<open>The operations that touch one task below the switch.\<close>

lemma step_set_task:
  assumes inv: "sched_inv s ch" and df: "defers_ok s" and c: "task_at s r = Some c"
    and same: "co_cid c' = co_cid c" "origin c' = origin c" "vm c' = vm c" "\<exists>xs. queued c' xs"
  shows "outcome x s ch (set_task s r c') ch"
proof (rule outcomeI)
  show "sched_inv (set_task s r c') ch" by (rule inv_set_task [OF inv c same(1-3)])
  show "defers_ok (set_task s r c')"
    using same(4) by (auto intro!: defers_okI [OF df] simp: task_at_set split: if_splits)
  fix t assume "t \<notin> set ch"
  have "same_task (tasks s t) (tasks (set_task s r c') t)"
    using c same(1,3) by (auto simp: same_task_def set_task_simps task_at_def split: task_ref.splits)
  then show "t \<notin> set ch \<and> same_task (tasks s t) (tasks (set_task s r c') t)" using \<open>t \<notin> set ch\<close> by simp
qed

lemma current_at:
  assumes "sched_inv s ch" "current_task s = Some r"
  obtains c where "task_at s r = Some c"
  using cur_cases [OF assms(1)] assms(2) by (auto simp: cur_def)

lemma step_defer:
  assumes inv: "sched_inv s ch" and df: "defers_ok s" and cur: "current_task s \<noteq> None"
  shows "\<exists>s'. wmCoroutine_defer s n = Some s' \<and> outcome (Defer n) s ch s' ch"
proof -
  obtain r where r: "current_task s = Some r" using cur by blast
  obtain c where c: "task_at s r = Some c" using current_at [OF inv r] .
  then obtain xs where "queued c xs" using df by (auto simp: defers_ok_def)
  then obtain d where d: "wmCoroutine_defer s n = Some (set_task s r (c\<lparr>defer_tasks := Some d\<rparr>))" "stack_of d (n # xs)"
    using defer_ok [OF r c] by blast
  have "outcome (Defer n) s ch (set_task s r (c\<lparr>defer_tasks := Some d\<rparr>)) ch"
    using d(2) by (intro step_set_task [OF inv df c]) (auto simp: queued_def)
  then show ?thesis using d(1) by blast
qed

lemma step_run_defer:
  assumes inv: "sched_inv s ch" and df: "defers_ok s" and it: "in_task s"
  shows "\<exists>s' x ch'. main_func_defer ok s = Some (x, s') \<and> outcome (RunDefer b) s ch s' ch'"
proof -
  obtain t c ts where t: "current_task s = Some (Task t)" "tasks s t = Some c" "ch = t # ts"
    using in_taskE [OF inv it] .
  have c: "task_at s (Task t) = Some c" using t(2) by (simp add: task_at_def)
  then obtain xs where q: "queued c xs" using df by (auto simp: defers_ok_def)
  have upd: "outcome (RunDefer b) s ch (s\<lparr>tasks := (tasks s)(t \<mapsto> c\<lparr>defer_tasks := d\<rparr>)\<rparr>) ch" if "queued (c\<lparr>defer_tasks := d\<rparr>) ys" for d ys
    using step_set_task [OF inv df c, of "c\<lparr>defer_tasks := d\<rparr>" "RunDefer b"] that by (auto simp: set_task_def)
  show ?thesis
  proof (cases xs)
    case Nil
    then have "main_func_defer ok s = Some (Loop_over, s\<lparr>tasks := (tasks s)(t \<mapsto> c\<lparr>defer_tasks := None\<rparr>)\<rparr>)"
      using run_defer_ok [OF t(1,2) q] by simp
    then show ?thesis using upd [of None "[]"] by (auto simp: queued_def)
  next
    case (Cons x ys)
    then obtain d where d: "stack_of d ys" "main_func_defer ok s =
        (let s' = s\<lparr>tasks := (tasks s)(t \<mapsto> c\<lparr>defer_tasks := Some d\<rparr>)\<rparr> in
         if ok x then Some (Run_deferred x, s') else map_option (Pair (Call_failed x)) (main_func_fail s'))"
      using run_defer_ok [OF t(1,2) q, of ok] by auto
    define s1 where "s1 = s\<lparr>tasks := (tasks s)(t \<mapsto> c\<lparr>defer_tasks := Some d\<rparr>)\<rparr>"
    have o: "outcome (RunDefer b) s ch s1 ch" using upd [of "Some d" ys] d(1) by (simp add: s1_def queued_def)
    show ?thesis
    proof (cases "ok x")
      case True
      then show ?thesis using d(2) o by (auto simp: s1_def)
    next
      case False
      have i1: "sched_inv s1 ch" "defers_ok s1" using o by (simp_all add: outcome_def)
      have t1: "current_task s1 = Some (Task t)" "tasks s1 t = Some (c\<lparr>defer_tasks := Some d\<rparr>)" using t(1) by (simp_all add: s1_def)
      obtain s2 where s2: "main_func_fail s1 = Some s2" "sched_inv s2 ts" "tasks s2 = (tasks s1)(t := None)" "main_task s2 = main_task s1"
        using fail_ok [OF i1(1) t1] t(3) by auto
      have "defers_ok s2"
        using s2(3,4) by (auto intro!: defers_okI [OF i1(2)] simp: task_at_def split: task_ref.splits if_splits)
      then have "outcome (RunDefer b) s ch s2 ts" using s2(2,3) t(3) by (intro outcomeI) (auto simp: s1_def)
      then show ?thesis using d(2) False s2(1) by (auto simp: s1_def)
    qed
  qed
qed

lemma step_set_callback:
  assumes inv: "sched_inv s ch" and df: "defers_ok s"
  shows "\<exists>s'. wmCoroutine_set_callback s cid f d = Some s' \<and> outcome (SetCallback cid f d) s ch s' ch"
proof (cases "wmCoroutine_get_by_cid s cid")
  case None
  let ?s = "s\<lparr>c_calls := c_calls s @ [(f, d)]\<rparr>"
  have "task_at ?s = task_at s" by (simp add: task_at_def fun_eq_iff split: task_ref.split)
  then have "defers_ok ?s" using df by (simp add: defers_ok_def)
  moreover have "sched_inv ?s ch" by (rule inv_frame [OF inv]) simp_all
  ultimately show ?thesis using None by (simp add: outcome_def wmCoroutine_set_callback_def)
next
  case (Some r)
  obtain t c where t: "r = Task t" "tasks s t = Some c" using by_cid [OF inv Some] .
  have c: "task_at s r = Some c" using t by (simp add: task_at_def)
  have "\<exists>xs. queued (c\<lparr>c_defer := Some (f, d)\<rparr>) xs" using df c by (auto simp: defers_ok_def queued_def)
  then have "outcome (SetCallback cid f d) s ch (set_task s r (c\<lparr>c_defer := Some (f, d)\<rparr>)) ch"
    by (intro step_set_task [OF inv df c]) auto
  then show ?thesis using Some c by (auto simp: wmCoroutine_set_callback_def)
qed

lemma step_work:
  assumes inv: "sched_inv s ch" and df: "defers_ok s" and "vm_stack g = vm_stack (EG s)"
  shows "outcome (Work g) s ch (s\<lparr>EG := g\<rparr>) ch"
proof -
  have "task_at (s\<lparr>EG := g\<rparr>) = task_at s" by (simp add: task_at_def fun_eq_iff split: task_ref.split)
  then have "defers_ok (s\<lparr>EG := g\<rparr>)" using df by (simp add: defers_ok_def)
  moreover have "sched_inv (s\<lparr>EG := g\<rparr>) ch" by (rule inv_frame [OF inv]) (simp_all add: assms(3))
  ultimately show ?thesis by (simp add: outcome_def)
qed

lemma step_ok:
  assumes inv: "sched_inv s ch" and df: "defers_ok s" and can: "can_do x s"
  shows "\<exists>s' ch'. co_do x s = Some s' \<and> outcome x s ch s' ch'"
proof (cases x)
  case (Create pf callable)
  then show ?thesis using step_create [OF inv df, of pf] can by (auto simp: co_do_def can_do_def)
next
  case Yield
  then show ?thesis using step_yield [OF inv df] can by (auto simp: co_do_def can_do_def)
next
  case (Resume cid)
  then show ?thesis using step_resume [OF inv df] can by (fastforce simp: co_do_def)
next
  case (Defer n)
  then show ?thesis using step_defer [OF inv df, of n] can by (auto simp: co_do_def can_do_def)
next
  case (SetCallback cid f d)
  then show ?thesis using step_set_callback [OF inv df, of cid f d] by (auto simp: co_do_def)
next
  case (Work g)
  then show ?thesis using step_work [OF inv df, of g] can by (auto simp: co_do_def can_do_def)
next
  case (RunDefer b)
  then obtain s' y ch' where "main_func_defer (\<lambda>_. b) s = Some (y, s')" "outcome x s ch s' ch'"
    using step_run_defer [OF inv df, of "\<lambda>_. b" b] can by (auto simp: can_do_def)
  then show ?thesis using RunDefer by (auto simp: co_do_def)
next
  case Exit
  then obtain t c where "current_task s = Some (Task t)" "tasks s t = Some c"
    using can by (auto simp: can_do_def split: option.splits task_ref.splits)
  then show ?thesis using step_exit [OF inv df, of t c] Exit by (auto simp: co_do_def)
qed

lemma start_ok: "sched_inv (co_start g) [] \<and> defers_ok (co_start g)"
  by (auto simp: sched_inv_def co_start_def wmCoroutine_init_def active_def tables_ok_def tabs_def key_def pages_ok_def live_def
      page_of_def defers_ok_def task_at_def blank_task_def queued_def split: task_ref.splits)

lemma reach_inv: "co_reach s \<Longrightarrow> \<exists>ch. sched_inv s ch \<and> defers_ok s"
proof (induction rule: co_reach.induct)
  case (start g)
  then show ?case using start_ok by blast
next
  case (step s x s')
  then obtain ch where "sched_inv s ch" "defers_ok s" by blast
  then show ?case using step_ok [OF _ _ step.hyps(2)] step.hyps(3) by (fastforce simp: outcome_def)
qed

section \<open>The properties\<close>

text \<open>A reachable state in which the first coroutine runs, for the witnesses.\<close>

definition first_regs :: vm_regs where
  "first_regs = \<lparr>vm_stack_top = 16, vm_stack_end = 256, vm_stack = 1, vm_stack_page_size = 256, execute_data = Some 5\<rparr>"

lemma first_coroutine:
  "\<exists>s c. co_reach s \<and> wmCoroutine_create (\<lambda>g. (vm_stack_top g + 8, 9)) True (co_start first_regs) = Some (1, s) \<and>
     current_task s = Some (Task 0) \<and> tasks s 0 = Some c \<and> co_cid c = 1 \<and> defer_tasks c = None \<and> c_defer c = None \<and>
     origin c = Some Main"
proof -
  have n: "new_cid (last_cid (co_start first_regs)) = 1" "next_task (co_start first_regs) = 0" "cur (co_start first_regs) = Main"
    by (simp_all add: new_cid_def co_start_def wmCoroutine_init_def cur_def)
  have "WM_HASH_GET (coroutines (co_start first_regs)) (cid_key 1) = None"
    by (simp add: co_start_def wmCoroutine_init_def)
  then obtain s c where s: "wmCoroutine_create (\<lambda>g. (vm_stack_top g + 8, 9)) True (co_start first_regs) = Some (1, s)"
      "current_task s = Some (Task 0)" "tasks s 0 = Some c" "co_cid c = 1" "defer_tasks c = None" "c_defer c = None"
      "origin c = Some Main"
    using create_ok [OF conjunct1 [OF start_ok], of first_regs 1 "\<lambda>g. (vm_stack_top g + 8, 9)"] n by auto
  have "co_do (Create (\<lambda>g. (vm_stack_top g + 8, 9)) True) (co_start first_regs) = Some s" using s(1) by (simp add: co_do_def)
  then have "co_reach s" by (intro co_reach.step [OF co_reach.start]) (auto simp: can_do_def)
  then show ?thesis using s by blast
qed

text \<open>
  C3: in every state a program can reach, each operation is defined that the program makes under the conditions
  of \<open>can_do\<close> (it creates coroutines with functions only, yields and defers in a coroutine, and none resumes
  itself): no freed or null task is followed, no stack page is freed twice. Each operation that breaks one of
  the conditions is covered by a theorem of its own below or ends the process. The count of coroutines is exact, a
  coroutine is found under its id exactly while it exists, and no two tasks share a stack.
\<close>

theorem coroutine_safe:
  assumes "co_reach s" "can_do x s"
  shows "\<exists>s'. co_do x s = Some s' \<and> co_reach s' \<and> wmCoroutine_getTotalNum s' = int (card (dom (tasks s'))) \<and>
    (\<forall>t c. tasks s' t = Some c \<longrightarrow> wmCoroutine_get_by_cid s' (co_cid c) = Some (Task t)) \<and>
    (\<forall>cid r. wmCoroutine_get_by_cid s' cid = Some r \<longrightarrow> (\<exists>t. r = Task t \<and> tasks s' t \<noteq> None)) \<and>
    inj_on (page_of s') (insert Main (Task ` dom (tasks s'))) \<and>
    vpages s' = page_of s' ` insert Main (Task ` dom (tasks s'))"
proof -
  obtain ch where ch: "sched_inv s ch" "defers_ok s" using reach_inv [OF assms(1)] by blast
  obtain s' ch' where s': "co_do x s = Some s'" "sched_inv s' ch'"
    using step_ok [OF ch assms(2)] by (auto simp: outcome_def)
  have tab: "tabs (coroutines s') (user_yield_coros s') (key s') (set ch')"
    using sched_invD(2) [OF s'(2)] by (simp add: tables_ok_def)
  have "wmCoroutine_get_by_cid s' (co_cid c) = Some (Task t)" if "tasks s' t = Some c" for t c
    using tabs_get [OF tab] that by (simp add: wmCoroutine_get_by_cid_def key_def)
  moreover have "\<exists>t. r = Task t \<and> tasks s' t \<noteq> None" if "wmCoroutine_get_by_cid s' cid = Some r" for cid r
    using by_cid [OF s'(2) that] by blast
  moreover have "co_reach s'" using co_reach.step [OF assms s'(1)] .
  ultimately show ?thesis
    using s'(1) sched_invD(3,5) [OF s'(2)] by (simp add: wmCoroutine_getTotalNum_def pages_ok_def live_def)
qed

theorem coroutine_safe_witness:
  "\<exists>s s'. co_reach s \<and> can_do Yield s \<and> co_do Yield s = Some s' \<and> wmCoroutine_getTotalNum s' = int (card (dom (tasks s')))"
proof -
  obtain s where s: "co_reach s" "current_task s = Some (Task 0)" using first_coroutine by blast
  have "can_do Yield s" using s(2) by (simp add: can_do_def in_task_def)
  from coroutine_safe [OF s(1) this] obtain s' where
    "co_do Yield s = Some s'" "wmCoroutine_getTotalNum s' = int (card (dom (tasks s')))" by (elim exE conjE)
  then show ?thesis using s(1) \<open>can_do Yield s\<close> by (intro exI [of _ s] exI [of _ s'] conjI)
qed

text \<open>Any sequence of possible operations that does not resume the coroutine \<open>t\<close>.\<close>

fun others :: "nat \<Rightarrow> co_op list \<Rightarrow> sched \<Rightarrow> sched option" where
  "others t [] s = Some s"
| "others t (x # xs) s =
    (if can_do x s \<and> (case x of Resume cid \<Rightarrow> wmCoroutine_get_by_cid s cid \<noteq> Some (Task t) | _ \<Rightarrow> True)
     then Option.bind (co_do x s) (others t xs) else None)"

lemma others_keep:
  assumes "others t xs s = Some s'" "sched_inv s ch" "defers_ok s" "t \<notin> set ch" "tasks s t = Some c"
  shows "\<exists>ch' c'. sched_inv s' ch' \<and> t \<notin> set ch' \<and> tasks s' t = Some c' \<and> vm c' = vm c \<and> co_cid c' = co_cid c"
  using assms
proof (induction xs arbitrary: s ch c)
  case (Cons x xs)
  let ?g = "case x of Resume cid \<Rightarrow> wmCoroutine_get_by_cid s cid \<noteq> Some (Task t) | _ \<Rightarrow> True"
  have can: "can_do x s" "?g" using Cons.prems(1) by (auto split: if_splits)
  obtain s1 ch1 where s1: "co_do x s = Some s1" "outcome x s ch s1 ch1" using step_ok [OF Cons.prems(2,3) can(1)] by blast
  have "\<forall>cid. x = Resume cid \<longrightarrow> wmCoroutine_get_by_cid s cid \<noteq> Some (Task t)" using can(2) by auto
  then have "t \<notin> set ch1 \<and> same_task (tasks s t) (tasks s1 t)"
    using s1(2) Cons.prems(4,5) by (auto simp: outcome_def)
  then obtain c1 where c1: "t \<notin> set ch1" "tasks s1 t = Some c1" "vm c1 = vm c" "co_cid c1 = co_cid c"
    using Cons.prems(5) by (auto simp: same_task_def)
  have "others t xs s1 = Some s'" using Cons.prems(1) s1(1) can by simp
  then show ?case using Cons.IH [OF _ _ _ c1(1,2)] s1(2) c1(3,4) by (simp add: outcome_def)
qed auto

text \<open>
  C4: a coroutine that yields is found by its id and resumed with exactly the engine registers it
  had when it yielded, whatever the other coroutines did in between.
\<close>

theorem coroutine_switch:
  assumes "co_reach s" "current_task s = Some (Task t)" "tasks s t = Some c"
    and "wmCoroutine_yield s = Some s1" "others t xs s1 = Some s2"
  shows "\<exists>s3. php_resume s2 (co_cid c) = Some (True, s3) \<and> current_task s3 = Some (Task t) \<and> EG s3 = EG s"
proof -
  obtain ch where ch: "sched_inv s ch" "defers_ok s" using reach_inv [OF assms(1)] by blast
  have it: "in_task s" using assms(2) by (simp add: in_task_def)
  obtain ts where s1: "ch = t # ts" "sched_inv s1 ts" "tasks s1 = (tasks s)(t \<mapsto> c\<lparr>vm := EG s\<rparr>)"
    using yield_ok [OF ch(1) assms(2,3)] assms(4) by auto
  have nt: "t \<notin> set ts" using ch(1) s1(1) by (simp add: sched_inv_def active_def)
  have df: "defers_ok s1" using step_yield [OF ch it] assms(4) by (auto simp: outcome_def)
  have "tasks s1 t = Some (c\<lparr>vm := EG s\<rparr>)" using s1(3) by simp
  then obtain ch2 c2 where s2: "sched_inv s2 ch2" "t \<notin> set ch2" "tasks s2 t = Some c2" "vm c2 = EG s" "co_cid c2 = co_cid c"
    using others_keep [OF assms(5) s1(2) df nt] by fastforce
  have tab: "tabs (coroutines s2) (user_yield_coros s2) (key s2) (set ch2)"
    using sched_invD(2) [OF s2(1)] by (simp add: tables_ok_def)
  have "wmCoroutine_get_by_cid s2 (co_cid c) = Some (Task t)"
    using tabs_get [OF tab] s2(3,5) by (simp add: wmCoroutine_get_by_cid_def key_def)
  then show ?thesis using resume_ok [OF s2(1-3)] s2(4) by (auto simp: php_resume_def)
qed

theorem coroutine_switch_witness:
  "\<exists>s s1 s2 s3. co_reach s \<and> wmCoroutine_yield s = Some s1 \<and>
     others 0 [Create (\<lambda>g. (vm_stack_top g + 8, 9)) True] s1 = Some s2 \<and>
     php_resume s2 1 = Some (True, s3) \<and> current_task s3 = Some (Task 0) \<and> EG s3 = EG s"
proof -
  obtain s c where s: "co_reach s" "current_task s = Some (Task 0)" "tasks s 0 = Some c" "co_cid c = 1"
    using first_coroutine by blast
  obtain ch where ch: "sched_inv s ch" "defers_ok s" using reach_inv [OF s(1)] by blast
  obtain s1 ch1 where s1: "wmCoroutine_yield s = Some s1" "sched_inv s1 ch1" "defers_ok s1"
    using step_yield [OF ch] s(2) by (auto simp: outcome_def in_task_def)
  let ?op = "Create (\<lambda>g. (vm_stack_top g + 8, 9)) True"
  obtain s2 where s2: "co_do ?op s1 = Some s2" using step_ok [OF s1(2,3), of ?op] by (auto simp: can_do_def)
  then have o: "others 0 [?op] s1 = Some s2" by (simp add: can_do_def)
  from coroutine_switch [OF s(1-3) s1(1) o] obtain s3 where
    "php_resume s2 (co_cid c) = Some (True, s3)" "current_task s3 = Some (Task 0)" "EG s3 = EG s" by (elim exE conjE)
  then show ?thesis
    using s(1,4) s1(1) o by (intro exI [of _ s] exI [of _ s1] exI [of _ s2] exI [of _ s3] conjI) simp_all
qed

text \<open>
  creating a coroutine gives it the next id, makes it run on a fresh stack, and keeps the
  registers of its creator in the creator's task; the creator becomes its origin. When the id is
  still in use under the 32-bit key of the table, nothing is created and the result is -1.
\<close>

theorem coroutine_create:
  assumes "co_reach s"
  shows "let cid = new_cid (last_cid s); t = next_task s in
    if wmCoroutine_get_by_cid s cid = None
    then \<exists>s' c. wmCoroutine_create push_frame True s = Some (cid, s') \<and> tasks s t = None \<and> tasks s' t = Some c \<and>
       co_cid c = cid \<and> origin c = Some (cur s) \<and> current_task s' = Some (Task t) \<and> vm_stack (EG s') \<notin> vpages s \<and>
       map_option vm (task_at s' (cur s)) = Some (EG s) \<and>
       wmCoroutine_get_by_cid s' cid = Some (Task t) \<and> wmCoroutine_getTotalNum s' = wmCoroutine_getTotalNum s + 1
    else \<exists>s'. wmCoroutine_create push_frame True s = Some (- 1, s') \<and> tasks s' = tasks s \<and> coroutines s' = coroutines s \<and>
       wmCoroutine_getTotalNum s' = wmCoroutine_getTotalNum s"
proof -
  obtain ch where ch: "sched_inv s ch" using reach_inv [OF assms] by blast
  have tab: "table_ok (coroutines s)" using sched_invD(2) [OF ch] tabsD(1) unfolding tables_ok_def by blast
  show ?thesis
  proof (cases "wmCoroutine_get_by_cid s (new_cid (last_cid s)) = None")
    case True
    then have fr: "WM_HASH_GET (coroutines s) (cid_key (new_cid (last_cid s))) = None" by (simp add: wmCoroutine_get_by_cid_def)
    obtain s' d c where s': "wmCoroutine_create push_frame True s = Some (new_cid (last_cid s), s')" "sched_inv s' (next_task s # ch)"
        "tasks s (next_task s) = None" "current_task s' = Some (Task (next_task s))" "vm_stack (EG s') \<notin> vpages s"
        "tasks s' (next_task s) = Some c" "co_cid c = new_cid (last_cid s)" "origin c = Some (cur s)"
        "task_at s' (cur s) = Some (d\<lparr>vm := EG s\<rparr>)" "total_num s' = total_num s + 1"
      using create_ok [OF ch fr refl, of push_frame] by blast
    have "wmCoroutine_get_by_cid s' (new_cid (last_cid s)) = Some (Task (next_task s))"
      using tabs_get [OF sched_invD(2) [OF s'(2), unfolded tables_ok_def], of "next_task s"] s'(6,7)
      by (simp add: wmCoroutine_get_by_cid_def key_def)
    then show ?thesis using True s' by (auto simp: Let_def wmCoroutine_getTotalNum_def)
  next
    case False
    then have "WM_HASH_GET (coroutines s) (cid_key (new_cid (last_cid s))) \<noteq> None" by (simp add: wmCoroutine_get_by_cid_def)
    from create_refused [OF this tab] show ?thesis using False by (simp add: Let_def wmCoroutine_getTotalNum_def)
  qed
qed

theorem coroutine_create_witness:
  "co_reach (co_start first_regs) \<and> (\<exists>s'. wmCoroutine_create (\<lambda>g. (vm_stack_top g + 8, 9)) True (co_start first_regs) = Some (1, s'))"
proof -
  have "wmCoroutine_get_by_cid (co_start first_regs) (new_cid (last_cid (co_start first_regs))) = None"
      "new_cid (last_cid (co_start first_regs)) = 1"
    by (simp_all add: new_cid_def co_start_def wmCoroutine_init_def wmCoroutine_get_by_cid_def)
  then show ?thesis
    using coroutine_create [OF co_reach.start, of first_regs "\<lambda>g. (vm_stack_top g + 8, 9)"] co_reach.start
    by (auto simp: Let_def)
qed

text \<open>
  C5: when a coroutine ends, its callback runs, its stack and its task are freed, its id is free
  again, and the task that had created or last resumed it goes on with the registers it had.
\<close>

theorem coroutine_exit:
  assumes "co_reach s" "current_task s = Some (Task t)" "tasks s t = Some c"
  shows "\<exists>s' q d. main_func_exit s = Some s' \<and> origin c = Some q \<and> task_at s q = Some d \<and>
    current_task s' = Some q \<and> EG s' = vm d \<and> tasks s' = (tasks s)(t := None) \<and>
    wmCoroutine_get_by_cid s' (co_cid c) = None \<and> wmCoroutine_getTotalNum s' = wmCoroutine_getTotalNum s - 1 \<and>
    vpages s' = vpages s - {vm_stack (EG s)} \<and> vm_stack (EG s) \<in> vpages s \<and>
    c_calls s' = c_calls s @ (case c_defer c of None \<Rightarrow> [] | Some fd \<Rightarrow> [fd])"
proof -
  obtain ch where ch: "sched_inv s ch" using reach_inv [OF assms(1)] by blast
  have "page_of s (Task t) = vm_stack (EG s)" using assms(2) by (simp add: page_of_def)
  moreover have "Task t \<in> live s" using assms(3) by (auto simp: live_def)
  ultimately have "vm_stack (EG s) \<in> vpages s" using sched_invD(3) [OF ch] by (metis imageI pages_ok_def)
  then show ?thesis
    using exit_ok [OF ch assms(2,3)] by (auto simp: wmCoroutine_get_by_cid_def wmCoroutine_getTotalNum_def)
qed

theorem coroutine_exit_witness:
  "\<exists>s s'. co_reach s \<and> current_task s = Some (Task 0) \<and> main_func_exit s = Some s' \<and> current_task s' = Some Main \<and>
     wmCoroutine_get_by_cid s' 1 = None"
proof -
  obtain s c where s: "co_reach s" "current_task s = Some (Task 0)" "tasks s 0 = Some c" "co_cid c = 1" "origin c = Some Main"
    using first_coroutine by blast
  from coroutine_exit [OF s(1-3)] obtain s' where
    "main_func_exit s = Some s'" "current_task s' = Some Main" "wmCoroutine_get_by_cid s' 1 = None"
    using s(4,5) by auto
  then show ?thesis using s(1,2) by (intro exI [of _ s] exI [of _ s'] conjI)
qed

text \<open>
  resuming answers false and changes nothing for an id no coroutine has and for a coroutine that
  waits for one it has created or resumed; resuming the running coroutine is undefined (a failed assert).
\<close>

theorem coroutine_resume_refused:
  assumes "co_reach s"
  shows "\<forall>cid. (case wmCoroutine_get_by_cid s cid of
       None \<Rightarrow> php_resume s cid = Some (False, s)
     | Some r \<Rightarrow>
         (if current_task s = Some r then php_resume s cid = None
          else if WM_HASH_GET (user_yield_coros s) (cid_key cid) = None then php_resume s cid = Some (False, s)
          else \<exists>s'. php_resume s cid = Some (True, s') \<and> current_task s' = Some r))"
proof
  fix cid
  obtain ch where ch: "sched_inv s ch" "defers_ok s" using reach_inv [OF assms] by blast
  have tab: "tabs (coroutines s) (user_yield_coros s) (key s) (set ch)"
    using sched_invD(2) [OF ch(1)] by (simp add: tables_ok_def)
  show "case wmCoroutine_get_by_cid s cid of
       None \<Rightarrow> php_resume s cid = Some (False, s)
     | Some r \<Rightarrow>
         (if current_task s = Some r then php_resume s cid = None
          else if WM_HASH_GET (user_yield_coros s) (cid_key cid) = None then php_resume s cid = Some (False, s)
          else \<exists>s'. php_resume s cid = Some (True, s') \<and> current_task s' = Some r)"
  proof (cases "wmCoroutine_get_by_cid s cid")
    case None
    then show ?thesis by (simp add: php_resume_def)
  next
    case (Some r)
    then obtain t c where t: "r = Task t" "tasks s t = Some c" using by_cid [OF ch(1)] by blast
    have kt: "key s t = Some (cid_key cid)"
      using Some t(1) tabsD(5) [OF tab, of "cid_key cid" t] by (simp add: wmCoroutine_get_by_cid_def)
    show ?thesis
    proof (cases "current_task s = Some r")
      case True
      then show ?thesis using Some by (simp add: php_resume_def wmCoroutine_resume_def)
    next
      case False
      then show ?thesis
        using Some t tabs_yielded [OF tab kt] resume_refused [OF ch(1), of t] resume_ok [OF ch(1) _ t(2)]
        by (auto simp: php_resume_def)
    qed
  qed
qed

theorem coroutine_resume_refused_witness:
  "\<exists>s. co_reach s \<and> wmCoroutine_get_by_cid s 1 = Some (Task 0) \<and> php_resume s 1 = None \<and> php_resume s 7 = Some (False, s)"
proof -
  obtain s c where s: "co_reach s" "current_task s = Some (Task 0)" "tasks s 0 = Some c" "co_cid c = 1"
      "wmCoroutine_create (\<lambda>g. (vm_stack_top g + 8, 9)) True (co_start first_regs) = Some (1, s)"
    using first_coroutine by blast
  have "coroutines s = [(1, Task 0)]"
    using s(5) by (auto simp: wmCoroutine_create_def Let_def co_start_def wmCoroutine_init_def new_cid_def WM_HASH_ADD_def cid_key_def
        get_task_def save_vm_stack_def run_def main_func_enter_def vm_stack_init_def task_at_def set_task_def
        split: option.splits if_splits)
  then have g: "wmCoroutine_get_by_cid s 1 = Some (Task 0)" "wmCoroutine_get_by_cid s 7 = None"
    by (simp_all add: wmCoroutine_get_by_cid_def WM_HASH_GET_def cid_key_def)
  have "php_resume s 1 = None" "php_resume s 7 = Some (False, s)"
    using coroutine_resume_refused [OF s(1), THEN spec, of 1] coroutine_resume_refused [OF s(1), THEN spec, of 7] g s(2)
    by simp_all
  then show ?thesis using s(1) g(1) by blast
qed

section \<open>Deferred functions\<close>

fun defer_all :: "nat list \<Rightarrow> sched \<Rightarrow> sched option" where
  "defer_all [] s = Some s"
| "defer_all (x # xs) s = Option.bind (wmCoroutine_defer s x) (defer_all xs)"

lemma defer_all_ok:
  assumes "current_task s = Some (Task t)" "tasks s t = Some c" "queued c ys"
  shows "\<exists>d. defer_all xs s = Some (s\<lparr>tasks := (tasks s)(t \<mapsto> c\<lparr>defer_tasks := d\<rparr>)\<rparr>) \<and> queued (c\<lparr>defer_tasks := d\<rparr>) (rev xs @ ys)"
  using assms
proof (induction xs arbitrary: s c ys)
  case Nil
  then have "s\<lparr>tasks := (tasks s)(t \<mapsto> c)\<rparr> = s" by (simp add: fun_upd_idem)
  then show ?case using Nil by (intro exI [of _ "defer_tasks c"]) (simp del: fun_upd_apply)
next
  case (Cons x xs)
  obtain d where d: "wmCoroutine_defer s x = Some (s\<lparr>tasks := (tasks s)(t \<mapsto> c\<lparr>defer_tasks := Some d\<rparr>)\<rparr>)" "stack_of d (x # ys)"
    using defer_ok [OF Cons.prems(1) _ Cons.prems(3), of x] Cons.prems(2) by (auto simp: task_at_def set_task_def)
  let ?c = "c\<lparr>defer_tasks := Some d\<rparr>" and ?s = "s\<lparr>tasks := (tasks s)(t \<mapsto> c\<lparr>defer_tasks := Some d\<rparr>)\<rparr>"
  have "queued ?c (x # ys)" using d(2) by (simp add: queued_def)
  then obtain d' where "defer_all xs ?s = Some (?s\<lparr>tasks := (tasks ?s)(t \<mapsto> ?c\<lparr>defer_tasks := d'\<rparr>)\<rparr>)" "queued (?c\<lparr>defer_tasks := d'\<rparr>) (rev xs @ x # ys)"
    using Cons.IH [of ?s ?c "x # ys"] Cons.prems(1) by (auto simp del: fun_upd_apply simp: fun_upd_same)
  then show ?case using d(1) by (auto simp del: fun_upd_apply)
qed

text \<open>
  The loop at the end of a coroutine: a function that is called registers \<open>reg x\<close>, in this order, and does
  nothing else to the scheduler before it returns. The result: the functions that were called or could not be,
  and whether the loop has ended properly.
\<close>

partial_function (option) defer_loop :: "(nat \<Rightarrow> bool) \<Rightarrow> (nat \<Rightarrow> nat list) \<Rightarrow> sched \<Rightarrow> (nat list \<times> bool \<times> sched) option" where
  "defer_loop callable reg s =
    Option.bind (main_func_defer callable s) (\<lambda>(y, s).
    case y of
      Loop_over \<Rightarrow> Some ([], True, s)
    | Call_failed x \<Rightarrow> Some ([x], False, s)
    | Run_deferred x \<Rightarrow>
        Option.bind (defer_all (reg x) s) (\<lambda>s.
        Option.bind (defer_loop callable reg s) (\<lambda>(xs, b, s). Some (x # xs, b, s))))"

text \<open>
  The order: \<open>deferred callable reg xs ys b\<close>, where \<open>xs\<close> are registered, the last one first, \<open>ys\<close> is what is
  called, and \<open>b\<close> whether every call is possible.
\<close>

inductive deferred :: "(nat \<Rightarrow> bool) \<Rightarrow> (nat \<Rightarrow> nat list) \<Rightarrow> nat list \<Rightarrow> nat list \<Rightarrow> bool \<Rightarrow> bool" for callable reg where
  none: "deferred callable reg [] [] True"
| called: "callable x \<Longrightarrow> deferred callable reg (rev (reg x) @ xs) ys b \<Longrightarrow> deferred callable reg (x # xs) (x # ys) b"
| failed: "\<not> callable x \<Longrightarrow> deferred callable reg (x # xs) [x] False"

text \<open>When no function registers itself again, directly or through others, the order is finite.\<close>

lemma deferred_total:
  assumes "wf {(y, x). y \<in> set (reg x)}"
  shows "\<exists>ys b. deferred callable reg xs ys b"
proof -
  have "\<forall>zs. (\<exists>ys b. deferred callable reg zs ys b) \<longrightarrow> (\<exists>ys b. deferred callable reg (x # zs) ys b)" for x
    using assms
  proof (induction x rule: wf_induct_rule)
    case (less x)
    have "\<exists>ys b. deferred callable reg (us @ zs) ys b" if "\<exists>ys b. deferred callable reg zs ys b" "set us \<subseteq> set (reg x)" for us zs
      using that
    proof (induction us)
      case (Cons u us)
      then show ?case using less [of u] by auto
    qed simp
    then have "\<exists>ys b. deferred callable reg (rev (reg x) @ zs) ys b" if "\<exists>ys b. deferred callable reg zs ys b" for zs
      using that by (metis order_refl set_rev)
    then show ?case using deferred.called deferred.failed by metis
  qed
  then show ?thesis by (induction xs) (auto intro: deferred.none)
qed

definition runs_in :: "sched \<Rightarrow> nat \<Rightarrow> nat list \<Rightarrow> bool" where
  "runs_in s t xs \<longleftrightarrow> (\<exists>ch. sched_inv s ch) \<and> current_task s = Some (Task t) \<and> (\<exists>c. tasks s t = Some c \<and> queued c xs)"

definition failed_in :: "sched \<Rightarrow> nat \<Rightarrow> sched \<Rightarrow> bool" where
  "failed_in s t s' \<longleftrightarrow> (\<exists>c q d. tasks s t = Some c \<and> origin c = Some q \<and> task_at s q = Some d \<and> current_task s' = Some q \<and> EG s' = vm d \<and>
     tasks s' = (tasks s)(t := None) \<and> wmCoroutine_get_by_cid s' (co_cid c) = None \<and> c_calls s' = c_calls s)"

text \<open>Registering and popping change nothing of a task but the queue.\<close>

definition same_but_queue :: "sched \<Rightarrow> nat \<Rightarrow> sched \<Rightarrow> bool" where
  "same_but_queue s t s' \<longleftrightarrow> (\<exists>c d. tasks s t = Some c \<and> s' = s\<lparr>tasks := (tasks s)(t \<mapsto> c\<lparr>defer_tasks := d\<rparr>)\<rparr>)"

lemma same_but_queue_trans: "same_but_queue s t s1 \<Longrightarrow> same_but_queue s1 t s2 \<Longrightarrow> same_but_queue s t s2"
  unfolding same_but_queue_def by fastforce

lemma queue_runs:
  assumes "runs_in s t xs" "queued (c\<lparr>defer_tasks := d\<rparr>) ys" "tasks s t = Some c"
  shows "runs_in (s\<lparr>tasks := (tasks s)(t \<mapsto> c\<lparr>defer_tasks := d\<rparr>)\<rparr>) t ys"
proof -
  obtain ch where ch: "sched_inv s ch" using assms(1) by (auto simp: runs_in_def)
  have "sched_inv (set_task s (Task t) (c\<lparr>defer_tasks := d\<rparr>)) ch"
    by (rule inv_set_task [OF ch]) (use assms(3) in \<open>simp_all add: task_at_def\<close>)
  then show ?thesis using assms by (auto simp: runs_in_def set_task_def)
qed

lemma failed_in_queue: "same_but_queue s t s1 \<Longrightarrow> failed_in s1 t s2 \<Longrightarrow> failed_in s t s2"
proof -
  assume "same_but_queue s t s1" "failed_in s1 t s2"
  then obtain c e where c: "tasks s t = Some c" "s1 = s\<lparr>tasks := (tasks s)(t \<mapsto> c\<lparr>defer_tasks := e\<rparr>)\<rparr>"
    by (auto simp: same_but_queue_def)
  then obtain q d where f: "origin c = Some q" "task_at s1 q = Some d" "current_task s2 = Some q" "EG s2 = vm d" "tasks s2 = (tasks s)(t := None)"
      "wmCoroutine_get_by_cid s2 (co_cid c) = None" "c_calls s2 = c_calls s"
    using \<open>failed_in s1 t s2\<close> by (auto simp: failed_in_def)
  have "\<exists>d0. task_at s q = Some d0 \<and> vm d0 = vm d"
    using f(2) c by (cases q) (auto simp: task_at_def split: if_splits)
  then show "failed_in s t s2" using c(1) f unfolding failed_in_def by metis
qed

lemma defer_loop_ok:
  assumes "deferred callable reg xs ys b" "runs_in s t xs"
  shows "\<exists>s'. defer_loop callable reg s = Some (ys, b, s') \<and>
    (if b then same_but_queue s t s' \<and> map_option defer_tasks (tasks s' t) = Some None else failed_in s t s')"
  using assms
proof (induction arbitrary: s)
  case none
  then obtain c where c: "current_task s = Some (Task t)" "tasks s t = Some c" "queued c []" by (auto simp: runs_in_def)
  let ?s = "s\<lparr>tasks := (tasks s)(t \<mapsto> c\<lparr>defer_tasks := None\<rparr>)\<rparr>"
  have "main_func_defer callable s = Some (Loop_over, ?s)" using run_defer_ok [OF c] by simp
  then have "defer_loop callable reg s = Some ([], True, ?s)" by (subst defer_loop.simps) simp
  moreover have "same_but_queue s t ?s" using c(2) by (auto simp: same_but_queue_def)
  ultimately show ?case by auto
next
  case (called x xs ys b)
  then obtain c where c: "current_task s = Some (Task t)" "tasks s t = Some c" "queued c (x # xs)" by (auto simp: runs_in_def)
  obtain d where d: "stack_of d xs" "main_func_defer callable s = Some (Run_deferred x, s\<lparr>tasks := (tasks s)(t \<mapsto> c\<lparr>defer_tasks := Some d\<rparr>)\<rparr>)"
    using run_defer_ok [OF c, of callable] called(1) by auto
  let ?c = "c\<lparr>defer_tasks := Some d\<rparr>" and ?s = "s\<lparr>tasks := (tasks s)(t \<mapsto> c\<lparr>defer_tasks := Some d\<rparr>)\<rparr>"
  have q: "queued ?c xs" using d(1) by (simp add: queued_def)
  have r: "runs_in ?s t xs" by (rule queue_runs [OF called(4) q c(2)])
  obtain d' where d': "defer_all (reg x) ?s = Some (?s\<lparr>tasks := (tasks ?s)(t \<mapsto> ?c\<lparr>defer_tasks := d'\<rparr>)\<rparr>)" "queued (?c\<lparr>defer_tasks := d'\<rparr>) (rev (reg x) @ xs)"
    using defer_all_ok [of ?s t ?c xs "reg x"] c(1) q by (auto simp del: fun_upd_apply simp: fun_upd_same)
  let ?s' = "?s\<lparr>tasks := (tasks ?s)(t \<mapsto> ?c\<lparr>defer_tasks := d'\<rparr>)\<rparr>"
  have sq: "same_but_queue s t ?s'" using c(2) by (auto simp: same_but_queue_def)
  have "runs_in ?s' t (rev (reg x) @ xs)" by (rule queue_runs [OF r d'(2)]) simp
  from called(3) [OF this] obtain s' where s': "defer_loop callable reg ?s' = Some (ys, b, s')"
    "if b then same_but_queue ?s' t s' \<and> map_option defer_tasks (tasks s' t) = Some None else failed_in ?s' t s'" by blast
  have "defer_loop callable reg s = Some (x # ys, b, s')" using d(2) d'(1) s'(1) by (subst defer_loop.simps) simp
  then show ?case using s'(2) same_but_queue_trans [OF sq] failed_in_queue [OF sq] by (auto split: if_splits)
next
  case (failed x xs)
  then obtain c ch where c: "current_task s = Some (Task t)" "tasks s t = Some c" "queued c (x # xs)" "sched_inv s ch" by (auto simp: runs_in_def)
  obtain d where d: "stack_of d xs" "main_func_defer callable s = map_option (Pair (Call_failed x)) (main_func_fail (s\<lparr>tasks := (tasks s)(t \<mapsto> c\<lparr>defer_tasks := Some d\<rparr>)\<rparr>))"
    using run_defer_ok [OF c(1-3), of callable] failed(1) by (auto simp: Let_def)
  let ?c = "c\<lparr>defer_tasks := Some d\<rparr>" and ?s = "s\<lparr>tasks := (tasks s)(t \<mapsto> c\<lparr>defer_tasks := Some d\<rparr>)\<rparr>"
  have "queued ?c xs" using d(1) by (simp add: queued_def)
  then obtain ch' where ch': "sched_inv ?s ch'" "current_task ?s = Some (Task t)" "tasks ?s t = Some ?c"
    using queue_runs [OF failed(2) _ c(2), of "Some d" xs] by (auto simp: runs_in_def)
  obtain s' where s': "main_func_fail ?s = Some s'" "failed_in ?s t s'"
    using fail_ok [OF ch'] ch'(3) unfolding failed_in_def wmCoroutine_get_by_cid_def by blast
  have "same_but_queue s t ?s" using c(2) by (auto simp: same_but_queue_def)
  from failed_in_queue [OF this s'(2)] have "failed_in s t s'" .
  moreover have "defer_loop callable reg s = Some ([x], False, s')" using d(2) s'(1) by (subst defer_loop.simps) simp
  ultimately show ?case by auto
qed

text \<open>
  C6: the deferred functions of a coroutine run when it ends, for functions that do nothing else to the
  scheduler than to register others, no one itself again, not even through others. The last registered runs
  first, and what it registers itself before all that was registered earlier, each registration once; the
  loop ends. If every call is possible, the queue is freed and the coroutine can end. The first call that is
  not possible ends it at once: the functions that are left and the callback do not run, and the task that
  had created or last resumed it goes on.
\<close>

theorem coroutine_defers:
  assumes "co_reach s" "current_task s = Some (Task t)" "map_option defer_tasks (tasks s t) = Some None"
    "wf {(y, x). y \<in> set (reg x)}"
  shows "\<exists>s1 s2 ys b. defer_all xs s = Some s1 \<and> deferred callable reg (rev xs) ys b \<and> defer_loop callable reg s1 = Some (ys, b, s2) \<and>
    (if b then current_task s2 = Some (Task t) \<and> can_do Exit s2 else failed_in s t s2)"
proof -
  obtain c where c: "tasks s t = Some c" "queued c []" using assms(3) by (auto simp: queued_def)
  obtain ch where ch: "sched_inv s ch" using reach_inv [OF assms(1)] by blast
  obtain d where d: "defer_all xs s = Some (s\<lparr>tasks := (tasks s)(t \<mapsto> c\<lparr>defer_tasks := d\<rparr>)\<rparr>)" "queued (c\<lparr>defer_tasks := d\<rparr>) (rev xs)"
    using defer_all_ok [OF assms(2) c, of xs] by auto
  let ?s = "s\<lparr>tasks := (tasks s)(t \<mapsto> c\<lparr>defer_tasks := d\<rparr>)\<rparr>"
  have "runs_in s t []" using ch assms(2) c by (auto simp: runs_in_def)
  from queue_runs [OF this d(2) c(1)] have r: "runs_in ?s t (rev xs)" .
  obtain ys b where yb: "deferred callable reg (rev xs) ys b" using deferred_total [OF assms(4)] by blast
  from defer_loop_ok [OF yb r] obtain s' where s': "defer_loop callable reg ?s = Some (ys, b, s')"
    "if b then same_but_queue ?s t s' \<and> map_option defer_tasks (tasks s' t) = Some None else failed_in ?s t s'" by blast
  have sq: "same_but_queue s t ?s" using c(1) by (auto simp: same_but_queue_def)
  have "if b then current_task s' = Some (Task t) \<and> can_do Exit s' else failed_in s t s'"
    using s'(2) failed_in_queue [OF sq] assms(2) by (auto simp: same_but_queue_def can_do_def split: if_splits)
  then show ?thesis using d(1) yb s'(1) by blast
qed

text \<open>Three functions, of which 5 registers 7; all can be called.\<close>

theorem coroutine_defers_witness:
  "\<exists>s s1 s2. co_reach s \<and> defer_all [4, 5, 6] s = Some s1 \<and>
     defer_loop (\<lambda>_. True) (\<lambda>x. if x = 5 then [7] else []) s1 = Some ([6, 5, 7, 4], True, s2)"
proof -
  let ?reg = "\<lambda>x. if x = 5 then [7 :: nat] else []"
  obtain s c where s: "co_reach s" "current_task s = Some (Task 0)" "tasks s 0 = Some c" "defer_tasks c = None"
    using first_coroutine by blast
  then have d: "map_option defer_tasks (tasks s 0) = Some None" by simp
  have "{(y, x). y \<in> set (?reg x)} = {(7, 5)}" by (auto split: if_splits)
  then have w: "wf {(y, x). y \<in> set (?reg x)}" by (simp add: wf_insert)
  from coroutine_defers [OF s(1,2) d w, of "[4, 5, 6]" "\<lambda>_. True"] obtain s1 s2 ys b where
    r: "defer_all [4, 5, 6] s = Some s1" "deferred (\<lambda>_. True) ?reg (rev [4, 5, 6]) ys b" "defer_loop (\<lambda>_. True) ?reg s1 = Some (ys, b, s2)"
    by blast
  have "ys = [6, 5, 7, 4] \<and> b"
    using r(2) by (auto elim!: deferred.cases [of _ _ "_ # _"] deferred.cases [of _ _ "[]"])
  then show ?thesis using s(1) r(1,3) by (intro exI [of _ s] exI [of _ s1] exI [of _ s2]) simp
qed

text \<open>
  yielding is undefined before the first coroutine exists, and from the main task (its origin is
  null), unless the key 0 is taken in the table of yielded coroutines.
\<close>

theorem coroutine_yield_main:
  assumes "co_reach s" "\<not> in_task s"
    "WM_HASH_GET (user_yield_coros s) (cid_key (co_cid (main_task s))) = None"
  shows "wmCoroutine_yield s = None"
proof -
  obtain ch where ch: "sched_inv s ch" using reach_inv [OF assms(1)] by blast
  have tab: "table_ok (user_yield_coros s)" using sched_invD(2) [OF ch] tabsD(2) unfolding tables_ok_def by blast
  show ?thesis
  proof (cases "current_task s")
    case None
    then show ?thesis by (simp add: wmCoroutine_yield_def)
  next
    case (Some r)
    then have r: "current_task s = Some Main" using assms(2) by (cases r) (simp_all add: in_task_def)
    have "fst (WM_HASH_ADD (user_yield_coros s) (cid_key (co_cid (main_task s))) Main)"
      using hm.add_fresh [OF tab assms(3)] by blast
    then show ?thesis using r sched_invD(7) [OF ch]
      by (simp add: wmCoroutine_yield_def task_at_def save_vm_stack_def set_task_def split_beta)
  qed
qed

theorem coroutine_yield_main_witness:
  "\<exists>s. co_reach s \<and> current_task s = Some Main \<and> wmCoroutine_yield s = None"
proof -
  let ?g = "\<lambda>g. (vm_stack_top g + 8, 9)"
  obtain s c where s: "co_reach s" "wmCoroutine_create ?g True (co_start first_regs) = Some (1, s)" "current_task s = Some (Task 0)"
      "tasks s 0 = Some c" "origin c = Some Main" "defer_tasks c = None"
    using first_coroutine by blast
  obtain s' where s': "main_func_exit s = Some s'" "current_task s' = Some Main" "tasks s' = (tasks s)(0 := None)"
    using exit_ok [of s _ 0 c] reach_inv [OF s(1)] s(3-5) by fastforce
  have "can_do Exit s" using s(3,4,6) by (simp add: can_do_def)
  then have r: "co_reach s'" using co_reach.step [OF s(1), of Exit s'] s'(1) by (simp add: co_do_def)
  have "next_task (co_start first_regs) = 0" "tasks (co_start first_regs) = (\<lambda>_. None)" by (simp_all add: co_start_def wmCoroutine_init_def)
  have "\<forall>k. WM_HASH_GET (user_yield_coros s') k = None"
  proof -
    have "user_yield_coros s = []"
      using s(2) by (auto simp: wmCoroutine_create_def Let_def co_start_def wmCoroutine_init_def new_cid_def WM_HASH_ADD_def
        get_task_def save_vm_stack_def run_def main_func_enter_def vm_stack_init_def task_at_def set_task_def
        split: option.splits if_splits)
    then show ?thesis using s'(1) s(3,4,5)
      by (auto simp: main_func_exit_def close_coro_def Let_def WM_HASH_DEL_def WM_HASH_GET_def vm_stack_destroy_def restore_vm_stack_def
        get_origin_task_def task_at_def split: if_splits)
  qed
  then have "wmCoroutine_yield s' = None"
    using coroutine_yield_main [OF r] s'(2) by (simp add: in_task_def)
  then show ?thesis using r s'(2) by blast
qed

end
