(* ===== verification/Wm_Sleep.thy ===== *)
theory Wm_Sleep
  imports Wm_PhpTimer Wm_Coroutine_Run
begin

text \<open>
  Sleeping coroutines: the timer wheel and the scheduler together (\<open>wmCoroutine_sleep\<close> and
  \<open>sleep_callback\<close> of \<open>src/coroutine/coroutine.c\<close>, \<open>Coroutine::sleep\<close> of \<open>src/php_coroutine.c\<close>). The
  world is the wheel extended with the scheduler. The code that coroutines run when the wheel wakes
  one is a parameter, \<open>runs\<close>: one list of operations per firing, made by whatever coroutine is
  running, until control is back in the main task. Each operation may depend on the wheel and the
  scheduler as they are when it is made; all of them are performed, and \<open>None\<close> is undefined
  behaviour or the end of the process. The log \<open>woken\<close> notes each coroutine that is woken and the
  registers it goes on with.
\<close>

section \<open>State\<close>

datatype sl_op = Co co_op | Sleep rat

type_synonym sl_code = "(wheel \<Rightarrow> sched \<Rightarrow> sl_op) list"

record sleep_world = wheel +
  co :: sched
  runs :: "sl_code list"
  woken :: "(task_ref \<times> vm_regs) list"

definition SLEEP_CB :: nat where "SLEEP_CB = 1"

text \<open>A task pointer as the untyped user data of a timer, and back; 0 is the null pointer.\<close>

definition co_ptr :: "task_ref option \<Rightarrow> nat" where
  "co_ptr r = (case r of None \<Rightarrow> 0 | Some Main \<Rightarrow> 1 | Some (Task t) \<Rightarrow> t + 2)"

definition ptr_co :: "nat \<Rightarrow> task_ref option" where
  "ptr_co p = (if p = 0 then None else if p = 1 then Some Main else Some (Task (p - 2)))"

lemma ptr_co_ptr [simp]: "ptr_co (co_ptr r) = r"
  by (auto simp: ptr_co_def co_ptr_def split: option.split task_ref.split)

lemma co_ptr_inject [simp]: "co_ptr r = co_ptr q \<longleftrightarrow> r = q"
  by (metis ptr_co_ptr)

section \<open>Operations\<close>

text \<open>
  The delay is an exact rational, as in \<open>timer_add\<close>; a number of milliseconds beyond 32 bits is an
  undefined conversion in C.
\<close>

definition wmCoroutine_sleep :: "sleep_world \<Rightarrow> rat \<Rightarrow> sleep_world option" where
  "wmCoroutine_sleep w seconds =
    (let seconds = (if seconds < 1 / 1000 then 1 / 1000 else seconds);
         r = wmCoroutine_get_current (co w) in
     if 2 ^ 32 \<le> seconds * 1000 then None
     else
       Option.bind (wmTimerWheel_add_quick w (Some SLEEP_CB) (co_ptr r) (word_of_int \<lfloor>seconds * 1000\<rfloor>)) (\<lambda>(n, w).
       map_option (\<lambda>s. w\<lparr>co := s\<rparr>) (wmCoroutine_yield (co w))))"

definition php_sleep :: "sleep_world \<Rightarrow> rat \<Rightarrow> (bool \<times> sleep_world) option" where
  "php_sleep w seconds =
    (if seconds < 1 / 1000 then Some (False, w)
     else map_option (\<lambda>w. (True, w)) (wmCoroutine_sleep w seconds))"

text \<open>The operations of the running coroutine.\<close>

definition sl_do :: "sl_op \<Rightarrow> sleep_world \<Rightarrow> sleep_world option" where
  "sl_do x w =
    (case x of
       Co y \<Rightarrow> map_option (\<lambda>s. w\<lparr>co := s\<rparr>) (co_do y (co w))
     | Sleep s \<Rightarrow> map_option snd (php_sleep w s))"

text \<open>
  The code that runs until the main task has control again; when the list is exhausted the coroutines
  still on the chain yield, one after the other.
\<close>

fun come_home :: "nat \<Rightarrow> sleep_world \<Rightarrow> sleep_world option" where
  "come_home 0 w = Some w"
| "come_home (Suc k) w =
    (if in_task (co w)
     then Option.bind (wmCoroutine_yield (co w)) (\<lambda>s. come_home k (w\<lparr>co := s\<rparr>))
     else Some w)"

fun run_code :: "sl_code \<Rightarrow> sleep_world \<Rightarrow> sleep_world option" where
  "run_code [] w = come_home (nat (total_num (co w))) w"
| "run_code (c # cs) w =
    (if \<not> in_task (co w) then Some w
     else Option.bind (sl_do (c (wheel.truncate w) (co w)) w) (run_code cs))"

text \<open>A resume out of the loop: the resumed coroutine runs on until the main task has control again.\<close>

definition wake :: "task_ref \<Rightarrow> sleep_world \<Rightarrow> sleep_world option" where
  "wake r w =
    Option.bind (wmCoroutine_resume (co w) r) (\<lambda>(ok, s).
    if \<not> ok then Some (w\<lparr>co := s\<rparr>)
    else
      let (xs, rest) = (case runs w of [] \<Rightarrow> ([], []) | x # xs \<Rightarrow> (x, xs)) in
      run_code xs (w\<lparr>co := s, runs := rest, woken := woken w @ [(r, EG s)]\<rparr>))"

definition sleep_callback :: "nat \<Rightarrow> sleep_world \<Rightarrow> sleep_world option" where
  "sleep_callback ud w = (case ptr_co ud of None \<Rightarrow> None | Some r \<Rightarrow> wake r w)"

definition sleep_call :: "nat \<Rightarrow> nat \<Rightarrow> sleep_world \<Rightarrow> sleep_world option" where
  "sleep_call cb ud w = (if cb = SLEEP_CB then sleep_callback ud w else None)"

section \<open>Careful code\<close>

text \<open>
  What the theorems ask of the code, beside the conditions of the scheduler (\<open>can_do\<close>): no sleep is
  longer than 32 bits of milliseconds, and nothing but its timer resumes a coroutine that sleeps, that
  is, one that a timer of the wheel still names (a timer is freed when its callback has returned). A
  list of operations is careful when each makes, in every state, one that is allowed there.
\<close>

definition asleep :: "'z wheel_scheme \<Rightarrow> task_ref \<Rightarrow> bool" where
  "asleep w r \<longleftrightarrow> (\<exists>n \<in> {..<next_node w}. map_option userdata (nodes w n) = Some (co_ptr (Some r)))"

definition can_sl :: "sl_op \<Rightarrow> 'z wheel_scheme \<Rightarrow> sched \<Rightarrow> bool" where
  "can_sl x w s \<longleftrightarrow>
    (case x of
       Co y \<Rightarrow> can_do y s \<and>
         (case y of
            Resume cid \<Rightarrow> (case wmCoroutine_get_by_cid s cid of None \<Rightarrow> True | Some r \<Rightarrow> \<not> asleep w r)
          | _ \<Rightarrow> True)
     | Sleep d \<Rightarrow> in_task s \<and> d * 1000 < 2 ^ 32)"

definition careful :: "sl_code \<Rightarrow> bool" where
  "careful cs \<longleftrightarrow> (\<forall>c \<in> set cs. \<forall>w s. in_task s \<longrightarrow> can_sl (c w s) w s)"

definition careful_runs :: "sleep_world \<Rightarrow> bool" where
  "careful_runs w \<longleftrightarrow> (\<forall>cs \<in> set (runs w). careful cs)"

text \<open>
  Every list of operations that are allowed when they are made is careful code, as one that looks
  before each of them makes the same.
\<close>

definition cautious :: "sl_op \<Rightarrow> wheel \<Rightarrow> sched \<Rightarrow> sl_op" where
  "cautious x w s = (if can_sl x w s then x else Co (Work (EG s)))"

lemma cautious_careful: "careful (map cautious xs)"
  by (auto simp: careful_def cautious_def can_sl_def can_do_def)

lemma asleep_truncate [simp]: "asleep (wheel.truncate w) r = asleep w r"
  by (simp add: asleep_def wheel.truncate_def)

lemma can_sl_truncate [simp]: "can_sl x (wheel.truncate w) s = can_sl x w s"
  by (simp add: can_sl_def split: sl_op.split co_op.split option.split)

lemma careful_Cons: "careful (c # cs) \<Longrightarrow> in_task s \<Longrightarrow> can_sl (c (wheel.truncate w) s) w s"
  "careful (c # cs) \<Longrightarrow> careful cs"
  unfolding careful_def by (metis can_sl_truncate list.set_intros(1), simp)

section \<open>Invariant\<close>

text \<open>
  \<open>X\<close> is the node whose callback is running. Every other node belongs to one coroutine, which is
  allocated and not on the chain of the current task, so it waits in the table of yielded ones; the
  wheel counts them.
\<close>

definition sleep_inv :: "nat set \<Rightarrow> nat list \<Rightarrow> sleep_world \<Rightarrow> bool" where
  "sleep_inv X ch w \<longleftrightarrow>
     sched_inv (co w) ch \<and> defers_ok (co w) \<and> (\<forall>n. next_node w \<le> n \<longrightarrow> nodes w n = None) \<and>
     (\<forall>n nd. n \<notin> X \<longrightarrow> nodes w n = Some nd \<longrightarrow> callback nd = Some SLEEP_CB \<and>
        (\<exists>t. userdata nd = co_ptr (Some (Task t)) \<and> tasks (co w) t \<noteq> None \<and> t \<notin> set ch)) \<and>
     (\<forall>n m nd md. n \<notin> X \<longrightarrow> m \<notin> X \<longrightarrow> nodes w n = Some nd \<longrightarrow> nodes w m = Some md \<longrightarrow>
        userdata nd = userdata md \<longrightarrow> n = m) \<and>
     tw_num w = of_nat (card (dom (nodes w) - X))"

lemma sleep_invD:
  assumes "sleep_inv X ch w"
  shows "sched_inv (co w) ch" "defers_ok (co w)" "next_node w \<le> n \<Longrightarrow> nodes w n = None"
    "n \<notin> X \<Longrightarrow> nodes w n = Some nd \<Longrightarrow> callback nd = Some SLEEP_CB \<and>
       (\<exists>t. userdata nd = co_ptr (Some (Task t)) \<and> tasks (co w) t \<noteq> None \<and> t \<notin> set ch)"
    "n \<notin> X \<Longrightarrow> m \<notin> X \<Longrightarrow> nodes w n = Some nd \<Longrightarrow> nodes w m = Some md \<Longrightarrow> userdata nd = userdata md \<Longrightarrow> n = m"
    "tw_num w = of_nat (card (dom (nodes w) - X))"
  using assms unfolding sleep_inv_def by blast+

lemma sleep_inv_finite:
  assumes "sleep_inv X ch w"
  shows "finite (dom (nodes w))"
proof (rule finite_subset)
  show "dom (nodes w) \<subseteq> {..<next_node w}"
    using sleep_invD(3) [OF assms] by (metis domD lessThan_iff not_less option.distinct(1) subsetI)
qed simp

text \<open>What the running code leaves alone: the sleepers, their nodes, the log.\<close>

definition sleep_ext :: "nat set \<Rightarrow> sleep_world \<Rightarrow> sleep_world \<Rightarrow> bool" where
  "sleep_ext X w w' \<longleftrightarrow> next_node w \<le> next_node w' \<and> (\<forall>n < next_node w. nodes w' n = nodes w n) \<and>
     currtick w' = currtick w \<and> lasttime w' = lasttime w \<and> interval w' = interval w \<and>
     runs w' = runs w \<and> woken w' = woken w \<and>
     (\<forall>n t nd. n \<notin> X \<longrightarrow> nodes w n = Some nd \<longrightarrow> userdata nd = co_ptr (Some (Task t)) \<longrightarrow>
        same_task (tasks (co w) t) (tasks (co w') t))"

lemma same_task_trans: "same_task a b \<Longrightarrow> same_task b c \<Longrightarrow> same_task a c"
  unfolding same_task_def by fastforce

lemma sleep_ext_refl [simp]: "sleep_ext X w w"
  by (simp add: sleep_ext_def)

lemma sleep_ext_trans:
  assumes "\<And>n. next_node a \<le> n \<Longrightarrow> nodes a n = None" "sleep_ext X a b" "sleep_ext X b c"
  shows "sleep_ext X a c"
proof -
  have lt: "n < next_node a" if "nodes a n = Some nd" for n nd using assms(1) [of n] that not_less by fastforce
  have "same_task (tasks (co a) t) (tasks (co c) t)"
    if n: "n \<notin> X" "nodes a n = Some nd" "userdata nd = co_ptr (Some (Task t))" for n t nd
  proof -
    have "nodes b n = Some nd" using assms(2) lt [OF n(2)] n(2) by (simp add: sleep_ext_def)
    then show ?thesis using assms(2,3) n same_task_trans unfolding sleep_ext_def by blast
  qed
  moreover have "nodes c n = nodes a n" if "n < next_node a" for n
    using assms(2,3) that by (simp add: sleep_ext_def)
  ultimately show ?thesis using assms(2,3) by (simp add: sleep_ext_def)
qed

section \<open>The running code keeps the invariant\<close>

text \<open>What is used of the state of the wheel: it does not depend on the rest of the world, and a
  node can be added.\<close>

definition armable :: "(sleep_world \<Rightarrow> bool) \<Rightarrow> bool" where
  "armable P \<longleftrightarrow>
     (\<forall>w w'. P w \<longrightarrow> lnk w' = lnk w \<longrightarrow> nodes w' = nodes w \<longrightarrow> next_node w' = next_node w \<longrightarrow>
        currtick w' = currtick w \<longrightarrow> P w') \<and>
     (\<forall>w cb ud t. P w \<longrightarrow> (\<exists>w'. wmTimerWheel_add_quick w (Some cb) ud t = Some (next_node w, w') \<and> P w'))"

lemma armableD:
  assumes "armable P" "P w"
  shows "lnk w' = lnk w \<Longrightarrow> nodes w' = nodes w \<Longrightarrow> next_node w' = next_node w \<Longrightarrow> currtick w' = currtick w \<Longrightarrow> P w'"
    "\<exists>w'. wmTimerWheel_add_quick w (Some cb) ud t = Some (next_node w, w') \<and> P w'"
  using assms unfolding armable_def by blast+

lemma armable_co: "armable P \<Longrightarrow> P w \<Longrightarrow> P (w\<lparr>co := s\<rparr>)"
  by (rule armableD(1)) simp_all

lemma armable_steady: "steady P \<Longrightarrow> armable P"
  unfolding armable_def using steadyD(2,3) by blast

lemma armable_firing: "armable (\<lambda>w. firing (free_node w n) ns \<and> n < next_node w)"
  unfolding armable_def
proof (intro conjI allI impI)
  fix w :: sleep_world and cb ud t
  assume a: "firing (free_node w n) ns \<and> n < next_node w"
  then obtain v where v: "wmTimerWheel_add_quick (free_node w n) (Some cb) ud t = Some (next_node w, v)" "firing v ns"
    using firing_add [of "free_node w n" ns cb ud t] by (auto simp: free_node_def)
  moreover have "wmTimerWheel_add_quick (free_node w n) (Some cb) ud t =
      map_option (\<lambda>(m, w'). (m, free_node w' n)) (wmTimerWheel_add_quick w (Some cb) ud t)"
    using a by (intro add_quick_free_node) simp
  ultimately obtain w' where w': "wmTimerWheel_add_quick w (Some cb) ud t = Some (next_node w, w')" "v = free_node w' n"
    by auto
  have "n < next_node w'" using add_quick_world [OF w'(1)] a by simp
  then show "\<exists>w'. wmTimerWheel_add_quick w (Some cb) ud t = Some (next_node w, w') \<and> firing (free_node w' n) ns \<and> n < next_node w'"
    using w' v(2) by blast
next
  fix w w' :: sleep_world
  assume a: "firing (free_node w n) ns \<and> n < next_node w" and e: "lnk w' = lnk w" "nodes w' = nodes w"
      "next_node w' = next_node w" "currtick w' = currtick w"
  have "firing (free_node w' n) ns" by (rule firing_cong [of "free_node w n"]) (use a e in \<open>simp_all add: free_node_def\<close>)
  then show "firing (free_node w' n) ns" "n < next_node w'" using a e by simp_all
qed

lemma world_fields:
  assumes "wheel.more (w' :: sleep_world) = wheel.more w"
  shows "co w' = co w" "runs w' = runs w" "woken w' = woken w"
  using assms by (cases w, cases w', simp)+

text \<open>A step of the scheduler that resumes no sleeper.\<close>

lemma sched_step_ok:
  assumes inv: "sleep_inv X ch w" and out: "outcome y (co w) ch s' ch'"
    and aw: "\<And>cid n nd t. y = Resume cid \<Longrightarrow> n \<notin> X \<Longrightarrow> nodes w n = Some nd \<Longrightarrow>
      userdata nd = co_ptr (Some (Task t)) \<Longrightarrow> wmCoroutine_get_by_cid (co w) cid \<noteq> Some (Task t)"
  shows "sleep_inv X ch' (w\<lparr>co := s'\<rparr>) \<and> sleep_ext X w (w\<lparr>co := s'\<rparr>)"
proof -
  note i = sleep_invD [OF inv]
  have kept: "t \<notin> set ch' \<and> same_task (tasks (co w) t) (tasks s' t) \<and> tasks s' t \<noteq> None"
    if n: "n \<notin> X" "nodes w n = Some nd" "userdata nd = co_ptr (Some (Task t))" for n nd t
  proof -
    have t: "tasks (co w) t \<noteq> None" "t \<notin> set ch" using i(4) [OF n(1,2)] n(3) by auto
    have "t \<notin> set ch' \<and> same_task (tasks (co w) t) (tasks s' t)"
      using out t aw [OF _ n] unfolding outcome_def by blast
    then show ?thesis using t(1) unfolding same_task_def by fastforce
  qed
  have "sleep_inv X ch' (w\<lparr>co := s'\<rparr>)"
    unfolding sleep_inv_def
  proof (intro conjI allI impI)
    show "sched_inv (co (w\<lparr>co := s'\<rparr>)) ch'" "defers_ok (co (w\<lparr>co := s'\<rparr>))" using out by (simp_all add: outcome_def)
    fix n nd assume n: "n \<notin> X" "nodes (w\<lparr>co := s'\<rparr>) n = Some nd"
    then have n': "nodes w n = Some nd" by simp
    obtain t where t: "callback nd = Some SLEEP_CB" "userdata nd = co_ptr (Some (Task t))"
      using i(4) [OF n(1) n'] by blast
    show "callback nd = Some SLEEP_CB" using t by simp
    show "\<exists>t. userdata nd = co_ptr (Some (Task t)) \<and> tasks (co (w\<lparr>co := s'\<rparr>)) t \<noteq> None \<and> t \<notin> set ch'"
      using kept [OF n(1) n' t(2)] t(2) by auto
  next
    show "next_node (w\<lparr>co := s'\<rparr>) \<le> n \<Longrightarrow> nodes (w\<lparr>co := s'\<rparr>) n = None" for n using i(3) by simp
    show "tw_num (w\<lparr>co := s'\<rparr>) = of_nat (card (dom (nodes (w\<lparr>co := s'\<rparr>)) - X))" using i(6) by simp
    fix n m nd md
    assume "n \<notin> X" "m \<notin> X" "nodes (w\<lparr>co := s'\<rparr>) n = Some nd" "nodes (w\<lparr>co := s'\<rparr>) m = Some md" "userdata nd = userdata md"
    then show "n = m" using i(5) by simp
  qed
  then show ?thesis using kept by (simp add: sleep_ext_def)
qed

lemma co_step_ok:
  assumes inv: "sleep_inv X ch w" and can: "can_sl (Co y) w (co w)"
  shows "\<exists>s' ch'. co_do y (co w) = Some s' \<and> sleep_inv X ch' (w\<lparr>co := s'\<rparr>) \<and> sleep_ext X w (w\<lparr>co := s'\<rparr>)"
proof -
  have cd: "can_do y (co w)" using can by (simp add: can_sl_def)
  obtain s' ch' where s': "co_do y (co w) = Some s'" "outcome y (co w) ch s' ch'"
    using step_ok [OF sleep_invD(1,2) [OF inv] cd] by blast
  have "wmCoroutine_get_by_cid (co w) cid \<noteq> Some (Task t)"
    if y: "y = Resume cid" and n: "nodes w n = Some nd" "userdata nd = co_ptr (Some (Task t))" for cid n nd t
  proof
    assume "wmCoroutine_get_by_cid (co w) cid = Some (Task t)"
    then have "\<not> asleep w (Task t)" using can y by (simp add: can_sl_def)
    moreover have "n < next_node w" using sleep_invD(3) [OF inv, of n] n(1) not_less by fastforce
    ultimately show False using n by (auto simp: asleep_def)
  qed
  then show ?thesis using sched_step_ok [OF inv s'(2)] s'(1) by blast
qed

text \<open>Falling asleep: the node names the coroutine, which is put into the table of yielded ones.\<close>

definition sleep_ticks :: "rat \<Rightarrow> u32" where
  "sleep_ticks s = word_of_int \<lfloor>(if s < 1 / 1000 then 1 / 1000 else s) * 1000\<rfloor>"

lemma sleep_ok:
  assumes inv: "sleep_inv X ch w" and P: "armable P" "P w" and t: "current_task (co w) = Some (Task t)"
    "tasks (co w) t = Some c" and s: "s * 1000 < 2 ^ 32" and X: "X \<subseteq> {..<next_node w}"
  shows "\<exists>w'. wmCoroutine_sleep w s = Some w' \<and> P w' \<and> sleep_inv X (tl ch) w' \<and> sleep_ext X w w' \<and>
    next_node w' = next_node w + 1 \<and> current_task (co w') = origin c \<and>
    nodes w' = (nodes w)(next_node w \<mapsto> \<lparr>userdata = co_ptr (Some (Task t)), callback = Some SLEEP_CB,
                   expire = currtick w + add_ticks (sleep_ticks s)\<rparr>) \<and>
    tasks (co w') t = Some (c\<lparr>vm := EG (co w)\<rparr>)"
proof -
  note i = sleep_invD [OF inv]
  obtain w1 where w1: "wmTimerWheel_add_quick w (Some SLEEP_CB) (co_ptr (Some (Task t))) (sleep_ticks s) = Some (next_node w, w1)" "P w1"
    using armableD(2) [OF P] by blast
  note g = add_quick_world [OF w1(1)]
  have f: "co w1 = co w" "runs w1 = runs w" "woken w1 = woken w" using world_fields g by blast+
  obtain q d ts s' where s': "ch = t # ts" "wmCoroutine_yield (co w) = Some s'" "current_task s' = Some q" "origin c = Some q"
      "tasks s' = (tasks (co w))(t \<mapsto> c\<lparr>vm := EG (co w)\<rparr>)"
    using yield_ok [OF i(1) t] by blast
  have tc: "t \<notin> set ts" using i(1) t s'(1) by (cases rule: active_cases) auto
  define w' where "w' = w1\<lparr>co := s'\<rparr>"
  have nw: "nodes w' = (nodes w)(next_node w \<mapsto> \<lparr>userdata = co_ptr (Some (Task t)), callback = Some SLEEP_CB,
      expire = currtick w + add_ticks (sleep_ticks s)\<rparr>)" "next_node w' = next_node w + 1" "co w' = s'"
    using g by (simp_all add: w'_def)
  have "in_task (co w)" using t by (simp add: in_task_def)
  then have "outcome Yield (co w) ch s' ts"
    using step_yield [OF i(1,2)] s'(1,2) by auto
  then have y: "sleep_inv X ts (w\<lparr>co := s'\<rparr>)" "sleep_ext X w (w\<lparr>co := s'\<rparr>)" using sched_step_ok [OF inv] by auto
  note j = sleep_invD [OF y(1)]
  have fresh: "n \<noteq> next_node w \<and> userdata nd \<noteq> co_ptr (Some (Task t))" if "n \<notin> X" "nodes w n = Some nd" for n nd
    using i(3) [of n] i(4) [OF that] that(2) s'(1) by auto
  have "sleep_inv X ts w'"
    unfolding sleep_inv_def
  proof (intro conjI allI impI)
    show "sched_inv (co w') ts" "defers_ok (co w')" using j(1,2) by (simp_all add: nw)
    fix n nd assume n: "n \<notin> X" "nodes w' n = Some nd"
    show "callback nd = Some SLEEP_CB" "\<exists>t. userdata nd = co_ptr (Some (Task t)) \<and> tasks (co w') t \<noteq> None \<and> t \<notin> set ts"
      using n j(4) [OF n(1), of nd] tc s'(5) by (auto simp: nw split: if_splits)
  next
    fix n m nd md
    assume n: "n \<notin> X" "m \<notin> X" "nodes w' n = Some nd" "nodes w' m = Some md" "userdata nd = userdata md"
    then show "n = m"
      using i(5) [OF n(1,2), of nd md] fresh [OF n(1), of nd] fresh [OF n(2), of md] by (auto simp: nw split: if_splits)
  next
    show "next_node w' \<le> n \<Longrightarrow> nodes w' n = None" for n using i(3) [of n] by (simp add: nw)
    have "next_node w \<notin> dom (nodes w) - X" "dom (nodes w') - X = insert (next_node w) (dom (nodes w) - X)"
      using i(3) [of "next_node w"] X by (auto simp: nw)
    then have "card (dom (nodes w') - X) = Suc (card (dom (nodes w) - X))" using sleep_inv_finite [OF inv] by simp
    moreover have "tw_num w' = tw_num w + 1" using g by (simp add: w'_def)
    ultimately show "tw_num w' = of_nat (card (dom (nodes w') - X))" using i(6) by simp
  qed
  moreover have "sleep_ext X w w'" using y(2) g f by (simp add: sleep_ext_def w'_def nw)
  moreover have "wmCoroutine_sleep w s = Some w'"
    using s s'(2) w1(1) f t(1) by (auto simp: wmCoroutine_sleep_def wmCoroutine_get_current_def sleep_ticks_def w'_def Let_def not_le)
  moreover have "P w'" unfolding w'_def by (rule armable_co [OF P(1) w1(2)])
  ultimately show ?thesis using nw s' by (auto simp: w'_def)
qed

lemma php_sleep_step:
  assumes inv: "sleep_inv X ch w" and P: "armable P" "P w" and can: "can_sl (Sleep s) w (co w)" and X: "X \<subseteq> {..<next_node w}"
  shows "\<exists>w' ch'. sl_do (Sleep s) w = Some w' \<and> P w' \<and> sleep_inv X ch' w' \<and> sleep_ext X w w'"
proof (cases "s < 1 / 1000")
  case True
  then show ?thesis using inv P by (auto simp: sl_do_def php_sleep_def)
next
  case False
  have "in_task (co w)" using can by (simp add: can_sl_def)
  then obtain t c where t: "current_task (co w) = Some (Task t)" "tasks (co w) t = Some c"
    using in_taskE [OF sleep_invD(1) [OF inv]] by metis
  have "s * 1000 < 2 ^ 32" using can by (simp add: can_sl_def)
  then obtain w' where "wmCoroutine_sleep w s = Some w'" "P w'" "sleep_inv X (tl ch) w'" "sleep_ext X w w'"
    using sleep_ok [OF inv P t _ X] by blast
  then show ?thesis using False by (auto simp: sl_do_def php_sleep_def)
qed

lemma sl_step_ok:
  assumes inv: "sleep_inv X ch w" and P: "armable P" "P w" and can: "can_sl x w (co w)" and X: "X \<subseteq> {..<next_node w}"
  shows "\<exists>w' ch'. sl_do x w = Some w' \<and> P w' \<and> sleep_inv X ch' w' \<and> sleep_ext X w w'"
proof (cases x)
  case (Co y)
  then obtain s' ch' where "co_do y (co w) = Some s'" "sleep_inv X ch' (w\<lparr>co := s'\<rparr>)" "sleep_ext X w (w\<lparr>co := s'\<rparr>)"
    using co_step_ok [OF inv, of y] can by blast
  then show ?thesis using Co armable_co [OF P] by (auto simp: sl_do_def)
qed (use php_sleep_step [OF inv P _ X] can in blast)

lemma main_chain: "sched_inv s ch \<Longrightarrow> \<not> in_task s \<Longrightarrow> ch = []"
  by (erule active_cases) (auto simp: in_task_def)

lemma chain_length:
  assumes "sched_inv s ch"
  shows "length ch \<le> nat (total_num s)"
proof -
  have c: "distinct ch" "set ch \<subseteq> dom (tasks s)"
    using cur_cases [OF assms] chain_live [of s _ ch] by (metis, metis domI subsetI)
  then have "card (set ch) \<le> card (dom (tasks s))" using sched_invD(4) [OF assms] by (intro card_mono)
  then show ?thesis using c(1) sched_invD(5) [OF assms] by (simp add: distinct_card)
qed

lemma come_home_ok:
  assumes "sleep_inv X ch w" "P w" "length ch \<le> k" and P: "armable P"
  shows "\<exists>w'. come_home k w = Some w' \<and> P w' \<and> sleep_inv X [] w' \<and> sleep_ext X w w'"
  using assms(1-3)
proof (induction k arbitrary: ch w)
  case (Suc k)
  show ?case
  proof (cases "in_task (co w)")
    case True
    obtain s' where s': "wmCoroutine_yield (co w) = Some s'" "outcome Yield (co w) ch s' (tl ch)"
      using step_yield [OF sleep_invD(1,2) [OF Suc.prems(1)] True] by blast
    then have st: "sleep_inv X (tl ch) (w\<lparr>co := s'\<rparr>)" "sleep_ext X w (w\<lparr>co := s'\<rparr>)"
      using sched_step_ok [OF Suc.prems(1)] by auto
    have "length (tl ch) \<le> k" using Suc.prems(3) by simp
    then obtain w' where "come_home k (w\<lparr>co := s'\<rparr>) = Some w'" "P w'" "sleep_inv X [] w'" "sleep_ext X (w\<lparr>co := s'\<rparr>) w'"
      using Suc.IH [OF st(1) armable_co [OF P Suc.prems(2)]] by blast
    then show ?thesis
      using True s'(1) sleep_ext_trans [OF sleep_invD(3) [OF Suc.prems(1)] st(2)] by auto
  next
    case False
    then show ?thesis using Suc.prems main_chain [OF sleep_invD(1) [OF Suc.prems(1)]] by auto
  qed
qed simp

lemma run_code_ok:
  assumes "sleep_inv X ch w" "P w" "X \<subseteq> {..<next_node w}" "careful cs" and P: "armable P"
  shows "\<exists>w'. run_code cs w = Some w' \<and> P w' \<and> sleep_inv X [] w' \<and> sleep_ext X w w'"
  using assms(1-4)
proof (induction cs arbitrary: ch w)
  case Nil
  then show ?case using come_home_ok [OF Nil(1,2) chain_length P] sleep_invD(1) by fastforce
next
  case (Cons c cs)
  show ?case
  proof (cases "in_task (co w)")
    case False
    then show ?thesis using Cons.prems main_chain [OF sleep_invD(1) [OF Cons.prems(1)]] by auto
  next
    case it: True
    let ?x = "c (wheel.truncate w) (co w)"
    have can: "can_sl ?x w (co w)" by (rule careful_Cons(1) [OF Cons.prems(4) it])
    obtain w1 ch1 where w1: "sl_do ?x w = Some w1" "P w1" "sleep_inv X ch1 w1" "sleep_ext X w w1"
      using sl_step_ok [OF Cons.prems(1) P Cons.prems(2) can Cons.prems(3)] by blast
    have "X \<subseteq> {..<next_node w1}" using Cons.prems(3) w1(4) by (auto simp: sleep_ext_def)
    then obtain w' where "run_code cs w1 = Some w'" "P w'" "sleep_inv X [] w'" "sleep_ext X w1 w'"
      using Cons.IH [OF w1(3,2) _ careful_Cons(2) [OF Cons.prems(4)]] by blast
    then show ?thesis using it w1(1) sleep_ext_trans [OF sleep_invD(3) [OF Cons.prems(1)] w1(4)] by auto
  qed
qed

section \<open>The callback\<close>

text \<open>\<open>woke w n nd w'\<close>: the coroutine of the node has been woken with its registers; the others sleep on.\<close>

definition task_of :: "sleep_world \<Rightarrow> nat \<Rightarrow> task_ref" where
  "task_of w n = the (ptr_co (userdata (the (nodes w n))))"

definition wake_of :: "sleep_world \<Rightarrow> nat \<Rightarrow> task_ref \<times> vm_regs" where
  "wake_of w n = (task_of w n, vm (the (task_at (co w) (task_of w n))))"

definition woke :: "sleep_world \<Rightarrow> nat \<Rightarrow> timernode \<Rightarrow> sleep_world \<Rightarrow> bool" where
  "woke w n nd w' \<longleftrightarrow> woken w' = woken w @ [wake_of w n] \<and> next_node w \<le> next_node w' \<and>
     (\<forall>k < next_node w. nodes w' k = (if k = n then None else nodes w k)) \<and>
     (\<forall>k. nodes w' k \<noteq> None \<longrightarrow> k < next_node w') \<and>
     (\<forall>k \<noteq> n. nodes w k \<noteq> None \<longrightarrow> wake_of w' k = wake_of w k)"

lemma wake_of_task:
  "nodes w n = Some nd \<Longrightarrow> userdata nd = co_ptr (Some (Task t)) \<Longrightarrow> tasks (co w) t = Some c \<Longrightarrow> wake_of w n = (Task t, vm c)"
  by (simp add: wake_of_def task_of_def task_at_def)

text \<open>Between the callbacks: control is in the main task, and the code still to run is careful.\<close>

definition sleep_rest :: "sleep_world \<Rightarrow> bool" where
  "sleep_rest w \<longleftrightarrow> sleep_inv {} [] w \<and> careful_runs w"

lemma sleep_restD: "sleep_rest w \<Longrightarrow> sleep_inv {} [] w" "sleep_rest w \<Longrightarrow> careful_runs w"
  by (simp_all add: sleep_rest_def)

lemma careful_next:
  assumes "careful_runs w"
  shows "careful (case runs w of [] \<Rightarrow> [] | x # _ \<Rightarrow> x)" "\<forall>cs \<in> set (case runs w of [] \<Rightarrow> [] | _ # r \<Rightarrow> r). careful cs"
  using assms by (cases "runs w"; simp add: careful_runs_def careful_def [of "[]"])+

lemma sleep_inv_free:
  assumes "sleep_inv {n} ch w"
  shows "sleep_inv {} ch (free_node w n)"
proof -
  have "dom (nodes (free_node w n)) - {} = dom (nodes w) - {n}" by (auto simp: free_node_def)
  then show ?thesis using assms unfolding sleep_inv_def by (auto simp: free_node_def simp del: dom_fun_upd)
qed

lemma sleep_inv_cong:
  assumes "sleep_inv X ch w" "nodes w' = nodes w" "next_node w' = next_node w" "co w' = co w" "tw_num w' = tw_num w"
  shows "sleep_inv X ch w'"
  using assms(1) unfolding sleep_inv_def assms(2-5) .

text \<open>The wheel takes out a node whose callback is about to run.\<close>

lemma sleep_inv_take:
  assumes inv: "sleep_inv {} ch w" and n: "nodes w n \<noteq> None"
  shows "sleep_inv {n} ch (take_node w n)"
proof -
  have "card (dom (nodes w)) = Suc (card (dom (nodes w) - {n}))"
    using n by (intro card.remove [OF sleep_inv_finite [OF inv]]) auto
  then have "tw_num (take_node w n) = of_nat (card (dom (nodes w) - {n}))"
    using sleep_invD(6) [OF inv] by (simp add: take_node_def)
  then show ?thesis using inv unfolding sleep_inv_def by (simp add: take_node_def)
qed

lemma wake_resume:
  assumes inv: "sleep_inv {n} [] w" and t: "tasks (co w) t = Some c"
    and others: "\<And>m md. m \<noteq> n \<Longrightarrow> nodes w m = Some md \<Longrightarrow> userdata md \<noteq> co_ptr (Some (Task t))"
  shows "\<exists>s' ch'. wmCoroutine_resume (co w) (Task t) = Some (True, s') \<and> EG s' = vm c \<and>
    sleep_inv {n} ch' (w\<lparr>co := s'\<rparr>) \<and> sleep_ext {n} w (w\<lparr>co := s'\<rparr>)"
proof -
  note i = sleep_invD [OF inv]
  have tab: "tabs (coroutines (co w)) (user_yield_coros (co w)) (key (co w)) {}"
    using sched_invD(2) [OF i(1)] by (simp add: tables_ok_def)
  have cid: "wmCoroutine_get_by_cid (co w) (co_cid c) = Some (Task t)"
    using tabs_get [OF tab, of t] t by (simp add: wmCoroutine_get_by_cid_def key_def)
  have "current_task (co w) \<noteq> Some (Task t)" using i(1) by (cases rule: active_cases) auto
  then have "can_do (Resume (co_cid c)) (co w)" using cid by (simp add: can_do_def)
  then obtain s' ch' b where s': "php_resume (co w) (co_cid c) = Some (b, s')" "outcome (Resume (co_cid c)) (co w) [] s' ch'"
    using step_resume [OF i(1,2)] by blast
  have "sleep_inv {n} ch' (w\<lparr>co := s'\<rparr>) \<and> sleep_ext {n} w (w\<lparr>co := s'\<rparr>)"
    by (rule sched_step_ok [OF inv s'(2)]) (use cid others in auto)
  moreover obtain s1 where "wmCoroutine_resume (co w) (Task t) = Some (True, s1)" "EG s1 = vm c"
    using resume_ok [OF i(1) _ t] by auto
  moreover have "wmCoroutine_resume (co w) (Task t) = Some (b, s')" using s'(1) cid by (simp add: php_resume_def)
  ultimately show ?thesis by auto
qed

lemma sleep_callback_ok:
  assumes fi: "firing (free_node (take_node w n) n) ns" and rest: "sleep_rest w"
    and nd: "nodes w n = Some nd" "n < next_node w" "callback nd = Some cb"
  shows "\<exists>w2. sleep_call cb (userdata nd) (take_node w n) = Some w2 \<and> sleep_rest (free_node w2 n) \<and>
    firing (free_node w2 n) ns \<and> only_frees w (free_node w2 n) \<and> woke w n nd (free_node w2 n)"
proof -
  note inv = sleep_restD(1) [OF rest]
  note i = sleep_invD [OF inv]
  obtain t c where t: "userdata nd = co_ptr (Some (Task t))" "tasks (co w) t = Some c" and cb: "cb = SLEEP_CB"
    using i(4) [OF _ nd(1)] nd(3) by auto
  define w0 where "w0 = take_node w n"
  have w0: "nodes w0 = nodes w" "next_node w0 = next_node w" "co w0 = co w" "currtick w0 = currtick w"
      "lasttime w0 = lasttime w" "interval w0 = interval w" "woken w0 = woken w" "runs w0 = runs w"
    by (simp_all add: w0_def take_node_def)
  have inv0: "sleep_inv {n} [] w0" unfolding w0_def by (rule sleep_inv_take [OF inv]) (simp add: nd(1))
  have others: "userdata md \<noteq> co_ptr (Some (Task t))" if "m \<noteq> n" "nodes w0 m = Some md" for m md
    using i(5) [of n m nd md] nd(1) that t(1) by (auto simp: w0(1))
  have t0: "tasks (co w0) t = Some c" using t(2) by (simp add: w0(3))
  obtain s' ch' where s': "wmCoroutine_resume (co w0) (Task t) = Some (True, s')" "EG s' = vm c"
      "sleep_inv {n} ch' (w0\<lparr>co := s'\<rparr>)" "sleep_ext {n} w0 (w0\<lparr>co := s'\<rparr>)"
    using wake_resume [OF inv0 t0] others by blast
  define xs rest where "xs = (case runs w0 of [] \<Rightarrow> [] | x # _ \<Rightarrow> x)" and "rest = (case runs w0 of [] \<Rightarrow> [] | _ # r \<Rightarrow> r)"
  define w1 where "w1 = w0\<lparr>co := s', runs := rest, woken := woken w0 @ [(Task t, vm c)]\<rparr>"
  have i1: "sleep_inv {n} ch' w1" by (rule sleep_inv_cong [OF s'(3)]) (simp_all add: w1_def)
  have "firing (free_node w1 n) ns \<and> n < next_node w1"
    by (rule armableD(1) [OF armable_firing, of w0]) (use fi nd(2) w0 in \<open>simp_all add: w0_def [symmetric] w1_def\<close>)
  moreover from this have "{n} \<subseteq> {..<next_node w1}" by simp
  moreover have careful: "careful xs" "\<forall>cs \<in> set rest. careful cs"
    using careful_next [OF sleep_restD(2) [OF assms(2)]] by (simp_all add: xs_def rest_def w0(8))
  ultimately obtain w2 where w2: "run_code xs w1 = Some w2" "firing (free_node w2 n) ns" "sleep_inv {n} [] w2" "sleep_ext {n} w1 w2"
    using run_code_ok [OF i1 _ _ _ armable_firing] by blast
  have "careful_runs (free_node w2 n)"
    using careful(2) w2(4) by (simp add: careful_runs_def free_node_def sleep_ext_def w1_def)
  then have settled: "sleep_rest (free_node w2 n)" using sleep_inv_free [OF w2(3)] by (simp add: sleep_rest_def)
  have call: "sleep_call cb (userdata nd) w0 = Some w2"
    using cb t(1) s'(1,2) w2(1)
    by (cases "runs w0") (simp_all add: sleep_call_def sleep_callback_def wake_def w1_def xs_def rest_def)
  have lt: "k < next_node w" if "nodes w k \<noteq> None" for k using i(3) [of k] that not_less by blast
  have kept: "nodes w2 k = nodes w k" if "k < next_node w" for k using w2(4) that by (simp add: sleep_ext_def w1_def w0)
  have wk: "wake_of (free_node w2 n) k = wake_of w k" if k: "k \<noteq> n" "nodes w k \<noteq> None" for k
  proof -
    obtain x where x: "nodes w k = Some x" using k(2) by blast
    obtain u e where u: "userdata x = co_ptr (Some (Task u))" "tasks (co w) u = Some e" using i(4) [OF _ x] by auto
    have "same_task (tasks (co w) u) (tasks s' u)" "same_task (tasks s' u) (tasks (co w2) u)"
      using s'(4) w2(4) k(1) x u(1) by (auto simp: sleep_ext_def w1_def w0)
    then obtain e' where e': "tasks (co w2) u = Some e'" "vm e' = vm e" using u(2) unfolding same_task_def by fastforce
    have "nodes (free_node w2 n) k = Some x" using kept [OF lt [OF k(2)]] x k(1) by (simp add: free_node_def)
    moreover have "co (free_node w2 n) = co w2" by (simp add: free_node_def)
    ultimately show ?thesis using wake_of_task [OF x u] wake_of_task [of "free_node w2 n" k x u e'] u(1) e' by simp
  qed
  have "woken w2 = woken w @ [wake_of w n]" "next_node w \<le> next_node w2"
    using w2(4) wake_of_task [OF nd(1) t] by (simp_all add: sleep_ext_def w1_def w0)
  moreover have "k < next_node w2" if "nodes w2 k \<noteq> None" for k using sleep_invD(3) [OF w2(3), of k] that not_less by blast
  ultimately have "woke w n nd (free_node w2 n)" using kept wk by (simp add: woke_def free_node_def)
  moreover have "only_frees w (free_node w2 n)"
    using w2(4) kept by (simp add: only_frees_def free_node_def sleep_ext_def w1_def w0)
  ultimately show ?thesis using call w2(2) settled by (auto simp: w0_def)
qed

interpretation sl: timer_callbacks sleep_call sleep_rest woke
proof
  fix w w' :: sleep_world
  assume a: "sleep_rest w" "nodes w' = nodes w" "next_node w' = next_node w" "tw_num w' = tw_num w" "wheel.more w' = wheel.more w"
  have "sleep_inv {} [] w'" by (rule sleep_inv_cong [OF sleep_restD(1) [OF a(1)] a(2,3) world_fields(1) [OF a(5)] a(4)])
  moreover have "careful_runs w'"
    using sleep_restD(2) [OF a(1)] world_fields(2) [OF a(5)] by (simp add: careful_runs_def)
  ultimately show "sleep_rest w'" by (simp add: sleep_rest_def)
qed (use sleep_callback_ok in blast)

section \<open>A tick\<close>

lemma chain_woke:
  assumes "fire_chain woke ns w w'" "distinct ns" "\<forall>n \<in> set ns. nodes w n \<noteq> None" "\<forall>n. nodes w n \<noteq> None \<longrightarrow> n < next_node w"
  shows "woken w' = woken w @ map (wake_of w) ns \<and> next_node w \<le> next_node w' \<and>
    (\<forall>k. nodes w k \<noteq> None \<longrightarrow> k \<notin> set ns \<longrightarrow> nodes w' k = nodes w k \<and> wake_of w' k = wake_of w k)"
  using assms
proof (induction ns arbitrary: w)
  case (Cons n ns)
  have n: "nodes w n \<noteq> None" using Cons.prems(3) by simp
  then obtain nd w2 where w2: "nodes w n = Some nd" "woke w n nd w2" "fire_chain woke ns w2 w'" using Cons.prems(1) by auto
  have f: "woken w2 = woken w @ [wake_of w n]" "next_node w \<le> next_node w2"
      "\<And>k. k < next_node w \<Longrightarrow> nodes w2 k = (if k = n then None else nodes w k)"
      "\<And>k. k \<noteq> n \<Longrightarrow> nodes w k \<noteq> None \<Longrightarrow> wake_of w2 k = wake_of w k"
    using w2(2) by (simp_all add: woke_def)
  have same: "nodes w2 k = nodes w k \<and> wake_of w2 k = wake_of w k" if "nodes w k \<noteq> None" "k \<noteq> n" for k
    using that Cons.prems(4) f(3) [of k] f(4) [of k] by simp
  have ne: "k \<noteq> n" "nodes w k \<noteq> None" if "k \<in> set ns" for k using Cons.prems(2,3) that by auto
  have bounded: "\<forall>k. nodes w2 k \<noteq> None \<longrightarrow> k < next_node w2" using w2(2) by (simp add: woke_def)
  have IH: "woken w' = woken w2 @ map (wake_of w2) ns" "next_node w2 \<le> next_node w'"
      "\<And>k. nodes w2 k \<noteq> None \<Longrightarrow> k \<notin> set ns \<Longrightarrow> nodes w' k = nodes w2 k \<and> wake_of w' k = wake_of w2 k"
    using Cons.IH [OF w2(3) _ _ bounded] Cons.prems(2) same ne by auto
  have "map (wake_of w2) ns = map (wake_of w) ns" using same ne by simp
  then show ?case using IH f same by auto
qed simp

text \<open>
  One tick with sleeping coroutines. It returns; the coroutines it wakes are exactly those whose
  time has come, once each, and each goes on with the registers it had when it fell asleep, whatever
  the others did in between; the other sleepers keep their node and their registers; control is
  back in the main task and the invariants hold again.
\<close>

lemma sleep_tick_ok:
  assumes inv: "timer_inv w L" "sleep_rest w"
  shows "\<exists>ns w' L'. wmTimerWheelick sleep_call w = Some w' \<and> distinct ns \<and> set ns = due w \<and>
    woken w' = woken w @ map (wake_of w) ns \<and>
    (\<forall>n. nodes w n \<noteq> None \<longrightarrow> n \<notin> due w \<longrightarrow> nodes w' n = nodes w n \<and> wake_of w' n = wake_of w n) \<and>
    timer_inv w' L' \<and> sleep_rest w' \<and> currtick w' = currtick w + 1"
proof -
  obtain ns h w' L' where t: "distinct ns" "set ns = due w" "wmTimerWheelick sleep_call w = Some w'"
      "timer_inv w' L'" "sleep_rest w'" "only_frees (w\<lparr>currtick := currtick w + 1\<rparr>) w'"
      "fire_chain woke ns (w\<lparr>lnk := h, currtick := currtick w + 1\<rparr>) w'"
    using sl.tick_ok [OF inv] unfolding due_def by blast
  define w1 where "w1 = w\<lparr>lnk := h, currtick := currtick w + 1\<rparr>"
  have w1: "nodes w1 = nodes w" "next_node w1 = next_node w" "woken w1 = woken w" "wake_of w1 = wake_of w"
    by (simp_all add: w1_def wake_of_def task_of_def fun_eq_iff)
  have lt: "\<forall>n. nodes w1 n \<noteq> None \<longrightarrow> n < next_node w1"
    using sleep_invD(3) [OF sleep_restD(1) [OF inv(2)]] w1 by (metis not_less)
  have al: "\<forall>n \<in> set ns. nodes w1 n \<noteq> None" using t(2) w1 by (auto simp: due_def)
  have "currtick w' = currtick w + 1" using t(6) by (simp add: only_frees_def)
  then show ?thesis
    using chain_woke [OF t(7) [folded w1_def] t(1) al lt] t(1-5) unfolding w1 by blast
qed

section \<open>A sleep\<close>

lemma task_of_inj:
  assumes "sleep_inv {} ch w" "nodes w m \<noteq> None" "nodes w n \<noteq> None" "task_of w m = task_of w n"
  shows "m = n"
proof -
  obtain x y where x: "nodes w m = Some x" "nodes w n = Some y" using assms(2,3) by blast
  then have "userdata x = userdata y"
    using sleep_invD(4) [OF assms(1), of m x] sleep_invD(4) [OF assms(1), of n y] assms(4) by (auto simp: task_of_def)
  then show ?thesis using sleep_invD(5) [OF assms(1)] x by blast
qed

definition wakes :: "nat \<Rightarrow> sleep_world \<Rightarrow> vm_regs list" where
  "wakes t w = map snd (filter (\<lambda>x. fst x = Task t) (woken w))"

text \<open>The wake-ups of one tick, as the coroutine of node \<open>n\<close> sees them.\<close>

lemma wakes_tick:
  assumes "sleep_inv {} [] w" "distinct ns" "\<forall>m \<in> set ns. nodes w m \<noteq> None" "nodes w n \<noteq> None"
    "wake_of w n = (Task t, g)" "woken w' = woken w @ map (wake_of w) ns"
  shows "wakes t w' = wakes t w @ (if n \<in> set ns then [g] else [])"
proof -
  have t: "task_of w n = Task t" using assms(5) by (simp add: wake_of_def)
  have "fst (wake_of w m) = Task t \<longleftrightarrow> m = n" if "m \<in> set ns" for m
    using task_of_inj [OF assms(1) _ assms(4), of m] assms(3) that t by (auto simp: wake_of_def)
  then have "filter (\<lambda>m. fst (wake_of w m) = Task t) ns = filter (\<lambda>m. m = n) ns" by (intro filter_cong) auto
  moreover have "filter (\<lambda>m. m = n) ns = (if n \<in> set ns then [n] else [])"
    using assms(2) by (induction ns) auto
  ultimately show ?thesis using assms(5,6) by (simp add: wakes_def filter_map o_def)
qed

lemma sleep_pending:
  assumes "timer_inv w L" "sleep_rest w" "nodes w n = Some nd" "wake_of w n = (Task t, g)"
    "k < unat (expire nd - currtick w)"
  shows "\<exists>w' L'. tick_loop sleep_call 1 (int k) w = Some (0, w') \<and> timer_inv w' L' \<and> sleep_rest w' \<and>
    currtick w' = currtick w + of_nat k \<and> nodes w' n = Some nd \<and> wake_of w' n = (Task t, g) \<and> wakes t w' = wakes t w"
  using assms
proof (induction k arbitrary: w L)
  case 0
  have "tick_loop sleep_call 1 (int 0) w = Some (0, w)" by (subst tick_loop.simps) simp
  then show ?case using 0 by auto
next
  case (Suc k)
  obtain ns w1 L1 where w1: "wmTimerWheelick sleep_call w = Some w1" "distinct ns" "set ns = due w"
      "woken w1 = woken w @ map (wake_of w) ns"
      "\<forall>n. nodes w n \<noteq> None \<longrightarrow> n \<notin> due w \<longrightarrow> nodes w1 n = nodes w n \<and> wake_of w1 n = wake_of w n"
      "timer_inv w1 L1" "sleep_rest w1" "currtick w1 = currtick w + 1"
    using sleep_tick_ok [OF Suc.prems(1,2)] by blast
  have ne: "expire nd - currtick w \<noteq> 0" "expire nd - currtick w \<noteq> 1" using Suc.prems(5) by auto
  then have nd: "n \<notin> due w" using Suc.prems(3) by (auto simp: due_def)
  have "unat (expire nd - currtick w - 1) = unat (expire nd - currtick w) - 1" by (rule unat_minus_one) (rule ne)
  then have k: "k < unat (expire nd - currtick w1)" using Suc.prems(5) w1(8) by (simp add: diff_diff_eq)
  have "nodes w1 n = Some nd" "wake_of w1 n = (Task t, g)" using w1(5) nd Suc.prems(3,4) by auto
  then obtain w' L' where w': "tick_loop sleep_call 1 (int k) w1 = Some (0, w')" "timer_inv w' L'" "sleep_rest w'"
      "currtick w' = currtick w1 + of_nat k" "nodes w' n = Some nd" "wake_of w' n = (Task t, g)" "wakes t w' = wakes t w1"
    using Suc.IH [OF w1(6,7) _ _ k] by blast
  have "tick_loop sleep_call 1 (int (Suc k)) w = Some (0, w')"
    using w1(1) w'(1) by (subst tick_loop.simps) simp
  moreover have "wakes t w1 = wakes t w"
    using wakes_tick [OF sleep_restD(1) [OF Suc.prems(2)] w1(2) _ _ Suc.prems(4) w1(4)] w1(3) nd Suc.prems(3) by (auto simp: due_def)
  ultimately show ?case using w' w1(8) by (intro exI [of _ w'] exI [of _ L']) simp
qed

lemma sleep_ticks_value:
  assumes "s * 1000 < 2 ^ 32"
  shows "0 < nat \<lfloor>max (1 / 1000) s * 1000\<rfloor>" "unat (add_ticks (sleep_ticks s)) = nat \<lfloor>max (1 / 1000) s * 1000\<rfloor>"
proof -
  define k where "k = \<lfloor>max (1 / 1000) s * 1000\<rfloor>"
  have m: "(if s < 1 / 1000 then 1 / 1000 else s) = max (1 / 1000) s" by simp
  have "1 \<le> max (1 / 1000) s * 1000" "max (1 / 1000) s * 1000 < 2 ^ 32" using assms by (auto simp: max_def)
  then have k: "1 \<le> k" "k < 2 ^ 32" unfolding k_def by (simp_all add: le_floor_iff floor_less_iff)
  then have "uint (word_of_int k :: u32) = k" by (simp add: take_bit_int_eq_self unsigned_of_int)
  then have u: "unat (sleep_ticks s) = nat k" unfolding sleep_ticks_def m k_def [symmetric] by (metis nat_uint_eq)
  then have "0 < sleep_ticks s" using k(1) by (simp add: word_less_nat_alt)
  then show "unat (add_ticks (sleep_ticks s)) = nat \<lfloor>max (1 / 1000) s * 1000\<rfloor>" using u by (simp add: add_ticks_def k_def)
  show "0 < nat \<lfloor>max (1 / 1000) s * 1000\<rfloor>" using k(1) by (simp add: k_def)
qed

text \<open>Falling asleep, what the coroutines that are left running do, and the tick of the waking.\<close>

lemma fall_asleep:
  assumes inv: "timer_inv w L" "sleep_inv {} (t # ts) w" "tasks (co w) t = Some c" and s: "s * 1000 < 2 ^ 32"
    and d: "d = nat \<lfloor>max (1 / 1000) s * 1000\<rfloor>"
  shows "\<exists>w1 L1 n nd. wmCoroutine_sleep w s = Some w1 \<and> current_task (co w1) = origin c \<and>
    timer_inv w1 L1 \<and> sleep_inv {} ts w1 \<and> wakes t w1 = wakes t w \<and> nodes w1 n = Some nd \<and>
    wake_of w1 n = (Task t, EG (co w)) \<and> unat (expire nd - currtick w1) = d \<and> 0 < d \<and>
    tw_num w1 = tw_num w + 1 \<and> lasttime w1 = lasttime w \<and> interval w1 = interval w \<and> remainder w1 = remainder w \<and>
    runs w1 = runs w"
proof -
  note i = sleep_invD [OF inv(2)]
  have t: "current_task (co w) = Some (Task t)" "tasks (co w) t = Some c"
    using i(1) inv(3) by (cases rule: active_cases; auto)+
  define n where "n = next_node w"
  define nd where "nd = \<lparr>userdata = co_ptr (Some (Task t)), callback = Some SLEEP_CB, expire = currtick w + add_ticks (sleep_ticks s)\<rparr>"
  obtain w1 where w1: "wmCoroutine_sleep w s = Some w1" "\<exists>L. timer_inv w1 L" "sleep_inv {} ts w1" "sleep_ext {} w w1"
      "current_task (co w1) = origin c" "nodes w1 = (nodes w)(n \<mapsto> nd)" "tasks (co w1) t = Some (c\<lparr>vm := EG (co w)\<rparr>)"
    using sleep_ok [OF inv(2) armable_steady [OF steady_resting] _ t s empty_subsetI] inv(1) unfolding n_def nd_def by auto
  have n1: "nodes w1 n = Some nd" "wake_of w1 n = (Task t, EG (co w))"
    using w1(6) wake_of_task [of w1 n nd t] w1(7) by (simp_all add: nd_def)
  have c1: "currtick w1 = currtick w" "lasttime w1 = lasttime w" "interval w1 = interval w" "wakes t w1 = wakes t w"
      "runs w1 = runs w"
    using w1(4) by (simp_all add: sleep_ext_def wakes_def)
  have "unat (expire nd - currtick w1) = d" "0 < d"
    using sleep_ticks_value [OF s] c1(1) d by (simp_all add: nd_def)
  moreover have "tw_num w1 = tw_num w + 1" "remainder w1 = remainder w"
    using w1(1) by (auto simp: wmCoroutine_sleep_def Let_def add_quick_eq bind_eq_Some_conv split: if_splits)
  ultimately show ?thesis using w1(1-3,5) n1 c1(2-5) by auto
qed

lemma sleeper_kept:
  assumes inv: "timer_inv w L" "sleep_inv {} ch w" "careful_runs w" "careful cs"
    and n: "nodes w n = Some nd" "wake_of w n = (Task t, g)"
  shows "\<exists>w' L'. run_code cs w = Some w' \<and> timer_inv w' L' \<and> sleep_rest w' \<and> wakes t w' = wakes t w \<and>
    nodes w' n = Some nd \<and> wake_of w' n = (Task t, g) \<and> currtick w' = currtick w"
proof -
  obtain w' where w': "run_code cs w = Some w'" "\<exists>L. timer_inv w' L" "sleep_inv {} [] w'" "sleep_ext {} w w'"
    using run_code_ok [OF inv(2) _ empty_subsetI inv(4) armable_steady [OF steady_resting]] inv(1) by blast
  note i = sleep_invD [OF inv(2)]
  have "n < next_node w" using i(3) [of n] n(1) not_less by fastforce
  then have nd: "nodes w' n = Some nd" using w'(4) n(1) by (simp add: sleep_ext_def)
  obtain u e where u: "userdata nd = co_ptr (Some (Task u))" "tasks (co w) u = Some e" using i(4) [OF _ n(1)] by auto
  have g: "u = t" "vm e = g" using wake_of_task [OF n(1) u] n(2) by simp_all
  have "same_task (tasks (co w) u) (tasks (co w') u)" using w'(4) n(1) u(1) by (simp add: sleep_ext_def)
  then obtain e' where e': "tasks (co w') u = Some e'" "vm e' = vm e" using u(2) unfolding same_task_def by fastforce
  have "wake_of w' n = (Task t, g)" using wake_of_task [OF nd u(1) e'(1)] e'(2) g by simp
  moreover have "sleep_rest w'" using w'(3,4) inv(3) by (simp add: sleep_rest_def careful_runs_def sleep_ext_def)
  ultimately show ?thesis using w'(1,2,4) nd by (auto simp: sleep_ext_def wakes_def)
qed

lemma sleeper_wakes:
  assumes inv: "timer_inv w L" "sleep_rest w" and n: "nodes w n = Some nd" "wake_of w n = (Task t, g)"
    and d: "unat (expire nd - currtick w) = d" "0 < d"
  shows "\<exists>w2 w3 L3. tick_loop sleep_call 1 (int (d - 1)) w = Some (0, w2) \<and> wakes t w2 = wakes t w \<and>
    wmTimerWheelick sleep_call w2 = Some w3 \<and> wakes t w3 = wakes t w @ [g] \<and> timer_inv w3 L3 \<and> sleep_rest w3"
proof -
  have "d - 1 < unat (expire nd - currtick w)" using d by simp
  then obtain w2 L2 where w2: "tick_loop sleep_call 1 (int (d - 1)) w = Some (0, w2)" "timer_inv w2 L2" "sleep_rest w2"
      "currtick w2 = currtick w + of_nat (d - 1)" "nodes w2 n = Some nd" "wake_of w2 n = (Task t, g)" "wakes t w2 = wakes t w"
    using sleep_pending [OF inv n] by blast
  have "currtick w2 + 1 = currtick w + of_nat d" using w2(4) d(2) by (cases d) (simp_all add: add.assoc add.commute)
  moreover have "of_nat d = expire nd - currtick w" using d(1) by (metis of_nat_unat ucast_id)
  ultimately have "n \<in> due w2" using w2(5) by (simp add: due_def)
  then obtain ns w3 L3 where w3: "wmTimerWheelick sleep_call w2 = Some w3" "distinct ns" "set ns = due w2" "n \<in> set ns"
      "woken w3 = woken w2 @ map (wake_of w2) ns" "timer_inv w3 L3" "sleep_rest w3"
    using sleep_tick_ok [OF w2(2,3)] by blast
  then have "wakes t w3 = wakes t w2 @ [g]"
    using wakes_tick [OF sleep_restD(1) [OF w2(3)] w3(2) _ _ w2(6) w3(5)] w2(5) by (auto simp: due_def)
  then show ?thesis using w2(1,7) w3(1,6,7) by auto
qed


text \<open>
  C32: a sleeping coroutine that is resumed by another one. It goes on at once, but its timer is not
  taken off the wheel: when the coroutine has ended before its time, the callback follows the
  pointer to the freed structure.
\<close>

theorem coroutine_sleep_early:
  assumes inv: "sleep_inv {} [] w" and n: "nodes w n = Some nd" "userdata nd = co_ptr (Some (Task t))"
    and nodefer: "map_option defer_tasks (tasks (co w) t) = Some None"
  shows "\<exists>s1 s2. wmCoroutine_resume (co w) (Task t) = Some (True, s1) \<and> can_do Exit s1 \<and>
    main_func_exit s1 = Some s2 \<and> nodes (w\<lparr>co := s2\<rparr>) n = Some nd \<and>
    sleep_call SLEEP_CB (userdata nd) (w\<lparr>co := s2\<rparr>) = None"
proof -
  note i = sleep_invD [OF inv]
  obtain c where c: "tasks (co w) t = Some c" "defer_tasks c = None" using nodefer by auto
  obtain s1 where s1: "wmCoroutine_resume (co w) (Task t) = Some (True, s1)" "sched_inv s1 [t]"
      "current_task s1 = Some (Task t)" "tasks s1 t = Some (c\<lparr>origin := Some (cur (co w))\<rparr>)"
    using resume_ok [OF i(1) _ c(1)] by auto
  obtain s2 where s2: "main_func_exit s1 = Some s2" "tasks s2 = (tasks s1)(t := None)"
    using exit_ok [OF s1(2-4)] by blast
  have "can_do Exit s1" using s1(3,4) c(2) by (simp add: can_do_def)
  moreover have "sleep_call SLEEP_CB (userdata nd) (w\<lparr>co := s2\<rparr>) = None"
    using s2(2) n(2) by (simp add: sleep_call_def sleep_callback_def wake_def wmCoroutine_resume_def task_at_def)
  ultimately show ?thesis using s1(1) s2(1) n(1) by auto
qed

section \<open>Witnesses\<close>

text \<open>The first coroutine of a worker runs, with an empty wheel; and the same after it has called \<open>sleep\<close>.\<close>

definition sleep_blank :: "sched \<Rightarrow> sleep_world" where
  "sleep_blank s = \<lparr>lnk = \<lparr>nxt = (\<lambda>_. NullA), prv = (\<lambda>_. NullA)\<rparr>, nodes = Map.empty, next_node = 0, lasttime = 0,
     currtick = 0, interval = 0, remainder = 0, tw_num = 0, co = s, runs = [[cautious (Sleep 1)], [cautious (Co Exit)]], woken = []\<rparr>"

definition sleep_boot :: "sched \<Rightarrow> sleep_world" where
  "sleep_boot s = wmTimerWheel_init (sleep_blank s) 1 1000"

lemma sleep_boot_fields [simp]:
  "nodes (sleep_boot s) = Map.empty" "next_node (sleep_boot s) = 0" "co (sleep_boot s) = s" "woken (sleep_boot s) = []"
  "currtick (sleep_boot s) = 0" "tw_num (sleep_boot s) = 0" "lasttime (sleep_boot s) = 1000"
  "interval (sleep_boot s) = 1" "remainder (sleep_boot s) = 0"
  by (simp_all add: sleep_boot_def sleep_blank_def wmTimerWheel_init_def)

lemma sleep_boot_inv: "\<exists>L. timer_inv (sleep_boot s) L"
proof -
  have "timer_inv (wmTimerWheel_init (sleep_blank s) 1 1000) (\<lambda>p. if p \<in> wheel_slots then Some [] else None)"
    by (rule init_ok) (simp add: sleep_blank_def)
  then show ?thesis unfolding sleep_boot_def by blast
qed

lemma sleep_boot_careful: "careful_runs (sleep_boot s)"
proof -
  have "runs (sleep_boot s) = [map cautious [Sleep 1], map cautious [Co Exit]]"
    by (simp add: sleep_boot_def sleep_blank_def wmTimerWheel_init_def)
  then show ?thesis using cautious_careful [of "[Sleep 1]"] cautious_careful [of "[Co Exit]"] by (simp add: careful_runs_def)
qed

lemma first_awake:
  "\<exists>s c. current_task s = Some (Task 0) \<and> tasks s 0 = Some c \<and> defer_tasks c = None \<and> sleep_inv {} [0] (sleep_boot s)"
proof -
  obtain s c where s: "co_reach s" "current_task s = Some (Task 0)" "tasks s 0 = Some c" "defer_tasks c = None" "origin c = Some Main"
    using first_coroutine by blast
  obtain ch where ch: "sched_inv s ch" "defers_ok s" using reach_inv [OF s(1)] by blast
  obtain ts where "ch = 0 # ts" "chain s (Some Main) ts"
    using ch(1) s(2,3,5) by (cases rule: active_cases) auto
  then have "ch = [0]" by (cases ts) auto
  then have "sleep_inv {} [0] (sleep_boot s)" using ch by (simp add: sleep_inv_def)
  then show ?thesis using s by blast
qed

lemma first_asleep:
  "\<exists>w L c nd. timer_inv w L \<and> sleep_inv {} [] w \<and> nodes w = [0 \<mapsto> nd] \<and> userdata nd = co_ptr (Some (Task 0)) \<and>
     expire nd = currtick w + 1 \<and> tasks (co w) 0 = Some c \<and> defer_tasks c = None \<and> interval w = 1 \<and> careful_runs w"
proof -
  obtain s c where s: "current_task s = Some (Task 0)" "tasks s 0 = Some c" "defer_tasks c = None" "sleep_inv {} [0] (sleep_boot s)"
    using first_awake by blast
  obtain w where w: "\<exists>L. timer_inv w L" "sleep_inv {} [] w" "sleep_ext {} (sleep_boot s) w"
      "nodes w = [0 \<mapsto> \<lparr>userdata = co_ptr (Some (Task 0)), callback = Some SLEEP_CB, expire = 0 + add_ticks (sleep_ticks 0)\<rparr>]"
      "tasks (co w) 0 = Some (c\<lparr>vm := EG s\<rparr>)"
    using sleep_ok [OF s(4) armable_steady [OF steady_resting] sleep_boot_inv, of 0 c 0] s(1,2) by auto
  have "currtick w = 0" "interval w = 1" using w(3) by (simp_all add: sleep_ext_def)
  moreover have "careful_runs w" using w(3) sleep_boot_careful [of s] by (simp add: sleep_ext_def careful_runs_def)
  moreover have "sleep_ticks 0 = 1" by (simp add: sleep_ticks_def)
  ultimately show ?thesis using w s(3) by (fastforce simp: add_ticks_def)
qed


theorem coroutine_sleep_early_witness:
  "\<exists>w s1 s2 nd. wmCoroutine_resume (co w) (Task 0) = Some (True, s1) \<and> main_func_exit s1 = Some s2 \<and>
     nodes w 0 = Some nd \<and> sleep_call SLEEP_CB (userdata nd) (w\<lparr>co := s2\<rparr>) = None"
proof -
  obtain w c nd where w: "sleep_inv {} [] w" "nodes w = [0 \<mapsto> nd]" "userdata nd = co_ptr (Some (Task 0))"
      "tasks (co w) 0 = Some c" "defer_tasks c = None"
    using first_asleep by blast
  have "nodes w 0 = Some nd" "map_option defer_tasks (tasks (co w) 0) = Some None" using w by simp_all
  from coroutine_sleep_early [OF w(1) this(1) w(3) this(2)] \<open>nodes w 0 = Some nd\<close> show ?thesis by blast
qed

end
