(* ===== verification/Wm_EventLoop.thy ===== *)
theory Wm_EventLoop
  imports Wm_Sleep Wm_Loop
begin

text \<open>
  The two loops that drive the coroutines and the timer wheel: \<open>wm_event_wait\<close> of
  \<open>src/core/base.c\<close> (\<open>Coroutine::wait\<close>) and \<open>wmWorkerLoop_loop\<close> of \<open>src/worker/loop.c\<close>. A turn is
  what \<open>epoll_wait\<close> reports, and the clock that is read after its events have been handled. A list of
  turns that comes to an end while the loop is running stands for a loop that still waits.
  \<open>None\<close> is undefined behaviour or \<open>exit\<close>.
\<close>

section \<open>The poll structure\<close>

text \<open>\<open>wmPoll_t\<close> and \<open>is_running\<close> of \<open>WorkerG\<close>; nothing in the program counts \<open>event_num\<close> up.\<close>

record loop_poll =
  has_poll :: bool
  event_num :: int
  is_running :: bool

text \<open>\<open>init_wmPoll\<close>, with the answer of \<open>epoll_create\<close>; \<open>free_wmPoll\<close>.\<close>

definition open_wmPoll :: "bool \<Rightarrow> loop_poll \<Rightarrow> loop_poll" where
  "open_wmPoll created l =
    (if \<not> has_poll l then (if created then l\<lparr>has_poll := True, event_num := 0\<rparr> else l) else l)"

definition free_wmPoll :: "loop_poll \<Rightarrow> loop_poll" where
  "free_wmPoll l = (if has_poll l then l\<lparr>has_poll := False, is_running := False\<rparr> else l)"

section \<open>Coroutine::wait\<close>

text \<open>
  An event of \<open>wm_event_wait\<close>: the 64 bits of data are read as a descriptor and the id of a coroutine
  (an \<open>int\<close>, extended to \<open>long\<close> by the lookup); a null pointer is dereferenced when there is none.
\<close>

definition resume_event :: "u64 \<Rightarrow> sleep_world \<Rightarrow> sleep_world option" where
  "resume_event u w =
    (let (fd, cid) = fromuint64 u in
     case wmCoroutine_get_by_cid (co w) (scast cid) of None \<Rightarrow> None | Some r \<Rightarrow> wake r w)"

fun resume_events :: "u64 list \<Rightarrow> sleep_world \<Rightarrow> sleep_world option" where
  "resume_events [] w = Some w"
| "resume_events (u # us) w = Option.bind (resume_event u w) (resume_events us)"

text \<open>The wheel is updated only while it holds timers.\<close>

definition timers_turn :: "u64 \<Rightarrow> sleep_world \<Rightarrow> sleep_world option" where
  "timers_turn now w = (if 0 < tw_num w then wmTimerWheel_update sleep_call w now else Some w)"

definition event_turn :: "u64 list \<times> u64 \<Rightarrow> loop_poll \<times> sleep_world \<Rightarrow> (loop_poll \<times> sleep_world) option" where
  "event_turn t x =
    (let (us, now) = t; (l, w) = x in
     Option.bind (resume_events us w) (\<lambda>w.
     if 0 < tw_num w then map_option (Pair l) (timers_turn now w)
     else if event_num l = 0 then Some (l\<lparr>is_running := False\<rparr>, w)
     else Some (l, w)))"

fun event_loop :: "(u64 list \<times> u64) list \<Rightarrow> loop_poll \<times> sleep_world \<Rightarrow> (loop_poll \<times> sleep_world) option" where
  "event_loop [] x = Some x"
| "event_loop (t # ts) x = (if is_running (fst x) then Option.bind (event_turn t x) (event_loop ts) else Some x)"

definition wm_event_wait ::
    "bool \<Rightarrow> (u64 list \<times> u64) list \<Rightarrow> loop_poll \<times> sleep_world \<Rightarrow> (loop_poll \<times> sleep_world) option" where
  "wm_event_wait created ts x =
    (let l = open_wmPoll created (fst x) in
     if \<not> has_poll l then None
     else
       map_option (\<lambda>(l, w). if is_running l then (l, w) else (free_wmPoll l, w))
         (event_loop ts (l\<lparr>is_running := True\<rparr>, snd x)))"

section \<open>The loop of a worker\<close>

text \<open>
  A ready event: the socket, its loop type and the mask. What a handler of \<open>Wm_Loop\<close> does to the
  coroutines is a parameter here.
\<close>

definition worker_event ::
    "(handler \<Rightarrow> 's \<Rightarrow> u32 \<Rightarrow> 'w \<Rightarrow> 'w option) \<Rightarrow> 's \<times> loop_type \<times> u32 \<Rightarrow> 'w \<Rightarrow> 'w option" where
  "worker_event fn e w =
    (let (socket, lt, evs) = e;
         call = (\<lambda>ev w. case loop_handler ev lt of None \<Rightarrow> Some w | Some h \<Rightarrow> fn h socket ev w) in
     Option.bind (if evs AND EPOLLIN \<noteq> 0 then call EPOLLIN w else Some w) (\<lambda>w.
     if evs AND EPOLLOUT \<noteq> 0 then call EPOLLOUT w else Some w))"

fun worker_events ::
    "(handler \<Rightarrow> 's \<Rightarrow> u32 \<Rightarrow> 'w \<Rightarrow> 'w option) \<Rightarrow> ('s \<times> loop_type \<times> u32) list \<Rightarrow> 'w \<Rightarrow> 'w option" where
  "worker_events fn [] w = Some w"
| "worker_events fn (e # es) w = Option.bind (worker_event fn e w) (worker_events fn es)"

fun worker_loop ::
    "(handler \<Rightarrow> 's \<Rightarrow> u32 \<Rightarrow> sleep_world \<Rightarrow> sleep_world option) \<Rightarrow> (('s \<times> loop_type \<times> u32) list \<times> u64) list
     \<Rightarrow> loop_poll \<times> sleep_world \<Rightarrow> (loop_poll \<times> sleep_world) option" where
  "worker_loop fn [] x = Some x"
| "worker_loop fn ((es, now) # ts) x =
    (if is_running (fst x)
     then Option.bind (worker_events fn es (snd x)) (\<lambda>w.
          Option.bind (timers_turn now w) (\<lambda>w. worker_loop fn ts (fst x, w)))
     else Some x)"

definition wmWorkerLoop_loop ::
    "bool \<Rightarrow> (handler \<Rightarrow> 's \<Rightarrow> u32 \<Rightarrow> sleep_world \<Rightarrow> sleep_world option) \<Rightarrow> (('s \<times> loop_type \<times> u32) list \<times> u64) list
     \<Rightarrow> loop_poll \<times> sleep_world \<Rightarrow> (loop_poll \<times> sleep_world) option" where
  "wmWorkerLoop_loop created fn ts x =
    (let l = open_wmPoll created (fst x) in
     if \<not> has_poll l then None
     else
       map_option (\<lambda>(l, w). if is_running l then (l, w) else (free_wmPoll l, w))
         (worker_loop fn ts (l\<lparr>is_running := True\<rparr>, snd x)))"

section \<open>A turn of the timers\<close>

lemma timers_turn_ok:
  assumes "timer_inv w L" "sleep_rest w" "0 < interval w"
  shows "\<exists>w' L'. timers_turn now w = Some w' \<and> timer_inv w' L' \<and> sleep_rest w' \<and> interval w' = interval w"
  using sl.update_defined [OF assms, of now] assms by (auto simp: timers_turn_def)

lemma wakes_grow:
  assumes "timer_inv w L" "sleep_rest w"
  shows "\<exists>w' L' more. tick_loop sleep_call 1 (int k) w = Some (0, w') \<and> timer_inv w' L' \<and> sleep_rest w' \<and>
    wakes t w' = wakes t w @ more"
  using assms
proof (induction k arbitrary: w L)
  case 0
  have "tick_loop sleep_call 1 (int 0) w = Some (0, w)" by (subst tick_loop.simps) simp
  then show ?case using 0 by auto
next
  case (Suc k)
  obtain ns w1 L1 where w1: "wmTimerWheelick sleep_call w = Some w1" "timer_inv w1 L1" "sleep_rest w1"
      "woken w1 = woken w @ map (wake_of w) ns"
    using sleep_tick_ok [OF Suc.prems] by blast
  obtain w' L' more where "tick_loop sleep_call 1 (int k) w1 = Some (0, w')" "timer_inv w' L'" "sleep_rest w'"
      "wakes t w' = wakes t w1 @ more"
    using Suc.IH [OF w1(2,3)] by blast
  moreover have "tick_loop sleep_call 1 (int (Suc k)) w = tick_loop sleep_call 1 (int k) w1"
    using w1(1) by (subst tick_loop.simps) simp
  moreover have "\<exists>m. wakes t w1 = wakes t w @ m" using w1(4) by (simp add: wakes_def)
  ultimately show ?case by (metis append.assoc)
qed

text \<open>Between turns: the wheel and the scheduler are at rest, and the code to run is careful.\<close>

definition at_rest :: "sleep_world \<Rightarrow> bool" where
  "at_rest w \<longleftrightarrow> (\<exists>L. timer_inv w L) \<and> sleep_rest w \<and> 0 < interval w"

section \<open>The loops\<close>

definition nobody_sleeps :: "sleep_world \<Rightarrow> bool" where
  "nobody_sleeps w \<longleftrightarrow> (\<forall>t. \<not> asleep w (Task t))"

lemma no_timers:
  assumes "at_rest w" "tw_num w = 0"
  shows "nobody_sleeps w \<or> 2 ^ 32 \<le> card (dom (nodes w))"
proof (rule disjCI)
  assume c: "\<not> 2 ^ 32 \<le> card (dom (nodes w))"
  have inv: "sleep_inv {} [] w" using assms(1) by (simp add: at_rest_def sleep_rest_def)
  have "unat (of_nat (card (dom (nodes w))) :: u32) = card (dom (nodes w))"
    using c by (simp add: unat_of_nat take_bit_nat_eq_self)
  then have "card (dom (nodes w)) = 0" using sleep_invD(6) [OF inv] assms(2) by simp
  then have "nodes w = Map.empty" using sleep_inv_finite [OF inv] by simp
  then show "nobody_sleeps w" by (simp add: nobody_sleeps_def asleep_def)
qed

lemma event_turn_ok:
  assumes "at_rest w"
  shows "\<exists>l' w'. event_turn ([], now) (l, w) = Some (l', w') \<and> at_rest w' \<and>
    has_poll l' = has_poll l \<and> (is_running l' = is_running l \<or> \<not> is_running l' \<and> tw_num w' = 0)"
proof -
  obtain w' where "timers_turn now w = Some w'" "at_rest w'"
    using timers_turn_ok [of w _ now] assms unfolding at_rest_def by metis
  then show ?thesis using assms by (auto simp: event_turn_def word_greater_zero_iff)
qed

lemma event_loop_ok:
  assumes "at_rest w" "is_running l"
  shows "\<exists>l' w'. event_loop (map (Pair []) nows) (l, w) = Some (l', w') \<and> at_rest w' \<and> has_poll l' = has_poll l \<and>
    (is_running l' \<or> tw_num w' = 0)"
  using assms
proof (induction nows arbitrary: l w)
  case (Cons now nows)
  obtain l1 w1 where x: "event_turn ([], now) (l, w) = Some (l1, w1)" "at_rest w1" "has_poll l1 = has_poll l"
      "is_running l1 = is_running l \<or> \<not> is_running l1 \<and> tw_num w1 = 0"
    using event_turn_ok [OF Cons.prems(1)] by blast
  show ?case
  proof (cases "is_running l1")
    case True
    then show ?thesis using Cons.IH [OF x(2), of l1] x Cons.prems by auto
  next
    case False
    then have "event_loop (map (Pair []) nows) (l1, w1) = Some (l1, w1)" by (cases nows) simp_all
    then show ?thesis using x Cons.prems False by auto
  qed
qed simp


text \<open>
  A sleep that begins after an idle time. While the wheel is empty the loops do not move its clock,
  so it still shows the time of the last update; the first update after the sleep has begun counts the
  idle time too, and wakes the coroutine at once when the idle time was as long as the delay.
\<close>

theorem sleep_after_idle:
  assumes inv: "timer_inv w L" "sleep_inv {} [t] w" "careful_runs w" and s: "s * 1000 < 2 ^ 32"
    and d: "d = nat \<lfloor>max (1 / 1000) s * 1000\<rfloor>"
    and idle: "tw_num w = 0" "interval w = 1" "remainder w = 0"
    and now: "unat (lasttime w) + d \<le> unat now" "unat now - unat (lasttime w) < 2 ^ 31"
  shows "(\<forall>c. timers_turn c w = Some w) \<and>
    (\<exists>w1 w2 more. wmCoroutine_sleep w s = Some w1 \<and> timers_turn now w1 = Some w2 \<and>
       wakes t w2 = wakes t w @ EG (co w) # more)"
proof -
  have pos: "0 < d" using sleep_ticks_value(1) [OF s] d by simp
  obtain c where c: "tasks (co w) t = Some c"
    using sleep_invD(1) [OF inv(2)] by (cases rule: active_cases) auto
  obtain w1 L1 n nd where w1: "wmCoroutine_sleep w s = Some w1" "timer_inv w1 L1" "sleep_inv {} [] w1"
      "wakes t w1 = wakes t w" "nodes w1 n = Some nd" "wake_of w1 n = (Task t, EG (co w))"
      "unat (expire nd - currtick w1) = d" "tw_num w1 = tw_num w + 1" "lasttime w1 = lasttime w"
      "interval w1 = interval w" "remainder w1 = remainder w" "runs w1 = runs w"
    using fall_asleep [OF inv(1,2) c s d] by blast
  define v where "v = w1\<lparr>lasttime := now\<rparr>"
  have same: "nodes v = nodes w1" "currtick v = currtick w1" "wake_of v = wake_of w1" "wakes t v = wakes t w1"
    by (simp_all add: v_def wake_of_def task_of_def wakes_def fun_eq_iff)
  have "sleep_inv {} [] v" by (rule sleep_inv_cong [OF w1(3)]) (simp_all add: v_def)
  moreover have "careful_runs v" using inv(3) w1(12) by (simp add: v_def careful_runs_def)
  ultimately have vr: "sleep_rest v" by (simp add: sleep_rest_def)
  have v: "timer_inv v L1" "sleep_rest v" "nodes v n = Some nd" "wake_of v n = (Task t, EG (co w))"
      "unat (expire nd - currtick v) = d" "wakes t v = wakes t w"
    unfolding same using w1 vr base_inv_cong [of w1 L1 v]
    by (simp_all add: timer_inv_def v_def)
  obtain w2 w3 L3 where w3: "tick_loop sleep_call 1 (int (d - 1)) v = Some (0, w2)" "wmTimerWheelick sleep_call w2 = Some w3"
      "wakes t w3 = wakes t v @ [EG (co w)]" "timer_inv w3 L3" "sleep_rest w3"
    using sleeper_wakes [OF v(1-5) pos] by blast
  define el where "el = unat now - unat (lasttime w)"
  obtain w4 more where w4: "tick_loop sleep_call 1 (int (el - d)) w3 = Some (0, w4)" "wakes t w4 = wakes t w3 @ more"
    using wakes_grow [OF w3(4,5)] by blast
  have e: "el = d - 1 + Suc (el - d)" using now(1) pos by (simp add: el_def)
  have "tick_loop sleep_call 1 (int (Suc (el - d))) w2 = tick_loop sleep_call 1 (int (el - d)) w3"
    using w3(2) by (subst tick_loop.simps) simp
  then have run: "tick_loop sleep_call 1 (int el) v = Some (0, w4)"
    using tick_loop_split [OF w3(1), of "Suc (el - d)"] w4(1) e by simp
  have adv: "lasttime w < now" using now(1) pos by (simp add: word_less_nat_alt)
  then have "lasttime w \<le> now" by simp
  then have "unat (now - lasttime w) = el" by (simp add: unat_sub el_def)
  then have "wmTimerWheel_update sleep_call w1 now = Some (w4\<lparr>remainder := 0\<rparr>)"
    using update_ms [of w1 now el sleep_call] adv run w1(9-11) idle now(2) by (simp add: v_def [symmetric] el_def)
  then have "timers_turn now w1 = Some (w4\<lparr>remainder := 0\<rparr>)" using w1(8) idle(1) by (simp add: timers_turn_def)
  moreover have "wakes t (w4\<lparr>remainder := 0\<rparr>) = wakes t w @ EG (co w) # more"
    using w4(2) w3(3) v(6) by (simp add: wakes_def)
  ultimately show ?thesis using w1(1) idle(1) by (auto simp: timers_turn_def)
qed

section \<open>Witnesses\<close>


theorem sleep_after_idle_witness:
  "\<exists>w w1 w2 more. lasttime w = 1000 \<and> wmCoroutine_sleep w (1 / 500) = Some w1 \<and> timers_turn 5000 w1 = Some w2 \<and>
     wakes 0 w2 = EG (co w) # more"
proof -
  obtain s where s: "sleep_inv {} [0] (sleep_boot s)" using first_awake by blast
  obtain L where L: "timer_inv (sleep_boot s) L" using sleep_boot_inv by blast
  have d: "2 = nat \<lfloor>max (1 / 1000) (1 / 500 :: rat) * 1000\<rfloor>" by (simp add: max_def)
  have "wakes 0 (sleep_boot s) = []" by (simp add: wakes_def)
  then obtain w1 w2 more where "wmCoroutine_sleep (sleep_boot s) (1 / 500) = Some w1" "timers_turn 5000 w1 = Some w2"
      "wakes 0 w2 = EG (co (sleep_boot s)) # more"
    using sleep_after_idle [OF L s sleep_boot_careful _ d, of 5000] by auto
  then show ?thesis by (intro exI [of _ "sleep_boot s"] exI [of _ w1] exI [of _ w2] exI [of _ more]) simp
qed

end
