(* ===== verification/Wm_Stream.thy ===== *)
theory Wm_Stream
  imports Wm_Socket_Run Wm_Helper
begin

text \<open>
  The PHP stream over a coroutine socket, \<open>src/runtime.c\<close>: the operations PHP calls on a stream whose
  \<open>tcp\<close> or \<open>udp\<close> transport has been replaced. \<open>snet\<close> is the socket behind the stream with its kernel
  (\<open>None\<close> when the stream has no socket); \<open>read_timeout\<close> is the field of the socket that only the
  streams use. The stream structure, the notification of progress, the warnings and the text of
  addresses and errors belong to PHP and are not modelled.
\<close>

section \<open>State\<close>

record stream =
  snet :: "net option"
  eof :: bool
  read_timeout :: u32
  progress :: int

definition SUCCESS :: int where "SUCCESS = 0"
definition FAILURE :: int where "FAILURE = - 1"
definition PHP_STREAM_OPTION_RETURN_OK :: int where "PHP_STREAM_OPTION_RETURN_OK = 0"
definition PHP_STREAM_OPTION_RETURN_ERR :: int where "PHP_STREAM_OPTION_RETURN_ERR = - 1"
definition WM_SOCKET_DEFAULT_CONNECT_TIMEOUT :: u32 where "WM_SOCKET_DEFAULT_CONNECT_TIMEOUT = 1000"

section \<open>Reading, writing, closing\<close>

text \<open>\<open>old\<close>: PHP before 7.4, where a negative count is reported as 0.\<close>

definition stream_write :: "bool \<Rightarrow> u8 list \<Rightarrow> stream \<Rightarrow> (int \<times> stream) option" where
  "stream_write old buf s =
    (case snet s of
       None \<Rightarrow> Some (0, s)
     | Some n \<Rightarrow>
         Option.bind (wmSocket_write buf n) (\<lambda>(didwrite, n).
         let s = s\<lparr>snet := Some n\<rparr>;
             s = (if 0 < didwrite then s\<lparr>progress := progress s + didwrite\<rparr> else s) in
         Some (if old \<and> didwrite < 0 then 0 else didwrite, s)))"

definition stream_read :: "bool \<Rightarrow> nat \<Rightarrow> stream \<Rightarrow> ((int \<times> u8 list) \<times> stream) option" where
  "stream_read old count s =
    (case snet s of
       None \<Rightarrow> Some ((0, []), s)
     | Some n \<Rightarrow>
         Option.bind (wmSocket_read count (read_timeout s) n) (\<lambda>((nr_bytes, bs), n).
         let s = s\<lparr>snet := Some n, eof := (nr_bytes = WM_SOCKET_ERROR \<or> nr_bytes = WM_SOCKET_CLOSE)\<rparr>;
             s = (if 0 < nr_bytes then s\<lparr>progress := progress s + nr_bytes\<rparr> else s) in
         Some ((if old \<and> nr_bytes < 0 then 0 else nr_bytes, bs), s)))"

text \<open>\<open>socket_close\<close> does not test for a missing socket.\<close>

definition stream_close :: "stream \<Rightarrow> (int \<times> stream) option" where
  "stream_close s = Option.bind (snet s) (\<lambda>n. map_option (\<lambda>_. (0, s\<lparr>snet := None\<rparr>)) (wmSocket_free n))"

definition stream_flush :: "stream \<Rightarrow> int" where
  "stream_flush s = 0"

datatype castas = AS_STDIO | AS_FD_FOR_SELECT | AS_FD | AS_SOCKETD | AS_OTHER

text \<open>\<open>want\<close>: a place for the result is given; for a \<open>FILE\<close> the answer of \<open>fdopen\<close> is 0 when it fails.\<close>

definition stream_cast :: "castas \<Rightarrow> bool \<Rightarrow> stream \<Rightarrow> (int \<times> stream) option" where
  "stream_cast ca want s =
    (case snet s of
       None \<Rightarrow> Some (FAILURE, s)
     | Some n \<Rightarrow>
         (case ca of
            AS_STDIO \<Rightarrow>
              if want then map_option (\<lambda>(f, n). (if f \<noteq> 0 then SUCCESS else FAILURE, s\<lparr>snet := Some n\<rparr>)) (sys Fdopen n)
              else Some (SUCCESS, s)
          | AS_OTHER \<Rightarrow> Some (FAILURE, s)
          | _ \<Rightarrow> Some (SUCCESS, s)))"

definition stream_stat :: "stream \<Rightarrow> (int \<times> stream) option" where
  "stream_stat s =
    (case snet s of
       None \<Rightarrow> Some (FAILURE, s)
     | Some n \<Rightarrow> map_option (\<lambda>(r, n). (r, s\<lparr>snet := Some n\<rparr>)) (sys Fstat n))"

section \<open>The transport operations\<close>

text \<open>
  The parameters PHP passes and the results it takes back (\<open>php_stream_xport_param\<close>). \<open>x_ctx\<close> is the
  context of the stream: the options \<open>so_reuseport\<close>, \<open>so_broadcast\<close> and \<open>tcp_nodelay\<close> of its
  \<open>socket\<close> section.
\<close>

record xparam =
  x_name :: "u8 list"
  x_backlog :: int
  x_timeout :: "(int \<times> int) option"
  x_buf :: "u8 list"
  x_len :: nat
  x_oob :: bool
  x_peek :: bool
  x_addr :: bool
  want_addr :: bool
  want_textaddr :: bool
  x_ctx :: "(bool \<times> bool \<times> bool) option"
  returncode :: int
  error_code :: int
  client :: "(int \<times> wmSocket) option"
  x_data :: "u8 list"

text \<open>Seconds and microseconds in milliseconds, as an unsigned 32-bit number.\<close>

definition timeval_ms :: "int \<times> int \<Rightarrow> u32" where
  "timeval_ms tv = word_of_int (fst tv * 1000 + uint (word_of_int (snd tv) :: u32) div 1000)"

definition xport_timeout :: "xparam \<Rightarrow> u32" where
  "xport_timeout x = (case x_timeout x of None \<Rightarrow> WM_SOCKET_DEFAULT_CONNECT_TIMEOUT | Some tv \<Rightarrow> timeval_ms tv)"

definition stream_bind :: "xparam \<Rightarrow> net \<Rightarrow> (int \<times> net) option" where
  "stream_bind x n =
    (case parse_ip_address_ex (x_name x) of
       None \<Rightarrow> Some (- 1, n)
     | Some (host, port) \<Rightarrow> wm_socket_bind host port n)"

text \<open>Both transports there are take the branch that parses the address.\<close>

definition stream_connect :: "xparam \<Rightarrow> net \<Rightarrow> (int \<times> xparam \<times> net) option" where
  "stream_connect x n =
    Option.bind (if sk_transport (sk n) = WM_SOCK_TCP
                 then map_option snd (sys (Setsockopt ''TCP_NODELAY'') n) else Some n) (\<lambda>n.
    case parse_ip_address_ex (x_name x) of
      None \<Rightarrow> Some (FAILURE, x, n)
    | Some (host, port) \<Rightarrow>
        map_option (\<lambda>(ok, n). if \<not> ok then (- 1, x\<lparr>error_code := errCode (sk n)\<rparr>, n) else (0, x, n))
          (wmSocket_connect port (xport_timeout x) n))"

text \<open>
  \<open>socket_accept\<close>. The address structure it would take the name of the peer from is never filled:
  asking for the name reads it uninitialised.
\<close>

definition stream_accept :: "xparam \<Rightarrow> net \<Rightarrow> (int \<times> xparam \<times> net) option" where
  "stream_accept x n =
    (let x = x\<lparr>client := None\<rparr> in
     Option.bind (wmSocket_accept WM_LOOP_AUTO (xport_timeout x) n) (\<lambda>(clisock, n).
     case clisock of
       None \<Rightarrow> Some (FAILURE, x\<lparr>error_code := errCode (sk n)\<rparr>, n)
     | Some c \<Rightarrow>
         if want_addr x \<or> want_textaddr x then None
         else
           map_option (\<lambda>n. (0, x\<lparr>client := Some c\<rparr>, n))
             (case x_ctx x of
                Some (_, _, True) \<Rightarrow> map_option snd (sys (Setsockopt ''TCP_NODELAY'') n)
              | _ \<Rightarrow> Some n)))"

definition stream_sendto :: "(nat \<Rightarrow> bool) \<Rightarrow> xparam \<Rightarrow> net \<Rightarrow> (int \<times> net) option" where
  "stream_sendto can x n = (if x_addr x then sys (Sendto (x_buf x)) n else wmSocket_send can (x_buf x) n)"

text \<open>Without an address the read does not use the timeout of the stream but one second.\<close>

definition stream_recvfrom :: "u32 \<Rightarrow> xparam \<Rightarrow> net \<Rightarrow> ((int \<times> u8 list) \<times> net) option" where
  "stream_recvfrom rt x n =
    (if want_textaddr x \<or> want_addr x then wmSocket_recvfrom (x_len x) rt n
     else wmSocket_read (x_len x) 1000 n)"

datatype xop =
    LISTEN | CONNECT | CONNECT_ASYNC | BIND | ACCEPT | GET_NAME | GET_PEER_NAME | SEND | RECV | SHUTDOWN how | OTHER_OP

text \<open>The options set before \<open>bind\<close>, in order.\<close>

definition bind_options :: "bool \<times> bool \<times> bool \<Rightarrow> net \<Rightarrow> net option" where
  "bind_options ctx n =
    Option.bind (sys (Setsockopt ''SO_REUSEADDR'') n) (\<lambda>(_, n).
    Option.bind (if fst ctx then map_option snd (sys (Setsockopt ''SO_REUSEPORT'') n) else Some n) (\<lambda>n.
    if fst (snd ctx) then map_option snd (sys (Setsockopt ''SO_BROADCAST'') n) else Some n))"

definition stream_xport :: "(nat \<Rightarrow> bool) \<Rightarrow> u32 \<Rightarrow> xop \<Rightarrow> xparam \<Rightarrow> net \<Rightarrow> (xparam \<times> net) option" where
  "stream_xport can rt opn x n =
    (let ret = (\<lambda>x (r, n). (x\<lparr>returncode := r\<rparr>, n)) in
     case opn of
       LISTEN \<Rightarrow> map_option (\<lambda>(r, n). (x\<lparr>returncode := (if r \<noteq> 0 then 0 else - 1)\<rparr>, n)) (wm_socket_listen (x_backlog x) n)
     | CONNECT \<Rightarrow> map_option (\<lambda>(r, x, n). (x\<lparr>returncode := r\<rparr>, n)) (stream_connect x n)
     | CONNECT_ASYNC \<Rightarrow> map_option (\<lambda>(r, x, n). (x\<lparr>returncode := r\<rparr>, n)) (stream_connect x n)
     | BIND \<Rightarrow>
         (case x_ctx x of
            None \<Rightarrow> Some (x, n)
          | Some ctx \<Rightarrow> Option.bind (bind_options ctx n) (\<lambda>n. map_option (ret x) (stream_bind x n)))
     | ACCEPT \<Rightarrow> map_option (\<lambda>(r, x, n). (x\<lparr>returncode := r\<rparr>, n)) (stream_accept x n)
     | GET_NAME \<Rightarrow> map_option (ret x) (sys (Getname False) n)
     | GET_PEER_NAME \<Rightarrow> map_option (ret x) (sys (Getname True) n)
     | SEND \<Rightarrow> if x_oob x then Some (x\<lparr>returncode := - 1\<rparr>, n) else map_option (ret x) (stream_sendto can x n)
     | RECV \<Rightarrow>
         if x_oob x then Some (x\<lparr>returncode := - 1\<rparr>, n)
         else map_option (\<lambda>((r, bs), n). (x\<lparr>returncode := r, x_data := bs\<rparr>, n))
                (if x_peek x then wmSocket_peek (x_len x) n else stream_recvfrom rt x n)
     | SHUTDOWN h \<Rightarrow> (case wmSocket_shutdown h n of (ok, n) \<Rightarrow> Some (x\<lparr>returncode := (if ok then 1 else 0)\<rparr>, n))
     | OTHER_OP \<Rightarrow> Some (x, n))"

section \<open>The options\<close>

datatype sopt =
    BLOCKING int | XPORT_API xop xparam | META_DATA_API | READ_TIMEOUT int int | CHECK_LIVENESS | READ_BUFFER | WRITE_BUFFER | OTHER_OPT

text \<open>What the option writes through its parameter: the transport results, or \<open>timed_out\<close>, \<open>eof\<close>, \<open>blocked\<close>.\<close>

datatype opt_out = No_out | Xport_out xparam | Meta bool bool bool

definition stream_set_option :: "(nat \<Rightarrow> bool) \<Rightarrow> sopt \<Rightarrow> stream \<Rightarrow> (int \<times> opt_out \<times> stream) option" where
  "stream_set_option can opt s =
    (case snet s of
       None \<Rightarrow> Some (PHP_STREAM_OPTION_RETURN_ERR, No_out, s)
     | Some n \<Rightarrow>
         (case opt of
            BLOCKING v \<Rightarrow> Some (if v \<noteq> 0 then PHP_STREAM_OPTION_RETURN_OK else PHP_STREAM_OPTION_RETURN_ERR, No_out, s)
          | XPORT_API opn x \<Rightarrow>
              map_option (\<lambda>(x, n). (PHP_STREAM_OPTION_RETURN_OK, Xport_out x, s\<lparr>snet := Some n\<rparr>)) (stream_xport can (read_timeout s) opn x n)
          | META_DATA_API \<Rightarrow> Some (PHP_STREAM_OPTION_RETURN_OK, Meta (errCode (sk n) = ETIMEDOUT) (eof s) True, s)
          | READ_TIMEOUT sec usec \<Rightarrow> Some (PHP_STREAM_OPTION_RETURN_OK, No_out, s\<lparr>read_timeout := timeval_ms (sec, usec)\<rparr>)
          | _ \<Rightarrow> Some (PHP_STREAM_OPTION_RETURN_OK, No_out, s)))"

text \<open>
  \<open>wmRuntime_socket_create\<close>: the transport asked for is not looked at. The read timeout of a new
  socket is -1, the largest unsigned number.
\<close>

definition wmRuntime_socket_create :: "u8 list \<Rightarrow> net \<Rightarrow> (stream option \<times> net) option" where
  "wmRuntime_socket_create proto n =
    map_option (\<lambda>(fd, n). case fd of
        None \<Rightarrow> (None, n)
      | Some _ \<Rightarrow> (Some \<lparr>snet = Some n, eof = False, read_timeout = - 1, progress = 0\<rparr>, n))
      (wmSocket_create WM_SOCK_TCP WM_LOOP_AUTO n)"

section \<open>Waiting on a socket of a stream\<close>

text \<open>
  The sockets of streams leave the event loop after every wait (\<open>WM_LOOP_AUTO\<close>): nobody waits, and
  nothing is registered.
\<close>

definition resting :: "net \<Rightarrow> bool" where
  "resting n \<longleftrightarrow> \<not> closed (sk n) \<and> poll n \<and> me n \<noteq> None \<and> sk_loop (sk n) = WM_LOOP_AUTO \<and>
     read_co (sk n) = None \<and> write_co (sk n) = None \<and> events (sk n) = 0"

lemma restingD:
  assumes "resting n"
  shows "\<not> closed (sk n)" "poll n" "\<exists>r. me n = Some r" "sk_loop (sk n) = WM_LOOP_AUTO" "read_co (sk n) = None"
    "write_co (sk n) = None" "events (sk n) = 0"
  using assms by (auto simp: resting_def)

lemma resting_cong:
  assumes "resting n" "poll n' = poll n" "me n' = me n" "closed (sk n') = closed (sk n)" "sk_loop (sk n') = sk_loop (sk n)"
    "read_co (sk n') = read_co (sk n)" "write_co (sk n') = write_co (sk n)" "events (sk n') = events (sk n)"
  shows "resting n'"
  using assms by (simp add: resting_def)

lemma resting_wait:
  assumes "resting n" "env n = Ret 0 # Woke c t # as" "ev = WM_EVENT_READ \<or> ev = WM_EVENT_WRITE"
  shows "event_wait ev n = map_option (\<lambda>n. (True, bind_co ev None n))
    (wake_up ev c t (bind_co ev (me n) (n\<lparr>sk := (sk n)\<lparr>events := ev\<rparr>, env := as,
       calls := calls n @ [Epoll_ctl CTL_ADD (event_decode ev)]\<rparr>)))"
proof -
  note q = restingD [OF assms(1)]
  have ne: "ev \<noteq> 0" using assms(3) by auto
  let ?n = "n\<lparr>sk := (sk n)\<lparr>events := ev\<rparr>, env := Woke c t # as, calls := calls n @ [Epoll_ctl CTL_ADD (event_decode ev)]\<rparr>"
  have a: "(if events (sk n) AND ev = 0 then wmWorkerLoop_add n ev else Some (True, n)) = Some (True, ?n)"
    using add_quiet [of n ev "Woke c t # as"] q(2,7) ne assms(2) by simp
  have sw: "?n\<lparr>env := as\<rparr> = n\<lparr>sk := (sk n)\<lparr>events := ev\<rparr>, env := as, calls := calls n @ [Epoll_ctl CTL_ADD (event_decode ev)]\<rparr>" by simp
  show ?thesis unfolding event_wait_def a using q(3) by (auto simp flip: sw)
qed

definition wait_trace :: "u32 \<Rightarrow> syscall list" where
  "wait_trace ev = [Epoll_ctl CTL_ADD (event_decode ev), Epoll_ctl CTL_DEL 0]"

lemma resting_wait_ok:
  assumes "resting n" "env n = Ret 0 # Woke False False # Ret 0 # as" "ev = WM_EVENT_READ \<or> ev = WM_EVENT_WRITE"
  shows "event_wait ev n = Some (True, n\<lparr>env := as, calls := calls n @ wait_trace ev\<rparr>)"
proof -
  note q = restingD [OF assms(1)]
  have s: "(sk n)\<lparr>events := 0\<rparr> = sk n" "(sk n)\<lparr>events := 0, read_co := None\<rparr> = sk n" "(sk n)\<lparr>events := 0, write_co := None\<rparr> = sk n"
    using q(5-7) by (auto intro: wmSocket.equality)
  show ?thesis
    using resting_wait [OF assms(1,2,3)] q(2,4) assms(3) s
    by (auto simp: wake_up_def bind_co_def upd_sk_def wmWorkerLoop_del_def WM_EVENT_NULL_def sys_def wait_trace_def)
qed

section \<open>Reading from a stream\<close>

text \<open>The answers of the kernel: interruptions and waits, then the end, as in \<open>read_env\<close>.\<close>

fun auto_env :: "bool list \<Rightarrow> read_end \<Rightarrow> answer list" where
  "auto_env (intr # as) e =
     (if intr then [Ret (- EINTR)] else [Ret (- EAGAIN), Ret 0, Woke False False, Ret 0]) @ auto_env as e"
| "auto_env [] (Data bs) = [Bytes bs]"
| "auto_env [] Eof = [Ret 0]"
| "auto_env [] (Fail e) = [Ret (- e)]"
| "auto_env [] Timeout = [Ret (- EAGAIN), Ret 0, Woke False True, Ret 0]"
| "auto_env [] Closed_meanwhile = [Ret (- EAGAIN), Ret 0, Woke True False]"

text \<open>A read that finds nothing: the timer is there, and the coroutine waits.\<close>

lemma auto_again:
  assumes "resting n" "timer_ready A to n" "env n = Ret (- EAGAIN) # Ret 0 # Woke c t # as"
  shows "\<exists>b k. resting b \<and> timer_ready A to b \<and> read_timer (sk b) = Some k \<and> env b = Ret 0 # Woke c t # as \<and>
    errCode (sk b) = errCode (sk n) \<and>
    read_loop len to n =
      Option.bind (event_wait WM_EVENT_READ b) (\<lambda>(w, n).
      Option.bind (if w then timer_used WM_EVENT_READ n else Some (True, n)) (\<lambda>(used, n).
      if \<not> used then read_loop len to n
      else map_option (Pair (WM_SOCKET_ERROR, [])) (sock_timer_del WM_EVENT_READ (set_err (errno n) n))))"
proof -
  note q = restingD [OF assms(1)]
  let ?as = "Ret 0 # Woke c t # as"
  let ?a = "n\<lparr>calls := calls n @ [Recv len], env := ?as, errno := EAGAIN\<rparr>"
  have "timer_ready A to ?a" using assms(2) by simp
  then obtain k b where b: "sock_timer_add WM_EVENT_READ to ?a = Some b" "A k = None"
      "b = ?a\<lparr>next_timer := next_timer b, sk := (sk ?a)\<lparr>read_timer := Some k\<rparr>, armed := A(k \<mapsto> to)\<rparr>"
    using ready_add by blast
  have fb: "sk b = (sk n)\<lparr>read_timer := Some k\<rparr>" "errno b = EAGAIN" "env b = ?as" "me b = me n" "poll b = poll n" "armed b = A(k \<mapsto> to)"
    by (subst b(3), simp)+
  have "resting b" by (rule resting_cong [OF assms(1)]) (simp_all add: fb)
  moreover have "timer_ready A to b" using fb b(2) by (simp add: timer_ready_def)
  moreover have "read_loop len to n =
      Option.bind (event_wait WM_EVENT_READ b) (\<lambda>(w, n).
      Option.bind (if w then timer_used WM_EVENT_READ n else Some (True, n)) (\<lambda>(used, n).
      if \<not> used then read_loop len to n
      else map_option (Pair (WM_SOCKET_ERROR, [])) (sock_timer_del WM_EVENT_READ (set_err (errno n) n))))"
    by (subst read_loop.simps) (use q(1) recv_fail [OF assms(3)] b(1) fb(2) in simp)
  ultimately show ?thesis using fb by (intro exI [of _ b] exI [of _ k]) simp
qed

definition auto_done :: "(nat \<rightharpoonup> u32) \<Rightarrow> read_end \<Rightarrow> int \<Rightarrow> answer list \<Rightarrow> net \<Rightarrow> bool" where
  "auto_done A e err rest n \<longleftrightarrow> env n = rest \<and> armed n = A \<and> read_timer (sk n) = None \<and> read_co (sk n) = None \<and>
     errCode (sk n) = read_error err e \<and> closed (sk n) = (e = Eof \<or> e = Closed_meanwhile)"

lemma auto_end:
  assumes "end_ok len e" "resting n" "timer_ready A to n" "env n = auto_env [] e @ rest"
  shows "\<exists>n'. read_loop len to n = Some (read_result e, n') \<and> auto_done A e (errCode (sk n)) rest n'"
proof (cases e)
  case (Data bs)
  let ?n = "n\<lparr>calls := calls n @ [Recv len], env := rest\<rparr>"
  have "retry_recv len n = Some ((int (length bs), bs), ?n)" using recv_data assms(1,4) Data by simp
  moreover have "timer_ready A to ?n" using assms(3) by simp
  ultimately show ?thesis using ready_del [of A to ?n] restingD [OF assms(2)] Data assms(1)
    by (subst read_loop.simps) (simp add: auto_done_def)
next
  case Eof
  let ?n = "n\<lparr>calls := calls n @ [Recv len], env := rest\<rparr>"
  let ?m = "set_err WM_ERROR_SESSION_CLOSED_BY_CLIENT (upd_sk (\<lambda>s. s\<lparr>closed := True\<rparr>) ?n)"
  have "retry_recv len n = Some ((0, []), ?n)" using recv_eof assms(4) Eof by simp
  moreover have "timer_ready A to ?m" using assms(3) by (simp add: set_err_def upd_sk_def timer_ready_def split: option.splits)
  ultimately show ?thesis using ready_del [of A to ?m] restingD [OF assms(2)] Eof
    by (subst read_loop.simps) (simp add: auto_done_def set_err_def upd_sk_def)
next
  case (Fail c)
  let ?n = "n\<lparr>calls := calls n @ [Recv len], env := rest, errno := c\<rparr>"
  have r: "retry_recv len n = Some ((- 1, []), ?n)" by (rule recv_fail) (use assms(1,4) Fail in auto)
  have "timer_ready A to ?n" using assms(3) by simp
  then obtain k b where b: "sock_timer_add WM_EVENT_READ to ?n = Some b" "A k = None"
      "b = ?n\<lparr>next_timer := next_timer b, sk := (sk ?n)\<lparr>read_timer := Some k\<rparr>, armed := A(k \<mapsto> to)\<rparr>"
    using ready_add by blast
  have fb: "sk b = (sk n)\<lparr>read_timer := Some k\<rparr>" "errno b = c" "env b = rest" "armed b = A(k \<mapsto> to)"
    by (subst b(3), simp)+
  have "timer_ready A to (set_err c b)" using fb b(2) by (simp add: set_err_def upd_sk_def timer_ready_def)
  then show ?thesis using ready_del [of A to "set_err c b"] restingD [OF assms(2)] r b(1) fb assms(1) Fail
    by (subst read_loop.simps) (auto simp: auto_done_def set_err_def upd_sk_def)
next
  case Timeout
  have en: "env n = Ret (- EAGAIN) # Ret 0 # Woke False True # Ret 0 # rest" using assms(4) Timeout by simp
  obtain b k where b: "resting b" "timer_ready A to b" "read_timer (sk b) = Some k" "env b = Ret 0 # Woke False True # Ret 0 # rest"
      and l: "read_loop len to n = Option.bind (event_wait WM_EVENT_READ b) (\<lambda>(w, n).
        Option.bind (if w then timer_used WM_EVENT_READ n else Some (True, n)) (\<lambda>(used, n).
        if \<not> used then read_loop len to n
        else map_option (Pair (WM_SOCKET_ERROR, [])) (sock_timer_del WM_EVENT_READ (set_err (errno n) n))))"
    using auto_again [OF assms(2,3) en, of len] by blast
  have "armed b = A(k \<mapsto> to)" "A k = None" using b(2,3) by (simp_all add: timer_ready_def)
  then show ?thesis using restingD [OF b(1)] b(3) Timeout unfolding l resting_wait [OF b(1,4) disjI1 [OF refl]]
    by (auto simp: wake_up_def bind_co_def upd_sk_def set_err_def timer_read_fired_def timer_used_def sock_timer_del_def
        auto_done_def wmWorkerLoop_del_def WM_EVENT_NULL_def sys_def Let_def fun_upd_idem)
next
  case Closed_meanwhile
  have en: "env n = Ret (- EAGAIN) # Ret 0 # Woke True False # rest" using assms(4) Closed_meanwhile by simp
  obtain b k where b: "resting b" "timer_ready A to b" "read_timer (sk b) = Some k" "env b = Ret 0 # Woke True False # rest"
      and l: "read_loop len to n = Option.bind (event_wait WM_EVENT_READ b) (\<lambda>(w, n).
        Option.bind (if w then timer_used WM_EVENT_READ n else Some (True, n)) (\<lambda>(used, n).
        if \<not> used then read_loop len to n
        else map_option (Pair (WM_SOCKET_ERROR, [])) (sock_timer_del WM_EVENT_READ (set_err (errno n) n))))"
    using auto_again [OF assms(2,3) en, of len] by blast
  define m where "m = b\<lparr>sk := (sk b)\<lparr>closed := True, events := WM_EVENT_NULL, read_co := None\<rparr>, env := rest,
      calls := calls b @ [Epoll_ctl CTL_ADD (event_decode WM_EVENT_READ)]\<rparr>"
  have "event_wait WM_EVENT_READ b = Some (True, m)"
    unfolding resting_wait [OF b(1,4) disjI1 [OF refl]]
    by (simp add: m_def wake_up_def bind_co_def upd_sk_def)
  then have lm: "read_loop len to n = read_loop len to m" using b(3) by (simp add: l timer_used_def m_def)
  have "timer_ready A to m" using b(2) by (simp add: m_def timer_ready_def split: option.splits)
  then show ?thesis using ready_del [of A to m] Closed_meanwhile
    unfolding lm by (subst read_loop.simps) (simp add: auto_done_def set_err_def upd_sk_def m_def)
qed

lemma auto_read:
  assumes "end_ok len e" "resting n" "timer_ready A to n" "env n = auto_env as e @ rest"
  shows "\<exists>n'. read_loop len to n = Some (read_result e, n') \<and> auto_done A e (errCode (sk n)) rest n'"
  using assms
proof (induction as arbitrary: n)
  case Nil
  then show ?case using auto_end by simp
next
  case (Cons i as)
  note q = restingD [OF Cons.prems(2)]
  show ?case
  proof (cases i)
    case True
    let ?n = "n\<lparr>calls := calls n @ [Recv len], env := auto_env as e @ rest, errno := EINTR\<rparr>"
    have e: "env n = Ret (- EINTR) # (auto_env as e @ rest)" using Cons.prems(4) True by simp
    have l: "read_loop len to n = read_loop len to ?n"
      by (subst (1 2) read_loop.simps) (simp add: q(1) recv_intr [OF e])
    have "resting ?n" by (rule resting_cong [OF Cons.prems(2)]) simp_all
    moreover have "timer_ready A to ?n" using Cons.prems(3) by simp
    ultimately show ?thesis using Cons.IH [OF Cons.prems(1), of ?n] unfolding l by simp
  next
    case False
    then have en: "env n = Ret (- EAGAIN) # Ret 0 # Woke False False # Ret 0 # (auto_env as e @ rest)" using Cons.prems(4) by simp
    obtain b k where b: "resting b" "timer_ready A to b" "read_timer (sk b) = Some k" "errCode (sk b) = errCode (sk n)"
        "env b = Ret 0 # Woke False False # Ret 0 # (auto_env as e @ rest)"
      and l: "read_loop len to n = Option.bind (event_wait WM_EVENT_READ b) (\<lambda>(w, n).
        Option.bind (if w then timer_used WM_EVENT_READ n else Some (True, n)) (\<lambda>(used, n).
        if \<not> used then read_loop len to n
        else map_option (Pair (WM_SOCKET_ERROR, [])) (sock_timer_del WM_EVENT_READ (set_err (errno n) n))))"
      using auto_again [OF Cons.prems(2,3) en, of len] by blast
    let ?b = "b\<lparr>env := auto_env as e @ rest, calls := calls b @ wait_trace WM_EVENT_READ\<rparr>"
    have "read_loop len to n = read_loop len to ?b"
      using b(3) unfolding l resting_wait_ok [OF b(1,5) disjI1 [OF refl]] by (simp add: timer_used_def)
    moreover have "resting ?b" by (rule resting_cong [OF b(1)]) simp_all
    moreover have "timer_ready A to ?b" using b(2) by (simp add: timer_ready_def split: option.splits)
    ultimately show ?thesis using Cons.IH [OF Cons.prems(1), of ?b] b(4) by simp
  qed
qed

text \<open>
  C34: reading from a stream, for every way of waiting. The bytes that come are returned and the stream
  is not at its end; when there are none, whatever the reason, the stream counts as ended, after a
  timeout too. The meta data say \<open>timed_out\<close> by the last error of the socket, which a read that
  succeeds does not clear.
\<close>

theorem stream_read_ends:
  assumes "snet s = Some n" "resting n" "read_timer (sk n) = None" "armed n (next_timer n) = None"
    "end_ok len e" "env n = auto_env as e @ rest"
  shows "\<exists>s' n'. stream_read False len s = Some (read_result e, s') \<and> snet s' = Some n' \<and> env n' = rest \<and>
    armed n' = armed n \<and>
    stream_set_option can META_DATA_API s' =
      Some (PHP_STREAM_OPTION_RETURN_OK, Meta (read_error (errCode (sk n)) e = ETIMEDOUT) (\<forall>bs. e \<noteq> Data bs) True, s')"
proof -
  have "timer_ready (armed n) (read_timeout s) n" using assms(3,4) by (simp add: timer_ready_def)
  from auto_read [OF assms(5,2) this assms(6)] obtain n' where n': "read_loop len (read_timeout s) n = Some (read_result e, n')"
      "auto_done (armed n) e (errCode (sk n)) rest n'" by blast
  have "wmSocket_read len (read_timeout s) n = Some (read_result e, n')"
    using n'(1) restingD [OF assms(2)] by (simp add: wmSocket_read_def is_available_def get_bound_co_def)
  moreover have "(fst (read_result e) = WM_SOCKET_ERROR \<or> fst (read_result e) = WM_SOCKET_CLOSE) = (\<forall>bs. e \<noteq> Data bs)"
    using assms(5) by (cases e) (auto simp: WM_SOCKET_ERROR_def WM_SOCKET_CLOSE_def)
  ultimately show ?thesis
    using n'(2) assms(1) by (cases "read_result e") (auto simp: stream_read_def stream_set_option_def auto_done_def Let_def)
qed

text \<open>A new stream of a worker.\<close>

definition new_stream :: "answer list \<Rightarrow> stream" where
  "new_stream as = \<lparr>snet = Some (wait_net\<lparr>sk := wmSocket_pack WM_SOCK_TCP WM_LOOP_AUTO, env := as\<rparr>), eof = False,
     read_timeout = - 1, progress = 0\<rparr>"

lemma new_stream_resting:
  "resting (wait_net\<lparr>sk := wmSocket_pack WM_SOCK_TCP WM_LOOP_AUTO, env := as\<rparr>)"
  by (simp add: resting_def wait_net_def wmSocket_pack_def WM_EVENT_NULL_def)

lemma new_stream_created:
  "wmRuntime_socket_create proto (wait_net\<lparr>env := Ret 7 # as\<rparr>) =
     Some (Some ((new_stream as)\<lparr>snet := Some (wait_net\<lparr>sk := wmSocket_pack WM_SOCK_TCP WM_LOOP_AUTO, env := as,
       calls := calls wait_net @ [Socket WM_SOCK_TCP]\<rparr>)\<rparr>),
       wait_net\<lparr>sk := wmSocket_pack WM_SOCK_TCP WM_LOOP_AUTO, env := as, calls := calls wait_net @ [Socket WM_SOCK_TCP]\<rparr>)"
  by (simp add: wmRuntime_socket_create_def wmSocket_create_def sys_def new_stream_def wait_net_def)

theorem stream_read_ends_witness:
  "\<exists>s'. stream_read False 8 (new_stream (auto_env [True, False] Timeout)) = Some ((WM_SOCKET_ERROR, []), s') \<and>
     stream_set_option (\<lambda>_. True) META_DATA_API s' = Some (0, Meta True True True, s')"
proof -
  let ?n = "wait_net\<lparr>sk := wmSocket_pack WM_SOCK_TCP WM_LOOP_AUTO, env := auto_env [True, False] Timeout\<rparr>"
  have "snet (new_stream (auto_env [True, False] Timeout)) = Some ?n" "read_timer (sk ?n) = None" "armed ?n (next_timer ?n) = None"
      "env ?n = auto_env [True, False] Timeout @ []"
    by (simp_all add: new_stream_def wmSocket_pack_def wait_net_def)
  from stream_read_ends [OF this(1) new_stream_resting this(2,3) _ this(4), of 8 "\<lambda>_. True"] show ?thesis
    by (auto simp: PHP_STREAM_OPTION_RETURN_OK_def)
qed

section \<open>Writing to a stream\<close>

fun auto_send_env :: "nat \<Rightarrow> attempt list \<Rightarrow> answer list" where
  "auto_send_env m [] = []"
| "auto_send_env m (Interrupted # as) = Ret (- EINTR) # auto_send_env m as"
| "auto_send_env m (Again # as) = [Ret (- EAGAIN), Ret 0, Woke False False, Ret 0] @ auto_send_env m as"
| "auto_send_env m (Sent k # as) = Ret (int k) # (if m \<le> k then [] else [Ret 0, Woke False False, Ret 0] @ auto_send_env (m - k) as)"

text \<open>What arrives when \<open>p\<close> bytes have been counted: every call starts at the beginning of the data.\<close>

fun resent :: "u8 list \<Rightarrow> nat \<Rightarrow> attempt list \<Rightarrow> u8 list" where
  "resent data p [] = []"
| "resent data p (Sent k # as) = take k (take (length data - p) data) @ resent data (p + k) as"
| "resent data p (a # as) = resent data p as"

lemma resent_at_once:
  "\<forall>a \<in> set as. a = Again \<or> a = Interrupted \<or> a = Sent (length data) \<Longrightarrow> complete (length data) as \<Longrightarrow>
     resent data 0 as = data"
  by (induction as) auto

lemma received_trace: "received (wait_trace ev @ cs) as = received cs as"
  by (simp add: wait_trace_def)

lemma write_loop_resends:
  assumes "complete (length data - p) as" "resting n" "env n = auto_send_env (length data - p) as @ rest" "p \<le> length data"
  shows "\<exists>cs n'. write_loop data (int p) n = Some (int (length data), n') \<and> calls n' = calls n @ cs \<and> env n' = rest \<and>
    received cs as = map Some (resent data p as) \<and> resting n'"
  using assms
proof (induction as arbitrary: p n)
  case (Cons a as)
  note q = restingD [OF Cons.prems(2)]
  let ?s = "Send (map Some (take (length data - p) data))"
  have np: "nat (int (length data) - int p) = length data - p" by simp
  show ?case
  proof (cases a)
    case Interrupted
    let ?n = "n\<lparr>calls := calls n @ [?s], env := auto_send_env (length data - p) as @ rest, errno := EINTR\<rparr>"
    have "env n = Ret (- EINTR) # (auto_send_env (length data - p) as @ rest)" using Cons.prems(3) Interrupted by simp
    then have l: "write_loop data (int p) n = write_loop data (int p) ?n"
      using retry_intr [of n "auto_send_env (length data - p) as @ rest" ?s] q(1)
      by (subst (1 2) write_loop.simps) (simp only: np fst_conv snd_conv, simp)
    have "resting ?n" by (rule resting_cong [OF Cons.prems(2)]) simp_all
    then obtain cs n' where "write_loop data (int p) ?n = Some (int (length data), n')" "calls n' = calls ?n @ cs" "env n' = rest"
        "received cs as = map Some (resent data p as)" "resting n'"
      using Cons.IH [of p ?n] Cons.prems(1,4) Interrupted by auto
    then show ?thesis using l Interrupted by (intro exI [of _ "?s # cs"] exI [of _ n']) simp
  next
    case Again
    let ?r = "auto_send_env (length data - p) as @ rest"
    let ?n1 = "n\<lparr>calls := calls n @ [?s], env := Ret 0 # Woke False False # Ret 0 # ?r, errno := EAGAIN\<rparr>"
    let ?n2 = "?n1\<lparr>env := ?r, calls := calls ?n1 @ wait_trace WM_EVENT_WRITE\<rparr>"
    have r1: "retry ?s n = Some (- 1, ?n1)" by (rule retry_fail) (use Cons.prems(3) Again in auto)
    have "resting ?n1" by (rule resting_cong [OF Cons.prems(2)]) simp_all
    then have w: "event_wait WM_EVENT_WRITE ?n1 = Some (True, ?n2)" using resting_wait_ok [of ?n1 ?r WM_EVENT_WRITE] by simp
    have lt: "int p < int (length data)" using Cons.prems(1) Again by simp
    have l: "write_loop data (int p) n = write_loop data (int p) ?n2"
      by (subst write_loop.simps)
        (use q(1) r1 w lt in \<open>simp add: np Let_def check_error_def WM_SOCKET_SUCCESS_def WM_SOCKET_CLOSE_def errno_defs\<close>)
    have "resting ?n2" by (rule resting_cong [OF Cons.prems(2)]) simp_all
    then obtain cs n' where "write_loop data (int p) ?n2 = Some (int (length data), n')" "calls n' = calls ?n2 @ cs" "env n' = rest"
        "received cs as = map Some (resent data p as)" "resting n'"
      using Cons.IH [of p ?n2] Cons.prems(1,4) Again by auto
    then show ?thesis using l Again
      by (intro exI [of _ "?s # wait_trace WM_EVENT_WRITE @ cs"] exI [of _ n']) (simp add: received_trace)
  next
    case (Sent k)
    let ?m = "length data - p"
    let ?r = "(if ?m \<le> k then [] else [Ret 0, Woke False False, Ret 0] @ auto_send_env (?m - k) as) @ rest"
    let ?n1 = "n\<lparr>calls := calls n @ [?s], env := ?r\<rparr>"
    have r1: "retry ?s n = Some (int k, ?n1)" by (rule retry_done) (use Cons.prems(3) Sent in auto)
    have rn1: "resting ?n1" by (rule resting_cong [OF Cons.prems(2)]) simp_all
    show ?thesis
    proof (cases "k = ?m")
      case True
      have "wmWorkerLoop_remove ?n1 WM_EVENT_WRITE = Some (True, ?n1)" using q(7) by (simp add: wmWorkerLoop_remove_def WM_EVENT_NULL_def)
      then have "write_loop data (int p) n = Some (int (length data), ?n1)"
        by (subst write_loop.simps)
          (use q(1) r1 True Cons.prems(4) in \<open>simp add: np Let_def WM_SOCKET_SUCCESS_def WM_SOCKET_CLOSE_def of_nat_diff\<close>)
      then show ?thesis using True Sent Cons.prems(1) rn1 by (intro exI [of _ "[?s]"] exI [of _ ?n1]) (simp add: take_map)
    next
      case False
      then have lt: "k < ?m" and c: "complete (?m - k) as" using Cons.prems(1) Sent by auto
      let ?r2 = "auto_send_env (?m - k) as @ rest"
      let ?n2 = "?n1\<lparr>env := ?r2, calls := calls ?n1 @ wait_trace WM_EVENT_WRITE\<rparr>"
      have w: "event_wait WM_EVENT_WRITE ?n1 = Some (True, ?n2)" using resting_wait_ok [OF rn1, of ?r2 WM_EVENT_WRITE] lt by simp
      have pk: "\<not> int (length data) \<le> int p + int k" using lt by auto
      have "write_loop data (int p) n = write_loop data (int p + int k) ?n2"
        by (subst write_loop.simps) (use q(1) r1 w pk in \<open>simp add: np Let_def WM_SOCKET_SUCCESS_def WM_SOCKET_CLOSE_def\<close>)
      then have l: "write_loop data (int p) n = write_loop data (int (p + k)) ?n2" by simp
      have r2: "resting ?n2" by (rule resting_cong [OF Cons.prems(2)]) simp_all
      have c2: "complete (length data - (p + k)) as" "p + k \<le> length data" "env ?n2 = auto_send_env (length data - (p + k)) as @ rest"
        using c lt by simp_all
      obtain cs n' where "write_loop data (int (p + k)) ?n2 = Some (int (length data), n')" "calls n' = calls ?n2 @ cs" "env n' = rest"
          "received cs as = map Some (resent data (p + k) as)" "resting n'"
        using Cons.IH [OF c2(1) r2 c2(3,2)] by blast
      then show ?thesis using l Sent
        by (intro exI [of _ "?s # wait_trace WM_EVENT_WRITE @ cs"] exI [of _ n']) (simp add: received_trace take_map)
    qed
  qed
qed simp

text \<open>
  C35: writing to a stream, for every way the kernel takes the bytes. The write reports the whole length
  and all the attempts are made; what the peer receives is \<open>resent\<close>: the data when the kernel takes
  them at once, and otherwise as many bytes, of which those after the first part are the beginning of
  the data again.
\<close>

theorem stream_write_resends:
  assumes "snet s = Some n" "resting n" "complete (length data) as" "data \<noteq> []"
    "env n = auto_send_env (length data) as @ rest"
  shows "\<exists>cs s' n'. stream_write old data s = Some (int (length data), s') \<and> snet s' = Some n' \<and> calls n' = calls n @ cs \<and>
    env n' = rest \<and> progress s' = progress s + int (length data) \<and> received cs as = map Some (resent data 0 as) \<and>
    ((\<forall>a \<in> set as. a = Again \<or> a = Interrupted \<or> a = Sent (length data)) \<longrightarrow> resent data 0 as = data)"
proof -
  obtain cs n' where n': "write_loop data 0 n = Some (int (length data), n')" "calls n' = calls n @ cs" "env n' = rest"
      "received cs as = map Some (resent data 0 as)"
    using write_loop_resends [of data 0 as n rest] assms(2,3,5) by auto
  have "wmSocket_write data n = Some (int (length data), n')"
    using n'(1) restingD [OF assms(2)] by (simp add: wmSocket_write_def is_available_def get_bound_co_def)
  then have "stream_write old data s = Some (int (length data), s\<lparr>snet := Some n', progress := progress s + int (length data)\<rparr>)"
    using assms(1,4) by (simp add: stream_write_def Let_def)
  then show ?thesis using n' resent_at_once [OF _ assms(3)]
    by (intro exI [of _ cs] exI [of _ "s\<lparr>snet := Some n', progress := progress s + int (length data)\<rparr>"] exI [of _ n']) simp
qed

theorem stream_write_resends_witness:
  "\<exists>cs s' n'. stream_write False [1, 2, 3, 4] (new_stream (auto_send_env 4 [Interrupted, Sent 3, Again, Sent 1])) = Some (4, s') \<and>
     snet s' = Some n' \<and> calls n' = calls wait_net @ cs \<and>
     received cs [Interrupted, Sent 3, Again, Sent 1] = map Some [1, 2, 3, 1]"
proof -
  let ?as = "[Interrupted, Sent 3, Again, Sent 1]"
  let ?n = "wait_net\<lparr>sk := wmSocket_pack WM_SOCK_TCP WM_LOOP_AUTO, env := auto_send_env 4 ?as\<rparr>"
  have "snet (new_stream (auto_send_env 4 ?as)) = Some ?n" "complete (length [1, 2, 3, 4 :: u8]) ?as"
      "env ?n = auto_send_env (length [1, 2, 3, 4 :: u8]) ?as @ []" "[1, 2, 3, 4 :: u8] \<noteq> []"
    by (simp_all add: new_stream_def)
  from stream_write_resends [OF this(1) new_stream_resting this(2,4,3), of False] obtain cs s' n' where
    "stream_write False [1, 2, 3, 4] (new_stream (auto_send_env 4 ?as)) = Some (4, s')" "snet s' = Some n'"
    "calls n' = calls wait_net @ cs" "received cs ?as = map Some [1, 2, 3, 1]"
    by auto
  then show ?thesis by (intro exI [of _ cs] exI [of _ s'] exI [of _ n'] conjI)
qed

section \<open>What PHP is told\<close>

text \<open>
  The return codes of three transport operations, which PHP takes for success exactly when they
  are 0. Listening reports failure when the kernel has succeeded and success when it has failed;
  shutting down a connected socket reports 1; a connection that comes about at once reports -1 with
  the error code 0.
\<close>

theorem stream_codes_inverted:
  assumes "resting n" "\<not> shutdown_read (sk n)" "\<not> shutdown_write (sk n)" "write_timer (sk n) = None" "sk_transport (sk n) = WM_SOCK_TCP"
    and "58 \<notin> set host" "0 < port" "port < 65536" "x_name x = host @ 58 # dec_nat port"
  shows "map_option (returncode \<circ> fst) (stream_xport can rt LISTEN x (n\<lparr>env := Ret 0 # rest\<rparr>)) = Some (- 1) \<and>
    map_option (returncode \<circ> fst) (stream_xport can rt LISTEN x (n\<lparr>env := Ret (- 98) # rest\<rparr>)) = Some 0 \<and>
    map_option (returncode \<circ> fst) (stream_xport can rt (SHUTDOWN h) x n) = Some 1 \<and>
    map_option (\<lambda>(x, n). (returncode x, error_code x)) (stream_xport can rt CONNECT x (n\<lparr>env := Ret 0 # Ret 0 # rest\<rparr>)) = Some (- 1, 0)"
proof (intro conjI)
  note q = restingD [OF assms(1)]
  show "map_option (returncode \<circ> fst) (stream_xport can rt LISTEN x (n\<lparr>env := Ret 0 # rest\<rparr>)) = Some (- 1)"
    "map_option (returncode \<circ> fst) (stream_xport can rt LISTEN x (n\<lparr>env := Ret (- 98) # rest\<rparr>)) = Some 0"
    by (simp_all add: stream_xport_def wm_socket_listen_def sys_def)
  show "map_option (returncode \<circ> fst) (stream_xport can rt (SHUTDOWN h) x n) = Some 1"
    using q(1) assms(2,3) by (simp add: stream_xport_def wmSocket_shutdown_def Let_def set_err_def upd_sk_def)
  let ?n = "n\<lparr>calls := calls n @ [Setsockopt ''TCP_NODELAY''], env := Ret 0 # rest\<rparr>"
  have "retry_connect (int port) ?n = Some (0, ?n\<lparr>calls := calls ?n @ [Connect], env := rest\<rparr>)"
    by (rule connect_done) (use assms(7,8) in simp_all)
  then have "\<exists>n'. wmSocket_connect (int port) to ?n = Some (False, n') \<and> errCode (sk n') = 0" for to
    using q assms(4)
    by (simp add: wmSocket_connect_def is_available_def get_bound_co_def set_err_def upd_sk_def sock_timer_del_def Let_def)
  then obtain n' where "wmSocket_connect (int port) (xport_timeout x) ?n = Some (False, n')" "errCode (sk n') = 0" by blast
  then show "map_option (\<lambda>(x, n). (returncode x, error_code x)) (stream_xport can rt CONNECT x (n\<lparr>env := Ret 0 # Ret 0 # rest\<rparr>)) = Some (- 1, 0)"
    using assms(5) parse_ip_address_host_port [OF assms(6), of port] assms(9)
    by (simp add: stream_xport_def stream_connect_def sys_def)
qed

theorem stream_codes_inverted_witness:
  "\<exists>x. map_option (\<lambda>(x, n). (returncode x, error_code x))
      (stream_xport (\<lambda>_. True) 0 CONNECT x
        (wait_net\<lparr>sk := wmSocket_pack WM_SOCK_TCP WM_LOOP_AUTO, env := [Ret 0, Ret 0]\<rparr>)) = Some (- 1, 0)"
proof -
  define x where "x = \<lparr>x_name = [49, 46, 50] @ 58 # dec_nat 80, x_backlog = 0, x_timeout = None, x_buf = [], x_len = 0, x_oob = False,
     x_peek = False, x_addr = False, want_addr = False, want_textaddr = False, x_ctx = None, returncode = 5, error_code = 0,
     client = None, x_data = []\<rparr>"
  let ?n = "wait_net\<lparr>sk := wmSocket_pack WM_SOCK_TCP WM_LOOP_AUTO, env := []\<rparr>"
  have "\<not> shutdown_read (sk ?n)" "\<not> shutdown_write (sk ?n)" "write_timer (sk ?n) = None" "sk_transport (sk ?n) = WM_SOCK_TCP"
      "(58 :: u8) \<notin> set [49, 46, 50]" "(0 :: nat) < 80" "(80 :: nat) < 65536" "x_name x = [49, 46, 50] @ 58 # dec_nat 80"
    by (simp_all add: wmSocket_pack_def x_def)
  from stream_codes_inverted [OF new_stream_resting this, of "\<lambda>_. True" 0 "[]" SHUT_RDWR] show ?thesis by auto
qed

end
