(* ===== verification/Wm_Queue.thy ===== *)
theory Wm_Queue
  imports Wm_List
begin

text \<open>
  The queues of \<open>include/queue.h\<close>: a head that owns a list of nodes with a data pointer each, and a
  32-bit count. All queues live in one heap of link fields, as channels keep several at a time.
  \<open>None\<close> is undefined behaviour: a queue or a node that is not allocated, or memory read after it was
  freed. The field \<open>freed_kept\<close> is not the program's: it says of the allocator, which is not code of
  the repository, that a read of a block right after \<open>free\<close> still finds its contents; C does not
  promise it, and without it every such read is undefined. The theory shows that the queues
  refine lists, and states what their users rely on as the interface \<open>fifo\<close>.
\<close>

section \<open>State and operations\<close>

datatype qaddr = QHead nat | QNode nat

record 'a qheap =
  qlnk :: "qaddr links"
  qdata :: "nat \<rightharpoonup> 'a"
  qnum :: "nat \<rightharpoonup> u32"
  qfresh :: nat
  freed_kept :: bool

definition wmQueue_create :: "'a qheap \<Rightarrow> nat \<times> 'a qheap" where
  "wmQueue_create h =
    (let q = qfresh h in
     (q, h\<lparr>qfresh := q + 1, qnum := (qnum h)(q \<mapsto> 0), qlnk := wmList_init (qlnk h) (QHead q)\<rparr>))"

definition wmQueue_push :: "'a qheap \<Rightarrow> nat \<Rightarrow> 'a \<Rightarrow> 'a qheap option" where
  "wmQueue_push h q x =
    (case qnum h q of
       None \<Rightarrow> None
     | Some k \<Rightarrow>
         let n = qfresh h;
             l = wmList_init (qlnk h) (QNode n);
             l = wmList_add_back l (QHead q) (QNode n) in
         Some (h\<lparr>qfresh := n + 1, qdata := (qdata h)(n \<mapsto> x), qlnk := l, qnum := (qnum h)(q \<mapsto> k + 1)\<rparr>))"

text \<open>
  \<open>wmQueue_pop\<close> reads the data pointer of the node after freeing it, which is undefined unless the
  allocator keeps the contents. The result \<open>Some None\<close> is the null pointer of an empty queue.
\<close>

definition wmQueue_pop :: "'a qheap \<Rightarrow> nat \<Rightarrow> ('a option \<times> 'a qheap) option" where
  "wmQueue_pop h q =
    (case qnum h q of
       None \<Rightarrow> None
     | Some k \<Rightarrow>
         if wmList_is_empty (qlnk h) (QHead q) \<or> k = 0 then Some (None, h)
         else case nxt (qlnk h) (QHead q) of
             QHead _ \<Rightarrow> None
           | QNode n \<Rightarrow>
               (case qdata h n of
                  None \<Rightarrow> None
                | Some x \<Rightarrow>
                    if freed_kept h then
                      Some (Some x, h\<lparr>qlnk := wmList_remote (qlnk h) (QNode n), qdata := (qdata h)(n := None),
                                      qnum := (qnum h)(q \<mapsto> k - 1)\<rparr>)
                    else None))"

text \<open>The length is returned as a C \<open>int\<close>.\<close>

definition wmQueue_len :: "'a qheap \<Rightarrow> nat \<Rightarrow> int option" where
  "wmQueue_len h q = map_option sint (qnum h q)"

partial_function (option) queue_drain :: "'a qheap \<Rightarrow> nat \<Rightarrow> 'a qheap option" where
  "queue_drain h q =
    (if wmList_is_empty (qlnk h) (QHead q) then Some h
     else case nxt (qlnk h) (QHead q) of
         QHead _ \<Rightarrow> None
       | QNode n \<Rightarrow> queue_drain (h\<lparr>qlnk := wmList_remote (qlnk h) (QNode n), qdata := (qdata h)(n := None)\<rparr>) q)"

definition wmQueue_clear :: "'a qheap \<Rightarrow> nat \<Rightarrow> 'a qheap option" where
  "wmQueue_clear h q =
    (case qnum h q of
       None \<Rightarrow> None
     | Some k \<Rightarrow>
         if k = 0 then Some h
         else map_option (\<lambda>h. h\<lparr>qnum := (qnum h)(q \<mapsto> 0)\<rparr>) (queue_drain h q))"

definition wmQueue_destroy :: "'a qheap \<Rightarrow> nat \<Rightarrow> 'a qheap option" where
  "wmQueue_destroy h q = map_option (\<lambda>h. h\<lparr>qnum := (qnum h)(q := None)\<rparr>) (wmQueue_clear h q)"

section \<open>Refinement to lists\<close>

text \<open>
  \<open>queues h Q\<close>: the heap holds for every queue of \<open>Q\<close> its list. \<open>L\<close> is the list of nodes of each
  head; the data of the nodes, in order, is the list the queue denotes.
\<close>

definition queue_rep :: "'a qheap \<Rightarrow> (qaddr \<rightharpoonup> qaddr list) \<Rightarrow> (nat \<rightharpoonup> 'a list) \<Rightarrow> bool" where
  "queue_rep h L Q \<longleftrightarrow>
     rings (qlnk h) L \<and> dom L = QHead ` dom Q \<and> dom (qnum h) = dom Q \<and>
     (\<forall>q xs. Q q = Some xs \<longrightarrow> (\<exists>ns. L (QHead q) = Some (map QNode ns) \<and> map (qdata h) ns = map Some xs \<and>
        qnum h q = Some (of_nat (length xs)) \<and> length xs < 2 ^ 32 \<and> q < qfresh h \<and> (\<forall>n \<in> set ns. n < qfresh h)))"

definition queues :: "'a qheap \<Rightarrow> (nat \<rightharpoonup> 'a list) \<Rightarrow> bool" where
  "queues h Q \<longleftrightarrow> (\<exists>L. queue_rep h L Q)"

lemma queue_repD:
  assumes "queue_rep h L Q" "Q q = Some xs"
  shows "\<exists>ns. L (QHead q) = Some (map QNode ns) \<and> map (qdata h) ns = map Some xs \<and>
        qnum h q = Some (of_nat (length xs)) \<and> length xs < 2 ^ 32 \<and> q < qfresh h \<and> (\<forall>n \<in> set ns. n < qfresh h)"
  using assms unfolding queue_rep_def by blast

lemma queue_rep_unused:
  assumes "queue_rep h L Q" "qfresh h \<le> n"
  shows "unused L (QNode n)" "unused L (QHead n)"
proof -
  have "QNode n \<notin> set (p # xs) \<and> QHead n \<notin> set (p # xs)" if p: "L p = Some xs" for p xs
  proof -
    have "p \<in> QHead ` dom Q" using assms(1) p unfolding queue_rep_def by blast
    then obtain q ys where q: "p = QHead q" "Q q = Some ys" by blast
    then obtain ns where ns: "xs = map QNode ns" "q < qfresh h" "\<forall>n \<in> set ns. n < qfresh h"
      using queue_repD [OF assms(1) q(2)] p by (metis option.inject)
    then have "n \<notin> set ns" "q \<noteq> n" using assms(2) by auto
    then show ?thesis using q(1) ns(1) by auto
  qed
  then show "unused L (QNode n)" "unused L (QHead n)" by (auto simp: unused_def)
qed

lemma inj_QNode: "inj QNode"
  by (auto intro: injI)

text \<open>An operation that gives one queue a new list and leaves the nodes of the others alone.\<close>

lemma queue_rep_update:
  assumes r: "queue_rep h L Q"
    and ring: "rings (qlnk h') (L(QHead q \<mapsto> map QNode ns))"
    and num: "qnum h' = (qnum h)(q \<mapsto> of_nat (length xs))"
    and new: "map (qdata h') ns = map Some xs" "length xs < 2 ^ 32" "q < qfresh h'" "\<forall>n \<in> set ns. n < qfresh h'"
    and mono: "qfresh h \<le> qfresh h'"
    and other: "\<And>p ms n. p \<noteq> q \<Longrightarrow> L (QHead p) = Some (map QNode ms) \<Longrightarrow> n \<in> set ms \<Longrightarrow> qdata h' n = qdata h n"
  shows "queue_rep h' (L(QHead q \<mapsto> map QNode ns)) (Q(q \<mapsto> xs))"
  unfolding queue_rep_def
proof (intro conjI allI impI)
  show "rings (qlnk h') (L(QHead q \<mapsto> map QNode ns))" by (rule ring)
  show "dom (L(QHead q \<mapsto> map QNode ns)) = QHead ` dom (Q(q \<mapsto> xs))" using r by (auto simp: queue_rep_def)
  show "dom (qnum h') = dom (Q(q \<mapsto> xs))" using r num by (auto simp: queue_rep_def)
next
  fix p ys assume p: "(Q(q \<mapsto> xs)) p = Some ys"
  show "\<exists>ms. (L(QHead q \<mapsto> map QNode ns)) (QHead p) = Some (map QNode ms) \<and> map (qdata h') ms = map Some ys \<and>
      qnum h' p = Some (of_nat (length ys)) \<and> length ys < 2 ^ 32 \<and> p < qfresh h' \<and> (\<forall>n \<in> set ms. n < qfresh h')"
  proof (cases "p = q")
    case True
    then show ?thesis using p num new by auto
  next
    case False
    then have "Q p = Some ys" using p by simp
    then obtain ms where ms: "L (QHead p) = Some (map QNode ms)" "map (qdata h) ms = map Some ys"
        "qnum h p = Some (of_nat (length ys))" "length ys < 2 ^ 32" "p < qfresh h" "\<forall>n \<in> set ms. n < qfresh h"
      using queue_repD [OF r] by blast
    have "map (qdata h') ms = map (qdata h) ms" using other [OF False ms(1)] by simp
    then show ?thesis using ms False num mono by (intro exI [of _ ms]) auto
  qed
qed

lemma queue_other_nodes:
  assumes r: "queue_rep h L Q" and p: "L (QHead p) = Some (map QNode ms)" "k \<in> set ms"
    and q: "L (QHead q) = Some xs" "QNode n \<in> set xs" "p \<noteq> q"
  shows "k \<noteq> n"
proof
  assume "k = n"
  then have "QNode k \<in> set (map QNode ms)" "QNode k \<in> set xs" using p(2) q(2) by auto
  then show False using wl.in_one_list [OF _ p(1) q(1)] r q(3) by (auto simp: queue_rep_def)
qed

lemma queue_create_ok:
  assumes "queues h Q"
  shows "Q (fst (wmQueue_create h)) = None \<and> queues (snd (wmQueue_create h)) (Q(fst (wmQueue_create h) \<mapsto> []))"
proof -
  obtain L where r: "queue_rep h L Q" using assms by (auto simp: queues_def)
  let ?q = "qfresh h" and ?h = "snd (wmQueue_create h)"
  have Q: "Q ?q = None" using queue_repD [OF r, of ?q] by fastforce
  have l: "rings (wmList_init (qlnk h) (QHead ?q)) (L(QHead ?q \<mapsto> map QNode []))"
    using wl.init_new [OF _ queue_rep_unused(2) [OF r]] r by (simp add: queue_rep_def)
  have "queue_rep ?h (L(QHead ?q \<mapsto> map QNode [])) (Q(?q \<mapsto> []))"
    by (rule queue_rep_update [OF r]) (use l in \<open>simp_all add: wmQueue_create_def Let_def\<close>)
  then show ?thesis using Q by (auto simp: queues_def wmQueue_create_def Let_def)
qed

lemma queue_push_ok:
  assumes "queues h Q" and q: "Q q = Some xs" and len: "length xs + 1 < 2 ^ 32"
  shows "\<exists>h'. wmQueue_push h q x = Some h' \<and> queues h' (Q(q \<mapsto> xs @ [x]))"
proof -
  obtain L where r: "queue_rep h L Q" using assms by (auto simp: queues_def)
  obtain ns where ns: "L (QHead q) = Some (map QNode ns)" "map (qdata h) ns = map Some xs"
      "qnum h q = Some (of_nat (length xs))" "q < qfresh h" "\<forall>n \<in> set ns. n < qfresh h"
    using queue_repD [OF r q] by blast
  let ?n = "qfresh h"
  define l where "l = wmList_add_back (wmList_init (qlnk h) (QNode ?n)) (QHead q) (QNode ?n)"
  define h' where "h' = h\<lparr>qfresh := ?n + 1, qdata := (qdata h)(?n \<mapsto> x), qlnk := l,
      qnum := (qnum h)(q \<mapsto> of_nat (length xs) + 1)\<rparr>"
  have un: "unused L (QNode ?n)" by (rule queue_rep_unused(1) [OF r]) simp
  have rl: "rings (qlnk h) L" using r by (simp add: queue_rep_def)
  have "wmList_init (qlnk h) (QNode ?n) = set_nxt (set_prv (qlnk h) (QNode ?n) (QNode ?n)) (QNode ?n) (QNode ?n)"
    by (simp add: wmList_init_def Let_def)
  then have "rings (wmList_init (qlnk h) (QNode ?n)) L"
    using rings_write_unused [OF _ un] rl by metis
  then have "rings l (L(QHead q \<mapsto> map QNode ns @ [QNode ?n]))"
    unfolding l_def by (rule wl.add_back_rep [OF _ ns(1) un])
  then have l: "rings l (L(QHead q \<mapsto> map QNode (ns @ [?n])))" by simp
  have "queue_rep h' (L(QHead q \<mapsto> map QNode (ns @ [?n]))) (Q(q \<mapsto> xs @ [x]))"
  proof (rule queue_rep_update [OF r])
    show "map (qdata h') (ns @ [?n]) = map Some (xs @ [x])" using ns(2,5) by (auto simp: h'_def)
  next
    fix p ms n assume p: "p \<noteq> q" "L (QHead p) = Some (map QNode ms)" "n \<in> set ms"
    then have "QNode ?n \<notin> set (map QNode ms)" using un unfolding unused_def by (metis list.set_intros(2))
    then have "n \<noteq> ?n" using p(3) by auto
    then show "qdata h' n = qdata h n" by (simp add: h'_def)
  qed (use l len ns(4,5) in \<open>auto simp: h'_def\<close>)
  moreover have "wmQueue_push h q x = Some h'" using ns(3) by (simp add: wmQueue_push_def Let_def h'_def l_def)
  ultimately show ?thesis by (auto simp: queues_def)
qed

lemma take_first:
  assumes r: "queue_rep h L Q" and q: "Q q = Some (x # xs)"
    and h': "qfresh h' = qfresh h" "qlnk h' = wmList_remote (qlnk h) (QNode n)" "qdata h' = (qdata h)(n := None)"
      "qnum h' = (qnum h)(q \<mapsto> of_nat (length xs))" and n: "L (QHead q) = Some (map QNode (n # ns))"
  shows "queue_rep h' (L(QHead q \<mapsto> map QNode ns)) (Q(q \<mapsto> xs))"
proof (rule queue_rep_update [OF r])
  have rl: "rings (qlnk h) L" using r by (simp add: queue_rep_def)
  show "rings (qlnk h') (L(QHead q \<mapsto> map QNode ns))"
    using wl.pop_first(3) [OF rl, of "QHead q" "QNode n" "map QNode ns"] n h' by simp
  obtain ms where "L (QHead q) = Some (map QNode ms)" "map (qdata h) ms = map Some (x # xs)" "q < qfresh h"
      "\<forall>n \<in> set ms. n < qfresh h" "length (x # xs) < 2 ^ 32"
    using queue_repD [OF r q] by blast
  moreover have "ms = n # ns" using calculation(1) n inj_map_eq_map [OF inj_QNode, of ms "n # ns"] by simp
  moreover have "n \<notin> set ns" using wl.distinct_rep [OF rl n] by auto
  ultimately show "map (qdata h') ns = map Some xs" "q < qfresh h'" "\<forall>n \<in> set ns. n < qfresh h'" "length xs < 2 ^ 32"
    using h' by simp_all
next
  fix p ms k assume p: "p \<noteq> q" "L (QHead p) = Some (map QNode ms)" "k \<in> set ms"
  then show "qdata h' k = qdata h k" using queue_other_nodes [OF r p(2,3) n] h' by simp
qed (simp_all add: h')

lemma queue_pop_ok:
  assumes "queues h Q" and q: "Q q = Some xs" and kept: "xs = [] \<or> freed_kept h"
  shows "\<exists>h'. wmQueue_pop h q = Some (case xs of [] \<Rightarrow> None | x # _ \<Rightarrow> Some x, h') \<and> queues h' (Q(q \<mapsto> tl xs))"
proof -
  obtain L where r: "queue_rep h L Q" using assms by (auto simp: queues_def)
  obtain ns where ns: "L (QHead q) = Some (map QNode ns)" "map (qdata h) ns = map Some xs"
      "qnum h q = Some (of_nat (length xs))" "length xs < 2 ^ 32"
    using queue_repD [OF r q] by blast
  have rl: "rings (qlnk h) L" using r by (simp add: queue_rep_def)
  show ?thesis
  proof (cases xs)
    case Nil
    then have "Q(q \<mapsto> tl xs) = Q" using q by (auto simp: fun_eq_iff)
    then show ?thesis using Nil ns assms(1) by (simp add: wmQueue_pop_def)
  next
    case (Cons x ys)
    then obtain n ms where nm: "ns = n # ms" "qdata h n = Some x" using ns(2) by (cases ns) auto
    have c: "(of_nat (length xs) :: u32) \<noteq> 0"
      by (rule of_nat_nonzero32) (use ns(4) Cons in simp_all)
    define h' where "h' = h\<lparr>qlnk := wmList_remote (qlnk h) (QNode n), qdata := (qdata h)(n := None),
        qnum := (qnum h)(q \<mapsto> of_nat (length xs) - 1)\<rparr>"
    have "queue_rep h' (L(QHead q \<mapsto> map QNode ms)) (Q(q \<mapsto> ys))"
      by (rule take_first [OF r q [unfolded Cons]]) (use ns(1) nm Cons in \<open>simp_all add: h'_def\<close>)
    moreover have "wmQueue_pop h q = Some (Some x, h')"
      using wl.pop_first(1,2) [OF rl, of "QHead q" "QNode n" "map QNode ms"] ns nm c kept Cons
      by (simp add: wmQueue_pop_def h'_def)
    ultimately show ?thesis using Cons by (auto simp: queues_def)
  qed
qed

text \<open>Without that promise nothing can be said of a queue that is not empty.\<close>

lemma queue_pop_freed:
  assumes "queues h Q" "Q q = Some (x # xs)" "\<not> freed_kept h"
  shows "wmQueue_pop h q = None"
proof -
  obtain L where r: "queue_rep h L Q" using assms by (auto simp: queues_def)
  obtain ns where ns: "L (QHead q) = Some (map QNode ns)" "map (qdata h) ns = map Some (x # xs)"
      "qnum h q = Some (of_nat (length (x # xs)))" "length (x # xs) < 2 ^ 32"
    using queue_repD [OF r assms(2)] by blast
  have rl: "rings (qlnk h) L" using r by (simp add: queue_rep_def)
  obtain n ms where nm: "ns = n # ms" "qdata h n = Some x" using ns(2) by (cases ns) auto
  have "(of_nat (length (x # xs)) :: u32) \<noteq> 0"
    by (rule of_nat_nonzero32) (use ns(4) in simp_all)
  then show ?thesis
    using wl.pop_first(1,2) [OF rl, of "QHead q" "QNode n" "map QNode ms"] ns(1,3) nm assms(3)
    by (simp add: wmQueue_pop_def)
qed

lemma queue_keeps:
  "freed_kept (snd (wmQueue_create h)) = freed_kept h"
  "wmQueue_push h q x = Some h' \<Longrightarrow> freed_kept h' = freed_kept h"
  "wmQueue_pop h q = Some (y, h') \<Longrightarrow> freed_kept h' = freed_kept h"
  by (auto simp: wmQueue_create_def wmQueue_push_def wmQueue_pop_def Let_def
      split: option.splits if_splits qaddr.splits)

lemma drain_ok:
  assumes "rings (qlnk h) L" "L (QHead q) = Some (map QNode ns)"
  shows "\<exists>l d. queue_drain h q = Some (h\<lparr>qlnk := l, qdata := d\<rparr>) \<and> rings l (L(QHead q \<mapsto> [])) \<and>
    (\<forall>n. n \<notin> set ns \<longrightarrow> d n = qdata h n)"
  using assms
proof (induction ns arbitrary: h L)
  case Nil
  then have "queue_drain h q = Some (h\<lparr>qlnk := qlnk h, qdata := qdata h\<rparr>)"
    using wl.is_empty_rep [OF Nil(1,2)] by (subst queue_drain.simps) simp
  moreover have "L(QHead q \<mapsto> []) = L" using Nil(2) by (auto simp: fun_eq_iff)
  ultimately show ?case using Nil(1) by (intro exI [of _ "qlnk h"] exI [of _ "qdata h"]) simp
next
  case (Cons n ns)
  have L: "L (QHead q) = Some (QNode n # map QNode ns)" using Cons.prems(2) by simp
  note p = wl.pop_first [OF Cons.prems(1) L]
  define g where "g = h\<lparr>qlnk := wmList_remote (qlnk h) (QNode n), qdata := (qdata h)(n := None)\<rparr>"
  have "rings (qlnk g) (L(QHead q \<mapsto> map QNode ns))" using p(3) by (simp add: g_def)
  then obtain l d where ld: "queue_drain g q = Some (g\<lparr>qlnk := l, qdata := d\<rparr>)"
      "rings l (L(QHead q \<mapsto> []))" "\<forall>k. k \<notin> set ns \<longrightarrow> d k = qdata g k"
    using Cons.IH [of g "L(QHead q \<mapsto> map QNode ns)"] by (auto simp del: fun_upd_apply simp: fun_upd_same)
  have "queue_drain h q = queue_drain g q" using p(1,2) by (subst queue_drain.simps) (simp add: g_def)
  then have "queue_drain h q = Some (h\<lparr>qlnk := l, qdata := d\<rparr>)" using ld(1) by (simp add: g_def)
  moreover have "\<forall>k. k \<notin> set (n # ns) \<longrightarrow> d k = qdata h k" using ld(3) by (simp add: g_def)
  ultimately show ?case using ld(2) by blast
qed

lemma queue_clear_ok:
  assumes "queues h Q" and q: "Q q = Some xs"
  shows "\<exists>h'. wmQueue_clear h q = Some h' \<and> queues h' (Q(q \<mapsto> []))"
proof -
  obtain L where r: "queue_rep h L Q" using assms by (auto simp: queues_def)
  obtain ns where ns: "L (QHead q) = Some (map QNode ns)" "map (qdata h) ns = map Some xs"
      "qnum h q = Some (of_nat (length xs))" "length xs < 2 ^ 32" "q < qfresh h"
    using queue_repD [OF r q] by blast
  have rl: "rings (qlnk h) L" using r by (simp add: queue_rep_def)
  show ?thesis
  proof (cases "(of_nat (length xs) :: u32) = 0")
    case True
    then have "xs = []" using of_nat_nonzero32 [of "length xs"] ns(4) by auto
    then have "Q(q \<mapsto> []) = Q" using q by (auto simp: fun_eq_iff)
    then show ?thesis using True ns(3) assms(1) by (simp add: wmQueue_clear_def)
  next
    case False
    obtain l d where d: "queue_drain h q = Some (h\<lparr>qlnk := l, qdata := d\<rparr>)" "rings l (L(QHead q \<mapsto> []))"
        "\<forall>n. n \<notin> set ns \<longrightarrow> d n = qdata h n"
      using drain_ok [OF rl ns(1)] by blast
    define h' where "h' = h\<lparr>qlnk := l, qdata := d, qnum := (qnum h)(q \<mapsto> 0)\<rparr>"
    have "queue_rep h' (L(QHead q \<mapsto> map QNode [])) (Q(q \<mapsto> []))"
    proof (rule queue_rep_update [OF r])
      fix p ms n assume p: "p \<noteq> q" "L (QHead p) = Some (map QNode ms)" "n \<in> set ms"
      have "n \<notin> set ns" using queue_other_nodes [OF r p(2,3) ns(1) _ p(1)] by auto
      then show "qdata h' n = qdata h n" using d(3) by (simp add: h'_def)
    qed (use d(2) ns(5) in \<open>simp_all add: h'_def\<close>)
    moreover have "wmQueue_clear h q = Some h'" using False ns(3) d(1) by (simp add: wmQueue_clear_def h'_def)
    ultimately show ?thesis by (auto simp: queues_def)
  qed
qed

section \<open>The interface\<close>

text \<open>
  What the users of the queues rely on, as operations on the family of lists the heap denotes.
\<close>

locale fifo =
  fixes create :: "'h \<Rightarrow> nat \<times> 'h"
    and push :: "'h \<Rightarrow> nat \<Rightarrow> 'a \<Rightarrow> 'h option"
    and pop :: "'h \<Rightarrow> nat \<Rightarrow> ('a option \<times> 'h) option"
    and clear :: "'h \<Rightarrow> nat \<Rightarrow> 'h option"
    and rep :: "'h \<Rightarrow> (nat \<rightharpoonup> 'a list) \<Rightarrow> bool"
    and keeps :: "'h \<Rightarrow> bool"
    and limit :: nat
  assumes create_rep: "rep h Q \<Longrightarrow> Q (fst (create h)) = None \<and> rep (snd (create h)) (Q(fst (create h) \<mapsto> []))"
    and push_rep: "rep h Q \<Longrightarrow> Q q = Some xs \<Longrightarrow> length xs + 1 < limit \<Longrightarrow>
      \<exists>h'. push h q x = Some h' \<and> rep h' (Q(q \<mapsto> xs @ [x]))"
    and pop_rep: "rep h Q \<Longrightarrow> Q q = Some xs \<Longrightarrow> xs = [] \<or> keeps h \<Longrightarrow>
      \<exists>h'. pop h q = Some (case xs of [] \<Rightarrow> None | x # _ \<Rightarrow> Some x, h') \<and> rep h' (Q(q \<mapsto> tl xs))"
    and pop_freed: "rep h Q \<Longrightarrow> Q q = Some (x # xs) \<Longrightarrow> \<not> keeps h \<Longrightarrow> pop h q = None"
    and clear_rep: "rep h Q \<Longrightarrow> Q q = Some xs \<Longrightarrow> \<exists>h'. clear h q = Some h' \<and> rep h' (Q(q \<mapsto> []))"
    and push_keeps: "push h q x = Some h' \<Longrightarrow> keeps h' = keeps h"
    and pop_keeps: "pop h q = Some (y, h') \<Longrightarrow> keeps h' = keeps h"
begin

lemma pop_nil:
  assumes "rep h Q" "Q q = Some []"
  shows "\<exists>h'. pop h q = Some (None, h') \<and> rep h' Q"
proof -
  have "Q(q \<mapsto> []) = Q" using assms(2) by (auto simp: fun_eq_iff)
  then show ?thesis using pop_rep [OF assms] by auto
qed

lemma pop_cons:
  assumes "rep h Q" "Q q = Some (x # xs)" "keeps h"
  shows "\<exists>h'. pop h q = Some (Some x, h') \<and> rep h' (Q(q \<mapsto> xs)) \<and> keeps h'"
  using pop_rep [OF assms(1,2)] pop_keeps assms(3) by fastforce

text \<open>A pop that returns from a queue with elements had the allocator's promise.\<close>

lemma pop_Some_keeps:
  assumes "rep h Q" "Q q = Some (x # xs)" "pop h q = Some r"
  shows "keeps h"
  using pop_freed [OF assms(1,2)] assms(3) by fastforce

text \<open>An element pushed comes out after everything that was there before.\<close>

lemma push_all:
  assumes "rep h Q" "Q q = Some xs" "length xs + length ys < limit"
  shows "\<exists>h'. fold (\<lambda>y h. Option.bind h (\<lambda>h. push h q y)) ys (Some h) = Some h' \<and> rep h' (Q(q \<mapsto> xs @ ys)) \<and>
    keeps h' = keeps h"
  using assms
proof (induction ys arbitrary: h Q xs)
  case Nil
  then have "Q(q \<mapsto> xs) = Q" by (auto simp: fun_eq_iff)
  then show ?case using Nil by simp
next
  case (Cons y ys)
  obtain h1 where h1: "push h q y = Some h1" "rep h1 (Q(q \<mapsto> xs @ [y]))"
    using push_rep [OF Cons.prems(1,2)] Cons.prems(3) by auto
  have "\<exists>h'. fold (\<lambda>y h. Option.bind h (\<lambda>h. push h q y)) ys (Some h1) = Some h' \<and>
      rep h' (Q(q \<mapsto> xs @ [y], q \<mapsto> (xs @ [y]) @ ys)) \<and> keeps h' = keeps h1"
    by (rule Cons.IH [OF h1(2)]) (use Cons.prems(3) in simp_all)
  then show ?case using h1(1) push_keeps [OF h1(1)] by (simp del: fun_upd_apply)
qed

end

interpretation qq: fifo wmQueue_create wmQueue_push wmQueue_pop wmQueue_clear queues freed_kept "2 ^ 32"
  by unfold_locales
    (rule queue_create_ok queue_push_ok queue_pop_ok queue_pop_freed queue_clear_ok queue_keeps(2,3); assumption)+

section \<open>Properties\<close>

fun pop_all :: "'a qheap \<Rightarrow> nat \<Rightarrow> nat \<Rightarrow> ('a list \<times> 'a qheap) option" where
  "pop_all h q 0 = Some ([], h)"
| "pop_all h q (Suc k) = Option.bind (wmQueue_pop h q) (\<lambda>(x, h).
     map_option (\<lambda>(xs, h). ((case x of None \<Rightarrow> xs | Some x \<Rightarrow> x # xs), h)) (pop_all h q k))"

lemma pop_all_ok:
  assumes "queues h Q" "Q q = Some (xs @ ys)" "freed_kept h"
  shows "\<exists>h'. pop_all h q (length xs) = Some (xs, h') \<and> queues h' (Q(q \<mapsto> ys))"
  using assms
proof (induction xs arbitrary: h Q)
  case Nil
  then have "Q(q \<mapsto> ys) = Q" by (auto simp: fun_eq_iff)
  then show ?case using Nil by simp
next
  case (Cons x xs)
  obtain h1 where h1: "wmQueue_pop h q = Some (Some x, h1)" "queues h1 (Q(q \<mapsto> xs @ ys))" "freed_kept h1"
    using qq.pop_cons [OF Cons.prems(1), of q x "xs @ ys"] Cons.prems(2,3) by auto
  have "\<exists>h'. pop_all h1 q (length xs) = Some (xs, h') \<and> queues h' (Q(q \<mapsto> xs @ ys, q \<mapsto> ys))"
    by (rule Cons.IH [OF h1(2)]) (simp_all add: h1(3))
  then show ?case using h1(1) by (auto simp del: fun_upd_apply)
qed

text \<open>
  C10: pushing \<open>ys\<close> on a queue that holds \<open>xs\<close> appends them, and leaves every other queue of the heap
  with its contents. What the pops then give depends on the allocator, as \<open>wmQueue_pop\<close> reads the node
  it has just freed: where a freed block keeps its contents, popping \<open>length xs + length ys\<close> times
  returns \<open>xs @ ys\<close> in order, leaves every other queue alone, and the next pop returns the null pointer;
  where it does not, the first pop of a queue that is not empty is undefined, while the pop
  of an empty queue is the null pointer with any allocator.
\<close>

theorem queue_fifo:
  assumes "queues h Q" "Q q = Some xs" "length xs + length ys < 2 ^ 32"
  shows "\<exists>h1. fold (\<lambda>y h. Option.bind h (\<lambda>h. wmQueue_push h q y)) ys (Some h) = Some h1 \<and> queues h1 (Q(q \<mapsto> xs @ ys)) \<and>
    (if freed_kept h \<or> xs @ ys = [] then
       \<exists>h2. pop_all h1 q (length xs + length ys) = Some (xs @ ys, h2) \<and> queues h2 (Q(q \<mapsto> [])) \<and>
         map_option fst (wmQueue_pop h2 q) = Some None
     else wmQueue_pop h1 q = None)"
proof -
  obtain h1 where h1: "fold (\<lambda>y h. Option.bind h (\<lambda>h. wmQueue_push h q y)) ys (Some h) = Some h1"
      "queues h1 (Q(q \<mapsto> xs @ ys))" "freed_kept h1 = freed_kept h"
    using qq.push_all [OF assms] by blast
  have e: "map_option fst (wmQueue_pop g q) = Some None" if g: "queues g (Q(q \<mapsto> []))" for g
    using qq.pop_nil [OF g, of q] by auto
  have kept: "\<exists>h2. pop_all h1 q (length xs + length ys) = Some (xs @ ys, h2) \<and> queues h2 (Q(q \<mapsto> []))" if "freed_kept h"
    using pop_all_ok [OF h1(2), of q "xs @ ys" "[]"] h1(3) that by auto
  have none: "\<exists>h2. pop_all h1 q (length xs + length ys) = Some (xs @ ys, h2) \<and> queues h2 (Q(q \<mapsto> []))" if "xs @ ys = []"
    using h1(2) that by auto
  have lost: "wmQueue_pop h1 q = None" if ne: "\<not> freed_kept h" "\<not> (xs = [] \<and> ys = [])"
  proof -
    obtain z zs where "xs @ ys = z # zs" using ne(2) by (cases "xs @ ys") auto
    then show ?thesis using qq.pop_freed [OF h1(2), of q z zs] h1(3) ne(1) by simp
  qed
  show ?thesis using h1(1,2) kept none lost e by (cases "freed_kept h \<or> xs @ ys = []") auto
qed

definition no_queues :: "'a qheap" where
  "no_queues = \<lparr>qlnk = \<lparr>nxt = id, prv = id\<rparr>, qdata = Map.empty, qnum = Map.empty, qfresh = 0, freed_kept = True\<rparr>"

lemma no_queues_rep: "queues no_queues Map.empty"
  by (auto simp: queues_def queue_rep_def no_queues_def rings_def intro!: exI [of _ Map.empty])

theorem queue_fifo_witness:
  "\<exists>h1 h2. fold (\<lambda>y h. Option.bind h (\<lambda>h. wmQueue_push h 0 y)) [4, 5, 6 :: nat] (Some (snd (wmQueue_create no_queues))) = Some h1 \<and>
    pop_all h1 0 3 = Some ([4, 5, 6], h2)"
proof -
  have "queues (snd (wmQueue_create no_queues)) [0 \<mapsto> []]"
    using qq.create_rep [OF no_queues_rep] by (simp add: wmQueue_create_def no_queues_def)
  moreover have "freed_kept (snd (wmQueue_create (no_queues :: nat qheap)))" by (simp add: queue_keeps no_queues_def)
  moreover have "length ([] :: nat list) + length [4, 5, 6 :: nat] < 2 ^ 32" by simp
  ultimately show ?thesis
    using queue_fifo [of "snd (wmQueue_create no_queues)" "[0 \<mapsto> []]" 0 "[]" "[4, 5, 6 :: nat]"]
    by (auto simp: numeral_3_eq_3)
qed

end
