(* ===== verification/Wm_Channel.thy ===== *)
theory Wm_Channel
  imports Complex_Main Wm_Coroutine_Run Wm_Queue Wm_Timer
begin

text \<open>
  The channels of \<open>src/coroutine/channel.c\<close> and \<open>src/php_channel.c\<close>: a bounded queue of values with
  a queue of waiting producers and one of waiting consumers. A function that yields is split at the
  yield: \<open>..._begin\<close> up to the yield, \<open>..._end\<close> from where the coroutine runs again; a function that
  resumes another coroutine ends its transition there. The world is the scheduler extended with the
  heap of the queues, the channels, the timeout records and the timer wheel of the worker.
\<close>

section \<open>State\<close>

record wmChannel =
  capacity :: u32
  producer_queue :: nat
  consumer_queue :: nat
  data_queue :: nat

text \<open>The \<open>void *\<close> of a queue node: a coroutine, possibly null, or a value.\<close>

datatype qval = Waiter "task_ref option" | Datum nat

record chan_world = sched +
  qheap_of :: "qval qheap"
  chans :: "nat \<rightharpoonup> wmChannel"
  next_chan :: nat
  wcts :: "nat \<rightharpoonup> task_ref option \<times> bool"
  next_wct :: nat
  wtimer :: wheel

definition SLEEP_TIMEOUT :: nat where "SLEEP_TIMEOUT = 1"

section \<open>Operations\<close>

definition wmChannel_create :: "u32 \<Rightarrow> chan_world \<Rightarrow> nat \<times> chan_world" where
  "wmChannel_create cap w =
    (let (p, h) = wmQueue_create (qheap_of w);
         (c, h) = wmQueue_create h;
         (d, h) = wmQueue_create h;
         n = next_chan w in
     (n, w\<lparr>qheap_of := h, next_chan := n + 1,
           chans := (chans w)(n \<mapsto> \<lparr>capacity = cap, producer_queue = p, consumer_queue = c, data_queue = d\<rparr>)\<rparr>))"

text \<open>
  Waiting in the queue \<open>q\<close>: with a timeout (in seconds) a record is allocated and a timer armed for
  it; then the coroutine queues itself and yields. The result names the record. A number of milliseconds
  beyond 32 bits is an undefined conversion.
\<close>

definition chan_wait :: "chan_world \<Rightarrow> nat \<Rightarrow> rat \<Rightarrow> (nat option \<times> chan_world) option" where
  "chan_wait w q timeout =
    (let co = wmCoroutine_get_current w in
     Option.bind
       (if 2 ^ 32 \<le> timeout * 1000 then None
        else if 0 < timeout then
          let n = next_wct w in
          map_option (\<lambda>(_, tw). (Some n, w\<lparr>next_wct := n + 1, wcts := (wcts w)(n \<mapsto> (co, True)), wtimer := tw\<rparr>))
            (wmTimerWheel_add_quick (wtimer w) (Some SLEEP_TIMEOUT) n (word_of_int \<lfloor>timeout * 1000\<rfloor>))
        else Some (None, w)) (\<lambda>(wct, w).
     Option.bind (wmQueue_push (qheap_of w) q (Waiter co)) (\<lambda>h.
     map_option (\<lambda>w. (wct, w)) (wmCoroutine_yield (w\<lparr>qheap_of := h\<rparr>)))))"

text \<open>The coroutine runs again: its record, when it has one, is told not to wake it any more.\<close>

definition chan_woken :: "chan_world \<Rightarrow> nat option \<Rightarrow> chan_world option" where
  "chan_woken w wct =
    (case wct of
       None \<Rightarrow> Some w
     | Some n \<Rightarrow> map_option (\<lambda>(co, _). w\<lparr>wcts := (wcts w)(n \<mapsto> (co, False))\<rparr>) (wcts w n))"

text \<open>Waking the first waiter of a queue that is not null.\<close>

partial_function (option) chan_notify :: "chan_world \<Rightarrow> nat \<Rightarrow> chan_world option" where
  "chan_notify w q =
    (case qnum (qheap_of w) q of
       None \<Rightarrow> None
     | Some k \<Rightarrow>
         if k = 0 then Some w
         else Option.bind (wmQueue_pop (qheap_of w) q) (\<lambda>(x, h).
           case x of
             Some (Waiter (Some r)) \<Rightarrow> map_option snd (wmCoroutine_resume (w\<lparr>qheap_of := h\<rparr>) r)
           | Some (Datum _) \<Rightarrow> None
           | _ \<Rightarrow> chan_notify (w\<lparr>qheap_of := h\<rparr>) q))"

text \<open>\<open>wmChannel_push\<close>: the flag of the first part says whether it waits.\<close>

definition wmChannel_push_begin :: "chan_world \<Rightarrow> nat \<Rightarrow> rat \<Rightarrow> (bool \<times> nat option \<times> chan_world) option" where
  "wmChannel_push_begin w ch timeout =
    (case chans w ch of
       None \<Rightarrow> None
     | Some c \<Rightarrow>
         (case qnum (qheap_of w) (data_queue c) of
            None \<Rightarrow> None
          | Some k \<Rightarrow> if k = capacity c then map_option (Pair True) (chan_wait w (producer_queue c) timeout)
                     else Some (False, None, w)))"

definition wmChannel_push_end :: "chan_world \<Rightarrow> nat \<Rightarrow> nat \<Rightarrow> nat option \<Rightarrow> (bool \<times> chan_world) option" where
  "wmChannel_push_end w ch d wct =
    Option.bind (chan_woken w wct) (\<lambda>w.
    case chans w ch of
      None \<Rightarrow> None
    | Some c \<Rightarrow>
        (case qnum (qheap_of w) (data_queue c) of
           None \<Rightarrow> None
         | Some k \<Rightarrow>
             if k = capacity c then Some (False, w)
             else Option.bind (wmQueue_push (qheap_of w) (data_queue c) (Datum d)) (\<lambda>h.
                  map_option (Pair True) (chan_notify (w\<lparr>qheap_of := h\<rparr>) (consumer_queue c)))))"

text \<open>\<open>wmChannel_pop\<close>: the result \<open>None\<close> is the null pointer.\<close>

definition wmChannel_pop_begin :: "chan_world \<Rightarrow> nat \<Rightarrow> rat \<Rightarrow> (bool \<times> nat option \<times> chan_world) option" where
  "wmChannel_pop_begin w ch timeout =
    (case chans w ch of
       None \<Rightarrow> None
     | Some c \<Rightarrow>
         (case qnum (qheap_of w) (data_queue c) of
            None \<Rightarrow> None
          | Some k \<Rightarrow> if k = 0 then map_option (Pair True) (chan_wait w (consumer_queue c) timeout)
                     else Some (False, None, w)))"

definition wmChannel_pop_end :: "chan_world \<Rightarrow> nat \<Rightarrow> nat option \<Rightarrow> (nat option \<times> chan_world) option" where
  "wmChannel_pop_end w ch wct =
    Option.bind (chan_woken w wct) (\<lambda>w.
    case chans w ch of
      None \<Rightarrow> None
    | Some c \<Rightarrow>
        (case qnum (qheap_of w) (data_queue c) of
           None \<Rightarrow> None
         | Some k \<Rightarrow>
             if k = 0 then Some (None, w)
             else Option.bind (wmQueue_pop (qheap_of w) (data_queue c)) (\<lambda>(x, h).
               case x of
                 Some (Waiter _) \<Rightarrow> None
               | None \<Rightarrow> map_option (Pair None) (chan_notify (w\<lparr>qheap_of := h\<rparr>) (producer_queue c))
               | Some (Datum d) \<Rightarrow> map_option (Pair (Some d)) (chan_notify (w\<lparr>qheap_of := h\<rparr>) (producer_queue c)))))"

definition wmChannel_num :: "chan_world \<Rightarrow> nat \<Rightarrow> int option" where
  "wmChannel_num w ch = Option.bind (chans w ch) (\<lambda>c. wmQueue_len (qheap_of w) (data_queue c))"

partial_function (option) wmChannel_clear :: "chan_world \<Rightarrow> nat \<Rightarrow> chan_world option" where
  "wmChannel_clear w ch =
    Option.bind (chans w ch) (\<lambda>c.
    Option.bind (wmChannel_num w ch) (\<lambda>k.
    if 0 < k then
      Option.bind (wmQueue_pop (qheap_of w) (data_queue c)) (\<lambda>(x, h).
      case x of Some (Datum _) \<Rightarrow> wmChannel_clear (w\<lparr>qheap_of := h\<rparr>) ch | _ \<Rightarrow> None)
    else Some w))"

text \<open>
  \<open>wmChannel_free\<close>, after \<open>wmChannel_clear\<close>, is a sequence of these: wake the next waiter, consumers
  first, or, when nobody waits, free the queue heads and the channel.
\<close>

definition wmChannel_free_step :: "chan_world \<Rightarrow> nat \<Rightarrow> (bool \<times> chan_world) option" where
  "wmChannel_free_step w ch =
    Option.bind (chans w ch) (\<lambda>c.
    Option.bind (qnum (qheap_of w) (consumer_queue c)) (\<lambda>kc.
    Option.bind (qnum (qheap_of w) (producer_queue c)) (\<lambda>kp.
    if 0 < kc then map_option (Pair False) (chan_notify w (consumer_queue c))
    else if 0 < kp then map_option (Pair False) (chan_notify w (producer_queue c))
    else Some (True, w\<lparr>qheap_of := (qheap_of w)\<lparr>qnum := (qnum (qheap_of w))
             (data_queue c := None, consumer_queue c := None, producer_queue c := None)\<rparr>, chans := (chans w)(ch := None)\<rparr>))))"

text \<open>The callback of the timer: the record is freed before the coroutine is resumed.\<close>

definition sleep_timeout :: "chan_world \<Rightarrow> nat \<Rightarrow> chan_world option" where
  "sleep_timeout w n =
    (case wcts w n of
       None \<Rightarrow> None
     | Some (co, type) \<Rightarrow>
         let w = w\<lparr>wcts := (wcts w)(n := None)\<rparr> in
         if type then Option.bind co (\<lambda>r. map_option snd (wmCoroutine_resume w r)) else Some w)"

text \<open>The PHP class.\<close>

definition php_channel_construct :: "int \<Rightarrow> chan_world \<Rightarrow> nat \<times> chan_world" where
  "php_channel_construct cap w = wmChannel_create (word_of_int (if cap \<le> 0 then 1 else cap)) w"

definition php_channel_isEmpty :: "chan_world \<Rightarrow> nat \<Rightarrow> bool option" where
  "php_channel_isEmpty w ch = map_option (\<lambda>k. 0 < k) (wmChannel_num w ch)"

definition php_channel_length :: "chan_world \<Rightarrow> nat \<Rightarrow> int option" where
  "php_channel_length w ch = wmChannel_num w ch"

section \<open>The contents of a channel\<close>

text \<open>
  \<open>chan_is Q c xs ps cs\<close>: the queues of the channel hold the values \<open>xs\<close>, the producers \<open>ps\<close> and the
  consumers \<open>cs\<close>, and there are no more values than its capacity.
\<close>

definition chan_is :: "(nat \<rightharpoonup> qval list) \<Rightarrow> wmChannel \<Rightarrow> nat list \<Rightarrow> task_ref option list \<Rightarrow> task_ref option list \<Rightarrow> bool" where
  "chan_is Q c xs ps cs \<longleftrightarrow>
     Q (data_queue c) = Some (map Datum xs) \<and> Q (producer_queue c) = Some (map Waiter ps) \<and>
     Q (consumer_queue c) = Some (map Waiter cs) \<and> length xs \<le> unat (capacity c) \<and>
     distinct [data_queue c, producer_queue c, consumer_queue c]"

definition apart :: "wmChannel \<Rightarrow> wmChannel \<Rightarrow> bool" where
  "apart c d \<longleftrightarrow> {data_queue c, producer_queue c, consumer_queue c} \<inter> {data_queue d, producer_queue d, consumer_queue d} = {}"

definition chans_ok :: "chan_world \<Rightarrow> (nat \<rightharpoonup> qval list) \<Rightarrow> bool" where
  "chans_ok w Q \<longleftrightarrow> queues (qheap_of w) Q \<and>
     (\<forall>n c. chans w n = Some c \<longrightarrow> (\<exists>xs ps cs. chan_is Q c xs ps cs)) \<and>
     (\<forall>n m c d. chans w n = Some c \<longrightarrow> chans w m = Some d \<longrightarrow> n \<noteq> m \<longrightarrow> apart c d) \<and>
     (\<forall>n. next_chan w \<le> n \<longrightarrow> chans w n = None)"

lemma queues_num: "queues h Q \<Longrightarrow> Q q = Some xs \<Longrightarrow> qnum h q = Some (of_nat (length xs)) \<and> length xs < 2 ^ 32"
  unfolding queues_def using queue_repD by blast

lemma num_zero: "queues h Q \<Longrightarrow> Q q = Some xs \<Longrightarrow> qnum h q = Some k \<Longrightarrow> k = 0 \<longleftrightarrow> xs = []"
  using queues_num [of h Q q xs] of_nat_nonzero32 [of "length xs"] by auto

lemma num_eq:
  assumes "queues h Q" "Q q = Some xs" "qnum h q = Some k"
  shows "k = c \<longleftrightarrow> length xs = unat c"
proof -
  have "k = of_nat (length xs)" "length xs < 4294967296" using queues_num [OF assms(1,2)] assms(3) by auto
  then have "unat k = length xs" by (simp add: unat_of_nat32)
  then show ?thesis by (metis word_unat_eq_iff)
qed

text \<open>The scheduler leaves the channels alone.\<close>

lemma set_task_more [simp]: "sched.more (set_task s r c) = sched.more s"
  by (simp add: set_task_def split: task_ref.split)

lemma yield_more: "wmCoroutine_yield s = Some s' \<Longrightarrow> sched.more s' = sched.more s"
  by (auto simp: wmCoroutine_yield_def save_vm_stack_def restore_vm_stack_def Let_def
      split: option.splits prod.splits if_splits bind_splits)

lemma resume_more: "wmCoroutine_resume s r = Some (b, s') \<Longrightarrow> sched.more s' = sched.more s"
  by (auto simp: wmCoroutine_resume_def get_task_def save_vm_stack_def restore_vm_stack_def Let_def
      split: option.splits prod.splits if_splits bind_splits)

lemma create_more: "wmCoroutine_create pf b s = Some (c, s') \<Longrightarrow> sched.more s' = sched.more s"
  by (auto simp: wmCoroutine_create_def get_task_def save_vm_stack_def run_def main_func_enter_def vm_stack_init_def Let_def
      split: option.splits prod.splits if_splits bind_splits)

lemma exit_more: "main_func_exit s = Some s' \<Longrightarrow> sched.more s' = sched.more s"
  by (auto simp: main_func_exit_def close_coro_def vm_stack_destroy_def restore_vm_stack_def Let_def
      split: option.splits prod.splits if_splits task_ref.splits bind_splits)

lemma fail_more: "main_func_fail s = Some s' \<Longrightarrow> sched.more s' = sched.more s"
  by (auto simp: main_func_fail_def close_coro_def vm_stack_destroy_def restore_vm_stack_def Let_def
      split: option.splits prod.splits if_splits task_ref.splits bind_splits)

lemma defer_more: "wmCoroutine_defer s x = Some s' \<Longrightarrow> sched.more s' = sched.more s"
    "main_func_defer ok s = Some (y, s') \<Longrightarrow> sched.more s' = sched.more s"
    "wmCoroutine_set_callback s cid f d = Some s' \<Longrightarrow> sched.more s' = sched.more s"
  by (auto simp: wmCoroutine_defer_def main_func_defer_def wmCoroutine_set_callback_def Let_def
      split: option.splits prod.splits if_splits task_ref.splits bind_splits dest!: fail_more)

lemma co_do_more: "co_do x s = Some s' \<Longrightarrow> sched.more s' = sched.more s"
  by (cases x) (auto simp: co_do_def php_resume_def split: option.splits
      dest: create_more yield_more resume_more defer_more exit_more)

lemma chan_more_fields:
  fixes w w' :: chan_world
  assumes "sched.more w' = sched.more w"
  shows "qheap_of w' = qheap_of w" "chans w' = chans w" "next_chan w' = next_chan w" "wcts w' = wcts w"
    "next_wct w' = next_wct w" "wtimer w' = wtimer w"
  using assms by (cases w, cases w', simp)+

lemma chans_ok_cong:
  assumes "chans_ok w Q" "qheap_of w' = qheap_of w" "chans w' = chans w" "next_chan w' = next_chan w"
  shows "chans_ok w' Q"
  using assms unfolding chans_ok_def by simp

text \<open>Changing the queues of one channel.\<close>

lemma chans_ok_change:
  assumes "chans_ok w Q" "chans w n = Some c" "queues (qheap_of w') Q'"
    "\<And>q. q \<notin> {data_queue c, producer_queue c, consumer_queue c} \<Longrightarrow> Q' q = Q q"
    "chan_is Q' c xs ps cs" "chans w' = chans w" "next_chan w' = next_chan w"
  shows "chans_ok w' Q'"
proof -
  have "\<exists>xs ps cs. chan_is Q' d xs ps cs" if d: "chans w m = Some d" for m d
  proof (cases "m = n")
    case True
    then show ?thesis using assms(2,5) d by auto
  next
    case False
    then have "apart d c" using assms(1,2) d unfolding chans_ok_def by blast
    then have "Q' (data_queue d) = Q (data_queue d)" "Q' (producer_queue d) = Q (producer_queue d)"
        "Q' (consumer_queue d) = Q (consumer_queue d)"
      using assms(4) by (auto simp: apart_def)
    moreover obtain ys qs es where "chan_is Q d ys qs es" using assms(1) d unfolding chans_ok_def by blast
    ultimately have "chan_is Q' d ys qs es" by (simp add: chan_is_def)
    then show ?thesis by blast
  qed
  moreover have "\<forall>n m c d. chans w n = Some c \<longrightarrow> chans w m = Some d \<longrightarrow> n \<noteq> m \<longrightarrow> apart c d"
      "\<forall>n. next_chan w \<le> n \<longrightarrow> chans w n = None"
    using assms(1) unfolding chans_ok_def by blast+
  ultimately show ?thesis using assms(3,6,7) unfolding chans_ok_def by simp
qed

text \<open>Waking drops the null waiters and resumes the first other one.\<close>

lemma notify_ok:
  assumes "queues (qheap_of w) Q" "Q q = Some (map Waiter ps)" "ps = [] \<or> freed_kept (qheap_of w)"
  shows "case dropWhile (\<lambda>r. r = None) ps of
      [] \<Rightarrow> \<exists>h. chan_notify w q = Some (w\<lparr>qheap_of := h\<rparr>) \<and> queues h (Q(q \<mapsto> [])) \<and>
        freed_kept h = freed_kept (qheap_of w)
    | r # rs \<Rightarrow> \<exists>h. chan_notify w q = map_option snd (wmCoroutine_resume (w\<lparr>qheap_of := h\<rparr>) (the r)) \<and>
        queues h (Q(q \<mapsto> map Waiter rs)) \<and> freed_kept h = freed_kept (qheap_of w)"
  using assms
proof (induction ps arbitrary: w Q)
  case Nil
  then have "qnum (qheap_of w) q = Some 0" using queues_num [OF Nil(1,2)] by simp
  then have "chan_notify w q = Some (w\<lparr>qheap_of := qheap_of w\<rparr>)" by (simp add: chan_notify.simps)
  moreover have "queues (qheap_of w) (Q(q \<mapsto> []))" using Nil by (simp add: fun_upd_idem)
  ultimately show ?case by (simp del: fun_upd_apply) (metis chan_world.surjective chan_world.update_convs(1))
next
  case (Cons p ps)
  obtain k where k: "qnum (qheap_of w) q = Some k" "k \<noteq> 0"
    using queues_num [OF Cons.prems(1,2)] num_zero [OF Cons.prems(1,2)] by auto
  have kept: "freed_kept (qheap_of w)" using Cons.prems(3) by simp
  obtain h where h: "wmQueue_pop (qheap_of w) q = Some (Some (Waiter p), h)" "queues h (Q(q \<mapsto> map Waiter ps))" "freed_kept h"
    using qq.pop_cons [OF Cons.prems(1), of q "Waiter p" "map Waiter ps"] Cons.prems(2) kept by auto
  show ?case
  proof (cases p)
    case None
    then have e: "chan_notify w q = chan_notify (w\<lparr>qheap_of := h\<rparr>) q" using k h(1) by (subst chan_notify.simps) simp
    have "queues (qheap_of (w\<lparr>qheap_of := h\<rparr>)) (Q(q \<mapsto> map Waiter ps))" "(Q(q \<mapsto> map Waiter ps)) q = Some (map Waiter ps)"
      "ps = [] \<or> freed_kept (qheap_of (w\<lparr>qheap_of := h\<rparr>))"
      using h(2,3) by simp_all
    from Cons.IH [OF this] show ?thesis using None h(3) kept unfolding e by (simp split: list.splits del: fun_upd_apply dropWhile_eq_Nil_conv)
  next
    case (Some r)
    then have "chan_notify w q = map_option snd (wmCoroutine_resume (w\<lparr>qheap_of := h\<rparr>) r)"
      using k h(1) by (subst chan_notify.simps) simp
    then show ?thesis using Some h(2,3) kept by auto
  qed
qed

text \<open>A waking that returns had the allocator's promise, or nobody waited.\<close>

lemma notify_kept:
  assumes "queues (qheap_of w) Q" "Q q = Some (map Waiter ps)" "chan_notify w q = Some w'"
  shows "ps = [] \<or> freed_kept (qheap_of w)"
proof (cases ps)
  case (Cons p rs)
  obtain k where k: "qnum (qheap_of w) q = Some k" "k \<noteq> 0"
    using queues_num [OF assms(1,2)] num_zero [OF assms(1,2)] Cons by auto
  have Qq: "Q q = Some (Waiter p # map Waiter rs)" using assms(2) Cons by simp
  have "freed_kept (qheap_of w)"
  proof (rule ccontr)
    assume n: "\<not> freed_kept (qheap_of w)"
    have "wmQueue_pop (qheap_of w) q = None" by (rule qq.pop_freed [OF assms(1) Qq n])
    then show False using assms(3) k by (simp add: chan_notify.simps)
  qed
  then show ?thesis ..
qed simp

text \<open>Whatever the resumed coroutine, waking keeps the channels, with fewer waiters in the queue.\<close>

lemma notify_frame:
  assumes "queues (qheap_of w) Q" "Q q = Some (map Waiter ps)" "chan_notify w q = Some w'"
  shows "\<exists>rs. queues (qheap_of w') (Q(q \<mapsto> map Waiter rs)) \<and> chans w' = chans w \<and> next_chan w' = next_chan w \<and>
    wcts w' = wcts w \<and> length rs \<le> length ps"
proof (cases "dropWhile (\<lambda>r. r = None) ps")
  case Nil
  from notify_ok [OF assms(1,2) notify_kept [OF assms]] Nil assms(3) show ?thesis by (simp del: fun_upd_apply dropWhile_eq_Nil_conv) (auto intro!: exI [of _ "[]"] simp del: fun_upd_apply)
next
  case (Cons r rs)
  then obtain h b where h: "queues h (Q(q \<mapsto> map Waiter rs))" "wmCoroutine_resume (w\<lparr>qheap_of := h\<rparr>) (the r) = Some (b, w')"
    using notify_ok [OF assms(1,2) notify_kept [OF assms]] assms(3) Cons by (auto simp: eq_commute [of "Some w'"])
  have "length rs \<le> length ps" using Cons by (metis length_dropWhile_le list.set_intros(2) length_Cons le_SucI Suc_leD)
  then show ?thesis using h chan_more_fields [OF resume_more [OF h(2)]] by auto
qed

section \<open>The capacity in every interleaving\<close>

text \<open>
  One transition of the program: an operation of a channel, at any time and by any coroutine, or one
  of the scheduler. \<open>room\<close>: no count of waiters is at the end of its 32-bit range.
\<close>

inductive chan_step :: "chan_world \<Rightarrow> chan_world \<Rightarrow> bool" where
  create: "chan_step w (snd (php_channel_construct cap w))"
| push_wait: "wmChannel_push_begin w ch t = Some (b, wct, w') \<Longrightarrow> chan_step w w'"
| push: "wmChannel_push_end w ch d wct = Some (b, w') \<Longrightarrow> chan_step w w'"
| pop_wait: "wmChannel_pop_begin w ch t = Some (b, wct, w') \<Longrightarrow> chan_step w w'"
| pop: "wmChannel_pop_end w ch wct = Some (x, w') \<Longrightarrow> chan_step w w'"
| timeout: "sleep_timeout w n = Some w' \<Longrightarrow> chan_step w w'"
| sched: "co_do x w = Some w' \<Longrightarrow> chan_step w w'"

definition room :: "chan_world \<Rightarrow> bool" where
  "room w \<longleftrightarrow> (\<forall>q. qnum (qheap_of w) q \<noteq> Some (- 1))"

inductive chan_reach :: "chan_world \<Rightarrow> bool" where
  start: "queues (qheap_of w) Map.empty \<Longrightarrow> chans w = Map.empty \<Longrightarrow> chan_reach w"
| step: "chan_reach w \<Longrightarrow> room w \<Longrightarrow> chan_step w w' \<Longrightarrow> chan_reach w'"

lemma room_push:
  assumes "room w" "queues (qheap_of w) Q" "Q q = Some xs"
  shows "length xs + 1 < 2 ^ 32"
proof -
  have n: "qnum (qheap_of w) q = Some (of_nat (length xs))" "length xs < 4294967296" using queues_num [OF assms(2,3)] by auto
  then have "(of_nat (length xs) :: u32) \<noteq> - 1" using assms(1) by (auto simp: room_def)
  moreover have "(of_nat 4294967295 :: u32) = - 1" by simp
  ultimately show ?thesis using n(2) by (cases "length xs = 4294967295") auto
qed

lemma chan_isD:
  assumes "chan_is Q c xs ps cs"
  shows "Q (data_queue c) = Some (map Datum xs)" "Q (producer_queue c) = Some (map Waiter ps)"
    "Q (consumer_queue c) = Some (map Waiter cs)" "length xs \<le> unat (capacity c)"
    "data_queue c \<noteq> producer_queue c" "data_queue c \<noteq> consumer_queue c" "producer_queue c \<noteq> consumer_queue c"
  using assms by (auto simp: chan_is_def)

lemma chans_okD:
  assumes "chans_ok w Q"
  shows "queues (qheap_of w) Q" "chans w n = Some c \<Longrightarrow> \<exists>xs ps cs. chan_is Q c xs ps cs" "next_chan w \<le> n \<Longrightarrow> chans w n = None"
  using assms unfolding chans_ok_def by blast+

text \<open>Waiting appends the coroutine to the queue, whatever the timer.\<close>

lemma wait_ok:
  assumes "queues (qheap_of w) Q" "Q q = Some ys" "length ys + 1 < 2 ^ 32" "chan_wait w q t = Some (wct, w')"
  shows "queues (qheap_of w') (Q(q \<mapsto> ys @ [Waiter (current_task w)])) \<and> chans w' = chans w \<and> next_chan w' = next_chan w \<and>
    (0 < t \<longrightarrow> wct = Some (next_wct w) \<and> wcts w' = (wcts w)(next_wct w \<mapsto> (current_task w, True))) \<and> (\<not> 0 < t \<longrightarrow> wct = None \<and> wcts w' = wcts w)"
proof -
  obtain h where h: "wmQueue_push (qheap_of w) q (Waiter (current_task w)) = Some h"
      "queues h (Q(q \<mapsto> ys @ [Waiter (current_task w)]))"
    using qq.push_rep [OF assms(1-3)] by blast
  show ?thesis
  proof (cases "0 < t")
    case True
    then obtain tw where "wmCoroutine_yield (w\<lparr>next_wct := next_wct w + 1, wcts := (wcts w)(next_wct w \<mapsto> (current_task w, True)),
          wtimer := tw, qheap_of := h\<rparr>) = Some w'" "wct = Some (next_wct w)"
      using assms(4) h(1) by (auto simp: chan_wait_def wmCoroutine_get_current_def Let_def bind_Some_iff split: option.splits if_splits)
    then show ?thesis using True h(2) chan_more_fields [OF yield_more] by simp
  next
    case False
    then have "wmCoroutine_yield (w\<lparr>qheap_of := h\<rparr>) = Some w'" "wct = None"
      using assms(4) h(1) by (auto simp: chan_wait_def wmCoroutine_get_current_def Let_def split: if_splits)
    then show ?thesis using False h(2) chan_more_fields [OF yield_more] by simp
  qed
qed

lemma woken_ok:
  assumes "chan_woken w wct = Some w1"
  shows "qheap_of w1 = qheap_of w" "chans w1 = chans w" "next_chan w1 = next_chan w" "current_task w1 = current_task w"
    "task_at w1 = task_at w" "EG w1 = EG w"
  using assms by (auto simp: chan_woken_def task_at_def fun_eq_iff split: option.splits task_ref.splits)

lemma change_waiters:
  assumes "chan_is Q c xs ps cs"
  shows "chan_is (Q(producer_queue c \<mapsto> map Waiter ps')) c xs ps' cs" "chan_is (Q(consumer_queue c \<mapsto> map Waiter cs')) c xs ps cs'"
    "length xs' \<le> unat (capacity c) \<Longrightarrow> chan_is (Q(data_queue c \<mapsto> map Datum xs')) c xs' ps cs"
  using assms by (auto simp: chan_is_def)

lemma step_wait:
  assumes ok: "chans_ok w Q" and rm: "room w" and c: "chans w ch = Some c" "chan_is Q c xs ps cs"
    and q: "q = producer_queue c \<or> q = consumer_queue c" and st: "chan_wait w q t = Some (wct, w')"
  shows "\<exists>Q'. chans_ok w' Q'"
proof -
  note D = chan_isD [OF c(2)]
  from q show ?thesis
  proof
    assume q: "q = producer_queue c"
    have Qq: "Q q = Some (map Waiter ps)" using D(2) q by simp
    have w': "queues (qheap_of w') (Q(q \<mapsto> map Waiter (ps @ [current_task w])))" "chans w' = chans w" "next_chan w' = next_chan w"
      using wait_ok [OF chans_okD(1) [OF ok] Qq room_push [OF rm chans_okD(1) [OF ok] Qq] st] by simp_all
    have "chan_is (Q(q \<mapsto> map Waiter (ps @ [current_task w]))) c xs (ps @ [current_task w]) cs"
      unfolding q by (rule change_waiters(1) [OF c(2)])
    then show ?thesis using chans_ok_change [OF ok c(1) w'(1) _ _ w'(2,3)] q by fastforce
  next
    assume q: "q = consumer_queue c"
    have Qq: "Q q = Some (map Waiter cs)" using D(3) q by simp
    have w': "queues (qheap_of w') (Q(q \<mapsto> map Waiter (cs @ [current_task w])))" "chans w' = chans w" "next_chan w' = next_chan w"
      using wait_ok [OF chans_okD(1) [OF ok] Qq room_push [OF rm chans_okD(1) [OF ok] Qq] st] by simp_all
    have "chan_is (Q(q \<mapsto> map Waiter (cs @ [current_task w]))) c xs ps (cs @ [current_task w])"
      unfolding q by (rule change_waiters(2) [OF c(2)])
    then show ?thesis using chans_ok_change [OF ok c(1) w'(1) _ _ w'(2,3)] q by fastforce
  qed
qed

text \<open>The part of a push after the wait: the datum goes to the end, then the first consumer is woken.\<close>

lemma push_end_ok:
  assumes ok: "chans_ok w Q" and c: "chans w ch = Some c" "chan_is Q c xs ps cs" and w1: "chan_woken w wct = Some w1"
  shows "if length xs = unat (capacity c) then wmChannel_push_end w ch d wct = Some (False, w1)
    else \<exists>h. wmChannel_push_end w ch d wct = map_option (Pair True) (chan_notify (w1\<lparr>qheap_of := h\<rparr>) (consumer_queue c)) \<and>
      queues h (Q(data_queue c \<mapsto> map Datum (xs @ [d]))) \<and> freed_kept h = freed_kept (qheap_of w)"
proof -
  note D = chan_isD [OF c(2)] and W = woken_ok [OF w1]
  note qs = chans_okD(1) [OF ok]
  have k: "qnum (qheap_of w) (data_queue c) = Some (of_nat (length xs))" using queues_num [OF qs D(1)] by simp
  have e: "of_nat (length xs) = capacity c \<longleftrightarrow> length xs = unat (capacity c)" using num_eq [OF qs D(1) k] by simp
  show ?thesis
  proof (cases "length xs = unat (capacity c)")
    case True
    then show ?thesis using w1 c(1) W k e by (simp add: wmChannel_push_end_def)
  next
    case False
    then have "length xs + 1 \<le> unat (capacity c)" using D(4) by simp
    also have "\<dots> < 2 ^ 32" using unat_lt32 by simp
    finally have l: "length (map Datum xs) + 1 < 2 ^ 32" by simp
    obtain h where "wmQueue_push (qheap_of w) (data_queue c) (Datum d) = Some h" "queues h (Q(data_queue c \<mapsto> map Datum xs @ [Datum d]))"
      using qq.push_rep [OF qs D(1) l] by blast
    moreover have "freed_kept h = freed_kept (qheap_of w)" by (rule qq.push_keeps [OF calculation(1)])
    ultimately show ?thesis using False w1 c(1) W k e by (auto simp: wmChannel_push_end_def)
  qed
qed

lemma pop_end_ok:
  assumes ok: "chans_ok w Q" and c: "chans w ch = Some c" "chan_is Q c xs ps cs" and w1: "chan_woken w wct = Some w1"
    and kept: "xs = [] \<or> freed_kept (qheap_of w)"
  shows "case xs of [] \<Rightarrow> wmChannel_pop_end w ch wct = Some (None, w1)
    | x # ys \<Rightarrow> \<exists>h. wmChannel_pop_end w ch wct = map_option (Pair (Some x)) (chan_notify (w1\<lparr>qheap_of := h\<rparr>) (producer_queue c)) \<and>
      queues h (Q(data_queue c \<mapsto> map Datum ys)) \<and> freed_kept h"
proof -
  note D = chan_isD [OF c(2)] and W = woken_ok [OF w1]
  note qs = chans_okD(1) [OF ok]
  have k: "qnum (qheap_of w) (data_queue c) = Some (of_nat (length xs))" using queues_num [OF qs D(1)] by simp
  show ?thesis
  proof (cases xs)
    case Nil
    then show ?thesis using w1 c(1) W k by (simp add: wmChannel_pop_end_def)
  next
    case (Cons x ys)
    then have nz: "(of_nat (length xs) :: u32) \<noteq> 0" using num_zero [OF qs D(1) k] by simp
    obtain h where "wmQueue_pop (qheap_of w) (data_queue c) = Some (Some (Datum x), h)" "queues h (Q(data_queue c \<mapsto> map Datum ys))"
        "freed_kept h"
      using qq.pop_cons [OF qs, of "data_queue c" "Datum x" "map Datum ys"] D(1) Cons kept by auto
    then show ?thesis using w1 c(1) W k nz Cons by (auto simp: wmChannel_pop_end_def)
  qed
qed

lemma pop_end_freed:
  assumes ok: "chans_ok w Q" and c: "chans w ch = Some c" "chan_is Q c (x # xs) ps cs" and w1: "chan_woken w wct = Some w1"
    and lost: "\<not> freed_kept (qheap_of w)"
  shows "wmChannel_pop_end w ch wct = None"
proof -
  note D = chan_isD [OF c(2)] and W = woken_ok [OF w1]
  note qs = chans_okD(1) [OF ok]
  have k: "qnum (qheap_of w) (data_queue c) = Some (of_nat (length (x # xs)))" using queues_num [OF qs D(1)] by simp
  have nz: "(of_nat (length (x # xs)) :: u32) \<noteq> 0" using num_zero [OF qs D(1) k] by simp
  have "wmQueue_pop (qheap_of w) (data_queue c) = None"
    using qq.pop_freed [OF qs, of "data_queue c" "Datum x" "map Datum xs"] D(1) lost by simp
  then show ?thesis using w1 c(1) W k nz by (simp add: wmChannel_pop_end_def)
qed

lemma notify_chan:
  assumes ok: "chans_ok w Q" and c: "chans w ch = Some c" "chan_is Q c xs ps cs" and xs': "length xs' \<le> unat (capacity c)"
    and h: "queues h (Q(data_queue c \<mapsto> map Datum xs'))" and w1: "chans w1 = chans w" "next_chan w1 = next_chan w"
    and q: "q = producer_queue c \<and> us = ps \<or> q = consumer_queue c \<and> us = cs"
    and n: "chan_notify (w1\<lparr>qheap_of := h\<rparr>) q = Some w'"
  shows "\<exists>Q'. chans_ok w' Q'"
proof -
  let ?Q = "Q(data_queue c \<mapsto> map Datum xs')"
  note D = chan_isD [OF c(2)]
  have c1: "chan_is ?Q c xs' ps cs" by (rule change_waiters(3) [OF c(2) xs'])
  have Qq: "?Q q = Some (map Waiter us)" using chan_isD(2,3) [OF c1] q by metis
  have hh: "queues (qheap_of (w1\<lparr>qheap_of := h\<rparr>)) ?Q" using h by simp
  obtain rs where rs: "queues (qheap_of w') (?Q(q \<mapsto> map Waiter rs))" "chans w' = chans w" "next_chan w' = next_chan w"
    using notify_frame [OF hh Qq n] w1 by (auto simp del: fun_upd_apply)
  from q show ?thesis
  proof
    assume "q = producer_queue c \<and> us = ps"
    then have q': "q = producer_queue c" by simp
    have "chan_is (?Q(q \<mapsto> map Waiter rs)) c xs' rs cs" unfolding q' by (rule change_waiters(1) [OF c1])
    moreover have "(?Q(q \<mapsto> map Waiter rs)) u = Q u" if "u \<notin> {data_queue c, producer_queue c, consumer_queue c}" for u
      using that q' by simp
    ultimately show ?thesis using chans_ok_change [OF ok c(1) rs(1) _ _ rs(2,3)] by blast
  next
    assume "q = consumer_queue c \<and> us = cs"
    then have q': "q = consumer_queue c" by simp
    have "chan_is (?Q(q \<mapsto> map Waiter rs)) c xs' ps rs" unfolding q' by (rule change_waiters(2) [OF c1])
    moreover have "(?Q(q \<mapsto> map Waiter rs)) u = Q u" if "u \<notin> {data_queue c, producer_queue c, consumer_queue c}" for u
      using that q' by simp
    ultimately show ?thesis using chans_ok_change [OF ok c(1) rs(1) _ _ rs(2,3)] by blast
  qed
qed

lemma apart_sym: "apart c d \<longleftrightarrow> apart d c"
  by (simp add: apart_def Int_commute)

lemma create_chans_ok:
  assumes "chans_ok w Q"
  shows "\<exists>Q'. chans_ok (snd (wmChannel_create cap w)) Q'"
proof -
  note qs = chans_okD(1) [OF assms]
  let ?r1 = "wmQueue_create (qheap_of w)"
  let ?r2 = "wmQueue_create (snd ?r1)"
  let ?r3 = "wmQueue_create (snd ?r2)"
  let ?Q1 = "Q(fst ?r1 \<mapsto> [])"
  let ?Q2 = "?Q1(fst ?r2 \<mapsto> [])"
  let ?Q3 = "?Q2(fst ?r3 \<mapsto> [])"
  let ?c = "\<lparr>capacity = cap, producer_queue = fst ?r1, consumer_queue = fst ?r2, data_queue = fst ?r3\<rparr>"
  have 1: "Q (fst ?r1) = None" "queues (snd ?r1) ?Q1" using qq.create_rep [OF qs] by blast+
  have 2: "?Q1 (fst ?r2) = None" "queues (snd ?r2) ?Q2" using qq.create_rep [OF 1(2)] by blast+
  have 3: "?Q2 (fst ?r3) = None" "queues (snd ?r3) ?Q3" using qq.create_rep [OF 2(2)] by blast+
  have fr: "fst ?r1 \<noteq> fst ?r2" "fst ?r1 \<noteq> fst ?r3" "fst ?r2 \<noteq> fst ?r3" "Q (fst ?r2) = None" "Q (fst ?r3) = None"
    using 2(1) 3(1) by (auto split: if_splits)
  have new: "chan_is ?Q3 ?c [] [] []" using fr by (simp add: chan_is_def)
  have cr: "wmChannel_create cap w = (next_chan w, w\<lparr>qheap_of := snd ?r3, next_chan := next_chan w + 1, chans := (chans w)(next_chan w \<mapsto> ?c)\<rparr>)"
    by (simp add: wmChannel_create_def Let_def split_beta)
  have old: "chan_is ?Q3 d xs ps cs \<and> apart d ?c" if "chan_is Q d xs ps cs" for d xs ps cs
    using chan_isD(1-3) [OF that] that 1(1) fr(4,5) by (auto simp: chan_is_def apart_def)
  have "\<exists>xs ps cs. chan_is ?Q3 d xs ps cs" if "((chans w)(next_chan w \<mapsto> ?c)) n = Some d" for n d
    using that new old chans_okD(2) [OF assms] by (auto simp del: fun_upd_apply simp: fun_upd_apply [of "chans w"] split: if_splits) blast+
  moreover have "apart d e" if "((chans w)(next_chan w \<mapsto> ?c)) n = Some d" "((chans w)(next_chan w \<mapsto> ?c)) m = Some e" "n \<noteq> m" for n m d e
  proof -
    have a: "apart x ?c \<and> apart ?c x" if x: "chans w k = Some x" for x k
    proof -
      obtain xs ps cs where "chan_is Q x xs ps cs" using chans_okD(2) [OF assms x] by blast
      then have "apart x ?c" using old by blast
      then show ?thesis by (simp add: apart_sym)
    qed
    show ?thesis using that a assms by (auto simp: chans_ok_def split: if_splits)
  qed
  moreover have "((chans w)(next_chan w \<mapsto> ?c)) n = None" if "next_chan w + 1 \<le> n" for n
    using that chans_okD(3) [OF assms, of n] by simp
  ultimately have "chans_ok (snd (wmChannel_create cap w)) ?Q3"
    unfolding cr chans_ok_def using 3(2) by (simp del: fun_upd_apply)
  then show ?thesis by blast
qed

lemma chan_step_ok:
  assumes "chan_step w w'" "chans_ok w Q" "room w"
  shows "\<exists>Q'. chans_ok w' Q'"
  using assms
proof cases
  case (create cap)
  then show ?thesis using create_chans_ok [OF assms(2)] by (simp add: php_channel_construct_def)
next
  case (push_wait ch t b wct)
  then obtain c where c: "chans w ch = Some c" by (auto simp: wmChannel_push_begin_def split: option.splits)
  obtain xs ps cs where ci: "chan_is Q c xs ps cs" using chans_okD(2) [OF assms(2) c] by blast
  have "w' = w \<or> chan_wait w (producer_queue c) t = Some (wct, w')"
    using push_wait c by (auto simp: wmChannel_push_begin_def split: option.splits if_splits)
  then show ?thesis using step_wait [OF assms(2,3) c ci] assms(2) by blast
next
  case (pop_wait ch t b wct)
  then obtain c where c: "chans w ch = Some c" by (auto simp: wmChannel_pop_begin_def split: option.splits)
  obtain xs ps cs where ci: "chan_is Q c xs ps cs" using chans_okD(2) [OF assms(2) c] by blast
  have "w' = w \<or> chan_wait w (consumer_queue c) t = Some (wct, w')"
    using pop_wait c by (auto simp: wmChannel_pop_begin_def split: option.splits if_splits)
  then show ?thesis using step_wait [OF assms(2,3) c ci] assms(2) by blast
next
  case (push ch d wct b)
  then obtain w1 where w1: "chan_woken w wct = Some w1" by (auto simp: wmChannel_push_end_def bind_Some_iff)
  note W = woken_ok [OF w1]
  obtain c where c: "chans w ch = Some c" using push w1 W by (auto simp: wmChannel_push_end_def split: option.splits)
  obtain xs ps cs where ci: "chan_is Q c xs ps cs" using chans_okD(2) [OF assms(2) c] by blast
  show ?thesis
  proof (cases "length xs = unat (capacity c)")
    case True
    then have "w' = w1" using push push_end_ok [OF assms(2) c ci w1, of d] by simp
    then show ?thesis using chans_ok_cong [OF assms(2), of w1] W by auto
  next
    case False
    then have l: "length (xs @ [d]) \<le> unat (capacity c)" using chan_isD(4) [OF ci] by simp
    obtain h where h: "chan_notify (w1\<lparr>qheap_of := h\<rparr>) (consumer_queue c) = Some w'" "queues h (Q(data_queue c \<mapsto> map Datum (xs @ [d])))"
      using push push_end_ok [OF assms(2) c ci w1, of d] False by (auto simp: eq_commute [of "Some (b, w')"])
    show ?thesis by (rule notify_chan [where us = cs, OF assms(2) c ci l h(2) W(2,3) _ h(1)]) simp
  qed
next
  case (pop ch wct x)
  then obtain w1 where w1: "chan_woken w wct = Some w1" by (auto simp: wmChannel_pop_end_def bind_Some_iff)
  note W = woken_ok [OF w1]
  obtain c where c: "chans w ch = Some c" using pop w1 W by (auto simp: wmChannel_pop_end_def split: option.splits)
  obtain xs ps cs where ci: "chan_is Q c xs ps cs" using chans_okD(2) [OF assms(2) c] by blast
  have kept: "xs = [] \<or> freed_kept (qheap_of w)"
    using pop_end_freed [OF assms(2) c _ w1] ci pop by (cases xs) auto
  show ?thesis
  proof (cases xs)
    case Nil
    then have "w' = w1" using pop pop_end_ok [OF assms(2) c ci w1 kept] by simp
    then show ?thesis using chans_ok_cong [OF assms(2), of w1] W by auto
  next
    case (Cons y ys)
    then have l: "length ys \<le> unat (capacity c)" using chan_isD(4) [OF ci] by simp
    obtain h where h: "chan_notify (w1\<lparr>qheap_of := h\<rparr>) (producer_queue c) = Some w'" "queues h (Q(data_queue c \<mapsto> map Datum ys))"
      using pop pop_end_ok [OF assms(2) c ci w1 kept] Cons by (auto simp: eq_commute [of "Some (x, w')"])
    show ?thesis by (rule notify_chan [where us = ps, OF assms(2) c ci l h(2) W(2,3) _ h(1)]) simp
  qed
next
  case (timeout n)
  let ?v = "w\<lparr>wcts := (wcts w)(n := None)\<rparr>"
  have "w' = ?v \<or> (\<exists>r b. wmCoroutine_resume ?v r = Some (b, w'))"
    using timeout by (auto simp: sleep_timeout_def Let_def bind_Some_iff split: option.splits if_splits)
  then have "qheap_of w' = qheap_of ?v" "chans w' = chans ?v" "next_chan w' = next_chan ?v"
    using chan_more_fields [OF resume_more, of ?v] by blast+
  then have "qheap_of w' = qheap_of w" "chans w' = chans w" "next_chan w' = next_chan w" by simp_all
  then show ?thesis using chans_ok_cong [OF assms(2)] by blast
next
  case (sched x)
  then show ?thesis using chans_ok_cong [OF assms(2) chan_more_fields(1-3) [OF co_do_more]] by blast
qed

lemma chan_reach_ok: "chan_reach w \<Longrightarrow> \<exists>Q. chans_ok w Q"
proof (induction rule: chan_reach.induct)
  case (start w)
  then have "chans_ok w Map.empty" by (simp add: chans_ok_def)
  then show ?case by blast
next
  case (step w w')
  then show ?case using chan_step_ok by blast
qed

section \<open>Properties\<close>

text \<open>
  C7: in every interleaving of pushes, pops, timeouts and any other coroutine operations, every
  channel keeps at most its capacity of values; its three queues stay proper lists, so that its
  length is exact, and different channels never share a queue.
\<close>

theorem channel_bounded:
  assumes "chan_reach w"
  shows "\<forall>ch c. chans w ch = Some c \<longrightarrow>
    (\<exists>xs ps cs Q. queues (qheap_of w) Q \<and> Q (data_queue c) = Some (map Datum xs) \<and> Q (producer_queue c) = Some (map Waiter ps) \<and>
       Q (consumer_queue c) = Some (map Waiter cs) \<and> length xs \<le> unat (capacity c) \<and>
       wmChannel_num w ch = Some (sint (of_nat (length xs) :: u32)))"
proof (intro allI impI)
  fix ch c assume c: "chans w ch = Some c"
  obtain Q where Q: "chans_ok w Q" using chan_reach_ok [OF assms] by blast
  obtain xs ps cs where ci: "chan_is Q c xs ps cs" using chans_okD(2) [OF Q c] by blast
  have "qnum (qheap_of w) (data_queue c) = Some (of_nat (length xs))"
    using queues_num [OF chans_okD(1) [OF Q] chan_isD(1) [OF ci]] by simp
  then have "wmChannel_num w ch = Some (sint (of_nat (length xs) :: u32))"
    using c by (simp add: wmChannel_num_def wmQueue_len_def)
  then show "\<exists>xs ps cs Q. queues (qheap_of w) Q \<and> Q (data_queue c) = Some (map Datum xs) \<and> Q (producer_queue c) = Some (map Waiter ps) \<and>
       Q (consumer_queue c) = Some (map Waiter cs) \<and> length xs \<le> unat (capacity c) \<and>
       wmChannel_num w ch = Some (sint (of_nat (length xs) :: u32))"
    using chans_okD(1) [OF Q] chan_isD(1-4) [OF ci] by blast
qed

text \<open>
  C8: a handoff. A coroutine waits to push \<open>d\<close> into a full channel that holds \<open>x # xs\<close>; when another
  one pops, both the value and the waiting coroutine are read from nodes of queues that were just
  freed. Where the allocator keeps the contents of a freed block, the pop gets \<open>x\<close>, the waiting one runs
  at once with its own registers, its push then succeeds, and the channel holds \<open>xs @ [d]\<close>: no value
  is lost, duplicated or reordered. Where it does not, the pop is undefined.
\<close>

theorem channel_handoff:
  assumes "chans_ok w Q" "chans w ch = Some c" "chan_is Q c (x # xs) (Some (Task t) # ps) []" "length (x # xs) = unat (capacity c)"
    and "sched_inv w ts" "t \<notin> set ts" "tasks w t = Some co"
  shows "if freed_kept (qheap_of w) then
      \<exists>w1 w2 Q2. wmChannel_pop_end w ch None = Some (Some x, w1) \<and> current_task w1 = Some (Task t) \<and> EG w1 = vm co \<and>
        wmChannel_push_end w1 ch d None = Some (True, w2) \<and> chans_ok w2 Q2 \<and> chan_is Q2 c (xs @ [d]) ps [] \<and>
        current_task w2 = Some (Task t)
    else wmChannel_pop_end w ch None = None"
proof (cases "freed_kept (qheap_of w)")
  case False
  have "chan_woken w None = Some w" by (simp add: chan_woken_def)
  then show ?thesis using pop_end_freed [OF assms(1-3)] False by simp
next
  case kept: True
  note D = chan_isD [OF assms(3)]
  have wk: "chan_woken v None = Some v" for v by (simp add: chan_woken_def)
  obtain h where h: "wmChannel_pop_end w ch None = map_option (Pair (Some x)) (chan_notify (w\<lparr>qheap_of := h\<rparr>) (producer_queue c))"
      "queues h (Q(data_queue c \<mapsto> map Datum xs))" "freed_kept h"
    using pop_end_ok [OF assms(1-3) wk] kept by auto
  let ?Q = "Q(data_queue c \<mapsto> map Datum xs)" and ?v = "w\<lparr>qheap_of := h\<rparr>"
  let ?Q1 = "?Q(producer_queue c \<mapsto> map Waiter ps)"
  have c1: "chan_is ?Q c xs (Some (Task t) # ps) []" using change_waiters(3) [OF assms(3), of xs] assms(4) by simp
  have hv: "queues (qheap_of ?v) ?Q" using h(2) by simp
  obtain h1 where h1: "chan_notify ?v (producer_queue c) = map_option snd (wmCoroutine_resume (?v\<lparr>qheap_of := h1\<rparr>) (Task t))" "queues h1 ?Q1"
    using notify_ok [OF hv chan_isD(2) [OF c1]] h(3) by (auto simp del: fun_upd_apply)
  let ?u = "?v\<lparr>qheap_of := h1\<rparr>"
  have "sched_inv ?u ts" by (rule inv_frame [OF assms(5)]) simp_all
  moreover have "tasks ?u t = Some co" using assms(7) by simp
  ultimately obtain w1 where w1: "wmCoroutine_resume ?u (Task t) = Some (True, w1)" "current_task w1 = Some (Task t)" "EG w1 = vm co"
    using resume_ok [of ?u ts t co] assms(6) by blast
  note M = chan_more_fields [OF resume_more [OF w1(1)]]
  have q1: "queues (qheap_of w1) ?Q1" "chans w1 = chans w" "next_chan w1 = next_chan w" using M h1(2) by simp_all
  have c2: "chan_is ?Q1 c xs ps []" by (rule change_waiters(1) [OF c1])
  have ok1: "chans_ok w1 ?Q1" using chans_ok_change [OF assms(1,2) q1(1) _ c2 q1(2,3)] by simp
  have cw1: "chans w1 ch = Some c" using q1(2) assms(2) by simp
  obtain h2 where h2: "wmChannel_push_end w1 ch d None = map_option (Pair True) (chan_notify (w1\<lparr>qheap_of := h2\<rparr>) (consumer_queue c))"
      "queues h2 (?Q1(data_queue c \<mapsto> map Datum (xs @ [d])))"
    using push_end_ok [OF ok1 cw1 c2 wk, of d] assms(4) by auto
  let ?Q2 = "?Q1(data_queue c \<mapsto> map Datum (xs @ [d]))"
  have c3: "chan_is ?Q2 c (xs @ [d]) ps []" using change_waiters(3) [OF c2, of "xs @ [d]"] assms(4) by simp
  have h2w: "queues (qheap_of (w1\<lparr>qheap_of := h2\<rparr>)) ?Q2" using h2(2) by simp
  obtain h3 where h3: "chan_notify (w1\<lparr>qheap_of := h2\<rparr>) (consumer_queue c) = Some (w1\<lparr>qheap_of := h3\<rparr>)" "queues h3 (?Q2(consumer_queue c \<mapsto> []))"
    using notify_ok [OF h2w, of "consumer_queue c" "[]"] chan_isD(3) [OF c3] by (auto simp del: fun_upd_apply)
  have "?Q2(consumer_queue c \<mapsto> []) = ?Q2" using chan_isD(3) [OF c3] by (simp add: fun_upd_idem del: fun_upd_apply)
  then have "queues (qheap_of (w1\<lparr>qheap_of := h3\<rparr>)) ?Q2" using h3(2) by simp
  then have "chans_ok (w1\<lparr>qheap_of := h3\<rparr>) ?Q2" using chans_ok_change [OF ok1 cw1 _ _ c3] by simp
  then have "\<exists>w1 w2 Q2. wmChannel_pop_end w ch None = Some (Some x, w1) \<and> current_task w1 = Some (Task t) \<and> EG w1 = vm co \<and>
        wmChannel_push_end w1 ch d None = Some (True, w2) \<and> chans_ok w2 Q2 \<and> chan_is Q2 c (xs @ [d]) ps [] \<and>
        current_task w2 = Some (Task t)"
    using h h1 w1 h2(1) h3(1) c3
    by (intro exI [of _ w1] exI [of _ "w1\<lparr>qheap_of := h3\<rparr>"] exI [of _ ?Q2]) (simp del: fun_upd_apply)
  then show ?thesis using kept by simp
qed

text \<open>
  C9: a push or pop that times out is undefined: the callback of the timer frees the record before
  it resumes the coroutine, which then writes to the record.
\<close>

theorem channel_timeout_undefined:
  assumes "wcts w n = Some (Some (Task t), True)" "sleep_timeout w n = Some w1" "current_task w1 = Some (Task t)"
  shows "wmChannel_push_end w1 ch d (Some n) = None \<and> wmChannel_pop_end w1 ch (Some n) = None"
proof -
  let ?v = "w\<lparr>wcts := (wcts w)(n := None)\<rparr>"
  obtain b where "wmCoroutine_resume ?v (Task t) = Some (b, w1)" using assms(1,2) by (auto simp: sleep_timeout_def Let_def)
  from chan_more_fields(4) [OF resume_more [OF this]] have "wcts w1 n = None" by simp
  then have "chan_woken w1 (Some n) = None" by (simp add: chan_woken_def)
  then show ?thesis by (simp add: wmChannel_push_end_def wmChannel_pop_end_def)
qed

text \<open>Waiting always succeeds in a coroutine, and leaves the coroutine yielded.\<close>

lemma wait_blocks:
  assumes "queues (qheap_of w) Q" "Q q = Some ys" "length ys + 1 < 2 ^ 32"
    and inv: "sched_inv w (t # ts)" and cur: "current_task w = Some (Task t)" and co: "tasks w t = Some co"
    and fit: "timeout * 1000 < 2 ^ 32"
  shows "\<exists>wct w'. chan_wait w q timeout = Some (wct, w') \<and> sched_inv w' ts \<and> current_task w' = origin co \<and> t \<notin> set ts \<and>
    tasks w' t = Some (co\<lparr>vm := EG w\<rparr>)"
proof -
  obtain h where h: "wmQueue_push (qheap_of w) q (Waiter (current_task w)) = Some h"
    using qq.push_rep [OF assms(1-3)] by blast
  have y: "\<exists>w'. wmCoroutine_yield v = Some w' \<and> sched_inv w' ts \<and> current_task w' = origin co \<and> t \<notin> set ts \<and>
      tasks w' t = Some (co\<lparr>vm := EG w\<rparr>)"
    if "sched_inv v (t # ts)" "current_task v = Some (Task t)" "tasks v t = Some co" "EG v = EG w" for v :: chan_world
    using yield_ok [OF that(1-3)] that(1,4) by (auto simp: sched_inv_def active_def)
  show ?thesis
  proof (cases "0 < timeout")
    case True
    obtain m tw where tw: "wmTimerWheel_add_quick (wtimer w) (Some SLEEP_TIMEOUT) (next_wct w) (word_of_int \<lfloor>timeout * 1000\<rfloor>) = Some (m, tw)"
      by (auto simp: wmTimerWheel_add_quick_def Let_def wmTimerWheel_node_init_def wmTimerWheel_add_def add_node_def)
    let ?v = "w\<lparr>next_wct := Suc (next_wct w), wcts := (wcts w)(next_wct w \<mapsto> (current_task w, True)), wtimer := tw, qheap_of := h\<rparr>"
    have "sched_inv ?v (t # ts)" by (rule inv_frame [OF inv]) simp_all
    then obtain w' where w': "wmCoroutine_yield ?v = Some w'" "sched_inv w' ts" "current_task w' = origin co" "t \<notin> set ts"
        "tasks w' t = Some (co\<lparr>vm := EG w\<rparr>)"
      using y [of ?v] cur co by auto
    have "chan_wait w q timeout = Some (Some (next_wct w), w')"
      unfolding chan_wait_def using True fit tw h w'(1) by (simp add: wmCoroutine_get_current_def Let_def)
    then show ?thesis using w' by blast
  next
    case False
    let ?v = "w\<lparr>qheap_of := h\<rparr>"
    have "sched_inv ?v (t # ts)" by (rule inv_frame [OF inv]) simp_all
    then obtain w' where w': "wmCoroutine_yield ?v = Some w'" "sched_inv w' ts" "current_task w' = origin co" "t \<notin> set ts"
        "tasks w' t = Some (co\<lparr>vm := EG w\<rparr>)"
      using y [of ?v] cur co by auto
    have "chan_wait w q timeout = Some (None, w')"
      unfolding chan_wait_def using False fit h w'(1) by (simp add: wmCoroutine_get_current_def Let_def)
    then show ?thesis using w' by blast
  qed
qed

lemma push_full:
  assumes "chans_ok w Q" "chans w ch = Some c" "chan_is Q c xs ps cs" "length ps + 1 < 2 ^ 32"
    and "sched_inv w (t # ts)" "current_task w = Some (Task t)" "tasks w t = Some co" "timeout * 1000 < 2 ^ 32"
  shows "if length xs < unat (capacity c) then wmChannel_push_begin w ch timeout = Some (False, None, w)
    else \<exists>wct w' Q'. wmChannel_push_begin w ch timeout = Some (True, wct, w') \<and> chans_ok w' Q' \<and>
      chan_is Q' c xs (ps @ [Some (Task t)]) cs \<and> chans w' = chans w \<and> sched_inv w' ts \<and> current_task w' = origin co \<and>
      t \<notin> set ts \<and> tasks w' t = Some (co\<lparr>vm := EG w\<rparr>) \<and>
      (0 < timeout \<longrightarrow> wct = Some (next_wct w) \<and> wcts w' (next_wct w) = Some (Some (Task t), True)) \<and> (\<not> 0 < timeout \<longrightarrow> wct = None)"
proof -
  note D = chan_isD [OF assms(3)] and qs = chans_okD(1) [OF assms(1)]
  have k: "qnum (qheap_of w) (data_queue c) = Some (of_nat (length xs))" using queues_num [OF qs D(1)] by simp
  have e: "of_nat (length xs) = capacity c \<longleftrightarrow> length xs = unat (capacity c)" using num_eq [OF qs D(1) k] by simp
  show ?thesis
  proof (cases "length xs < unat (capacity c)")
    case True
    then show ?thesis using assms(2) k e by (simp add: wmChannel_push_begin_def)
  next
    case False
    then have full: "of_nat (length xs) = capacity c" using D(4) e by simp
    have l: "length (map Waiter ps) + 1 < 2 ^ 32" using assms(4) by simp
    obtain wct w' where w': "chan_wait w (producer_queue c) timeout = Some (wct, w')" "sched_inv w' ts" "current_task w' = origin co"
        "t \<notin> set ts" "tasks w' t = Some (co\<lparr>vm := EG w\<rparr>)"
      using wait_blocks [OF qs D(2) l assms(5-8)] by blast
    let ?Q = "Q(producer_queue c \<mapsto> map Waiter (ps @ [Some (Task t)]))"
    have h: "queues (qheap_of w') ?Q" "chans w' = chans w" "next_chan w' = next_chan w"
        "0 < timeout \<longrightarrow> wct = Some (next_wct w) \<and> wcts w' = (wcts w)(next_wct w \<mapsto> (Some (Task t), True))"
        "\<not> 0 < timeout \<longrightarrow> wct = None"
      using wait_ok [OF qs D(2) l w'(1)] assms(6) by simp_all
    have c': "chan_is ?Q c xs (ps @ [Some (Task t)]) cs" by (rule change_waiters(1) [OF assms(3)])
    have "chans_ok w' ?Q" using chans_ok_change [OF assms(1,2) h(1) _ c' h(2,3)] by simp
    then have "wmChannel_push_begin w ch timeout = Some (True, wct, w') \<and> chans_ok w' ?Q"
      using assms(2) k full w'(1) by (simp add: wmChannel_push_begin_def)
    then show ?thesis using False c' w'(2-5) h(2,4,5) by (simp del: fun_upd_apply map_append) (blast intro: map_upd_Some_unfold [THEN iffD2])
  qed
qed

lemma push_begin_kept:
  assumes "wmChannel_push_begin w ch timeout = Some (b, wct, w')"
  shows "freed_kept (qheap_of w') = freed_kept (qheap_of w)"
proof -
  have "freed_kept (qheap_of v') = freed_kept (qheap_of v)" if "chan_wait v q timeout = Some (x, v')" for v q x v'
    using that chan_more_fields(1) [OF yield_more]
    by (auto simp: chan_wait_def Let_def bind_Some_iff dest!: qq.push_keeps split: if_splits)
  then show ?thesis using assms by (auto simp: wmChannel_push_begin_def split: option.splits if_splits)
qed

text \<open>
  Pushing into a full channel from a coroutine queues the coroutine behind the producers that
  wait already, yields to its origin with its registers saved, and leaves the values alone; pushing
  into a channel with space does not wait.
\<close>

theorem channel_push_full:
  assumes "chans_ok w Q" "chans w ch = Some c" "chan_is Q c xs ps cs" "length ps + 1 < 2 ^ 32"
    and "sched_inv w (t # ts)" "current_task w = Some (Task t)" "tasks w t = Some co" "timeout * 1000 < 2 ^ 32"
  shows "if length xs < unat (capacity c) then wmChannel_push_begin w ch timeout = Some (False, None, w)
    else \<exists>wct w' Q'. wmChannel_push_begin w ch timeout = Some (True, wct, w') \<and> chans_ok w' Q' \<and>
      chan_is Q' c xs (ps @ [Some (Task t)]) cs \<and> chans w' = chans w \<and> sched_inv w' ts \<and> current_task w' = origin co \<and>
      t \<notin> set ts \<and> tasks w' t = Some (co\<lparr>vm := EG w\<rparr>) \<and>
      (0 < timeout \<longrightarrow> wct = Some (next_wct w) \<and> wcts w' (next_wct w) = Some (Some (Task t), True)) \<and> (\<not> 0 < timeout \<longrightarrow> wct = None)"
  by (rule push_full [OF assms])

section \<open>A run, for the witnesses\<close>

text \<open>
  A request that creates a channel of capacity 1, pushes 7 from the main task, creates a coroutine,
  and has it push into the full channel.
\<close>

definition no_timers :: wheel where
  "no_timers = wmTimerWheel_init \<lparr>lnk = \<lparr>nxt = id, prv = id\<rparr>, nodes = Map.empty, next_node = 0, lasttime = 0, currtick = 0,
     interval = 1, remainder = 0, tw_num = 0\<rparr> 1 0"

definition chan_start :: chan_world where
  "chan_start = sched.extend (co_start first_regs) \<lparr>qheap_of = no_queues, chans = Map.empty, next_chan = 0, wcts = Map.empty,
     next_wct = 0, wtimer = no_timers\<rparr>"

lemma extend_fields:
  "current_task (sched.extend s m) = current_task s" "tasks (sched.extend s m) = tasks s" "main_task (sched.extend s m) = main_task s"
  "coroutines (sched.extend s m) = coroutines s" "user_yield_coros (sched.extend s m) = user_yield_coros s"
  "total_num (sched.extend s m) = total_num s" "vpages (sched.extend s m) = vpages s" "next_page (sched.extend s m) = next_page s"
  "EG (sched.extend s m) = EG s" "next_task (sched.extend s m) = next_task s" "sched.more (sched.extend s m) = m"
  by (simp_all add: sched.extend_def)

lemma inv_extend:
  assumes "sched_inv s ch"
  shows "sched_inv (sched.extend s m) ch"
proof -
  let ?s = "sched.extend s m"
  have c: "chain ?s x ch = chain s x ch" for x ch by (induction ch arbitrary: x) (simp_all add: extend_fields)
  have t: "task_at ?s = task_at s" by (simp add: task_at_def extend_fields fun_eq_iff split: task_ref.split)
  have k: "key ?s = key s" by (simp add: key_def extend_fields fun_eq_iff)
  have p: "page_of ?s = page_of s" "live ?s = live s" by (simp_all add: page_of_def t live_def extend_fields fun_eq_iff)
  show ?thesis
    using assms by (simp add: sched_inv_def active_def tables_ok_def pages_ok_def c k p extend_fields)
qed

definition chan_one :: wmChannel where
  "chan_one = \<lparr>capacity = 1, producer_queue = 0, consumer_queue = 1, data_queue = 2\<rparr>"

lemma chan_start_ok: "chan_reach chan_start" "chans_ok chan_start Map.empty" "sched_inv chan_start []"
proof -
  have q: "qheap_of chan_start = no_queues" "chans chan_start = Map.empty"
    by (simp_all add: chan_start_def sched.extend_def)
  show "chan_reach chan_start" by (rule chan_reach.start) (simp_all add: q no_queues_rep)
  show "chans_ok chan_start Map.empty" by (simp add: chans_ok_def q no_queues_rep)
  show "sched_inv chan_start []" unfolding chan_start_def by (rule inv_extend [OF conjunct1 [OF start_ok]])
qed

text \<open>The channel holds 7 and the coroutine 0 runs.\<close>

lemma chan_run:
  "\<exists>w Q co. chan_reach w \<and> chans_ok w Q \<and> chans w 0 = Some chan_one \<and> chan_is Q chan_one [7] [] [] \<and> sched_inv w [0] \<and>
     current_task w = Some (Task 0) \<and> tasks w 0 = Some co \<and> origin co = Some Main \<and> freed_kept (qheap_of w)"
proof -
  let ?w1 = "snd (php_channel_construct 1 chan_start)"
  have w1: "chans ?w1 0 = Some chan_one" "sched_inv ?w1 []" "sched.more ?w1 = sched.more ?w1"
      "new_cid (last_cid ?w1) = 1" "next_task ?w1 = 0" "cur ?w1 = Main" "current_task ?w1 = None" "coroutines ?w1 = []"
  proof -
    show "sched_inv ?w1 []"
      by (rule inv_frame [OF chan_start_ok(3)]) (simp_all add: php_channel_construct_def wmChannel_create_def Let_def split_beta)
  qed (simp_all add: php_channel_construct_def wmChannel_create_def wmQueue_create_def Let_def chan_start_def sched.extend_def
        co_start_def wmCoroutine_init_def no_queues_def chan_one_def new_cid_def cur_def)
  have r0: "room chan_start" by (simp add: room_def chan_start_def sched.extend_def no_queues_def)
  have r1: "chan_reach ?w1" by (rule chan_reach.step [OF chan_start_ok(1) r0 chan_step.create])
  have rm1: "room ?w1"
    by (simp add: room_def php_channel_construct_def wmChannel_create_def wmQueue_create_def Let_def chan_start_def sched.extend_def no_queues_def)
  obtain Q1 where Q1: "chans_ok ?w1 Q1" using chan_reach_ok [OF r1] by blast
  obtain xs ps cs where ci: "chan_is Q1 chan_one xs ps cs" using chans_okD(2) [OF Q1 w1(1)] by blast
  have nums: "qnum (qheap_of ?w1) q = (if q \<le> 2 then Some 0 else None)" for q
    by (auto simp: php_channel_construct_def wmChannel_create_def wmQueue_create_def Let_def chan_start_def sched.extend_def no_queues_def)
  have z: "q \<le> 2 \<Longrightarrow> Q1 q = Some ys \<Longrightarrow> ys = []" for q ys
    using num_zero [OF chans_okD(1) [OF Q1], of q ys 0] nums [of q] by simp
  have e: "xs = []" "ps = []" "cs = []"
    using z [OF _ chan_isD(1) [OF ci]] z [OF _ chan_isD(2) [OF ci]] z [OF _ chan_isD(3) [OF ci]] by (simp_all add: chan_one_def)
  have wk: "chan_woken ?w1 None = Some ?w1" by (simp add: chan_woken_def)
  have kept1: "freed_kept (qheap_of ?w1)"
    by (simp add: php_channel_construct_def wmChannel_create_def wmQueue_create_def Let_def chan_start_def sched.extend_def no_queues_def)
  obtain h where h: "wmChannel_push_end ?w1 0 7 None = map_option (Pair True) (chan_notify (?w1\<lparr>qheap_of := h\<rparr>) (consumer_queue chan_one))"
      "queues h (Q1(data_queue chan_one \<mapsto> map Datum ([] @ [7])))" "freed_kept h"
    using push_end_ok [OF Q1 w1(1) ci wk, of 7] e kept1 by (auto simp: chan_one_def)
  let ?Q2 = "Q1(data_queue chan_one \<mapsto> map Datum [7])"
  have c2: "chan_is ?Q2 chan_one [7] [] []" using change_waiters(3) [OF ci, of "[7]"] e by (simp add: chan_one_def)
  have hq: "queues (qheap_of (?w1\<lparr>qheap_of := h\<rparr>)) ?Q2" using h(2) by simp
  obtain h2 where h2: "chan_notify (?w1\<lparr>qheap_of := h\<rparr>) (consumer_queue chan_one) = Some (?w1\<lparr>qheap_of := h2\<rparr>)"
      "queues h2 (?Q2(consumer_queue chan_one \<mapsto> []))" "freed_kept h2"
    using notify_ok [OF hq, of "consumer_queue chan_one" "[]"] chan_isD(3) [OF c2] h(3) by (auto simp del: fun_upd_apply)
  let ?w2 = "?w1\<lparr>qheap_of := h2\<rparr>"
  have "?Q2(consumer_queue chan_one \<mapsto> []) = ?Q2" using chan_isD(3) [OF c2] by (simp add: fun_upd_idem del: fun_upd_apply)
  then have q2: "queues (qheap_of ?w2) ?Q2" using h2(2) by simp
  have ok2: "chans_ok ?w2 ?Q2" using chans_ok_change [OF Q1 w1(1) q2 _ c2] by simp
  have pe: "wmChannel_push_end ?w1 0 7 None = Some (True, ?w2)" using h(1) h2(1) by simp
  have r2: "chan_reach ?w2" by (rule chan_reach.step [OF r1 rm1 chan_step.push [OF pe]])
  have rm2: "room ?w2"
  proof -
    have "q \<in> {0, 1, 2} \<or> qnum (qheap_of ?w2) q = None" for q
    proof -
      have "dom (qnum (qheap_of ?w2)) = dom ?Q2" "dom (qnum (qheap_of ?w1)) = dom Q1"
        using q2 chans_okD(1) [OF Q1] by (auto simp: queues_def queue_rep_def)
      then have "dom (qnum (qheap_of ?w2)) = dom (qnum (qheap_of ?w1))" using chan_isD(1) [OF ci] by auto
      moreover have "dom (qnum (qheap_of ?w1)) = {0, 1, 2}" using nums by (auto simp: dom_def split: if_splits)
      ultimately show ?thesis by (metis domIff)
    qed
    moreover have "qnum (qheap_of ?w2) 2 = Some 1" "qnum (qheap_of ?w2) 0 = Some 0" "qnum (qheap_of ?w2) 1 = Some 0"
      using queues_num [OF q2 chan_isD(1) [OF c2]] queues_num [OF q2 chan_isD(2) [OF c2]] queues_num [OF q2 chan_isD(3) [OF c2]]
      by (simp_all add: chan_one_def)
    ultimately have "qnum (qheap_of ?w2) q \<in> {None, Some 0, Some 1}" for q by (metis insertE insertI1 insertI2 singletonD)
    moreover have "Some (- 1 :: u32) \<notin> {None, Some 0, Some 1}" by simp
    ultimately show ?thesis unfolding room_def by metis
  qed
  have "sched_inv ?w2 []" by (rule inv_frame [OF w1(2)]) simp_all
  then obtain w3 co where w3: "wmCoroutine_create (\<lambda>g. (vm_stack_top g + 8, 9)) True ?w2 = Some (1, w3)" "sched_inv w3 [0]"
      "current_task w3 = Some (Task 0)" "tasks w3 0 = Some co" "origin co = Some Main"
    using create_ok [of ?w2 "[]" 1 "\<lambda>g. (vm_stack_top g + 8, 9)"] w1(4-8) by (auto simp: cur_def)
  note M = chan_more_fields [OF create_more [OF w3(1)]]
  have "co_do (Create (\<lambda>g. (vm_stack_top g + 8, 9)) True) ?w2 = Some w3" using w3(1) by (simp add: co_do_def)
  then have "chan_reach w3" by (rule chan_reach.step [OF r2 rm2 chan_step.sched])
  moreover have "chans_ok w3 ?Q2" by (rule chans_ok_cong [OF ok2 M(1-3)])
  moreover have "chans w3 0 = Some chan_one" using M(2) w1(1) by simp
  moreover have "freed_kept (qheap_of w3)" using M(1) h2(3) by simp
  ultimately show ?thesis using w3(2-5) c2 by blast
qed

theorem channel_bounded_witness:
  "\<exists>w. chan_reach w \<and> chans w 0 = Some chan_one \<and>
     (\<exists>xs Q. queues (qheap_of w) Q \<and> Q (data_queue chan_one) = Some (map Datum xs) \<and> length xs \<le> unat (capacity chan_one))"
proof -
  obtain w where w: "chan_reach w" "chans w 0 = Some chan_one" using chan_run by blast
  from channel_bounded [OF w(1), THEN spec, THEN spec, THEN mp, OF w(2)] show ?thesis using w by blast
qed

theorem channel_push_full_witness:
  "\<exists>w w' Q Q'. chan_reach w \<and> chans_ok w Q \<and> chan_is Q chan_one [7] [] [] \<and>
     wmChannel_push_begin w 0 (- 1) = Some (True, None, w') \<and> chan_is Q' chan_one [7] [Some (Task 0)] [] \<and> current_task w' = Some Main"
proof -
  obtain w Q co where w: "chan_reach w" "chans_ok w Q" "chans w 0 = Some chan_one" "chan_is Q chan_one [7] [] []" "sched_inv w [0]"
      "current_task w = Some (Task 0)" "tasks w 0 = Some co" "origin co = Some Main" using chan_run by blast
  have l: "length [] + 1 < (2 ^ 32 :: nat)" by simp
  have fit: "(- 1 :: rat) * 1000 < 2 ^ 32" by simp
  from channel_push_full [OF w(2-4) l w(5-7) fit] obtain wct w' Q' where
      "wmChannel_push_begin w 0 (- 1) = Some (True, wct, w')" "chan_is Q' chan_one [7] ([] @ [Some (Task 0)]) []"
      "current_task w' = origin co" "\<not> 0 < (- 1 :: rat) \<longrightarrow> wct = None"
    by (auto simp: chan_one_def)
  then show ?thesis using w by auto
qed

theorem channel_handoff_witness:
  "\<exists>w w1 w2 Q2. freed_kept (qheap_of w) \<and> wmChannel_pop_end w 0 None = Some (Some 7, w1) \<and> current_task w1 = Some (Task 0) \<and>
     wmChannel_push_end w1 0 8 None = Some (True, w2) \<and> chan_is Q2 chan_one [8] [] []"
proof -
  obtain w Q co where w: "chans_ok w Q" "chans w 0 = Some chan_one" "chan_is Q chan_one [7] [] []" "sched_inv w [0]"
      "current_task w = Some (Task 0)" "tasks w 0 = Some co" "freed_kept (qheap_of w)" using chan_run by blast
  have l: "length [] + 1 < (2 ^ 32 :: nat)" and cap: "unat (capacity chan_one) = 1" by (simp_all add: chan_one_def)
  obtain w' Q' wct where w': "chans_ok w' Q'" "chan_is Q' chan_one [7] [Some (Task 0)] []" "chans w' = chans w" "sched_inv w' []"
      "0 \<notin> set ([] :: nat list)" "tasks w' 0 = Some (co\<lparr>vm := EG w\<rparr>)" "wmChannel_push_begin w 0 (- 1) = Some (True, wct, w')"
    using push_full [OF w(1-3) l w(4-6), of "- 1"] by (auto simp: cap)
  have kept: "freed_kept (qheap_of w')" using push_begin_kept [OF w'(7)] w(7) by simp
  have "chans w' 0 = Some chan_one" using w(2) w'(3) by simp
  moreover have "length [7 :: nat] = unat (capacity chan_one)" by (simp add: chan_one_def)
  ultimately show ?thesis
    using channel_handoff [OF w'(1) _ w'(2) _ w'(4-6), of 0 8] kept by auto
qed

theorem channel_timeout_undefined_witness:
  "\<exists>w n w1. wcts w n = Some (Some (Task 0), True) \<and> sleep_timeout w n = Some w1 \<and> wmChannel_push_end w1 0 8 (Some n) = None"
proof -
  obtain w Q co where w: "chans_ok w Q" "chans w 0 = Some chan_one" "chan_is Q chan_one [7] [] []" "sched_inv w [0]"
      "current_task w = Some (Task 0)" "tasks w 0 = Some co" using chan_run by blast
  have l: "length [] + 1 < (2 ^ 32 :: nat)" and cap: "unat (capacity chan_one) = 1" by (simp_all add: chan_one_def)
  obtain w' :: chan_world where w': "sched_inv w' []" "tasks w' 0 = Some (co\<lparr>vm := EG w\<rparr>)" "wcts w' (next_wct w) = Some (Some (Task 0), True)"
    using push_full [OF w(1-3) l w(4-6), of 1] by (auto simp: cap)
  let ?v = "w'\<lparr>wcts := (wcts w')(next_wct w := None)\<rparr>"
  have i: "sched_inv ?v []" by (rule inv_frame [OF w'(1)]) simp_all
  obtain w1 where w1: "wmCoroutine_resume ?v (Task 0) = Some (True, w1)" "current_task w1 = Some (Task 0)"
    using resume_ok [OF i, of 0 "co\<lparr>vm := EG w\<rparr>"] w'(2) by auto
  have st: "sleep_timeout w' (next_wct w) = Some w1" using w'(3) w1(1) by (simp add: sleep_timeout_def Let_def)
  show ?thesis using channel_timeout_undefined [OF w'(3) st w1(2), of 0 8] w'(3) st by blast
qed

end
