(* ===== verification/Wm_Server_Run.thy ===== *)
theory Wm_Server_Run
  imports Wm_Server
begin

text \<open>
  What the surroundings of the server guarantee: one server for a pid file, as far as the answers of \<open>kill\<close>
  tell, and a restart that ends itself without one; what is read back from the pid file; names of files that
  do not clash, the address of a worker, and the change of user, which does not happen.
\<close>

section \<open>The command line\<close>

lemma master_answersD:
  "master_answers h = Some (b, h') \<Longrightarrow> \<exists>a as. alive_answers h = a # as \<and> b = (a = Alive) \<and> h' = h\<lparr>alive_answers := as\<rparr>"
  by (auto simp: master_answers_def split: list.splits)

lemma stop_waitD:
  assumes "stop_wait n h = Some (True, h')"
  shows "\<exists>k < n. k < length (alive_answers h) \<and> alive_answers h ! k \<noteq> Alive \<and> h' = h\<lparr>alive_answers := drop (k + 1) (alive_answers h)\<rparr>"
  using assms
proof (induction n arbitrary: h)
  case (Suc n)
  obtain b h1 where b: "master_answers h = Some (b, h1)" "(if \<not> b then Some (True, h1) else stop_wait n h1) = Some (True, h')"
    using Suc.prems by (auto simp: bind_Some_iff)
  obtain a as where as: "alive_answers h = a # as" "b = (a = Alive)" "h1 = h\<lparr>alive_answers := as\<rparr>" using master_answersD [OF b(1)] by auto
  show ?case
  proof (cases b)
    case False
    then show ?thesis using b(2) as by (intro exI [of _ 0]) auto
  next
    case True
    then obtain k where "k < n" "k < length as" "as ! k \<noteq> Alive" "h' = h1\<lparr>alive_answers := drop (k + 1) as\<rparr>"
      using Suc.IH [of h1] b(2) as by auto
    then show ?thesis using as by (intro exI [of _ "Suc k"]) auto
  qed
qed simp

lemma read_pid_fileD: "read_pid_file h = Some h' \<Longrightarrow> signalled h' = signalled h \<and> alive_answers h' = alive_answers h \<and> own_pid h' = own_pid h"
  by (auto simp: read_pid_file_def split: option.splits)

lemma master_is_aliveD:
  assumes "master_is_alive h = Some (a, h')"
  shows "master_pid h = 0 \<and> \<not> a \<and> h' = h \<or>
    master_pid h \<noteq> 0 \<and> (\<exists>x as. alive_answers h = x # as \<and> h' = h\<lparr>alive_answers := as\<rparr> \<and> a = (x = Alive \<and> own_pid h \<noteq> master_pid h))"
proof (cases "master_pid h = 0")
  case True
  then show ?thesis using assms by (simp add: master_is_alive_def)
next
  case False
  then obtain b where b: "master_answers h = Some (b, h')" "a = (b \<and> own_pid h' \<noteq> master_pid h')"
    using assms by (auto simp: master_is_alive_def)
  then show ?thesis using master_answersD [OF b(1)] False by auto
qed

text \<open>
  C28: one server for a pid file. The command line lets the process go on as a server in two cases only.
  \<open>start\<close>: no signal is sent, and no master is recorded, or the one call \<open>kill(pid, 0)\<close> fails or the recorded
  process is this one. \<open>restart\<close>: another process is recorded, exactly one \<open>SIGINT\<close> has been sent to it, and
  after that one of at most five calls \<open>kill(pid, 0)\<close> has failed, the last one made. A failure means that there is no such
  process or that it belongs to a user this process may not signal; the code does not tell them apart.
\<close>

theorem worker_single_master:
  assumes "parseCommand rounds command command2 h = Some (True, h')"
  shows "\<exists>c as. Option.bind command command_type = Some c \<and> alive_answers h = as @ alive_answers h' \<and>
     (c = Start \<and> signalled h' = signalled h \<and>
        (master_pid h' = 0 \<and> as = [] \<or> (\<exists>a. as = [a] \<and> (a \<noteq> Alive \<or> master_pid h' = own_pid h))) \<or>
      c = Restart \<and> signalled h' = signalled h @ [(master_pid h', SIGINT)] \<and> master_pid h' \<notin> {0, own_pid h} \<and>
        2 \<le> length as \<and> length as \<le> 6 \<and> last as \<noteq> Alive)"
proof -
  obtain c where c: "Option.bind command command_type = Some c"
    using assms by (auto simp: parseCommand_def split: option.splits)
  let ?d = "if (case command2 of None \<Rightarrow> False | Some c2 \<Rightarrow> strcmp_eq str_d c2) then h\<lparr>daemon := True\<rparr> else h"
  obtain h1 a h2 where h1: "read_pid_file ?d = Some h1" and h2: "master_is_alive h1 = Some (a, h2)"
    and go: "(if a \<and> c = Start then Some (False, h2)
          else if \<not> a \<and> c \<noteq> Start \<and> c \<noteq> Restart then Some (False, h2)
          else case c of
              Start \<Rightarrow> Some (True, h2)
            | Reload \<Rightarrow> Some (False, signal_master SIGUSR1 h2)
            | Status \<Rightarrow> Some (False, status_rounds rounds h2)
            | Connections \<Rightarrow> Some (False, h2)
            | _ \<Rightarrow>
                if master_pid h2 = 0 \<or> master_pid h2 = own_pid h2 then Some (False, signal_master SIGINT h2)
                else
                  Option.bind (stop_wait 5 (signal_master SIGINT h2)) (\<lambda>(dead, h).
                  Some (dead \<and> c = Restart, h))) = Some (True, h')"
    using assms c unfolding parseCommand_def Let_def by (auto simp: bind_Some_iff)
  have e1: "signalled h1 = signalled h" "alive_answers h1 = alive_answers h" "own_pid h1 = own_pid h" using read_pid_fileD [OF h1] by auto
  note al = master_is_aliveD [OF h2]
  have "c = Start \<and> \<not> a \<and> h' = h2 \<or>
      c = Restart \<and> master_pid h2 \<notin> {0, own_pid h2} \<and> stop_wait 5 (signal_master SIGINT h2) = Some (True, h')"
    using go by (cases c) (auto simp: bind_Some_iff split: if_splits)
  then show ?thesis
  proof
    assume s: "c = Start \<and> \<not> a \<and> h' = h2"
    from al show ?thesis
    proof
      assume "master_pid h1 = 0 \<and> \<not> a \<and> h2 = h1"
      then show ?thesis using c s e1 by (intro exI [of _ c] exI [of _ "[]"]) simp
    next
      assume "master_pid h1 \<noteq> 0 \<and> (\<exists>x as. alive_answers h1 = x # as \<and> h2 = h1\<lparr>alive_answers := as\<rparr> \<and> a = (x = Alive \<and> own_pid h1 \<noteq> master_pid h1))"
      then obtain x as where x: "alive_answers h1 = x # as" "h2 = h1\<lparr>alive_answers := as\<rparr>" "a = (x = Alive \<and> own_pid h1 \<noteq> master_pid h1)" by blast
      then show ?thesis using c s e1 by (intro exI [of _ c] exI [of _ "[x]"]) auto
    qed
  next
    assume r: "c = Restart \<and> master_pid h2 \<notin> {0, own_pid h2} \<and> stop_wait 5 (signal_master SIGINT h2) = Some (True, h')"
    then obtain x as where x: "alive_answers h1 = x # as" "h2 = h1\<lparr>alive_answers := as\<rparr>" using al by auto
    obtain k where k: "k < 5" "k < length as" "as ! k \<noteq> Alive" "h' = (signal_master SIGINT h2)\<lparr>alive_answers := drop (k + 1) as\<rparr>"
      using stop_waitD [of 5 "signal_master SIGINT h2" h'] r x(2) by (auto simp: signal_master_def)
    have l: "last (x # take (k + 1) as) = as ! k" "length (take (k + 1) as) = k + 1"
      using k(2) by (simp_all add: take_Suc_conv_app_nth)
    have "alive_answers h = (x # take (k + 1) as) @ alive_answers h'" using x(1) e1(2) k(4) by simp
    then show ?thesis using c r k(1,3,4) x(2) e1 l
      by (intro exI [of _ c] exI [of _ "x # take (k + 1) as"] conjI) (auto simp: signal_master_def)
  qed
qed

text \<open>
  \<open>restart\<close> with no pid file does not start a server: the \<open>SIGINT\<close> for process 0 ends the command itself.
\<close>

theorem restart_without_master:
  assumes "command_type r = Some Restart" "pid_file h = None" "master_pid h = 0"
  shows "\<exists>h'. parseCommand rounds (Some r) command2 h = Some (False, h') \<and> signalled h' = signalled h @ [(0, SIGINT)]"
  using assms by (simp add: parseCommand_def read_pid_file_def master_is_alive_def signal_master_def)

definition plain_shell :: "kill_answer list \<Rightarrow> shell" where
  "plain_shell as = \<lparr>daemon = False, pid_file = None, stray = None, own_pid = 7, master_pid = 0, alive_answers = as, signalled = []\<rparr>"

text \<open>A pid file with the text 42, and a zero behind it.\<close>

definition with_pid_42 :: "kill_answer list \<Rightarrow> shell" where
  "with_pid_42 as = (plain_shell as)\<lparr>pid_file := Some (Some \<lparr>slen = 2, ssize = 2, soff = 0, sbuf = [Some 52, Some 50, None]\<rparr>), stray := Some 0\<rparr>"

lemma restart_word: "command_type str_restart = Some Restart"
  by (simp add: command_type_def strcmp_eq_def str_start_def str_stop_def str_restart_def str_reload_def str_status_def str_connections_def)

lemma read_42: "read_pid_file (with_pid_42 as) = Some ((with_pid_42 as)\<lparr>master_pid := 42\<rparr>)"
  by (simp add: read_pid_file_def with_pid_42_def plain_shell_def atoi_read_def is_digit_def image_iff)

lemma with_pid_42_simps [simp]:
  "own_pid (with_pid_42 as) = 7" "alive_answers (with_pid_42 as) = as" "signalled (with_pid_42 as) = []"
  by (simp_all add: with_pid_42_def plain_shell_def)

theorem worker_single_master_witness:
  "\<exists>h'. parseCommand 1 (Some str_restart) None (with_pid_42 [Alive, Alive, No_process]) = Some (True, h') \<and> signalled h' = [(42, SIGINT)]"
proof -
  obtain h' where h': "parseCommand 1 (Some str_restart) None (with_pid_42 [Alive, Alive, No_process]) = Some (True, h')" "master_pid h' = 42"
    by (auto simp: parseCommand_def restart_word read_42 master_is_alive_def signal_master_def master_answers_def
        eval_nat_numeral)
  show ?thesis using worker_single_master [OF h'(1)] h' restart_word by auto
qed

theorem restart_without_master_witness:
  "\<exists>h'. parseCommand 1 (Some str_restart) None (plain_shell []) = Some (False, h') \<and> signalled h' = [(0, SIGINT)]"
  using restart_without_master [OF restart_word, of "plain_shell []" 1 None] by (simp add: plain_shell_def)

section \<open>The pid file\<close>

lemma digits_read_digits:
  "\<forall>c \<in> set ds. is_digit c \<Longrightarrow> digits_read acc (map Some ds @ b) = digits_read (digits_val acc ds) b"
  by (induction ds arbitrary: acc) auto

lemma atoi_read_dec:
  "atoi_read (map Some (dec_nat n) @ b) =
    Option.bind (digits_read (int n) b) (\<lambda>p. if - (2 ^ 31) \<le> p \<and> p < 2 ^ 31 then Some p else None)"
proof -
  obtain c cs where c: "dec_nat n = c # cs" using dec_nonempty by (cases "dec_nat n") auto
  have "is_digit c" using dec_digits [of c n] c by simp
  then have "48 \<le> unat c" by (simp add: is_digit_def word_le_nat_alt)
  then have "c \<notin> {32, 9, 10, 11, 12, 13}" "c \<noteq> 45" "c \<noteq> 43" by auto
  then have "atoi_read (map Some (dec_nat n) @ b) =
      Option.bind (digits_read 0 (map Some (dec_nat n) @ b)) (\<lambda>p. if - (2 ^ 31) \<le> p \<and> p < 2 ^ 31 then Some p else None)"
    unfolding atoi_read_def c by (simp add: image_iff)
  then show ?thesis using digits_read_digits [of "dec_nat n" 0 b] dec_digits by (simp add: digits_val_dec)
qed

text \<open>
  C29: what \<open>saveMasterPid\<close> writes, however the kernel splits the writes, a later command finds in its
  buffer, however the reads are split; but the text has no terminator there, and the number that is read
  depends on the last byte of the buffer, which nobody has written. If the contents of that memory are not
  determined, reading it is undefined behaviour; if it holds any byte that is not a digit, the same process
  id is read back; if it holds a digit, \<open>atoi\<close> reads on beyond the end of the buffer.
\<close>

theorem worker_pid_roundtrip:
  assumes "0 < pid" "pid < 2 ^ 31" "length (dec_int pid) \<le> 511" "serves ws" "length (dec_int pid) \<le> moves ws" "serves rs" "length (dec_int pid) \<le> moves rs"
  shows "\<exists>s. saveMasterPid pid True disk ws = Some (True, dec_int pid) \<and>
     wm_file_get_contents (\<lambda>_. True) (Some (int (length (dec_int pid)), True)) True (dec_int pid) rs = Some (Some s) \<and>
     (\<forall>h x. read_pid_file (h\<lparr>pid_file := Some (Some s), stray := x\<rparr>) =
       (case x of
          None \<Rightarrow> None
        | Some c \<Rightarrow> if is_digit c then None else Some (h\<lparr>pid_file := Some (Some s), stray := x, master_pid := pid\<rparr>)))"
proof -
  have d: "dec_int pid = dec_nat (nat pid)" "dec_int pid \<noteq> []" using assms(1) dec_nonempty [of "nat pid"] by (simp_all add: dec_int_def)
  have w: "saveMasterPid pid True disk ws = Some (True, dec_int pid)"
    using put_loop_all [of ws "dec_int pid" 0 "[]"] assms(3-5) d(2) by (simp add: saveMasterPid_def wm_file_put_contents_def WM_MAX_FILE_CONTENT_def)
  have "length (dec_int pid) \<le> WM_MAX_FILE_CONTENT" using assms(3) by (simp add: WM_MAX_FILE_CONTENT_def)
  then obtain s where s: "wm_file_get_contents (\<lambda>_. True) (Some (int (length (dec_int pid)), True)) True (dec_int pid) rs = Some (Some s)"
    "sbuf s = map Some (dec_int pid) @ [None]"
    using get_contents_all [OF d(2) _ assms(6,7)] by blast
  have b: "map (\<lambda>y. if y = None then x else y) (sbuf s) = map Some (dec_nat (nat pid)) @ [x]" for x :: "u8 option"
    using s(2) d(1) by (simp add: comp_def)
  show ?thesis using w s(1) assms(1,2) atoi_read_dec [of "nat pid"]
    by (intro exI [of _ s] conjI allI) (auto simp: read_pid_file_def b split: option.split)
qed

theorem worker_pid_roundtrip_witness:
  "\<exists>s. saveMasterPid 42 True [] [Moved 1, Interrupted, Moved 5] = Some (True, dec_int 42) \<and>
     read_pid_file ((plain_shell [])\<lparr>pid_file := Some (Some s), stray := Some 10\<rparr>) = Some ((plain_shell [])\<lparr>pid_file := Some (Some s), stray := Some 10, master_pid := 42\<rparr>)"
proof -
  have l: "length (dec_int 42) = 2" by (simp add: dec_int_def dec_nat.simps)
  have nd: "\<not> is_digit 10" by (simp add: is_digit_def)
  obtain s where "saveMasterPid 42 True [] [Moved 1, Interrupted, Moved 5] = Some (True, dec_int 42)"
      "\<forall>h x. read_pid_file (h\<lparr>pid_file := Some (Some s), stray := x\<rparr>) =
         (case x of None \<Rightarrow> None | Some c \<Rightarrow> if is_digit c then None else Some (h\<lparr>pid_file := Some (Some s), stray := x, master_pid := 42\<rparr>))"
    using worker_pid_roundtrip [of 42 "[Moved 1, Interrupted, Moved 5]" "[Moved 2, Moved 2]" "[]"] l by auto
  then show ?thesis using nd by (intro exI [of _ s]) simp
qed

lemma no_slash_in: "slash \<notin> set (no_slash s)"
  by (auto simp: no_slash_def slash_def)

lemma no_slash_id: "slash \<notin> set s \<Longrightarrow> no_slash s = s"
  unfolding no_slash_def by (rule map_idI) auto

lemma last_slash:
  assumes "xs @ slash # a = ys @ slash # b" "slash \<notin> set a" "slash \<notin> set b"
  shows "xs = ys \<and> a = b"
proof -
  have "rev a @ slash # rev xs = rev b @ slash # rev ys" using arg_cong [OF assms(1), of rev] by simp
  then have "takeWhile (\<lambda>c. c \<noteq> slash) (rev a @ slash # rev xs) = takeWhile (\<lambda>c. c \<noteq> slash) (rev b @ slash # rev ys)" by simp
  moreover have "takeWhile (\<lambda>c. c \<noteq> slash) (rev a) = rev a" "takeWhile (\<lambda>c. c \<noteq> slash) (rev b) = rev b"
    using assms(2,3) by (auto simp: takeWhile_eq_all_conv)
  ultimately have "rev a = rev b" using assms(2,3) by (simp add: takeWhile_tail)
  then show ?thesis using assms(1) by simp
qed

lemma run_dirD: "run_dir f = Some d \<Longrightarrow> \<exists>x n. d = x @ [slash] \<and> f = d @ n \<and> slash \<notin> set n"
proof -
  assume a: "run_dir f = Some d"
  then obtain x n where f: "f = x @ slash # n" "slash \<notin> set n" using split_list_last [of slash f] by (auto simp: run_dir_def split: if_splits)
  then have "dropWhile (\<lambda>c. c \<noteq> slash) (rev f) = slash # rev x" by (auto simp: dropWhile_append)
  then show ?thesis using a f by (auto simp: run_dir_def split: if_splits)
qed

text \<open>two start files have the same pid file only if they are the same file.\<close>

theorem worker_pid_path:
  assumes "pid_path f = Some p" "pid_path g = Some p"
  shows "f = g"
proof -
  obtain d where d: "run_dir f = Some d" "p = d @ no_slash (f @ str_pid)" using assms(1) by (auto simp: pid_path_def)
  obtain e where e: "run_dir g = Some e" "p = e @ no_slash (g @ str_pid)" using assms(2) by (auto simp: pid_path_def)
  obtain x n where x: "d = x @ [slash]" "f = d @ n" "slash \<notin> set n" using run_dirD [OF d(1)] by blast
  obtain y m where y: "e = y @ [slash]" "g = e @ m" "slash \<notin> set m" using run_dirD [OF e(1)] by blast
  have "x @ slash # no_slash (f @ str_pid) = y @ slash # no_slash (g @ str_pid)" using d(2) e(2) x(1) y(1) by simp
  from last_slash [OF this no_slash_in no_slash_in] have "x = y" "no_slash (f @ str_pid) = no_slash (g @ str_pid)" by auto
  then have "d = e" "no_slash f = no_slash g" using x(1) y(1) by (simp_all add: no_slash_def)
  then have "no_slash n = no_slash m" using x(2) y(2) by (simp add: no_slash_def)
  then show ?thesis using no_slash_id [OF x(3)] no_slash_id [OF y(3)] x(2) y(2) \<open>d = e\<close> by simp
qed

theorem worker_pid_path_witness:
  "\<exists>p. pid_path [47, 97, 46, 112] = Some p \<and> (pid_path [47, 98, 46, 112] = Some p \<longrightarrow> [47, 97, 46, 112] = [47, 98, 46, 112 :: u8])"
  using worker_pid_path [of "[47, 97, 46, 112]" _ "[47, 98, 46, 112]"] by (auto simp: pid_path_def run_dir_def slash_def)

section \<open>Addresses and privileges\<close>

lemma strstr_sep: "58 \<notin> set t \<Longrightarrow> strstr (t @ str_sep @ r) str_sep = Some (length t)"
proof (induction t)
  case Nil
  then show ?case by (simp add: str_sep_def)
next
  case (Cons c t)
  then have "c \<noteq> 58" by auto
  then have "take (length str_sep) (c # t @ str_sep @ r) \<noteq> str_sep" by (simp add: str_sep_def)
  then show ?case using Cons by simp
qed

lemma parse_transport:
  assumes "58 \<notin> set t" "58 \<notin> set host" "host = c # cs" "is_digit c"
  shows "parseSocketAddress (t @ str_sep @ host @ 58 # dec_nat port) =
    map_option (\<lambda>tr. (tr, host, int port))
      (if strncmp_eq str_tcp (t @ str_sep @ host @ 58 # dec_nat port) (length t) then Some WM_SOCK_TCP
       else if strncmp_eq str_udp (t @ str_sep @ host @ 58 # dec_nat port) (length t) then Some WM_SOCK_UDP else None)"
proof -
  have p: "parse_ip_address_ex (host @ 58 # dec_nat port) = Some (host, int port)" using parse_ip_address_host_port [OF assms(2)] by simp
  have l: "length str_sep = 3" by (simp add: str_sep_def)
  have dr: "drop (length t + 3) (t @ str_sep @ host @ 58 # dec_nat port) = host @ 58 # dec_nat port" by (simp add: l)
  have nt: "((t @ str_sep @ host @ 58 # dec_nat port) @ [0]) ! (length t + 3) = c"
    using l assms(3) by (simp add: nth_append)
  show ?thesis unfolding parseSocketAddress_def Let_def strstr_sep [OF assms(1)] using p dr nt assms(4) by simp
qed

text \<open>
  the address of a worker. A host that begins with a digit, and a port, are found behind the transport; every
  beginning of \<open>tcp\<close>, the empty one too, is taken for TCP.
\<close>

theorem worker_address:
  assumes "58 \<notin> set host" "host \<noteq> []" "is_digit (host ! 0)" "k \<le> 3"
  shows "parseSocketAddress (take k str_tcp @ str_sep @ host @ 58 # dec_nat port) = Some (WM_SOCK_TCP, host, int port) \<and>
    parseSocketAddress (str_udp @ str_sep @ host @ 58 # dec_nat port) = Some (WM_SOCK_UDP, host, int port)"
proof -
  obtain c cs where h: "host = c # cs" "is_digit c" using assms(2,3) by (cases host) auto
  have n: "58 \<notin> set (take k str_tcp)" "58 \<notin> set str_udp" by (auto simp: str_tcp_def str_udp_def dest: in_set_takeD)
  have "length (take k str_tcp) = k" using assms(4) by (simp add: str_tcp_def)
  then have "strncmp_eq str_tcp (take k str_tcp @ r) (length (take k str_tcp))" for r
    using assms(4) by (auto simp: strncmp_eq_def str_tcp_def numeral_eq_Suc le_Suc_eq)
  moreover have "\<not> strncmp_eq str_tcp (str_udp @ r) (length str_udp)" "strncmp_eq str_udp (str_udp @ r) (length str_udp)" for r
    by (simp_all add: strncmp_eq_def str_tcp_def str_udp_def)
  ultimately show ?thesis using parse_transport [OF n(1) assms(1) h] parse_transport [OF n(2) assms(1) h] by simp
qed

theorem worker_address_witness:
  "parseSocketAddress [116, 58, 47, 47, 49, 46, 49, 58, 56, 48] = Some (WM_SOCK_TCP, [49, 46, 49], 80)"
  using worker_address [of "[49, 46, 49]" 1 80] by (simp add: is_digit_def str_tcp_def str_sep_def dec_nat.simps)

text \<open>
  a worker that should change its user keeps its user id whenever \<open>setgid\<close> succeeds: the tests are
  negated, so \<open>setuid\<close> is called only after both calls before it have failed, and success is reported
  as a failure.
\<close>

theorem worker_privileges:
  "Call_setuid u \<in> set (fst (setUserAndGroup pw cur_uid cur_gid r_setgid r_initgroups r_setuid)) \<longleftrightarrow>
    (\<exists>gid. pw = Some (u, gid) \<and> (u, gid) \<noteq> (cur_uid, cur_gid)) \<and> r_setgid \<noteq> 0 \<and> r_initgroups \<noteq> 0"
  by (auto simp: setUserAndGroup_def split: option.splits)

section \<open>The row of a process in the status file\<close>

lemma long_value: "0 \<le> x \<Longrightarrow> x < 2 ^ 63 \<Longrightarrow> sint (word_of_int x :: u64) = x"
  by (simp add: signed_of_int signed_take_bit_int_eq_self)

lemma itoa_ten:
  assumes "0 \<le> x" "x < 2 ^ 63"
  shows "(\<exists>b. wm_itoa (replicate 10 0) (word_of_int x) = Some (length (dec_int x), b) \<and> take (length (dec_int x)) b = dec_int x) \<and> x < 10 ^ 9 \<or>
    wm_itoa (replicate 10 0) (word_of_int x) = None \<and> 10 ^ 9 \<le> x"
proof -
  have l: "length (dec_int x) < length (replicate 10 (0 :: u8)) \<longleftrightarrow> x < 10 ^ 9"
    using dec_nat_length [of 9 "nat x"] assms(1) by (auto simp: dec_int_def nat_less_iff)
  show ?thesis
  proof (cases "x < 10 ^ 9")
    case True
    then show ?thesis using itoa_fits [of "word_of_int x" "replicate 10 0"] l long_value [OF assms] by auto
  next
    case False
    then show ?thesis using itoa_overruns [of "replicate 10 0" "word_of_int x"] l long_value [OF assms] by auto
  qed
qed

text \<open>
  C36: the row a process writes for the status command. The three numbers are printed into ten bytes
  each: the row is written, with the numbers in their columns, as long as each of them has at most
  nine digits; from a thousand million on, which the count of requests reaches, the buffers on the
  stack are overrun.
\<close>

theorem status_row_bounds:
  assumes "0 \<le> pid" "0 \<le> conns" "0 \<le> requests" "pid < 2 ^ 63" "conns < 2 ^ 63" "requests < 2 ^ 63"
  shows "child_statistics pid memory conns requests sname name mx =
    (if pid < 10 ^ 9 \<and> conns < 10 ^ 9 \<and> requests < 10 ^ 9
     then Some (take 511 (cell 8 (dec_int pid) @ cell 12 (take 9 memory) @
       cell (if 0 < c_int (int (max_socket mx) - 9) then max_socket mx + 2 else 11) sname @
       cell (if 0 < c_int (int (max_name mx) - 11) then max_name mx + 2 else 13) name @
       cell 13 (dec_int conns) @ cell 15 (dec_int requests) @ [10]))
     else None)"
  using itoa_ten [OF assms(1,4)] itoa_ten [OF assms(2,5)] itoa_ten [OF assms(3,6)]
  by (elim disjE conjE exE) (simp_all add: child_statistics_def)

theorem status_row_bounds_witness:
  "child_statistics 4711 [] 2 1000000000 [] [] \<lparr>max_user = 0, max_name = 0, max_socket = 0\<rparr> = None \<and>
   child_statistics 4711 [] 2 999999999 [] [] \<lparr>max_user = 0, max_name = 0, max_socket = 0\<rparr> \<noteq> None"
  using status_row_bounds [of 4711 2 1000000000 "[]" "[]" "[]" "\<lparr>max_user = 0, max_name = 0, max_socket = 0\<rparr>"]
    status_row_bounds [of 4711 2 999999999 "[]" "[]" "[]" "\<lparr>max_user = 0, max_name = 0, max_socket = 0\<rparr>"]
  by simp

end
